(* ===== verification/Prelude.thy ===== *)
theory Prelude
  imports Main "HOL-Library.Word"
begin

text \<open>
  Shared vocabulary of the development: the octets and C integers of the program, the
  named collections the component proofs draw on, and the generic lemmas on lists and
  integers that several components need.

  C \<open>int\<close> values are HOL integers. Where an operation of the source can leave the
  range of a 32-bit \<open>int\<close>, the model reduces its result with \<open>c_int\<close>, the two's
  complement wrap-around of the compilers the program is built with.
\<close>

section \<open>Octets and C integers\<close>

type_synonym octet = "8 word"

definition c_int :: "int \<Rightarrow> int" where
  "c_int x = (x + 2147483648) mod 4294967296 - 2147483648"

definition is_c_int :: "int \<Rightarrow> bool" where
  "is_c_int x \<longleftrightarrow> - 2147483648 \<le> x \<and> x < 2147483648"

text \<open>
  \<open>safe_simps\<close> collects the facts that evaluate an operation of the program on
  operands for which nothing goes wrong; \<open>inv_intros\<close> the rules that preserve an
  invariant.
\<close>

named_theorems safe_simps "operations on well-formed operands"
named_theorems inv_intros "operations that keep an invariant"

lemma c_int_id [simp]: "is_c_int x \<Longrightarrow> c_int x = x"
  by (simp add: c_int_def is_c_int_def)

lemma is_c_int_c_int [simp]: "is_c_int (c_int x)"
  by (simp add: c_int_def is_c_int_def)

lemma c_int_c_int [simp]: "c_int (c_int x) = c_int x"
  by simp

lemma is_c_intI: "- 2147483648 \<le> x \<Longrightarrow> x < 2147483648 \<Longrightarrow> is_c_int x"
  by (simp add: is_c_int_def)

section \<open>Bytes of an integer\<close>

definition octet_of :: "int \<Rightarrow> octet" where
  "octet_of x = word_of_int x"

lemma uint_octet_of: "uint (octet_of x) = x mod 256"
  by (simp add: octet_of_def uint_word_of_int)

lemma uint_octet_of_id [simp]: "0 \<le> x \<Longrightarrow> x < 256 \<Longrightarrow> uint (octet_of x) = x"
  by (simp add: uint_octet_of)

lemma uint_octet_range [simp]: "0 \<le> uint (c :: octet)" "uint c < 256"
  using uint_range_size [of c] by (simp_all add: word_size)

lemma octet_of_uint [simp]: "octet_of (uint c) = c"
  by (simp add: octet_of_def)

section \<open>Outcomes\<close>

text \<open>A function returns, or reads through a null pointer or outside an object.\<close>

datatype 'a run = Crash | Done 'a

fun run_bind :: "'a run \<Rightarrow> ('a \<Rightarrow> 'b run) \<Rightarrow> 'b run" where
  "run_bind Crash f = Crash"
| "run_bind (Done x) f = f x"

fun deref :: "'a option \<Rightarrow> 'a run" where
  "deref None = Crash"
| "deref (Some x) = Done x"

fun run_map :: "('a \<Rightarrow> 'b run) \<Rightarrow> 'a list \<Rightarrow> 'b list run" where
  "run_map f [] = Done []"
| "run_map f (x # xs) = run_bind (f x) (\<lambda>y. run_bind (run_map f xs) (\<lambda>ys. Done (y # ys)))"

lemma run_map_Done: "(\<And>x. x \<in> set xs \<Longrightarrow> f x = Done (g x)) \<Longrightarrow> run_map f xs = Done (map g xs)"
  by (induction xs) simp_all

lemma run_bind_eq_Done: "run_bind x f = Done y \<longleftrightarrow> (\<exists>z. x = Done z \<and> f z = Done y)"
  by (cases x) simp_all

lemma run_bind_Crash [simp]: "run_bind x (\<lambda>z. Crash) = Crash"
  by (cases x) simp_all

lemma run_bind_cong [fundef_cong]:
  "x = y \<Longrightarrow> (\<And>z. y = Done z \<Longrightarrow> f z = g z) \<Longrightarrow> run_bind x f = run_bind y g"
  by (cases y) simp_all

end
