(* ===== verification/Stem.thy ===== *)
theory Stem
  imports Prelude
begin

text \<open>
  The Porter stemmer of the indexer, \<open>src/index/stem.c\<close>: the rule tables, the word
  measures and conditions, the rule driver \<open>ReplaceEnd\<close> and the entry point
  \<open>Stem\<close>, with the properties that make it safe to call on a caller's buffer.

  A C string is the \<open>string\<close> of its characters without the terminating NUL. The word
  buffer and the file's static pointer \<open>end\<close> form the state \<open>stem_state\<close>;
  \<open>end\<close> is kept as the offset from the start of the buffer. The pointer is global,
  and \<open>EndsWithCVC\<close> moves it as a side effect, so the conditions return the new value
  of \<open>end\<close> together with their truth value.
\<close>

section \<open>Character classes of the C locale\<close>

definition c_isupper :: "char \<Rightarrow> bool" where
  "c_isupper c \<longleftrightarrow> 65 \<le> (of_char c :: nat) \<and> (of_char c :: nat) \<le> 90"

definition c_islower :: "char \<Rightarrow> bool" where
  "c_islower c \<longleftrightarrow> 97 \<le> (of_char c :: nat) \<and> (of_char c :: nat) \<le> 122"

definition c_isalpha :: "char \<Rightarrow> bool" where
  "c_isalpha c \<longleftrightarrow> c_isupper c \<or> c_islower c"

definition c_tolower :: "char \<Rightarrow> char" where
  "c_tolower c = (if c_isupper c then char_of ((of_char c :: nat) + 32) else c)"

section \<open>Data\<close>

text \<open>The function pointers of the field \<open>condition\<close>.\<close>

datatype rule_condition = NULL | ContainsVowelP | AddAnEP | RemoveAnEP | RemoveDP

record RuleList =
  id :: int
  old_end :: string
  new_end :: string
  old_offset :: int
  new_offset :: int
  min_root_size :: int
  condition :: rule_condition

record stem_state =
  word :: string
  end_ptr :: int

definition mk_rule ::
    "int \<Rightarrow> string \<Rightarrow> string \<Rightarrow> int \<Rightarrow> int \<Rightarrow> int \<Rightarrow> rule_condition \<Rightarrow> RuleList" where
  "mk_rule i oe ne oo no m c =
     \<lparr>id = i, old_end = oe, new_end = ne, old_offset = oo, new_offset = no,
      min_root_size = m, condition = c\<rparr>"

text \<open>
  The tables, in the order of the source. The sentinel row with \<open>id\<close> 0 that ends each
  C array is the end of the list.
\<close>

definition step1a_rules :: "RuleList list" where
  "step1a_rules =
     [mk_rule 101 ''sses'' ''ss'' 3 1 (-1) NULL,
      mk_rule 102 ''ies'' ''i'' 2 0 (-1) NULL,
      mk_rule 103 ''ss'' ''ss'' 1 1 (-1) NULL,
      mk_rule 104 ''s'' '''' 0 (-1) (-1) NULL]"

definition step1b_rules :: "RuleList list" where
  "step1b_rules =
     [mk_rule 105 ''eed'' ''ee'' 2 1 0 NULL,
      mk_rule 106 ''ed'' '''' 1 (-1) (-1) ContainsVowelP,
      mk_rule 107 ''ing'' '''' 2 (-1) (-1) ContainsVowelP]"

definition step1b1_rules :: "RuleList list" where
  "step1b1_rules =
     [mk_rule 108 ''at'' ''ate'' 1 2 (-1) NULL,
      mk_rule 109 ''bl'' ''ble'' 1 2 (-1) NULL,
      mk_rule 110 ''iz'' ''ize'' 1 2 (-1) NULL,
      mk_rule 111 ''bb'' ''b'' 1 0 (-1) NULL,
      mk_rule 112 ''dd'' ''d'' 1 0 (-1) RemoveDP,
      mk_rule 113 ''ff'' ''f'' 1 0 (-1) NULL,
      mk_rule 114 ''gg'' ''g'' 1 0 (-1) NULL,
      mk_rule 115 ''mm'' ''m'' 1 0 (-1) NULL,
      mk_rule 116 ''nn'' ''n'' 1 0 (-1) NULL,
      mk_rule 117 ''pp'' ''p'' 1 0 (-1) NULL,
      mk_rule 118 ''rr'' ''r'' 1 0 (-1) NULL,
      mk_rule 119 ''tt'' ''t'' 1 0 (-1) NULL,
      mk_rule 120 ''ww'' ''w'' 1 0 (-1) NULL,
      mk_rule 121 ''xx'' ''x'' 1 0 (-1) NULL,
      mk_rule 122 '''' ''e'' (-1) 0 (-1) AddAnEP]"

definition step1c_rules :: "RuleList list" where
  "step1c_rules = [mk_rule 123 ''y'' ''i'' 0 0 (-1) ContainsVowelP]"

definition step2_rules :: "RuleList list" where
  "step2_rules =
     [mk_rule 203 ''ational'' ''ate'' 6 2 0 NULL,
      mk_rule 204 ''tional'' ''tion'' 5 3 0 NULL,
      mk_rule 205 ''enci'' ''ence'' 3 3 0 NULL,
      mk_rule 206 ''anci'' ''ance'' 3 3 0 NULL,
      mk_rule 207 ''izer'' ''ize'' 3 2 0 NULL,
      mk_rule 208 ''abli'' ''able'' 3 3 0 NULL,
      mk_rule 209 ''alli'' ''al'' 3 1 0 NULL,
      mk_rule 210 ''entli'' ''ent'' 4 2 0 NULL,
      mk_rule 211 ''eli'' ''e'' 2 0 0 NULL,
      mk_rule 213 ''ousli'' ''ous'' 4 2 0 NULL,
      mk_rule 214 ''ization'' ''ize'' 6 2 0 NULL,
      mk_rule 215 ''ation'' ''ate'' 4 2 0 NULL,
      mk_rule 216 ''ator'' ''ate'' 3 2 0 NULL,
      mk_rule 217 ''alism'' ''al'' 4 1 0 NULL,
      mk_rule 218 ''iveness'' ''ive'' 6 2 0 NULL,
      mk_rule 219 ''fulnes'' ''ful'' 5 2 0 NULL,
      mk_rule 220 ''ousness'' ''ous'' 6 2 0 NULL,
      mk_rule 221 ''aliti'' ''al'' 4 1 0 NULL,
      mk_rule 222 ''iviti'' ''ive'' 4 2 0 NULL,
      mk_rule 223 ''biliti'' ''ble'' 5 2 0 NULL]"

definition step3_rules :: "RuleList list" where
  "step3_rules =
     [mk_rule 301 ''icate'' ''ic'' 4 1 0 NULL,
      mk_rule 302 ''ative'' '''' 4 (-1) 0 NULL,
      mk_rule 303 ''alize'' ''al'' 4 1 0 NULL,
      mk_rule 304 ''iciti'' ''ic'' 4 1 0 NULL,
      mk_rule 305 ''ical'' ''ic'' 3 1 0 NULL,
      mk_rule 308 ''ful'' '''' 2 (-1) 0 NULL,
      mk_rule 309 ''ness'' '''' 3 (-1) 0 NULL]"

definition step4_rules :: "RuleList list" where
  "step4_rules =
     [mk_rule 401 ''al'' '''' 1 (-1) 1 NULL,
      mk_rule 402 ''ance'' '''' 3 (-1) 1 NULL,
      mk_rule 403 ''ence'' '''' 3 (-1) 1 NULL,
      mk_rule 405 ''er'' '''' 1 (-1) 1 NULL,
      mk_rule 406 ''ic'' '''' 1 (-1) 1 NULL,
      mk_rule 407 ''able'' '''' 3 (-1) 1 NULL,
      mk_rule 408 ''ible'' '''' 3 (-1) 1 NULL,
      mk_rule 409 ''ant'' '''' 2 (-1) 1 NULL,
      mk_rule 410 ''ement'' '''' 4 (-1) 1 NULL,
      mk_rule 411 ''ment'' '''' 3 (-1) 1 NULL,
      mk_rule 412 ''ent'' '''' 2 (-1) 1 NULL,
      mk_rule 423 ''sion'' ''s'' 3 0 1 NULL,
      mk_rule 424 ''tion'' ''t'' 3 0 1 NULL,
      mk_rule 415 ''ou'' '''' 1 (-1) 1 NULL,
      mk_rule 416 ''ism'' '''' 2 (-1) 1 NULL,
      mk_rule 417 ''ate'' '''' 2 (-1) 1 NULL,
      mk_rule 418 ''iti'' '''' 2 (-1) 1 NULL,
      mk_rule 419 ''ous'' '''' 2 (-1) 1 NULL,
      mk_rule 420 ''ive'' '''' 2 (-1) 1 NULL,
      mk_rule 421 ''ize'' '''' 2 (-1) 1 NULL]"

definition step5a_rules :: "RuleList list" where
  "step5a_rules =
     [mk_rule 501 ''e'' '''' 0 (-1) 1 NULL,
      mk_rule 502 ''e'' '''' 0 (-1) (-1) RemoveAnEP]"

definition step5b_rules :: "RuleList list" where
  "step5b_rules = [mk_rule 503 ''ll'' ''l'' 1 0 1 NULL]"

section \<open>Measures and conditions\<close>

definition IsVowel :: "char \<Rightarrow> bool" where
  "IsVowel c \<longleftrightarrow> c = CHR ''a'' \<or> c = CHR ''e'' \<or> c = CHR ''i'' \<or> c = CHR ''o'' \<or> c = CHR ''u''"

text \<open>The automaton of \<open>WordSize\<close>: its state, and whether the step counts.\<close>

fun WordSize_step :: "nat \<Rightarrow> char \<Rightarrow> nat \<times> int" where
  "WordSize_step st c =
     (if st = 0 then (if IsVowel c then 1 else 2, 0)
      else if st = 1 then (if IsVowel c then (1, 0) else (2, 1))
      else (if IsVowel c \<or> c = CHR ''y'' then 1 else 2, 0))"

fun WordSize_loop :: "nat \<Rightarrow> int \<Rightarrow> string \<Rightarrow> int" where
  "WordSize_loop st result [] = result"
| "WordSize_loop st result (c # w) =
     (let (st', inc) = WordSize_step st c in WordSize_loop st' (result + inc) w)"

definition WordSize :: "string \<Rightarrow> int" where
  "WordSize w = WordSize_loop 0 0 w"

text \<open>\<open>strchr(set, c) != NULL\<close> for a character that is not NUL.\<close>

definition in_chars :: "string \<Rightarrow> char \<Rightarrow> bool" where
  "in_chars s c \<longleftrightarrow> c \<in> set s"

definition ContainsVowel :: "string \<Rightarrow> bool" where
  "ContainsVowel w =
     (case w of [] \<Rightarrow> False | c # cs \<Rightarrow> IsVowel c \<or> list_ex (in_chars ''aeiouy'') cs)"

text \<open>
  \<open>EndsWithCVC\<close> walks the static pointer \<open>end\<close> backwards over the word, once per
  test that is evaluated; the second argument is the value of \<open>end\<close> on entry.
\<close>

definition EndsWithCVC :: "string \<Rightarrow> int \<Rightarrow> bool \<times> int" where
  "EndsWithCVC w e =
     (let n = length w in
      if n < 2 then (False, e)
      else if n = 2 then
        (if in_chars ''aeiouwxy'' (w ! 1) then (False, 0)
         else (in_chars ''aeiouy'' (w ! 0), 0))
      else
        (if in_chars ''aeiouwxy'' (w ! (n - 1)) then (False, int n - 2)
         else if \<not> in_chars ''aeiouy'' (w ! (n - 2)) then (False, int n - 3)
         else (\<not> in_chars ''aeiou'' (w ! (n - 3)), int n - 3)))"

definition AddAnE :: "string \<Rightarrow> int \<Rightarrow> bool \<times> int" where
  "AddAnE w e = (if 1 = WordSize w then EndsWithCVC w e else (False, e))"

definition RemoveAnE :: "string \<Rightarrow> int \<Rightarrow> bool \<times> int" where
  "RemoveAnE w e =
     (if 1 = WordSize w then (let (b, e') = EndsWithCVC w e in (\<not> b, e')) else (False, e))"

definition RemoveD :: "string \<Rightarrow> bool" where
  "RemoveD w \<longleftrightarrow> length w > 1"

fun eval_condition :: "rule_condition \<Rightarrow> string \<Rightarrow> int \<Rightarrow> bool \<times> int" where
  "eval_condition NULL w e = (True, e)"
| "eval_condition ContainsVowelP w e = (ContainsVowel w, e)"
| "eval_condition AddAnEP w e = AddAnE w e"
| "eval_condition RemoveAnEP w e = RemoveAnE w e"
| "eval_condition RemoveDP w e = (RemoveD w, e)"

section \<open>The rule driver and the stemmer\<close>

text \<open>
  \<open>drop\<close> at \<open>ending\<close> is the string \<open>strcmp\<close> sees there, \<open>take\<close> the root that
  remains when the suffix is cut off for the tests.
\<close>

fun ReplaceEnd :: "RuleList list \<Rightarrow> stem_state \<Rightarrow> int \<times> stem_state" where
  "ReplaceEnd [] s = (0, s)"
| "ReplaceEnd (r # rs) s =
     (let ending = end_ptr s - old_offset r in
      if 0 \<le> ending \<and> drop (nat ending) (word s) = old_end r then
        (let root = take (nat ending) (word s) in
         if min_root_size r < WordSize root then
           (let (fires, e') = eval_condition (condition r) root (end_ptr s) in
            if fires then (id r, \<lparr>word = root @ new_end r, end_ptr = ending + new_offset r\<rparr>)
            else ReplaceEnd rs (s\<lparr>end_ptr := e'\<rparr>))
         else ReplaceEnd rs s)
      else ReplaceEnd rs s)"

text \<open>Part 1 of \<open>Stem\<close>: lower the word in place, stopping at a non-letter.\<close>

fun lower_word :: "string \<Rightarrow> bool \<times> string" where
  "lower_word [] = (True, [])"
| "lower_word (c # cs) =
     (if \<not> c_isalpha c then (False, c # cs)
      else (let (ok, cs') = lower_word cs in (ok, c_tolower c # cs')))"

definition porter :: "stem_state \<Rightarrow> stem_state" where
  "porter s0 =
     (let s1 = snd (ReplaceEnd step1a_rules s0);
          (rule, s2) = ReplaceEnd step1b_rules s1;
          s3 = (if rule = 106 \<or> rule = 107 then snd (ReplaceEnd step1b1_rules s2) else s2);
          s4 = snd (ReplaceEnd step1c_rules s3);
          s5 = snd (ReplaceEnd step2_rules s4);
          s6 = snd (ReplaceEnd step3_rules s5);
          s7 = snd (ReplaceEnd step4_rules s6);
          s8 = snd (ReplaceEnd step5a_rules s7)
      in snd (ReplaceEnd step5b_rules s8))"

definition Stem :: "string \<Rightarrow> bool \<times> string" where
  "Stem w0 =
     (let (ok, w) = lower_word w0 in
      if \<not> ok then (False, w)
      else if (length w = 1 \<and> w ! 0 = CHR ''s'') \<or> (length w = 2 \<and> w ! 1 = CHR ''s'') then (True, w)
      else (True, word (porter \<lparr>word = w, end_ptr = int (length w) - 1\<rparr>)))"


section \<open>Specification: vowels, suffix rewriting and the synchronised pointer\<close>

text \<open>
  Porter's reading of the letters: \<open>y\<close> is a vowel when it follows a consonant. The
  automaton of the code never looks back, so this is the reference it is compared with.
\<close>

fun vowel_at :: "string \<Rightarrow> nat \<Rightarrow> bool" where
  "vowel_at w 0 = IsVowel (w ! 0)"
| "vowel_at w (Suc i) = (IsVowel (w ! Suc i) \<or> (w ! Suc i = CHR ''y'' \<and> \<not> vowel_at w i))"

definition vc_pairs :: "string \<Rightarrow> nat set" where
  "vc_pairs w = {i. Suc i < length w \<and> vowel_at w i \<and> \<not> vowel_at w (Suc i)}"

text \<open>What a rule table means on words: the first rule whose suffix and tests match.\<close>

fun rule_matches :: "RuleList \<Rightarrow> string \<Rightarrow> bool" where
  "rule_matches r w =
     (\<exists>root. w = root @ old_end r \<and> min_root_size r < WordSize root \<and>
        fst (eval_condition (condition r) root 0))"

fun rewrite_suffix :: "RuleList list \<Rightarrow> string \<Rightarrow> int \<times> string" where
  "rewrite_suffix [] w = (0, w)"
| "rewrite_suffix (r # rs) w =
     (if rule_matches r w
      then (id r, take (length w - length (old_end r)) w @ new_end r)
      else rewrite_suffix rs w)"

definition rule_ok :: "RuleList \<Rightarrow> bool" where
  "rule_ok r \<longleftrightarrow>
     old_offset r = int (length (old_end r)) - 1 \<and> new_offset r = int (length (new_end r)) - 1"

definition pure_condition :: "rule_condition \<Rightarrow> bool" where
  "pure_condition c \<longleftrightarrow> c \<noteq> AddAnEP \<and> c \<noteq> RemoveAnEP"

definition in_sync :: "stem_state \<Rightarrow> bool" where
  "in_sync s \<longleftrightarrow> end_ptr s = int (length (word s)) - 1"

definition stem_inv :: "stem_state \<Rightarrow> bool" where
  "stem_inv s \<longleftrightarrow> end_ptr s \<le> int (length (word s)) - 1"

definition letters :: "string \<Rightarrow> bool" where
  "letters w \<longleftrightarrow> list_all c_islower w"

lemmas rule_tables =
  step1a_rules_def step1b_rules_def step1b1_rules_def step1c_rules_def step2_rules_def
  step3_rules_def step4_rules_def step5a_rules_def step5b_rules_def

definition all_rules :: "RuleList list" where
  "all_rules = step1a_rules @ step1b_rules @ step1b1_rules @ step1c_rules @ step2_rules @
     step3_rules @ step4_rules @ step5a_rules @ step5b_rules"

section \<open>The measure\<close>

lemma finite_vc_pairs [simp]: "finite (vc_pairs w)"
  by (rule finite_subset [of _ "{..<length w}"]) (auto simp: vc_pairs_def)

lemma vowel_at_append: "i < length w \<Longrightarrow> vowel_at (w @ v) i = vowel_at w i"
  by (induction i) (auto simp: nth_append)

text \<open>The state of the automaton after a prefix says how that prefix ends.\<close>

definition dfa_state :: "string \<Rightarrow> nat" where
  "dfa_state w = (if w = [] then 0 else if vowel_at w (length w - 1) then 1 else 2)"

lemma dfa_state_snoc: "dfa_state (w @ [c]) = fst (WordSize_step (dfa_state w) c)"
proof (cases "w = []")
  case True
  then show ?thesis by (simp add: dfa_state_def)
next
  case False
  then obtain k where k: "length w = Suc k" by (cases w) auto
  have at: "vowel_at (w @ [c]) (Suc k) = (IsVowel c \<or> (c = CHR ''y'' \<and> \<not> vowel_at w k))"
    using k by (simp add: nth_append vowel_at_append)
  show ?thesis using False at k by (auto simp: dfa_state_def)
qed

lemma vc_pairs_snoc:
  "vc_pairs (w @ [c]) =
     (if snd (WordSize_step (dfa_state w) c) = 1 then insert (length w - 1) (vc_pairs w) else vc_pairs w)"
proof -
  have old: "i \<in> vc_pairs (w @ [c]) \<longleftrightarrow> i \<in> vc_pairs w" if "Suc i < length w" for i
    using that by (simp add: vc_pairs_def vowel_at_append nth_append)
  have new: "i \<in> vc_pairs (w @ [c]) \<longleftrightarrow> snd (WordSize_step (dfa_state w) c) = 1"
    if i: "Suc i = length w" for i
  proof -
    have "vowel_at (w @ [c]) i = vowel_at w i" using i by (simp add: vowel_at_append)
    moreover have "vowel_at (w @ [c]) (Suc i) = (IsVowel c \<or> (c = CHR ''y'' \<and> \<not> vowel_at w i))"
      by (simp add: i [symmetric] nth_append vowel_at_append)
    moreover have "length w - 1 = i" "w \<noteq> []" using i by auto
    ultimately show ?thesis using i by (auto simp: vc_pairs_def dfa_state_def)
  qed
  have out: "i \<notin> vc_pairs (w @ [c]) \<and> i \<notin> vc_pairs w" if "length w < Suc i" for i
    using that by (simp add: vc_pairs_def)
  have out': "i \<notin> vc_pairs w" if "Suc i = length w" for i
    using that by (simp add: vc_pairs_def)
  show ?thesis
  proof (rule set_eqI)
    fix i
    consider "Suc i < length w" | "Suc i = length w" | "length w < Suc i" by linarith
    then show "i \<in> vc_pairs (w @ [c]) \<longleftrightarrow> i \<in> (if snd (WordSize_step (dfa_state w) c) = 1
        then insert (length w - 1) (vc_pairs w) else vc_pairs w)"
    proof cases
      case 1
      then have "i \<noteq> length w - 1" by linarith
      with old [OF 1] show ?thesis by simp
    next
      case 2
      then have "i = length w - 1" by linarith
      with new [OF 2] out' [OF 2] show ?thesis by simp
    next
      case 3
      have "dfa_state w = 1 \<Longrightarrow> i \<noteq> length w - 1"
        using 3 by (cases w) (auto simp: dfa_state_def)
      with out [OF 3] show ?thesis by auto
    qed
  qed
qed

lemma WordSize_loop_snoc:
  "WordSize_loop (dfa_state u) n w = n + int (card (vc_pairs (u @ w))) - int (card (vc_pairs u))"
proof (induction w arbitrary: u n)
  case Nil
  show ?case by simp
next
  case (Cons c w)
  let ?inc = "snd (WordSize_step (dfa_state u) c)"
  have inc: "?inc = int (card (vc_pairs (u @ [c]))) - int (card (vc_pairs u))"
  proof (cases "?inc = 1")
    case True
    then have "length u - 1 \<notin> vc_pairs u" by (auto simp: vc_pairs_def)
    then show ?thesis using True by (simp add: vc_pairs_snoc)
  next
    case False
    then have "?inc = 0" by (auto split: if_splits)
    then show ?thesis by (simp add: vc_pairs_snoc)
  qed
  have "WordSize_loop (dfa_state u) n (c # w) = WordSize_loop (dfa_state (u @ [c])) (n + ?inc) w"
    by (simp add: dfa_state_snoc case_prod_beta del: WordSize_step.simps)
  also have "\<dots> = n + ?inc + int (card (vc_pairs (u @ c # w))) - int (card (vc_pairs (u @ [c])))"
    using Cons.IH [of "u @ [c]" "n + ?inc"] by simp
  finally show ?case using inc by simp
qed

lemma WordSize_card: "WordSize w = int (card (vc_pairs w))"
proof -
  have "WordSize_loop (dfa_state []) 0 w = int (card (vc_pairs w)) - int (card (vc_pairs []))"
    using WordSize_loop_snoc [of "[]" 0 w] by simp
  then show ?thesis by (simp add: WordSize_def dfa_state_def vc_pairs_def)
qed

lemma WordSize_nonneg [simp]: "0 \<le> WordSize w"
  by (simp add: WordSize_card)


lemma ContainsVowel_vowel_at: "ContainsVowel w \<longleftrightarrow> (\<exists>i < length w. vowel_at w i)"
proof (cases w)
  case Nil
  then show ?thesis by (simp add: ContainsVowel_def)
next
  case (Cons c cs)
  have y: "in_chars ''aeiouy'' d \<longleftrightarrow> IsVowel d \<or> d = CHR ''y''" for d
    by (auto simp: in_chars_def IsVowel_def)
  show ?thesis
  proof
    assume "ContainsVowel w"
    with Cons y consider "IsVowel c" | i where "i < length cs" "IsVowel (cs ! i) \<or> cs ! i = CHR ''y''"
      by (auto simp: ContainsVowel_def list_ex_iff in_set_conv_nth)
    then show "\<exists>i < length w. vowel_at w i"
    proof cases
      case 1
      with Cons have "0 < length w \<and> vowel_at w 0" by simp
      then show ?thesis by blast
    next
      case 2
      then have "vowel_at w (Suc i) \<or> vowel_at w i" using Cons by auto
      then show ?thesis using 2 Cons by (metis Suc_lessD Suc_mono length_Cons)
    qed
  next
    assume "\<exists>i < length w. vowel_at w i"
    then obtain i where i: "i < length w" "vowel_at w i" by blast
    show "ContainsVowel w"
    proof (cases i)
      case 0
      with i Cons show ?thesis by (simp add: ContainsVowel_def)
    next
      case (Suc j)
      with i Cons have "j < length cs" "in_chars ''aeiouy'' (cs ! j)" by (auto simp: y)
      then have "list_ex (in_chars ''aeiouy'') cs" by (metis list_ex_iff nth_mem)
      with Cons show ?thesis by (simp add: ContainsVowel_def)
    qed
  qed
qed

section \<open>Characters\<close>

lemma c_islower_tolower [simp]: "c_isalpha c \<Longrightarrow> c_islower (c_tolower c)"
  by (auto simp: c_isalpha_def c_islower_def c_isupper_def c_tolower_def)

lemma lower_word_ok: "fst (lower_word w) \<longleftrightarrow> list_all c_isalpha w"
  by (induction w) (auto simp: case_prod_beta Let_def)

lemma length_lower_word [simp]: "length (snd (lower_word w)) = length w"
  by (induction w) (auto simp: case_prod_beta Let_def)

lemma lower_word_map: "list_all c_isalpha w \<Longrightarrow> snd (lower_word w) = map c_tolower w"
  by (induction w) (auto simp: case_prod_beta Let_def)

lemma letters_lower_word: "list_all c_isalpha w \<Longrightarrow> letters (snd (lower_word w))"
  by (simp add: lower_word_map letters_def list_all_iff)

lemma letters_append [simp]: "letters (u @ v) \<longleftrightarrow> letters u \<and> letters v"
  by (simp add: letters_def)

section \<open>One table\<close>

lemma all_rules_ok: "list_all rule_ok all_rules"
  by (simp add: all_rules_def rule_tables rule_ok_def mk_rule_def)

lemma all_rules_letters: "list_all (\<lambda>r. letters (new_end r)) all_rules"
  by (simp add: all_rules_def rule_tables letters_def mk_rule_def c_islower_def)

lemma table_ok [simp]:
  "list_all rule_ok step1a_rules" "list_all rule_ok step1b_rules"
  "list_all rule_ok step1b1_rules" "list_all rule_ok step1c_rules"
  "list_all rule_ok step2_rules" "list_all rule_ok step3_rules"
  "list_all rule_ok step4_rules" "list_all rule_ok step5a_rules"
  "list_all rule_ok step5b_rules"
  using all_rules_ok by (simp_all add: all_rules_def)

lemma EndsWithCVC_end: "snd (EndsWithCVC w e) \<le> max e (int (length w) - 1)"
  by (auto simp: EndsWithCVC_def Let_def)

lemma eval_condition_end: "snd (eval_condition c w e) \<le> max e (int (length w) - 1)"
  using EndsWithCVC_end [of w e]
  by (cases c) (auto simp: AddAnE_def RemoveAnE_def case_prod_beta Let_def)

lemma eval_condition_pure: "pure_condition c \<Longrightarrow> eval_condition c w e = (fst (eval_condition c w 0), e)"
  by (cases c) (auto simp: pure_condition_def)

lemma eval_condition_fst: "fst (eval_condition c w e) = fst (eval_condition c w 0)"
  by (cases c) (auto simp: AddAnE_def RemoveAnE_def EndsWithCVC_def case_prod_beta Let_def)

text \<open>
  The outcome of a table: no rule fires and the word is as before, or the suffix of one of
  its rules has been replaced and \<open>end\<close> is back on the last character.
\<close>

lemma ReplaceEnd_cases:
  assumes "stem_inv s" and "list_all rule_ok rs"
  obtains (none) s' where "ReplaceEnd rs s = (0, s')" "word s' = word s" "stem_inv s'"
  | (fired) r root s' where "r \<in> set rs" "ReplaceEnd rs s = (id r, s')"
      "word s = root @ old_end r" "word s' = root @ new_end r" "in_sync s'"
  using assms
proof (induction rs arbitrary: s thesis)
  case Nil
  then show ?case by simp
next
  case (Cons r rs)
  define ending where "ending = end_ptr s - old_offset r"
  define root where "root = take (nat ending) (word s)"
  have ok: "rule_ok r" "list_all rule_ok rs" using Cons.prems by simp_all
  have le: "ending \<le> int (length (word s))"
    using Cons.prems(3) ok(1) by (simp add: ending_def stem_inv_def rule_ok_def)
  have rec: thesis if "ReplaceEnd (r # rs) s = ReplaceEnd rs (s\<lparr>end_ptr := e\<rparr>)"
    and "stem_inv (s\<lparr>end_ptr := e\<rparr>)" for e
    by (rule Cons.IH [of "s\<lparr>end_ptr := e\<rparr>"]) (use that ok Cons.prems(1,2) in auto)
  show ?case
  proof (cases "0 \<le> ending \<and> drop (nat ending) (word s) = old_end r \<and> min_root_size r < WordSize root")
    case False
    then have "ReplaceEnd (r # rs) s = ReplaceEnd rs (s\<lparr>end_ptr := end_ptr s\<rparr>)"
      by (auto simp: ending_def root_def Let_def)
    then show ?thesis by (rule rec) (use Cons.prems(3) in simp)
  next
    case True
    obtain fires e' where ev: "eval_condition (condition r) root (end_ptr s) = (fires, e')"
      by (cases "eval_condition (condition r) root (end_ptr s)")
    have w: "word s = root @ old_end r" using True append_take_drop_id [of "nat ending" "word s"] by (simp add: root_def)
    have lr: "int (length root) = ending" using True le by (simp add: root_def)
    show ?thesis
    proof (cases fires)
      case True
      let ?s' = "\<lparr>word = root @ new_end r, end_ptr = ending + new_offset r\<rparr>"
      have "ReplaceEnd (r # rs) s = (id r, ?s')"
        using \<open>0 \<le> ending \<and> _\<close> ev True by (simp add: ending_def root_def Let_def)
      moreover have "in_sync ?s'" using ok(1) lr by (simp add: in_sync_def rule_ok_def)
      ultimately show ?thesis using Cons.prems(2) [of r ?s' root] w by simp
    next
      case False
      have "ReplaceEnd (r # rs) s = ReplaceEnd rs (s\<lparr>end_ptr := e'\<rparr>)"
        using \<open>0 \<le> ending \<and> _\<close> ev False by (simp add: ending_def root_def Let_def)
      moreover have "e' \<le> max (end_ptr s) (int (length root) - 1)"
        using eval_condition_end [of "condition r" root "end_ptr s"] ev by simp
      then have "stem_inv (s\<lparr>end_ptr := e'\<rparr>)"
        using Cons.prems(3) w by (auto simp: stem_inv_def)
      ultimately show ?thesis by (rule rec)
    qed
  qed
qed


lemma in_sync_inv [simp, intro]: "in_sync s \<Longrightarrow> stem_inv s"
  by (simp add: in_sync_def stem_inv_def)

lemma ReplaceEnd_inv [inv_intros]:
  assumes "stem_inv s" and "list_all rule_ok rs"
  shows "stem_inv (snd (ReplaceEnd rs s))"
  using assms by (cases rule: ReplaceEnd_cases) auto

text \<open>
  \<open>stem_safe n s\<close>: the word fits a buffer of \<open>n\<close> characters, holds lower-case
  letters only, and \<open>end\<close> does not point past its last character.
\<close>

definition stem_safe :: "nat \<Rightarrow> stem_state \<Rightarrow> bool" where
  "stem_safe n s \<longleftrightarrow> stem_inv s \<and> length (word s) \<le> n \<and> letters (word s)"

definition grows_by :: "nat \<Rightarrow> RuleList list \<Rightarrow> bool" where
  "grows_by k rs \<longleftrightarrow> list_all (\<lambda>r. length (new_end r) \<le> length (old_end r) + k) rs"

lemma grows_tables [simp]:
  "grows_by 0 step1a_rules" "grows_by (Suc 0) step1b1_rules" "grows_by 0 step1c_rules"
  "grows_by 0 step2_rules" "grows_by 0 step3_rules" "grows_by 0 step4_rules"
  "grows_by 0 step5a_rules" "grows_by 0 step5b_rules"
  by (simp_all add: grows_by_def rule_tables mk_rule_def)

lemma letters_tables [simp]:
  "list_all (\<lambda>r. letters (new_end r)) step1a_rules" "list_all (\<lambda>r. letters (new_end r)) step1b_rules"
  "list_all (\<lambda>r. letters (new_end r)) step1b1_rules" "list_all (\<lambda>r. letters (new_end r)) step1c_rules"
  "list_all (\<lambda>r. letters (new_end r)) step2_rules" "list_all (\<lambda>r. letters (new_end r)) step3_rules"
  "list_all (\<lambda>r. letters (new_end r)) step4_rules" "list_all (\<lambda>r. letters (new_end r)) step5a_rules"
  "list_all (\<lambda>r. letters (new_end r)) step5b_rules"
  using all_rules_letters by (simp_all add: all_rules_def)

lemma ReplaceEnd_safe [inv_intros]:
  assumes "stem_safe n s" and "list_all rule_ok rs" and "list_all (\<lambda>r. letters (new_end r)) rs"
    and "grows_by k rs"
  shows "stem_safe (n + k) (snd (ReplaceEnd rs s))"
proof -
  have "stem_inv s" using assms(1) by (simp add: stem_safe_def)
  then show ?thesis using assms(2)
  proof (cases rule: ReplaceEnd_cases)
    case (none s')
    then show ?thesis using assms(1) by (simp add: stem_safe_def)
  next
    case (fired r root s')
    with assms(3,4) have "length (new_end r) \<le> length (old_end r) + k" "letters (new_end r)"
      by (auto simp: list_all_iff grows_by_def)
    with fired assms(1) show ?thesis by (auto simp: stem_safe_def)
  qed
qed

lemma ReplaceEnd_safe0 [inv_intros]:
  "stem_safe n s \<Longrightarrow> list_all rule_ok rs \<Longrightarrow> list_all (\<lambda>r. letters (new_end r)) rs \<Longrightarrow> grows_by 0 rs
     \<Longrightarrow> stem_safe n (snd (ReplaceEnd rs s))"
  using ReplaceEnd_safe [of n s rs 0] by simp

text \<open>Step 1b frees the character that step 1b1 may write.\<close>

lemma step1b_safe:
  assumes "stem_safe n s" and "ReplaceEnd step1b_rules s = (i, s')"
  shows "stem_safe n s' \<and> (i = 106 \<or> i = 107 \<longrightarrow> 0 < n \<and> stem_safe (n - 1) s')"
proof -
  have "stem_inv s" using assms(1) by (simp add: stem_safe_def)
  then show ?thesis using table_ok(2)
  proof (cases rule: ReplaceEnd_cases)
    case (none s'')
    then show ?thesis using assms by (simp add: stem_safe_def)
  next
    case (fired r root s'')
    then have r: "r \<in> set step1b_rules" "i = id r" "s' = s''" using assms(2) by auto
    then have "length (new_end r) \<le> length (old_end r)" "letters (new_end r)"
      "i = 106 \<or> i = 107 \<longrightarrow> length (new_end r) + 2 \<le> length (old_end r)"
      by (auto simp: step1b_rules_def mk_rule_def letters_def c_islower_def)
    with fired r(3) assms(1) show ?thesis by (auto simp: stem_safe_def)
  qed
qed

text \<open>A synchronised pointer sees exactly the suffixes of the word.\<close>

lemma ending_suffix:
  assumes "in_sync s" and "rule_ok r"
  shows "0 \<le> end_ptr s - old_offset r \<and> drop (nat (end_ptr s - old_offset r)) (word s) = old_end r
     \<longleftrightarrow> (\<exists>root. word s = root @ old_end r)"
    and "nat (end_ptr s - old_offset r) = length (word s) - length (old_end r)"
proof -
  have e: "end_ptr s - old_offset r = int (length (word s)) - int (length (old_end r))"
    using assms by (simp add: in_sync_def rule_ok_def)
  then show "nat (end_ptr s - old_offset r) = length (word s) - length (old_end r)" by simp
  show "0 \<le> end_ptr s - old_offset r \<and> drop (nat (end_ptr s - old_offset r)) (word s) = old_end r
     \<longleftrightarrow> (\<exists>root. word s = root @ old_end r)"
  proof
    assume "0 \<le> end_ptr s - old_offset r \<and> drop (nat (end_ptr s - old_offset r)) (word s) = old_end r"
    then show "\<exists>root. word s = root @ old_end r" by (metis append_take_drop_id)
  next
    assume "\<exists>root. word s = root @ old_end r"
    then show "0 \<le> end_ptr s - old_offset r \<and> drop (nat (end_ptr s - old_offset r)) (word s) = old_end r"
      unfolding e by (auto simp: nat_diff_distrib)
  qed
qed

lemma ReplaceEnd_step_sync:
  assumes "in_sync s" and "rule_ok r"
  shows "ReplaceEnd (r # rs) s =
     (if rule_matches r (word s)
      then (id r, \<lparr>word = take (length (word s) - length (old_end r)) (word s) @ new_end r,
                   end_ptr = int (length (word s)) - int (length (old_end r)) + int (length (new_end r)) - 1\<rparr>)
      else if \<exists>root. word s = root @ old_end r \<and> min_root_size r < WordSize root
      then ReplaceEnd rs (s\<lparr>end_ptr := snd (eval_condition (condition r)
             (take (length (word s) - length (old_end r)) (word s)) (end_ptr s))\<rparr>)
      else ReplaceEnd rs s)"
proof (cases "\<exists>root. word s = root @ old_end r")
  case False
  then show ?thesis using ending_suffix [OF assms] by (auto simp: Let_def)
next
  case True
  then obtain root where w: "word s = root @ old_end r" by blast
  have root: "take (length (word s) - length (old_end r)) (word s) = root" by (simp add: w)
  have m: "rule_matches r (word s) \<longleftrightarrow>
      min_root_size r < WordSize root \<and> fst (eval_condition (condition r) root 0)"
    by (simp add: w)
  have e: "end_ptr s - old_offset r + new_offset r =
      int (length (word s)) - int (length (old_end r)) + int (length (new_end r)) - 1"
    using assms by (simp add: in_sync_def rule_ok_def)
  have x: "(\<exists>u. word s = u @ old_end r \<and> min_root_size r < WordSize u) \<longleftrightarrow> min_root_size r < WordSize root"
    by (simp add: w)
  obtain b e' where ev: "eval_condition (condition r) root (end_ptr s) = (b, e')" by fastforce
  then have b: "fst (eval_condition (condition r) root 0) = b"
    using eval_condition_fst [of "condition r" root "end_ptr s"] by simp
  show ?thesis
    unfolding ReplaceEnd.simps Let_def ending_suffix(2) [OF assms] root x m b
    using ending_suffix(1) [OF assms] True ev e
    unfolding ending_suffix(2) [OF assms] by auto
qed

lemma ReplaceEnd_no_suffix:
  assumes "in_sync s" and "list_all rule_ok rs" and "\<forall>r \<in> set rs. \<nexists>root. word s = root @ old_end r"
  shows "ReplaceEnd rs s = (0, s)"
  using assms(2,3)
proof (induction rs)
  case (Cons r rs)
  then show ?case
    using ReplaceEnd_step_sync [OF assms(1), of r rs] by (simp del: ReplaceEnd.simps(2))
qed simp

lemma ReplaceEnd_refines:
  assumes "in_sync s" and "list_all rule_ok rs" and "list_all (\<lambda>r. pure_condition (condition r)) rs"
  shows "ReplaceEnd rs s =
     (let (i, w) = rewrite_suffix rs (word s) in (i, \<lparr>word = w, end_ptr = int (length w) - 1\<rparr>))"
  using assms(2,3)
proof (induction rs)
  case Nil
  then show ?case using assms(1) by (simp add: in_sync_def)
next
  case (Cons r rs)
  have id_upd: "s\<lparr>end_ptr := snd (eval_condition (condition r) u (end_ptr s))\<rparr> = s" for u
    using Cons.prems by (subst eval_condition_pure) simp_all
  have len: "length (word s) - length (old_end r) \<le> length (word s)" by simp
  have sz: "int (length (take (length (word s) - length (old_end r)) (word s) @ new_end r)) - 1 =
      int (length (word s)) - int (length (old_end r)) + int (length (new_end r)) - 1"
    if "rule_matches r (word s)" using that by auto
  show ?case
    using Cons ReplaceEnd_step_sync [OF assms(1), of r rs] sz
    by (simp add: id_upd del: ReplaceEnd.simps rule_matches.simps)
qed

lemma ReplaceEnd_append:
  assumes "in_sync s" and "list_all rule_ok ps" and "list_all (\<lambda>r. pure_condition (condition r)) ps"
  shows "ReplaceEnd (ps @ qs) s =
     (if list_ex (\<lambda>r. rule_matches r (word s)) ps then ReplaceEnd ps s else ReplaceEnd qs s)"
  using assms(2,3)
proof (induction ps)
  case Nil
  then show ?case by simp
next
  case (Cons r rs)
  have id_upd: "s\<lparr>end_ptr := snd (eval_condition (condition r) u (end_ptr s))\<rparr> = s" for u
    using Cons.prems by (subst eval_condition_pure) simp_all
  show ?case
    using Cons ReplaceEnd_step_sync [OF assms(1), of r rs] ReplaceEnd_step_sync [OF assms(1), of r "rs @ qs"]
    by (simp add: id_upd del: ReplaceEnd.simps rule_matches.simps)
qed

lemma rewrite_suffix_append:
  "rewrite_suffix (ps @ qs) w =
     (if list_ex (\<lambda>r. rule_matches r w) ps then rewrite_suffix ps w else rewrite_suffix qs w)"
  by (induction ps) (simp_all del: rule_matches.simps)

text \<open>
  A table whose last rule alone has a condition with a side effect still rewrites the word
  as specified; only the pointer may be left behind.
\<close>

lemma ReplaceEnd_words:
  assumes "in_sync s" and "list_all rule_ok (ps @ [r])"
    and "list_all (\<lambda>r. pure_condition (condition r)) ps"
  shows "fst (ReplaceEnd (ps @ [r]) s) = fst (rewrite_suffix (ps @ [r]) (word s))"
    and "word (snd (ReplaceEnd (ps @ [r]) s)) = snd (rewrite_suffix (ps @ [r]) (word s))"
proof -
  have ok: "list_all rule_ok ps" "rule_ok r" using assms(2) by auto
  have ps: "ReplaceEnd ps s = (let (i, w) = rewrite_suffix ps (word s)
      in (i, \<lparr>word = w, end_ptr = int (length w) - 1\<rparr>))"
    by (rule ReplaceEnd_refines [OF assms(1) ok(1) assms(3)])
  have r: "fst (ReplaceEnd [r] s) = fst (rewrite_suffix [r] (word s))"
    "word (snd (ReplaceEnd [r] s)) = snd (rewrite_suffix [r] (word s))"
    using ReplaceEnd_step_sync [OF assms(1) ok(2), of "[]"]
    by (simp_all del: ReplaceEnd.simps(2) rule_matches.simps)
  note step = ReplaceEnd_append [OF assms(1) ok(1) assms(3)] rewrite_suffix_append
  show "fst (ReplaceEnd (ps @ [r]) s) = fst (rewrite_suffix (ps @ [r]) (word s))"
    "word (snd (ReplaceEnd (ps @ [r]) s)) = snd (rewrite_suffix (ps @ [r]) (word s))"
    using r ps by (simp_all add: step case_prod_beta Let_def del: ReplaceEnd.simps rule_matches.simps)
qed

section \<open>The whole stemmer against its reference\<close>

text \<open>The steps of the algorithm as rewriting of words, with no pointer to go astray.\<close>

definition porter_ref :: "string \<Rightarrow> string" where
  "porter_ref w0 =
     (let w1 = snd (rewrite_suffix step1a_rules w0);
          (rule, w2) = rewrite_suffix step1b_rules w1;
          w3 = (if rule = 106 \<or> rule = 107 then snd (rewrite_suffix step1b1_rules w2) else w2);
          w4 = snd (rewrite_suffix step1c_rules w3);
          w5 = snd (rewrite_suffix step2_rules w4);
          w6 = snd (rewrite_suffix step3_rules w5);
          w7 = snd (rewrite_suffix step4_rules w6);
          w8 = snd (rewrite_suffix step5a_rules w7)
      in snd (rewrite_suffix step5b_rules w8))"

text \<open>
  The words after whose step 1b the pointer is left behind: \<open>ed\<close> or \<open>ing\<close> was
  removed, no rule of step 1b1 applied, and \<open>EndsWithCVC\<close> was called on the way.
\<close>

definition stranded :: "string \<Rightarrow> bool" where
  "stranded w =
     (let (rule, w2) = rewrite_suffix step1b_rules (snd (rewrite_suffix step1a_rules w))
      in (rule = 106 \<or> rule = 107) \<and> fst (rewrite_suffix step1b1_rules w2) = 0 \<and> WordSize w2 = 1)"

lemma pure_tables [simp]:
  "list_all (\<lambda>r. pure_condition (condition r)) step1a_rules"
  "list_all (\<lambda>r. pure_condition (condition r)) step1b_rules"
  "list_all (\<lambda>r. pure_condition (condition r)) step1c_rules"
  "list_all (\<lambda>r. pure_condition (condition r)) step2_rules"
  "list_all (\<lambda>r. pure_condition (condition r)) step3_rules"
  "list_all (\<lambda>r. pure_condition (condition r)) step4_rules"
  "list_all (\<lambda>r. pure_condition (condition r)) step5b_rules"
  "list_all (\<lambda>r. pure_condition (condition r)) (butlast step1b1_rules)"
  "list_all (\<lambda>r. pure_condition (condition r)) (butlast step5a_rules)"
  by (simp_all add: rule_tables mk_rule_def pure_condition_def)

definition synced :: "string \<Rightarrow> stem_state" where
  "synced w = \<lparr>word = w, end_ptr = int (length w) - 1\<rparr>"

lemma synced_simps [simp]: "in_sync (synced w)" "word (synced w) = w"
  by (simp_all add: synced_def in_sync_def)

lemma in_sync_synced: "in_sync s \<Longrightarrow> s = synced (word s)"
  by (simp add: synced_def in_sync_def)

lemma ReplaceEnd_synced:
  assumes "list_all rule_ok rs" and "list_all (\<lambda>r. pure_condition (condition r)) rs"
  shows "ReplaceEnd rs (synced w) =
     (fst (rewrite_suffix rs w), synced (snd (rewrite_suffix rs w)))"
  using ReplaceEnd_refines [OF _ assms, of "synced w"] by (simp add: synced_def case_prod_beta in_sync_def)

lemma last_tables:
  "step1b1_rules = butlast step1b1_rules @ [mk_rule 122 '''' ''e'' (-1) 0 (-1) AddAnEP]"
  "step5a_rules = butlast step5a_rules @ [mk_rule 502 ''e'' '''' 0 (-1) (-1) RemoveAnEP]"
  by (simp_all add: rule_tables)

lemma step1b1_synced:
  assumes "fst (rewrite_suffix step1b1_rules w) \<noteq> 0 \<or> WordSize w \<noteq> 1"
  shows "snd (ReplaceEnd step1b1_rules (synced w)) = synced (snd (rewrite_suffix step1b1_rules w))"
proof -
  let ?ps = "butlast step1b1_rules" and ?r = "mk_rule 122 '''' ''e'' (-1) 0 (-1) AddAnEP"
  have ok: "list_all rule_ok (?ps @ [?r])" by (simp flip: last_tables(1))
  note words = ReplaceEnd_words [OF synced_simps(1) ok pure_tables(8), folded last_tables(1)]
  have "in_sync (snd (ReplaceEnd step1b1_rules (synced w)))"
  proof (cases "fst (rewrite_suffix step1b1_rules w) = 0")
    case False
    have "stem_inv (synced w)" "list_all rule_ok step1b1_rules" by auto
    then show ?thesis
    proof (cases rule: ReplaceEnd_cases)
      case (none s')
      then show ?thesis using False words(1) [of w] by simp
    next
      case (fired r root s')
      then show ?thesis by simp
    qed
  next
    case True
    with assms have m: "WordSize w \<noteq> 1" by simp
    have c: "condition ?r = AddAnEP" "old_end ?r = ''''" "rule_ok ?r"
      by (simp_all add: mk_rule_def rule_ok_def)
    have pure: "in_sync (snd (ReplaceEnd ?ps (synced w)))"
      by (subst ReplaceEnd_synced) (use ok in auto)
    have nomatch: "\<not> rule_matches ?r w" using m by (simp add: c AddAnE_def)
    have "in_sync (snd (ReplaceEnd [?r] (synced w)))"
      using ReplaceEnd_step_sync [of "synced w" ?r "[]", OF synced_simps(1) c(3)] nomatch m
      by (simp add: c AddAnE_def in_sync_def synced_def del: ReplaceEnd.simps(2) rule_matches.simps)
    then show ?thesis
      using pure ok by (subst last_tables(1), subst ReplaceEnd_append) (auto simp del: ReplaceEnd.simps)
  qed
  then show ?thesis using words(2) [of w] in_sync_synced by (metis synced_simps(2))
qed

lemma step5_words:
  "word (snd (ReplaceEnd step5b_rules (snd (ReplaceEnd step5a_rules (synced w))))) =
     snd (rewrite_suffix step5b_rules (snd (rewrite_suffix step5a_rules w)))"
proof -
  let ?r = "mk_rule 502 ''e'' '''' 0 (-1) (-1) RemoveAnEP"
  have ok: "list_all rule_ok (butlast step5a_rules @ [?r])" by (simp flip: last_tables(2))
  note words = ReplaceEnd_words [OF synced_simps(1) ok pure_tables(9), folded last_tables(2)]
  have "stem_inv (synced w)" "list_all rule_ok step5a_rules" by auto
  then show ?thesis
  proof (cases rule: ReplaceEnd_cases)
    case (fired r root s')
    then have "s' = synced (snd (rewrite_suffix step5a_rules w))"
      using words(2) [of w] in_sync_synced by (metis snd_conv synced_simps(2))
    then show ?thesis using fired by (simp add: ReplaceEnd_synced)
  next
    case (none s')
    then have same: "snd (rewrite_suffix step5a_rules w) = w" using words(2) [of w] by simp
    show ?thesis
    proof (cases "\<exists>u. w = u @ ''e''")
      case True
      then have no_ll: "w \<noteq> u @ ''ll''" for u by auto
      then have "rewrite_suffix step5b_rules w = (0, w)"
        by (simp add: step5b_rules_def mk_rule_def)
      moreover have "word (snd (ReplaceEnd step5b_rules s')) = w"
        using none(3) table_ok(9)
      proof (cases rule: ReplaceEnd_cases)
        case (fired r root s'')
        then have "w = root @ ''ll''" using none(2) by (simp add: step5b_rules_def mk_rule_def)
        with no_ll show ?thesis by blast
      qed (use none(2) in simp_all)
      ultimately show ?thesis using none same by simp
    next
      case False
      then have "\<forall>r \<in> set step5a_rules. \<nexists>root. word (synced w) = root @ old_end r"
        by (simp add: step5a_rules_def mk_rule_def)
      then have "ReplaceEnd step5a_rules (synced w) = (0, synced w)"
        by (intro ReplaceEnd_no_suffix) simp_all
      then show ?thesis using same by (simp add: ReplaceEnd_synced)
    qed
  qed
qed

lemma porter_synced:
  assumes "\<not> stranded w"
  shows "word (porter (synced w)) = porter_ref w"
proof -
  define w1 where "w1 = snd (rewrite_suffix step1a_rules w)"
  define w2 where "w2 = snd (rewrite_suffix step1b_rules w1)"
  define r where "r = fst (rewrite_suffix step1b_rules w1)"
  have s3: "(if r = 106 \<or> r = 107 then snd (ReplaceEnd step1b1_rules (synced w2)) else synced w2) =
      synced (if r = 106 \<or> r = 107 then snd (rewrite_suffix step1b1_rules w2) else w2)"
    using assms step1b1_synced [of w2]
    by (auto simp: stranded_def case_prod_beta Let_def r_def w2_def w1_def)
  show ?thesis
    using s3 by (cases "r = 106 \<or> r = 107")
      (auto simp add: porter_def porter_ref_def Let_def case_prod_beta ReplaceEnd_synced
        step5_words simp flip: w1_def w2_def r_def)
qed

lemma porter_safe [inv_intros]:
  assumes "stem_safe n s"
  shows "stem_safe n (porter s)"
proof -
  define s1 where "s1 = snd (ReplaceEnd step1a_rules s)"
  have 1: "stem_safe n s1" unfolding s1_def using assms by (intro ReplaceEnd_safe0) simp_all
  obtain i s2 where 2: "ReplaceEnd step1b_rules s1 = (i, s2)" by fastforce
  define s3 where "s3 = (if i = 106 \<or> i = 107 then snd (ReplaceEnd step1b1_rules s2) else s2)"
  have 3: "stem_safe n s3"
  proof (cases "i = 106 \<or> i = 107")
    case True
    then have "0 < n" "stem_safe (n - 1) s2" using step1b_safe [OF 1 2] by auto
    then show ?thesis using ReplaceEnd_safe [of "n - 1" s2 step1b1_rules 1] True by (simp add: s3_def)
  next
    case False
    then show ?thesis using step1b_safe [OF 1 2] by (simp add: s3_def)
  qed
  have "stem_safe n (snd (ReplaceEnd step5b_rules (snd (ReplaceEnd step5a_rules
      (snd (ReplaceEnd step4_rules (snd (ReplaceEnd step3_rules (snd (ReplaceEnd step2_rules
      (snd (ReplaceEnd step1c_rules s3))))))))))))"
    by (intro ReplaceEnd_safe0 3) simp_all
  then show ?thesis by (simp add: porter_def Let_def 2 s3_def flip: s1_def)
qed

section \<open>Properties of the stemmer\<close>

text \<open>
  The automaton of \<open>WordSize\<close> computes Porter's measure, the number of
  vowel-consonant pairs of the word, where \<open>y\<close> is a vowel after a consonant.
\<close>

theorem WordSize_is_measure:
  "WordSize w = int (card {i. Suc i < length w \<and> vowel_at w i \<and> \<not> vowel_at w (Suc i)})"
  using WordSize_card by (simp add: vc_pairs_def)

text \<open>
  C30: stemming in place is safe for the caller's buffer. Whatever the word, the result
  is never longer than the input, the call succeeds exactly on words made of letters only,
  and then the result holds lower-case letters only.
\<close>

theorem Stem_buffer_safe:
  "length (snd (Stem w)) \<le> length w \<and>
   (fst (Stem w) \<longleftrightarrow> list_all c_isalpha w) \<and>
   (fst (Stem w) \<longrightarrow> list_all c_islower (snd (Stem w)))"
proof -
  define v where "v = snd (lower_word w)"
  have len: "length v = length w" by (simp add: v_def)
  have safe: "stem_safe (length w) (porter \<lparr>word = v, end_ptr = int (length v) - 1\<rparr>)"
    if "list_all c_isalpha w"
    using letters_lower_word [OF that] len
    by (intro porter_safe) (simp add: stem_safe_def stem_inv_def v_def)
  have ok: "fst (lower_word w) \<longleftrightarrow> list_all c_isalpha w" by (rule lower_word_ok)
  have "fst (Stem w) \<longleftrightarrow> list_all c_isalpha w"
    using ok by (simp add: Stem_def case_prod_beta Let_def)
  moreover have "length (snd (Stem w)) \<le> length w"
    using ok len safe by (auto simp: Stem_def case_prod_beta Let_def stem_safe_def simp flip: v_def)
  moreover have "list_all c_islower (snd (Stem w))" if "fst (Stem w)"
    using ok safe letters_lower_word [of w] that
    by (auto simp: Stem_def case_prod_beta Let_def stem_safe_def letters_def simp flip: v_def
        split: if_splits)
  ultimately show ?thesis by blast
qed

theorem Stem_buffer_safe_witness:
  "fst (Stem ''Relational'') \<and> list_all c_islower (snd (Stem ''Relational''))"
proof -
  have "list_all c_isalpha ''Relational''" by (simp add: c_isalpha_def c_isupper_def c_islower_def)
  then show ?thesis using Stem_buffer_safe [of "''Relational''"] by blast
qed

text \<open>
  C29: on every word of letters but the short words ending in \<open>s\<close> that are left alone,
  and unless the pointer was left behind in step 1b, \<open>Stem\<close> is the sequence of suffix
  rewritings of Porter's algorithm.
\<close>

theorem Stem_refines_porter:
  assumes "list_all c_isalpha w" and "v = map c_tolower w"
    and "\<not> (length v = 1 \<and> v ! 0 = CHR ''s'' \<or> length v = 2 \<and> v ! 1 = CHR ''s'')"
    and "\<not> stranded v"
  shows "Stem w = (True, porter_ref v)"
proof -
  have "lower_word w = (True, v)"
    using assms(1,2) lower_word_ok [of w] lower_word_map [of w] by (metis prod.collapse)
  then show ?thesis
    using assms(3) porter_synced [OF assms(4)] by (auto simp: Stem_def synced_def)
qed

theorem Stem_refines_porter_witness:
  "Stem ''Relational'' = (True, porter_ref ''relational'')"
proof -
  have "\<not> stranded ''relational''"
    by (simp add: stranded_def step1a_rules_def step1b_rules_def mk_rule_def)
  moreover have "list_all c_isalpha ''Relational'' \<and> ''relational'' = map c_tolower ''Relational''"
    by code_simp
  ultimately show ?thesis by (intro Stem_refines_porter) simp_all
qed

lemmas eval_tables = rule_tables mk_rule_def ContainsVowel_def WordSize_def in_chars_def
  IsVowel_def AddAnE_def RemoveAnE_def EndsWithCVC_def

text \<open>
  Finding: the pointer that \<open>EndsWithCVC\<close> leaves behind changes results. After
  \<open>ing\<close> is removed from \<open>playing\<close> the later steps look at the wrong place, and the
  word does not meet the stem of \<open>play\<close>.
\<close>

theorem Stem_playing_diverges:
  "Stem ''playing'' = (True, ''play'') \<and> Stem ''play'' = (True, ''plai'') \<and>
   stranded ''playing''"
proof -
  have l: "lower_word ''playing'' = (True, ''playing'')" "lower_word ''play'' = (True, ''play'')"
    by code_simp+
  have p: "ReplaceEnd step1a_rules \<lparr>word = ''playing'', end_ptr = 6\<rparr> = (0, \<lparr>word = ''playing'', end_ptr = 6\<rparr>)"
    "ReplaceEnd step1b_rules \<lparr>word = ''playing'', end_ptr = 6\<rparr> = (107, \<lparr>word = ''play'', end_ptr = 3\<rparr>)"
    "ReplaceEnd step1b1_rules \<lparr>word = ''play'', end_ptr = 3\<rparr> = (0, \<lparr>word = ''play'', end_ptr = 2\<rparr>)"
    "ReplaceEnd step1c_rules \<lparr>word = ''play'', end_ptr = 2\<rparr> = (0, \<lparr>word = ''play'', end_ptr = 2\<rparr>)"
    "ReplaceEnd step2_rules \<lparr>word = ''play'', end_ptr = 2\<rparr> = (0, \<lparr>word = ''play'', end_ptr = 2\<rparr>)"
    "ReplaceEnd step3_rules \<lparr>word = ''play'', end_ptr = 2\<rparr> = (0, \<lparr>word = ''play'', end_ptr = 2\<rparr>)"
    "ReplaceEnd step4_rules \<lparr>word = ''play'', end_ptr = 2\<rparr> = (0, \<lparr>word = ''play'', end_ptr = 2\<rparr>)"
    "ReplaceEnd step5a_rules \<lparr>word = ''play'', end_ptr = 2\<rparr> = (0, \<lparr>word = ''play'', end_ptr = 2\<rparr>)"
    "ReplaceEnd step5b_rules \<lparr>word = ''play'', end_ptr = 2\<rparr> = (0, \<lparr>word = ''play'', end_ptr = 2\<rparr>)"
    by (simp_all add: eval_tables)
  have q: "ReplaceEnd step1a_rules \<lparr>word = ''play'', end_ptr = 3\<rparr> = (0, \<lparr>word = ''play'', end_ptr = 3\<rparr>)"
    "ReplaceEnd step1b_rules \<lparr>word = ''play'', end_ptr = 3\<rparr> = (0, \<lparr>word = ''play'', end_ptr = 3\<rparr>)"
    "ReplaceEnd step1c_rules \<lparr>word = ''play'', end_ptr = 3\<rparr> = (123, \<lparr>word = ''plai'', end_ptr = 3\<rparr>)"
    "ReplaceEnd step2_rules \<lparr>word = ''plai'', end_ptr = 3\<rparr> = (0, \<lparr>word = ''plai'', end_ptr = 3\<rparr>)"
    "ReplaceEnd step3_rules \<lparr>word = ''plai'', end_ptr = 3\<rparr> = (0, \<lparr>word = ''plai'', end_ptr = 3\<rparr>)"
    "ReplaceEnd step4_rules \<lparr>word = ''plai'', end_ptr = 3\<rparr> = (0, \<lparr>word = ''plai'', end_ptr = 3\<rparr>)"
    "ReplaceEnd step5a_rules \<lparr>word = ''plai'', end_ptr = 3\<rparr> = (0, \<lparr>word = ''plai'', end_ptr = 3\<rparr>)"
    "ReplaceEnd step5b_rules \<lparr>word = ''plai'', end_ptr = 3\<rparr> = (0, \<lparr>word = ''plai'', end_ptr = 3\<rparr>)"
    by (simp_all add: eval_tables)
  have a: "Stem ''playing'' = (True, ''play'')" by (simp add: Stem_def l porter_def p del: lower_word.simps)
  have b: "Stem ''play'' = (True, ''plai'')" by (simp add: Stem_def l porter_def q del: lower_word.simps)
  have "rewrite_suffix step1a_rules ''playing'' = (0, ''playing'')"
    by (simp add: step1a_rules_def mk_rule_def)
  moreover have "rewrite_suffix step1b_rules ''playing'' = (107, ''play'')"
    by (simp add: step1b_rules_def mk_rule_def ContainsVowel_def WordSize_def in_chars_def IsVowel_def)
  moreover have "rewrite_suffix step1b1_rules ''play'' = (0, ''play'')"
    by (simp add: step1b1_rules_def mk_rule_def AddAnE_def EndsWithCVC_def in_chars_def)
  moreover have "WordSize ''play'' = 1" by code_simp
  ultimately show ?thesis using a b by (simp add: stranded_def)
qed

text \<open>
  No table makes the stemmer look beyond the end of the word. In a state whose
  pointer is not past the last character, every place a rule inspects lies inside the
  buffer, and the state after any table is such a state again.
\<close>

theorem ReplaceEnd_stays_inside:
  assumes "end_ptr s \<le> int (length (word s)) - 1"
    and "rs \<in> {step1a_rules, step1b_rules, step1b1_rules, step1c_rules, step2_rules,
               step3_rules, step4_rules, step5a_rules, step5b_rules}"
  shows "(\<forall>r \<in> set rs. end_ptr s - old_offset r \<le> int (length (word s))) \<and>
    end_ptr (snd (ReplaceEnd rs s)) \<le> int (length (word (snd (ReplaceEnd rs s)))) - 1"
proof
  have ok: "list_all rule_ok rs" using assms(2) by auto
  then show "\<forall>r \<in> set rs. end_ptr s - old_offset r \<le> int (length (word s))"
    using assms(1) by (auto simp: list_all_iff rule_ok_def)
  show "end_ptr (snd (ReplaceEnd rs s)) \<le> int (length (word (snd (ReplaceEnd rs s)))) - 1"
    using ReplaceEnd_inv [of s rs] ok assms(1) by (simp add: stem_inv_def)
qed

theorem ReplaceEnd_stays_inside_witness:
  "end_ptr (snd (ReplaceEnd step1b1_rules \<lparr>word = ''play'', end_ptr = 3\<rparr>)) = 2 \<and>
   end_ptr (snd (ReplaceEnd step1b1_rules \<lparr>word = ''play'', end_ptr = 3\<rparr>))
     \<le> int (length (word (snd (ReplaceEnd step1b1_rules \<lparr>word = ''play'', end_ptr = 3\<rparr>)))) - 1"
proof -
  let ?s = "\<lparr>word = ''play'', end_ptr = 3\<rparr>"
  have "end_ptr ?s \<le> int (length (word ?s)) - 1" by simp
  then have "end_ptr (snd (ReplaceEnd step1b1_rules ?s)) \<le> int (length (word (snd (ReplaceEnd step1b1_rules ?s)))) - 1"
    using ReplaceEnd_stays_inside [of ?s step1b1_rules] by blast
  moreover have "end_ptr (snd (ReplaceEnd step1b1_rules ?s)) = 2" by (simp add: eval_tables)
  ultimately show ?thesis by blast
qed

end
