(* ===== verification/Octet_IO.thy ===== *)
theory Octet_IO
  imports Prelude
begin

text \<open>
  The interfaces between the BER routines of \<open>src/zpdu\<close> and what they write to and
  read from. The encoders of \<open>ber_encode.c\<close> append single octets to a dynamic buffer
  and stop at the first failure; the decoders of \<open>ber_decode.c\<close> take single octets from a
  dynamic buffer or from a socket. \<open>octet_sink\<close> and \<open>octet_source\<close> state what they
  rely on; \<open>Dbuf\<close> and \<open>Socket\<close> interpret them.

  The two loops that \<open>ber_decode.c\<close> has twice, once over a buffer and once over a
  socket, are defined here over the operation that delivers the next octet.
\<close>

unbundle bit_operations_syntax

section \<open>Digits of a number\<close>

text \<open>
  \<open>while (x) { data[i++] = x & (2^k - 1); x >>= k; }\<close>: the digits, least significant
  first. The loop ends for a non-negative \<open>x\<close> only.
\<close>

function digits_le :: "nat \<Rightarrow> int \<Rightarrow> int list" where
  "digits_le k x = (if x \<le> 0 \<or> k = 0 then [] else x mod 2 ^ k # digits_le k (x div 2 ^ k))"
  by pat_completeness auto
termination
  by (relation "measure (\<lambda>(k, x). nat x)") (auto simp: nat_less_eq_zless int_div_less_self)

declare digits_le.simps [simp del]

definition value_be :: "nat \<Rightarrow> int list \<Rightarrow> int" where
  "value_be k ds = foldl (\<lambda>acc d. acc * 2 ^ k + d) 0 ds"

lemma digits_le_zero [simp]: "digits_le k 0 = []"
  by (simp add: digits_le.simps)

lemma digits_le_pos: "0 < x \<Longrightarrow> 0 < k \<Longrightarrow> digits_le k x = x mod 2 ^ k # digits_le k (x div 2 ^ k)"
  by (simp add: digits_le.simps [of k x])

lemma digits_le_Nil: "0 < k \<Longrightarrow> digits_le k x = [] \<longleftrightarrow> x \<le> 0"
  by (auto simp: digits_le.simps [of k x])

lemma digits_le_range: "d \<in> set (digits_le k x) \<Longrightarrow> 0 \<le> d \<and> d < 2 ^ k"
proof (induction k x rule: digits_le.induct)
  case (1 k x)
  show ?case
  proof (cases "x \<le> 0 \<or> k = 0")
    case True
    with 1(2) show ?thesis by (simp add: digits_le.simps [of k x])
  next
    case False
    with 1(2) have "d = x mod 2 ^ k \<or> d \<in> set (digits_le k (x div 2 ^ k))"
      by (simp add: digits_le.simps [of k x])
    with 1(1) [OF False] show ?thesis by auto
  qed
qed

lemma value_be_snoc: "value_be k (ds @ [d]) = value_be k ds * 2 ^ k + d"
  by (simp add: value_be_def)

lemma value_be_digits: "0 \<le> x \<Longrightarrow> 0 < k \<Longrightarrow> value_be k (rev (digits_le k x)) = x"
proof (induction k x rule: digits_le.induct)
  case (1 k x)
  show ?case
  proof (cases "x = 0")
    case True
    then show ?thesis by (simp add: value_be_def)
  next
    case False
    with 1 have pos: "0 < x" "0 < k" by simp_all
    then have "value_be k (rev (digits_le k (x div 2 ^ k))) = x div 2 ^ k"
      using 1(1) by (simp add: pos_imp_zdiv_nonneg_iff)
    then show ?thesis using pos by (simp add: digits_le_pos value_be_snoc div_mult_mod_eq)
  qed
qed

lemma length_digits_le: "x < 2 ^ (k * n) \<Longrightarrow> 0 < k \<Longrightarrow> length (digits_le k x) \<le> n"
proof (induction n arbitrary: x)
  case 0
  then show ?case by (simp add: digits_le.simps)
next
  case (Suc n)
  show ?case
  proof (cases "x \<le> 0")
    case True
    then show ?thesis by (simp add: digits_le.simps)
  next
    case False
    have "x div 2 ^ k < 2 ^ (k * n)"
    proof -
      have "x < 2 ^ (k * n) * 2 ^ k" using Suc.prems(1) by (simp add: power_add algebra_simps)
      moreover have "x div 2 ^ k * 2 ^ k \<le> x"
      proof -
        have "0 \<le> x mod 2 ^ k" by simp
        then show ?thesis using div_mult_mod_eq [of x "2 ^ k"] by linarith
      qed
      ultimately have "x div 2 ^ k * 2 ^ k < 2 ^ (k * n) * 2 ^ k" by linarith
      then show ?thesis by simp
    qed
    with Suc False show ?thesis by (simp add: digits_le_pos)
  qed
qed

section \<open>Writing octets\<close>

text \<open>A run of single-octet writes; the first failure ends it.\<close>

fun put_octets :: "('b \<Rightarrow> octet \<Rightarrow> bool \<times> 'b) \<Rightarrow> 'b \<Rightarrow> octet list \<Rightarrow> bool \<times> 'b" where
  "put_octets put b [] = (True, b)"
| "put_octets put b (c # cs) =
     (let (ok, b') = put b c in if ok then put_octets put b' cs else (False, b'))"

locale octet_sink =
  fixes put :: "'b \<Rightarrow> octet \<Rightarrow> bool \<times> 'b"
    and contents :: "'b \<Rightarrow> octet list"
    and valid :: "'b \<Rightarrow> bool"
    and capacity :: nat
  assumes put_ok: "valid b \<Longrightarrow> length (contents b) < capacity \<Longrightarrow>
      \<exists>b'. put b c = (True, b') \<and> valid b' \<and> contents b' = contents b @ [c]"
begin

lemma put_octets_ok:
  "valid b \<Longrightarrow> length (contents b) + length cs \<le> capacity \<Longrightarrow>
     \<exists>b'. put_octets put b cs = (True, b') \<and> valid b' \<and> contents b' = contents b @ cs"
proof (induction cs arbitrary: b)
  case Nil
  then show ?case by simp
next
  case (Cons c cs)
  then obtain b1 where b1: "put b c = (True, b1)" "valid b1" "contents b1 = contents b @ [c]"
    using put_ok [of b c] by auto
  have "length (contents b1) + length cs \<le> capacity" using b1 Cons.prems by simp
  with Cons.IH [OF b1(2)] obtain b' where
    "put_octets put b1 cs = (True, b')" "valid b'" "contents b' = contents b1 @ cs" by blast
  then show ?case using b1 by simp
qed

end

section \<open>Reading octets\<close>

text \<open>
  A read returns the status of the call (1 for an octet), the octet and the new state of
  the source; \<open>None\<close> is a read that never returns.
\<close>

type_synonym 's octet_get = "'s \<Rightarrow> (int \<times> octet \<times> 's) option"

text \<open>
  The long form of a tag number: septets, most significant first, the last one below 128.
  The result is the status, the tag number and the number of octets read, with the source.
\<close>

partial_function (option) long_tag ::
    "'s octet_get \<Rightarrow> 's \<Rightarrow> int \<Rightarrow> int \<Rightarrow> (int \<times> int \<times> int \<times> 's) option" where
  "long_tag get s tagno len =
     Option.bind (get s) (\<lambda>(code, ch, s').
       if code \<noteq> 1 then Some (code, tagno, len, s')
       else if uint ch < 128 then Some (1, c_int (c_int (tagno * 128) + uint ch), len + 1, s')
       else long_tag get s' (c_int (c_int (tagno * 128) + uint (ch AND 127))) (len + 1))"

text \<open>The octets of a long, definite length, most significant first.\<close>

fun long_len :: "'s octet_get \<Rightarrow> 's \<Rightarrow> nat \<Rightarrow> int \<Rightarrow> (int \<times> int \<times> 's) option" where
  "long_len get s 0 len = Some (1, len, s)"
| "long_len get s (Suc n) len =
     Option.bind (get s) (\<lambda>(code, ch, s').
       if code \<noteq> 1 then Some (code, len, s')
       else long_len get s' n (c_int (c_int (len * 256) + uint ch)))"

locale octet_source =
  fixes get :: "'s octet_get"
    and rest :: "'s \<Rightarrow> octet list"
    and valid :: "'s \<Rightarrow> bool"
  assumes get_Cons: "valid s \<Longrightarrow> rest s = c # cs \<Longrightarrow>
      \<exists>s'. get s = Some (1, c, s') \<and> valid s' \<and> rest s' = cs"
    and get_Nil: "valid s \<Longrightarrow> rest s = [] \<Longrightarrow> get s \<noteq> Some (1, c, s')"

text \<open>A source whose end is reported: a read at the end returns.\<close>

locale ending_source = octet_source +
  assumes get_end: "valid s \<Longrightarrow> rest s = [] \<Longrightarrow> get s \<noteq> None"

section \<open>Tag and length octets\<close>

text \<open>What the encoders write for a tag number in long form and for a length.\<close>

fun mark_more :: "octet list \<Rightarrow> octet list" where
  "mark_more [] = []"
| "mark_more [c] = [c]"
| "mark_more (c # d # cs) = (c OR 128) # mark_more (d # cs)"

definition septets :: "int \<Rightarrow> octet list" where
  "septets x = mark_more (map octet_of (rev (digits_le 7 x)))"

definition len_octets :: "int \<Rightarrow> octet list" where
  "len_octets n =
     (if n < 128 then [octet_of n]
      else let ds = digits_le 8 n in octet_of (int (length ds) OR 128) # map octet_of (rev ds))"

lemma and_127: "uint ((c :: octet) AND 127) = uint c mod 128"
proof -
  have "uint (c AND 127) = uint c AND 127" by (simp add: unsigned_and_eq)
  also have "\<dots> = take_bit 7 (uint c)" by (simp add: take_bit_eq_mask mask_eq_exp_minus_1)
  finally show ?thesis by (simp add: take_bit_eq_mod)
qed

lemma or_128: "uint (c :: octet) < 128 \<Longrightarrow> uint (c OR 128) = uint c + 128"
proof -
  assume c: "uint c < 128"
  have b: "\<not> bit (uint c) 7" using c bit_iff_odd [of "uint c" 7] by simp
  have p: "(128 :: int) = 2 ^ 7" by simp
  have "uint (c OR 128) = uint c OR 128" by (simp add: unsigned_or_eq)
  also have "\<dots> = uint c + 128"
    unfolding p
  proof (rule disjunctive_add [symmetric])
    fix n
    show "\<not> bit (uint c) n \<or> \<not> bit (2 ^ 7 :: int) n"
      using b by (simp only: bit_exp_iff) blast
  qed
  finally show ?thesis .
qed

lemma value_grows:
  "0 \<le> acc \<Longrightarrow> \<forall>d \<in> set ds. 0 \<le> d \<Longrightarrow> acc \<le> foldl (\<lambda>acc d. acc * 2 ^ k + d) (acc :: int) ds"
proof (induction ds arbitrary: acc)
  case (Cons d ds)
  have "acc * 1 \<le> acc * 2 ^ k" using Cons.prems(1) by (intro mult_left_mono) simp_all
  then have le: "acc \<le> acc * 2 ^ k + d" using Cons.prems by simp
  then have "acc * 2 ^ k + d \<le> foldl (\<lambda>acc d. acc * 2 ^ k + d) (acc * 2 ^ k + d) ds"
    using Cons.prems by (intro Cons.IH) simp_all
  with le show ?case by simp
qed simp

text \<open>One digit at a time stays an \<open>int\<close> as long as the whole number does.\<close>

lemma c_int_shift:
  assumes "0 \<le> acc" and "0 \<le> d" and "acc * m + d < 2147483648" and "0 \<le> m"
  shows "c_int (c_int (acc * m) + d) = acc * m + d"
proof -
  have "0 \<le> acc * m" using assms by simp
  then have "is_c_int (acc * m)" "is_c_int (acc * m + d)"
    using assms unfolding is_c_int_def by linarith+
  then show ?thesis by simp
qed

context octet_source
begin

lemma long_tag_reads:
  assumes "valid s" and "rest s = mark_more (map octet_of ds) @ cs" and "ds \<noteq> []"
    and "\<forall>d \<in> set ds. 0 \<le> d \<and> d < 128" and "0 \<le> acc"
    and "foldl (\<lambda>acc d. acc * 2 ^ 7 + d) acc ds < 2147483648"
  shows "\<exists>s'. long_tag get s acc n = Some (1, foldl (\<lambda>acc d. acc * 2 ^ 7 + d) acc ds, n + int (length ds), s')
    \<and> valid s' \<and> rest s' = cs"
  using assms
proof (induction ds arbitrary: s acc n)
  case Nil
  then show ?case by simp
next
  case (Cons d ds)
  let ?acc = "acc * 128 + d"
  have "?acc \<le> foldl (\<lambda>acc d. acc * 2 ^ 7 + d) ?acc ds"
    using Cons.prems by (intro value_grows) simp_all
  then have shift: "c_int (c_int (acc * 128) + d) = ?acc"
    using Cons.prems by (intro c_int_shift) simp_all
  have u: "uint (octet_of d) = d" using Cons.prems by simp
  show ?case
  proof (cases ds)
    case Nil
    then obtain s' where "get s = Some (1, octet_of d, s')" "valid s'" "rest s' = cs"
      using get_Cons [OF Cons.prems(1)] Cons.prems(2) by auto
    then show ?thesis using Nil shift u Cons.prems(4) by (subst long_tag.simps) simp
  next
    case (Cons e es)
    have "rest s = (octet_of d OR 128) # (mark_more (map octet_of ds) @ cs)"
      using Cons.prems(2) Cons by simp
    then obtain s1 where s1: "get s = Some (1, octet_of d OR 128, s1)" "valid s1"
      "rest s1 = mark_more (map octet_of ds) @ cs"
      using get_Cons [OF Cons.prems(1)] by blast
    have big: "uint (octet_of d OR 128) = d + 128" using Cons.prems(4) u by (simp add: or_128)
    have low: "uint ((octet_of d OR 128) AND 127) = d"
      unfolding and_127 big using Cons.prems(4) by simp
    have "\<exists>s'. long_tag get s1 ?acc (n + 1) =
        Some (1, foldl (\<lambda>acc d. acc * 2 ^ 7 + d) ?acc ds, n + 1 + int (length ds), s') \<and> valid s' \<and> rest s' = cs"
      using Cons.prems Cons s1 by (intro Cons.IH) simp_all
    moreover have "long_tag get s acc n = long_tag get s1 ?acc (n + 1)"
      using s1 big low shift Cons.prems(4) by (subst long_tag.simps) simp
    moreover have "n + 1 + int (length ds) = n + int (length (d # ds))" by simp
    ultimately show ?thesis by simp
  qed
qed

lemma long_len_reads:
  assumes "valid s" and "rest s = map octet_of ds @ cs"
    and "\<forall>d \<in> set ds. 0 \<le> d \<and> d < 256" and "0 \<le> acc"
    and "foldl (\<lambda>acc d. acc * 2 ^ 8 + d) acc ds < 2147483648"
  shows "\<exists>s'. long_len get s (length ds) acc = Some (1, foldl (\<lambda>acc d. acc * 2 ^ 8 + d) acc ds, s')
    \<and> valid s' \<and> rest s' = cs"
  using assms
proof (induction ds arbitrary: s acc)
  case Nil
  then show ?case by simp
next
  case (Cons d ds)
  let ?acc = "acc * 256 + d"
  have "?acc \<le> foldl (\<lambda>acc d. acc * 2 ^ 8 + d) ?acc ds"
    using Cons.prems by (intro value_grows) simp_all
  then have shift: "c_int (c_int (acc * 256) + d) = ?acc"
    using Cons.prems by (intro c_int_shift) simp_all
  obtain s1 where s1: "get s = Some (1, octet_of d, s1)" "valid s1" "rest s1 = map octet_of ds @ cs"
    using get_Cons [OF Cons.prems(1)] Cons.prems(2) by auto
  have "\<exists>s'. long_len get s1 (length ds) ?acc = Some (1, foldl (\<lambda>acc d. acc * 2 ^ 8 + d) ?acc ds, s')
      \<and> valid s' \<and> rest s' = cs"
    using Cons.prems s1 by (intro Cons.IH) simp_all
  then show ?case using s1 shift Cons.prems(3) by simp
qed

end

context ending_source
begin

text \<open>Reading always returns: every octet read shortens what is left.\<close>

lemma long_tag_returns: "valid s \<Longrightarrow> \<exists>r. long_tag get s acc n = Some r"
proof (induction "rest s" arbitrary: s acc n)
  case Nil
  then obtain code c s' where "get s = Some (code, c, s')" "code \<noteq> 1" using get_Nil [of s] get_end [of s] by fastforce
  then show ?case by (subst long_tag.simps) simp
next
  case (Cons c cs)
  then obtain s' where s': "get s = Some (1, c, s')" "valid s'" "rest s' = cs"
    using get_Cons [of s c cs] by auto
  obtain r where "long_tag get s' (c_int (c_int (acc * 128) + uint (c AND 127))) (n + 1) = Some r"
    using Cons.hyps(1) [OF s'(3) [symmetric] s'(2)] by blast
  then show ?case using s' by (cases r) (subst long_tag.simps, simp)
qed

end

end
