(* ===== verification/Dbuf.thy ===== *)
theory Dbuf
  imports Octet_IO
begin

text \<open>
  The dynamic buffer of \<open>src/zpdu/asn_utils.c\<close> (\<open>db_put\<close>, \<open>db_get\<close>, \<open>NewDbuf\<close>,
  \<open>FreeDbuf\<close>), the store the BER routines write to and read from.

  A buffer is a record with the fields of \<open>struct dbuf\<close>; a \<open>DBUF *\<close> is an optional
  record, \<open>None\<close> being the null pointer. \<open>db_data\<close> holds the first \<open>size\<close> octets of the
  allocated block and is \<open>None\<close> when the block is the null pointer. Allocation succeeds for
  a positive size and fails for a negative one, which \<open>realloc\<close> reads as a huge
  \<open>size_t\<close>: \<open>2 * max + size\<close> is computed in \<open>int\<close> and wraps for large buffers.
\<close>

section \<open>The buffer\<close>

record dbuf =
  db_size :: int
  db_max :: int
  db_cursor :: int
  db_data :: "octet list option"

definition NewDbuf :: "dbuf option" where
  "NewDbuf = Some \<lparr>db_size = 0, db_max = 100, db_cursor = 0, db_data = Some []\<rparr>"

text \<open>Octets that \<open>realloc\<close> has not copied from an old block are indeterminate, 0 here.\<close>

definition realloc :: "octet list option \<Rightarrow> int \<Rightarrow> int \<Rightarrow> octet list option" where
  "realloc old len m =
     (if m \<le> 0 then None
      else Some (case old of Some cs \<Rightarrow> cs | None \<Rightarrow> replicate (nat len) 0))"

text \<open>
  \<open>db_put dbuf data size\<close>: \<open>data\<close> is \<open>None\<close> for a null pointer; the result is the value
  the function returns and the buffer afterwards.
\<close>

definition db_grow :: "dbuf \<Rightarrow> int \<Rightarrow> dbuf" where
  "db_grow d len =
     (if db_max d - db_size d < len
      then let m = c_int (2 * db_max d + len)
           in d\<lparr>db_max := m, db_data := realloc (db_data d) (db_size d) m\<rparr>
      else d)"

definition db_put :: "dbuf option \<Rightarrow> octet list option \<Rightarrow> int \<Rightarrow> int \<times> dbuf option" where
  "db_put dbuf data len =
     (case dbuf of
        None \<Rightarrow> (- 1, dbuf)
      | Some d \<Rightarrow>
          if len = 0 then (0, dbuf)
          else (case data of
              None \<Rightarrow> (- 1, dbuf)
            | Some cs \<Rightarrow>
                if len < 0 then (- 1, dbuf)
                else let d' = db_grow d len
                     in (case db_data d' of
                           None \<Rightarrow> (- 1, Some d')
                         | Some old \<Rightarrow>
                             (len,
                              Some (d'\<lparr>db_data := Some (take (nat (db_size d')) old @ take (nat len) cs),
                                       db_size := db_size d' + len\<rparr>)))))"

text \<open>
  \<open>db_get dbuf data size\<close>: \<open>data\<close> is the caller's memory, of which the octets read replace
  the first ones; what is not read stays as it was.
\<close>

definition db_get :: "dbuf option \<Rightarrow> octet list option \<Rightarrow> int \<Rightarrow> int \<times> octet list option \<times> dbuf option" where
  "db_get dbuf data len =
     (case dbuf of
        None \<Rightarrow> (- 1, data, dbuf)
      | Some d \<Rightarrow>
          if len = 0 then (0, data, dbuf)
          else (case data of
              None \<Rightarrow> (- 1, data, dbuf)
            | Some mem \<Rightarrow>
                if len < 0 then (- 1, data, dbuf)
                else let amount = (if db_size d - db_cursor d < len then db_size d - db_cursor d else len);
                         block = (case db_data d of None \<Rightarrow> [] | Some cs \<Rightarrow> cs);
                         cs = take (nat amount) (drop (nat (db_cursor d)) block)
                     in (amount, Some (cs @ drop (nat amount) mem),
                         Some (d\<lparr>db_cursor := db_cursor d + amount\<rparr>))))"

text \<open>\<open>FreeDbuf\<close> leaves nothing to read: the pointer is not used again.\<close>

definition FreeDbuf :: "dbuf option \<Rightarrow> dbuf option" where
  "FreeDbuf dbuf = None"

text \<open>The two ways the encoders check a write of one octet, and a read of one octet into \<open>ch\<close>.\<close>

definition put_one :: "dbuf option \<Rightarrow> octet \<Rightarrow> bool \<times> dbuf option" where
  "put_one dbuf ch = (let (r, dbuf') = db_put dbuf (Some [ch]) 1 in (r = 1, dbuf'))"

definition put_nonneg :: "dbuf option \<Rightarrow> octet \<Rightarrow> bool \<times> dbuf option" where
  "put_nonneg dbuf ch = (let (r, dbuf') = db_put dbuf (Some [ch]) 1 in (\<not> r < 0, dbuf'))"

definition get_one :: "dbuf option \<Rightarrow> octet \<Rightarrow> int \<times> octet \<times> dbuf option" where
  "get_one dbuf ch =
     (let (r, mem, dbuf') = db_get dbuf (Some [ch]) 1
      in (r, (case mem of Some (c # _) \<Rightarrow> c | _ \<Rightarrow> ch), dbuf'))"

definition next_octet :: "dbuf option octet_get" where
  "next_octet dbuf = Some (get_one dbuf 0)"

section \<open>Invariant and contents\<close>

definition dbuf_ok :: "dbuf \<Rightarrow> bool" where
  "dbuf_ok d \<longleftrightarrow>
     (case db_data d of None \<Rightarrow> False | Some cs \<Rightarrow> db_size d = int (length cs))
     \<and> 0 \<le> db_cursor d \<and> db_cursor d \<le> db_size d \<and> db_size d \<le> db_max d
     \<and> 100 \<le> db_max d \<and> db_max d \<le> 3 * db_size d + 100"

fun dbuf_valid :: "dbuf option \<Rightarrow> bool" where
  "dbuf_valid None = False"
| "dbuf_valid (Some d) = dbuf_ok d"

fun dbuf_octets :: "dbuf option \<Rightarrow> octet list" where
  "dbuf_octets None = []"
| "dbuf_octets (Some d) = the (db_data d)"

fun dbuf_cursor :: "dbuf option \<Rightarrow> int" where
  "dbuf_cursor None = 0"
| "dbuf_cursor (Some d) = db_cursor d"

definition dbuf_rest :: "dbuf option \<Rightarrow> octet list" where
  "dbuf_rest b = drop (nat (dbuf_cursor b)) (dbuf_octets b)"

text \<open>
  With at most this many octets in a buffer, \<open>2 * max + size\<close> stays below 2 to the 31st:
  \<open>max\<close> is at most \<open>3 * size + 100\<close>.
\<close>

definition dbuf_capacity :: nat where
  "dbuf_capacity = 300000000"

lemma dbuf_validE:
  assumes "dbuf_valid b"
  obtains d cs where "b = Some d" "db_data d = Some cs" "db_size d = int (length cs)"
    "0 \<le> db_cursor d" "db_cursor d \<le> int (length cs)" "int (length cs) \<le> db_max d"
    "100 \<le> db_max d" "db_max d \<le> 3 * int (length cs) + 100"
  using assms by (cases b) (auto simp: dbuf_ok_def split: option.splits)

lemma NewDbuf_valid [simp]: "dbuf_valid NewDbuf" "dbuf_octets NewDbuf = []" "dbuf_cursor NewDbuf = 0"
  by (simp_all add: NewDbuf_def dbuf_ok_def)

lemma db_put_valid:
  assumes "dbuf_valid b" and "length (dbuf_octets b) + length cs \<le> dbuf_capacity"
  shows "\<exists>b'. db_put b (Some cs) (int (length cs)) = (int (length cs), b') \<and> dbuf_valid b'
    \<and> dbuf_octets b' = dbuf_octets b @ cs \<and> dbuf_cursor b' = dbuf_cursor b"
proof (cases "cs = []")
  case True
  from assms(1) show ?thesis by (rule dbuf_validE) (auto simp: True db_put_def dbuf_ok_def)
next
  case False
  from assms(1) obtain d ds where d: "b = Some d" "db_data d = Some ds" "db_size d = int (length ds)"
    "0 \<le> db_cursor d" "db_cursor d \<le> int (length ds)" "int (length ds) \<le> db_max d"
    "100 \<le> db_max d" "db_max d \<le> 3 * int (length ds) + 100" by (rule dbuf_validE)
  have cap: "int (length ds) + int (length cs) \<le> 300000000"
    using assms(2) d by (simp add: dbuf_capacity_def)
  let ?m = "2 * db_max d + int (length cs)"
  have "is_c_int ?m" using d cap unfolding is_c_int_def by linarith
  then have grow: "db_grow d (int (length cs)) =
      (if db_max d - db_size d < int (length cs) then d\<lparr>db_max := ?m, db_data := Some ds\<rparr> else d)"
    using d by (simp add: db_grow_def realloc_def)
  have "int (length cs) > 0" using False by simp
  then show ?thesis using d grow by (auto simp: db_put_def dbuf_ok_def)
qed

lemma put_one_valid:
  assumes "dbuf_valid b" and "length (dbuf_octets b) < dbuf_capacity"
  shows "\<exists>b'. put_one b c = (True, b') \<and> dbuf_valid b' \<and> dbuf_octets b' = dbuf_octets b @ [c]
    \<and> dbuf_cursor b' = dbuf_cursor b"
  using db_put_valid [OF assms(1), of "[c]"] assms(2) by (auto simp: put_one_def)

lemma put_nonneg_valid:
  assumes "dbuf_valid b" and "length (dbuf_octets b) < dbuf_capacity"
  shows "\<exists>b'. put_nonneg b c = (True, b') \<and> dbuf_valid b' \<and> dbuf_octets b' = dbuf_octets b @ [c]
    \<and> dbuf_cursor b' = dbuf_cursor b"
  using db_put_valid [OF assms(1), of "[c]"] assms(2) by (auto simp: put_nonneg_def)

text \<open>A read takes what is left, at most what is asked for, and keeps the invariant.\<close>

lemma db_get_valid:
  assumes "dbuf_valid b" and "0 \<le> n"
  shows "\<exists>b'. db_get b (Some mem) n =
      (int (length (take (nat n) (dbuf_rest b))),
       Some (take (nat n) (dbuf_rest b) @ drop (length (take (nat n) (dbuf_rest b))) mem), b')
    \<and> dbuf_valid b' \<and> dbuf_octets b' = dbuf_octets b \<and> dbuf_rest b' = drop (nat n) (dbuf_rest b)"
proof (cases "n = 0")
  case True
  from assms(1) show ?thesis by (rule dbuf_validE) (auto simp: True db_get_def dbuf_ok_def dbuf_rest_def)
next
  case False
  from assms(1) obtain d ds where d: "b = Some d" "db_data d = Some ds" "db_size d = int (length ds)"
    "0 \<le> db_cursor d" "db_cursor d \<le> int (length ds)" "int (length ds) \<le> db_max d"
    "100 \<le> db_max d" "db_max d \<le> 3 * int (length ds) + 100" by (rule dbuf_validE)
  define k where "k = nat (db_cursor d)"
  have k: "db_cursor d = int k" "k \<le> length ds" using d by (simp_all add: k_def)
  have rest: "dbuf_rest b = drop k ds" using d k by (simp add: dbuf_rest_def)
  define a where "a = length (take (nat n) (dbuf_rest b))"
  have am: "(if db_size d - db_cursor d < n then db_size d - db_cursor d else n) = int a"
    using rest d(3) k assms(2) by (auto simp: a_def)
  have tk: "take a (drop k ds) = take (nat n) (dbuf_rest b)"
    unfolding a_def rest by (simp add: min_def)
  have dr: "drop (k + a) ds = drop (nat n) (dbuf_rest b)"
    unfolding a_def rest using k by (simp add: min_def add.commute)
  have a_le: "k + a \<le> length ds" unfolding a_def rest using k by simp
  have "n \<noteq> 0" "\<not> n < 0" using False assms(2) by simp_all
  then have "db_get b (Some mem) n =
      (int a, Some (take a (drop k ds) @ drop a mem), Some (d\<lparr>db_cursor := int (k + a)\<rparr>))"
    unfolding db_get_def d(1) option.case am d(2) by (simp add: k_def [symmetric] k(1) Let_def)
  moreover have "dbuf_rest (Some (d\<lparr>db_cursor := int (k + a)\<rparr>)) = drop (nat n) (dbuf_rest b)"
    using dr d(2) by (simp add: dbuf_rest_def nat_add_distrib)
  moreover have "dbuf_valid (Some (d\<lparr>db_cursor := int (k + a)\<rparr>))"
    using d a_le by (simp add: dbuf_ok_def)
  ultimately show ?thesis unfolding a_def [symmetric] tk by (simp add: d(1))
qed

lemma get_one_Cons:
  assumes "dbuf_valid b" and "dbuf_rest b = c # cs"
  shows "\<exists>b'. get_one b ch = (1, c, b') \<and> dbuf_valid b' \<and> dbuf_octets b' = dbuf_octets b \<and> dbuf_rest b' = cs"
  using db_get_valid [OF assms(1), of 1 "[ch]"] assms(2) by (auto simp: get_one_def)

lemma get_one_Nil:
  assumes "dbuf_valid b" and "dbuf_rest b = []"
  shows "\<exists>b'. get_one b ch = (0, ch, b') \<and> dbuf_valid b' \<and> dbuf_octets b' = dbuf_octets b \<and> dbuf_rest b' = []"
  using db_get_valid [OF assms(1), of 1 "[ch]"] assms(2) by (auto simp: get_one_def)

lemma put_rest:
  "dbuf_valid b \<Longrightarrow> dbuf_octets b' = dbuf_octets b @ cs \<Longrightarrow> dbuf_cursor b' = dbuf_cursor b \<Longrightarrow>
     dbuf_rest b' = dbuf_rest b @ cs"
  by (elim dbuf_validE) (simp add: dbuf_rest_def)

section \<open>The interfaces of the BER routines\<close>

text \<open>Writing leaves the reading position alone, so that it is part of what is kept.\<close>

definition dbuf_at :: "int \<Rightarrow> dbuf option \<Rightarrow> bool" where
  "dbuf_at k b \<longleftrightarrow> dbuf_valid b \<and> dbuf_cursor b = k"

interpretation one: octet_sink put_one dbuf_octets "dbuf_at k" dbuf_capacity for k
  by unfold_locales (use put_one_valid in \<open>fastforce simp: dbuf_at_def\<close>)

interpretation nonneg: octet_sink put_nonneg dbuf_octets "dbuf_at k" dbuf_capacity for k
  by unfold_locales (use put_nonneg_valid in \<open>fastforce simp: dbuf_at_def\<close>)

interpretation buf: ending_source next_octet dbuf_rest dbuf_valid
proof unfold_locales
  fix s c cs
  assume "dbuf_valid s" and "dbuf_rest s = c # cs"
  from get_one_Cons [OF this, of 0] show "\<exists>s'. next_octet s = Some (1, c, s') \<and> dbuf_valid s' \<and> dbuf_rest s' = cs"
    by (auto simp: next_octet_def)
next
  fix s c s'
  assume "dbuf_valid s" and "dbuf_rest s = []"
  from get_one_Nil [OF this, of 0]
  show "next_octet s \<noteq> Some (1, c, s')" "next_octet s \<noteq> None" by (auto simp: next_octet_def)
qed

end
