(* ===== verification/Socket.thy ===== *)
theory Socket
  imports Octet_IO
begin

text \<open>
  \<open>src/socket/conutils.c\<close>: the loops \<open>ReadFromSocket\<close> and \<open>WriteToSocket\<close> that turn the
  partial transfers of \<open>read\<close> and \<open>write\<close> into complete ones, and \<open>TimeOut\<close>.

  The kernel is a script of what the next system calls meet: a piece of data, a failure with
  its \<open>errno\<close>, a peer that stays connected and sends nothing any more, or, after the last event,
  the end of the file, for which \<open>read\<close> returns 0 and leaves \<open>errno\<close> as it is. A call of \<open>read\<close> on
  a silent connection never returns; \<open>select\<close> returns when its time is over. Every call of
  \<open>write\<close> returns: a peer that stops reading is not modelled.
\<close>

section \<open>The system calls\<close>

datatype read_event = Data "octet list" | Failed int | Silent

datatype write_event = Accepts int | Refused int

record sock =
  incoming :: "read_event list"
  outgoing :: "write_event list"
  sent :: "octet list"
  errno :: int
  is_open :: bool
  selects :: "int list"

definition EINTR :: int where
  "EINTR = 4"

definition EBADF :: int where
  "EBADF = 9"

definition close_fd :: "sock \<Rightarrow> sock" where
  "close_fd s = s\<lparr>is_open := False\<rparr>"

text \<open>
  \<open>read(fd, buf, n)\<close> for a positive \<open>n\<close>: the value returned and the octets stored; \<open>None\<close> is a call
  that never returns.
\<close>

definition sys_read :: "sock \<Rightarrow> int \<Rightarrow> (int \<times> octet list \<times> sock) option" where
  "sys_read s n =
     (if \<not> is_open s then Some (- 1, [], s\<lparr>errno := EBADF\<rparr>)
      else case incoming s of
          [] \<Rightarrow> Some (0, [], s)
        | Silent # es \<Rightarrow> None
        | Failed e # es \<Rightarrow> Some (- 1, [], s\<lparr>incoming := es, errno := e\<rparr>)
        | Data cs # es \<Rightarrow> Some
            (if int (length cs) \<le> n then (int (length cs), cs, s\<lparr>incoming := es\<rparr>)
             else (n, take (nat n) cs, s\<lparr>incoming := Data (drop (nat n) cs) # es\<rparr>)))"

definition sys_write :: "sock \<Rightarrow> octet list \<Rightarrow> int \<times> sock" where
  "sys_write s cs =
     (if \<not> is_open s then (- 1, s\<lparr>errno := EBADF\<rparr>)
      else case outgoing s of
          [] \<Rightarrow> (int (length cs), s\<lparr>sent := sent s @ cs\<rparr>)
        | Refused e # es \<Rightarrow> (- 1, s\<lparr>outgoing := es, errno := e\<rparr>)
        | Accepts k # es \<Rightarrow>
            let m = max 0 (min k (int (length cs)))
            in (m, s\<lparr>outgoing := es, sent := sent s @ take (nat m) cs\<rparr>))"

text \<open>
  The octets that arrive, whatever pieces they come in, up to the end of the file, a failure
  other than an interrupted call, or the silence of the peer.
\<close>

fun event_octets :: "read_event list \<Rightarrow> octet list" where
  "event_octets [] = []"
| "event_octets (Data [] # es) = []"
| "event_octets (Data (c # cs) # es) = c # cs @ event_octets es"
| "event_octets (Failed e # es) = (if e = EINTR then event_octets es else [])"
| "event_octets (Silent # es) = []"

text \<open>What follows those octets is the silence of the peer, not the end of the file or a failure.\<close>

fun goes_silent :: "read_event list \<Rightarrow> bool" where
  "goes_silent [] = False"
| "goes_silent (Data [] # es) = False"
| "goes_silent (Data (c # cs) # es) = goes_silent es"
| "goes_silent (Failed e # es) = (e = EINTR \<and> goes_silent es)"
| "goes_silent (Silent # es) = True"

definition silent_now :: "sock \<Rightarrow> bool" where
  "silent_now s \<longleftrightarrow> goes_silent (incoming s) \<and> event_octets (incoming s) = []"

text \<open>
  \<open>select\<close> on the descriptor: \<open>selects\<close> lists what the calls to come return; a closed
  descriptor gives -1. Without an entry the data, the end of the file or the failure is there in time. A silent connection is
  never reported as ready: the time runs out, or the call fails.
\<close>

definition TimeOut :: "sock \<Rightarrow> int \<Rightarrow> int \<times> sock" where
  "TimeOut s howLong =
     (if \<not> is_open s then (- 1, s\<lparr>errno := EBADF\<rparr>)
      else let (c, s') = (case selects s of [] \<Rightarrow> (1, s) | c # cs \<Rightarrow> (c, s\<lparr>selects := cs\<rparr>))
           in (if silent_now s then min c 0 else c, s'))"

section \<open>Reading\<close>

partial_function (option) read_loop ::
    "sock \<Rightarrow> int \<Rightarrow> int \<Rightarrow> octet list \<Rightarrow> (int \<times> octet list \<times> sock) option" where
  "read_loop s all nbytes buf =
     (if nbytes > 0
      then Option.bind (sys_read s nbytes) (\<lambda>(nbytesRead, cs, s').
              if nbytesRead \<le> 0
              then if errno s' = EINTR then read_loop s' all nbytes buf
                   else Some (nbytesRead, buf, s')
              else read_loop s' all (nbytes - nbytesRead) (buf @ cs))
      else Some (all - nbytes, buf, s))"

text \<open>
  The result is the value returned, the octets stored in \<open>buf\<close> and the socket; \<open>None\<close> is a
  call that never returns.
\<close>

definition ReadFromSocket :: "sock \<Rightarrow> int \<Rightarrow> (int \<times> octet list \<times> sock) option" where
  "ReadFromSocket s nbytes = read_loop s nbytes nbytes []"

text \<open>A read of one octet, with the value \<open>ch\<close> has where nothing is stored in it.\<close>

definition read_octet :: "sock octet_get" where
  "read_octet s = Option.bind (ReadFromSocket s 1) (\<lambda>(code, buf, s').
     Some (code, (case buf of c # _ \<Rightarrow> c | [] \<Rightarrow> 0), s'))"

definition sock_octets :: "sock \<Rightarrow> octet list" where
  "sock_octets s = (if is_open s then event_octets (incoming s) else [])"

text \<open>
  \<open>read\<close> returns 0 at the end of the file and does not set \<open>errno\<close>. The loop compares
  \<open>errno\<close> all the same, so it ends there only if the last failure of any earlier call was
  not an interruption.
\<close>

fun ends_cleanly :: "int \<Rightarrow> read_event list \<Rightarrow> bool" where
  "ends_cleanly e [] = (e \<noteq> EINTR)"
| "ends_cleanly e (Data [] # es) = (e \<noteq> EINTR)"
| "ends_cleanly e (Data (c # cs) # es) = ends_cleanly e es"
| "ends_cleanly e (Failed f # es) = (f = EINTR \<longrightarrow> ends_cleanly f es)"
| "ends_cleanly e (Silent # es) = True"

definition sock_valid :: "sock \<Rightarrow> bool" where
  "sock_valid s \<longleftrightarrow> (is_open s \<longrightarrow> ends_cleanly (errno s) (incoming s))"

text \<open>
  However the octets are cut into pieces and whatever interruptions come between, a request
  for octets that are there is served in full.
\<close>

lemma read_loop_serves:
  assumes "is_open s" and "v \<longrightarrow> ends_cleanly (errno s) (incoming s)"
    and "n \<le> length (event_octets (incoming s))"
  shows "\<exists>s'. read_loop s all (int n) buf = Some (all, buf @ take n (event_octets (incoming s)), s')
    \<and> is_open s' \<and> event_octets (incoming s') = drop n (event_octets (incoming s))
    \<and> (v \<longrightarrow> ends_cleanly (errno s') (incoming s')) \<and> goes_silent (incoming s') = goes_silent (incoming s)"
  using assms
proof (induction "incoming s" arbitrary: s n buf rule: event_octets.induct)
  case 1
  then show ?case by (subst read_loop.simps) auto
next
  case (2 es)
  then have "event_octets (incoming s) = []" using 2(1) by (metis event_octets.simps(2))
  with 2 show ?case by (subst read_loop.simps) auto
next
  case (3 c cs es)
  have inc: "incoming s = Data (c # cs) # es" using 3(2) by simp
  show ?case
  proof (cases "n = 0")
    case True
    then show ?thesis using 3 by (subst read_loop.simps) auto
  next
    case False
    show ?thesis
    proof (cases "length (c # cs) \<le> n")
      case True
      let ?s = "s\<lparr>incoming := es\<rparr>"
      have step: "read_loop s all (int n) buf = read_loop ?s all (int (n - length (c # cs))) (buf @ c # cs)"
        using False True 3(3) inc by (subst read_loop.simps) (simp add: sys_read_def of_nat_diff)
      have len: "n - length (c # cs) \<le> length (event_octets es)" using 3(5) inc by simp
      have cl: "v \<longrightarrow> ends_cleanly (errno s) es" using 3(4) inc by simp
      have "\<exists>s'. read_loop ?s all (int (n - length (c # cs))) (buf @ c # cs) =
          Some (all, (buf @ c # cs) @ take (n - length (c # cs)) (event_octets es), s')
        \<and> is_open s' \<and> event_octets (incoming s') = drop (n - length (c # cs)) (event_octets es)
        \<and> (v \<longrightarrow> ends_cleanly (errno s') (incoming s')) \<and> goes_silent (incoming s') = goes_silent es"
        using 3(1) [of ?s "n - length (c # cs)" "buf @ c # cs"] 3(3) len cl by simp
      moreover have "take n (event_octets (incoming s)) = (c # cs) @ take (n - length (c # cs)) (event_octets es)"
        using True inc take_append [of n "c # cs"] by simp
      moreover have "drop n (event_octets (incoming s)) = drop (n - length (c # cs)) (event_octets es)"
        using True inc drop_append [of n "c # cs"] by simp
      ultimately show ?thesis using step inc by simp
    next
      case short: False
      let ?s = "s\<lparr>incoming := Data (drop n (c # cs)) # es\<rparr>"
      obtain d ds where dd: "drop n (c # cs) = d # ds" using short by (cases "drop n (c # cs)") simp_all
      have "read_loop s all (int n) buf = read_loop ?s all 0 (buf @ take n (c # cs))"
        using False short 3(3) inc by (subst read_loop.simps) (simp add: sys_read_def)
      then have "read_loop s all (int n) buf = Some (all, buf @ take n (c # cs), ?s)"
        by (subst (asm) (2) read_loop.simps) simp
      moreover have "take n (event_octets (incoming s)) = take n (c # cs)"
        using short inc take_append [of n "c # cs"] by simp
      moreover have "drop n (event_octets (incoming s)) = event_octets (incoming ?s)"
        using short inc drop_append [of n "c # cs"] dd by simp
      moreover have "v \<longrightarrow> ends_cleanly (errno ?s) (incoming ?s)" using 3(4) inc dd by simp
      moreover have "goes_silent (incoming ?s) = goes_silent (incoming s)" using inc dd by simp
      ultimately show ?thesis using 3(3) by (intro exI [of _ ?s]) simp
    qed
  qed
next
  case (4 e es)
  have inc: "incoming s = Failed e # es" using 4(2) by simp
  show ?case
  proof (cases "n = 0")
    case True
    then show ?thesis using 4 by (subst read_loop.simps) auto
  next
    case False
    then have e: "e = EINTR" using 4(5) inc by (cases "e = EINTR") simp_all
    let ?s = "s\<lparr>incoming := es, errno := e\<rparr>"
    have "read_loop s all (int n) buf = read_loop ?s all (int n) buf"
      using False 4(3) inc e by (subst read_loop.simps) (simp add: sys_read_def)
    moreover have "v \<longrightarrow> ends_cleanly (errno ?s) (incoming ?s)" using 4(4) inc e by auto
    ultimately show ?thesis using 4(1) [of ?s n buf] 4(3,5) inc e by simp
  qed
next
  case (5 es)
  then have "event_octets (incoming s) = []" using 5(1) by (metis event_octets.simps(5))
  with 5 show ?case by (subst read_loop.simps) auto
qed

text \<open>
  With fewer octets than asked for, the call ends with the failure, or with 0 at the end of
  the file, as long as \<open>errno\<close> does not still hold an interruption there; otherwise, and where the
  peer goes silent, it never returns.
\<close>

lemma read_loop_short:
  assumes "is_open s" and "ends_cleanly (errno s) (incoming s)"
    and "length (event_octets (incoming s)) < n" and "\<not> goes_silent (incoming s)"
  shows "\<exists>code cs s'. read_loop s all (int n) buf = Some (code, cs, s') \<and> code \<le> 0
    \<and> event_octets (incoming s) = drop (length buf) cs \<and> take (length buf) cs = buf"
  using assms
proof (induction "incoming s" arbitrary: s n buf rule: event_octets.induct)
  case 1
  then show ?case by (subst read_loop.simps) (auto simp: sys_read_def split: list.splits)
next
  case (2 es)
  have inc: "incoming s = Data [] # es" using 2(1) by simp
  have "errno s \<noteq> EINTR" using 2(3) by (simp add: inc)
  then show ?case using 2(2,4) inc by (subst read_loop.simps) (simp add: sys_read_def)
next
  case (3 c cs es)
  have inc: "incoming s = Data (c # cs) # es" using 3(2) by simp
  let ?s = "s\<lparr>incoming := es\<rparr>" and ?n = "n - length (c # cs)"
  have n: "length (c # cs) \<le> n" "length (event_octets es) < ?n" using 3(5) inc by simp_all
  have "read_loop s all (int n) buf = read_loop ?s all (int ?n) (buf @ c # cs)"
    using n 3(3) inc by (subst read_loop.simps) (simp add: sys_read_def of_nat_diff)
  moreover obtain code ds s' where ih: "read_loop ?s all (int ?n) (buf @ c # cs) = Some (code, ds, s')"
    "code \<le> 0" "event_octets es = drop (length (buf @ c # cs)) ds"
    "take (length (buf @ c # cs)) ds = buf @ c # cs"
    using 3(1) [of ?s ?n "buf @ c # cs"] 3(3,4,6) n inc by auto
  moreover have "event_octets (incoming s) = drop (length buf) ds"
  proof -
    have "ds = (buf @ c # cs) @ event_octets es"
      using ih(3,4) append_take_drop_id [of "length (buf @ c # cs)" ds] by simp
    then show ?thesis using inc by simp
  qed
  moreover have "take (length buf) ds = buf"
    using arg_cong [OF ih(4), of "take (length buf)"] by (simp add: min_def)
  ultimately show ?case by auto
next
  case (4 e es)
  have inc: "incoming s = Failed e # es" using 4(2) by simp
  show ?case
  proof (cases "e = EINTR")
    case False
    then show ?thesis using 4(3,5) inc by (subst read_loop.simps) (simp add: sys_read_def)
  next
    case True
    let ?s = "s\<lparr>incoming := es, errno := e\<rparr>"
    have "read_loop s all (int n) buf = read_loop ?s all (int n) buf"
      using True 4(3,5) inc by (subst read_loop.simps) (simp add: sys_read_def)
    then show ?thesis using 4(1) [of ?s n buf] 4(3-6) inc True by simp
  qed
next
  case (5 es)
  then have "goes_silent (incoming s)" using 5(1) by (metis goes_silent.simps(5))
  with 5 show ?case by simp
qed

text \<open>Where the peer goes silent before the octets asked for have arrived, the call never returns.\<close>

lemma read_loop_silent:
  assumes "is_open s" and "length (event_octets (incoming s)) < n" and "goes_silent (incoming s)"
  shows "read_loop s all (int n) buf = None"
  using assms
proof (induction "incoming s" arbitrary: s n buf rule: event_octets.induct)
  case 1
  then show ?case by (metis goes_silent.simps(1))
next
  case (2 es)
  then show ?case by (metis goes_silent.simps(2))
next
  case (3 c cs es)
  have inc: "incoming s = Data (c # cs) # es" using 3(2) by simp
  let ?s = "s\<lparr>incoming := es\<rparr>" and ?n = "n - length (c # cs)"
  have n: "length (c # cs) \<le> n" "length (event_octets es) < ?n" using 3(4) inc by simp_all
  have "read_loop s all (int n) buf = read_loop ?s all (int ?n) (buf @ c # cs)"
    using n 3(3) inc by (subst read_loop.simps) (simp add: sys_read_def of_nat_diff)
  then show ?case using 3(1) [of ?s ?n "buf @ c # cs"] 3(3,5) n inc by simp
next
  case (4 e es)
  have inc: "incoming s = Failed e # es" using 4(2) by simp
  then have e: "e = EINTR" using 4(5) by simp
  let ?s = "s\<lparr>incoming := es, errno := e\<rparr>"
  have "read_loop s all (int n) buf = read_loop ?s all (int n) buf"
    using e 4(3,4) inc by (subst read_loop.simps) (simp add: sys_read_def)
  then show ?case using 4(1) [of ?s n buf] 4(3-5) inc e by simp
next
  case (5 es)
  have inc: "incoming s = Silent # es" using 5(1) by simp
  then show ?case using 5(2,3) by (subst read_loop.simps) (simp add: sys_read_def)
qed

lemma read_loop_stuck:
  assumes "read_loop s all n buf = Some r"
  shows "\<not> (0 < n \<and> is_open s \<and> incoming s = [] \<and> errno s = EINTR)"
proof (rule read_loop.raw_induct [OF _ assms, where P = "\<lambda>s all n buf r.
    \<not> (0 < n \<and> is_open s \<and> incoming s = [] \<and> errno s = EINTR)"])
  fix loop s all n buf r
  assume ih: "\<And>s all n buf r. loop s all n buf = Some r \<Longrightarrow>
      \<not> (0 < n \<and> is_open s \<and> incoming s = [] \<and> errno s = EINTR)"
    and step: "(if 0 < n then Option.bind (sys_read s n) (\<lambda>(nbytesRead, cs, s').
        if nbytesRead \<le> 0 then if errno s' = EINTR then loop s' all n buf else Some (nbytesRead, buf, s')
           else loop s' all (n - nbytesRead) (buf @ cs))
      else Some (all - n, buf, s)) = Some r"
  show "\<not> (0 < n \<and> is_open s \<and> incoming s = [] \<and> errno s = EINTR)"
  proof
    assume stuck: "0 < n \<and> is_open s \<and> incoming s = [] \<and> errno s = EINTR"
    then have "loop s all n buf = Some r" using step by (simp add: sys_read_def)
    from ih [OF this] stuck show False by blast
  qed
qed

lemma read_octet_Cons:
  assumes "sock_valid s" and "sock_octets s = c # cs"
  shows "\<exists>s'. read_octet s = Some (1, c, s') \<and> sock_valid s' \<and> sock_octets s' = cs
    \<and> goes_silent (incoming s') = goes_silent (incoming s)"
proof -
  have "is_open s" using assms(2) by (simp add: sock_octets_def split: if_splits)
  then show ?thesis using read_loop_serves [of s True 1 1 "[]"] assms
    by (auto simp: read_octet_def ReadFromSocket_def sock_octets_def sock_valid_def)
qed

lemma read_octet_Nil:
  assumes "sock_valid s" and "sock_octets s = []" and "\<not> silent_now s"
  shows "\<exists>code c s'. read_octet s = Some (code, c, s') \<and> code \<le> 0"
proof (cases "is_open s")
  case True
  then show ?thesis using read_loop_short [of s 1 1 "[]"] assms
    by (auto simp: read_octet_def ReadFromSocket_def sock_octets_def sock_valid_def silent_now_def split: list.splits)
next
  case False
  then show ?thesis
    by (subst read_octet_def, subst ReadFromSocket_def, subst read_loop.simps)
       (simp add: sys_read_def EBADF_def EINTR_def)
qed

text \<open>A read with nothing left delivers no octet: it returns without one, or waits for a silent peer.\<close>

lemma read_octet_none:
  assumes "sock_valid s" and "sock_octets s = []" shows "read_octet s \<noteq> Some (1, c, s')"
proof (cases "silent_now s")
  case False
  then show ?thesis using read_octet_Nil [OF assms] by auto
next
  case True
  then have sil: "goes_silent (incoming s)" "event_octets (incoming s) = []" by (simp_all add: silent_now_def)
  show ?thesis
  proof (cases "is_open s")
    case True
    then show ?thesis using read_loop_silent [OF True, of 1 1 "[]"] sil by (simp add: read_octet_def ReadFromSocket_def)
  next
    case False
    then show ?thesis
      by (subst read_octet_def, subst ReadFromSocket_def, subst read_loop.simps)
         (simp add: sys_read_def EBADF_def EINTR_def)
  qed
qed

interpretation net: octet_source read_octet sock_octets sock_valid
proof unfold_locales
  fix s c cs
  assume "sock_valid s" and "sock_octets s = c # cs"
  then show "\<exists>s'. read_octet s = Some (1, c, s') \<and> sock_valid s' \<and> sock_octets s' = cs"
    using read_octet_Cons by blast
qed (rule read_octet_none)

text \<open>A connection that ends, by the end of the file or by a failure, reports its end.\<close>

interpretation closing: ending_source read_octet sock_octets "\<lambda>s. sock_valid s \<and> \<not> goes_silent (incoming s)"
proof unfold_locales
  fix s c cs
  assume "sock_valid s \<and> \<not> goes_silent (incoming s)" and "sock_octets s = c # cs"
  then show "\<exists>s'. read_octet s = Some (1, c, s') \<and> (sock_valid s' \<and> \<not> goes_silent (incoming s')) \<and> sock_octets s' = cs"
    using read_octet_Cons [of s c cs] by auto
next
  fix s c s'
  assume s: "sock_valid s \<and> \<not> goes_silent (incoming s)" "sock_octets s = []"
  then show "read_octet s \<noteq> Some (1, c, s')" using read_octet_none by blast
  have "\<not> silent_now s" using s(1) by (simp add: silent_now_def)
  then show "read_octet s \<noteq> None" using read_octet_Nil [of s] s by auto
qed

section \<open>Writing\<close>

text \<open>
  \<open>buf\<close> is what is left to send, so that \<open>left\<close> is its length. Every turn of the loop uses up
  one event or sends all that is left.
\<close>

function write_loop :: "sock \<Rightarrow> octet list \<Rightarrow> int \<Rightarrow> int \<times> sock" where
  "write_loop s buf nbytes =
     (if buf \<noteq> []
      then let (nbytesWritten, s') = sys_write s buf
           in if nbytesWritten \<le> 0
              then if errno s' = EINTR then write_loop s' buf nbytes
                   else (nbytesWritten, s')
              else write_loop s' (drop (nat nbytesWritten) buf) nbytes
      else (nbytes - int (length buf), s))"
  by pat_completeness auto
termination
  by (relation "measure (\<lambda>(s, buf, n). length (outgoing s) + length buf)")
     (auto simp: sys_write_def EBADF_def EINTR_def Let_def split: if_splits list.splits write_event.splits)

declare write_loop.simps [simp del]

definition WriteToSocket :: "sock \<Rightarrow> octet list \<Rightarrow> int \<Rightarrow> int \<times> sock" where
  "WriteToSocket s buf nbytes = write_loop s (take (nat nbytes) buf) nbytes"

text \<open>
  What has been sent is a prefix of the buffer, and all of it when the number of octets is
  returned, whatever the sizes the kernel accepts.
\<close>

lemma write_loop_sends:
  assumes "write_loop s buf nbytes = (code, s')" and "int (length buf) \<le> nbytes"
  shows "\<exists>k. sent s' = sent s @ take k buf \<and> (0 < code \<longrightarrow> code = nbytes \<and> sent s' = sent s @ buf)"
  using assms
proof (induction s buf nbytes arbitrary: code s' rule: write_loop.induct)
  case (1 s buf nbytes)
  show ?case
  proof (cases "buf = []")
    case True
    then show ?thesis using 1(3) by (simp add: write_loop.simps [of s "[]"])
  next
    case False
    obtain w t where w: "sys_write s buf = (w, t)" by force
    have sent: "sent t = sent s @ take (nat w) buf" "w \<le> int (length buf)"
      using w by (auto simp: sys_write_def Let_def split: if_splits list.splits write_event.splits)
    consider "w \<le> 0" "errno t = EINTR" | "w \<le> 0" "errno t \<noteq> EINTR" | "0 < w" by linarith
    then show ?thesis
    proof cases
      case 1
      with \<open>buf \<noteq> []\<close> w "1.prems" have "write_loop t buf nbytes = (code, s')"
        by (simp add: write_loop.simps [of s buf])
      then show ?thesis using "1.IH"(1) [OF False refl w [symmetric]] 1 "1.prems"(2) sent by fastforce
    next
      case 2
      with False w "1.prems" have "code = w" "s' = t" by (simp_all add: write_loop.simps [of s buf])
      then show ?thesis using 2 sent by auto
    next
      case 3
      with False w "1.prems" have r: "write_loop t (drop (nat w) buf) nbytes = (code, s')"
        by (simp add: write_loop.simps [of s buf])
      have "int (length (drop (nat w) buf)) \<le> nbytes" using "1.prems"(2) by simp
      moreover have "\<not> w \<le> 0" using 3 by simp
      ultimately obtain k where
        k: "sent s' = sent t @ take k (drop (nat w) buf)"
        "0 < code \<longrightarrow> code = nbytes \<and> sent s' = sent t @ drop (nat w) buf"
        using "1.IH"(2) [OF False refl w [symmetric] _ r] by blast
      have "sent s' = sent s @ take (nat w + k) buf" using k(1) sent(1) by (simp add: take_add)
      moreover have "0 < code \<longrightarrow> code = nbytes \<and> sent s' = sent s @ buf" using k(2) sent(1) by simp
      ultimately show ?thesis by blast
    qed
  qed
qed

section \<open>What the callers rely on\<close>

text \<open>
  C39: \<open>ReadFromSocket\<close> on an open connection delivers exactly the octets asked for, in order,
  and leaves the rest, however the network cuts them into pieces and whatever interrupted calls
  come between; when fewer arrive before the connection ends, and \<open>errno\<close> holds no old interruption at
  the end, it returns 0 or -1 with what had arrived in the buffer; and when fewer arrive and the
  peer then stays connected in silence, it never returns.
\<close>

theorem ReadFromSocket_whole:
  "is_open s \<Longrightarrow>
     (n \<le> length (sock_octets s) \<longrightarrow>
        (\<exists>s'. ReadFromSocket s (int n) = Some (int n, take n (sock_octets s), s')
           \<and> sock_octets s' = drop n (sock_octets s)))
   \<and> (length (sock_octets s) < n \<and> sock_valid s \<and> \<not> goes_silent (incoming s) \<longrightarrow>
        (\<exists>code s'. ReadFromSocket s (int n) = Some (code, sock_octets s, s') \<and> code \<le> 0))
   \<and> (length (sock_octets s) < n \<and> goes_silent (incoming s) \<longrightarrow> ReadFromSocket s (int n) = None)"
proof (intro conjI; intro impI)
  assume o: "is_open s" and n: "n \<le> length (sock_octets s)"
  then show "\<exists>s'. ReadFromSocket s (int n) = Some (int n, take n (sock_octets s), s')
      \<and> sock_octets s' = drop n (sock_octets s)"
    using read_loop_serves [of s False n "int n" "[]"] by (auto simp: ReadFromSocket_def sock_octets_def)
next
  assume "is_open s" and "length (sock_octets s) < n \<and> sock_valid s \<and> \<not> goes_silent (incoming s)"
  then show "\<exists>code s'. ReadFromSocket s (int n) = Some (code, sock_octets s, s') \<and> code \<le> 0"
    using read_loop_short [of s n "int n" "[]"]
    by (auto simp: ReadFromSocket_def sock_octets_def sock_valid_def)
next
  assume "is_open s" and "length (sock_octets s) < n \<and> goes_silent (incoming s)"
  then show "ReadFromSocket s (int n) = None"
    using read_loop_silent [of s n "int n" "[]"] by (simp add: ReadFromSocket_def sock_octets_def)
qed

definition sample_sock :: sock where
  "sample_sock = \<lparr>incoming = [Data [1, 2], Failed EINTR, Data [3], Failed 104], outgoing = [Accepts 2, Refused EINTR],
     sent = [], errno = 0, is_open = True, selects = []\<rparr>"

definition silent_sock :: sock where
  "silent_sock = sample_sock\<lparr>incoming := [Data [1, 2], Silent]\<rparr>"

lemma sample_sock_octets: "is_open sample_sock" "sock_octets sample_sock = [1, 2, 3]" "sock_valid sample_sock"
  "\<not> goes_silent (incoming sample_sock)"
  by (simp_all add: sample_sock_def sock_octets_def sock_valid_def EINTR_def)

theorem ReadFromSocket_whole_witness:
  "(\<exists>s'. ReadFromSocket sample_sock 3 = Some (3, [1, 2, 3], s') \<and> sock_octets s' = [])
   \<and> (\<exists>code s'. ReadFromSocket sample_sock 4 = Some (code, [1, 2, 3], s') \<and> code \<le> 0)
   \<and> ReadFromSocket silent_sock 3 = None"
proof (intro conjI)
  have "is_open silent_sock" "length (sock_octets silent_sock) < 3 \<and> goes_silent (incoming silent_sock)"
    by (simp_all add: silent_sock_def sample_sock_def sock_octets_def)
  then show "ReadFromSocket silent_sock 3 = None" using ReadFromSocket_whole [of silent_sock 3] by simp
qed (use ReadFromSocket_whole [of sample_sock 3] ReadFromSocket_whole [of sample_sock 4] sample_sock_octets in simp_all)

text \<open>
  Finding: at the end of the file \<open>read\<close> returns 0 without touching \<open>errno\<close>; if an earlier call was
  interrupted, \<open>ReadFromSocket\<close> takes the end of the file for another interruption and never
  returns.
\<close>

theorem ReadFromSocket_stale_errno_hangs:
  "ReadFromSocket \<lparr>incoming = [Failed EINTR], outgoing = out, sent = cs, errno = e, is_open = True, selects = sel\<rparr> 1
     = None"
proof -
  let ?s = "\<lparr>incoming = [], outgoing = out, sent = cs, errno = EINTR, is_open = True, selects = sel\<rparr>"
  have "ReadFromSocket \<lparr>incoming = [Failed EINTR], outgoing = out, sent = cs, errno = e, is_open = True, selects = sel\<rparr> 1
      = read_loop ?s 1 1 []"
    by (simp add: ReadFromSocket_def read_loop.simps [of "\<lparr>incoming = [Failed EINTR], outgoing = out, sent = cs, errno = e, is_open = True, selects = sel\<rparr>"] sys_read_def)
  then show ?thesis using read_loop_stuck [of ?s 1 1 "[]"] by (cases "read_loop ?s 1 1 []") auto
qed

text \<open>
  C40: when \<open>WriteToSocket\<close> returns a positive value, that is the number of octets asked for and
  all of them were sent in order; otherwise a prefix was.
\<close>

theorem WriteToSocket_whole:
  "WriteToSocket s buf n = (code, s') \<Longrightarrow> n = int (length buf) \<Longrightarrow>
     (\<exists>k. sent s' = sent s @ take k buf) \<and> (0 < code \<longrightarrow> code = n \<and> sent s' = sent s @ buf)"
  using write_loop_sends [of s buf n code s'] by (auto simp: WriteToSocket_def)

theorem WriteToSocket_whole_witness:
  "\<exists>s'. WriteToSocket sample_sock [7, 8, 9] 3 = (3, s') \<and> sent s' = [7, 8, 9]"
proof -
  have "\<exists>s'. WriteToSocket sample_sock [7, 8, 9] 3 = (3, s')"
    by (simp add: WriteToSocket_def write_loop.simps sys_write_def sample_sock_def EINTR_def)
  then obtain s' where s': "WriteToSocket sample_sock [7, 8, 9] 3 = (3, s')" by blast
  from WriteToSocket_whole [OF s'] have "sent s' = [7, 8, 9]" by (simp add: sample_sock_def)
  with s' show ?thesis by blast
qed

end
