(* ===== verification/Ber.thy ===== *)
theory Ber
  imports Dbuf Socket
begin

text \<open>
  The identifier and length octets of BER: \<open>PutLEN\<close>, \<open>PutIndLenStart\<close>, \<open>PutIndLenEnd\<close> and
  \<open>PutTAG\<close> of \<open>src/zpdu/ber_encode.c\<close>, and \<open>GetTAG\<close>, \<open>GetLEN\<close>, \<open>GetTAGFromStream\<close> and
  \<open>GetLENFromStream\<close> of \<open>src/zpdu/ber_decode.c\<close>, with the round trips between them.
\<close>

section \<open>Encoding\<close>

definition Z_ERROR :: int where
  "Z_ERROR = 0"

definition Z_OK :: int where
  "Z_OK = 1"

definition z_status :: "bool \<times> dbuf option \<Rightarrow> int \<times> dbuf option" where
  "z_status r = (if fst r then Z_OK else Z_ERROR, snd r)"

definition PutLEN :: "dbuf option \<Rightarrow> int \<Rightarrow> int \<times> dbuf option" where
  "PutLEN dbuf len =
     (if dbuf = None then (Z_ERROR, dbuf)
      else if len < 0 then (Z_ERROR, dbuf)
      else if len < 128 then z_status (put_octets put_one dbuf [octet_of (len AND 127)])
      else let data = digits_le 8 len
           in z_status (put_octets put_one dbuf
                (octet_of (int (length data) OR 128) # map octet_of (rev data))))"

definition PutIndLenStart :: "dbuf option \<Rightarrow> int \<times> dbuf option" where
  "PutIndLenStart dbuf =
     (if dbuf = None then (Z_ERROR, dbuf) else z_status (put_octets put_one dbuf [128]))"

definition PutIndLenEnd :: "dbuf option \<Rightarrow> int \<times> dbuf option" where
  "PutIndLenEnd dbuf =
     (if dbuf = None then (Z_ERROR, dbuf) else z_status (put_octets put_one dbuf [0, 0]))"

text \<open>The first octet of a tag; \<open>low\<close> is the tag number, or 31 for the long form.\<close>

definition tag_octet :: "int \<Rightarrow> int \<Rightarrow> int \<Rightarrow> octet" where
  "tag_octet class_var form low = octet_of (push_bit 6 class_var OR push_bit 5 form OR low)"

definition PutTAG :: "dbuf option \<Rightarrow> int \<Rightarrow> int \<Rightarrow> int \<Rightarrow> int \<times> dbuf option" where
  "PutTAG dbuf class_var form tagno =
     (if dbuf = None then (Z_ERROR, dbuf)
      else if class_var < 0 \<or> class_var > 3 \<or> form < 0 \<or> form > 1 \<or> tagno < 0 then (Z_ERROR, dbuf)
      else if tagno < 31
      then z_status (put_octets put_nonneg dbuf [tag_octet class_var form (tagno AND 31)])
      else z_status (put_octets put_nonneg dbuf (tag_octet class_var form 31 # septets tagno)))"

section \<open>Decoding\<close>

text \<open>
  \<open>GetTAG\<close> stores through its pointer arguments; the model takes their old values and returns
  the new ones. For end-of-contents octets only \<open>*tagno\<close> is written.
\<close>

definition GetTAG :: "dbuf option \<Rightarrow> int \<Rightarrow> int \<Rightarrow> int \<Rightarrow> (int \<times> int \<times> int \<times> int \<times> dbuf option) option" where
  "GetTAG dbuf class_var form tagno =
     (if dbuf = None then Some (Z_ERROR, class_var, form, tagno, dbuf)
      else Option.bind (next_octet dbuf) (\<lambda>(code, ch, dbuf1).
        if code \<noteq> 1 then Some (Z_ERROR, class_var, form, 0, dbuf1)
        else if ch = 0 then
          Option.bind (next_octet dbuf1) (\<lambda>(code, ch, dbuf2).
            if code \<noteq> 1 \<or> ch \<noteq> 0 then Some (Z_ERROR, class_var, form, 0, dbuf2)
            else Some (Z_OK, class_var, form, 0, dbuf2))
        else
          let class_var = uint (drop_bit 6 ch AND 3); form = uint (drop_bit 5 ch AND 1);
              tagno = uint (ch AND 31)
          in if tagno = 31
             then Option.bind (long_tag next_octet dbuf1 0 1) (\<lambda>(code, tagno, _, dbuf2).
               Some (if code \<noteq> 1 then Z_ERROR else Z_OK, class_var, form, tagno, dbuf2))
             else Some (Z_OK, class_var, form, tagno, dbuf1)))"

definition GetLEN :: "dbuf option \<Rightarrow> (int \<times> dbuf option) option" where
  "GetLEN dbuf =
     Option.bind (next_octet dbuf) (\<lambda>(code, ch, dbuf1).
       if code \<noteq> 1 then Some (- 1, dbuf1)
       else if ch AND 128 = 0 then Some (uint ch, dbuf1)
       else if ch = 128 then Some (- 1, dbuf1)
       else let nocs = uint (ch AND 127)
            in if nocs > 4 then Some (0, dbuf1)
               else Option.bind (long_len next_octet dbuf1 (nat nocs) 0) (\<lambda>(code, len, dbuf2).
                 Some (if code \<noteq> 1 then Z_ERROR else len, dbuf2)))"

text \<open>
  The variants that read a socket. \<open>GetTAGFromStream\<close> returns the status, class, form, tag
  number and size; \<open>GetLENFromStream\<close> takes the old value of \<open>*size\<close>, which it writes only
  where it has read a length.
\<close>

definition GetTAGFromStream :: "sock \<Rightarrow> (int \<times> int \<times> int \<times> int \<times> int \<times> sock) option" where
  "GetTAGFromStream fd =
     Option.bind (read_octet fd) (\<lambda>(code, ch, fd1).
       if code \<noteq> 1 then Some (code, 0, 0, 0, 0, fd1)
       else if ch = 0 then
         Option.bind (read_octet fd1) (\<lambda>(code, ch, fd2).
           if code \<noteq> 1 then Some (code, 0, 0, 0, 0, fd2)
           else if ch \<noteq> 0 then Some (- 1, 0, 0, 0, 0, fd2)
           else Some (1, 0, 0, 0, 2, fd2))
       else
         let class_var = uint (drop_bit 6 ch AND 3); form = uint (drop_bit 5 ch AND 1);
             tagno = uint (ch AND 31)
         in if tagno = 31
            then Option.bind (long_tag read_octet fd1 0 1) (\<lambda>(code, tagno, len, fd2).
              Some (if code \<noteq> 1 then (code, class_var, form, tagno, 0, fd2)
                    else (1, class_var, form, tagno, len, fd2)))
            else Some (1, class_var, form, tagno, 1, fd1))"

definition GetLENFromStream :: "sock \<Rightarrow> int \<Rightarrow> (int \<times> int \<times> sock) option" where
  "GetLENFromStream fd size0 =
     Option.bind (read_octet fd) (\<lambda>(code, ch, fd1).
       if code \<noteq> 1 then Some (code, size0, fd1)
       else if ch AND 128 = 0 then Some (uint ch, 1, fd1)
       else if ch = 128 then Some (- 1, 1, fd1)
       else let nocs = uint (ch AND 127)
            in if nocs > 4 then Some (0, size0, fd1)
               else Option.bind (long_len read_octet fd1 (nat nocs) 0) (\<lambda>(code, len, fd2).
                 Some (if code \<noteq> 1 then (code, size0, fd2) else (len, nocs + 1, fd2))))"

section \<open>What is written\<close>

definition tag_octets :: "int \<Rightarrow> int \<Rightarrow> int \<Rightarrow> octet list" where
  "tag_octets class_var form tagno =
     (if tagno < 31 then [tag_octet class_var form tagno]
      else tag_octet class_var form 31 # septets tagno)"

definition tag_ok :: "int \<Rightarrow> int \<Rightarrow> int \<Rightarrow> bool" where
  "tag_ok class_var form tagno \<longleftrightarrow>
     0 \<le> class_var \<and> class_var \<le> 3 \<and> 0 \<le> form \<and> form \<le> 1 \<and> 0 \<le> tagno \<and> tagno < 2147483648"

lemma length_mark_more [simp]: "length (mark_more cs) = length cs"
  by (induction cs rule: mark_more.induct) simp_all

lemma and_low: "0 \<le> x \<Longrightarrow> x < 2 ^ k \<Longrightarrow> x AND (2 ^ k - 1) = (x :: int)"
  by (metis mask_eq_exp_minus_1 mod_pos_pos_trivial take_bit_eq_mask take_bit_eq_mod)

lemma int_and_31 [simp]: "0 \<le> x \<Longrightarrow> x < 31 \<Longrightarrow> x AND 31 = (x :: int)"
  using and_low [of x 5] by simp

lemma int_and_127 [simp]: "0 \<le> x \<Longrightarrow> x < 128 \<Longrightarrow> x AND 127 = (x :: int)"
  using and_low [of x 7] by simp

lemma length_len_octets: "0 \<le> n \<Longrightarrow> n < 2147483648 \<Longrightarrow> length (len_octets n) \<le> 5"
  using length_digits_le [of n 8 4] by (simp add: len_octets_def Let_def)

lemma length_tag_octets: "tagno < 2147483648 \<Longrightarrow> length (tag_octets c f tagno) \<le> 6"
  using length_digits_le [of tagno 7 5] by (simp add: tag_octets_def septets_def)

lemma PutLEN_writes:
  assumes "dbuf_at k b" and "0 \<le> n" and "n < 2147483648" and "length (dbuf_octets b) + 5 \<le> dbuf_capacity"
  shows "\<exists>b'. PutLEN b n = (Z_OK, b') \<and> dbuf_at k b' \<and> dbuf_octets b' = dbuf_octets b @ len_octets n"
proof -
  have "length (dbuf_octets b) + length (len_octets n) \<le> dbuf_capacity"
    using length_len_octets [OF assms(2,3)] assms(4) by linarith
  then obtain b' where b': "put_octets put_one b (len_octets n) = (True, b')" "dbuf_at k b'"
    "dbuf_octets b' = dbuf_octets b @ len_octets n"
    using one.put_octets_ok [OF assms(1)] by blast
  have "PutLEN b n = z_status (put_octets put_one b (len_octets n))"
    using assms(1,2) by (cases b) (simp_all add: dbuf_at_def PutLEN_def len_octets_def Let_def)
  with b' show ?thesis by (simp add: z_status_def)
qed

lemma PutTAG_writes:
  assumes "dbuf_at k b" and "tag_ok c f t" and "length (dbuf_octets b) + 6 \<le> dbuf_capacity"
  shows "\<exists>b'. PutTAG b c f t = (Z_OK, b') \<and> dbuf_at k b' \<and> dbuf_octets b' = dbuf_octets b @ tag_octets c f t"
proof -
  have "length (dbuf_octets b) + length (tag_octets c f t) \<le> dbuf_capacity"
    using length_tag_octets [of t c f] assms(2,3) by (simp add: tag_ok_def)
  then obtain b' where b': "put_octets put_nonneg b (tag_octets c f t) = (True, b')" "dbuf_at k b'"
    "dbuf_octets b' = dbuf_octets b @ tag_octets c f t"
    using nonneg.put_octets_ok [OF assms(1)] by blast
  have "PutTAG b c f t = z_status (put_octets put_nonneg b (tag_octets c f t))"
    using assms(1,2) by (cases b) (auto simp: dbuf_at_def PutTAG_def tag_octets_def tag_ok_def)
  with b' show ?thesis by (simp add: z_status_def)
qed

section \<open>What is read\<close>

lemma or_shift: "0 \<le> x \<Longrightarrow> x < 2 ^ k \<Longrightarrow> push_bit k y OR x = push_bit k y + (x :: int)"
proof (rule disjunctive_add [symmetric])
  fix n
  assume "0 \<le> x" and "x < 2 ^ k"
  then have "take_bit k x = x" by (simp add: take_bit_int_eq_self)
  then show "\<not> bit (push_bit k y) n \<or> \<not> bit x n"
    by (metis bit_push_bit_iff_int bit_take_bit_iff not_le)
qed

lemma uint_tag_octet:
  assumes "0 \<le> c" "c \<le> 3" "0 \<le> f" "f \<le> 1" "0 \<le> l" "l \<le> 31"
  shows "uint (tag_octet c f l) = 64 * c + 32 * f + l"
proof -
  have "push_bit 5 f OR l = push_bit 5 f + l" using assms by (intro or_shift) simp_all
  moreover have "push_bit 6 c OR (push_bit 5 f + l) = push_bit 6 c + (push_bit 5 f + l)"
    using assms by (intro or_shift) (simp_all add: push_bit_eq_mult)
  ultimately have "push_bit 6 c OR push_bit 5 f OR l = 64 * c + 32 * f + l"
    by (simp add: push_bit_eq_mult)
  then show ?thesis using assms by (simp add: tag_octet_def)
qed

lemma octet_fields:
  "uint (drop_bit 6 (w :: octet) AND 3) = uint w div 64"
  "uint (drop_bit 5 w AND 1) = uint w div 32 mod 2"
  "uint (w AND 31) = uint w mod 32"
proof -
  have low: "uint ((v :: octet) AND mask k) = uint v mod 2 ^ k" for v k
    by (simp only: take_bit_eq_mask [symmetric] unsigned_take_bit_eq) (simp add: take_bit_eq_mod)
  have m: "(3 :: octet) = mask 2" "(1 :: octet) = mask 1" "(31 :: octet) = mask 5"
    by (simp_all add: mask_eq_exp_minus_1)
  have "0 \<le> uint w div 64" "uint w div 64 < 4"
    using uint_octet_range [of w] by linarith+
  then have "uint w div 64 mod 4 = uint w div 64" by simp
  then show "uint (drop_bit 6 w AND 3) = uint w div 64"
    unfolding m low unsigned_drop_bit_eq by (simp add: drop_bit_eq_div take_bit_int_eq_self)
  show "uint (drop_bit 5 w AND 1) = uint w div 32 mod 2" "uint (w AND 31) = uint w mod 32"
    unfolding m low unsigned_drop_bit_eq by (simp_all add: drop_bit_eq_div take_bit_int_eq_self)
qed

lemma tag_octet_fields:
  assumes "0 \<le> c" "c \<le> 3" "0 \<le> f" "f \<le> 1" "0 \<le> l" "l \<le> 31"
  shows "uint (drop_bit 6 (tag_octet c f l) AND 3) = c"
    and "uint (drop_bit 5 (tag_octet c f l) AND 1) = f"
    and "uint (tag_octet c f l AND 31) = l"
proof -
  have f: "f = 0 \<or> f = 1" using assms by linarith
  have r: "0 \<le> 32 * f + l" "32 * f + l < 64" using assms by simp_all
  have "(32 * f + l + c * 64) div 64 = c" using r by simp
  then show "uint (drop_bit 6 (tag_octet c f l) AND 3) = c"
    unfolding octet_fields uint_tag_octet [OF assms] by (simp add: algebra_simps)
  have "(l + (2 * c + f) * 32) div 32 = 2 * c + f" using assms by simp
  moreover have "(2 * c + f) mod 2 = f" using f by auto
  ultimately show "uint (drop_bit 5 (tag_octet c f l) AND 1) = f"
    unfolding octet_fields uint_tag_octet [OF assms] by (simp add: algebra_simps)
  have "(l + (2 * c + f) * 32) mod 32 = l mod 32" by (rule mod_mult_self1)
  then have "(l + (2 * c + f) * 32) mod 32 = l" using assms by simp
  then show "uint (tag_octet c f l AND 31) = l"
    unfolding octet_fields uint_tag_octet [OF assms] by (simp add: algebra_simps)
qed

lemma tag_octet_nonzero:
  assumes "0 \<le> c" "c \<le> 3" "0 \<le> f" "f \<le> 1" "0 \<le> l" "l \<le> 31" "\<not> (c = 0 \<and> f = 0 \<and> l = 0)"
  shows "tag_octet c f l \<noteq> 0"
proof
  assume "tag_octet c f l = 0"
  then have "64 * c + 32 * f + l = 0" using uint_tag_octet [OF assms(1-6)] by simp
  with assms show False by linarith
qed

lemmas tag_octet_facts = tag_octet_fields tag_octet_nonzero

text \<open>The digits of a tag number, and of a length, as the loops of the decoder read them.\<close>

lemma septet_digits:
  assumes "0 < t"
  shows "rev (digits_le 7 t) \<noteq> []" and "\<forall>d \<in> set (rev (digits_le 7 t)). 0 \<le> d \<and> d < 128"
    and "foldl (\<lambda>acc d. acc * 2 ^ 7 + d) 0 (rev (digits_le 7 t)) = t"
  using assms digits_le_Nil [of 7 t] digits_le_range [of _ 7 t] value_be_digits [of t 7]
  by (auto simp: value_be_def)

lemma octet_digits:
  assumes "0 < t"
  shows "\<forall>d \<in> set (rev (digits_le 8 t)). 0 \<le> d \<and> d < 256"
    and "foldl (\<lambda>acc d. acc * 2 ^ 8 + d) 0 (rev (digits_le 8 t)) = t"
  using assms digits_le_range [of _ 8 t] value_be_digits [of t 8]
  by (auto simp: value_be_def)

lemma length_septets [simp]: "length (septets t) = length (digits_le 7 t)"
  by (simp add: septets_def)

lemma GetTAG_reads:
  assumes "dbuf_valid b" and "dbuf_rest b = tag_octets c f t @ cs" and "tag_ok c f t"
    and "\<not> (c = 0 \<and> f = 0 \<and> t = 0)"
  shows "\<exists>b'. GetTAG b c0 f0 t0 = Some (Z_OK, c, f, t, b') \<and> dbuf_valid b' \<and> dbuf_rest b' = cs"
proof (cases "t < 31")
  case True
  then obtain b' where b': "next_octet b = Some (1, tag_octet c f t, b')" "dbuf_valid b'" "dbuf_rest b' = cs"
    using buf.get_Cons [OF assms(1)] assms(2) by (auto simp: tag_octets_def)
  then show ?thesis using True assms tag_octet_facts [of c f t]
    by (cases b) (auto simp: GetTAG_def tag_ok_def)
next
  case False
  then obtain b1 where b1: "next_octet b = Some (1, tag_octet c f 31, b1)" "dbuf_valid b1"
    "dbuf_rest b1 = mark_more (map octet_of (rev (digits_le 7 t))) @ cs"
    using buf.get_Cons [OF assms(1)] assms(2) by (auto simp: tag_octets_def septets_def)
  have t: "0 < t" "t < 2147483648" using False assms(3) by (simp_all add: tag_ok_def)
  obtain b' where "long_tag next_octet b1 0 1 = Some (1, t, 1 + int (length (rev (digits_le 7 t))), b')"
    "dbuf_valid b'" "dbuf_rest b' = cs"
    using buf.long_tag_reads [OF b1(2,3) septet_digits(1,2) [OF t(1)], of 0 1] septet_digits(3) [OF t(1)] t(2)
    by auto
  then show ?thesis using b1 assms tag_octet_facts [of c f 31]
    by (cases b) (auto simp: GetTAG_def tag_ok_def)
qed

lemma GetTAGFromStream_reads:
  assumes "sock_valid s" and "sock_octets s = tag_octets c f t @ cs" and "tag_ok c f t"
    and "\<not> (c = 0 \<and> f = 0 \<and> t = 0)"
  shows "\<exists>s'. GetTAGFromStream s = Some (1, c, f, t, int (length (tag_octets c f t)), s')
    \<and> sock_valid s' \<and> sock_octets s' = cs"
proof (cases "t < 31")
  case True
  then obtain s' where s': "read_octet s = Some (1, tag_octet c f t, s')" "sock_valid s'" "sock_octets s' = cs"
    using net.get_Cons [OF assms(1)] assms(2) by (auto simp: tag_octets_def)
  then show ?thesis using True assms tag_octet_facts [of c f t]
    by (auto simp: GetTAGFromStream_def tag_ok_def tag_octets_def)
next
  case False
  then obtain s1 where s1: "read_octet s = Some (1, tag_octet c f 31, s1)" "sock_valid s1"
    "sock_octets s1 = mark_more (map octet_of (rev (digits_le 7 t))) @ cs"
    using net.get_Cons [OF assms(1)] assms(2) by (auto simp: tag_octets_def septets_def)
  have t: "0 < t" "t < 2147483648" using False assms(3) by (simp_all add: tag_ok_def)
  obtain s' where "long_tag read_octet s1 0 1 = Some (1, t, 1 + int (length (rev (digits_le 7 t))), s')"
    "sock_valid s'" "sock_octets s' = cs"
    using net.long_tag_reads [OF s1(2,3) septet_digits(1,2) [OF t(1)], of 0 1] septet_digits(3) [OF t(1)] t(2)
    by auto
  then show ?thesis using False s1 assms tag_octet_facts [of c f 31]
    by (auto simp: GetTAGFromStream_def tag_ok_def tag_octets_def)
qed

lemma high_bit: "(w :: octet) AND 128 = 0 \<longleftrightarrow> uint w < 128"
proof -
  have p: "(128 :: octet) = 2 ^ 7" by simp
  have "w AND 128 = 0 \<longleftrightarrow> \<not> bit w 7" unfolding p by (rule and_exp_eq_0_iff_not_bit)
  also have "bit w 7 \<longleftrightarrow> odd (uint w div 128)" using bit_uint_iff [of w 7] bit_iff_odd [of "uint w" 7] by simp
  also have "odd (uint w div 128) \<longleftrightarrow> \<not> uint w < 128"
  proof -
    have "uint w div 128 = 0 \<or> uint w div 128 = 1" using uint_octet_range [of w] by linarith
    then show ?thesis
      using div_pos_pos_trivial [of "uint w" 128] uint_octet_range [of w] by (auto simp: zdiv_eq_0_iff)
  qed
  finally show ?thesis by simp
qed

lemma long_len_octet:
  assumes "0 < k" and "k \<le> (4 :: nat)"
  shows "uint (octet_of (int k OR 128)) = int k + 128"
proof -
  have "int k OR 128 = int k + 128" using or_128 [of "octet_of (int k)"] assms
    by (simp add: unsigned_or_eq)
  then show ?thesis using assms by simp
qed

lemma octet_eq_iff: "(c :: octet) = d \<longleftrightarrow> uint c = uint d"
  by (simp add: word_uint_eq_iff)

lemma long_len_octet_facts:
  assumes "0 < k" and "k \<le> (4 :: nat)"
  shows "octet_of (int k OR 128) AND 128 \<noteq> 0" "octet_of (int k OR 128) \<noteq> 128"
    "uint (octet_of (int k OR 128) AND 127) = int k"
  unfolding high_bit octet_eq_iff [of _ 128] and_127 long_len_octet [OF assms] using assms by simp_all

lemma GetLEN_reads:
  assumes "dbuf_valid b" and "dbuf_rest b = len_octets n @ cs" and "0 \<le> n" and "n < 2147483648"
  shows "\<exists>b'. GetLEN b = Some (n, b') \<and> dbuf_valid b' \<and> dbuf_rest b' = cs"
proof (cases "n < 128")
  case True
  then obtain b' where "next_octet b = Some (1, octet_of n, b')" "dbuf_valid b'" "dbuf_rest b' = cs"
    using buf.get_Cons [OF assms(1)] assms(2) by (auto simp: len_octets_def)
  then show ?thesis using True assms(3) by (simp add: GetLEN_def high_bit)
next
  case False
  then have n: "0 < n" using assms(3) by simp
  let ?ds = "rev (digits_le 8 n)" and ?k = "length (digits_le 8 n)"
  have k: "0 < ?k" "?k \<le> 4"
    using n length_digits_le [of n 8 4] assms(4) digits_le_Nil [of 8 n] by simp_all
  obtain b1 where b1: "next_octet b = Some (1, octet_of (int ?k OR 128), b1)" "dbuf_valid b1"
    "dbuf_rest b1 = map octet_of ?ds @ cs"
    using buf.get_Cons [OF assms(1)] assms(2) False by (auto simp: len_octets_def Let_def)
  obtain b' where "long_len next_octet b1 ?k 0 = Some (1, n, b')" "dbuf_valid b'" "dbuf_rest b' = cs"
    using buf.long_len_reads [OF b1(2,3) octet_digits(1) [OF n], of 0] octet_digits(2) [OF n] assms(4) by auto
  then show ?thesis using b1(1) k long_len_octet_facts [OF k] by (simp add: GetLEN_def)
qed

lemma GetLENFromStream_reads:
  assumes "sock_valid s" and "sock_octets s = len_octets n @ cs" and "0 \<le> n" and "n < 2147483648"
  shows "\<exists>s'. GetLENFromStream s z = Some (n, int (length (len_octets n)), s')
    \<and> sock_valid s' \<and> sock_octets s' = cs"
proof (cases "n < 128")
  case True
  then obtain s' where "read_octet s = Some (1, octet_of n, s')" "sock_valid s'" "sock_octets s' = cs"
    using net.get_Cons [OF assms(1)] assms(2) by (auto simp: len_octets_def)
  then show ?thesis using True assms(3) by (simp add: GetLENFromStream_def high_bit len_octets_def)
next
  case False
  then have n: "0 < n" using assms(3) by simp
  let ?ds = "rev (digits_le 8 n)" and ?k = "length (digits_le 8 n)"
  have k: "0 < ?k" "?k \<le> 4"
    using n length_digits_le [of n 8 4] assms(4) digits_le_Nil [of 8 n] by simp_all
  obtain s1 where s1: "read_octet s = Some (1, octet_of (int ?k OR 128), s1)" "sock_valid s1"
    "sock_octets s1 = map octet_of ?ds @ cs"
    using net.get_Cons [OF assms(1)] assms(2) False by (auto simp: len_octets_def Let_def)
  obtain s' where "long_len read_octet s1 ?k 0 = Some (1, n, s')" "sock_valid s'" "sock_octets s' = cs"
    using net.long_len_reads [OF s1(2,3) octet_digits(1) [OF n], of 0] octet_digits(2) [OF n] assms(4) by auto
  then show ?thesis using False s1(1) k long_len_octet_facts [OF k]
    by (simp add: GetLENFromStream_def len_octets_def Let_def)
qed

section \<open>Round trips\<close>

text \<open>
  A tag and a length written by \<open>PutTAG\<close> and \<open>PutLEN\<close> into a fresh buffer are read back
  by \<open>GetTAG\<close> and \<open>GetLEN\<close>, for every class, form, tag number and length that fit an \<open>int\<close>,
  the end-of-contents tag excepted, and nothing is left unread.
\<close>

theorem header_roundtrip:
  assumes "tag_ok c f t" and "\<not> (c = 0 \<and> f = 0 \<and> t = 0)" and "0 \<le> n" and "n < 2147483648"
  shows "\<exists>b1 b2 b3 b4. PutTAG NewDbuf c f t = (Z_OK, b1) \<and> PutLEN b1 n = (Z_OK, b2)
    \<and> GetTAG b2 c0 f0 t0 = Some (Z_OK, c, f, t, b3) \<and> GetLEN b3 = Some (n, b4) \<and> dbuf_rest b4 = []"
proof -
  have "dbuf_at 0 NewDbuf" by (simp add: dbuf_at_def)
  then obtain b1 where b1: "PutTAG NewDbuf c f t = (Z_OK, b1)" "dbuf_at 0 b1" "dbuf_octets b1 = tag_octets c f t"
    using PutTAG_writes [of 0 NewDbuf c f t] assms(1) by (auto simp: dbuf_capacity_def)
  have "length (dbuf_octets b1) + 5 \<le> dbuf_capacity"
    using b1(3) length_tag_octets [of t c f] assms(1) by (simp add: tag_ok_def dbuf_capacity_def)
  then obtain b2 where b2: "PutLEN b1 n = (Z_OK, b2)" "dbuf_at 0 b2"
    "dbuf_octets b2 = tag_octets c f t @ len_octets n"
    using PutLEN_writes [OF b1(2) assms(3,4)] b1(3) by auto
  have "dbuf_valid b2" "dbuf_rest b2 = tag_octets c f t @ len_octets n"
    using b2 by (simp_all add: dbuf_at_def dbuf_rest_def)
  then obtain b3 where b3: "GetTAG b2 c0 f0 t0 = Some (Z_OK, c, f, t, b3)" "dbuf_valid b3"
    "dbuf_rest b3 = len_octets n @ []"
    using GetTAG_reads [of b2 c f t "len_octets n" c0 f0 t0] assms(1,2) by auto
  obtain b4 where "GetLEN b3 = Some (n, b4)" "dbuf_rest b4 = []"
    using GetLEN_reads [OF b3(2,3) assms(3,4)] by blast
  with b1(1) b2(1) b3(1) show ?thesis by blast
qed

theorem header_roundtrip_witness:
  "\<exists>b1 b2 b3 b4. PutTAG NewDbuf 2 1 20000 = (Z_OK, b1) \<and> PutLEN b1 70000 = (Z_OK, b2)
    \<and> GetTAG b2 9 9 9 = Some (Z_OK, 2, 1, 20000, b3) \<and> GetLEN b3 = Some (70000, b4) \<and> dbuf_rest b4 = []"
  by (rule header_roundtrip) (simp_all add: tag_ok_def)

text \<open>
  The same octets arriving over a connection, in whatever pieces, are read back by
  \<open>GetTAGFromStream\<close> and \<open>GetLENFromStream\<close>, which also report how many octets each took,
  and what follows them is left in the connection.
\<close>

theorem stream_header_roundtrip:
  assumes "tag_ok c f t" and "\<not> (c = 0 \<and> f = 0 \<and> t = 0)" and "0 \<le> n" and "n < 2147483648"
    and "sock_valid s" and "sock_octets s = dbuf_octets (snd (PutLEN (snd (PutTAG NewDbuf c f t)) n)) @ cs"
  shows "\<exists>k s1 s2. GetTAGFromStream s = Some (1, c, f, t, k, s1)
    \<and> GetLENFromStream s1 z = Some (n, int (length (sock_octets s)) - int (length cs) - k, s2) \<and> sock_octets s2 = cs"
proof -
  have "dbuf_at 0 NewDbuf" by (simp add: dbuf_at_def)
  then obtain b1 where b1: "PutTAG NewDbuf c f t = (Z_OK, b1)" "dbuf_at 0 b1" "dbuf_octets b1 = tag_octets c f t"
    using PutTAG_writes [of 0 NewDbuf c f t] assms(1) by (auto simp: dbuf_capacity_def)
  have "length (dbuf_octets b1) + 5 \<le> dbuf_capacity"
    using b1(3) length_tag_octets [of t c f] assms(1) by (simp add: tag_ok_def dbuf_capacity_def)
  then have oct: "sock_octets s = tag_octets c f t @ len_octets n @ cs"
    using PutLEN_writes [OF b1(2) assms(3,4)] b1(1,3) assms(6) by auto
  obtain s1 where s1: "GetTAGFromStream s = Some (1, c, f, t, int (length (tag_octets c f t)), s1)"
    "sock_valid s1" "sock_octets s1 = len_octets n @ cs"
    using GetTAGFromStream_reads [OF assms(5) oct assms(1,2)] by blast
  obtain s2 where "GetLENFromStream s1 z = Some (n, int (length (len_octets n)), s2)" "sock_octets s2 = cs"
    using GetLENFromStream_reads [OF s1(2,3) assms(3,4)] by blast
  with s1(1) oct show ?thesis by simp
qed

definition sample_header :: sock where
  "sample_header = \<lparr>incoming = [Data [191, 31], Failed EINTR, Data [129, 129, 200, 5], Failed 104],
     outgoing = [], sent = [], errno = 0, is_open = True, selects = []\<rparr>"

lemma sample_header_octets:
  "sock_octets sample_header = dbuf_octets (snd (PutLEN (snd (PutTAG NewDbuf 2 1 31)) 129)) @ [200, 5]"
  by (simp add: sample_header_def sock_octets_def PutTAG_def PutLEN_def NewDbuf_def tag_octet_def septets_def
      digits_le_pos Let_def z_status_def put_nonneg_def put_one_def db_put_def db_grow_def octet_of_def EINTR_def)

theorem stream_header_roundtrip_witness:
  "\<exists>k s1 s2. GetTAGFromStream sample_header = Some (1, 2, 1, 31, k, s1)
    \<and> GetLENFromStream s1 0 = Some (129, int (length (sock_octets sample_header)) - int (length [200, 5 :: octet]) - k, s2)
    \<and> sock_octets s2 = [200, 5]"
  by (rule stream_header_roundtrip)
     (simp_all add: tag_ok_def sample_header_octets, simp add: sample_header_def sock_valid_def EINTR_def)

end
