(* ===== verification/C_String.thy ===== *)
theory C_String
  imports Prelude
begin

text \<open>
  The functions of the C library on strings that the program uses, over lists of characters:
  \<open>toupper\<close>, \<open>strcasecmp\<close>, \<open>strtok_r\<close>, \<open>atoi\<close>, the conversion \<open>%d\<close> of \<open>sprintf\<close> and \<open>sscanf\<close>. Numbers
  are read without the overflow that the standard leaves undefined.
\<close>

section \<open>Characters\<close>

definition ch :: "char \<Rightarrow> nat" where
  "ch c = of_char c"

definition c_toupper :: "char \<Rightarrow> char" where
  "c_toupper c = (if 97 \<le> ch c \<and> ch c \<le> 122 then char_of (ch c - 32) else c)"

definition c_isspace :: "char \<Rightarrow> bool" where
  "c_isspace c \<longleftrightarrow> ch c = 32 \<or> 9 \<le> ch c \<and> ch c \<le> 13"

definition c_isdigit :: "char \<Rightarrow> bool" where
  "c_isdigit c \<longleftrightarrow> 48 \<le> ch c \<and> ch c \<le> 57"

definition str_upper :: "string \<Rightarrow> string" where
  "str_upper s = map c_toupper s"

definition strcaseeq :: "string \<Rightarrow> string \<Rightarrow> bool" where
  "strcaseeq s t \<longleftrightarrow> str_upper s = str_upper t"

section \<open>Numbers\<close>

definition digit_char :: "nat \<Rightarrow> char" where
  "digit_char d = char_of (48 + d)"

fun nat_digits :: "nat \<Rightarrow> string" where
  "nat_digits n = (if n < 10 then [digit_char n] else nat_digits (n div 10) @ [digit_char (n mod 10)])"

declare nat_digits.simps [simp del]

definition print_int :: "int \<Rightarrow> string" where
  "print_int x = (if x < 0 then CHR ''-'' # nat_digits (nat (- x)) else nat_digits (nat x))"

definition digits_value :: "string \<Rightarrow> int" where
  "digits_value s = foldl (\<lambda>v c. v * 10 + (int (ch c) - 48)) 0 s"

text \<open>\<open>%d\<close>: white space, a sign, digits; what is left of the string.\<close>

definition scan_digits :: "bool \<Rightarrow> string \<Rightarrow> (int \<times> string) option" where
  "scan_digits neg s =
     (let ds = takeWhile c_isdigit s; v = digits_value ds
      in if ds = [] then None else Some (if neg then - v else v, dropWhile c_isdigit s))"

definition scan_int :: "string \<Rightarrow> (int \<times> string) option" where
  "scan_int s = (case dropWhile c_isspace s of
       [] \<Rightarrow> None
     | c # r \<Rightarrow> if c = CHR ''-'' then scan_digits True r
               else if c = CHR ''+'' then scan_digits False r else scan_digits False (c # r))"

definition atoi :: "string \<Rightarrow> int" where
  "atoi s = (case scan_int s of None \<Rightarrow> 0 | Some (v, _) \<Rightarrow> v)"

text \<open>\<open>sscanf (s, "%d-%d", ...) == 2\<close>\<close>

definition scan_range :: "string \<Rightarrow> (int \<times> int) option" where
  "scan_range s = (case scan_int s of
       Some (a, c # r) \<Rightarrow> if c = CHR ''-'' then map_option (\<lambda>(b, _). (a, b)) (scan_int r) else None
     | _ \<Rightarrow> None)"

section \<open>Tokens\<close>

text \<open>The first call of \<open>strtok_r\<close>: the token, what the save pointer points to, and the string as it is left.\<close>

definition strtok_first :: "(char \<Rightarrow> bool) \<Rightarrow> string \<Rightarrow> string option \<times> string \<times> string" where
  "strtok_first delim s =
     (let lead = takeWhile delim s; body = dropWhile delim s; tok = takeWhile (\<lambda>c. \<not> delim c) body;
          rest = dropWhile (\<lambda>c. \<not> delim c) body
      in if body = [] then (None, [], s) else (Some tok, drop 1 rest, lead @ tok))"

lemma strtok_shorter:
  assumes "strtok_first delim s = (Some tok, rest, left)" shows "length rest < length s"
proof -
  have "dropWhile delim s \<noteq> []" "rest = drop 1 (dropWhile (\<lambda>c. \<not> delim c) (dropWhile delim s))"
    using assms by (auto simp: strtok_first_def Let_def split: if_splits)
  moreover have "length (dropWhile delim s) \<le> length s" "length (dropWhile (\<lambda>c. \<not> delim c) (dropWhile delim s)) \<le> length (dropWhile delim s)"
    by (simp_all add: length_dropWhile_le)
  moreover have "0 < length s" using calculation(1) by (cases s) auto
  moreover have "length rest = length (dropWhile (\<lambda>c. \<not> delim c) (dropWhile delim s)) - 1"
    using calculation(2) by simp
  ultimately show ?thesis by linarith
qed

text \<open>All tokens of a string.\<close>

function strtok_all :: "(char \<Rightarrow> bool) \<Rightarrow> string \<Rightarrow> string list" where
  "strtok_all delim s =
     (case strtok_first delim s of (None, _, _) \<Rightarrow> [] | (Some tok, rest, _) \<Rightarrow> tok # strtok_all delim rest)"
  by pat_completeness auto
termination
  by (relation "measure (\<lambda>(delim, s). length s)") (auto dest!: sym [THEN strtok_shorter] intro: strtok_shorter)

declare strtok_all.simps [simp del]

section \<open>Printing and reading a number\<close>

lemma ch_digit: "d < 10 \<Longrightarrow> ch (digit_char d) = 48 + d"
  by (simp add: ch_def digit_char_def)

lemma nat_digits_facts: "nat_digits n \<noteq> []" "\<forall>c \<in> set (nat_digits n). c_isdigit c" "digits_value (nat_digits n) = int n"
proof (induction n rule: nat_digits.induct)
  case (1 n)
  {
    case 1
    then show ?case by (subst nat_digits.simps) simp
  next
    case 2
    then show ?case using "1.IH" by (subst nat_digits.simps) (auto simp: c_isdigit_def ch_digit)
  next
    case 3
    show ?case
    proof (cases "n < 10")
      case True
      then show ?thesis by (simp add: nat_digits.simps [of n] digits_value_def ch_digit)
    next
      case False
      have "digits_value (nat_digits (n div 10)) = int (n div 10)" using "1.IH"(3) False by blast
      moreover have "int (n div 10) * 10 + int (n mod 10) = int n" by (metis div_mult_mod_eq of_nat_add of_nat_mult of_nat_numeral)
      ultimately show ?thesis using False by (simp add: nat_digits.simps [of n] digits_value_def ch_digit)
    qed
  }
qed

lemma length_nat_digits: "n < 10 ^ Suc k \<Longrightarrow> length (nat_digits n) \<le> Suc k"
proof (induction k arbitrary: n)
  case 0
  then show ?case by (simp add: nat_digits.simps [of n])
next
  case (Suc k)
  have "n div 10 < 10 ^ Suc k" using Suc.prems by (intro less_mult_imp_div_less) simp
  from Suc.IH [OF this] show ?case by (subst nat_digits.simps) simp
qed

lemma digit_not_special: "c_isdigit c \<Longrightarrow> \<not> c_isspace c \<and> c \<noteq> CHR ''-'' \<and> c \<noteq> CHR ''+'' \<and> c \<noteq> CHR '','' \<and> c \<noteq> CHR '':''"
  by (auto simp: c_isdigit_def c_isspace_def ch_def)

lemma atoi_print: "0 \<le> x \<Longrightarrow> atoi (print_int x) = x"
proof -
  assume x: "0 \<le> x"
  obtain c r where cr: "nat_digits (nat x) = c # r" using nat_digits_facts(1) [of "nat x"] by (cases "nat_digits (nat x)") auto
  have d: "c_isdigit c" "\<forall>e \<in> set (c # r). c_isdigit e" using nat_digits_facts(2) [of "nat x"] unfolding cr by simp_all
  have "takeWhile c_isdigit r = r" using d(2) by (simp add: takeWhile_eq_all_conv)
  moreover have "digits_value (c # r) = x" using nat_digits_facts(3) [of "nat x"] x unfolding cr by simp
  ultimately show ?thesis using x d(1) digit_not_special [OF d(1)]
    by (simp add: atoi_def scan_int_def scan_digits_def print_int_def cr Let_def takeWhile_eq_all_conv [THEN iffD2])
qed

lemma strtok_join:
  assumes "tok \<noteq> []" "\<forall>c \<in> set tok. \<not> delim c" "delim d"
  shows "strtok_all delim (tok @ d # s) = tok # strtok_all delim s"
proof -
  have "dropWhile delim (tok @ d # s) = tok @ d # s" using assms(1,2) by (cases tok) auto
  moreover have "takeWhile (\<lambda>c. \<not> delim c) (tok @ d # s) = tok" "dropWhile (\<lambda>c. \<not> delim c) (tok @ d # s) = d # s"
    using assms(2,3) by (simp_all add: takeWhile_append2 dropWhile_append2)
  ultimately show ?thesis using assms(1) by (subst strtok_all.simps) (simp add: strtok_first_def)
qed

end
