(* ===== verification/Ber_Prim.thy ===== *)
theory Ber_Prim
  imports Ber C_String
begin

text \<open>
  The primitive types of BER: the encoders of \<open>src/zpdu/ber_encode.c\<close> for strings, bit strings, integers,
  object identifiers, booleans and null, the decoders of \<open>src/zpdu/ber_decode.c\<close> for their contents, and
  \<open>oid_convert\<close> of \<open>src/zpdu/utils.c\<close>.

  A \<open>GSTR *\<close> is an optional record, its data the octets up to the null character or further; a read
  beyond them is a \<open>Crash\<close>. Integers are taken apart as 32 bit words, \<open>ULONG\<close> being an unsigned \<open>int\<close>. An octet
  of the stack that the source writes without having set it is a parameter.
\<close>

unbundle bit_operations_syntax

section \<open>Strings\<close>

record gstr =
  gs_length :: int
  gs_data :: "octet list option"

definition PRIMITIVE :: int where "PRIMITIVE = 0"
definition CONSTRUCTED :: int where "CONSTRUCTED = 1"

text \<open>A tag and a length, the first two steps of all encoders.\<close>

definition put_header :: "dbuf option \<Rightarrow> int \<Rightarrow> int \<Rightarrow> int \<Rightarrow> bool \<times> dbuf option" where
  "put_header dbuf class_var tagno len =
     (let (r, dbuf1) = PutTAG dbuf class_var PRIMITIVE tagno
      in if r \<noteq> Z_OK then (False, dbuf1)
         else let (r, dbuf2) = PutLEN dbuf1 len in (r = Z_OK, dbuf2))"

definition encode_generic_string :: "dbuf option \<Rightarrow> int \<Rightarrow> int \<Rightarrow> gstr option \<Rightarrow> (int \<times> dbuf option) run" where
  "encode_generic_string dbuf class_var tagno gstr =
     (case (dbuf, gstr) of
        (Some _, Some g) \<Rightarrow>
          (case gs_data g of
             None \<Rightarrow> Done (Z_ERROR, dbuf)
           | Some cs \<Rightarrow>
               if gs_length g \<le> 0 then Done (Z_ERROR, dbuf)
               else let (ok, dbuf1) = put_header dbuf class_var tagno (gs_length g)
                    in if \<not> ok then Done (Z_ERROR, dbuf1)
                       else if int (length cs) < gs_length g then Crash
                       else let (r, dbuf2) = db_put dbuf1 (Some cs) (gs_length g)
                            in Done (if r \<noteq> gs_length g then Z_ERROR else Z_OK, dbuf2))
      | _ \<Rightarrow> Done (Z_ERROR, dbuf))"

definition encode_octstr :: "dbuf option \<Rightarrow> int \<Rightarrow> int \<Rightarrow> gstr option \<Rightarrow> (int \<times> dbuf option) run" where
  "encode_octstr dbuf class_var tagno ostr = encode_generic_string dbuf class_var tagno ostr"

section \<open>Bit strings\<close>

text \<open>One octet from eight characters; beyond the last bit the octet is filled with 0.\<close>

definition bits_octet :: "octet list \<Rightarrow> octet" where
  "bits_octet cs = foldl (\<lambda>ch c. push_bit 1 ch OR (if c = 49 then 1 else 0)) 0 (take 8 (cs @ replicate 8 48))"

fun bit_octets :: "nat \<Rightarrow> octet list \<Rightarrow> octet list" where
  "bit_octets 0 cs = []"
| "bit_octets (Suc n) cs = bits_octet cs # bit_octets n (drop 8 cs)"

definition encode_bitstr :: "dbuf option \<Rightarrow> int \<Rightarrow> int \<Rightarrow> gstr option \<Rightarrow> (int \<times> dbuf option) run" where
  "encode_bitstr dbuf class_var tagno bstr =
     (if dbuf = None then Done (Z_ERROR, dbuf)
      else run_bind (deref bstr) (\<lambda>g.
        case gs_data g of
          None \<Rightarrow> Done (Z_ERROR, dbuf)
        | Some cs \<Rightarrow>
            if gs_length g \<le> 0 then Done (Z_ERROR, dbuf)
            else
              let numberBits = gs_length g;
                  numberFullOctets = numberBits div 8;
                  remainder = numberBits mod 8;
                  numberUnusedBits = (if remainder \<noteq> 0 then 8 - remainder else 0);
                  len = 1 + (if remainder \<noteq> 0 then numberFullOctets + 1 else numberFullOctets);
                  (ok, dbuf1) = put_header dbuf class_var tagno len
              in if \<not> ok then Done (Z_ERROR, dbuf1)
                 else let (r, dbuf2) = PutLEN dbuf1 numberUnusedBits
                 in if r \<noteq> Z_OK then Done (Z_ERROR, dbuf2)
                    else if int (length cs) < numberBits then Crash
                    else Done (z_status (put_octets put_one dbuf2
                           (bit_octets (nat (len - 1)) (take (nat numberBits) cs))))))"

section \<open>Integers\<close>

text \<open>
  \<open>for (t = sizeof(int) - 2; t >= 0; t--)\<close>: skip leading octets that only repeat the sign. The value is the
  \<open>t\<close> at which the loop stops.
\<close>

fun skip_padding :: "32 word \<Rightarrow> 32 word \<Rightarrow> nat \<Rightarrow> int" where
  "skip_padding val key 0 = - 1"
| "skip_padding val key (Suc t) =
     (if drop_bit (8 * t) (val AND push_bit (8 * t) 65408) \<noteq> key then int t else skip_padding val key t)"

text \<open>The octets \<open>t\<close> down to 0 of a word; whether they could be stored is not asked.\<close>

definition int_octet :: "32 word \<Rightarrow> nat \<Rightarrow> octet" where
  "int_octet val t = ucast (drop_bit (8 * t) (val AND push_bit (8 * t) 255))"

fun put_int_octets :: "dbuf option \<Rightarrow> 32 word \<Rightarrow> nat \<Rightarrow> dbuf option" where
  "put_int_octets b val 0 = b"
| "put_int_octets b val (Suc t) = put_int_octets (snd (db_put b (Some [int_octet val t]) 1)) val t"

definition encode_integer :: "dbuf option \<Rightarrow> int \<Rightarrow> int \<Rightarrow> int \<Rightarrow> int \<times> dbuf option" where
  "encode_integer dbuf class_var tagno obj =
     (let val = word_of_int obj;
          key = (if obj \<ge> 0 then 0 else 65408);
          t = skip_padding val key 3;
          dbuf1 = snd (PutTAG dbuf class_var 0 tagno);
          dbuf2 = snd (PutLEN dbuf1 (t + 2))
      in (Z_OK, put_int_octets dbuf2 val (nat (t + 2))))"

section \<open>Object identifiers\<close>

definition o_isdigit :: "octet \<Rightarrow> bool" where
  "o_isdigit c \<longleftrightarrow> 48 \<le> uint c \<and> uint c \<le> 57"

definition o_char :: "octet \<Rightarrow> char" where
  "o_char c = char_of (nat (uint c))"

definition char_o :: "char \<Rightarrow> octet" where
  "char_o c = octet_of (int (ch c))"

text \<open>
  \<open>while (!isdigit(*cptr) && (*cptr++ != '\0'))\<close>: at the null character the pointer moves behind it.
\<close>

fun oid_skip :: "octet list \<Rightarrow> octet list run" where
  "oid_skip [] = Crash"
| "oid_skip (c # cs) = (if o_isdigit c then Done (c # cs) else if c = 0 then Done cs else oid_skip cs)"

lemma oid_skip_length: "oid_skip mem = Done m \<Longrightarrow> length m \<le> length mem \<and> (mem \<noteq> [] \<and> \<not> o_isdigit (hd mem) \<longrightarrow> length m < length mem)"
  by (induction mem rule: oid_skip.induct) (auto split: if_splits)

text \<open>
  The array of numbers has 50 places and the array of digits 50 characters. A number that is no
  \<open>int\<close> is undefined for \<open>atoi\<close>.
\<close>

function oid_loop :: "octet list \<Rightarrow> int list \<Rightarrow> int list run" where
  "oid_loop mem ids =
     (if mem = [] then Crash
      else if hd mem = 0 then Done ids
      else run_bind (oid_skip mem) (\<lambda>m.
        let number = takeWhile o_isdigit m; cptr = dropWhile o_isdigit m; v = atoi (map o_char number)
        in if cptr = [] \<or> length number > 49 \<or> length ids \<ge> 50 \<or> \<not> is_c_int v then Crash
           else oid_loop cptr (ids @ [v])))"
  by pat_completeness auto
termination
proof (relation "measure (\<lambda>(mem, ids). length mem)")
  fix mem ids m and number cptr :: "octet list" and v :: int
  assume a: "mem \<noteq> []" "oid_skip mem = Done m" "cptr = dropWhile o_isdigit m"
  have "length cptr < length mem"
  proof (cases "o_isdigit (hd mem)")
    case True
    then have "m = mem" "mem = hd mem # tl mem" using a(1,2) by (cases mem; auto)+
    then have "cptr = dropWhile o_isdigit (tl mem)" using a(3) True by (metis dropWhile.simps(2))
    then show ?thesis using a(1) length_dropWhile_le [of o_isdigit "tl mem"] by (cases mem) simp_all
  next
    case False
    then show ?thesis using oid_skip_length [OF a(2)] a(1,3) length_dropWhile_le [of o_isdigit m] by simp
  qed
  then show "((cptr, ids @ [v]), (mem, ids)) \<in> measure (\<lambda>(mem, ids). length mem)" by simp
qed simp

declare oid_loop.simps [simp del]

definition oid_convert :: "octet list option \<Rightarrow> int list option run" where
  "oid_convert oidstr = (case oidstr of None \<Rightarrow> Done None | Some mem \<Rightarrow> run_bind (oid_loop mem []) (\<lambda>ids. Done (Some ids)))"

text \<open>
  The loop over the digits never ends for a negative component and writes behind its array; for the
  component 0 it stores nothing, and the octet written is what the array happens to hold, \<open>junk\<close>.
\<close>

definition encode_oid_component :: "octet \<Rightarrow> dbuf option \<Rightarrow> int \<Rightarrow> (int \<times> dbuf option) run" where
  "encode_oid_component junk buf component =
     (if buf = None then Done (Z_ERROR, buf)
      else if component < 0 then Crash
      else Done (z_status (put_octets put_one buf (if component = 0 then [junk] else septets component))))"

fun encode_oid_components :: "(nat \<Rightarrow> octet) \<Rightarrow> nat \<Rightarrow> dbuf option \<Rightarrow> int list \<Rightarrow> (bool \<times> dbuf option) run" where
  "encode_oid_components junk i buf [] = Done (True, buf)"
| "encode_oid_components junk i buf (c # cs) =
     run_bind (encode_oid_component (junk i) buf c) (\<lambda>(r, buf1).
       if r \<noteq> Z_OK then Done (False, buf1) else encode_oid_components junk (Suc i) buf1 cs)"

text \<open>\<open>ids\<close> is cleared when it is allocated, so a missing number is 0.\<close>

definition nth_id :: "int list \<Rightarrow> nat \<Rightarrow> int" where
  "nth_id ids i = (if i < length ids then ids ! i else 0)"

definition encode_oid :: "(nat \<Rightarrow> octet) \<Rightarrow> dbuf option \<Rightarrow> int \<Rightarrow> int \<Rightarrow> gstr option \<Rightarrow> (int \<times> dbuf option) run" where
  "encode_oid junk dbuf class_var tagno obj =
     (case (dbuf, obj) of
        (Some _, Some g) \<Rightarrow> run_bind (oid_convert (gs_data g)) (\<lambda>the_oid.
          case the_oid of
            None \<Rightarrow> Done (Z_ERROR, dbuf)
          | Some ids \<Rightarrow>
              let tmp = c_int (c_int (nth_id ids 0 * 40) + nth_id ids 1)
              in run_bind (encode_oid_components junk 0 NewDbuf (tmp # drop 2 ids)) (\<lambda>(ok, buf).
                if \<not> ok then Done (Z_ERROR, dbuf)
                else run_bind (deref buf) (\<lambda>buf.
                  let (ok, dbuf1) = put_header dbuf class_var tagno (db_size buf)
                  in if \<not> ok then Done (Z_ERROR, dbuf1)
                     else let (r, dbuf2) = db_put dbuf1 (db_data buf) (db_size buf)
                          in Done (if r \<noteq> db_size buf then Z_ERROR else Z_OK, dbuf2))))
      | _ \<Rightarrow> Done (Z_ERROR, dbuf))"

section \<open>Boolean and null\<close>

definition encode_boolean :: "dbuf option \<Rightarrow> int \<Rightarrow> int \<Rightarrow> octet \<Rightarrow> int \<times> dbuf option" where
  "encode_boolean dbuf class_var tagno boolval =
     (let (ok, dbuf1) = put_header dbuf class_var tagno 1
      in if \<not> ok then (Z_ERROR, dbuf1)
         else z_status (put_one dbuf1 (if boolval \<noteq> 0 then 1 else 0)))"

definition encode_null :: "dbuf option \<Rightarrow> int \<Rightarrow> int \<Rightarrow> int \<times> dbuf option" where
  "encode_null dbuf class_var tagno = z_status (put_header dbuf class_var tagno 0)"

section \<open>Decoding\<close>

text \<open>
  The decoders work on the buffer of a node and its length. A length whose successor is negative makes
  \<open>calloc\<close> fail.
\<close>

definition DecodeGSTR :: "dbuf option \<Rightarrow> int \<Rightarrow> gstr option \<times> dbuf option" where
  "DecodeGSTR dbuf len =
     (if c_int (len + 1) < 0 then (None, dbuf)
      else let (r, mem, dbuf1) = db_get dbuf (Some (replicate (nat (len + 1)) 0)) len
           in if r \<noteq> len then (None, dbuf1)
              else (Some \<lparr>gs_length = len, gs_data = mem\<rparr>, dbuf1))"

text \<open>Whether an octet could be read is not asked: at the end of the buffer \<open>ch\<close> keeps its value.\<close>

fun decode_int_loop :: "nat \<Rightarrow> dbuf option \<Rightarrow> octet \<Rightarrow> int \<Rightarrow> int \<times> dbuf option" where
  "decode_int_loop 0 dbuf oc intVal = (intVal, dbuf)"
| "decode_int_loop (Suc n) dbuf oc intVal =
     (let (r, oc', dbuf1) = get_one dbuf oc
      in decode_int_loop n dbuf1 oc' (c_int (c_int (intVal * 256) + uint oc')))"

definition decode_integer :: "octet \<Rightarrow> dbuf option \<Rightarrow> int \<Rightarrow> int \<times> dbuf option" where
  "decode_integer junk dbuf len = decode_int_loop (nat len) dbuf junk 0"

definition c_char :: "int \<Rightarrow> int" where
  "c_char x = (x + 128) mod 256 - 128"

text \<open>\<open>strncpy\<close> of \<open>n\<close> octets: up to a null character, filled with null characters.\<close>

definition strncpy_octets :: "octet list \<Rightarrow> int \<Rightarrow> octet list run" where
  "strncpy_octets cs n =
     (let s = takeWhile (\<lambda>c. c \<noteq> 0) (take (nat n) cs)
      in if int (length cs) < n \<and> length s = length cs then Crash
         else Done (s @ replicate (nat n - length s) 0))"

text \<open>The string in a buffer, copied with a terminator.\<close>

definition dbuf_string :: "dbuf option \<Rightarrow> gstr run" where
  "dbuf_string b = run_bind (deref b) (\<lambda>d. run_bind (deref (db_data d)) (\<lambda>cs.
     run_bind (strncpy_octets cs (db_size d)) (\<lambda>s. Done \<lparr>gs_length = db_size d, gs_data = Some (s @ [0])\<rparr>)))"

text \<open>The bits 7 down to \<open>low\<close> of an octet as characters.\<close>

definition octet_bits :: "nat \<Rightarrow> octet \<Rightarrow> octet list" where
  "octet_bits low oc = map (\<lambda>j. if bit oc j then 49 else 48) (rev [low ..< 8])"

definition put_all :: "dbuf option \<Rightarrow> octet list \<Rightarrow> dbuf option" where
  "put_all b cs = foldl (\<lambda>b c. snd (db_put b (Some [c]) 1)) b cs"

text \<open>A negative number of unused bits would shift by a negative amount, which C leaves undefined.\<close>

fun decode_bits_loop :: "nat \<Rightarrow> int \<Rightarrow> dbuf option \<Rightarrow> octet \<Rightarrow> dbuf option \<Rightarrow> (dbuf option \<times> dbuf option) run" where
  "decode_bits_loop 0 unused dbuf oc bits = Done (bits, dbuf)"
| "decode_bits_loop (Suc n) unused dbuf oc bits =
     (let (r, oc', dbuf1) = get_one dbuf oc;
          numberBits = (if n = 0 then unused else 0)
      in if numberBits < 0 then Crash
         else decode_bits_loop n unused dbuf1 oc' (put_all bits (octet_bits (nat numberBits) oc')))"

definition decode_bit_string :: "octet \<Rightarrow> dbuf option \<Rightarrow> int \<Rightarrow> (gstr \<times> dbuf option) run" where
  "decode_bit_string junk dbuf len =
     (case GetLEN dbuf of
        None \<Rightarrow> Crash
      | Some (numberUnusedBits, dbuf1) \<Rightarrow>
          run_bind (decode_bits_loop (nat (len - 1)) numberUnusedBits dbuf1 junk NewDbuf) (\<lambda>(bits, dbuf2).
            run_bind (dbuf_string bits) (\<lambda>g. Done (g, dbuf2))))"

text \<open>For a negative length \<open>strncpy\<close> writes to the null pointer, or, for -1, past an array of no characters.\<close>

definition decode_any :: "dbuf option \<Rightarrow> int \<Rightarrow> octet list run" where
  "decode_any dbuf len =
     run_bind (deref dbuf) (\<lambda>d.
       if len < 0 \<or> c_int (len + 1) < 0 then Crash
       else run_bind (deref (db_data d)) (\<lambda>cs. run_bind (strncpy_octets cs len) (\<lambda>s. Done (s @ [0]))))"

definition high_bit_set :: "octet \<Rightarrow> bool" where
  "high_bit_set oc \<longleftrightarrow> oc AND 128 = 128"

text \<open>
  One number of an object identifier, with the octets taken so far. \<open>None\<close> is a loop that never ends: when
  the buffer is exhausted \<open>ch\<close> keeps its high bit.
\<close>

partial_function (option) oid_number :: "dbuf option \<Rightarrow> octet \<Rightarrow> int \<Rightarrow> int \<Rightarrow> (int \<times> int \<times> octet \<times> dbuf option) option" where
  "oid_number buf oc t i =
     (let (r, oc', buf1) = get_one buf oc;
          t' = c_int (c_int (t * 128) + uint (oc' AND 127))
      in if high_bit_set oc' then oid_number buf1 oc' t' (i + 1) else Some (t', i + 1, oc', buf1))"

text \<open>Division in C rounds towards zero.\<close>

definition c_quot :: "int \<Rightarrow> int \<Rightarrow> int" where
  "c_quot a b = (if a < 0 then - (- a div b) else a div b)"

definition c_rem :: "int \<Rightarrow> int \<Rightarrow> int" where
  "c_rem a b = a - c_quot a b * b"

partial_function (option) decode_oid_loop ::
    "dbuf option \<Rightarrow> octet \<Rightarrow> int \<Rightarrow> int \<Rightarrow> int list \<Rightarrow> (int list \<times> dbuf option) run option" where
  "decode_oid_loop buf oc len i ids =
     (if i < len
      then Option.bind (oid_number buf oc 0 i) (\<lambda>(t, i', oc', buf1).
        if ids = [] then decode_oid_loop buf1 oc' len i' [c_quot t 40, c_rem t 40]
        else if length ids \<ge> 50 then Some Crash
        else decode_oid_loop buf1 oc' len i' (ids @ [t]))
      else Some (Done (ids, buf)))"

definition decode_oid :: "octet \<Rightarrow> dbuf option \<Rightarrow> int \<Rightarrow> (int list \<times> dbuf option) run option" where
  "decode_oid junk buf len = decode_oid_loop buf junk len 0 []"

fun print_oid :: "int list \<Rightarrow> octet list list" where
  "print_oid [] = []"
| "print_oid [x] = [map char_o (print_int x)]"
| "print_oid (x # y # xs) = map char_o (print_int x) # [46] # print_oid (y # xs)"

definition put_chunk :: "dbuf option \<Rightarrow> octet list \<Rightarrow> dbuf option" where
  "put_chunk b cs = snd (db_put b (Some cs) (int (length cs)))"

definition decode_oid_string :: "octet \<Rightarrow> dbuf option \<Rightarrow> int \<Rightarrow> (gstr \<times> dbuf option) run option" where
  "decode_oid_string junk dbuf len =
     Option.bind (decode_oid junk dbuf len) (\<lambda>r. Some (run_bind r (\<lambda>(ids, dbuf1).
       run_bind (dbuf_string (foldl put_chunk NewDbuf (print_oid ids))) (\<lambda>g. Done (g, dbuf1)))))"

section \<open>What the encoders write\<close>

lemma put_header_writes:
  assumes "dbuf_at k b" and "tag_ok c 0 t" and "0 \<le> n" and "n < 2147483648"
    and "length (dbuf_octets b) + 11 \<le> dbuf_capacity"
  shows "\<exists>b'. put_header b c t n = (True, b') \<and> dbuf_at k b'
    \<and> dbuf_octets b' = dbuf_octets b @ tag_octets c 0 t @ len_octets n"
proof -
  obtain b1 where b1: "PutTAG b c 0 t = (Z_OK, b1)" "dbuf_at k b1" "dbuf_octets b1 = dbuf_octets b @ tag_octets c 0 t"
    using PutTAG_writes [OF assms(1,2)] assms(5) by auto
  have "length (dbuf_octets b1) + 5 \<le> dbuf_capacity"
    using b1(3) length_tag_octets [of t c 0] assms(2,5) by (simp add: tag_ok_def)
  from PutLEN_writes [OF b1(2) assms(3,4) this] b1 show ?thesis
    by (auto simp: put_header_def PRIMITIVE_def)
qed

text \<open>A value whose contents are \<open>cs\<close>: tag, length and contents.\<close>

definition tlv :: "int \<Rightarrow> int \<Rightarrow> int \<Rightarrow> octet list \<Rightarrow> octet list" where
  "tlv c f t cs = tag_octets c f t @ len_octets (int (length cs)) @ cs"

definition room_for :: "dbuf option \<Rightarrow> octet list \<Rightarrow> bool" where
  "room_for b cs \<longleftrightarrow> length (dbuf_octets b) + length cs + 11 \<le> dbuf_capacity"

lemma room_for_small: "room_for b cs \<Longrightarrow> int (length cs) < 2147483648"
  by (simp add: room_for_def dbuf_capacity_def)

lemma db_put_at:
  assumes "dbuf_at k b" and "length (dbuf_octets b) + length cs \<le> dbuf_capacity"
  shows "\<exists>b'. db_put b (Some cs) (int (length cs)) = (int (length cs), b') \<and> dbuf_at k b' \<and> dbuf_octets b' = dbuf_octets b @ cs"
  using db_put_valid [of b cs] assms by (auto simp: dbuf_at_def)

lemma header_then:
  assumes "dbuf_at k b" and "tag_ok c 0 t" and "room_for b cs"
  shows "\<exists>b'. put_header b c t (int (length cs)) = (True, b') \<and> dbuf_at k b'
    \<and> dbuf_octets b' = dbuf_octets b @ tag_octets c 0 t @ len_octets (int (length cs))
    \<and> length (dbuf_octets b') + length cs \<le> dbuf_capacity"
proof -
  have n: "0 \<le> int (length cs)" "int (length cs) < 2147483648" using room_for_small [OF assms(3)] by simp_all
  then obtain b' where "put_header b c t (int (length cs)) = (True, b')" "dbuf_at k b'"
    "dbuf_octets b' = dbuf_octets b @ tag_octets c 0 t @ len_octets (int (length cs))"
    using put_header_writes [OF assms(1,2) n] assms(3) by (auto simp: room_for_def)
  moreover have "length (tag_octets c 0 t) \<le> 6" using assms(2) by (intro length_tag_octets) (simp add: tag_ok_def)
  ultimately show ?thesis using length_len_octets [OF n] assms(3) by (auto simp: room_for_def)
qed

lemma encode_generic_string_writes:
  assumes "dbuf_at k b" and "tag_ok c 0 t" and "room_for b cs" and "cs \<noteq> []"
    and "g = \<lparr>gs_length = int (length cs), gs_data = Some (cs @ more_mem)\<rparr>"
  shows "\<exists>b'. encode_generic_string b c t (Some g) = Done (Z_OK, b') \<and> dbuf_at k b' \<and> dbuf_octets b' = dbuf_octets b @ tlv c 0 t cs"
proof -
  obtain b1 where b1: "put_header b c t (int (length cs)) = (True, b1)" "dbuf_at k b1"
    "dbuf_octets b1 = dbuf_octets b @ tag_octets c 0 t @ len_octets (int (length cs))"
    "length (dbuf_octets b1) + length cs \<le> dbuf_capacity"
    using header_then [OF assms(1-3)] by blast
  obtain b2 where "db_put b1 (Some cs) (int (length cs)) = (int (length cs), b2)" "dbuf_at k b2" "dbuf_octets b2 = dbuf_octets b1 @ cs"
    using db_put_at [OF b1(2,4)] by blast
  moreover have "db_put b1 (Some (cs @ more_mem)) (int (length cs)) = db_put b1 (Some cs) (int (length cs))"
    by (simp add: db_put_def Let_def split: option.splits)
  moreover have "b \<noteq> None" using assms(1) by (cases b) (simp_all add: dbuf_at_def)
  ultimately show ?thesis using b1 assms(4,5)
    by (cases b) (auto simp: encode_generic_string_def tlv_def)
qed

subsection \<open>Integers\<close>

lemma padding_bits:
  "drop_bit (8 * t) ((w :: 32 word) AND push_bit (8 * t) 65408) = push_bit 7 (take_bit 9 (drop_bit (8 * t + 7) w))" if "t \<le> 2"
proof -
  have m: "(65408 :: 32 word) = push_bit 7 (mask 9)" by (simp add: mask_eq_exp_minus_1 push_bit_eq_mult)
  show ?thesis unfolding m
    using that by (intro bit_word_eqI) (auto simp: bit_simps ac_simps)
qed

lemma uint_padding:
  assumes "t \<le> 2"
  shows "uint (drop_bit (8 * t) (word_of_int v AND push_bit (8 * t) (65408 :: 32 word))) = v div 2 ^ (8 * t + 7) mod 512 * 128"
proof -
  have m: "v mod 4294967296 div 2 ^ k mod 512 = v div 2 ^ k mod 512" if "k \<le> 23" for k
  proof -
    have "take_bit 9 (drop_bit k (take_bit 32 v)) = take_bit 9 (drop_bit k v)"
      using that by (intro bit_eqI) (auto simp: bit_simps)
    then show ?thesis by (simp add: take_bit_eq_mod drop_bit_eq_div)
  qed
  have "uint (push_bit 7 (take_bit 9 (drop_bit (8 * t + 7) (word_of_int v :: 32 word)))) =
      take_bit 32 (push_bit 7 (take_bit 9 (drop_bit (8 * t + 7) (take_bit 32 v))))"
    by (intro bit_eqI) (auto simp: bit_simps)
  also have "\<dots> = v div 2 ^ (8 * t + 7) mod 512 * 128"
    using m [of "8 * t + 7"] assms by (simp add: take_bit_eq_mod drop_bit_eq_div push_bit_eq_mult)
  finally show ?thesis unfolding padding_bits [OF assms] .
qed

text \<open>The fewest octets that hold an integer in two's complement.\<close>

definition int_size :: "int \<Rightarrow> nat" where
  "int_size v = (if - 128 \<le> v \<and> v < 128 then 1 else if - 32768 \<le> v \<and> v < 32768 then 2
     else if - 8388608 \<le> v \<and> v < 8388608 then 3 else 4)"

definition int_contents :: "int \<Rightarrow> octet list" where
  "int_contents v = map (int_octet (word_of_int v)) (rev [0 ..< int_size v])"

definition sign_key :: "int \<Rightarrow> 32 word" where
  "sign_key v = (if v \<ge> 0 then 0 else 65408)"

lemma padding_key:
  assumes "t \<le> 2"
  shows "drop_bit (8 * t) (word_of_int v AND push_bit (8 * t) 65408) = sign_key v
    \<longleftrightarrow> v div 2 ^ (8 * t + 7) mod 512 = (if v \<ge> 0 then 0 else 511)"
  unfolding sign_key_def word_uint_eq_iff uint_padding [OF assms] by auto

lemma sign_extension:
  fixes v m :: int
  assumes "- (m * 256) \<le> v" and "v < m * 256" and "0 < m"
  shows "v div m mod 512 = (if v \<ge> 0 then 0 else 511) \<longleftrightarrow> - m \<le> v \<and> v < m"
proof -
  have e: "v = m * (v div m) + v mod m" "0 \<le> v mod m" "v mod m < m" using assms(3) by simp_all
  have "m * (v div m) < m * 256" using e assms(2) by linarith
  moreover have "m * (- 257) < m * (v div m)" using e assms(1) by linarith
  ultimately have b: "- 256 \<le> v div m" "v div m < 256"
    using assms(3) by (simp_all only: mult_less_cancel_left_pos)
  show ?thesis
  proof (cases "0 \<le> v")
    case True
    then have "0 \<le> v div m" using assms(3) by (simp add: pos_imp_zdiv_nonneg_iff)
    then show ?thesis using True b assms(3) by (auto simp: zdiv_eq_0_iff)
  next
    case False
    then have neg: "v div m < 0" using assms(3) by (simp add: neg_imp_zdiv_neg_iff pos_imp_zdiv_neg_iff)
    have "(v div m + 512) mod 512 = v div m + 512" using neg b by (intro mod_pos_pos_trivial) simp_all
    then have "v div m mod 512 = v div m + 512" by simp
    moreover have "v div m = - 1 \<longleftrightarrow> - m \<le> v"
    proof
      assume "v div m = - 1"
      then have "v = - m + v mod m" using mult_div_mod_eq [of m v] by simp
      then show "- m \<le> v" using pos_mod_sign [OF assms(3), of v] by linarith
    next
      assume "- m \<le> v"
      then show "v div m = - 1" using False assms(3) int_div_pos_eq [of v m "- 1" "v + m"] by simp
    qed
    ultimately show ?thesis using False assms(3) by auto
  qed
qed

lemma skip_padding_size:
  assumes "is_c_int v"
  shows "skip_padding (word_of_int v) (sign_key v) 3 = int (int_size v) - 2"
proof -
  have s2: "drop_bit 16 (word_of_int v AND push_bit 16 65408) = sign_key v \<longleftrightarrow> - 8388608 \<le> v \<and> v < 8388608"
    using padding_key [of 2 v] sign_extension [of 8388608 v] assms by (simp add: is_c_int_def)
  have s1: "drop_bit 8 (word_of_int v AND push_bit 8 65408) = sign_key v \<longleftrightarrow> - 32768 \<le> v \<and> v < 32768"
    if "- 8388608 \<le> v \<and> v < 8388608"
    using padding_key [of 1 v] sign_extension [of 32768 v] that by simp
  have s0: "word_of_int v AND 65408 = sign_key v \<longleftrightarrow> - 128 \<le> v \<and> v < 128" if "- 32768 \<le> v \<and> v < 32768"
    using padding_key [of 0 v] sign_extension [of 128 v] that by simp
  have n3: "(3 :: nat) = Suc (Suc (Suc 0))" by simp
  show ?thesis unfolding n3 skip_padding.simps using s2 s1 s0 by (auto simp: int_size_def)
qed

lemma uint_int_octet:
  assumes "t \<le> 3"
  shows "uint (int_octet (word_of_int v) t) = v div 256 ^ t mod 256"
proof -
  have "uint (int_octet (word_of_int v) t) = take_bit 8 (drop_bit (8 * t) v)"
  proof (rule bit_eqI)
    fix n
    have m: "(255 :: 32 word) = mask 8" by (simp add: mask_eq_exp_minus_1)
    show "bit (uint (int_octet (word_of_int v) t)) n = bit (take_bit 8 (drop_bit (8 * t) v)) n"
      unfolding int_octet_def m using assms by (auto simp: bit_simps)
  qed
  then show ?thesis by (simp add: take_bit_eq_mod drop_bit_eq_div power_mult)
qed

lemma int_octets_of: "n \<le> 4 \<Longrightarrow> map (int_octet (word_of_int v)) (rev [0 ..< n]) = map (\<lambda>t. octet_of (v div 256 ^ t mod 256)) (rev [0 ..< n])"
  by (auto simp: uint_int_octet [symmetric])

lemma int_size_bounds: "1 \<le> int_size v" "int_size v \<le> 4"
  by (auto simp: int_size_def)

lemma put_int_octets_writes:
  assumes "dbuf_at k b" and "length (dbuf_octets b) + n \<le> dbuf_capacity"
  shows "dbuf_at k (put_int_octets b w n) \<and> dbuf_octets (put_int_octets b w n) = dbuf_octets b @ map (int_octet w) (rev [0 ..< n])"
  using assms
proof (induction n arbitrary: b)
  case (Suc n)
  obtain b1 where "db_put b (Some [int_octet w n]) 1 = (1, b1)" "dbuf_at k b1" "dbuf_octets b1 = dbuf_octets b @ [int_octet w n]"
    using db_put_at [OF Suc.prems(1), of "[int_octet w n]"] Suc.prems(2) by auto
  with Suc.IH [of b1] Suc.prems(2) show ?case by simp
qed simp

lemma encode_integer_writes:
  assumes "dbuf_at k b" and "tag_ok c 0 t" and "is_c_int v" and "length (dbuf_octets b) + 15 \<le> dbuf_capacity"
  shows "\<exists>b'. encode_integer b c t v = (Z_OK, b') \<and> dbuf_at k b' \<and> dbuf_octets b' = dbuf_octets b @ tlv c 0 t (int_contents v)"
proof -
  have len: "length (int_contents v) = int_size v" by (simp add: int_contents_def)
  have "room_for b (int_contents v)" using assms(4) int_size_bounds [of v] len by (simp add: room_for_def)
  then obtain b1 where b1: "put_header b c t (int (int_size v)) = (True, b1)" "dbuf_at k b1"
    "dbuf_octets b1 = dbuf_octets b @ tag_octets c 0 t @ len_octets (int (int_size v))"
    "length (dbuf_octets b1) + int_size v \<le> dbuf_capacity"
    using header_then [OF assms(1,2), of "int_contents v"] len by auto
  have "snd (PutLEN (snd (PutTAG b c 0 t)) (int (int_size v))) = b1"
    using b1(1) by (auto simp: put_header_def PRIMITIVE_def split: prod.splits if_splits)
  then have "encode_integer b c t v = (Z_OK, put_int_octets b1 (word_of_int v) (int_size v))"
    using skip_padding_size [OF assms(3)] by (simp add: encode_integer_def Let_def sign_key_def)
  then show ?thesis using put_int_octets_writes [OF b1(2,4), of "word_of_int v"] b1(3)
    by (simp add: tlv_def int_contents_def)
qed

lemma c_int_mod: "c_int x = c_int y \<longleftrightarrow> x mod 4294967296 = y mod 4294967296"
proof -
  have "c_int x = c_int y \<longleftrightarrow> (x + 2147483648) mod 4294967296 = (y + 2147483648) mod 4294967296"
    by (simp add: c_int_def)
  also have "\<dots> \<longleftrightarrow> x mod 4294967296 = y mod 4294967296" by (simp add: mod_eq_dvd_iff)
  finally show ?thesis .
qed

lemma c_int_congruent: "c_int x mod 4294967296 = x mod 4294967296"
  using c_int_mod [of "c_int x" x] by simp

lemma c_int_step: "c_int (c_int (c_int a * 256) + d) = c_int (a * 256 + d)"
  unfolding c_int_mod by (metis c_int_congruent mod_add_left_eq mod_mult_left_eq)

lemma decode_int_loop_reads:
  assumes "dbuf_valid b" and "dbuf_rest b = cs @ rest"
  shows "\<exists>b'. decode_int_loop (length cs) b oc (c_int a) = (c_int (foldl (\<lambda>a c. a * 256 + uint c) a cs), b')
    \<and> dbuf_valid b' \<and> dbuf_octets b' = dbuf_octets b \<and> dbuf_rest b' = rest"
  using assms
proof (induction cs arbitrary: b oc a)
  case (Cons c cs)
  obtain b1 where b1: "get_one b oc = (1, c, b1)" "dbuf_valid b1" "dbuf_octets b1 = dbuf_octets b" "dbuf_rest b1 = cs @ rest"
    using get_one_Cons [OF Cons.prems(1), of c "cs @ rest" oc] Cons.prems(2) by auto
  have "decode_int_loop (length (c # cs)) b oc (c_int a) = decode_int_loop (length cs) b1 c (c_int (a * 256 + uint c))"
    using b1(1) c_int_step [of a "uint c"] by simp
  then show ?case using Cons.IH [OF b1(2,4), of c "a * 256 + uint c"] b1(3) by simp
qed auto

lemma digits_fold:
  "foldl (\<lambda>a c. a * 256 + uint c) a (map (\<lambda>t. octet_of (v div 256 ^ t mod 256)) (rev [0 ..< n])) = a * 256 ^ n + v mod 256 ^ n"
proof (induction n arbitrary: a)
  case (Suc n)
  have "v mod 256 ^ Suc n = 256 ^ n * (v div 256 ^ n mod 256) + v mod 256 ^ n"
    using zmod_zmult2_eq [of 256 v "256 ^ n"] by (simp add: mult.commute)
  then show ?case using Suc by (simp add: algebra_simps)
qed simp

text \<open>What \<open>DecodeInteger\<close> makes of the contents of an integer: it does not extend the sign.\<close>

lemma decode_integer_contents:
  assumes "dbuf_valid b" and "dbuf_rest b = int_contents v @ rest"
  shows "\<exists>b'. decode_integer junk b (int (length (int_contents v))) = (c_int (v mod 256 ^ int_size v), b')
    \<and> dbuf_valid b' \<and> dbuf_octets b' = dbuf_octets b \<and> dbuf_rest b' = rest"
proof -
  have c0: "c_int 0 = 0" by (simp add: is_c_int_def)
  show ?thesis
    using decode_int_loop_reads [OF assms, of junk 0] digits_fold [of 0 v "int_size v"] int_octets_of [OF int_size_bounds(2), of v v]
    by (simp add: decode_integer_def int_contents_def c0)
qed

lemma int_value:
  assumes "is_c_int v"
  shows "c_int (v mod 256 ^ int_size v) = (if - 8388608 \<le> v \<and> v < 0 then v + 256 ^ int_size v else v)"
proof (cases "int_size v = 4")
  case True
  then have "\<not> (- 8388608 \<le> v \<and> v < 0)" by (auto simp: int_size_def split: if_splits)
  moreover have "c_int (v mod 4294967296) = c_int v" unfolding c_int_mod by simp
  ultimately show ?thesis using True assms by simp
next
  case False
  then have r: "- 8388608 \<le> v" "v < 8388608" by (auto simp: int_size_def split: if_splits)
  show ?thesis
  proof (cases "0 \<le> v")
    case True
    have "v mod 256 ^ int_size v = v" using True r by (intro mod_pos_pos_trivial) (auto simp: int_size_def)
    then show ?thesis using True assms by simp
  next
    case neg: False
    have "(v + 256 ^ int_size v) mod 256 ^ int_size v = v + 256 ^ int_size v"
      using neg r by (intro mod_pos_pos_trivial) (auto simp: int_size_def)
    then have "v mod 256 ^ int_size v = v + 256 ^ int_size v" by simp
    moreover have "is_c_int (v + 256 ^ int_size v)" using neg r by (auto simp: int_size_def is_c_int_def)
    ultimately show ?thesis using neg r by simp
  qed
qed

subsection \<open>Bit strings\<close>

lemma bit_of_fold:
  "bit (foldl (\<lambda>o' c. push_bit 1 o' OR (if c = 49 then 1 else 0)) (0 :: octet) cs) j
     \<longleftrightarrow> j < 8 \<and> j < length cs \<and> rev cs ! j = (49 :: octet)"
proof (induction cs arbitrary: j rule: rev_induct)
  case (snoc c cs)
  have one: "bit (if c = 49 then 1 else 0 :: octet) j \<longleftrightarrow> c = 49 \<and> j = 0" by (auto simp: bit_simps)
  have pb: "bit (push_bit 1 x) j \<longleftrightarrow> 1 \<le> j \<and> j < 8 \<and> bit x (j - 1)" for x :: octet
    by (simp only: bit_push_bit_iff) simp
  show ?case unfolding foldl_append foldl.simps bit_or_iff pb one snoc by (cases j) auto
qed simp

definition bit_char :: "octet \<Rightarrow> bool" where
  "bit_char c \<longleftrightarrow> c = 48 \<or> c = 49"

lemma octet_bits_of:
  assumes "\<forall>c \<in> set cs. bit_char c" and "n \<le> 8" and "n \<le> length cs"
  shows "octet_bits (8 - n) (bits_octet cs) = take n cs"
proof (rule nth_equalityI)
  show "length (octet_bits (8 - n) (bits_octet cs)) = length (take n cs)" using assms by (simp add: octet_bits_def)
next
  fix i
  assume "i < length (octet_bits (8 - n) (bits_octet cs))"
  then have i: "i < n" using assms(2) by (simp add: octet_bits_def)
  let ?p = "take 8 (cs @ replicate 8 48)"
  have len: "length ?p = 8" by simp
  have "rev [8 - n ..< 8] ! i = 7 - i" using i assms(2) by (simp add: rev_nth)
  then have "octet_bits (8 - n) (bits_octet cs) ! i = (if bit (bits_octet cs) (7 - i) then 49 else 48)"
    using i assms(2) by (simp add: octet_bits_def)
  moreover have "bit (bits_octet cs) (7 - i) \<longleftrightarrow> rev ?p ! (7 - i) = 49"
    using i assms(2) len unfolding bits_octet_def bit_of_fold by auto
  moreover have "rev ?p ! (7 - i) = cs ! i"
  proof -
    have "rev ?p ! (7 - i) = ?p ! i" using i assms(2) len by (simp add: rev_nth del: take_append)
    then show ?thesis using i assms(2,3) by (simp add: nth_append)
  qed
  moreover have "bit_char (cs ! i)" using assms(1,3) i by simp
  ultimately show "octet_bits (8 - n) (bits_octet cs) ! i = take n cs ! i" using i by (auto simp: bit_char_def)
qed

lemma put_all_writes:
  assumes "dbuf_at k b" and "length (dbuf_octets b) + length cs \<le> dbuf_capacity"
  shows "dbuf_at k (put_all b cs) \<and> dbuf_octets (put_all b cs) = dbuf_octets b @ cs"
  using assms
proof (induction cs arbitrary: b)
  case (Cons c cs)
  obtain b1 where "db_put b (Some [c]) 1 = (1, b1)" "dbuf_at k b1" "dbuf_octets b1 = dbuf_octets b @ [c]"
    using db_put_at [OF Cons.prems(1), of "[c]"] Cons.prems(2) by auto
  with Cons.IH [of b1] Cons.prems(2) show ?case by (simp add: put_all_def)
qed (simp add: put_all_def)

definition bit_octet_count :: "nat \<Rightarrow> nat" where
  "bit_octet_count n = (n + 7) div 8"

definition unused_bits :: "nat \<Rightarrow> nat" where
  "unused_bits n = bit_octet_count n * 8 - n"

lemma bit_count_Suc: "bit_octet_count m = Suc n \<Longrightarrow> bit_octet_count (m - 8) = n"
proof (cases "8 \<le> m")
  case True
  then obtain k where "m = 8 + k" by (auto simp: le_iff_add)
  moreover have "(8 + (k + 7)) div 8 = Suc ((k + 7) div 8)" by (subst div_add_self1) simp_all
  ultimately show "bit_octet_count m = Suc n \<Longrightarrow> ?thesis" by (simp add: bit_octet_count_def add.assoc)
next
  case False
  then have "(m + 7) div 8 < 2" by (intro less_mult_imp_div_less) simp
  then show "bit_octet_count m = Suc n \<Longrightarrow> ?thesis" using False by (simp add: bit_octet_count_def)
qed

lemma bit_count_bounds: "m \<le> 8 * bit_octet_count m" "8 * bit_octet_count m < m + 8"
proof -
  have "bit_octet_count m * 8 + (m + 7) mod 8 = m + 7" "(m + 7) mod 8 < 8"
    unfolding bit_octet_count_def by simp_all
  then show "m \<le> 8 * bit_octet_count m" "8 * bit_octet_count m < m + 8" by linarith+
qed

lemma decode_bits_loop_reads:
  assumes "dbuf_valid b" and "dbuf_rest b = bit_octets n cs @ rest" and "\<forall>c \<in> set cs. bit_char c"
    and "bit_octet_count (length cs) = n" and "dbuf_at 0 bits" and "length (dbuf_octets bits) + length cs \<le> dbuf_capacity"
    and "unused = int (unused_bits (length cs))"
  shows "\<exists>bits' b'. decode_bits_loop n unused b oc bits = Done (bits', b') \<and> dbuf_at 0 bits'
    \<and> dbuf_octets bits' = dbuf_octets bits @ cs \<and> dbuf_rest b' = rest \<and> dbuf_octets b' = dbuf_octets b"
  using assms
proof (induction n arbitrary: b cs oc bits)
  case 0
  then show ?case by (auto simp: bit_octet_count_def div_eq_0_iff)
next
  case (Suc n)
  obtain b1 where b1: "get_one b oc = (1, bits_octet cs, b1)" "dbuf_valid b1" "dbuf_octets b1 = dbuf_octets b"
      "dbuf_rest b1 = bit_octets n (drop 8 cs) @ rest"
    using get_one_Cons [OF Suc.prems(1), of "bits_octet cs" _ oc] Suc.prems(2) by auto
  define m where "m = (if n = 0 then length cs else 8)"
  have bnd: "length cs \<le> 8 * Suc n" "8 * Suc n < length cs + 8" using bit_count_bounds [of "length cs"] Suc.prems(4) by simp_all
  have m: "m \<le> 8" "m \<le> length cs" "drop m cs = drop 8 cs" using bnd by (auto simp: m_def)
  have low: "nat (if n = 0 then unused else 0) = 8 - m"
    using Suc.prems(4,7) bnd by (auto simp: m_def unused_bits_def)
  have "octet_bits (8 - m) (bits_octet cs) = take m cs" using octet_bits_of [OF Suc.prems(3) m(1,2)] .
  moreover have "\<not> (if n = 0 then unused else 0) < 0" using Suc.prems(7) by simp
  ultimately have step: "decode_bits_loop (Suc n) unused b oc bits =
      decode_bits_loop n unused b1 (bits_octet cs) (put_all bits (take m cs))"
    using b1(1) low by (simp add: Let_def)
  have pa: "dbuf_at 0 (put_all bits (take m cs))" "dbuf_octets (put_all bits (take m cs)) = dbuf_octets bits @ take m cs"
    using put_all_writes [OF Suc.prems(5), of "take m cs"] Suc.prems(6) by simp_all
  show ?case
  proof (cases "n = 0")
    case True
    then show ?thesis using step pa b1 m bnd by (auto simp: m_def)
  next
    case False
    then have "8 \<le> length cs" using bnd by (cases n) simp_all
    then have u: "unused = int (unused_bits (length (drop 8 cs)))"
      using Suc.prems(4,7) bit_count_Suc [OF Suc.prems(4)] by (simp add: unused_bits_def)
    have "\<exists>bits' b'. decode_bits_loop n unused b1 (bits_octet cs) (put_all bits (take m cs)) = Done (bits', b') \<and> dbuf_at 0 bits'
        \<and> dbuf_octets bits' = dbuf_octets (put_all bits (take m cs)) @ drop 8 cs \<and> dbuf_rest b' = rest \<and> dbuf_octets b' = dbuf_octets b1"
      using Suc.prems(3,4,6) pa m u b1 bit_count_Suc [OF Suc.prems(4)] False
      by (intro Suc.IH) (auto dest: in_set_dropD simp: m_def)
    then show ?thesis using step pa b1(3) m(3) by (auto simp: append_take_drop_id m_def False)
  qed
qed

definition bit_contents :: "octet list \<Rightarrow> octet list" where
  "bit_contents cs = octet_of (int (unused_bits (length cs))) # bit_octets (bit_octet_count (length cs)) cs"

lemma length_bit_octets [simp]: "length (bit_octets n cs) = n"
  by (induction n arbitrary: cs) simp_all

lemma bit_numbers:
  fixes n :: nat
  shows "(if int n mod 8 \<noteq> 0 then 8 - int n mod 8 else 0) = int (unused_bits n)"
    and "(if int n mod 8 \<noteq> 0 then int n div 8 + 1 else int n div 8) = int (bit_octet_count n)"
proof -
  have z: "int n mod 8 = int (n mod 8)" "int n div 8 = int (n div 8)" by (simp_all add: zmod_int zdiv_int)
  have q: "bit_octet_count n = (if n mod 8 \<noteq> 0 then n div 8 + 1 else n div 8)"
  proof -
    have "(n + 7) div 8 = n div 8 + (n mod 8 + 7) div 8" by (simp add: div_add1_eq [of n 7 8])
    moreover have "(n mod 8 + 7) div 8 = (if n mod 8 \<noteq> 0 then 1 else 0)"
      using mod_less_divisor [of 8 n] by (auto simp: div_if)
    ultimately show ?thesis by (simp add: bit_octet_count_def)
  qed
  then show "(if int n mod 8 \<noteq> 0 then int n div 8 + 1 else int n div 8) = int (bit_octet_count n)"
    unfolding z by (simp add: of_nat_eq_0_iff)
  define d r where "d = n div 8" and "r = n mod 8"
  have "n = d * 8 + r" by (simp add: d_def r_def)
  then have "unused_bits n = (if r \<noteq> 0 then d + 1 else d) * 8 - (d * 8 + r)"
    using q unfolding unused_bits_def d_def [symmetric] r_def [symmetric] by simp
  then have "unused_bits n = (if r \<noteq> 0 then 8 - r else 0)" by simp
  then have "unused_bits n = (if n mod 8 \<noteq> 0 then 8 - n mod 8 else 0)" by (simp only: r_def)
  then show "(if int n mod 8 \<noteq> 0 then 8 - int n mod 8 else 0) = int (unused_bits n)"
    unfolding z by (simp add: of_nat_diff less_imp_le)
qed

lemma unused_bits_less: "unused_bits n < 8"
  using bit_count_bounds [of n] by (simp add: unused_bits_def)

lemma encode_bitstr_writes:
  assumes "dbuf_at k b" and "tag_ok c 0 t" and "room_for b (bit_contents cs)" and "cs \<noteq> []"
    and "length cs < 2147483648" and "g = \<lparr>gs_length = int (length cs), gs_data = Some (cs @ more_mem)\<rparr>"
  shows "\<exists>b'. encode_bitstr b c t (Some g) = Done (Z_OK, b') \<and> dbuf_at k b' \<and> dbuf_octets b' = dbuf_octets b @ tlv c 0 t (bit_contents cs)"
proof -
  let ?u = "int (unused_bits (length cs))" and ?q = "bit_octet_count (length cs)"
  have len: "length (bit_contents cs) = Suc ?q" by (simp add: bit_contents_def)
  obtain b1 where b1: "put_header b c t (1 + int ?q) = (True, b1)" "dbuf_at k b1"
    "dbuf_octets b1 = dbuf_octets b @ tag_octets c 0 t @ len_octets (1 + int ?q)"
    "length (dbuf_octets b1) + Suc ?q \<le> dbuf_capacity"
    using header_then [OF assms(1-3)] len by auto
  have u: "len_octets ?u = [octet_of ?u]" "0 \<le> ?u" "?u < 2147483648" "?u < 128"
    using unused_bits_less [of "length cs"] by (simp_all add: len_octets_def)
  have one: "PutLEN b1 ?u = z_status (put_octets put_one b1 [octet_of ?u])"
    using b1(2) u by (cases b1) (simp_all add: PutLEN_def dbuf_at_def)
  obtain b2 where b2: "PutLEN b1 ?u = (Z_OK, b2)" "dbuf_at k b2" "dbuf_octets b2 = dbuf_octets b1 @ [octet_of ?u]"
    using one.put_octets_ok [OF b1(2), of "[octet_of ?u]"] b1(4) unfolding one by (auto simp: z_status_def)
  obtain b3 where b3: "put_octets put_one b2 (bit_octets ?q cs) = (True, b3)" "dbuf_at k b3"
    "dbuf_octets b3 = dbuf_octets b2 @ bit_octets ?q cs"
    using one.put_octets_ok [OF b2(2), of "bit_octets ?q cs"] b1(4) b2(3) by auto
  have "b \<noteq> None" using assms(1) by (cases b) (simp_all add: dbuf_at_def)
  then have "encode_bitstr b c t (Some g) = Done (z_status (True, b3))"
    using b1(1) b2(1) b3(1) assms(4,6) by (auto simp: encode_bitstr_def bit_numbers Let_def)
  then show ?thesis using b1 b2 b3 len by (simp add: z_status_def tlv_def bit_contents_def)
qed

lemma strncpy_all: "\<forall>c \<in> set cs. c \<noteq> 0 \<Longrightarrow> strncpy_octets cs (int (length cs)) = Done cs"
  by (simp add: strncpy_octets_def takeWhile_eq_all_conv [THEN iffD2])

lemma dbuf_string_of:
  assumes "dbuf_valid b" and "\<forall>c \<in> set (dbuf_octets b). c \<noteq> 0"
  shows "dbuf_string b = Done \<lparr>gs_length = int (length (dbuf_octets b)), gs_data = Some (dbuf_octets b @ [0])\<rparr>"
  using assms(1) by (rule dbuf_validE) (use assms(2) strncpy_all in \<open>simp add: dbuf_string_def\<close>)

lemma decode_bit_string_contents:
  assumes "dbuf_valid b" and "dbuf_rest b = bit_contents cs @ rest" and "\<forall>c \<in> set cs. bit_char c" and "length cs \<le> dbuf_capacity"
  shows "\<exists>b'. decode_bit_string junk b (int (length (bit_contents cs))) =
    Done (\<lparr>gs_length = int (length cs), gs_data = Some (cs @ [0])\<rparr>, b') \<and> dbuf_octets b' = dbuf_octets b"
proof -
  let ?u = "int (unused_bits (length cs))" and ?q = "bit_octet_count (length cs)"
  have u: "len_octets ?u = [octet_of ?u]" "0 \<le> ?u" "?u < 2147483648" "?u < 128" "?u < 256"
    using unused_bits_less [of "length cs"] by (simp_all add: len_octets_def)
  obtain b1 where b1: "get_one b 0 = (1, octet_of ?u, b1)" "dbuf_valid b1" "dbuf_octets b1 = dbuf_octets b" "dbuf_rest b1 = bit_octets ?q cs @ rest"
    using get_one_Cons [OF assms(1), of "octet_of ?u" _ 0] assms(2) by (auto simp: bit_contents_def)
  have g: "GetLEN b = Some (?u, b1)" using b1(1) u by (simp add: GetLEN_def next_octet_def high_bit)
  have "dbuf_at 0 NewDbuf" by (simp add: dbuf_at_def)
  then obtain bits b2 where l: "decode_bits_loop ?q ?u b1 junk NewDbuf = Done (bits, b2)" "dbuf_at 0 bits"
    "dbuf_octets bits = cs" "dbuf_octets b2 = dbuf_octets b1"
    using decode_bits_loop_reads [OF b1(2,4) assms(3) refl, of NewDbuf ?u junk] assms(4) by auto
  have "\<forall>c \<in> set cs. c \<noteq> 0" using assms(3) by (auto simp: bit_char_def)
  then have "dbuf_string bits = Done \<lparr>gs_length = int (length cs), gs_data = Some (cs @ [0])\<rparr>"
    using dbuf_string_of [of bits] l(2,3) by (simp add: dbuf_at_def)
  then show ?thesis using g l(1,4) b1(3) by (simp add: decode_bit_string_def bit_contents_def)
qed

end
