(* ===== verification/Ber_Oid.thy ===== *)
theory Ber_Oid
  imports Ber_Prim
begin

text \<open>
  Object identifiers from their text to their octets and back: \<open>oid_convert\<close> and \<open>encode_oid\<close> against
  \<open>decode_oid\<close> and the printing of \<open>DecodeOid\<close>.
\<close>

unbundle bit_operations_syntax

section \<open>Text\<close>

lemma uint_char_o [simp]: "uint (char_o c) = int (ch c)"
proof -
  have "ch c < 256" by (simp add: ch_def)
  then show ?thesis by (simp add: char_o_def)
qed

lemma o_char_char_o [simp]: "o_char (char_o c) = c"
  by (simp add: o_char_def ch_def)

lemma o_isdigit_char_o [simp]: "o_isdigit (char_o c) \<longleftrightarrow> c_isdigit c"
  by (simp add: o_isdigit_def c_isdigit_def)

definition oid_id :: "int \<Rightarrow> bool" where
  "oid_id x \<longleftrightarrow> 0 \<le> x \<and> x < 2147483648"

definition id_text :: "int \<Rightarrow> octet list" where
  "id_text x = map char_o (print_int x)"

lemma id_text:
  assumes "oid_id x"
  shows "id_text x \<noteq> []" "\<forall>c \<in> set (id_text x). o_isdigit c" "length (id_text x) \<le> 10" "atoi (map o_char (id_text x)) = x"
proof -
  have p: "print_int x = nat_digits (nat x)" using assms by (simp add: oid_id_def print_int_def)
  show "id_text x \<noteq> []" "\<forall>c \<in> set (id_text x). o_isdigit c"
    using nat_digits_facts [of "nat x"] by (auto simp: id_text_def p)
  have "length (nat_digits (nat x)) \<le> Suc 9" using assms by (intro length_nat_digits) (simp add: oid_id_def nat_less_iff)
  then show "length (id_text x) \<le> 10" by (simp add: id_text_def p)
  show "atoi (map o_char (id_text x)) = x"
    using atoi_print [of x] assms by (simp add: id_text_def o_def oid_id_def)
qed

definition oid_text :: "int list \<Rightarrow> octet list" where
  "oid_text ids = concat (print_oid ids)"

lemma oid_text_simps:
  "oid_text [x] = id_text x" "oid_text (x # y # xs) = id_text x @ 46 # oid_text (y # xs)"
  by (simp_all add: oid_text_def id_text_def)

lemma digit_nonzero: "o_isdigit c \<Longrightarrow> c \<noteq> 0"
  by (auto simp: o_isdigit_def)

lemma dot_no_digit: "\<not> o_isdigit 46" "\<not> o_isdigit 0" "(46 :: octet) \<noteq> 0"
  by (simp_all add: o_isdigit_def)

text \<open>One number followed by something that is no digit, with or without a point before it.\<close>

lemma oid_loop_number:
  assumes "oid_id x" and "length acc < 50" and "\<not> o_isdigit d"
  shows "oid_loop (id_text x @ d # r) acc = oid_loop (d # r) (acc @ [x])"
    and "oid_loop (46 # id_text x @ d # r) acc = oid_loop (d # r) (acc @ [x])"
proof -
  obtain c cs where cc: "id_text x = c # cs" using id_text(1) [OF assms(1)] by (cases "id_text x") auto
  have dig: "o_isdigit c" "\<forall>c \<in> set (id_text x). o_isdigit c" using id_text(2) [OF assms(1)] cc by simp_all
  have tw: "takeWhile o_isdigit (id_text x @ d # r) = id_text x" "dropWhile o_isdigit (id_text x @ d # r) = d # r"
    using dig(2) assms(3) by (simp_all add: takeWhile_append2 dropWhile_append2)
  have sk: "oid_skip (id_text x @ d # r) = Done (id_text x @ d # r)" using dig(1) by (simp add: cc)
  have ok: "\<not> (d # r = [] \<or> length (id_text x) > 49 \<or> length acc \<ge> 50 \<or> \<not> is_c_int (atoi (map o_char (id_text x))))"
    using id_text(3,4) [OF assms(1)] assms(1,2) by (simp add: is_c_int_def oid_id_def)
  have h: "hd (id_text x @ d # r) \<noteq> 0" using digit_nonzero [OF dig(1)] by (simp add: cc)
  show "oid_loop (id_text x @ d # r) acc = oid_loop (d # r) (acc @ [x])"
    using ok h id_text(4) [OF assms(1)] assms(3) by (subst oid_loop.simps) (simp add: sk tw Let_def)
  show "oid_loop (46 # id_text x @ d # r) acc = oid_loop (d # r) (acc @ [x])"
    using ok id_text(4) [OF assms(1)] assms(3) by (subst oid_loop.simps) (simp add: sk tw Let_def dot_no_digit)
qed

lemma oid_loop_text:
  assumes "\<forall>x \<in> set ids. oid_id x" and "length acc + length ids \<le> 50" and "ids \<noteq> []"
  shows "oid_loop (oid_text ids @ 0 # r) acc = Done (acc @ ids)"
    and "oid_loop (46 # oid_text ids @ 0 # r) acc = Done (acc @ ids)"
  using assms
proof (induction ids arbitrary: acc rule: print_oid.induct)
  case (2 x)
  {
    case 1
    then show ?case by (simp add: oid_text_simps oid_loop_number dot_no_digit) (simp add: oid_loop.simps)
  next
    case 2
    then show ?case by (simp add: oid_text_simps oid_loop_number dot_no_digit) (simp add: oid_loop.simps)
  }
next
  case (3 x y xs)
  {
    case 1
    then show ?case using "3.IH"(2) [of "acc @ [x]"] by (simp add: oid_text_simps(2) oid_loop_number dot_no_digit)
  next
    case 2
    then show ?case using "3.IH"(2) [of "acc @ [x]"] by (simp add: oid_text_simps(2) oid_loop_number dot_no_digit)
  }
qed simp_all

lemma oid_convert_text:
  assumes "\<forall>x \<in> set ids. oid_id x" and "length ids \<le> 50" and "ids \<noteq> []"
  shows "oid_convert (Some (oid_text ids @ 0 # r)) = Done (Some ids)"
  using oid_loop_text(1) [of ids "[]" r] assms by (simp add: oid_convert_def)

section \<open>Octets\<close>

lemma length_septets_le: "x < 2147483648 \<Longrightarrow> length (septets x) \<le> 5"
  using length_digits_le [of x 7 5] by simp

definition oid_octets :: "int list \<Rightarrow> octet list" where
  "oid_octets cs = concat (map septets cs)"

lemma length_oid_octets: "\<forall>x \<in> set cs. x < 2147483648 \<Longrightarrow> length (oid_octets cs) \<le> 5 * length cs"
proof (induction cs)
  case (Cons c cs)
  then show ?case using length_septets_le [of c] by (simp add: oid_octets_def)
qed (simp add: oid_octets_def)

lemma encode_oid_components_writes:
  assumes "dbuf_at k b" and "\<forall>x \<in> set cs. 0 < x \<and> x < 2147483648" and "length (dbuf_octets b) + 5 * length cs \<le> dbuf_capacity"
  shows "\<exists>b'. encode_oid_components junk i b cs = Done (True, b') \<and> dbuf_at k b' \<and> dbuf_octets b' = dbuf_octets b @ oid_octets cs"
  using assms
proof (induction cs arbitrary: b i)
  case Nil
  then show ?case by (simp add: oid_octets_def)
next
  case (Cons c cs)
  have "b \<noteq> None" using Cons.prems(1) by (cases b) (simp_all add: dbuf_at_def)
  moreover obtain b1 where b1: "put_octets put_one b (septets c) = (True, b1)" "dbuf_at k b1" "dbuf_octets b1 = dbuf_octets b @ septets c"
    using one.put_octets_ok [OF Cons.prems(1), of "septets c"] length_septets_le [of c] Cons.prems(2,3) by auto
  ultimately have "encode_oid_component (junk i) b c = Done (Z_OK, b1)"
    using Cons.prems(2) by (auto simp: encode_oid_component_def z_status_def)
  moreover obtain b2 where "encode_oid_components junk (Suc i) b1 cs = Done (True, b2)" "dbuf_at k b2" "dbuf_octets b2 = dbuf_octets b1 @ oid_octets cs"
    using Cons.IH [OF b1(2), of "Suc i"] Cons.prems b1(3) length_septets_le [of c] by auto
  ultimately show ?case using b1(3) by (simp add: oid_octets_def)
qed

text \<open>The numbers of an identifier that its octets can express, and the first octets' number.\<close>

definition oid_ok :: "int list \<Rightarrow> bool" where
  "oid_ok ids \<longleftrightarrow> (case ids of
     a # b # rest \<Rightarrow> 0 \<le> a \<and> 0 \<le> b \<and> b < 40 \<and> 0 < a * 40 + b \<and> a * 40 + b < 2147483648
       \<and> (\<forall>x \<in> set rest. 0 < x \<and> x < 2147483648) \<and> length ids \<le> 50
   | _ \<Rightarrow> False)"

definition oid_numbers :: "int list \<Rightarrow> int list" where
  "oid_numbers ids = (ids ! 0 * 40 + ids ! 1) # drop 2 ids"

lemma oid_okE:
  assumes "oid_ok ids"
  obtains a b rest where "ids = a # b # rest" "0 \<le> a" "0 \<le> b" "b < 40" "0 < a * 40 + b" "a * 40 + b < 2147483648"
    "\<forall>x \<in> set rest. 0 < x \<and> x < 2147483648" "length rest \<le> 48"
  using assms by (auto simp: oid_ok_def split: list.splits)

lemma oid_ok_ids: "oid_ok ids \<Longrightarrow> \<forall>x \<in> set ids. oid_id x"
  by (elim oid_okE) (auto simp: oid_id_def)

lemma encode_oid_writes:
  assumes "dbuf_at k b" and "tag_ok c 0 t" and "oid_ok ids" and "length (dbuf_octets b) + 300 \<le> dbuf_capacity"
    and "gs_data g = Some (oid_text ids @ 0 # more_mem)"
  shows "\<exists>b'. encode_oid junk b c t (Some g) = Done (Z_OK, b') \<and> dbuf_at k b'
    \<and> dbuf_octets b' = dbuf_octets b @ tlv c 0 t (oid_octets (oid_numbers ids))"
proof -
  let ?cs = "oid_octets (oid_numbers ids)"
  obtain x y rest where ids: "ids = x # y # rest" "0 \<le> x" "0 \<le> y" "y < 40" "0 < x * 40 + y" "x * 40 + y < 2147483648"
    "\<forall>x \<in> set rest. 0 < x \<and> x < 2147483648" "length rest \<le> 48" using assms(3) by (rule oid_okE)
  have conv: "oid_convert (gs_data g) = Done (Some ids)"
    using oid_convert_text [OF oid_ok_ids [OF assms(3)]] ids(1,8) assms(5) by simp
  have "is_c_int (x * 40)" "is_c_int (x * 40 + y)" using ids unfolding is_c_int_def by linarith+
  then have tmp: "c_int (c_int (nth_id ids 0 * 40) + nth_id ids (Suc 0)) # drop 2 ids = oid_numbers ids"
    using ids(1) by (simp add: nth_id_def oid_numbers_def)
  have pos: "\<forall>x \<in> set (oid_numbers ids). 0 < x \<and> x < 2147483648" "length (oid_numbers ids) \<le> 49"
    using ids by (auto simp: oid_numbers_def)
  have "dbuf_at 0 NewDbuf" by (simp add: dbuf_at_def)
  then obtain buf where buf: "encode_oid_components junk 0 NewDbuf (oid_numbers ids) = Done (True, buf)" "dbuf_at 0 buf" "dbuf_octets buf = ?cs"
    using encode_oid_components_writes [of 0 NewDbuf "oid_numbers ids" junk 0] pos by (auto simp: dbuf_capacity_def)
  then obtain d where d: "buf = Some d" "db_data d = Some ?cs" "db_size d = int (length ?cs)"
    by (auto simp: dbuf_at_def elim!: dbuf_validE)
  have "length ?cs \<le> 245" using length_oid_octets [of "oid_numbers ids"] pos by auto
  then have room: "room_for b ?cs" using assms(4) by (simp add: room_for_def)
  obtain b1 where b1: "put_header b c t (int (length ?cs)) = (True, b1)" "dbuf_at k b1"
    "dbuf_octets b1 = dbuf_octets b @ tag_octets c 0 t @ len_octets (int (length ?cs))"
    "length (dbuf_octets b1) + length ?cs \<le> dbuf_capacity"
    using header_then [OF assms(1,2) room] by blast
  obtain b2 where b2: "db_put b1 (Some ?cs) (int (length ?cs)) = (int (length ?cs), b2)" "dbuf_at k b2" "dbuf_octets b2 = dbuf_octets b1 @ ?cs"
    using db_put_at [OF b1(2,4)] by blast
  have "b \<noteq> None" using assms(1) by (cases b) (simp_all add: dbuf_at_def)
  then have "encode_oid junk b c t (Some g) = Done (Z_OK, b2)"
    using conv buf(1) d b1(1) b2(1) by (auto simp: encode_oid_def tmp Let_def simp del: encode_oid_components.simps)
  then show ?thesis using b1(3) b2(2,3) by (simp add: tlv_def)
qed

section \<open>Reading the octets\<close>

lemma high_bit_set_iff: "high_bit_set c \<longleftrightarrow> \<not> uint c < 128"
proof -
  have p: "(128 :: octet) = 2 ^ 7" by simp
  have "c AND 128 = (if bit c 7 then 128 else 0)" unfolding p
  proof (rule bit_word_eqI)
    fix n
    assume "n < LENGTH(8)"
    show "bit (c AND 2 ^ 7) n = bit (if bit c 7 then 2 ^ 7 else 0 :: octet) n"
      by (cases "bit c 7") (simp_all only: bit_and_iff bit_exp_iff if_True if_False bit_0_eq bot_apply, auto)
  qed
  then have "c AND 128 = 0 \<or> c AND 128 = 128" by simp
  then show ?thesis using high_bit [of c] by (auto simp: high_bit_set_def)
qed

lemma oid_number_septets:
  assumes "dbuf_valid b" and "dbuf_rest b = mark_more (map octet_of ds) @ rest" and "ds \<noteq> []"
    and "\<forall>d \<in> set ds. 0 \<le> d \<and> d < 128" and "0 \<le> t" and "foldl (\<lambda>acc d. acc * 2 ^ 7 + d) t ds < 2147483648"
  shows "\<exists>c b'. oid_number b oc t i = Some (foldl (\<lambda>acc d. acc * 2 ^ 7 + d) t ds, i + int (length ds), c, b')
    \<and> dbuf_valid b' \<and> dbuf_rest b' = rest"
  using assms
proof (induction ds arbitrary: b oc t i)
  case (Cons d ds)
  let ?t = "t * 128 + d"
  have "?t \<le> foldl (\<lambda>acc d. acc * 2 ^ 7 + d) ?t ds" using Cons.prems by (intro value_grows) simp_all
  then have shift: "c_int (c_int (t * 128) + d) = ?t" using Cons.prems by (intro c_int_shift) simp_all
  have u: "uint (octet_of d) = d" "0 \<le> d" "d < 128" using Cons.prems(4) by simp_all
  show ?case
  proof (cases ds)
    case Nil
    then obtain b1 where "get_one b oc = (1, octet_of d, b1)" "dbuf_valid b1" "dbuf_rest b1 = rest"
      using get_one_Cons [OF Cons.prems(1), of "octet_of d" rest oc] Cons.prems(2) by auto
    then show ?thesis using Nil shift u by (subst oid_number.simps) (simp add: high_bit_set_iff and_127)
  next
    case (Cons e es)
    let ?c = "octet_of d OR 128"
    obtain b1 where b1: "get_one b oc = (1, ?c, b1)" "dbuf_valid b1" "dbuf_rest b1 = mark_more (map octet_of ds) @ rest"
      using get_one_Cons [OF Cons.prems(1), of ?c _ oc] Cons.prems(2) Cons by auto
    have c: "uint ?c = d + 128" "uint (?c AND 127) = d" using u by (simp_all add: or_128 and_127)
    have "oid_number b oc t i = oid_number b1 ?c ?t (i + 1)"
      using b1(1) c shift u by (subst oid_number.simps) (simp add: high_bit_set_iff)
    moreover have "\<exists>c b'. oid_number b1 ?c ?t (i + 1) = Some (foldl (\<lambda>acc d. acc * 2 ^ 7 + d) ?t ds, i + 1 + int (length ds), c, b')
        \<and> dbuf_valid b' \<and> dbuf_rest b' = rest"
      using Cons.prems b1 Cons by (intro Cons.IH) simp_all
    moreover have "i + 1 + int (length ds) = i + int (length (d # ds))" by simp
    ultimately show ?thesis by simp
  qed
qed simp

lemma oid_number_reads:
  assumes "dbuf_valid b" and "dbuf_rest b = septets x @ rest" and "0 < x" and "x < 2147483648"
  shows "\<exists>c b'. oid_number b oc 0 i = Some (x, i + int (length (septets x)), c, b') \<and> dbuf_valid b' \<and> dbuf_rest b' = rest"
proof -
  have rd: "dbuf_rest b = mark_more (map octet_of (rev (digits_le 7 x))) @ rest" using assms(2) by (simp add: septets_def)
  show ?thesis using oid_number_septets [OF assms(1) rd septet_digits(1,2) [OF assms(3)], of 0 oc i]
      septet_digits(3) [OF assms(3)] assms(4) by simp
qed

lemma decode_oid_loop_reads:
  assumes "dbuf_valid b" and "dbuf_rest b = oid_octets cs @ rest" and "\<forall>x \<in> set cs. 0 < x \<and> x < 2147483648"
    and "ids \<noteq> []" and "length ids + length cs \<le> 50" and "i + int (length (oid_octets cs)) = len"
  shows "\<exists>b'. decode_oid_loop b oc len i ids = Some (Done (ids @ cs, b')) \<and> dbuf_rest b' = rest"
  using assms
proof (induction cs arbitrary: b oc i ids)
  case Nil
  then show ?case by (subst decode_oid_loop.simps) (simp add: oid_octets_def)
next
  case (Cons x cs)
  have o: "oid_octets (x # cs) = septets x @ oid_octets cs" by (simp add: oid_octets_def)
  have x: "0 < x" "x < 2147483648" using Cons.prems(3) by simp_all
  obtain c b1 where b1: "oid_number b oc 0 i = Some (x, i + int (length (septets x)), c, b1)" "dbuf_valid b1" "dbuf_rest b1 = oid_octets cs @ rest"
    using oid_number_reads [OF Cons.prems(1) _ x, of "oid_octets cs @ rest" oc i] Cons.prems(2) o by auto
  have pos: "0 < length (septets x)" using x(1) digits_le_Nil [of 7 x] by simp
  have "i < len" using Cons.prems(6) pos unfolding o length_append of_nat_add by linarith
  then have "decode_oid_loop b oc len i ids = decode_oid_loop b1 c len (i + int (length (septets x))) (ids @ [x])"
    using b1(1) Cons.prems(4,5) by (subst decode_oid_loop.simps) simp
  then show ?case
    using Cons.IH [OF b1(2,3), of "ids @ [x]" "i + int (length (septets x))" c] Cons.prems(3,5,6) o by simp
qed

lemma decode_oid_contents:
  assumes "dbuf_valid b" and "dbuf_rest b = oid_octets (oid_numbers ids) @ rest" and "oid_ok ids"
  shows "\<exists>b'. decode_oid junk b (int (length (oid_octets (oid_numbers ids)))) = Some (Done (ids, b'))"
proof -
  obtain x y r where ids: "ids = x # y # r" "0 \<le> x" "0 \<le> y" "y < 40" "0 < x * 40 + y" "x * 40 + y < 2147483648"
    "\<forall>x \<in> set r. 0 < x \<and> x < 2147483648" "length r \<le> 48" using assms(3) by (rule oid_okE)
  let ?h = "x * 40 + y"
  have o: "oid_octets (oid_numbers ids) = septets ?h @ oid_octets r" using ids(1) by (simp add: oid_octets_def oid_numbers_def)
  obtain c b1 where b1: "oid_number b junk 0 0 = Some (?h, int (length (septets ?h)), c, b1)" "dbuf_valid b1" "dbuf_rest b1 = oid_octets r @ rest"
    using oid_number_reads [OF assms(1) _ ids(5,6), of "oid_octets r @ rest" junk 0] assms(2) o by auto
  have qr: "c_quot ?h 40 = x" "c_rem ?h 40 = y"
  proof -
    have "?h div 40 = x" using ids(3,4) by simp
    then show "c_quot ?h 40 = x" "c_rem ?h 40 = y" using ids(5) by (simp_all add: c_quot_def c_rem_def)
  qed
  have in_len: "0 < int (length (septets ?h @ oid_octets r))" using ids(5) digits_le_Nil [of 7 ?h] by (cases "digits_le 7 ?h") simp_all
  have "decode_oid junk b (int (length (oid_octets (oid_numbers ids)))) =
      decode_oid_loop b1 c (int (length (septets ?h @ oid_octets r))) (int (length (septets ?h))) [x, y]"
    unfolding decode_oid_def o using b1(1) in_len qr by (subst decode_oid_loop.simps) (simp del: length_append)
  then show ?thesis
    using decode_oid_loop_reads [OF b1(2,3) ids(7), of "[x, y]" "int (length (septets ?h))" _ c] ids(1,8) by fastforce
qed

section \<open>Printing\<close>

lemma put_chunks:
  assumes "dbuf_at k b" and "length (dbuf_octets b) + length (concat cs) \<le> dbuf_capacity"
  shows "dbuf_at k (foldl put_chunk b cs) \<and> dbuf_octets (foldl put_chunk b cs) = dbuf_octets b @ concat cs"
  using assms
proof (induction cs arbitrary: b)
  case (Cons c cs)
  obtain b1 where "put_chunk b c = b1" "dbuf_at k b1" "dbuf_octets b1 = dbuf_octets b @ c"
    using db_put_at [OF Cons.prems(1), of c] Cons.prems(2) by (auto simp: put_chunk_def)
  with Cons.IH [of b1] Cons.prems(2) show ?case by simp
qed simp

lemma oid_text_facts:
  "\<forall>x \<in> set ids. oid_id x \<Longrightarrow> length (oid_text ids) \<le> 11 * length ids \<and> (\<forall>c \<in> set (oid_text ids). c \<noteq> 0)"
proof (induction ids rule: print_oid.induct)
  case (2 x)
  then show ?case using id_text(2,3) [of x] digit_nonzero by (auto simp: oid_text_simps(1))
next
  case (3 x y xs)
  then show ?case using id_text(2,3) [of x] digit_nonzero by (auto simp: oid_text_simps(2) dot_no_digit)
qed (simp add: oid_text_def)

lemma decode_oid_string_contents:
  assumes "dbuf_valid b" and "dbuf_rest b = oid_octets (oid_numbers ids) @ rest" and "oid_ok ids"
  shows "\<exists>b'. decode_oid_string junk b (int (length (oid_octets (oid_numbers ids)))) =
    Some (Done (\<lparr>gs_length = int (length (oid_text ids)), gs_data = Some (oid_text ids @ [0])\<rparr>, b'))"
proof -
  obtain b' where d: "decode_oid junk b (int (length (oid_octets (oid_numbers ids)))) = Some (Done (ids, b'))"
    using decode_oid_contents [OF assms] by blast
  have ids: "\<forall>x \<in> set ids. oid_id x" using oid_ok_ids [OF assms(3)] .
  have "length ids \<le> 50" using assms(3) by (auto elim: oid_okE)
  then have len: "length (concat (print_oid ids)) \<le> dbuf_capacity"
    using oid_text_facts [OF ids] by (simp add: oid_text_def dbuf_capacity_def)
  have "dbuf_at 0 NewDbuf" by (simp add: dbuf_at_def)
  then have "dbuf_at 0 (foldl put_chunk NewDbuf (print_oid ids))" "dbuf_octets (foldl put_chunk NewDbuf (print_oid ids)) = oid_text ids"
    using put_chunks [of 0 NewDbuf "print_oid ids"] len by (simp_all add: oid_text_def)
  then have "dbuf_string (foldl put_chunk NewDbuf (print_oid ids)) = Done \<lparr>gs_length = int (length (oid_text ids)), gs_data = Some (oid_text ids @ [0])\<rparr>"
    using dbuf_string_of oid_text_facts [OF ids] by (simp add: dbuf_at_def)
  then show ?thesis using d by (simp add: decode_oid_string_def)
qed

section \<open>A number that is cut off\<close>

text \<open>A call that returns has read at least one octet, the last one of them without the high bit.\<close>

definition oid_stop :: "dbuf option \<Rightarrow> int \<Rightarrow> int \<times> int \<times> octet \<times> dbuf option \<Rightarrow> bool" where
  "oid_stop b i y \<longleftrightarrow> (case y of (t, i', c, b') \<Rightarrow>
     \<exists>k < length (dbuf_rest b). \<not> high_bit_set (dbuf_rest b ! k) \<and> i' = i + int (Suc k)
       \<and> dbuf_valid b' \<and> dbuf_rest b' = drop (Suc k) (dbuf_rest b))"

lemma oid_number_ends:
  assumes "oid_number b oc t i = Some y" and "dbuf_valid b" and "dbuf_rest b = [] \<longrightarrow> high_bit_set oc"
  shows "oid_stop b i y"
proof -
  have "dbuf_valid b \<longrightarrow> (dbuf_rest b = [] \<longrightarrow> high_bit_set oc) \<longrightarrow> oid_stop b i y"
  proof (rule oid_number.raw_induct [OF _ assms(1), where P = "\<lambda>b oc t i y. dbuf_valid b \<longrightarrow> (dbuf_rest b = [] \<longrightarrow> high_bit_set oc) \<longrightarrow> oid_stop b i y"], intro impI)
    fix f b oc t i y
    assume IH: "\<And>b oc t i y. f b oc t i = Some y \<Longrightarrow> dbuf_valid b \<longrightarrow> (dbuf_rest b = [] \<longrightarrow> high_bit_set oc) \<longrightarrow> oid_stop b i y"
      and body: "(let (r, oc', buf1) = get_one b oc; t' = c_int (c_int (t * 128) + uint (oc' AND 127))
        in if high_bit_set oc' then f buf1 oc' t' (i + 1) else Some (t', i + 1, oc', buf1)) = Some y"
      and v: "dbuf_valid b" and oc: "dbuf_rest b = [] \<longrightarrow> high_bit_set oc"
    show "oid_stop b i y"
    proof (cases "dbuf_rest b")
      case Nil
      obtain b1 where "get_one b oc = (0, oc, b1)" "dbuf_valid b1" "dbuf_rest b1 = []"
        using get_one_Nil [OF v Nil, of oc] by blast
      then show ?thesis using body oc Nil IH [of b1 oc _ "i + 1" y] by (auto simp: oid_stop_def)
    next
      case (Cons c cs)
      obtain b1 where b1: "get_one b oc = (1, c, b1)" "dbuf_valid b1" "dbuf_rest b1 = cs"
        using get_one_Cons [OF v Cons, of oc] by blast
      show ?thesis
      proof (cases "high_bit_set c")
        case True
        then have "f b1 c (c_int (c_int (t * 128) + uint (c AND 127))) (i + 1) = Some y" using body b1(1) by simp
        then have "oid_stop b1 (i + 1) y" using IH b1(2) True by blast
        then show ?thesis using Cons b1(3) by (fastforce simp: oid_stop_def)
      next
        case False
        then have "y = (c_int (c_int (t * 128) + uint (c AND 127)), i + 1, c, b1)" using body b1(1) by simp
        then show ?thesis using Cons False b1 by (auto simp: oid_stop_def)
      qed
    qed
  qed
  then show ?thesis using assms(2,3) by blast
qed

definition cut_off :: "dbuf option \<Rightarrow> bool" where
  "cut_off b \<longleftrightarrow> dbuf_valid b \<and> dbuf_rest b \<noteq> [] \<and> high_bit_set (last (dbuf_rest b))"

lemma cut_off_stays:
  assumes "cut_off b" and "oid_stop b i (t, i', c, b')"
  shows "cut_off b'" and "length (dbuf_rest b') < length (dbuf_rest b)" and "i' + int (length (dbuf_rest b')) = i + int (length (dbuf_rest b))"
proof -
  obtain k where k: "k < length (dbuf_rest b)" "\<not> high_bit_set (dbuf_rest b ! k)" "i' = i + int (Suc k)"
    "dbuf_valid b'" "dbuf_rest b' = drop (Suc k) (dbuf_rest b)" using assms(2) by (auto simp: oid_stop_def)
  have "Suc k \<noteq> length (dbuf_rest b)" using k(2) assms(1) by (metis cut_off_def last_conv_nth diff_Suc_1)
  then have l: "Suc k < length (dbuf_rest b)" using k(1) by simp
  show "cut_off b'" using k(4,5) l assms(1) by (simp add: cut_off_def)
  show "length (dbuf_rest b') < length (dbuf_rest b)" "i' + int (length (dbuf_rest b')) = i + int (length (dbuf_rest b))"
    using k(3,5) l by simp_all
qed

definition endless :: "dbuf option \<Rightarrow> int \<Rightarrow> int \<Rightarrow> int list \<Rightarrow> bool" where
  "endless b len i ids \<longleftrightarrow> cut_off b \<and> i + int (length (dbuf_rest b)) \<le> len \<and> length ids + length (dbuf_rest b) \<le> 50 \<and> (ids = [] \<longrightarrow> length (dbuf_rest b) < 50)"

lemma decode_oid_loop_cut_off:
  assumes "decode_oid_loop b oc len i ids = Some y"
  shows "\<not> endless b len i ids"
proof (rule decode_oid_loop.raw_induct [OF _ assms, where P = "\<lambda>b oc len i ids y.
    \<not> endless b len i ids"])
  fix f b oc len i ids y
  assume IH: "\<And>b oc len i ids y. f b oc len i ids = Some y \<Longrightarrow>
      \<not> endless b len i ids"
    and body: "(if i < len then Option.bind (oid_number b oc 0 i) (\<lambda>(t, i', oc', buf1).
        if ids = [] then f buf1 oc' len i' [c_quot t 40, c_rem t 40]
        else if 50 \<le> length ids then Some Crash else f buf1 oc' len i' (ids @ [t]))
      else Some (Done (ids, b))) = Some y"
  show "\<not> endless b len i ids"
  proof
    assume "endless b len i ids"
    then have a: "cut_off b \<and> i + int (length (dbuf_rest b)) \<le> len \<and> length ids + length (dbuf_rest b) \<le> 50 \<and> (ids = [] \<longrightarrow> length (dbuf_rest b) < 50)"
      unfolding endless_def .
    then have ne: "0 < length (dbuf_rest b)" by (simp add: cut_off_def)
    then have "i < len" using a by linarith
    then obtain t i' c b' where n: "oid_number b oc 0 i = Some (t, i', c, b')"
      and rec: "(if ids = [] then f b' c len i' [c_quot t 40, c_rem t 40]
        else if 50 \<le> length ids then Some Crash else f b' c len i' (ids @ [t])) = Some y"
      using body by (cases "oid_number b oc 0 i") auto
    have "oid_stop b i (t, i', c, b')" using oid_number_ends [OF n] a ne by (simp add: cut_off_def)
    then have b': "cut_off b'" "length (dbuf_rest b') < length (dbuf_rest b)" "i' + int (length (dbuf_rest b')) = i + int (length (dbuf_rest b))"
      using cut_off_stays a by blast+
    show False
    proof (cases "ids = []")
      case True
      then show False using IH [of b' c len i' "[c_quot t 40, c_rem t 40]" y] rec b' a by (auto simp: endless_def)
    next
      case False
      then have "length ids < 50" using a ne by linarith
      then show False using IH [of b' c len i' "ids @ [t]" y] rec b' a False by (auto simp: endless_def)
    qed
  qed
qed

end
