(* ===== verification/Asn_Tree.thy ===== *)
theory Asn_Tree
  imports Ber_Oid
begin

text \<open>
  The trees of encoded values: \<open>src/zpdu/asn_node.c\<close> (nodes, \<open>Attach\<close>, the lengths and the serialisation of a
  tree), the encoders of \<open>src/zpdu/ber_encode.c\<close> that make leaves, and \<open>GetPDUFromFile\<close> and \<open>GetPDUFromStream\<close> of
  \<open>src/zpdu/ber_decode.c\<close>, which read a tree from a connection.

  A node holds the nodes that are reached from \<open>head\<close> through \<open>next\<close> as a list, and the position in it of the
  node that \<open>tail\<close> points to. The pointer \<open>parent\<close> is written and never read and is left out. A pointer to a
  node that may be null is an optional node.
\<close>

section \<open>Nodes\<close>

datatype asn_node = Asn_node
  (an_type: int) (an_class: int) (an_tagno: int) (an_length: int) (an_dbuf: "dbuf option")
  (an_children: "asn_node list") (an_tail: nat)

definition NewAsnNode :: "int \<Rightarrow> int \<Rightarrow> int \<Rightarrow> asn_node" where
  "NewAsnNode class_var type tagno = Asn_node type class_var tagno 0 NewDbuf [] 0"

text \<open>
  \<open>child\<close> is the node with the siblings that follow it, the empty list for a null pointer. They are linked
  behind the node \<open>tail\<close> points to; what followed that node is no longer reached.
\<close>

definition Attach :: "asn_node option \<Rightarrow> asn_node list \<Rightarrow> asn_node option" where
  "Attach parent child =
     (case parent of
        None \<Rightarrow> None
      | Some (Asn_node ty cl tg len db children tail) \<Rightarrow>
          if child = [] then None
          else if children = [] then Some (Asn_node ty cl tg len db child 0)
          else Some (Asn_node ty cl tg len db (take (Suc tail) children @ child) (Suc tail)))"

section \<open>Lengths and serialisation\<close>

text \<open>The value returned and the tree afterwards; an error leaves the nodes that follow as they were.\<close>

fun length_tree :: "asn_node \<Rightarrow> int \<times> asn_node"
  and length_children :: "int \<Rightarrow> asn_node list \<Rightarrow> bool \<times> int \<times> asn_node list" where
  "length_tree (Asn_node ty cl tg len db children tail) =
     (if ty = 1
      then let (ok, len1, children1) = length_children 0 children
           in if \<not> ok then (- 1, Asn_node ty cl tg len1 db children1 tail)
              else let (r, db1) = PutTAG db cl ty tg
                   in if r \<noteq> Z_OK then (- 1, Asn_node ty cl tg len1 db1 children1 tail)
                      else let (r, db2) = PutLEN db1 len1
                           in if r \<noteq> Z_OK then (- 1, Asn_node ty cl tg len1 db2 children1 tail)
                              else let len2 = c_int (len1 + (case db2 of None \<Rightarrow> 0 | Some d \<Rightarrow> db_size d))
                                   in (len2, Asn_node ty cl tg len2 db2 children1 tail)
      else (len, Asn_node ty cl tg len db children tail))"
| "length_children acc [] = (True, acc, [])"
| "length_children acc (child # children) =
     (let (len, child1) = length_tree child
      in if len < 0 then (False, acc, child1 # children)
         else let (ok, acc1, children1) = length_children (c_int (acc + len)) children
              in (ok, acc1, child1 # children1))"

definition LengthAsnTree :: "asn_node option \<Rightarrow> int \<times> asn_node option" where
  "LengthAsnTree p = (case p of None \<Rightarrow> (0, None) | Some n \<Rightarrow> map_prod id Some (length_tree n))"

text \<open>The variant that also gives the primitive nodes, whose buffers hold contents only, their tags and lengths.\<close>

fun length_tree2 :: "asn_node \<Rightarrow> (int \<times> asn_node) run"
  and length_children2 :: "int \<Rightarrow> asn_node list \<Rightarrow> (bool \<times> int \<times> asn_node list) run" where
  "length_tree2 (Asn_node ty cl tg len db children tail) =
     (if ty = 1
      then run_bind (length_children2 0 children) (\<lambda>(ok, len1, children1).
        if \<not> ok then Done (- 1, Asn_node ty cl tg len1 db children1 tail)
        else let (r, db1) = PutTAG db cl ty tg
             in if r \<noteq> Z_OK then Done (- 1, Asn_node ty cl tg len1 db1 children1 tail)
                else let (r, db2) = PutLEN db1 len1
                     in if r \<noteq> Z_OK then Done (- 1, Asn_node ty cl tg len1 db2 children1 tail)
                        else let len2 = c_int (len1 + (case db2 of None \<Rightarrow> 0 | Some d \<Rightarrow> db_size d))
                             in Done (len2, Asn_node ty cl tg len2 db2 children1 tail))
      else let unchanged = Asn_node ty cl tg len db children tail;
               (r, inBuf1) = PutTAG NewDbuf cl ty tg
           in if r \<noteq> Z_OK then Done (- 1, unchanged)
              else let (r, inBuf2) = PutLEN inBuf1 len
                   in if r \<noteq> Z_OK then Done (- 1, unchanged)
                      else run_bind (deref db) (\<lambda>d.
                        let (r, inBuf3) = db_put inBuf2 (db_data d) (db_size d)
                        in if r \<noteq> db_size d then Done (- 1, unchanged)
                           else run_bind (deref inBuf3) (\<lambda>d3.
                             Done (db_size d3, Asn_node ty cl tg (db_size d3) inBuf3 children tail))))"
| "length_children2 acc [] = Done (True, acc, [])"
| "length_children2 acc (child # children) =
     run_bind (length_tree2 child) (\<lambda>(len, child1).
       if len < 0 then Done (False, acc, child1 # children)
       else run_bind (length_children2 (c_int (acc + len)) children) (\<lambda>(ok, acc1, children1).
         Done (ok, acc1, child1 # children1)))"

definition LengthAsnTree2 :: "asn_node option \<Rightarrow> (int \<times> asn_node option) run" where
  "LengthAsnTree2 p = (case p of None \<Rightarrow> Done (0, None)
     | Some n \<Rightarrow> run_bind (length_tree2 n) (\<lambda>(len, n1). Done (len, Some n1)))"

fun ber_tree :: "asn_node \<Rightarrow> dbuf option \<Rightarrow> (int \<times> dbuf option) run"
  and ber_children :: "asn_node list \<Rightarrow> dbuf option \<Rightarrow> (int \<times> dbuf option) run" where
  "ber_tree (Asn_node ty cl tg len db children tail) dbuf =
     (if dbuf = None then Done (Z_ERROR, dbuf)
      else run_bind (deref db) (\<lambda>d.
        let (r, dbuf1) = db_put dbuf (db_data d) (db_size d)
        in if r \<noteq> db_size d then Done (Z_ERROR, dbuf1)
           else if ty = 1 then ber_children children dbuf1 else Done (Z_OK, dbuf1)))"
| "ber_children [] dbuf = Done (Z_OK, dbuf)"
| "ber_children (child # children) dbuf =
     run_bind (ber_tree child dbuf) (\<lambda>(r, dbuf1).
       if r \<noteq> Z_OK then Done (Z_ERROR, dbuf1) else ber_children children dbuf1)"

definition BerAsnTree :: "asn_node option \<Rightarrow> dbuf option \<Rightarrow> (int \<times> dbuf option) run" where
  "BerAsnTree p dbuf = (case p of None \<Rightarrow> Done (Z_ERROR, dbuf) | Some n \<Rightarrow> ber_tree n dbuf)"

definition SerializeAsnTree :: "asn_node option \<Rightarrow> dbuf option run" where
  "SerializeAsnTree p = (case p of None \<Rightarrow> Done None
     | Some n \<Rightarrow> run_bind (BerAsnTree (Some n) NewDbuf) (\<lambda>(r, buf). Done (if r \<noteq> Z_OK then None else buf)))"

section \<open>Leaves\<close>

text \<open>What all encoders of leaves do with their routine: a null pointer when it fails.\<close>

definition encode_leaf :: "int \<Rightarrow> int \<Rightarrow> (dbuf option \<Rightarrow> (int \<times> dbuf option) run) \<Rightarrow> asn_node option run" where
  "encode_leaf class_var tagno encode =
     (let node = NewAsnNode class_var PRIMITIVE tagno
      in run_bind (encode (an_dbuf node)) (\<lambda>(r, dbuf).
        if r \<noteq> Z_OK then Done None
        else run_bind (deref dbuf) (\<lambda>d.
          Done (Some (Asn_node (an_type node) (an_class node) (an_tagno node) (db_size d) dbuf [] 0)))))"

definition EncodeBoolean :: "int \<Rightarrow> int \<Rightarrow> octet \<Rightarrow> asn_node option run" where
  "EncodeBoolean class_var tagno obj = encode_leaf class_var tagno (\<lambda>b. Done (encode_boolean b class_var tagno obj))"

definition EncodeNull :: "int \<Rightarrow> int \<Rightarrow> asn_node option run" where
  "EncodeNull class_var tagno = encode_leaf class_var tagno (\<lambda>b. Done (encode_null b class_var tagno))"

definition EncodeAny :: "int \<Rightarrow> int \<Rightarrow> gstr option \<Rightarrow> asn_node option run" where
  "EncodeAny class_var tagno obj = encode_leaf class_var tagno (\<lambda>b. encode_generic_string b class_var tagno obj)"

definition EncodeOid :: "(nat \<Rightarrow> octet) \<Rightarrow> int \<Rightarrow> int \<Rightarrow> gstr option \<Rightarrow> asn_node option run" where
  "EncodeOid junk class_var tagno obj = encode_leaf class_var tagno (\<lambda>b. encode_oid junk b class_var tagno obj)"

definition EncodeInteger :: "int \<Rightarrow> int \<Rightarrow> int \<Rightarrow> asn_node option run" where
  "EncodeInteger class_var tagno obj = encode_leaf class_var tagno (\<lambda>b. Done (encode_integer b class_var tagno obj))"

definition EncodeOctetString :: "int \<Rightarrow> int \<Rightarrow> gstr option \<Rightarrow> asn_node option run" where
  "EncodeOctetString class_var tagno ostr = encode_leaf class_var tagno (\<lambda>b. encode_generic_string b class_var tagno ostr)"

definition EncodeNumericString :: "int \<Rightarrow> int \<Rightarrow> gstr option \<Rightarrow> asn_node option run" where
  "EncodeNumericString class_var tagno nstr = encode_leaf class_var tagno (\<lambda>b. encode_generic_string b class_var tagno nstr)"

definition EncodePrintableString :: "int \<Rightarrow> int \<Rightarrow> gstr option \<Rightarrow> asn_node option run" where
  "EncodePrintableString class_var tagno pstr = encode_leaf class_var tagno (\<lambda>b. encode_generic_string b class_var tagno pstr)"

definition EncodeGeneralString :: "int \<Rightarrow> int \<Rightarrow> gstr option \<Rightarrow> asn_node option run" where
  "EncodeGeneralString class_var tagno gstr = encode_leaf class_var tagno (\<lambda>b. encode_generic_string b class_var tagno gstr)"

definition EncodeVisibleString :: "int \<Rightarrow> int \<Rightarrow> gstr option \<Rightarrow> asn_node option run" where
  "EncodeVisibleString class_var tagno vstr = encode_leaf class_var tagno (\<lambda>b. encode_generic_string b class_var tagno vstr)"

definition EncodeIA5String :: "int \<Rightarrow> int \<Rightarrow> gstr option \<Rightarrow> asn_node option run" where
  "EncodeIA5String class_var tagno istr = encode_leaf class_var tagno (\<lambda>b. encode_generic_string b class_var tagno istr)"

definition EncodeUTCTime :: "int \<Rightarrow> int \<Rightarrow> gstr option \<Rightarrow> asn_node option run" where
  "EncodeUTCTime class_var tagno utcTime = encode_leaf class_var tagno (\<lambda>b. encode_generic_string b class_var tagno utcTime)"

definition EncodeGeneralizedType :: "int \<Rightarrow> int \<Rightarrow> gstr option \<Rightarrow> asn_node option run" where
  "EncodeGeneralizedType class_var tagno gtime = encode_leaf class_var tagno (\<lambda>b. encode_generic_string b class_var tagno gtime)"

definition EncodeGeneralizedTime :: "int \<Rightarrow> int \<Rightarrow> gstr option \<Rightarrow> asn_node option run" where
  "EncodeGeneralizedTime class_var tagno gtime = encode_leaf class_var tagno (\<lambda>b. encode_generic_string b class_var tagno gtime)"

definition EncodeObjectDescriptor :: "int \<Rightarrow> int \<Rightarrow> gstr option \<Rightarrow> asn_node option run" where
  "EncodeObjectDescriptor class_var tagno odstr = EncodeOctetString class_var tagno odstr"

definition EncodeBitString :: "int \<Rightarrow> int \<Rightarrow> gstr option \<Rightarrow> asn_node option run" where
  "EncodeBitString class_var tagno bstr =
     (if bstr = None then Done None else encode_leaf class_var tagno (\<lambda>b. encode_bitstr b class_var tagno bstr))"

text \<open>The decoders; the buffer of the node is left at the place behind what was read.\<close>

definition DecodeOctetString :: "asn_node \<Rightarrow> gstr option \<times> dbuf option" where
  "DecodeOctetString node = DecodeGSTR (an_dbuf node) (an_length node)"

definition DecodeVisibleString :: "asn_node \<Rightarrow> gstr option \<times> dbuf option" where
  "DecodeVisibleString node = DecodeGSTR (an_dbuf node) (an_length node)"

definition DecodeGeneralString :: "asn_node \<Rightarrow> gstr option \<times> dbuf option" where
  "DecodeGeneralString node = DecodeGSTR (an_dbuf node) (an_length node)"

definition DecodeGeneralizedTime :: "asn_node \<Rightarrow> gstr option \<times> dbuf option" where
  "DecodeGeneralizedTime node = DecodeGSTR (an_dbuf node) (an_length node)"

definition DecodeObjectDescriptor :: "asn_node \<Rightarrow> gstr option \<times> dbuf option" where
  "DecodeObjectDescriptor node = DecodeGSTR (an_dbuf node) (an_length node)"

definition DecodeNumericString :: "asn_node \<Rightarrow> gstr option \<times> dbuf option" where
  "DecodeNumericString node = DecodeGSTR (an_dbuf node) (an_length node)"

definition DecodeInteger :: "octet \<Rightarrow> asn_node \<Rightarrow> int \<times> dbuf option" where
  "DecodeInteger junk node = decode_integer junk (an_dbuf node) (an_length node)"

definition DecodeBoolean :: "octet \<Rightarrow> asn_node \<Rightarrow> int \<times> dbuf option" where
  "DecodeBoolean junk node = map_prod c_char id (DecodeInteger junk node)"

definition DecodeBitString :: "octet \<Rightarrow> asn_node \<Rightarrow> (gstr \<times> dbuf option) run" where
  "DecodeBitString junk node = decode_bit_string junk (an_dbuf node) (an_length node)"

definition DecodeAny :: "asn_node \<Rightarrow> octet list run" where
  "DecodeAny node = decode_any (an_dbuf node) (an_length node)"

definition DecodeNull :: "asn_node \<Rightarrow> int" where
  "DecodeNull node = 1"

definition DecodeOid :: "octet \<Rightarrow> asn_node \<Rightarrow> (gstr \<times> dbuf option) run option" where
  "DecodeOid junk node = decode_oid_string junk (an_dbuf node) (an_length node)"

section \<open>Reading a tree from a connection\<close>

datatype z_context = Z_CLIENT | Z_SERVER | Z_OTHER

definition WaitForData :: "z_context \<Rightarrow> sock \<Rightarrow> int \<Rightarrow> int \<times> sock" where
  "WaitForData context fd timeoutsecs =
     (if context = Z_CLIENT \<or> context = Z_SERVER
      then let (code, fd1) = TimeOut fd timeoutsecs
           in if code \<le> 0 then (- 1, close_fd fd1) else (code, fd1)
      else (- 1, fd))"

text \<open>
  \<open>GetPDUFromFile\<close> and \<open>GetPDUFromStream\<close> have the same text but for two things: the second one waits for data before
  each part it reads, and takes a constructed value of length 0, which the first one refuses. \<open>pm_wait\<close> and
  \<open>pm_empty_ok\<close> stand for them.

  A call of the routine is \<open>Get_node\<close> with the old value of \<open>*size\<close>, which is written only where the routine
  succeeds or meets end-of-contents octets; \<open>Child_loop\<close> is the loop over the children, with the values of \<open>parent\<close>,
  \<open>len\<close>, \<open>ltmp\<close>, \<open>stmp\<close>, \<open>running_size\<close> and the old \<open>*size\<close>. The result is the node, \<open>*size\<close> and the connection; \<open>None\<close> is a
  call that never returns. What \<open>ReadFromSocket\<close> returns is not looked at: octets that do not arrive are 0.
  For the largest length \<open>calloc\<close> fails, \<open>read\<close> with the null pointer fails with \<open>EFAULT\<close> and \<open>db_put\<close> does nothing.
\<close>

datatype pdu_call = Get_node int | Child_loop asn_node int int int int int

record pdu_mode =
  pm_wait :: "sock \<Rightarrow> bool \<times> sock"
  pm_empty_ok :: bool

datatype child_step = Stop "asn_node option" int | Go_on asn_node int

datatype pdu_start = Finished "asn_node option" int | Open_node asn_node int int int

definition EFAULT :: int where "EFAULT = 14"

definition read_primitive :: "asn_node \<Rightarrow> sock \<Rightarrow> int \<Rightarrow> (asn_node \<times> sock) option" where
  "read_primitive parent fd len =
     (if c_int (len + 1) < 0 then Some (parent, fd\<lparr>errno := EFAULT\<rparr>)
      else Option.bind (ReadFromSocket fd len) (\<lambda>(code, buf, fd1).
        let data = buf @ replicate (nat len - length buf) 0
        in Some (Asn_node (an_type parent) (an_class parent) (an_tagno parent) (an_length parent)
             (snd (db_put (an_dbuf parent) (Some data) len)) (an_children parent) (an_tail parent), fd1)))"

text \<open>
  Everything but the loop over the children: the tag, the length and a primitive value. \<open>Open_node\<close> leaves the children to be read,
  with \<open>parent\<close>, \<open>len\<close>, \<open>stmp\<close> and \<open>running_size\<close>.
\<close>

definition start_pdu :: "pdu_mode \<Rightarrow> sock \<Rightarrow> int \<Rightarrow> (pdu_start \<times> sock) option" where
  "start_pdu mode fd size0 =
     (let (ready, fd) = pm_wait mode fd
      in if \<not> ready then Some (Finished None size0, fd)
         else Option.bind (GetTAGFromStream fd) (\<lambda>(status, class_var, form, tag, stmp, fd).
           if status \<le> 0 then Some (Finished None size0, close_fd fd)
           else if tag = 0 \<and> class_var = 0 \<and> form = 0 then Some (Finished None stmp, fd)
           else let (ready, fd) = pm_wait mode fd
                in if \<not> ready then Some (Finished None size0, fd)
                   else Option.bind (GetLENFromStream fd stmp) (\<lambda>(len, stmp1, fd).
                     let parent = Asn_node form class_var tag len NewDbuf [] 0;
                         running_size = c_int (stmp + stmp1)
                     in if form = PRIMITIVE
                        then if len > 0
                             then let (ready, fd) = pm_wait mode fd
                                  in if \<not> ready then Some (Finished None size0, fd)
                                     else Option.bind (read_primitive parent fd len) (\<lambda>(parent, fd).
                                       Some (Finished (Some parent) (c_int (running_size + len)), fd))
                             else Some (Finished (Some parent) (c_int (running_size + len)), fd)
                        else if len = 0
                        then Some (if pm_empty_ok mode then Finished (Some parent) running_size else Finished None size0, fd)
                        else Some (Open_node parent len stmp1 running_size, fd))))"

text \<open>What the loop does with a child: it ends with a result or goes on with new values of \<open>parent\<close> and \<open>ltmp\<close>.\<close>

definition next_child :: "asn_node \<Rightarrow> int \<Rightarrow> int \<Rightarrow> int \<Rightarrow> int \<Rightarrow> asn_node option \<Rightarrow> int \<Rightarrow> child_step" where
  "next_child parent len ltmp running1 size0 child stmp1 =
     (case child of
        None \<Rightarrow> if stmp1 = 0 then Stop None size0
                else if len < 0 then Stop (Some parent) running1
                else Stop None size0
      | Some c \<Rightarrow>
          let ltmp1 = (if len \<ge> 0 then c_int (ltmp - stmp1) else ltmp)
          in case Attach (Some parent) [c] of
               None \<Rightarrow> Stop None size0
             | Some parent1 \<Rightarrow>
                 if len \<ge> 0 \<and> ltmp1 \<le> 0 then Stop (Some parent1) running1 else Go_on parent1 ltmp1)"

partial_function (option) get_pdu :: "pdu_mode \<Rightarrow> sock \<Rightarrow> pdu_call \<Rightarrow> (asn_node option \<times> int \<times> sock) option" where
  "get_pdu mode fd call =
     (case call of
        Get_node size0 \<Rightarrow>
          Option.bind (start_pdu mode fd size0) (\<lambda>(start, fd1).
            case start of
              Finished node size1 \<Rightarrow> Some (node, size1, fd1)
            | Open_node parent len stmp running_size \<Rightarrow>
                get_pdu mode fd1 (Child_loop parent len len stmp running_size size0))
      | Child_loop parent len ltmp stmp running_size size0 \<Rightarrow>
          Option.bind (get_pdu mode fd (Get_node stmp)) (\<lambda>r.
            let child = fst r; stmp1 = fst (snd r); fd1 = snd (snd r); running1 = c_int (running_size + stmp1)
            in case next_child parent len ltmp running1 size0 child stmp1 of
                 Stop node size1 \<Rightarrow> Some (node, size1, fd1)
               | Go_on parent1 ltmp1 \<Rightarrow>
                   get_pdu mode fd1 (Child_loop parent1 len ltmp1 stmp1 running1 size0)))"

definition file_mode :: pdu_mode where
  "file_mode = \<lparr>pm_wait = \<lambda>s. (True, s), pm_empty_ok = False\<rparr>"

definition GetPDUFromFile :: "sock \<Rightarrow> int \<Rightarrow> (asn_node option \<times> int \<times> sock) option" where
  "GetPDUFromFile fd size0 = get_pdu file_mode fd (Get_node size0)"

definition stream_mode :: "z_context \<Rightarrow> int \<Rightarrow> pdu_mode" where
  "stream_mode context timeoutsecs =
     \<lparr>pm_wait = \<lambda>fd. (let (code, fd1) = WaitForData context fd timeoutsecs in (code > 0, fd1)), pm_empty_ok = True\<rparr>"

definition GetPDUFromStream :: "z_context \<Rightarrow> sock \<Rightarrow> int \<Rightarrow> int \<Rightarrow> (asn_node option \<times> int \<times> sock) option" where
  "GetPDUFromStream context fd size0 timeoutsecs = get_pdu (stream_mode context timeoutsecs) fd (Get_node size0)"

section \<open>Values as trees\<close>

text \<open>The values a tree of nodes stands for, and their octets.\<close>

datatype ber = Ber_prim int int "octet list" | Ber_cons int int "ber list"

fun ber_octets :: "ber \<Rightarrow> octet list" where
  "ber_octets (Ber_prim c t cs) = tlv c 0 t cs"
| "ber_octets (Ber_cons c t bs) = tlv c 1 t (concat (map ber_octets bs))"

fun ber_ok :: "ber \<Rightarrow> bool" where
  "ber_ok (Ber_prim c t cs) \<longleftrightarrow> tag_ok c 0 t \<and> \<not> (c = 0 \<and> t = 0)"
| "ber_ok (Ber_cons c t bs) \<longleftrightarrow> tag_ok c 1 t \<and> bs \<noteq> [] \<and> (\<forall>b \<in> set bs. ber_ok b)"

text \<open>
  A tree as the encoders build it: leaves hold their tag, length and contents, the buffers of the other nodes are
  empty. A tree as it is read: leaves hold their contents.
\<close>

inductive represents :: "asn_node \<Rightarrow> ber \<Rightarrow> bool" where
  rep_prim: "dbuf_at 0 db \<Longrightarrow> dbuf_octets db = tlv c 0 t cs \<Longrightarrow> len = int (length (tlv c 0 t cs)) \<Longrightarrow>
    represents (Asn_node 0 c t len db [] tp) (Ber_prim c t cs)"
| rep_cons: "dbuf_at 0 db \<Longrightarrow> dbuf_octets db = [] \<Longrightarrow> list_all2 represents ns bs \<Longrightarrow>
    represents (Asn_node 1 c t len db ns tp) (Ber_cons c t bs)"

inductive decoded :: "asn_node \<Rightarrow> ber \<Rightarrow> bool" where
  dec_prim: "dbuf_at 0 db \<Longrightarrow> dbuf_octets db = cs \<Longrightarrow> decoded (Asn_node 0 c t (int (length cs)) db [] tp) (Ber_prim c t cs)"
| dec_cons: "list_all2 decoded ns bs \<Longrightarrow>
    decoded (Asn_node 1 c t (int (length (concat (map ber_octets bs)))) db ns tp) (Ber_cons c t bs)"

inductive_cases decoded_primE: "decoded n (Ber_prim c t cs)"
inductive_cases decoded_consE: "decoded n (Ber_cons c t bs)"

section \<open>Writing a tree\<close>

lemma dbuf_atE:
  assumes "dbuf_at k b"
  obtains d where "b = Some d" "db_data d = Some (dbuf_octets b)" "db_size d = int (length (dbuf_octets b))"
proof -
  have "dbuf_valid b" using assms by (simp add: dbuf_at_def)
  then obtain d cs where "b = Some d" "db_data d = Some cs" "db_size d = int (length cs)" by (rule dbuf_validE)
  then show ?thesis using that by simp
qed

text \<open>\<open>BerAsnTree\<close> appends given octets to a buffer with room for them.\<close>

definition writes :: "(dbuf option \<Rightarrow> (int \<times> dbuf option) run) \<Rightarrow> octet list \<Rightarrow> bool" where
  "writes f cs \<longleftrightarrow> (\<forall>k b. dbuf_at k b \<longrightarrow> length (dbuf_octets b) + length cs \<le> dbuf_capacity \<longrightarrow>
     (\<exists>b'. f b = Done (Z_OK, b') \<and> dbuf_at k b' \<and> dbuf_octets b' = dbuf_octets b @ cs))"

lemma writesE:
  assumes "writes f cs" and "dbuf_at k b" and "length (dbuf_octets b) + length cs \<le> dbuf_capacity"
  obtains b' where "f b = Done (Z_OK, b')" "dbuf_at k b'" "dbuf_octets b' = dbuf_octets b @ cs"
  using assms by (auto simp: writes_def)

text \<open>A node whose own buffer holds \<open>hs\<close> and, if it is constructed, whose children write \<open>cs\<close>.\<close>

lemma node_writes:
  assumes "dbuf_at 0 db" and "dbuf_octets db = hs" and "if ty = 1 then writes (ber_children ns) cs else cs = []"
  shows "writes (ber_tree (Asn_node ty c t len db ns tp)) (hs @ cs)"
  unfolding writes_def
proof (intro allI impI)
  fix k b
  assume b: "dbuf_at k b" "length (dbuf_octets b) + length (hs @ cs) \<le> dbuf_capacity"
  obtain d where d: "db = Some d" "db_data d = Some hs" "db_size d = int (length hs)"
    using assms(1,2) by (auto elim: dbuf_atE)
  have nn: "b \<noteq> None" using b(1) by (cases b) (simp_all add: dbuf_at_def)
  obtain b1 where b1: "db_put b (Some hs) (int (length hs)) = (int (length hs), b1)" "dbuf_at k b1" "dbuf_octets b1 = dbuf_octets b @ hs"
    using db_put_at [OF b(1), of hs] b(2) by auto
  have step: "ber_tree (Asn_node ty c t len db ns tp) b = (if ty = 1 then ber_children ns b1 else Done (Z_OK, b1))"
    using d nn b1(1) by auto
  show "\<exists>b'. ber_tree (Asn_node ty c t len db ns tp) b = Done (Z_OK, b') \<and> dbuf_at k b' \<and> dbuf_octets b' = dbuf_octets b @ hs @ cs"
  proof (cases "ty = 1")
    case True
    then have "writes (ber_children ns) cs" using assms(3) by simp
    then obtain b2 where "ber_children ns b1 = Done (Z_OK, b2)" "dbuf_at k b2" "dbuf_octets b2 = dbuf_octets b1 @ cs"
      using b1(2,3) b(2) by (auto elim!: writesE)
    then show ?thesis using step True b1(3) by simp
  next
    case False
    then show ?thesis using step b1 assms(3) by simp
  qed
qed

lemma children_write:
  assumes "writes (ber_tree n) cs" and "writes (ber_children ns) ds"
  shows "writes (ber_children (n # ns)) (cs @ ds)"
  unfolding writes_def
proof (intro allI impI)
  fix k b
  assume b: "dbuf_at k b" "length (dbuf_octets b) + length (cs @ ds) \<le> dbuf_capacity"
  obtain b1 where b1: "ber_tree n b = Done (Z_OK, b1)" "dbuf_at k b1" "dbuf_octets b1 = dbuf_octets b @ cs"
    using writesE [OF assms(1) b(1)] b(2) by auto
  obtain b2 where "ber_children ns b1 = Done (Z_OK, b2)" "dbuf_at k b2" "dbuf_octets b2 = dbuf_octets b1 @ ds"
    using writesE [OF assms(2) b1(2)] b(2) b1(3) by auto
  then show "\<exists>b'. ber_children (n # ns) b = Done (Z_OK, b') \<and> dbuf_at k b' \<and> dbuf_octets b' = dbuf_octets b @ cs @ ds"
    using b1 by simp
qed

lemma no_children_write: "writes (ber_children []) []"
  by (simp add: writes_def)

definition sized :: "asn_node \<Rightarrow> octet list \<Rightarrow> bool" where
  "sized n cs \<longleftrightarrow> (\<exists>n'. length_tree n = (int (length cs), n') \<and> writes (ber_tree n') cs)"

lemma small_is_c_int: "0 \<le> x \<Longrightarrow> x \<le> int dbuf_capacity \<Longrightarrow> is_c_int x"
  by (simp add: dbuf_capacity_def is_c_int_def)

lemma length_children_sized:
  assumes "list_all2 (\<lambda>n b. sized n (ber_octets b)) ns bs" and "0 \<le> acc"
    and "acc + int (length (concat (map ber_octets bs))) \<le> int dbuf_capacity"
  shows "\<exists>ns'. length_children acc ns = (True, acc + int (length (concat (map ber_octets bs))), ns')
    \<and> writes (ber_children ns') (concat (map ber_octets bs))"
  using assms
proof (induction ns bs arbitrary: acc rule: list_all2_induct)
  case Nil
  then show ?case by (simp add: no_children_write)
next
  case (Cons n ns b bs)
  obtain n' where n': "length_tree n = (int (length (ber_octets b)), n')" "writes (ber_tree n') (ber_octets b)"
    using Cons.hyps(1) by (auto simp: sized_def)
  let ?acc = "acc + int (length (ber_octets b))"
  have "is_c_int ?acc" using Cons.prems by (intro small_is_c_int) simp_all
  moreover obtain ns' where "length_children ?acc ns = (True, ?acc + int (length (concat (map ber_octets bs))), ns')"
    "writes (ber_children ns') (concat (map ber_octets bs))" using Cons.IH [of ?acc] Cons.prems by auto
  ultimately show ?case using n' children_write by auto
qed

lemma header_node:
  assumes "dbuf_at 0 db" and "dbuf_octets db = []" and "tag_ok c 1 t" and "0 \<le> n" and "n < 2147483648"
  shows "\<exists>db1 db2. PutTAG db c 1 t = (Z_OK, db1) \<and> PutLEN db1 n = (Z_OK, db2) \<and> dbuf_at 0 db2
    \<and> dbuf_octets db2 = tag_octets c 1 t @ len_octets n"
proof -
  obtain db1 where db1: "PutTAG db c 1 t = (Z_OK, db1)" "dbuf_at 0 db1" "dbuf_octets db1 = tag_octets c 1 t"
    using PutTAG_writes [OF assms(1,3)] assms(2) by (auto simp: dbuf_capacity_def)
  have "length (dbuf_octets db1) + 5 \<le> dbuf_capacity"
    using db1(3) length_tag_octets [of t c 1] assms(3) by (simp add: tag_ok_def dbuf_capacity_def)
  then show ?thesis using PutLEN_writes [OF db1(2) assms(4,5)] db1 by auto
qed

lemma represents_sized:
  "represents n b \<Longrightarrow> ber_ok b \<Longrightarrow> length (ber_octets b) \<le> dbuf_capacity \<Longrightarrow> sized n (ber_octets b)"
proof (induction b arbitrary: n)
  case (Ber_prim c t cs)
  from Ber_prim(1) obtain len db tp where "n = Asn_node 0 c t len db [] tp" "dbuf_at 0 db" "dbuf_octets db = tlv c 0 t cs" "len = int (length (tlv c 0 t cs))"
    by (cases rule: represents.cases) auto
  then show ?case using node_writes [of db "tlv c 0 t cs" 0 "[]" "[]"] by (simp add: sized_def)
next
  case (Ber_cons c t bs)
  from Ber_cons(2) obtain len db ns tp where n: "n = Asn_node 1 c t len db ns tp" "dbuf_at 0 db" "dbuf_octets db = []" "list_all2 represents ns bs"
    by (cases rule: represents.cases) auto
  let ?cs = "concat (map ber_octets bs)"
  have tot: "length (ber_octets (Ber_cons c t bs)) = length (tag_octets c 1 t) + length (len_octets (int (length ?cs))) + length ?cs"
    by (simp add: tlv_def)
  have part: "length (ber_octets b) \<le> dbuf_capacity" if "b \<in> set bs" for b
  proof -
    have "length (ber_octets b) \<le> length ?cs" using that by (auto simp: length_concat sum_list_map_remove1 o_def intro: member_le_sum_list)
    then show ?thesis using Ber_cons.prems(3) tot by simp
  qed
  have "list_all2 (\<lambda>n b. sized n (ber_octets b)) ns bs"
    using n(4) Ber_cons.IH Ber_cons.prems(2) part by (auto simp: list_all2_conv_all_nth all_set_conv_all_nth)
  then obtain ns' where ns': "length_children 0 ns = (True, int (length ?cs), ns')" "writes (ber_children ns') ?cs"
    using length_children_sized [of ns bs 0] Ber_cons.prems(3) tot by auto
  have small: "int (length ?cs) < 2147483648" using Ber_cons.prems(3) tot by (simp add: dbuf_capacity_def)
  have tag: "tag_ok c 1 t" using Ber_cons.prems(2) by simp
  obtain db1 db2 where put: "PutTAG db c 1 t = (Z_OK, db1)" "PutLEN db1 (int (length ?cs)) = (Z_OK, db2)"
      "dbuf_at 0 db2" "dbuf_octets db2 = tag_octets c 1 t @ len_octets (int (length ?cs))"
    using header_node [OF n(2,3) tag _ small] by auto
  from put(3) obtain d where "db2 = Some d" "db_data d = Some (dbuf_octets db2)" "db_size d = int (length (dbuf_octets db2))"
    by (rule dbuf_atE)
  then have d: "db2 = Some d" "db_size d = int (length (tag_octets c 1 t @ len_octets (int (length ?cs))))" using put(4) by simp_all
  have "is_c_int (int (length ?cs) + db_size d)" using Ber_cons.prems(3) tot d(2) by (intro small_is_c_int) simp_all
  then have "length_tree n = (int (length (ber_octets (Ber_cons c t bs))), Asn_node 1 c t (int (length ?cs) + db_size d) db2 ns' tp)"
    using n(1) ns'(1) put(1,2) d tot by (simp add: Let_def)
  moreover have "writes (ber_tree (Asn_node 1 c t (int (length ?cs) + db_size d) db2 ns' tp)) (ber_octets (Ber_cons c t bs))"
    using node_writes [OF put(3,4), of 1 ns' ?cs] ns'(2) by (simp add: tlv_def)
  ultimately show ?case by (auto simp: sized_def)
qed

text \<open>What is sent for a tree of nodes: its octets.\<close>

lemma serialize_writes:
  assumes "represents n b" and "ber_ok b" and "length (ber_octets b) \<le> dbuf_capacity"
  shows "\<exists>n' buf. LengthAsnTree (Some n) = (int (length (ber_octets b)), Some n')
    \<and> SerializeAsnTree (Some n') = Done buf \<and> dbuf_at 0 buf \<and> dbuf_octets buf = ber_octets b"
proof -
  obtain n' where n': "length_tree n = (int (length (ber_octets b)), n')" "writes (ber_tree n') (ber_octets b)"
    using represents_sized [OF assms] by (auto simp: sized_def)
  have "dbuf_at 0 NewDbuf" by (simp add: dbuf_at_def)
  then obtain buf where "ber_tree n' NewDbuf = Done (Z_OK, buf)" "dbuf_at 0 buf" "dbuf_octets buf = ber_octets b"
    using writesE [OF n'(2), of 0 NewDbuf] assms(3) by auto
  then show ?thesis using n'(1) by (simp add: LengthAsnTree_def SerializeAsnTree_def BerAsnTree_def)
qed

section \<open>Reading a tree\<close>

text \<open>
  Reading consumes data only: what \<open>select\<close> is going to report and whether the connection is open stay, and a peer that is
  going to be silent still is.
\<close>

definition keeps :: "sock \<Rightarrow> sock \<Rightarrow> bool" where
  "keeps s s' \<longleftrightarrow> selects s' = selects s \<and> is_open s' = is_open s \<and> (goes_silent (incoming s) \<longrightarrow> goes_silent (incoming s'))"

lemma keeps_trans: "keeps s s1 \<Longrightarrow> keeps s1 s2 \<Longrightarrow> keeps s s2"
  by (simp add: keeps_def)

lemma keeps_refl [simp]: "keeps s s"
  by (simp add: keeps_def)

lemma sys_read_keeps: "sys_read s n = Some (r, cs, s') \<Longrightarrow> keeps s s'"
proof (cases "incoming s")
  case (Cons e es)
  then show "sys_read s n = Some (r, cs, s') \<Longrightarrow> keeps s s'"
  proof (cases e)
    case (Data ds)
    then show "sys_read s n = Some (r, cs, s') \<Longrightarrow> keeps s s'"
      using Cons by (cases ds; cases "drop (nat n) ds") (auto simp: sys_read_def keeps_def split: if_splits)
  qed (auto simp: sys_read_def keeps_def split: if_splits)
qed (auto simp: sys_read_def keeps_def split: if_splits)

lemma read_loop_keeps:
  assumes "read_loop s all n buf = Some y" shows "keeps s (snd (snd y))"
proof (rule read_loop.raw_induct [OF _ assms, where P = "\<lambda>s all n buf y. keeps s (snd (snd y))"])
  fix loop s all n buf y
  assume ih: "\<And>s all n buf y. loop s all n buf = Some y \<Longrightarrow> keeps s (snd (snd y))"
    and step: "(if 0 < n then Option.bind (sys_read s n) (\<lambda>(nbytesRead, cs, s').
        if nbytesRead \<le> 0 then if errno s' = EINTR then loop s' all n buf else Some (nbytesRead, buf, s')
           else loop s' all (n - nbytesRead) (buf @ cs))
      else Some (all - n, buf, s)) = Some y"
  show "keeps s (snd (snd y))"
    using step by (auto simp: bind_eq_Some_conv split: if_splits dest!: ih sys_read_keeps intro: keeps_trans)
qed

lemma ReadFromSocket_keeps: "ReadFromSocket s n = Some (r, cs, s') \<Longrightarrow> keeps s s'"
  using read_loop_keeps by (fastforce simp: ReadFromSocket_def)

lemma read_octet_keeps: "read_octet s = Some (r, c, s') \<Longrightarrow> keeps s s'"
  by (auto simp: read_octet_def bind_eq_Some_conv dest: ReadFromSocket_keeps)

lemma long_tag_keeps:
  assumes "long_tag read_octet s t n = Some y" shows "keeps s (snd (snd (snd y)))"
proof -
  have "read_octet = read_octet \<longrightarrow> keeps s (snd (snd (snd y)))"
  proof (rule long_tag.raw_induct [OF _ assms, where P = "\<lambda>get s t n y. get = read_octet \<longrightarrow> keeps s (snd (snd (snd y)))"], rule impI)
    fix lt get s t n y
    assume ih: "\<And>get s t n y. lt get s t n = Some y \<Longrightarrow> get = read_octet \<longrightarrow> keeps s (snd (snd (snd y)))"
      and step: "Option.bind (get s) (\<lambda>(code, ch, s').
         if code \<noteq> 1 then Some (code, t, n, s')
         else if uint ch < 128 then Some (1, c_int (c_int (t * 128) + uint ch), n + 1, s')
         else lt get s' (c_int (c_int (t * 128) + uint (ch AND 127))) (n + 1)) = Some y"
      and get: "get = read_octet"
    show "keeps s (snd (snd (snd y)))"
      using step get by (auto simp: bind_eq_Some_conv split: if_splits dest!: read_octet_keeps ih intro: keeps_trans)
  qed
  then show ?thesis by simp
qed

lemma long_len_keeps: "long_len read_octet s k n = Some (r, v, s') \<Longrightarrow> keeps s s'"
  by (induction k arbitrary: s n) (auto simp: bind_eq_Some_conv split: if_splits dest!: read_octet_keeps intro: keeps_trans)

lemma GetTAGFromStream_keeps: "GetTAGFromStream s = Some (st, c, f, t, n, s') \<Longrightarrow> keeps s s'"
  by (auto simp: GetTAGFromStream_def bind_eq_Some_conv Let_def split: if_splits
      dest!: read_octet_keeps long_tag_keeps intro: keeps_trans)

lemma GetLENFromStream_keeps: "GetLENFromStream s z = Some (n, k, s') \<Longrightarrow> keeps s s'"
  by (auto simp: GetLENFromStream_def bind_eq_Some_conv Let_def split: if_splits
      dest!: read_octet_keeps long_len_keeps intro: keeps_trans)

lemma ReadFromSocket_reads:
  assumes "sock_valid s" and "sock_octets s = cs @ rest" and "cs \<noteq> []"
  shows "\<exists>s'. ReadFromSocket s (int (length cs)) = Some (int (length cs), cs, s') \<and> sock_valid s' \<and> sock_octets s' = rest"
proof -
  have op: "is_open s" using assms(2,3) by (simp add: sock_octets_def split: if_splits)
  have ev: "event_octets (incoming s) = cs @ rest" using assms(2) op by (simp add: sock_octets_def)
  show ?thesis using read_loop_serves [OF op, of True "length cs" "int (length cs)" "[]"] assms(1) op ev
    by (auto simp: ReadFromSocket_def sock_valid_def sock_octets_def)
qed

lemma read_primitive_reads:
  assumes "sock_valid s" and "sock_octets s = cs @ rest" and "cs \<noteq> []" and "length cs \<le> dbuf_capacity"
  shows "\<exists>db s'. read_primitive (Asn_node 0 c t len NewDbuf [] 0) s (int (length cs)) = Some (Asn_node 0 c t len db [] 0, s')
    \<and> dbuf_at 0 db \<and> dbuf_octets db = cs
    \<and> sock_valid s' \<and> sock_octets s' = rest \<and> keeps s s'"
proof -
  obtain s' where s': "ReadFromSocket s (int (length cs)) = Some (int (length cs), cs, s')" "sock_valid s'" "sock_octets s' = rest"
    using ReadFromSocket_reads [OF assms(1-3)] by blast
  have "dbuf_at 0 NewDbuf" by (simp add: dbuf_at_def)
  then obtain b where "db_put NewDbuf (Some cs) (int (length cs)) = (int (length cs), b)" "dbuf_at 0 b" "dbuf_octets b = cs"
    using db_put_at [of 0 NewDbuf cs] assms(4) by auto
  moreover have "is_c_int (int (length cs) + 1)" using assms(4) by (simp add: dbuf_capacity_def is_c_int_def)
  then have "\<not> c_int (int (length cs) + 1) < 0" by simp
  ultimately show ?thesis using s' ReadFromSocket_keeps [OF s'(1)] by (simp add: read_primitive_def)
qed

lemma tag_octets_nonempty: "tag_octets c f t \<noteq> []"
  by (simp add: tag_octets_def)

lemma len_octets_nonempty: "len_octets n \<noteq> []"
  by (simp add: len_octets_def Let_def)

lemma not_silent: "sock_octets s \<noteq> [] \<Longrightarrow> \<not> silent_now s"
  by (auto simp: silent_now_def sock_octets_def split: if_splits)

text \<open>
  What the reading relies on: waiting reports data as long as the connection is \<open>ready\<close> and not silent, and neither waiting nor
  reading changes that.
\<close>

locale waiting_mode =
  fixes mode :: pdu_mode and ready :: "sock \<Rightarrow> bool"
  assumes wait_ok: "ready s \<Longrightarrow> \<not> silent_now s \<Longrightarrow> \<exists>s'. pm_wait mode s = (True, s') \<and> ready s' \<and> (sock_valid s \<longrightarrow> sock_valid s')
      \<and> sock_octets s' = sock_octets s \<and> incoming s' = incoming s"
    and ready_kept: "ready s \<Longrightarrow> keeps s s' \<Longrightarrow> ready s'"
begin

definition reads :: "ber \<Rightarrow> bool" where
  "reads b \<longleftrightarrow> (\<forall>s rest z. sock_valid s \<longrightarrow> ready s \<longrightarrow> sock_octets s = ber_octets b @ rest \<longrightarrow>
     (\<exists>n s'. get_pdu mode s (Get_node z) = Some (Some n, int (length (ber_octets b)), s') \<and> decoded n b
       \<and> sock_valid s' \<and> ready s' \<and> sock_octets s' = rest))"

lemma readsE:
  assumes "reads b" and "sock_valid s" and "ready s" and "sock_octets s = ber_octets b @ rest"
  obtains n s' where "get_pdu mode s (Get_node z) = Some (Some n, int (length (ber_octets b)), s')" "decoded n b"
    "sock_valid s'" "ready s'" "sock_octets s' = rest"
  using assms unfolding reads_def by blast

lemma header_reads:
  assumes "sock_valid s" and "ready s" and "sock_octets s = tag_octets c f t @ len_octets n @ rest"
    and "tag_ok c f t" and "\<not> (c = 0 \<and> f = 0 \<and> t = 0)" and "0 \<le> n" and "n < 2147483648"
  shows "\<exists>w s1 w1 s2. pm_wait mode s = (True, w)
    \<and> GetTAGFromStream w = Some (1, c, f, t, int (length (tag_octets c f t)), s1) \<and> pm_wait mode s1 = (True, w1)
    \<and> GetLENFromStream w1 z = Some (n, int (length (len_octets n)), s2)
    \<and> sock_valid s2 \<and> ready s2 \<and> sock_octets s2 = rest \<and> (goes_silent (incoming s) \<longrightarrow> goes_silent (incoming s2))"
proof -
  obtain w where w: "pm_wait mode s = (True, w)" "ready w" "sock_valid w" "sock_octets w = sock_octets s" "incoming w = incoming s"
    using wait_ok [OF assms(2) not_silent] assms(1,3) tag_octets_nonempty by fastforce
  obtain s1 where s1: "GetTAGFromStream w = Some (1, c, f, t, int (length (tag_octets c f t)), s1)" "sock_valid s1" "sock_octets s1 = len_octets n @ rest"
    using GetTAGFromStream_reads [OF w(3) _ assms(4,5), of "len_octets n @ rest"] w(4) assms(3) by auto
  have k1: "keeps w s1" using GetTAGFromStream_keeps [OF s1(1)] .
  have "ready s1" using ready_kept [OF w(2) k1] .
  then obtain w1 where w1: "pm_wait mode s1 = (True, w1)" "ready w1" "sock_valid w1" "sock_octets w1 = sock_octets s1" "incoming w1 = incoming s1"
    using wait_ok [OF _ not_silent, of s1] s1(2,3) len_octets_nonempty by fastforce
  obtain s2 where s2: "GetLENFromStream w1 z = Some (n, int (length (len_octets n)), s2)" "sock_valid s2" "sock_octets s2 = rest"
    using GetLENFromStream_reads [OF w1(3) _ assms(6,7), of rest] w1(4) s1(3) by auto
  have k2: "keeps w1 s2" using GetLENFromStream_keeps [OF s2(1)] .
  have "goes_silent (incoming s) \<longrightarrow> goes_silent (incoming s2)" using k1 k2 w(5) w1(5) by (simp add: keeps_def)
  then show ?thesis using w(1) s1(1) w1(1) s2 ready_kept [OF w1(2) k2] by blast
qed

end

context waiting_mode
begin

lemma get_node_finished:
  "start_pdu mode s z = Some (Finished n k, s') \<Longrightarrow> get_pdu mode s (Get_node z) = Some (n, k, s')"
  by (subst get_pdu.simps) simp

lemma prim_reads:
  assumes "ber_ok (Ber_prim c t cs)" and "length (ber_octets (Ber_prim c t cs)) \<le> dbuf_capacity"
  shows "reads (Ber_prim c t cs)"
  unfolding reads_def
proof (intro allI impI)
  fix s rest z
  assume s: "sock_valid s" "ready s" "sock_octets s = ber_octets (Ber_prim c t cs) @ rest"
  let ?h = "int (length (tag_octets c 0 t)) + int (length (len_octets (int (length cs))))"
  have tag: "tag_ok c 0 t" "\<not> (c = 0 \<and> (0 :: int) = 0 \<and> t = 0)" using assms(1) by simp_all
  have len: "length cs \<le> dbuf_capacity" "int (length cs) < 2147483648" using assms(2) by (simp_all add: tlv_def dbuf_capacity_def)
  have sizes: "c_int ?h = ?h" "c_int (?h + int (length cs)) = ?h + int (length cs)"
    using assms(2) by (auto intro!: c_int_id small_is_c_int simp: tlv_def)
  obtain w s1 w1 s2 where h: "pm_wait mode s = (True, w)"
      "GetTAGFromStream w = Some (1, c, 0, t, int (length (tag_octets c 0 t)), s1)" "pm_wait mode s1 = (True, w1)"
      "GetLENFromStream w1 (int (length (tag_octets c 0 t))) = Some (int (length cs), int (length (len_octets (int (length cs)))), s2)"
      "sock_valid s2" "ready s2" "sock_octets s2 = cs @ rest"
    using header_reads [OF s(1,2) _ tag _ len(2), of "cs @ rest" "int (length (tag_octets c 0 t))"] s(3) by (auto simp: tlv_def)
  have nz: "\<not> (t = 0 \<and> c = 0)" using assms(1) by auto
  show "\<exists>n s'. get_pdu mode s (Get_node z) = Some (Some n, int (length (ber_octets (Ber_prim c t cs))), s')
      \<and> decoded n (Ber_prim c t cs) \<and> sock_valid s' \<and> ready s' \<and> sock_octets s' = rest"
  proof (cases "cs = []")
    case True
    have "start_pdu mode s z = Some (Finished (Some (Asn_node 0 c t 0 NewDbuf [] 0)) (?h + int (length cs)), s2)"
      using h nz sizes True by (simp add: start_pdu_def PRIMITIVE_def)
    moreover have "decoded (Asn_node 0 c t 0 NewDbuf [] 0) (Ber_prim c t cs)"
      using dec_prim [of NewDbuf "[]" c t 0] True by (simp add: dbuf_at_def)
    ultimately show ?thesis using get_node_finished h(5-7) True by (auto simp: tlv_def)
  next
    case False
    obtain w2 where w2: "pm_wait mode s2 = (True, w2)" "ready w2" "sock_valid w2" "sock_octets w2 = cs @ rest"
      using wait_ok [OF h(6) not_silent] h(5,7) False by auto
    let ?n = "Asn_node 0 c t (int (length cs))"
    obtain db s' where n: "read_primitive (?n NewDbuf [] 0) w2 (int (length cs)) = Some (?n db [] 0, s')"
        "dbuf_at 0 db" "dbuf_octets db = cs" "sock_valid s'" "sock_octets s' = rest" "keeps w2 s'"
      using read_primitive_reads [OF w2(3,4) False len(1)] by blast
    have "start_pdu mode s z = Some (Finished (Some (?n db [] 0)) (?h + int (length cs)), s')"
      using h nz sizes False w2(1) n(1) by (simp add: start_pdu_def PRIMITIVE_def)
    moreover have "decoded (?n db [] 0) (Ber_prim c t cs)" using dec_prim [OF n(2,3)] .
    ultimately show ?thesis using get_node_finished n(4,5) ready_kept [OF w2(2) n(6)] by (auto simp: tlv_def)
  qed
qed

text \<open>A parent whose children are in place; \<open>Attach\<close> adds one at the end.\<close>

definition open_parent :: "asn_node \<Rightarrow> int \<Rightarrow> int \<Rightarrow> int \<Rightarrow> asn_node list \<Rightarrow> bool" where
  "open_parent p c t len ns \<longleftrightarrow> (\<exists>db. p = Asn_node 1 c t len db ns (length ns - 1))"

lemma attach_last:
  assumes "open_parent p c t len ns" shows "\<exists>p'. Attach (Some p) [n] = Some p' \<and> open_parent p' c t len (ns @ [n])"
  using assms by (cases ns) (auto simp: open_parent_def Attach_def)

lemma loop_reads:
  assumes "\<forall>b \<in> set bs. reads b \<and> ber_octets b \<noteq> []" and "bs \<noteq> []" and "list_all2 decoded ns ds" and "open_parent p c t len ns"
    and "sock_valid s" and "ready s" and "sock_octets s = concat (map ber_octets bs) @ rest" and "0 \<le> len" and "0 \<le> running"
    and "ltmp = int (length (concat (map ber_octets bs)))" and "running + ltmp \<le> int dbuf_capacity"
  shows "\<exists>ns' p' s'. get_pdu mode s (Child_loop p len ltmp stmp running z) = Some (Some p', running + ltmp, s')
    \<and> open_parent p' c t len ns' \<and> list_all2 decoded ns' (ds @ bs) \<and> sock_valid s' \<and> ready s' \<and> sock_octets s' = rest"
  using assms
proof (induction bs arbitrary: s ns ds p running ltmp stmp)
  case Nil
  then show ?case by simp
next
  case (Cons b bs)
  let ?r = "concat (map ber_octets bs)" and ?k = "int (length (ber_octets b))"
  obtain n s1 where n: "get_pdu mode s (Get_node stmp) = Some (Some n, ?k, s1)" "decoded n b" "sock_valid s1" "ready s1" "sock_octets s1 = ?r @ rest"
    using readsE [OF _ Cons.prems(5,6), of b "?r @ rest" stmp] Cons.prems(1,7) by auto
  obtain p1 where p1: "Attach (Some p) [n] = Some p1" "open_parent p1 c t len (ns @ [n])" using attach_last [OF Cons.prems(4)] by blast
  have lt: "ltmp = ?k + int (length ?r)" using Cons.prems(10) by simp
  have ci: "c_int (ltmp - ?k) = int (length ?r)" "c_int (running + ?k) = running + ?k"
    using Cons.prems(9,11) lt by (auto intro!: c_int_id small_is_c_int)
  have dec: "list_all2 decoded (ns @ [n]) (ds @ [b])" using Cons.prems(3) n(2) by (simp add: list_all2_appendI)
  show ?case
  proof (cases "bs = []")
    case True
    then have "get_pdu mode s (Child_loop p len ltmp stmp running z) = Some (Some p1, running + ltmp, s1)"
      using n(1) p1(1) ci lt Cons.prems(8) by (subst get_pdu.simps) (simp add: next_child_def)
    then show ?thesis using p1(2) dec n(3-5) True by auto
  next
    case False
    define m where "m = int (length ?r)"
    have "?r \<noteq> []" using Cons.prems(1) False by (cases bs) simp_all
    then have "\<not> m \<le> 0" unfolding m_def by (simp only: of_nat_le_0_iff length_0_conv not_False_eq_True)
    then have "get_pdu mode s (Child_loop p len ltmp stmp running z) = get_pdu mode s1 (Child_loop p1 len (int (length ?r)) ?k (running + ?k) z)"
      using n(1) p1(1) ci Cons.prems(8) unfolding m_def [symmetric] by (subst get_pdu.simps) (simp add: next_child_def Let_def)
    moreover have "\<exists>ns' p' s'. get_pdu mode s1 (Child_loop p1 len (int (length ?r)) ?k (running + ?k) z) = Some (Some p', running + ?k + int (length ?r), s')
        \<and> open_parent p' c t len ns' \<and> list_all2 decoded ns' ((ds @ [b]) @ bs) \<and> sock_valid s' \<and> ready s' \<and> sock_octets s' = rest"
      using Cons.prems n p1(2) dec False lt by (intro Cons.IH) auto
    ultimately show ?thesis using lt by (simp add: add.assoc)
  qed
qed

end

lemma ber_octets_nonempty: "ber_octets b \<noteq> []"
  by (cases b) (simp_all add: tlv_def tag_octets_nonempty)

lemma part_length: "b \<in> set bs \<Longrightarrow> length (ber_octets b) \<le> length (concat (map ber_octets bs))"
  by (induction bs) auto

context waiting_mode
begin

lemma open_parent_decoded:
  assumes "open_parent p c t (int (length (concat (map ber_octets bs)))) ns" and "list_all2 decoded ns bs"
  shows "decoded p (Ber_cons c t bs)"
  using assms dec_cons by (auto simp: open_parent_def)

lemma all_read: "ber_ok b \<Longrightarrow> length (ber_octets b) \<le> dbuf_capacity \<Longrightarrow> reads b"
proof (induction b)
  case (Ber_prim c t cs)
  then show ?case by (rule prim_reads)
next
  case (Ber_cons c t bs)
  let ?cs = "concat (map ber_octets bs)"
  have sub: "\<forall>b \<in> set bs. reads b \<and> ber_octets b \<noteq> []"
  proof
    fix b
    assume b: "b \<in> set bs"
    have "length (ber_octets b) \<le> dbuf_capacity" using part_length [OF b] Ber_cons.prems(2) by (simp add: tlv_def)
    then show "reads b \<and> ber_octets b \<noteq> []" using Ber_cons.IH [OF b] Ber_cons.prems(1) b ber_octets_nonempty by simp
  qed
  have tag: "tag_ok c 1 t" "\<not> (c = 0 \<and> (1 :: int) = 0 \<and> t = 0)" "bs \<noteq> []" using Ber_cons.prems(1) by simp_all
  let ?h = "int (length (tag_octets c 1 t)) + int (length (len_octets (int (length ?cs))))"
  have len: "int (length ?cs) < 2147483648" "0 \<le> int (length ?cs)" "?h + int (length ?cs) \<le> int dbuf_capacity"
    using Ber_cons.prems(2) by (simp_all add: tlv_def dbuf_capacity_def)
  have ci: "c_int ?h = ?h" using len(3) by (intro c_int_id small_is_c_int) simp_all
  obtain b bs' where bs: "bs = b # bs'" using tag(3) by (cases bs) auto
  have "0 < length (ber_octets b)" using sub bs by simp
  moreover have "length (ber_octets b) \<le> length ?cs" by (rule part_length) (simp add: bs)
  ultimately have nz: "int (length ?cs) \<noteq> 0" by linarith
  show ?case unfolding reads_def
  proof (intro allI impI)
    fix s rest z
    assume s: "sock_valid s" "ready s" "sock_octets s = ber_octets (Ber_cons c t bs) @ rest"
    obtain w s1 w1 s2 where h: "pm_wait mode s = (True, w)"
        "GetTAGFromStream w = Some (1, c, 1, t, int (length (tag_octets c 1 t)), s1)" "pm_wait mode s1 = (True, w1)"
        "GetLENFromStream w1 (int (length (tag_octets c 1 t))) = Some (int (length ?cs), int (length (len_octets (int (length ?cs)))), s2)"
        "sock_valid s2" "ready s2" "sock_octets s2 = ?cs @ rest"
      using header_reads [OF s(1,2) _ tag(1,2) len(2,1), of "?cs @ rest" "int (length (tag_octets c 1 t))"] s(3) by (auto simp: tlv_def)
    let ?p = "Asn_node 1 c t (int (length ?cs)) NewDbuf [] 0"
    define m k where "m = int (length ?cs)" and "k = int (length (len_octets (int (length ?cs))))"
    have st: "start_pdu mode s z = Some (Open_node ?p m k ?h, s2)"
      using h(1-4) nz ci unfolding k_def m_def [symmetric] by (simp add: start_pdu_def PRIMITIVE_def)
    have op: "open_parent ?p c t (int (length ?cs)) []" by (simp add: open_parent_def)
    obtain ns p' s' where l: "get_pdu mode s2 (Child_loop ?p (int (length ?cs)) (int (length ?cs)) k ?h z) = Some (Some p', ?h + int (length ?cs), s')"
        "open_parent p' c t (int (length ?cs)) ns" "list_all2 decoded ns bs" "sock_valid s'" "ready s'" "sock_octets s' = rest"
      using loop_reads [OF sub tag(3) _ op h(5-7) len(2) _ refl, of "[]" ?h k z] len(3) by auto
    have "get_pdu mode s (Get_node z) = Some (Some p', ?h + int (length ?cs), s')"
      using st l(1) unfolding m_def by (subst get_pdu.simps) simp
    then show "\<exists>n s'. get_pdu mode s (Get_node z) = Some (Some n, int (length (ber_octets (Ber_cons c t bs))), s')
        \<and> decoded n (Ber_cons c t bs) \<and> sock_valid s' \<and> ready s' \<and> sock_octets s' = rest"
      using open_parent_decoded [OF l(2,3)] l(4-6) by (auto simp: tlv_def algebra_simps)
  qed
qed

end

interpretation from_file: waiting_mode file_mode "\<lambda>s. True"
  by unfold_locales (auto simp: file_mode_def)

text \<open>Over a stream every \<open>select\<close> has to report data before its time is over.\<close>

definition stream_ready :: "sock \<Rightarrow> bool" where
  "stream_ready s \<longleftrightarrow> is_open s \<and> (\<forall>c \<in> set (selects s). 0 < c)"

lemma stream_waits:
  assumes "context = Z_CLIENT \<or> context = Z_SERVER" and "stream_ready s" and "\<not> silent_now s"
  shows "\<exists>s'. pm_wait (stream_mode context secs) s = (True, s') \<and> stream_ready s' \<and> (sock_valid s \<longrightarrow> sock_valid s')
    \<and> sock_octets s' = sock_octets s \<and> incoming s' = incoming s"
  using assms by (cases "selects s") (auto simp: stream_mode_def WaitForData_def TimeOut_def stream_ready_def sock_valid_def sock_octets_def
      silent_now_def)

lemma stream_ready_kept: "stream_ready s \<Longrightarrow> keeps s s' \<Longrightarrow> stream_ready s'"
  by (simp add: stream_ready_def keeps_def)

interpretation client: waiting_mode "stream_mode Z_CLIENT secs" stream_ready for secs
  by unfold_locales (use stream_waits stream_ready_kept in blast)+

interpretation server: waiting_mode "stream_mode Z_SERVER secs" stream_ready for secs
  by unfold_locales (use stream_waits stream_ready_kept in blast)+

section \<open>Values over a connection\<close>

lemma encode_leaf_represents:
  assumes "encode NewDbuf = Done (Z_OK, b)" and "dbuf_at 0 b" and "dbuf_octets b = tlv c 0 t cs"
  shows "\<exists>n. encode_leaf c t encode = Done (Some n) \<and> represents n (Ber_prim c t cs)"
proof -
  from assms(2) obtain d where "b = Some d" "db_data d = Some (dbuf_octets b)" "db_size d = int (length (dbuf_octets b))" by (rule dbuf_atE)
  then show ?thesis using assms rep_prim [OF assms(2,3) refl, of 0]
    by (simp add: encode_leaf_def NewAsnNode_def PRIMITIVE_def)
qed

text \<open>The octets a program sends for a node: those of its buffer after \<open>LengthAsnTree\<close> and \<open>SerializeAsnTree\<close>.\<close>

definition sent_octets :: "asn_node option run \<Rightarrow> octet list" where
  "sent_octets r = (case r of
       Done (Some n) \<Rightarrow> (case SerializeAsnTree (snd (LengthAsnTree (Some n))) of Done buf \<Rightarrow> dbuf_octets buf | Crash \<Rightarrow> [])
     | _ \<Rightarrow> [])"

lemma sent_octets_represents:
  assumes "represents n b" and "ber_ok b" and "length (ber_octets b) \<le> dbuf_capacity"
  shows "sent_octets (Done (Some n)) = ber_octets b"
  using serialize_writes [OF assms] by (auto simp: sent_octets_def)

lemma length_tlv: "0 \<le> t \<Longrightarrow> t < 2147483648 \<Longrightarrow> length cs < 2147483648 \<Longrightarrow> length (tlv c f t cs) \<le> length cs + 11"
  using length_tag_octets [of t c f] length_len_octets [of "int (length cs)"] by (simp add: tlv_def)

text \<open>A leaf arrives as a node with its contents.\<close>

lemma leaf_arrives:
  assumes "represents n (Ber_prim c t cs)" and "tag_ok c 0 t" and "\<not> (c = 0 \<and> t = 0)" and "length cs + 11 \<le> dbuf_capacity"
    and "sock_valid s" and "stream_ready s" and "sock_octets s = sent_octets (Done (Some n)) @ rest"
  shows "\<exists>m k s'. GetPDUFromStream Z_SERVER s z secs = Some (Some m, k, s')
    \<and> dbuf_valid (an_dbuf m) \<and> dbuf_rest (an_dbuf m) = cs \<and> an_length m = int (length cs) \<and> sock_octets s' = rest"
proof -
  have b: "ber_ok (Ber_prim c t cs)" "length (ber_octets (Ber_prim c t cs)) \<le> dbuf_capacity"
    using assms(2-4) length_tlv [of t cs c 0] by (simp_all add: tag_ok_def dbuf_capacity_def)
  have "sock_octets s = ber_octets (Ber_prim c t cs) @ rest" using sent_octets_represents [OF assms(1) b] assms(7) by simp
  then obtain m s' where m: "get_pdu (stream_mode Z_SERVER secs) s (Get_node z) = Some (Some m, int (length (ber_octets (Ber_prim c t cs))), s')"
      "decoded m (Ber_prim c t cs)" "sock_octets s' = rest"
    using server.readsE [OF server.all_read [OF b] assms(5,6)] by metis
  then show ?thesis using m(1,3) by (elim decoded_primE) (auto simp: GetPDUFromStream_def dbuf_at_def dbuf_rest_def)
qed

text \<open>
  C32: an integer sent with \<open>EncodeInteger\<close> and read with \<open>GetPDUFromStream\<close> and \<open>DecodeInteger\<close> arrives as it was, in whatever
  pieces the connection delivers it, unless it is negative and at least -8388608: such an integer is sent in
  one to three octets, the sign is not extended, and what arrives is larger by the corresponding power of 256.
\<close>

theorem integer_over_connection:
  assumes "tag_ok c 0 t" and "\<not> (c = 0 \<and> t = 0)" and "is_c_int v" and "sock_valid s" and "stream_ready s"
    and "sock_octets s = sent_octets (EncodeInteger c t v) @ rest"
  shows "\<exists>m k s'. GetPDUFromStream Z_SERVER s z secs = Some (Some m, k, s')
    \<and> fst (DecodeInteger junk m) = (if - 8388608 \<le> v \<and> v < 0 then v + 256 ^ int_size v else v) \<and> sock_octets s' = rest"
proof -
  have "dbuf_at 0 NewDbuf" by (simp add: dbuf_at_def)
  then obtain b where b: "encode_integer NewDbuf c t v = (Z_OK, b)" "dbuf_at 0 b" "dbuf_octets b = tlv c 0 t (int_contents v)"
    using encode_integer_writes [of 0 NewDbuf c t v] assms(1,3) by (auto simp: dbuf_capacity_def)
  obtain n where n: "EncodeInteger c t v = Done (Some n)" "represents n (Ber_prim c t (int_contents v))"
    using encode_leaf_represents [of "\<lambda>b. Done (encode_integer b c t v)", OF _ b(2,3)] b(1) by (auto simp: EncodeInteger_def)
  have len: "length (int_contents v) + 11 \<le> dbuf_capacity"
    using int_size_bounds [of v] by (simp add: int_contents_def dbuf_capacity_def)
  have sk: "sock_octets s = sent_octets (Done (Some n)) @ rest" using assms(6) n(1) by simp
  obtain m k s' where m: "GetPDUFromStream Z_SERVER s z secs = Some (Some m, k, s')" "dbuf_valid (an_dbuf m)"
      "dbuf_rest (an_dbuf m) = int_contents v" "an_length m = int (length (int_contents v))" "sock_octets s' = rest"
    using leaf_arrives [OF n(2) assms(1,2) len assms(4,5) sk] by blast
  then have "fst (DecodeInteger junk m) = c_int (v mod 256 ^ int_size v)"
    using decode_integer_contents [OF m(2), of v "[]" junk] by (auto simp: DecodeInteger_def)
  then show ?thesis using m(1,5) int_value [OF assms(3)] by simp
qed

definition sample_integer :: sock where
  "sample_integer = \<lparr>incoming = [Data [159, 31], Data [2, 1], Failed EINTR, Data [44, 5], Failed 104],
     outgoing = [], sent = [], errno = 0, is_open = True, selects = [1, 1]\<rparr>"

lemma sample_integer_sent: "sock_octets sample_integer = sent_octets (EncodeInteger 2 31 300) @ [5]"
  by code_simp

theorem integer_over_connection_witness:
  "\<exists>m k s'. GetPDUFromStream Z_SERVER sample_integer 0 60 = Some (Some m, k, s')
    \<and> fst (DecodeInteger 7 m) = (if - 8388608 \<le> (300 :: int) \<and> (300 :: int) < 0 then 300 + 256 ^ int_size 300 else 300) \<and> sock_octets s' = [5]"
  by (rule integer_over_connection [OF _ _ _ _ _ sample_integer_sent])
     (simp_all add: tag_ok_def is_c_int_def sample_integer_def sock_valid_def stream_ready_def EINTR_def)

text \<open>A null-terminated string.\<close>

definition c_str :: "octet list \<Rightarrow> gstr" where
  "c_str cs = \<lparr>gs_length = int (length cs), gs_data = Some (cs @ [0])\<rparr>"

lemma length_oid_numbers: "oid_ok ids \<Longrightarrow> length (oid_octets (oid_numbers ids)) + 11 \<le> dbuf_capacity"
proof -
  assume "oid_ok ids"
  then have "\<forall>x \<in> set (oid_numbers ids). x < 2147483648" "length (oid_numbers ids) \<le> 49"
    by (auto simp: oid_numbers_def elim!: oid_okE)
  then show ?thesis using length_oid_octets [of "oid_numbers ids"] by (simp add: dbuf_capacity_def)
qed

lemma EncodeOid_represents:
  assumes "tag_ok c 0 t" and "oid_ok ids"
  shows "\<exists>n. EncodeOid junk c t (Some (c_str (oid_text ids))) = Done (Some n) \<and> represents n (Ber_prim c t (oid_octets (oid_numbers ids)))"
proof -
  let ?g = "c_str (oid_text ids)"
  have "dbuf_at 0 NewDbuf" by (simp add: dbuf_at_def)
  then obtain b where b: "encode_oid junk NewDbuf c t (Some ?g) = Done (Z_OK, b)" "dbuf_at 0 b" "dbuf_octets b = tlv c 0 t (oid_octets (oid_numbers ids))"
    using encode_oid_writes [of 0 NewDbuf c t ids ?g "[]" junk] assms by (auto simp: dbuf_capacity_def c_str_def)
  show ?thesis using encode_leaf_represents [of "\<lambda>b. encode_oid junk b c t (Some ?g)", OF b] by (auto simp: EncodeOid_def)
qed

lemma EncodeOid_sends:
  assumes "tag_ok c 0 t" and "\<not> (c = 0 \<and> t = 0)" and "oid_ok ids"
  shows "sent_octets (EncodeOid junk c t (Some (c_str (oid_text ids)))) = tlv c 0 t (oid_octets (oid_numbers ids))"
proof -
  obtain n where n: "EncodeOid junk c t (Some (c_str (oid_text ids))) = Done (Some n)" "represents n (Ber_prim c t (oid_octets (oid_numbers ids)))"
    using EncodeOid_represents [OF assms(1,3)] by blast
  have "length (tlv c 0 t (oid_octets (oid_numbers ids))) \<le> dbuf_capacity"
    using length_oid_numbers [OF assms(3)] length_tlv [of t "oid_octets (oid_numbers ids)" c 0] assms(1) by (simp add: tag_ok_def dbuf_capacity_def)
  then show ?thesis using sent_octets_represents [OF n(2)] n(1) assms(1,2) by simp
qed

text \<open>
  C33: an object identifier in dot notation sent with \<open>EncodeOid\<close> arrives with the same text at \<open>DecodeOid\<close>, whatever the
  stack held: for identifiers of at most 50 numbers, the second one below 40, the first two not both 0 and
  the others positive.
\<close>

theorem oid_over_connection:
  assumes "tag_ok c 0 t" and "\<not> (c = 0 \<and> t = 0)" and "oid_ok ids" and "sock_valid s" and "stream_ready s"
    and "sock_octets s = sent_octets (EncodeOid junk c t (Some (c_str (oid_text ids)))) @ rest"
  shows "\<exists>m k s' b. GetPDUFromStream Z_SERVER s z secs = Some (Some m, k, s')
    \<and> DecodeOid junk' m = Some (Done (c_str (oid_text ids), b)) \<and> sock_octets s' = rest"
proof -
  let ?cs = "oid_octets (oid_numbers ids)"
  obtain n where n: "EncodeOid junk c t (Some (c_str (oid_text ids))) = Done (Some n)" "represents n (Ber_prim c t ?cs)"
    using EncodeOid_represents [OF assms(1,3)] by blast
  have sk: "sock_octets s = sent_octets (Done (Some n)) @ rest" using assms(6) n(1) by simp
  obtain m k s' where m: "GetPDUFromStream Z_SERVER s z secs = Some (Some m, k, s')" "dbuf_valid (an_dbuf m)"
      "dbuf_rest (an_dbuf m) = ?cs" "an_length m = int (length ?cs)" "sock_octets s' = rest"
    using leaf_arrives [OF n(2) assms(1,2) length_oid_numbers [OF assms(3)] assms(4,5) sk] by blast
  then show ?thesis
    using decode_oid_string_contents [OF m(2), of ids "[]" junk'] assms(3) by (auto simp: DecodeOid_def c_str_def)
qed

definition sample_oid :: sock where
  "sample_oid = \<lparr>incoming = [Data [6, 7, 42], Data [134, 72, 206, 19, 3, 1, 5]],
     outgoing = [], sent = [], errno = 0, is_open = True, selects = []\<rparr>"

lemma sample_oid_sent: "sock_octets sample_oid = sent_octets (EncodeOid (\<lambda>_. 9) 0 6 (Some (c_str (oid_text [1, 2, 840, 10003, 3, 1])))) @ [5]"
proof -
  have "tlv 0 0 6 (oid_octets (oid_numbers [1, 2, 840, 10003, 3, 1])) = [6, 7, 42, 134, 72, 206, 19, 3, 1]" by code_simp
  moreover have "oid_ok [1, 2, 840, 10003, 3, 1]" by (simp add: oid_ok_def)
  ultimately show ?thesis using EncodeOid_sends [of 0 6 "[1, 2, 840, 10003, 3, 1]"]
    by (simp add: tag_ok_def sample_oid_def sock_octets_def)
qed

theorem oid_over_connection_witness:
  "\<exists>m k s' b. GetPDUFromStream Z_SERVER sample_oid 0 60 = Some (Some m, k, s')
    \<and> DecodeOid 0 m = Some (Done (c_str (oid_text [1, 2, 840, 10003, 3, 1]), b)) \<and> sock_octets s' = [5]"
  by (rule oid_over_connection [OF _ _ _ _ _ sample_oid_sent])
     (simp_all add: tag_ok_def oid_ok_def sample_oid_def sock_valid_def stream_ready_def EINTR_def)

text \<open>
  A string of the characters 0 and 1 sent with \<open>EncodeBitString\<close> arrives unchanged at \<open>DecodeBitString\<close>, whether or
  not its length is a multiple of eight.
\<close>

theorem bits_over_connection:
  assumes "tag_ok c 0 t" and "\<not> (c = 0 \<and> t = 0)" and "cs \<noteq> []" and "\<forall>ch \<in> set cs. bit_char ch" and "length cs + 20 \<le> dbuf_capacity"
    and "sock_valid s" and "stream_ready s" and "sock_octets s = sent_octets (EncodeBitString c t (Some (c_str cs))) @ rest"
  shows "\<exists>m k s' b. GetPDUFromStream Z_SERVER s z secs = Some (Some m, k, s')
    \<and> DecodeBitString junk m = Done (c_str cs, b) \<and> sock_octets s' = rest"
proof -
  have "bit_octet_count (length cs) \<le> length cs"
    using bit_count_bounds(2) [of "length cs"] assms(3) by (cases cs) simp_all
  then have len: "length (bit_contents cs) + 11 \<le> dbuf_capacity" using assms(5) by (simp add: bit_contents_def)
  have "dbuf_at 0 NewDbuf" "room_for NewDbuf (bit_contents cs)" "length cs < 2147483648"
    using len assms(5) by (simp_all add: dbuf_at_def room_for_def dbuf_capacity_def)
  then obtain b where b: "encode_bitstr NewDbuf c t (Some (c_str cs)) = Done (Z_OK, b)" "dbuf_at 0 b" "dbuf_octets b = tlv c 0 t (bit_contents cs)"
    using encode_bitstr_writes [of 0 NewDbuf c t cs "c_str cs" "[0]"] assms(1,3) by (auto simp: c_str_def)
  obtain n where n: "EncodeBitString c t (Some (c_str cs)) = Done (Some n)" "represents n (Ber_prim c t (bit_contents cs))"
    using encode_leaf_represents [of "\<lambda>b. encode_bitstr b c t (Some (c_str cs))", OF b] by (auto simp: EncodeBitString_def)
  have sk: "sock_octets s = sent_octets (Done (Some n)) @ rest" using assms(8) n(1) by simp
  obtain m k s' where m: "GetPDUFromStream Z_SERVER s z secs = Some (Some m, k, s')" "dbuf_valid (an_dbuf m)"
      "dbuf_rest (an_dbuf m) = bit_contents cs" "an_length m = int (length (bit_contents cs))" "sock_octets s' = rest"
    using leaf_arrives [OF n(2) assms(1,2) len assms(6,7) sk] by blast
  then show ?thesis
    using decode_bit_string_contents [OF m(2), of cs "[]" junk] assms(4,5) by (auto simp: DecodeBitString_def c_str_def)
qed

definition sample_bits :: sock where
  "sample_bits = \<lparr>incoming = [Data [131, 3, 6, 176], Data [64, 5]],
     outgoing = [], sent = [], errno = 0, is_open = True, selects = [2, 1]\<rparr>"

definition sample_bit_text :: "octet list" where
  "sample_bit_text = [49, 48, 49, 49, 48, 48, 48, 48, 48, 49]"

lemma sample_bits_sent: "sock_octets sample_bits = sent_octets (EncodeBitString 2 3 (Some (c_str sample_bit_text))) @ [5]"
  by code_simp

theorem bits_over_connection_witness:
  "\<exists>m k s' b. GetPDUFromStream Z_SERVER sample_bits 0 60 = Some (Some m, k, s')
    \<and> DecodeBitString 1 m = Done (c_str sample_bit_text, b) \<and> sock_octets s' = [5]"
  by (rule bits_over_connection [OF _ _ _ _ _ _ _ sample_bits_sent])
     (simp_all add: tag_ok_def sample_bits_def sample_bit_text_def sock_valid_def stream_ready_def EINTR_def bit_char_def dbuf_capacity_def)

text \<open>
  C31: a tree of nodes that represents a value, sent after \<open>LengthAsnTree\<close> and \<open>SerializeAsnTree\<close>, is read by
  \<open>GetPDUFromStream\<close> as a tree that holds the same value, with the tags, the lengths and the order of the children, in
  whatever pieces its octets arrive; the size reported is the one \<open>LengthAsnTree\<close> returned, and what follows is left
  in the connection.
\<close>

theorem pdu_over_connection:
  assumes "represents n b" and "ber_ok b" and "length (ber_octets b) \<le> dbuf_capacity"
    and "LengthAsnTree (Some n) = (len, Some n')" and "SerializeAsnTree (Some n') = Done buf"
    and "sock_valid s" and "stream_ready s" and "sock_octets s = dbuf_octets buf @ rest"
  shows "\<exists>m s'. GetPDUFromStream Z_SERVER s z secs = Some (Some m, len, s') \<and> decoded m b \<and> sock_octets s' = rest"
proof -
  have len: "len = int (length (ber_octets b))" and "dbuf_octets buf = ber_octets b"
    using serialize_writes [OF assms(1-3)] assms(4,5) by auto
  then have "sock_octets s = ber_octets b @ rest" using assms(8) by simp
  then obtain m s' where "get_pdu (stream_mode Z_SERVER secs) s (Get_node z) = Some (Some m, int (length (ber_octets b)), s')"
      "decoded m b" "sock_octets s' = rest"
    using server.readsE [OF server.all_read [OF assms(2,3)] assms(6,7)] by metis
  then show ?thesis using len by (auto simp: GetPDUFromStream_def)
qed

text \<open>A search request with an integer and a null below it, built with \<open>Attach\<close>.\<close>

definition sample_leaf :: "asn_node option run \<Rightarrow> asn_node list" where
  "sample_leaf r = (case r of Done (Some n) \<Rightarrow> [n] | _ \<Rightarrow> [])"

definition sample_tree :: asn_node where
  "sample_tree = the (Attach (Attach (Some (NewAsnNode 2 1 22)) (sample_leaf (EncodeInteger 2 13 5))) (sample_leaf (EncodeNull 0 5)))"

definition sample_ber :: ber where
  "sample_ber = Ber_cons 2 22 [Ber_prim 2 13 [5], Ber_prim 0 5 []]"

definition sample_pdu :: sock where
  "sample_pdu = \<lparr>incoming = [Data [182], Data [5, 141, 1, 5, 5], Failed EINTR, Data [0, 99], Failed 104],
     outgoing = [], sent = [], errno = 0, is_open = True, selects = [1]\<rparr>"

definition sample_db :: "octet list \<Rightarrow> dbuf option" where
  "sample_db cs = Some \<lparr>db_size = int (length cs), db_max = 100, db_cursor = 0, db_data = Some cs\<rparr>"

lemma sample_tree_nodes: "sample_tree = Asn_node 1 2 22 0 (sample_db [])
    [Asn_node 0 2 13 3 (sample_db [141, 1, 5]) [] 0, Asn_node 0 0 5 2 (sample_db [5, 0]) [] 0] 1"
  by code_simp

lemma sample_db_facts: "length cs \<le> 100 \<Longrightarrow> dbuf_at 0 (sample_db cs)" "dbuf_octets (sample_db cs) = cs"
  by (simp_all add: sample_db_def dbuf_at_def dbuf_ok_def)

lemma sample_tree_represents: "represents sample_tree sample_ber"
proof -
  have t: "tlv 2 0 13 [5] = [141, 1, 5]" "tlv 0 0 5 [] = [5, 0]" by code_simp+
  have "represents (Asn_node 0 2 13 3 (sample_db [141, 1, 5]) [] 0) (Ber_prim 2 13 [5])"
    by (rule rep_prim) (simp_all add: t sample_db_facts)
  moreover have "represents (Asn_node 0 0 5 2 (sample_db [5, 0]) [] 0) (Ber_prim 0 5 [])"
    by (rule rep_prim) (simp_all add: t sample_db_facts)
  ultimately show ?thesis unfolding sample_tree_nodes sample_ber_def
    by (intro rep_cons) (simp_all add: sample_db_facts)
qed

lemma sample_tree_written:
  "LengthAsnTree (Some sample_tree) = (7, snd (LengthAsnTree (Some sample_tree)))"
  "snd (LengthAsnTree (Some sample_tree)) = Some (the (snd (LengthAsnTree (Some sample_tree))))"
  "SerializeAsnTree (snd (LengthAsnTree (Some sample_tree))) = Done (sample_db [182, 5, 141, 1, 5, 5, 0])"
  by code_simp+

theorem pdu_over_connection_witness:
  "\<exists>m s'. GetPDUFromStream Z_SERVER sample_pdu 0 60 = Some (Some m, 7, s') \<and> decoded m sample_ber \<and> sock_octets s' = [99]"
proof (rule pdu_over_connection [OF sample_tree_represents])
  show "ber_ok sample_ber" by (simp add: sample_ber_def tag_ok_def)
  show "length (ber_octets sample_ber) \<le> dbuf_capacity" by (simp add: sample_ber_def tlv_def tag_octets_def len_octets_def dbuf_capacity_def)
  show "LengthAsnTree (Some sample_tree) = (7, Some (the (snd (LengthAsnTree (Some sample_tree)))))"
    using sample_tree_written(1,2) by simp
  show "SerializeAsnTree (Some (the (snd (LengthAsnTree (Some sample_tree))))) = Done (sample_db [182, 5, 141, 1, 5, 5, 0])"
    using sample_tree_written(2,3) by simp
  show "sock_octets sample_pdu = dbuf_octets (sample_db [182, 5, 141, 1, 5, 5, 0]) @ [99]"
    by (simp add: sample_pdu_def sock_octets_def sample_db_facts EINTR_def)
qed (simp_all add: sample_pdu_def sock_valid_def stream_ready_def EINTR_def)

end
