(* ===== verification/Pdu_Faults.thy ===== *)
theory Pdu_Faults
  imports Asn_Tree
begin

text \<open>
  What the reader of encoded values does with input that is not well formed: values that are cut off, and
  on which connections reading returns.
\<close>

unbundle bit_operations_syntax

section \<open>A value that is cut off\<close>

lemma GetTAG_at_end:
  assumes "sock_valid s" and "sock_octets s = []" and "\<not> silent_now s"
  shows "\<exists>st k s'. GetTAGFromStream s = Some (st, 0, 0, 0, k, s') \<and> st \<le> 0"
proof -
  obtain code c s' where "read_octet s = Some (code, c, s')" "code \<le> 0" using read_octet_Nil [OF assms] by blast
  then show ?thesis by (simp add: GetTAGFromStream_def)
qed

text \<open>Waiting with a limit: a silent connection is given up.\<close>

locale timed_mode = waiting_mode +
  assumes wait_silent: "ready s \<Longrightarrow> silent_now s \<Longrightarrow> \<exists>s'. pm_wait mode s = (False, s')"

context timed_mode
begin

lemma nothing_to_read:
  assumes "sock_valid s" and "ready s" and "sock_octets s = []"
  shows "\<exists>s'. get_pdu mode s (Get_node z) = Some (None, z, s')"
proof (cases "silent_now s")
  case True
  obtain s' where "pm_wait mode s = (False, s')" using wait_silent [OF assms(2) True] by blast
  then have "start_pdu mode s z = Some (Finished None z, s')" by (simp add: start_pdu_def)
  then show ?thesis using get_node_finished by blast
next
  case False
  obtain w where w: "pm_wait mode s = (True, w)" "sock_valid w" "sock_octets w = []" "incoming w = incoming s"
    using wait_ok [OF assms(2) False] assms(1,3) by auto
  obtain st k s' where "GetTAGFromStream w = Some (st, 0, 0, 0, k, s')" "st \<le> 0" using GetTAG_at_end [OF w(2,3)] w(4) False by (auto simp: silent_now_def)
  then have "start_pdu mode s z = Some (Finished None z, close_fd s')" using w(1) by (simp add: start_pdu_def)
  then show ?thesis using get_node_finished by blast
qed

lemma indefinite_start:
  assumes "sock_valid s" and "ready s" and "sock_octets s = tag_octets c 1 t @ 128 # rest" and "tag_ok c 1 t"
  shows "\<exists>k s'. start_pdu mode s z = Some (Open_node (Asn_node 1 c t (- 1) NewDbuf [] 0) (- 1) 1 k, s')
    \<and> sock_valid s' \<and> ready s' \<and> sock_octets s' = rest"
proof -
  obtain w where w: "pm_wait mode s = (True, w)" "ready w" "sock_valid w" "sock_octets w = sock_octets s"
    using wait_ok [OF assms(2) not_silent] assms(1,3) tag_octets_nonempty by fastforce
  obtain s1 where s1: "GetTAGFromStream w = Some (1, c, 1, t, int (length (tag_octets c 1 t)), s1)" "sock_valid s1" "sock_octets s1 = 128 # rest"
    using GetTAGFromStream_reads [OF w(3) _ assms(4), of "128 # rest"] w(4) assms(3) by auto
  have "ready s1" using ready_kept [OF w(2) GetTAGFromStream_keeps [OF s1(1)]] .
  then obtain w1 where w1: "pm_wait mode s1 = (True, w1)" "ready w1" "sock_valid w1" "sock_octets w1 = 128 # rest"
    using wait_ok [OF _ not_silent, of s1] s1(2,3) by auto
  obtain s2 where s2: "read_octet w1 = Some (1, 128, s2)" "sock_valid s2" "sock_octets s2 = rest"
    using read_octet_Cons [OF w1(3,4)] by blast
  have "GetLENFromStream w1 z' = Some (- 1, 1, s2)" for z' using s2(1) by (simp add: GetLENFromStream_def)
  then have "start_pdu mode s z = Some (Open_node (Asn_node 1 c t (- 1) NewDbuf [] 0) (- 1) 1 (c_int (int (length (tag_octets c 1 t)) + 1)), s2)"
    using w(1) s1(1) w1(1) by (simp add: start_pdu_def PRIMITIVE_def)
  then show ?thesis using s2(2,3) ready_kept [OF w1(2) read_octet_keeps [OF s2(1)]] by blast
qed

lemma cut_off_taken:
  assumes "sock_valid s" and "ready s" and "sock_octets s = tag_octets c 1 t @ 128 # ber_octets b" and "tag_ok c 1 t"
    and "ber_ok b" and "length (ber_octets b) \<le> dbuf_capacity"
  shows "\<exists>m k s'. get_pdu mode s (Get_node z) = Some (Some m, k, s') \<and> list_all2 decoded (an_children m) [b]"
proof -
  let ?p = "Asn_node 1 c t (- 1) NewDbuf [] 0"
  obtain k s1 where s1: "start_pdu mode s z = Some (Open_node ?p (- 1) 1 k, s1)" "sock_valid s1" "ready s1" "sock_octets s1 = ber_octets b @ []"
    using indefinite_start [OF assms(1-4), of z] by auto
  obtain n s2 where s2: "get_pdu mode s1 (Get_node 1) = Some (Some n, int (length (ber_octets b)), s2)" "decoded n b" "sock_valid s2" "ready s2" "sock_octets s2 = []"
    using readsE [OF all_read [OF assms(5,6)] s1(2-4)] by blast
  let ?l = "int (length (ber_octets b))"
  obtain s3 where s3: "get_pdu mode s2 (Get_node ?l) = Some (None, ?l, s3)" using nothing_to_read [OF s2(3-5)] by blast
  have "?l \<noteq> 0" using ber_octets_nonempty [of b] by simp
  then have "get_pdu mode s2 (Child_loop (Asn_node 1 c t (- 1) NewDbuf [n] 0) (- 1) (- 1) ?l (c_int (k + ?l)) z)
      = Some (Some (Asn_node 1 c t (- 1) NewDbuf [n] 0), c_int (c_int (k + ?l) + ?l), s3)"
    using s3 by (subst get_pdu.simps) (simp add: next_child_def)
  then have "get_pdu mode s1 (Child_loop ?p (- 1) (- 1) 1 k z) = Some (Some (Asn_node 1 c t (- 1) NewDbuf [n] 0), c_int (c_int (k + ?l) + ?l), s3)"
    using s2(1) by (subst get_pdu.simps) (simp add: next_child_def Attach_def Let_def)
  then have "get_pdu mode s (Get_node z) = Some (Some (Asn_node 1 c t (- 1) NewDbuf [n] 0), c_int (c_int (k + ?l) + ?l), s3)"
    using s1(1) by (subst get_pdu.simps) simp
  then show ?thesis using s2(2) by auto
qed

end

lemma stream_gives_up:
  assumes "context = Z_CLIENT \<or> context = Z_SERVER" and "stream_ready s" and "silent_now s"
  shows "\<exists>s'. pm_wait (stream_mode context secs) s = (False, s')"
  using assms by (cases "selects s") (auto simp: stream_mode_def WaitForData_def TimeOut_def stream_ready_def min_def)

interpretation client: timed_mode "stream_mode Z_CLIENT secs" stream_ready for secs
  by unfold_locales (use stream_gives_up in blast)

interpretation server: timed_mode "stream_mode Z_SERVER secs" stream_ready for secs
  by unfold_locales (use stream_gives_up in blast)

text \<open>
  C37: a value in the indefinite-length form whose connection ends before the end-of-contents octets, or whose peer stops
  sending them for longer than the limit, is accepted as if it were complete: a child that could not be read leaves the size of the child before it, and the loop takes a
  missing child with a size other than 0 for the end of the contents.
\<close>

theorem cut_off_value_accepted:
  assumes "sock_valid s" and "stream_ready s" and "sock_octets s = tag_octets c 1 t @ 128 # ber_octets b" and "tag_ok c 1 t"
    and "ber_ok b" and "length (ber_octets b) \<le> dbuf_capacity"
  shows "\<exists>m k s'. GetPDUFromStream Z_SERVER s z secs = Some (Some m, k, s') \<and> list_all2 decoded (an_children m) [b]"
  unfolding GetPDUFromStream_def by (rule server.cut_off_taken [OF assms])

definition sample_cut :: sock where
  "sample_cut = \<lparr>incoming = [Data [182, 128, 141, 1, 5]], outgoing = [], sent = [], errno = 0, is_open = True, selects = []\<rparr>"

theorem cut_off_value_accepted_witness:
  "\<exists>m k s'. GetPDUFromStream Z_SERVER sample_cut 0 60 = Some (Some m, k, s') \<and> list_all2 decoded (an_children m) [Ber_prim 2 13 [5]]"
proof (rule cut_off_value_accepted)
  have "tag_octets 2 1 22 = [182]" "tlv 2 0 13 [5] = [141, 1, 5]" by code_simp+
  then show "sock_octets sample_cut = tag_octets 2 1 22 @ 128 # ber_octets (Ber_prim 2 13 [5])"
    "length (ber_octets (Ber_prim 2 13 [5])) \<le> dbuf_capacity"
    by (simp_all add: sample_cut_def sock_octets_def dbuf_capacity_def)
qed (simp_all add: sample_cut_def sock_valid_def stream_ready_def EINTR_def tag_ok_def)

text \<open>
  C38: an object identifier whose last octet has its high bit set makes \<open>DecodeOid\<close> loop forever: at the end of the buffer
  \<open>db_get\<close> stores nothing, and the loop tests the octet before.
\<close>

theorem DecodeOid_never_returns:
  assumes "decoded m (Ber_prim c t cs)" and "cs \<noteq> []" and "high_bit_set (last cs)" and "length cs < 50"
  shows "DecodeOid junk m = None"
proof -
  obtain db tp where m: "m = Asn_node 0 c t (int (length cs)) db [] tp" "dbuf_at 0 db" "dbuf_octets db = cs"
    using assms(1) by (elim decoded_primE) auto
  then have "endless db (int (length cs)) 0 []"
    using assms(2-4) by (simp add: endless_def cut_off_def dbuf_at_def dbuf_rest_def)
  then have "decode_oid junk db (int (length cs)) = None"
    using decode_oid_loop_cut_off unfolding decode_oid_def by (cases "decode_oid_loop db junk (int (length cs)) 0 []") auto
  then show ?thesis using m(1) by (simp add: DecodeOid_def decode_oid_string_def)
qed

theorem DecodeOid_never_returns_witness: "DecodeOid 0 (Asn_node 0 0 6 3 (sample_db [42, 134, 200]) [] 0) = None"
proof (rule DecodeOid_never_returns)
  show "decoded (Asn_node 0 0 6 3 (sample_db [42, 134, 200]) [] 0) (Ber_prim 0 6 [42, 134, 200])"
    using dec_prim [OF sample_db_facts(1), of "[42, 134, 200]" "[42, 134, 200]" 0 6 0] by (simp add: sample_db_facts)
qed (simp_all add: high_bit_set_def)

section \<open>Reading returns\<close>

text \<open>
  A connection that the peer ends, by closing it or by a failure, and on which no call is interrupted; and a bound on
  what it can still deliver, failures included. An interruption that is followed by the end of the file makes
  \<open>ReadFromSocket\<close> wait forever, and so does a silent peer.
\<close>

definition calm :: "sock \<Rightarrow> bool" where
  "calm s \<longleftrightarrow> errno s \<noteq> EINTR \<and> Failed EINTR \<notin> set (incoming s) \<and> Silent \<notin> set (incoming s)"

fun event_weight :: "read_event \<Rightarrow> nat" where
  "event_weight (Data cs) = Suc (length cs)"
| "event_weight (Failed e) = 1"
| "event_weight Silent = 1"

definition to_come :: "sock \<Rightarrow> nat" where
  "to_come s = sum_list (map event_weight (incoming s))"

text \<open>A state after \<open>s\<close>, with less to come if \<open>strict\<close> holds.\<close>

definition after :: "bool \<Rightarrow> sock \<Rightarrow> sock \<Rightarrow> bool" where
  "after strict s s' \<longleftrightarrow> calm s' \<and> to_come s' \<le> to_come s \<and> (strict \<longrightarrow> to_come s' < to_come s)"

lemma after_trans: "after b s s1 \<Longrightarrow> after b' s1 s2 \<Longrightarrow> after (b \<or> b') s s2"
  by (auto simp: after_def)

lemma after_weak: "after b s s' \<Longrightarrow> (b' \<longrightarrow> b) \<Longrightarrow> after b' s s'"
  by (auto simp: after_def)

lemma sys_read_after: "calm s \<Longrightarrow> 0 < n \<Longrightarrow> \<exists>r cs s'. sys_read s n = Some (r, cs, s') \<and> after (r > 0) s s' \<and> errno s' \<noteq> EINTR"
  by (auto simp: sys_read_def after_def calm_def to_come_def EBADF_def EINTR_def split: if_splits list.splits read_event.splits)

lemma read_loop_returns:
  "calm s \<Longrightarrow> \<exists>r cs s'. read_loop s all n buf = Some (r, cs, s') \<and> after (0 < n \<and> 0 < r) s s'"
proof (induction "to_come s" arbitrary: s n buf rule: less_induct)
  case less
  show ?case
  proof (cases "0 < n")
    case False
    then show ?thesis using less.prems by (subst read_loop.simps) (simp add: after_def)
  next
    case True
    obtain r cs s1 where s1: "sys_read s n = Some (r, cs, s1)" and a: "after (r > 0) s s1" "errno s1 \<noteq> EINTR"
      using sys_read_after [OF less.prems True] by blast
    show ?thesis
    proof (cases "r > 0")
      case False
      then show ?thesis using a s1 True by (subst read_loop.simps) (simp add: after_def)
    next
      case pos: True
      have "to_come s1 < to_come s" "calm s1" using a pos by (simp_all add: after_def)
      then obtain r' cs' s' where l: "read_loop s1 all (n - r) (buf @ cs) = Some (r', cs', s')" "after (0 < n - r \<and> 0 < r') s1 s'"
        using less.hyps by blast
      have "after (0 < n \<and> 0 < r') s s'" using after_trans [OF a(1) l(2)] pos by (auto elim: after_weak)
      then show ?thesis using l(1) s1 True pos by (subst read_loop.simps) simp
    qed
  qed
qed

lemma read_octet_returns: "calm s \<Longrightarrow> \<exists>code c s'. read_octet s = Some (code, c, s') \<and> after (0 < code) s s'"
  using read_loop_returns [of s 1 1 "[]"] by (auto simp: read_octet_def ReadFromSocket_def split: list.splits)

lemma long_tag_after: "calm s \<Longrightarrow> \<exists>code v k s'. long_tag read_octet s t n = Some (code, v, k, s') \<and> after False s s'"
proof (induction "to_come s" arbitrary: s t n rule: less_induct)
  case less
  obtain code c s1 where s1: "read_octet s = Some (code, c, s1)" "after (0 < code) s s1" using read_octet_returns [OF less.prems] by blast
  show ?case
  proof (cases "code = 1 \<and> \<not> uint c < 128")
    case False
    then show ?thesis using s1 by (subst long_tag.simps) (auto elim: after_weak)
  next
    case True
    then have "to_come s1 < to_come s" "calm s1" using s1(2) by (simp_all add: after_def)
    then obtain code' v k s' where "long_tag read_octet s1 (c_int (c_int (t * 128) + uint (c AND 127))) (n + 1) = Some (code', v, k, s')" "after False s1 s'"
      using less.hyps by blast
    moreover have "after False s s'" using after_trans [OF s1(2) calculation(2)] by (auto elim: after_weak)
    ultimately show ?thesis using s1(1) True by (subst long_tag.simps) auto
  qed
qed

lemma long_len_after: "calm s \<Longrightarrow> \<exists>code v s'. long_len read_octet s k n = Some (code, v, s') \<and> after False s s'"
proof (induction k arbitrary: s n)
  case 0
  then show ?case by (simp add: after_def)
next
  case (Suc k)
  obtain code c s1 where s1: "read_octet s = Some (code, c, s1)" "after (0 < code) s s1" using read_octet_returns [OF Suc.prems] by blast
  then have "calm s1" by (simp add: after_def)
  then obtain code' v s' where "long_len read_octet s1 k (c_int (c_int (n * 256) + uint c)) = Some (code', v, s')" "after False s1 s'"
    using Suc.IH by blast
  moreover have "after False s s'" using after_trans [OF s1(2) calculation(2)] by (auto elim: after_weak)
  ultimately show ?case using s1 by (auto elim: after_weak)
qed

lemma GetTAG_after: "calm s \<Longrightarrow> \<exists>st c f t k s'. GetTAGFromStream s = Some (st, c, f, t, k, s') \<and> after (0 < st) s s'"
proof -
  assume s: "calm s"
  obtain code c s1 where s1: "read_octet s = Some (code, c, s1)" "after (0 < code) s s1" using read_octet_returns [OF s] by blast
  show ?thesis
  proof (cases "code = 1")
    case False
    then show ?thesis using s1 by (simp add: GetTAGFromStream_def)
  next
    case True
    then have calm1: "calm s1" "after True s s1" using s1(2) by (simp_all add: after_def)
    obtain code2 c2 s2 where s2: "read_octet s1 = Some (code2, c2, s2)" "after (0 < code2) s1 s2" using read_octet_returns [OF calm1(1)] by blast
    obtain code3 v k s3 where s3: "long_tag read_octet s1 0 1 = Some (code3, v, k, s3)" "after False s1 s3" using long_tag_after [OF calm1(1)] by blast
    have "after b s s1" "after b s s2" "after b s s3" for b
      using calm1(2) after_trans [OF calm1(2) s2(2)] after_trans [OF calm1(2) s3(2)] by (auto elim: after_weak)
    then show ?thesis using s1(1) s2(1) s3(1) True by (simp add: GetTAGFromStream_def Let_def)
  qed
qed

lemma GetLEN_after: "calm s \<Longrightarrow> \<exists>n k s'. GetLENFromStream s z = Some (n, k, s') \<and> after False s s'"
proof -
  assume s: "calm s"
  obtain code c s1 where s1: "read_octet s = Some (code, c, s1)" "after (0 < code) s s1" using read_octet_returns [OF s] by blast
  then have calm1: "calm s1" "after False s s1" by (auto simp: after_def)
  obtain code2 v s2 where s2: "long_len read_octet s1 (nat (uint (c AND 127))) 0 = Some (code2, v, s2)" "after False s1 s2"
    using long_len_after [OF calm1(1)] by blast
  have "after False s s2" using after_trans [OF calm1(2) s2(2)] by simp
  then show ?thesis using s1(1) s2(1) calm1(2) by (auto simp: GetLENFromStream_def Let_def)
qed

definition calm_mode :: "pdu_mode \<Rightarrow> bool" where
  "calm_mode mode \<longleftrightarrow> (\<forall>s. calm s \<longrightarrow> after False s (snd (pm_wait mode s)))"

lemma wait_after: "calm_mode mode \<Longrightarrow> calm s \<Longrightarrow> \<exists>ok s'. pm_wait mode s = (ok, s') \<and> after False s s'"
  unfolding calm_mode_def by (metis prod.collapse)

lemma read_primitive_after: "calm s \<Longrightarrow> \<exists>n s'. read_primitive p s len = Some (n, s') \<and> after False s s'"
  using read_loop_returns [of s len len "[]"]
  by (auto simp: read_primitive_def ReadFromSocket_def after_def calm_def EFAULT_def EINTR_def to_come_def)

lemma after_trans_False: "after False s s1 \<Longrightarrow> after b s1 s2 \<Longrightarrow> after b s s2"
  using after_trans [of False s s1 b s2] by simp

lemma after_then: "after b s s1 \<Longrightarrow> after False s1 s2 \<Longrightarrow> after b s s2"
  using after_trans [of b s s1 False s2] by simp

text \<open>Whatever is returned but a missing node, something has been read.\<close>

definition progress :: "pdu_start \<Rightarrow> bool" where
  "progress st \<longleftrightarrow> (case st of Finished None k \<Rightarrow> False | _ \<Rightarrow> True)"

lemma start_pdu_after:
  assumes "calm_mode mode" and "calm s"
  shows "\<exists>st s'. start_pdu mode s z = Some (st, s') \<and> after (progress st) s s'"
proof -
  obtain ok1 w1 where w1: "pm_wait mode s = (ok1, w1)" "after False s w1" using wait_after [OF assms] by blast
  then have "calm w1" by (simp add: after_def)
  then obtain st c f t k s1 where s1: "GetTAGFromStream w1 = Some (st, c, f, t, k, s1)" "after (0 < st) w1 s1" using GetTAG_after by blast
  have t1: "after (0 < st) s s1" using after_trans_False [OF w1(2) s1(2)] .
  then have "calm s1" by (simp add: after_def)
  then obtain ok2 w2 where w2: "pm_wait mode s1 = (ok2, w2)" "after False s1 w2" using wait_after [OF assms(1)] by blast
  have t2: "after (0 < st) s w2" using after_then [OF t1 w2(2)] .
  then have "calm w2" by (simp add: after_def)
  then obtain len j s2 where s2: "GetLENFromStream w2 k = Some (len, j, s2)" "after False w2 s2" using GetLEN_after by blast
  have t3: "after (0 < st) s s2" using after_then [OF t2 s2(2)] .
  then have "calm s2" by (simp add: after_def)
  then obtain ok3 w3 where w3: "pm_wait mode s2 = (ok3, w3)" "after False s2 w3" using wait_after [OF assms(1)] by blast
  have t4: "after (0 < st) s w3" using after_then [OF t3 w3(2)] .
  then have "calm w3" by (simp add: after_def)
  then obtain n s3 where s3: "read_primitive (Asn_node f c t len NewDbuf [] 0) w3 len = Some (n, s3)" "after False w3 s3"
    using read_primitive_after by blast
  have t5: "after (0 < st) s s3" using after_then [OF t4 s3(2)] .
  have cl: "after False s (close_fd s1)" using t1 by (simp add: after_def calm_def to_come_def close_fd_def)
  show ?thesis
    using w1 s1(1) w2(1) s2(1) w3(1) s3(1) t1 t2 t3 t4 t5 cl
    by (auto simp: start_pdu_def Let_def progress_def elim: after_weak split: option.splits)
qed

lemma get_pdu_after:
  assumes "calm_mode mode"
  shows "calm s \<Longrightarrow> (\<forall>z. \<exists>n k s'. get_pdu mode s (Get_node z) = Some (n, k, s') \<and> after (n \<noteq> None) s s')
    \<and> (\<forall>p len l st r z. \<exists>n k s'. get_pdu mode s (Child_loop p len l st r z) = Some (n, k, s') \<and> after False s s')"
proof (induction "to_come s" arbitrary: s rule: less_induct)
  case less
  have node: "\<exists>n k s'. get_pdu mode s (Get_node z) = Some (n, k, s') \<and> after (n \<noteq> None) s s'" for z
  proof -
    obtain st s1 where s1: "start_pdu mode s z = Some (st, s1)" "after (progress st) s s1" using start_pdu_after [OF assms less.prems] by blast
    show ?thesis
    proof (cases st)
      case (Finished n k)
      then have "get_pdu mode s (Get_node z) = Some (n, k, s1)" using s1(1) by (subst get_pdu.simps) simp
      moreover have "after (n \<noteq> None) s s1" using s1(2) Finished by (cases n) (simp_all add: progress_def)
      ultimately show ?thesis by blast
    next
      case (Open_node p len k r)
      then have lt: "after True s s1" using s1(2) by (simp add: progress_def)
      then have "to_come s1 < to_come s" "calm s1" by (simp_all add: after_def)
      then obtain n' k' s' where l: "get_pdu mode s1 (Child_loop p len len k r z) = Some (n', k', s')" "after False s1 s'" using less.hyps by blast
      have "get_pdu mode s (Get_node z) = Some (n', k', s')" using s1(1) Open_node l(1) by (subst get_pdu.simps) simp
      moreover have "after (n' \<noteq> None) s s'" using after_then [OF lt l(2)] by (simp add: after_def)
      ultimately show ?thesis by blast
    qed
  qed
  moreover have "\<exists>n k s'. get_pdu mode s (Child_loop p len l st r z) = Some (n, k, s') \<and> after False s s'" for p len l st r z
  proof -
    obtain n k s1 where s1: "get_pdu mode s (Get_node st) = Some (n, k, s1)" "after (n \<noteq> None) s s1" using node by blast
    show ?thesis
    proof (cases "next_child p len l (c_int (r + k)) z n k")
      case (Stop m j)
      then have "get_pdu mode s (Child_loop p len l st r z) = Some (m, j, s1)" using s1(1) by (subst get_pdu.simps) (simp add: Let_def)
      then show ?thesis using s1(2) by (auto simp: after_def)
    next
      case (Go_on p1 l1)
      then have "n \<noteq> None" by (cases n) (auto simp: next_child_def split: if_splits)
      then have lt: "after True s s1" using s1(2) by (simp add: after_def)
      then have "to_come s1 < to_come s" "calm s1" by (simp_all add: after_def)
      then obtain n' k' s' where m: "get_pdu mode s1 (Child_loop p1 len l1 k (c_int (r + k)) z) = Some (n', k', s')" "after False s1 s'"
        using less.hyps by blast
      have "get_pdu mode s (Child_loop p len l st r z) = Some (n', k', s')" using s1(1) Go_on m(1) by (subst get_pdu.simps) (simp add: Let_def)
      moreover have "after False s s'" using after_then [OF lt m(2)] by (simp add: after_def)
      ultimately show ?thesis by blast
    qed
  qed
  ultimately show ?case by blast
qed

lemma stream_calm: "calm_mode (stream_mode context secs)"
  by (auto simp: calm_mode_def stream_mode_def WaitForData_def TimeOut_def after_def calm_def to_come_def close_fd_def EBADF_def EINTR_def
      split: prod.splits list.splits if_splits)

text \<open>
  C36: whatever octets a peer sends, nested or cut off in whatever way, and in whatever pieces, \<open>GetPDUFromStream\<close> returns if the peer ends
  the connection after them, by closing it or by a failure, and no call of the system is interrupted. That the peer ends the
  connection is needed: \<open>silent_peer_never_returns\<close>.
\<close>

theorem GetPDUFromStream_returns:
  assumes "calm s"
  shows "\<exists>node size s'. GetPDUFromStream context s z secs = Some (node, size, s')"
  using get_pdu_after [OF stream_calm assms] unfolding GetPDUFromStream_def by blast

theorem GetPDUFromStream_returns_witness: "\<exists>node size s'. GetPDUFromStream Z_CLIENT sample_cut 0 60 = Some (node, size, s')"
  by (rule GetPDUFromStream_returns) (simp add: calm_def sample_cut_def EINTR_def)

section \<open>A silent peer\<close>

context waiting_mode
begin

text \<open>The wait before the contents of a primitive value is for their first octet only.\<close>

lemma silent_in_value:
  assumes "sock_valid s" and "ready s" and "sock_octets s = tag_octets c 0 t @ len_octets n @ cs" and "tag_ok c 0 t" and "\<not> (c = 0 \<and> t = 0)"
    and "cs \<noteq> []" and "int (length cs) < n" and "n < 2147483647" and "goes_silent (incoming s)"
  shows "get_pdu mode s (Get_node z) = None"
proof -
  have n: "0 \<le> n" "n < 2147483648" using assms(7,8) by linarith+
  obtain w s1 w1 s2 where h: "pm_wait mode s = (True, w)"
      "GetTAGFromStream w = Some (1, c, 0, t, int (length (tag_octets c 0 t)), s1)" "pm_wait mode s1 = (True, w1)"
      "GetLENFromStream w1 (int (length (tag_octets c 0 t))) = Some (n, int (length (len_octets n)), s2)"
      "sock_valid s2" "ready s2" "sock_octets s2 = cs" "goes_silent (incoming s2)"
    using header_reads [OF assms(1-4) _ n, of "int (length (tag_octets c 0 t))"] assms(5,9) by auto
  obtain w2 where w2: "pm_wait mode s2 = (True, w2)" "sock_octets w2 = cs" "incoming w2 = incoming s2"
    using wait_ok [OF h(6) not_silent] h(7) assms(6) by auto
  have "is_open w2" using w2(2) assms(6) by (auto simp: sock_octets_def split: if_splits)
  moreover have "length (event_octets (incoming w2)) < nat n" using w2(2) \<open>is_open w2\<close> assms(7) by (simp add: sock_octets_def)
  moreover have "goes_silent (incoming w2)" using h(8) w2(3) by simp
  ultimately have "read_loop w2 n (int (nat n)) [] = None" by (rule read_loop_silent)
  then have "ReadFromSocket w2 n = None" using n(1) by (simp add: ReadFromSocket_def)
  moreover have "\<not> c_int (n + 1) < 0"
  proof -
    have "is_c_int (n + 1)" using n(1) assms(8) by (simp add: is_c_int_def)
    then show ?thesis using n(1) by simp
  qed
  ultimately have "read_primitive p w2 n = None" for p by (simp add: read_primitive_def)
  moreover have "0 < n" using assms(6,7) by (cases cs) simp_all
  ultimately have "start_pdu mode s z = None"
    using h(1-4) w2(1) assms(5) by (auto simp: start_pdu_def PRIMITIVE_def)
  then show ?thesis by (subst get_pdu.simps) simp
qed

end

text \<open>
  Finding: a peer that sends some but not all octets of a primitive value and stays connected makes \<open>GetPDUFromStream\<close>
  wait forever, whatever the time limit is: \<open>WaitForData\<close> sees the first octet and \<open>ReadFromSocket\<close> waits for the others without a limit.
\<close>

theorem silent_peer_never_returns:
  assumes "sock_valid s" and "stream_ready s" and "sock_octets s = tag_octets c 0 t @ len_octets n @ cs" and "tag_ok c 0 t" and "\<not> (c = 0 \<and> t = 0)"
    and "cs \<noteq> []" and "int (length cs) < n" and "n < 2147483647" and "goes_silent (incoming s)"
  shows "GetPDUFromStream Z_SERVER s z secs = None"
  unfolding GetPDUFromStream_def by (rule server.silent_in_value [OF assms])

theorem silent_peer_never_returns_witness:
  "GetPDUFromStream Z_SERVER (sample_cut\<lparr>incoming := [Data [141, 2, 5], Silent]\<rparr>) 0 60 = None"
proof (rule silent_peer_never_returns)
  have "tag_octets 2 0 13 = [141]" "len_octets 2 = [2]" by code_simp+
  then show "sock_octets (sample_cut\<lparr>incoming := [Data [141, 2, 5], Silent]\<rparr>) = tag_octets 2 0 13 @ len_octets 2 @ [5]"
    by (simp add: sample_cut_def sock_octets_def)
qed (simp_all add: sample_cut_def sock_valid_def stream_ready_def EINTR_def tag_ok_def)

end
