(* ===== verification/C_Float.thy ===== *)
theory C_Float
  imports Prelude Complex_Main
begin

text \<open>
  The \<open>float\<close> and \<open>double\<close> of the program: IEEE binary32 and binary64 with rounding to the
  nearest value, ties to even. A finite value is the rational number it stands for; the
  two zeros are one value. Expressions mix the two types as C does: an operation with a
  \<open>double\<close> operand is done in binary64, one between \<open>float\<close>s in binary32, and an assignment
  to a \<open>float\<close> rounds to binary32.
\<close>

section \<open>Values and rounding\<close>

datatype cfloat = Fin rat | PInf | NInf | NaN

text \<open>
  A format has a precision \<open>p\<close>, a smallest unit \<open>2 ^ - b\<close> and a largest unit \<open>2 ^ (j - b)\<close>.
\<close>

type_synonym float_format = "nat \<times> nat \<times> nat"

definition binary32 :: float_format where
  "binary32 = (24, 149, 253)"

definition binary64 :: float_format where
  "binary64 = (53, 1074, 2045)"

text \<open>The unit for a number \<open>m\<close>, counted in smallest units: double it until \<open>m\<close> fits \<open>p\<close> bits.\<close>

fun fl_scale :: "nat \<Rightarrow> nat \<Rightarrow> rat \<Rightarrow> nat \<Rightarrow> rat \<times> nat" where
  "fl_scale p 0 m j = (m, j)"
| "fl_scale p (Suc n) m j = (if m < 2 ^ p then (m, j) else fl_scale p n (m / 2) (Suc j))"

definition round_even :: "rat \<Rightarrow> int" where
  "round_even x =
     (let f = \<lfloor>x\<rfloor>; d = x - of_int f
      in if d < 1 / 2 then f else if 1 / 2 < d then f + 1 else if even f then f else f + 1)"

definition fl_nonneg :: "float_format \<Rightarrow> rat \<Rightarrow> cfloat" where
  "fl_nonneg fmt x =
     (let (p, b, jmax) = fmt; (m, j) = fl_scale p (Suc jmax) (x * 2 ^ b) 0; r = round_even m
      in if jmax < j \<or> j = jmax \<and> 2 ^ p \<le> r then PInf else Fin (of_int r * 2 ^ j / 2 ^ b))"

fun fl_neg :: "cfloat \<Rightarrow> cfloat" where
  "fl_neg (Fin x) = Fin (- x)"
| "fl_neg PInf = NInf"
| "fl_neg NInf = PInf"
| "fl_neg NaN = NaN"

definition fl_round :: "float_format \<Rightarrow> rat \<Rightarrow> cfloat" where
  "fl_round fmt x = (if 0 \<le> x then fl_nonneg fmt x else fl_neg (fl_nonneg fmt (- x)))"

section \<open>Operations\<close>

fun fl_to :: "float_format \<Rightarrow> cfloat \<Rightarrow> cfloat" where
  "fl_to fmt (Fin x) = fl_round fmt x"
| "fl_to fmt a = a"

fun fl_add :: "float_format \<Rightarrow> cfloat \<Rightarrow> cfloat \<Rightarrow> cfloat" where
  "fl_add fmt (Fin x) (Fin y) = fl_round fmt (x + y)"
| "fl_add fmt NaN b = NaN"
| "fl_add fmt a NaN = NaN"
| "fl_add fmt PInf NInf = NaN"
| "fl_add fmt NInf PInf = NaN"
| "fl_add fmt (Fin x) b = b"
| "fl_add fmt a b = a"

definition fl_sub :: "float_format \<Rightarrow> cfloat \<Rightarrow> cfloat \<Rightarrow> cfloat" where
  "fl_sub fmt a b = fl_add fmt a (fl_neg b)"

definition fl_signed_inf :: "bool \<Rightarrow> cfloat" where
  "fl_signed_inf pos = (if pos then PInf else NInf)"

fun fl_positive :: "cfloat \<Rightarrow> bool" where
  "fl_positive (Fin x) = (0 \<le> x)"
| "fl_positive NInf = False"
| "fl_positive a = True"

fun fl_mul :: "float_format \<Rightarrow> cfloat \<Rightarrow> cfloat \<Rightarrow> cfloat" where
  "fl_mul fmt (Fin x) (Fin y) = fl_round fmt (x * y)"
| "fl_mul fmt a b =
     (if a = NaN \<or> b = NaN \<or> a = Fin 0 \<or> b = Fin 0 then NaN
      else fl_signed_inf (fl_positive a = fl_positive b))"

fun fl_div :: "float_format \<Rightarrow> cfloat \<Rightarrow> cfloat \<Rightarrow> cfloat" where
  "fl_div fmt (Fin x) (Fin y) =
     (if y \<noteq> 0 then fl_round fmt (x / y) else if x = 0 then NaN else fl_signed_inf (0 < x))"
| "fl_div fmt NaN b = NaN"
| "fl_div fmt a NaN = NaN"
| "fl_div fmt (Fin x) b = Fin 0"
| "fl_div fmt a (Fin y) = fl_signed_inf (fl_positive a = fl_positive (Fin y))"
| "fl_div fmt a b = NaN"

fun fl_less :: "cfloat \<Rightarrow> cfloat \<Rightarrow> bool" where
  "fl_less (Fin x) (Fin y) = (x < y)"
| "fl_less NaN b = False"
| "fl_less a NaN = False"
| "fl_less a PInf = (a \<noteq> PInf)"
| "fl_less NInf b = (b \<noteq> NInf)"
| "fl_less a b = False"

definition fl_eq :: "cfloat \<Rightarrow> cfloat \<Rightarrow> bool" where
  "fl_eq a b \<longleftrightarrow> a \<noteq> NaN \<and> a = b"

section \<open>Rounding is monotone\<close>

lemma round_even_floor: "\<lfloor>x\<rfloor> \<le> round_even x" "round_even x \<le> \<lfloor>x\<rfloor> + 1"
  by (simp_all add: round_even_def Let_def)

lemma round_even_of_int [simp]: "round_even (of_int n) = n"
  by (simp add: round_even_def)

lemma round_even_pow [simp]: "round_even (2 ^ n) = 2 ^ n"
  using round_even_of_int [of "2 ^ n"] by simp

lemma round_even_mono:
  assumes "x \<le> y"
  shows "round_even x \<le> round_even y"
proof (cases "\<lfloor>x\<rfloor> = \<lfloor>y\<rfloor>")
  case True
  with assms show ?thesis by (auto simp: round_even_def Let_def)
next
  case False
  then have "\<lfloor>x\<rfloor> + 1 \<le> \<lfloor>y\<rfloor>" using floor_mono [OF assms] by simp
  then show ?thesis using round_even_floor [of x] round_even_floor [of y] by linarith
qed

lemma fl_scale_spec:
  assumes "fl_scale p n m j = (m', j')" and "0 < j \<Longrightarrow> 2 ^ p \<le> 2 * m"
  shows "j \<le> j' \<and> j' \<le> j + n \<and> m = m' * 2 ^ (j' - j) \<and> (j' < j + n \<longrightarrow> m' < 2 ^ p)
    \<and> (0 < j' \<longrightarrow> 2 ^ p \<le> 2 * m')"
  using assms
proof (induction p n m j rule: fl_scale.induct)
  case (1 p m j)
  then show ?case by simp
next
  case (2 p n m j)
  show ?case
  proof (cases "m < 2 ^ p")
    case True
    with 2 show ?thesis by auto
  next
    case False
    then have "fl_scale p n (m / 2) (Suc j) = (m', j')" using 2(2) by simp
    then have ih: "Suc j \<le> j' \<and> j' \<le> Suc j + n \<and> m / 2 = m' * 2 ^ (j' - Suc j)
        \<and> (j' < Suc j + n \<longrightarrow> m' < 2 ^ p) \<and> (0 < j' \<longrightarrow> 2 ^ p \<le> 2 * m')"
      using 2(1) [OF False] False by simp
    then have "j' - j = Suc (j' - Suc j)" by linarith
    moreover have "m = m' * (2 * 2 ^ (j' - Suc j))" using ih by simp
    ultimately have "m = m' * 2 ^ (j' - j)" by (metis power_Suc)
    with ih show ?thesis by auto
  qed
qed

lemma scale_mono:
  assumes "0 < p" and "0 \<le> x" and "x \<le> y" and "fl_scale p n x 0 = (m, j)" and "fl_scale p n y 0 = (l, k)"
  shows "j \<le> k \<and> (of_int (round_even m) * 2 ^ j :: rat) \<le> of_int (round_even l) * 2 ^ k
    \<and> (j = k \<longrightarrow> round_even m \<le> round_even l)"
proof -
  have X: "j \<le> n" "x = m * 2 ^ j" "j < n \<longrightarrow> m < 2 ^ p" "0 < j \<longrightarrow> 2 ^ p \<le> 2 * m"
    using fl_scale_spec [OF assms(4)] by auto
  have Y: "k \<le> n" "y = l * 2 ^ k" "k < n \<longrightarrow> l < 2 ^ p" "0 < k \<longrightarrow> 2 ^ p \<le> 2 * l"
    using fl_scale_spec [OF assms(5)] by auto
  have jk: "j \<le> k"
  proof (rule ccontr)
    assume "\<not> j \<le> k"
    then have less: "k < j" by simp
    have "l < 2 ^ p" using Y(3) X(1) less by linarith
    then have "y < 2 ^ p * 2 ^ k" unfolding Y(2) by simp
    also have "\<dots> \<le> 2 * m * 2 ^ k" using X(4) less by simp
    also have "\<dots> = m * 2 ^ Suc k" by simp
    also have "\<dots> \<le> m * 2 ^ j"
    proof -
      have "0 \<le> m" using X(2) assms(2) mult_neg_pos [of m "2 ^ j"] by (cases "0 \<le> m") auto
      moreover have "(2 :: rat) ^ Suc k \<le> 2 ^ j" using less by (intro power_increasing) auto
      ultimately show ?thesis by (intro mult_left_mono) simp_all
    qed
    finally show False using X(2) assms(3) by simp
  qed
  show ?thesis
  proof (cases "j = k")
    case True
    then have "m \<le> l" using X(2) Y(2) assms(3) by simp
    then have "round_even m \<le> round_even l" by (rule round_even_mono)
    with True show ?thesis by simp
  next
    case False
    then have less: "j < k" using jk by simp
    have "m < 2 ^ p" using X(3) Y(1) less by simp
    then have "round_even m \<le> 2 ^ p"
      using round_even_mono [of m "of_int (2 ^ p)"] by simp
    then have "(of_int (round_even m) :: rat) \<le> 2 ^ p"
      by (metis of_int_le_iff of_int_numeral of_int_power)
    then have "(of_int (round_even m) * 2 ^ j :: rat) \<le> 2 ^ p * 2 ^ j" by simp
    also have "\<dots> \<le> of_int (round_even l) * 2 ^ k"
    proof -
      have pl: "2 ^ p \<le> 2 * l" using Y(4) less by simp
      obtain q where Suc: "p = Suc q" using assms(1) gr0_implies_Suc by blast
      then have "2 ^ q \<le> l" using pl by simp
      then have "2 ^ q \<le> round_even l"
        using round_even_mono [of "of_int (2 ^ q)" l] by simp
      then have r: "(2 ^ q :: rat) \<le> of_int (round_even l)"
        by (metis of_int_le_iff of_int_numeral of_int_power)
      have "(2 :: rat) ^ p * 2 ^ j = 2 ^ q * 2 ^ Suc j" using Suc by simp
      also have "\<dots> \<le> 2 ^ q * 2 ^ k" using less by (intro mult_left_mono power_increasing) auto
      also have "\<dots> \<le> of_int (round_even l) * 2 ^ k" using r by simp
      finally show ?thesis .
    qed
    finally show ?thesis using jk False by simp
  qed
qed

definition fl_le :: "cfloat \<Rightarrow> cfloat \<Rightarrow> bool" where
  "fl_le a b \<longleftrightarrow> fl_less a b \<or> fl_eq a b"

lemma fl_le_Fin [simp]: "fl_le (Fin x) (Fin y) \<longleftrightarrow> x \<le> y"
  by (auto simp: fl_le_def fl_eq_def)

lemma fl_le_PInf [simp]: "fl_le a PInf \<longleftrightarrow> a \<noteq> NaN"
  by (cases a) (auto simp: fl_le_def fl_eq_def)

lemma fl_le_neg [simp]: "fl_le (fl_neg a) (fl_neg b) \<longleftrightarrow> fl_le b a"
  by (cases a; cases b) (auto simp: fl_le_def fl_eq_def)

lemma fl_nonneg_eq:
  "fl_scale p (Suc jmax) (x * 2 ^ b) 0 = (m, j) \<Longrightarrow> fl_nonneg (p, b, jmax) x =
     (if jmax < j \<or> j = jmax \<and> 2 ^ p \<le> round_even m then PInf else Fin (of_int (round_even m) * 2 ^ j / 2 ^ b))"
  by (simp add: fl_nonneg_def Let_def del: fl_scale.simps)

lemma fl_nonneg_not_NaN [simp]: "fl_nonneg fmt x \<noteq> NaN" "fl_round fmt x \<noteq> NaN"
proof -
  show nn: "fl_nonneg fmt x \<noteq> NaN" for x
    by (cases fmt, cases "fl_scale (fst fmt) (Suc (snd (snd fmt))) (x * 2 ^ fst (snd fmt)) 0")
       (simp add: fl_nonneg_eq del: fl_scale.simps)
  have "fl_neg a \<noteq> NaN" if "a \<noteq> NaN" for a using that by (cases a) simp_all
  then show "fl_round fmt x \<noteq> NaN" using nn by (simp add: fl_round_def)
qed

lemma fl_nonneg_mono:
  assumes "0 < fst fmt" and "0 \<le> x" and "x \<le> y"
  shows "fl_le (fl_nonneg fmt x) (fl_nonneg fmt y)"
proof -
  obtain p b jm where fmt: "fmt = (p, b, jm)" by (cases fmt) auto
  obtain m j where m: "fl_scale p (Suc jm) (x * 2 ^ b) 0 = (m, j)" by force
  obtain l k where l: "fl_scale p (Suc jm) (y * 2 ^ b) 0 = (l, k)" by force
  have mono: "j \<le> k" "(of_int (round_even m) * 2 ^ j :: rat) \<le> of_int (round_even l) * 2 ^ k"
    "j = k \<longrightarrow> round_even m \<le> round_even l"
    using scale_mono [OF _ _ _ m l] assms fmt by simp_all
  show ?thesis
  proof (cases "jm < k \<or> k = jm \<and> 2 ^ p \<le> round_even l")
    case True
    then have "fl_nonneg fmt y = PInf" unfolding fmt fl_nonneg_eq [OF l] by simp
    then show ?thesis by simp
  next
    case False
    then have "\<not> (jm < j \<or> j = jm \<and> 2 ^ p \<le> round_even m)" using mono by auto
    then show ?thesis unfolding fmt fl_nonneg_eq [OF l] fl_nonneg_eq [OF m]
      using False mono(2) by (auto simp: divide_right_mono)
  qed
qed

lemma fl_scale_0: "fl_scale p n 0 0 = (0, 0)"
  by (cases n) simp_all

lemma fl_nonneg_0 [simp]: "fl_nonneg fmt 0 = (case fmt of (p, b, jm) \<Rightarrow> Fin 0)"
  using round_even_of_int [of 0] by (cases fmt) (auto simp: fl_nonneg_def fl_scale_0 Let_def)

lemma fl_round_0 [simp]: "fl_round fmt 0 = Fin 0"
  by (cases fmt) (simp add: fl_round_def)

lemma fl_round_nonneg: "0 < fst fmt \<Longrightarrow> 0 \<le> x \<Longrightarrow> fl_le (Fin 0) (fl_round fmt x)"
  using fl_nonneg_mono [of fmt 0 x] by (cases fmt) (simp add: fl_round_def)

lemma fl_le_trans_Fin: "fl_le a (Fin x) \<Longrightarrow> fl_le (Fin x) b \<Longrightarrow> fl_le a b"
  by (cases a; cases b) (auto simp: fl_le_def fl_eq_def)

lemma fl_round_mono:
  assumes "0 < fst fmt" and "x \<le> y"
  shows "fl_le (fl_round fmt x) (fl_round fmt y)"
proof -
  consider "0 \<le> x" | "x < 0" "0 \<le> y" | "y < 0" by linarith
  then show ?thesis
  proof cases
    case 1
    then show ?thesis using assms fl_nonneg_mono [of fmt x y] by (simp add: fl_round_def)
  next
    case 2
    then have "fl_le (fl_neg (fl_nonneg fmt (- x))) (fl_neg (Fin 0))"
      using assms(1) fl_nonneg_mono [of fmt 0 "- x"] by (cases fmt) (simp del: fl_neg.simps)
    then have "fl_le (fl_round fmt x) (Fin 0)" using 2 by (simp add: fl_round_def)
    then show ?thesis using fl_round_nonneg [OF assms(1)] 2 fl_le_trans_Fin by blast
  next
    case 3
    then show ?thesis using assms fl_nonneg_mono [of fmt "- y" "- x"] by (simp add: fl_round_def)
  qed
qed

lemma fl_round_1: "fl_round binary32 1 = Fin 1"
  by (simp add: fl_round_def fl_nonneg_def binary32_def round_even_def eval_nat_numeral)

end
