(* ===== verification/Qsort.thy ===== *)
theory Qsort
  imports Prelude "HOL-Library.Multiset"
begin

text \<open>
  \<open>qsort\<close> of the C library, as the callers use it: a comparison function that returns a
  negative, zero or positive number. The GNU C library sorts by merging, taking the element
  of the first half unless the one of the second compares smaller.

  \<open>sorter\<close> is what the search engine relies on: the elements are kept and come out in
  order, provided the comparison is one. The lemmas on sets of results are proved from it.
\<close>

section \<open>The contract\<close>

definition comparison_on :: "'a set \<Rightarrow> ('a \<Rightarrow> 'a \<Rightarrow> int) \<Rightarrow> bool" where
  "comparison_on A cmp \<longleftrightarrow>
     (\<forall>x\<in>A. \<forall>y\<in>A. cmp x y \<le> 0 \<or> cmp y x \<le> 0)
     \<and> (\<forall>x\<in>A. \<forall>y\<in>A. \<forall>z\<in>A. cmp x y \<le> 0 \<longrightarrow> cmp y z \<le> 0 \<longrightarrow> cmp x z \<le> 0)"

lemma comparison_on_subset: "comparison_on B cmp \<Longrightarrow> A \<subseteq> B \<Longrightarrow> comparison_on A cmp"
  unfolding comparison_on_def by blast

locale sorter =
  fixes sort_by :: "('a \<Rightarrow> 'a \<Rightarrow> int) \<Rightarrow> 'a list \<Rightarrow> 'a list"
  assumes sort_mset: "mset (sort_by cmp xs) = mset xs"
    and sort_ordered: "comparison_on (set xs) cmp \<Longrightarrow> sorted_wrt (\<lambda>x y. cmp x y \<le> 0) (sort_by cmp xs)"
begin

lemma sort_set: "set (sort_by cmp xs) = set xs"
  using sort_mset mset_eq_setD by blast

lemma sort_length: "length (sort_by cmp xs) = length xs"
  using sort_mset mset_eq_length by blast

lemma sort_distinct: "distinct (map f (sort_by cmp xs)) \<longleftrightarrow> distinct (map f xs)"
  using mset_map [of f "sort_by cmp xs"] mset_map [of f xs] sort_mset [of cmp xs]
    mset_eq_imp_distinct_iff [of "map f (sort_by cmp xs)" "map f xs"] by metis

text \<open>With distinct keys that the comparison respects, the keys come out strictly increasing.\<close>

lemma sort_strict:
  assumes "comparison_on (set xs) cmp" and "distinct (map f xs)"
    and "\<And>x y. x \<in> set xs \<Longrightarrow> y \<in> set xs \<Longrightarrow> cmp x y \<le> 0 \<Longrightarrow> f x \<le> (f y :: 'b :: linorder)"
  shows "sorted_wrt (<) (map f (sort_by cmp xs))"
proof -
  have "sorted_wrt (\<lambda>x y. f x \<le> f y) (sort_by cmp xs)"
    using sort_ordered [OF assms(1)] assms(3) sort_set [of cmp xs]
    by (auto intro: sorted_wrt_mono_rel [rotated])
  then have "sorted (map f (sort_by cmp xs))" by (simp add: sorted_wrt_map)
  then show ?thesis using assms(2) sort_distinct strict_sorted_iff by blast
qed

end

section \<open>Merging\<close>

fun merge_by :: "('a \<Rightarrow> 'a \<Rightarrow> int) \<Rightarrow> 'a list \<Rightarrow> 'a list \<Rightarrow> 'a list" where
  "merge_by cmp [] ys = ys"
| "merge_by cmp xs [] = xs"
| "merge_by cmp (x # xs) (y # ys) =
     (if cmp x y \<le> 0 then x # merge_by cmp xs (y # ys) else y # merge_by cmp (x # xs) ys)"

function qsort :: "('a \<Rightarrow> 'a \<Rightarrow> int) \<Rightarrow> 'a list \<Rightarrow> 'a list" where
  "qsort cmp xs =
     (if length xs \<le> 1 then xs
      else merge_by cmp (qsort cmp (take (length xs div 2) xs)) (qsort cmp (drop (length xs div 2) xs)))"
  by pat_completeness auto
termination
  by (relation "measure (length \<circ> snd)") auto

declare qsort.simps [simp del]

lemma merge_by_mset [simp]: "mset (merge_by cmp xs ys) = mset xs + mset ys"
  by (induction cmp xs ys rule: merge_by.induct) simp_all

lemma merge_by_set [simp]: "set (merge_by cmp xs ys) = set xs \<union> set ys"
  using merge_by_mset [of cmp xs ys] by (metis mset_append mset_eq_setD set_append)

lemma merge_by_ordered:
  assumes "comparison_on (set xs \<union> set ys) cmp"
    and "sorted_wrt (\<lambda>x y. cmp x y \<le> 0) xs" and "sorted_wrt (\<lambda>x y. cmp x y \<le> 0) ys"
  shows "sorted_wrt (\<lambda>x y. cmp x y \<le> 0) (merge_by cmp xs ys)"
  using assms
proof (induction cmp xs ys rule: merge_by.induct)
  case (3 cmp x xs y ys)
  have sub: "comparison_on (set xs \<union> set (y # ys)) cmp" "comparison_on (set (x # xs) \<union> set ys) cmp"
    by (rule comparison_on_subset [OF 3(3)]; auto)+
  show ?case
  proof (cases "cmp x y \<le> 0")
    case True
    have "cmp x z \<le> 0" if "z \<in> set xs \<union> set (y # ys)" for z
    proof -
      consider "z \<in> set xs" | "z = y" | "z \<in> set ys" using \<open>z \<in> set xs \<union> set (y # ys)\<close> by auto
      then show ?thesis
      proof cases
        case 1
        then show ?thesis using 3(4) by simp
      next
        case 2
        then show ?thesis using True by simp
      next
        case 3
        then have "cmp y z \<le> 0" using "3.prems"(3) by simp
        with True 3 "3.prems"(1) show ?thesis unfolding comparison_on_def by (meson UnCI list.set_intros)
      qed
    qed
    then show ?thesis using 3 True sub by simp
  next
    case False
    then have yx: "cmp y x \<le> 0" using 3(3) by (auto simp: comparison_on_def)
    have "cmp y z \<le> 0" if "z \<in> set (x # xs) \<union> set ys" for z
    proof -
      consider "z \<in> set ys" | "z = x" | "z \<in> set xs" using \<open>z \<in> set (x # xs) \<union> set ys\<close> by auto
      then show ?thesis
      proof cases
        case 1
        then show ?thesis using "3.prems"(3) by simp
      next
        case 2
        then show ?thesis using yx by simp
      next
        case 3
        then have "cmp x z \<le> 0" using "3.prems"(2) by simp
        with yx 3 "3.prems"(1) show ?thesis unfolding comparison_on_def by (meson UnCI list.set_intros)
      qed
    qed
    then show ?thesis using 3 False sub by simp
  qed
qed simp_all

lemma qsort_mset: "mset (qsort cmp xs) = mset xs"
proof (induction cmp xs rule: qsort.induct)
  case (1 cmp xs)
  then show ?case
    by (cases "length xs \<le> 1")
       (simp_all add: qsort.simps [of cmp xs], metis append_take_drop_id mset_append)
qed

lemma qsort_ordered: "comparison_on (set xs) cmp \<Longrightarrow> sorted_wrt (\<lambda>x y. cmp x y \<le> 0) (qsort cmp xs)"
proof (induction cmp xs rule: qsort.induct)
  case (1 cmp xs)
  show ?case
  proof (cases "length xs \<le> 1")
    case True
    then show ?thesis by (cases xs; cases "tl xs") (auto simp: qsort.simps)
  next
    case False
    let ?a = "take (length xs div 2) xs" and ?b = "drop (length xs div 2) xs"
    have sub: "set ?a \<union> set ?b = set xs" by (metis append_take_drop_id set_append)
    have "comparison_on (set ?a) cmp" "comparison_on (set ?b) cmp"
      using sub by (auto intro!: comparison_on_subset [OF 1(3)])
    then have "sorted_wrt (\<lambda>x y. cmp x y \<le> 0) (qsort cmp ?a)" "sorted_wrt (\<lambda>x y. cmp x y \<le> 0) (qsort cmp ?b)"
      using 1(1,2) False by simp_all
    moreover have "comparison_on (set (qsort cmp ?a) \<union> set (qsort cmp ?b)) cmp"
      using 1(3) sub qsort_mset [of cmp ?a] qsort_mset [of cmp ?b] mset_eq_setD by metis
    ultimately show ?thesis using merge_by_ordered False by (simp add: qsort.simps [of cmp xs])
  qed
qed

interpretation qs: sorter qsort
  by unfold_locales (simp_all add: qsort_mset qsort_ordered)

end
