(* ===== verification/Result_Set.thy ===== *)
theory Result_Set
  imports C_Float Qsort
begin

text \<open>
  The result sets of the search engine: \<open>weighted_entry\<close>, \<open>weighted_result\<close> and the result
  type flags of \<open>src/header/cheshire.h\<close>, sorting and ranking (\<open>se_sortset.c\<close>,
  \<open>se_rank_docs.c\<close>), the running maximum and minimum of the weights that every merge keeps,
  and min-max normalisation (\<open>se_min_max_norm\<close> of \<open>se_ormerge.c\<close>).

  Pointers (\<open>xtra\<close>, \<open>component\<close>, \<open>index_ptr\<close>) are addresses, 0 being the null pointer.
  \<open>entries\<close> is the array allocated with the set; the first \<open>num_hits\<close> are the hits.
\<close>

unbundle bit_operations_syntax

section \<open>The structures\<close>

record weighted_entry =
  record_num :: int
  xtra :: int
  weight :: cfloat

record weighted_result =
  setid :: string
  filename :: string
  result_type :: int
  component :: int
  termid :: "int list"
  index_ptr :: "int list"
  num_hits :: int
  doc_hits :: int
  result_weight :: cfloat
  max_weight :: cfloat
  min_weight :: cfloat
  entries :: "weighted_entry list"

definition PROBABILISTIC_RESULT :: int where "PROBABILISTIC_RESULT = 1"
definition PAGED_RESULT :: int where "PAGED_RESULT = 8"
definition PAGED_DOC_RESULT :: int where "PAGED_DOC_RESULT = 16"
definition COMPONENT_RESULT :: int where "COMPONENT_RESULT = 32"
definition VIRTUAL_RESULT :: int where "VIRTUAL_RESULT = 128"
definition OKAPI_RESULT :: int where "OKAPI_RESULT = 512"
definition CORI_RESULT :: int where "CORI_RESULT = 1024"
definition BITMAP_RESULT :: int where "BITMAP_RESULT = 2048"
definition FUZZY_RESULT :: int where "FUZZY_RESULT = 4096"
definition FUZZY_REQUEST :: int where "FUZZY_REQUEST = 8192"
definition BLOB_RESULT :: int where "BLOB_RESULT = 16384"
definition GEORANK_RESULT :: int where "GEORANK_RESULT = 32768"
definition TFIDF_RESULT :: int where "TFIDF_RESULT = 65536"
definition HYBRID_RESULT :: int where "HYBRID_RESULT = 131072"

definition BOOLEAN_AND :: int where "BOOLEAN_AND = 0"
definition BOOLEAN_OR :: int where "BOOLEAN_OR = 1"
definition BOOLEAN_NOT :: int where "BOOLEAN_NOT = 2"

lemmas result_flags = PROBABILISTIC_RESULT_def PAGED_RESULT_def PAGED_DOC_RESULT_def COMPONENT_RESULT_def
  VIRTUAL_RESULT_def OKAPI_RESULT_def CORI_RESULT_def BITMAP_RESULT_def FUZZY_RESULT_def FUZZY_REQUEST_def
  BLOB_RESULT_def GEORANK_RESULT_def TFIDF_RESULT_def HYBRID_RESULT_def

text \<open>\<open>(set->result_type & FLAG) == FLAG\<close>, for one flag.\<close>

definition has_flag :: "weighted_result \<Rightarrow> int \<Rightarrow> bool" where
  "has_flag s flag \<longleftrightarrow> result_type s AND flag = flag"

text \<open>The types of ranked results that the merges test for.\<close>

definition ranked_types :: int where
  "ranked_types = PROBABILISTIC_RESULT OR OKAPI_RESULT OR TFIDF_RESULT OR CORI_RESULT OR FUZZY_RESULT
     OR BLOB_RESULT OR GEORANK_RESULT"

definition ranked_flag :: "weighted_result \<Rightarrow> int" where
  "ranked_flag s = result_type s AND ranked_types"

text \<open>A set fresh from \<open>CALLOC\<close>: everything is zero.\<close>

definition new_result :: weighted_result where
  "new_result = \<lparr>setid = [], filename = [], result_type = 0, component = 0, termid = [], index_ptr = [],
     num_hits = 0, doc_hits = 0, result_weight = Fin 0, max_weight = Fin 0, min_weight = Fin 0, entries = []\<rparr>"

definition new_entry :: "int \<Rightarrow> cfloat \<Rightarrow> weighted_entry" where
  "new_entry n w = \<lparr>record_num = n, xtra = 0, weight = w\<rparr>"

definition hits :: "weighted_result \<Rightarrow> weighted_entry list" where
  "hits s = take (nat (num_hits s)) (entries s)"

definition records :: "weighted_result \<Rightarrow> int set" where
  "records s = record_num ` set (hits s)"

text \<open>The array is as long as the number of hits says.\<close>

definition wf_result :: "weighted_result \<Rightarrow> bool" where
  "wf_result s \<longleftrightarrow> num_hits s = int (length (entries s))"

text \<open>The hits are in the order of their record numbers, each record once.\<close>

definition by_record :: "weighted_entry list \<Rightarrow> bool" where
  "by_record es \<longleftrightarrow> sorted_wrt (<) (map record_num es)"

lemma hits_wf: "wf_result s \<Longrightarrow> hits s = entries s"
  by (simp add: hits_def wf_result_def)

section \<open>Sorting and ranking\<close>

definition compare_wt_entries :: "weighted_entry \<Rightarrow> weighted_entry \<Rightarrow> int" where
  "compare_wt_entries e1 e2 =
     (if record_num e1 < record_num e2 then - 1
      else if record_num e1 = record_num e2
      then if xtra e1 < xtra e2 then - 1 else if xtra e1 > xtra e2 then 1 else 0
      else 1)"

definition se_sortwtset :: "weighted_result \<Rightarrow> weighted_result" where
  "se_sortwtset s = s\<lparr>entries := qsort compare_wt_entries (hits s) @ drop (nat (num_hits s)) (entries s)\<rparr>"

definition compare_weights :: "weighted_entry \<Rightarrow> weighted_entry \<Rightarrow> int" where
  "compare_weights ent1 ent2 =
     (if fl_less (weight ent1) (weight ent2) then 1
      else if fl_eq (weight ent1) (weight ent2) then 0
      else - 1)"

definition se_rank_docs :: "weighted_result \<Rightarrow> weighted_result" where
  "se_rank_docs src = src\<lparr>entries := qsort compare_weights (hits src) @ drop (nat (num_hits src)) (entries src)\<rparr>"

lemma comparison_wt_entries: "comparison_on A compare_wt_entries"
  by (auto simp: comparison_on_def compare_wt_entries_def split: if_splits)

lemma comparison_weights:
  assumes "\<forall>e \<in> A. weight e \<noteq> NaN"
  shows "comparison_on A compare_weights"
proof -
  have le: "compare_weights e1 e2 \<le> 0 \<longleftrightarrow> \<not> fl_less (weight e1) (weight e2)" for e1 e2
    by (auto simp: compare_weights_def)
  have total: "\<not> (fl_less a b \<and> fl_less b a)" for a b
    by (cases a; cases b) auto
  have trans: "a \<noteq> NaN \<Longrightarrow> b \<noteq> NaN \<Longrightarrow> c \<noteq> NaN \<Longrightarrow> \<not> fl_less a b \<Longrightarrow> \<not> fl_less b c \<Longrightarrow> \<not> fl_less a c" for a b c
    by (cases a; cases b; cases c) auto
  show ?thesis unfolding comparison_on_def le using total trans assms by blast
qed

lemma se_sortwtset_fields [simp]:
  "num_hits (se_sortwtset s) = num_hits s" "result_type (se_sortwtset s) = result_type s"
  "filename (se_sortwtset s) = filename s" "component (se_sortwtset s) = component s"
  "result_weight (se_sortwtset s) = result_weight s" "max_weight (se_sortwtset s) = max_weight s"
  "min_weight (se_sortwtset s) = min_weight s"
  by (simp_all add: se_sortwtset_def)

lemma se_rank_docs_fields [simp]:
  "num_hits (se_rank_docs s) = num_hits s" "result_type (se_rank_docs s) = result_type s"
  "filename (se_rank_docs s) = filename s" "component (se_rank_docs s) = component s"
  "result_weight (se_rank_docs s) = result_weight s" "max_weight (se_rank_docs s) = max_weight s"
  "min_weight (se_rank_docs s) = min_weight s"
  by (simp_all add: se_rank_docs_def)

lemma length_qsort [simp]: "length (qsort cmp xs) = length xs"
  by (rule qs.sort_length)

lemma set_qsort [simp]: "set (qsort cmp xs) = set xs"
  by (rule qs.sort_set)

lemma hits_sorted [simp]: "hits (se_sortwtset s) = qsort compare_wt_entries (hits s)"
  by (auto simp: hits_def se_sortwtset_def)

lemma hits_ranked [simp]: "hits (se_rank_docs s) = qsort compare_weights (hits s)"
  by (auto simp: hits_def se_rank_docs_def)

lemma wf_sorted [simp]: "wf_result (se_sortwtset s) \<longleftrightarrow> wf_result s" "wf_result (se_rank_docs s) \<longleftrightarrow> wf_result s"
proof -
  have "length (hits s) + (length (entries s) - nat (num_hits s)) = length (entries s)"
    by (simp add: hits_def min_def)
  then show "wf_result (se_sortwtset s) \<longleftrightarrow> wf_result s" "wf_result (se_rank_docs s) \<longleftrightarrow> wf_result s"
    by (simp_all add: wf_result_def se_sortwtset_def se_rank_docs_def)
qed

lemma records_sorted [simp]: "records (se_sortwtset s) = records s" "records (se_rank_docs s) = records s"
  by (simp_all add: records_def)

lemma by_record_sorted: "distinct (map record_num (hits s)) \<Longrightarrow> by_record (hits (se_sortwtset s))"
  unfolding by_record_def hits_sorted
  by (rule qs.sort_strict [OF comparison_wt_entries]) (auto simp: compare_wt_entries_def split: if_splits)

lemma mset_records_ranked: "mset (map record_num (hits (se_rank_docs s))) = mset (map record_num (hits s))"
  by (simp add: qs.sort_mset)

section \<open>Weights\<close>

definition update_max :: "cfloat \<Rightarrow> cfloat \<Rightarrow> cfloat" where
  "update_max m w = (if fl_eq m (Fin 0) then w else if fl_less m w then w else m)"

definition update_min :: "cfloat \<Rightarrow> cfloat \<Rightarrow> cfloat" where
  "update_min m w = (if fl_eq m (Fin 0) then w else if fl_less w m then w else m)"

text \<open>An entry appended to the set being built, with the running maximum and minimum.\<close>

definition push_entry :: "weighted_result \<Rightarrow> weighted_entry \<Rightarrow> weighted_result" where
  "push_entry s e = s\<lparr>entries := entries s @ [e], max_weight := update_max (max_weight s) (weight e),
     min_weight := update_min (min_weight s) (weight e)\<rparr>"

definition weighs :: "weighted_result \<Rightarrow> bool" where
  "weighs s \<longleftrightarrow> result_type s AND PROBABILISTIC_RESULT \<noteq> 0 \<or> result_type s AND OKAPI_RESULT \<noteq> 0
     \<or> result_type s AND TFIDF_RESULT \<noteq> 0 \<or> result_type s AND CORI_RESULT \<noteq> 0 \<or> result_type s AND BLOB_RESULT \<noteq> 0
     \<or> result_type s AND GEORANK_RESULT \<noteq> 0 \<or> result_type s AND FUZZY_RESULT \<noteq> 0"

text \<open>The weight is that of the entry at an index.\<close>

definition se_min_max_norm :: "weighted_result \<Rightarrow> weighted_entry \<Rightarrow> cfloat" where
  "se_min_max_norm s item =
     (if weighs s
      then fl_div binary32 (fl_sub binary32 (weight item) (min_weight s))
             (fl_sub binary32 (max_weight s) (min_weight s))
      else Fin (1 / 2))"

text \<open>The running maximum and minimum are right for positive weights.\<close>

lemma fl_le_refl: "a \<noteq> NaN \<Longrightarrow> fl_le a a"
  by (simp add: fl_le_def fl_eq_def)

lemma fl_le_trans: "fl_le a b \<Longrightarrow> fl_le b c \<Longrightarrow> fl_le a c"
  by (cases a; cases b; cases c) (auto simp: fl_le_def fl_eq_def)

lemma fl_less_imp_le: "fl_less a b \<Longrightarrow> fl_le a b"
  by (simp add: fl_le_def)

lemma fl_not_less: "a \<noteq> NaN \<Longrightarrow> b \<noteq> NaN \<Longrightarrow> \<not> fl_less a b \<Longrightarrow> fl_le b a"
  by (cases a; cases b) (auto simp: fl_le_def fl_eq_def)

lemma positive_not: "fl_less (Fin 0) a \<Longrightarrow> a \<noteq> NaN \<and> \<not> fl_eq a (Fin 0)"
  by (cases a) (auto simp: fl_eq_def)

lemma running_max:
  assumes "fl_less (Fin 0) m" and "\<forall>w \<in> set ws. fl_less (Fin 0) w"
  shows "foldl update_max m ws \<in> set (m # ws) \<and> (\<forall>w \<in> set (m # ws). fl_le w (foldl update_max m ws))"
  using assms
proof (induction ws arbitrary: m)
  case Nil
  then show ?case using positive_not by (simp add: fl_le_refl)
next
  case (Cons w ws)
  let ?m = "update_max m w"
  have m: "m \<noteq> NaN" "\<not> fl_eq m (Fin 0)" "w \<noteq> NaN" using Cons.prems positive_not by auto
  then have "fl_less (Fin 0) ?m" "?m \<in> {m, w}" "fl_le m ?m" "fl_le w ?m"
    using Cons.prems by (auto simp: update_max_def fl_le_refl fl_less_imp_le fl_not_less)
  with Cons.IH [of ?m] Cons.prems show ?case by (auto intro: fl_le_trans)
qed

lemma running_min:
  assumes "fl_less (Fin 0) m" and "\<forall>w \<in> set ws. fl_less (Fin 0) w"
  shows "foldl update_min m ws \<in> set (m # ws) \<and> (\<forall>w \<in> set (m # ws). fl_le (foldl update_min m ws) w)"
  using assms
proof (induction ws arbitrary: m)
  case Nil
  then show ?case using positive_not by (simp add: fl_le_refl)
next
  case (Cons w ws)
  let ?m = "update_min m w"
  have m: "m \<noteq> NaN" "\<not> fl_eq m (Fin 0)" "w \<noteq> NaN" using Cons.prems positive_not by auto
  then have "fl_less (Fin 0) ?m" "?m \<in> {m, w}" "fl_le ?m m" "fl_le ?m w"
    using Cons.prems by (auto simp: update_min_def fl_le_refl fl_less_imp_le fl_not_less)
  with Cons.IH [of ?m] Cons.prems show ?case by (auto intro: fl_le_trans)
qed

lemma push_all:
  "entries (foldl push_entry s es) = entries s @ es"
  "max_weight (foldl push_entry s es) = foldl update_max (max_weight s) (map weight es)"
  "min_weight (foldl push_entry s es) = foldl update_min (min_weight s) (map weight es)"
  by (induction es arbitrary: s) (simp_all add: push_entry_def)

lemma update_from_0 [simp]: "update_max (Fin 0) w = w" "update_min (Fin 0) w = w"
  by (simp_all add: update_max_def update_min_def fl_eq_def)

text \<open>
  The maximum and minimum weight that the merges keep while they add entries to a new set
  are attained and bound every weight, as long as all weights are positive.
\<close>

theorem running_bounds:
  assumes "es \<noteq> []" and "\<forall>e \<in> set es. fl_less (Fin 0) (weight e)"
  shows "entries (foldl push_entry new_result es) = es
    \<and> max_weight (foldl push_entry new_result es) \<in> weight ` set es
    \<and> min_weight (foldl push_entry new_result es) \<in> weight ` set es
    \<and> (\<forall>e \<in> set es. fl_le (weight e) (max_weight (foldl push_entry new_result es))
         \<and> fl_le (min_weight (foldl push_entry new_result es)) (weight e))"
proof -
  obtain e fs where es: "es = e # fs" using assms(1) by (cases es) auto
  let ?s = "foldl push_entry new_result es"
  have mx: "max_weight ?s = foldl update_max (weight e) (map weight fs)"
    unfolding push_all by (simp add: es new_result_def)
  have mn: "min_weight ?s = foldl update_min (weight e) (map weight fs)"
    unfolding push_all by (simp add: es new_result_def)
  have ent: "entries ?s = es" unfolding push_all by (simp add: new_result_def)
  have img: "set (weight e # map weight fs) = weight ` set es" by (simp add: es)
  have pos: "fl_less (Fin 0) (weight e)" "\<forall>w \<in> set (map weight fs). fl_less (Fin 0) w"
    using assms(2) by (simp_all add: es)
  show ?thesis using running_max [OF pos] running_min [OF pos] unfolding mx mn ent img by blast
qed

theorem running_bounds_witness:
  "max_weight (foldl push_entry new_result [new_entry 3 (Fin 1), new_entry 5 (Fin 2)]) \<in> {Fin 1, Fin 2}"
  using running_bounds [of "[new_entry 3 (Fin 1), new_entry 5 (Fin 2)]"] by (auto simp: new_entry_def)

text \<open>
  C5: normalisation maps the weights between the minimum and the maximum of a ranked set into
  the interval from 0 to 1, whenever the difference of the two is a positive finite number.
\<close>

theorem se_min_max_norm_unit:
  assumes "weighs s" and "fl_le (min_weight s) (weight e)" and "fl_le (weight e) (max_weight s)"
    and "fl_sub binary32 (max_weight s) (min_weight s) = Fin d" and "0 < d"
  shows "\<exists>q. se_min_max_norm s e = Fin q \<and> 0 \<le> q \<and> q \<le> 1"
proof -
  have p: "0 < fst binary32" by (simp add: binary32_def)
  obtain a where a: "min_weight s = Fin a"
    using assms(2-4) by (cases "min_weight s"; cases "max_weight s"; cases "weight e")
      (auto simp: fl_sub_def fl_le_def fl_eq_def)
  obtain b where b: "max_weight s = Fin b"
    using assms(3,4) a by (cases "max_weight s"; cases "weight e") (auto simp: fl_sub_def fl_le_def fl_eq_def)
  obtain w where w: "weight e = Fin w"
    using assms(2,3) a b by (cases "weight e") (auto simp: fl_le_def fl_eq_def)
  have wab: "a \<le> w" "w \<le> b" using assms(2,3) a b w by simp_all
  have d: "fl_round binary32 (b - a) = Fin d" using assms(4) a b by (simp add: fl_sub_def)
  have lo: "fl_le (Fin 0) (fl_round binary32 (w - a))" using fl_round_nonneg [OF p] wab by simp
  have hi: "fl_le (fl_round binary32 (w - a)) (Fin d)"
    using fl_round_mono [OF p, of "w - a" "b - a"] wab d by simp
  obtain c where c: "fl_round binary32 (w - a) = Fin c" "0 \<le> c" "c \<le> d"
    using lo hi by (cases "fl_round binary32 (w - a)") (auto simp: fl_le_def fl_eq_def)
  have "0 \<le> c / d" "c / d \<le> 1" using c assms(5) by simp_all
  then have "fl_le (Fin 0) (fl_round binary32 (c / d))" "fl_le (fl_round binary32 (c / d)) (Fin 1)"
    using fl_round_nonneg [OF p] fl_round_mono [OF p, of "c / d" 1] fl_round_1 by simp_all
  then obtain q where "fl_round binary32 (c / d) = Fin q" "0 \<le> q" "q \<le> 1"
    by (cases "fl_round binary32 (c / d)") (auto simp: fl_le_def fl_eq_def)
  moreover have "se_min_max_norm s e = fl_round binary32 (c / d)"
    using assms(1,4,5) a b w c(1) by (simp add: se_min_max_norm_def fl_sub_def)
  ultimately show ?thesis by simp
qed

definition sample_ranked :: weighted_result where
  "sample_ranked = new_result\<lparr>result_type := PROBABILISTIC_RESULT, max_weight := Fin 1, min_weight := Fin 0,
     num_hits := 2, entries := [new_entry 3 (Fin 1), new_entry 5 (Fin 0)]\<rparr>"

theorem se_min_max_norm_unit_witness:
  "\<exists>q. se_min_max_norm sample_ranked (new_entry 3 (Fin 1)) = Fin q \<and> 0 \<le> q \<and> q \<le> 1"
  by (rule se_min_max_norm_unit [of _ _ 1])
     (simp_all add: sample_ranked_def new_entry_def weighs_def result_flags fl_sub_def fl_round_1 new_result_def)

text \<open>
  Finding: a weight of zero is forgotten as the minimum as soon as another weight follows, because
  0.0 also stands for no minimum yet; the record with weight zero then has a negative
  normalised weight.
\<close>

theorem running_min_forgets_zero:
  "min_weight (foldl push_entry new_result [new_entry 1 (Fin 0), new_entry 2 (Fin (1 / 2)), new_entry 3 (Fin 1)])
     = Fin (1 / 2)
   \<and> se_min_max_norm (foldl push_entry (new_result\<lparr>result_type := PROBABILISTIC_RESULT\<rparr>)
        [new_entry 1 (Fin 0), new_entry 2 (Fin (1 / 2)), new_entry 3 (Fin 1)]) (new_entry 1 (Fin 0)) = Fin (- 1)"
proof -
  have half: "fl_round binary32 (1 / 2) = Fin (1 / 2)"
    by (simp add: fl_round_def fl_nonneg_def binary32_def round_even_def eval_nat_numeral)
  have neg: "fl_round binary32 (- x) = fl_neg (fl_round binary32 x)" if "0 < x" for x
    using that by (simp add: fl_round_def)
  show ?thesis
    using half neg [of "1 / 2"] neg [of 1] fl_round_1
    by (simp add: push_entry_def new_result_def new_entry_def update_max_def update_min_def fl_eq_def
        se_min_max_norm_def weighs_def result_flags fl_sub_def)
qed

end
