(* ===== verification/Boolean_Merge.thy ===== *)
theory Boolean_Merge
  imports Result_Set
begin

text \<open>
  The Boolean operators of the search engine on result sets: \<open>se_andmerge\<close>
  (\<open>search/se_andmerge.c\<close>), \<open>se_notmerge\<close> (\<open>search/se_notmerge.c\<close>) and \<open>se_ormerge\<close>
  (\<open>search/se_ormerge.c\<close>).

  A merge returns the new set, \<open>None\<close> for \<open>NULL\<close>, and the two input sets as it leaves them:
  ranked inputs are sorted in place by record number, and \<open>se_ormerge\<close> cuts their
  \<open>result_weight\<close>. The functions of other files that a merge may hand the whole job to, or
  convert its input with, are collected in \<open>callees\<close>.
\<close>

unbundle bit_operations_syntax

type_synonym merge_out = "weighted_result option \<times> weighted_result option \<times> weighted_result option"

record callees =
  call_virtualmerge :: "weighted_result \<Rightarrow> weighted_result \<Rightarrow> int \<Rightarrow> int \<Rightarrow> merge_out run"
  call_bitmap_merge :: "weighted_result \<Rightarrow> weighted_result \<Rightarrow> int \<Rightarrow> merge_out run"
  call_page_docs :: "weighted_result \<Rightarrow> int \<Rightarrow> weighted_result option run"
  call_comp2doc :: "weighted_result \<Rightarrow> weighted_result option run"

section \<open>The sets to merge\<close>

text \<open>
  The working sets \<open>set1\<close> and \<open>set2\<close>, whether they still are the input sets, and the flags of
  the code: \<open>both_paged\<close>, \<open>paged_flag\<close> (non-zero) and \<open>both_component\<close>.
\<close>

record merge_sets =
  ms_set1 :: weighted_result
  ms_own1 :: bool
  ms_set2 :: weighted_result
  ms_own2 :: bool
  ms_both_paged :: bool
  ms_paged :: bool
  ms_both_component :: bool

definition page_step :: "callees \<Rightarrow> weighted_result \<Rightarrow> weighted_result \<Rightarrow> merge_sets run" where
  "page_step c inset1 inset2 =
     (let ms = \<lparr>ms_set1 = inset1, ms_own1 = True, ms_set2 = inset2, ms_own2 = True,
                ms_both_paged = False, ms_paged = False, ms_both_component = False\<rparr>
      in if has_flag inset1 PAGED_RESULT \<and> has_flag inset2 PAGED_RESULT then Done (ms\<lparr>ms_both_paged := True\<rparr>)
         else if has_flag inset1 PAGED_RESULT
         then run_bind (call_page_docs c inset1 1) (\<lambda>r. run_bind (deref r) (\<lambda>s.
                Done (ms\<lparr>ms_set1 := s, ms_own1 := False, ms_paged := True\<rparr>)))
         else if has_flag inset2 PAGED_RESULT
         then run_bind (call_page_docs c inset2 2) (\<lambda>r. run_bind (deref r) (\<lambda>s.
                Done (ms\<lparr>ms_set2 := s, ms_own2 := False, ms_paged := True\<rparr>)))
         else Done ms)"

text \<open>\<open>se_andmerge\<close> and \<open>se_notmerge\<close> convert one component set at most, \<open>se_ormerge\<close> both.\<close>

definition both_component :: "merge_sets \<Rightarrow> bool" where
  "both_component ms \<longleftrightarrow> has_flag (ms_set1 ms) COMPONENT_RESULT \<and> has_flag (ms_set2 ms) COMPONENT_RESULT
     \<and> component (ms_set1 ms) = component (ms_set2 ms)"

definition convert1 :: "callees \<Rightarrow> weighted_result \<Rightarrow> merge_sets \<Rightarrow> merge_sets run" where
  "convert1 c inset1 ms = run_bind (call_comp2doc c inset1) (\<lambda>r. run_bind (deref r) (\<lambda>s.
     Done (ms\<lparr>ms_set1 := s, ms_own1 := False\<rparr>)))"

definition convert2 :: "callees \<Rightarrow> weighted_result \<Rightarrow> merge_sets \<Rightarrow> merge_sets run" where
  "convert2 c inset2 ms = run_bind (call_comp2doc c inset2) (\<lambda>r. run_bind (deref r) (\<lambda>s.
     Done (ms\<lparr>ms_set2 := s, ms_own2 := False\<rparr>)))"

definition component_step :: "callees \<Rightarrow> weighted_result \<Rightarrow> weighted_result \<Rightarrow> merge_sets \<Rightarrow> merge_sets run" where
  "component_step c inset1 inset2 ms =
     (if both_component ms then Done (ms\<lparr>ms_both_component := True\<rparr>)
      else if has_flag (ms_set1 ms) COMPONENT_RESULT then convert1 c inset1 ms
      else if has_flag (ms_set2 ms) COMPONENT_RESULT then convert2 c inset2 ms
      else Done ms)"

definition component_step_or :: "callees \<Rightarrow> weighted_result \<Rightarrow> weighted_result \<Rightarrow> merge_sets \<Rightarrow> merge_sets run" where
  "component_step_or c inset1 inset2 ms =
     (if both_component ms then Done (ms\<lparr>ms_both_component := True\<rparr>)
      else run_bind (if has_flag (ms_set1 ms) COMPONENT_RESULT then convert1 c inset1 ms else Done ms)
             (\<lambda>ms. if has_flag (ms_set2 ms) COMPONENT_RESULT then convert2 c inset2 ms else Done ms))"

definition sort_ranked :: "weighted_result \<Rightarrow> weighted_result" where
  "sort_ranked s = (if ranked_flag s \<noteq> 0 then se_sortwtset s else s)"

definition rank_step :: "merge_sets \<Rightarrow> merge_sets" where
  "rank_step ms = ms\<lparr>ms_set1 := sort_ranked (ms_set1 ms), ms_set2 := sort_ranked (ms_set2 ms)\<rparr>"

definition prob_flag :: "merge_sets \<Rightarrow> int" where
  "prob_flag ms = ranked_flag (ms_set1 ms) OR ranked_flag (ms_set2 ms)"

text \<open>The end of each merge: the type of the new set, and ranking if an input was ranked.\<close>

definition finish_merge :: "merge_sets \<Rightarrow> bool \<Rightarrow> string \<Rightarrow> weighted_result \<Rightarrow> weighted_result" where
  "finish_merge ms fuzz fname newset =
     (let s0 = newset\<lparr>num_hits := int (length (entries newset)), setid := [], filename := fname, result_type := 0\<rparr>;
          s1 = (if ms_both_component ms
                then s0\<lparr>result_type := result_type s0 OR COMPONENT_RESULT, component := component (ms_set1 ms)\<rparr> else s0);
          s2 = (if ms_both_paged ms then s1\<lparr>result_type := result_type s1 OR PAGED_RESULT\<rparr> else s1);
          s3 = (if ms_paged ms then s2\<lparr>result_type := result_type s2 OR PAGED_DOC_RESULT\<rparr> else s2);
          s4 = (if fuzz then s3\<lparr>result_type := result_type s3 OR FUZZY_RESULT\<rparr> else s3)
      in if prob_flag ms \<noteq> 0 then se_rank_docs (s4\<lparr>result_type := result_type s4 OR prob_flag ms\<rparr>) else s4)"

definition merge_result :: "weighted_result \<Rightarrow> weighted_result \<Rightarrow> merge_sets \<Rightarrow> weighted_result \<Rightarrow> merge_out" where
  "merge_result inset1 inset2 ms newset =
     (Some newset, Some (if ms_own1 ms then ms_set1 ms else inset1), Some (if ms_own2 ms then ms_set2 ms else inset2))"

section \<open>AND\<close>

definition and_weight :: "bool \<Rightarrow> bool \<Rightarrow> cfloat \<Rightarrow> cfloat \<Rightarrow> cfloat" where
  "and_weight fuzz prob w1 w2 =
     (if fuzz
      then if prob then fl_to binary32 (fl_mul binary64 (fl_add binary32 w1 w2) (Fin (1 / 2))) else Fin (1 / 2)
      else if prob then fl_add binary32 w1 w2 else Fin 1)"

fun and_loop :: "bool \<Rightarrow> bool \<Rightarrow> weighted_result \<Rightarrow> weighted_entry list \<Rightarrow> weighted_entry list \<Rightarrow> weighted_result" where
  "and_loop fuzz prob newset (e1 # es1) (e2 # es2) =
     (if record_num e1 < record_num e2 then and_loop fuzz prob newset es1 (e2 # es2)
      else if record_num e1 > record_num e2 then and_loop fuzz prob newset (e1 # es1) es2
      else and_loop fuzz prob
             (push_entry newset (new_entry (record_num e1) (and_weight fuzz prob (weight e1) (weight e2)))) es1 es2)"
| "and_loop fuzz prob newset es1 es2 = newset"

text \<open>The first set is asked twice whether the request was fuzzy.\<close>

definition se_andmerge :: "callees \<Rightarrow> weighted_result option \<Rightarrow> weighted_result option \<Rightarrow> merge_out run" where
  "se_andmerge c in1 in2 =
     (case (in1, in2) of
        (Some inset1, Some inset2) \<Rightarrow>
          let fuzz = (result_type inset1 AND FUZZY_REQUEST \<noteq> 0 \<and> result_type inset1 AND FUZZY_REQUEST \<noteq> 0)
          in if has_flag inset1 VIRTUAL_RESULT \<or> has_flag inset2 VIRTUAL_RESULT
             then call_virtualmerge c inset1 inset2 BOOLEAN_AND 0
             else if has_flag inset1 BITMAP_RESULT \<or> has_flag inset2 BITMAP_RESULT
             then call_bitmap_merge c inset1 inset2 BOOLEAN_AND
             else run_bind (page_step c inset1 inset2) (\<lambda>ms0. run_bind (component_step c inset1 inset2 ms0) (\<lambda>ms1.
               let ms = rank_step ms1;
                   newset = and_loop fuzz (prob_flag ms \<noteq> 0) new_result (hits (ms_set1 ms)) (hits (ms_set2 ms))
               in Done (merge_result inset1 inset2 ms (finish_merge ms fuzz (filename inset1) newset))))
      | _ \<Rightarrow> Done (None, in1, in2))"

section \<open>NOT\<close>

text \<open>The entries before the end of the second set lose their \<open>xtra\<close>, the remainder is copied whole.\<close>

fun not_loop :: "weighted_entry list \<Rightarrow> weighted_entry list \<Rightarrow> weighted_entry list" where
  "not_loop [] es2 = []"
| "not_loop es1 [] = es1"
| "not_loop (e1 # es1) (e2 # es2) =
     (if record_num e1 > record_num e2 then not_loop (e1 # es1) es2
      else if record_num e1 = record_num e2 then not_loop es1 es2
      else new_entry (record_num e1) (weight e1) # not_loop es1 (e2 # es2))"

text \<open>A copy with \<open>memcpy\<close>: the structure, which has room for one entry, and \<open>num_hits\<close> more.\<close>

definition copy_result :: "weighted_result \<Rightarrow> weighted_result" where
  "copy_result s = s\<lparr>entries := take (nat (num_hits s) + 1) (entries s)\<rparr>"

definition se_notmerge :: "callees \<Rightarrow> weighted_result option \<Rightarrow> weighted_result option \<Rightarrow> merge_out run" where
  "se_notmerge c in1 in2 =
     (case (in1, in2) of
        (None, _) \<Rightarrow> Done (None, in1, in2)
      | (Some inset1, None) \<Rightarrow> Done (Some (copy_result inset1), in1, in2)
      | (Some inset1, Some inset2) \<Rightarrow>
          let fuzz = (result_type inset1 AND FUZZY_REQUEST \<noteq> 0 \<and> result_type inset2 AND FUZZY_REQUEST \<noteq> 0)
          in if has_flag inset1 VIRTUAL_RESULT \<or> has_flag inset2 VIRTUAL_RESULT
             then call_virtualmerge c inset1 inset2 BOOLEAN_NOT 0
             else if has_flag inset1 BITMAP_RESULT \<or> has_flag inset2 BITMAP_RESULT
             then call_bitmap_merge c inset1 inset2 BOOLEAN_NOT
             else run_bind (page_step c inset1 inset2) (\<lambda>ms0. run_bind (component_step c inset1 inset2 ms0) (\<lambda>ms1.
               let ms = rank_step ms1;
                   newset = new_result\<lparr>max_weight := max_weight (ms_set1 ms), min_weight := min_weight (ms_set1 ms),
                     entries := not_loop (hits (ms_set1 ms)) (hits (ms_set2 ms))\<rparr>
               in Done (merge_result inset1 inset2 ms (finish_merge ms fuzz (filename (ms_set1 ms)) newset)))))"

section \<open>OR\<close>

definition MERGESUM :: int where "MERGESUM = 1"
definition FUZZY :: int where "FUZZY = 2"
definition MERGEMEAN :: int where "MERGEMEAN = 3"
definition MERGENORM :: int where "MERGENORM = 4"
definition MERGECMBZ :: int where "MERGECMBZ = 5"
definition MERGENSUM :: int where "MERGENSUM = 6"
definition MERGENPRV :: int where "MERGENPRV = 7"

text \<open>\<open>MERGE_SUM\<close> tests the types of ranked results without the fuzzy one.\<close>

definition weighs_sum :: "weighted_result \<Rightarrow> bool" where
  "weighs_sum s \<longleftrightarrow> result_type s AND PROBABILISTIC_RESULT \<noteq> 0 \<or> result_type s AND OKAPI_RESULT \<noteq> 0
     \<or> result_type s AND TFIDF_RESULT \<noteq> 0 \<or> result_type s AND BLOB_RESULT \<noteq> 0
     \<or> result_type s AND GEORANK_RESULT \<noteq> 0 \<or> result_type s AND CORI_RESULT \<noteq> 0"

definition half :: "cfloat \<Rightarrow> cfloat" where
  "half w = fl_to binary32 (fl_div binary64 w (Fin 2))"

definition twice :: "cfloat \<Rightarrow> cfloat" where
  "twice w = fl_to binary32 (fl_mul binary64 w (Fin 2))"

text \<open>The weight of a record that is in both sets.\<close>

definition or_both_weight ::
    "int \<Rightarrow> bool \<Rightarrow> weighted_result \<Rightarrow> weighted_entry \<Rightarrow> weighted_result \<Rightarrow> weighted_entry \<Rightarrow> cfloat" where
  "or_both_weight addweights fuzz set1 e1 set2 e2 =
     (if addweights = MERGESUM then
        let save_sum = (if weighs_sum set1 then fl_to binary32 (fl_add binary64 (Fin 1) (weight e1)) else Fin (3 / 2))
        in fl_to binary32 (fl_add binary64 save_sum
             (if weighs_sum set2 then fl_add binary64 (Fin 1) (weight e2) else Fin (3 / 2)))
      else if addweights = FUZZY \<and> fuzz then
        let save_sum = (if weighs set1 then weight e1 else Fin (1 / 2))
        in if weighs set2 \<and> fl_less save_sum (weight e2) then weight e2 else save_sum
      else if addweights = MERGEMEAN then
        if weighs set1 \<or> weighs set2 then half (fl_add binary32 (weight e1) (weight e2)) else Fin (1 / 2)
      else if addweights = MERGENORM then
        if weighs set1 \<or> weighs set2
        then half (fl_add binary32 (se_min_max_norm set1 e1) (se_min_max_norm set2 e2)) else Fin (1 / 2)
      else if addweights = MERGECMBZ then
        twice (fl_add binary32 (se_min_max_norm set1 e1) (se_min_max_norm set2 e2))
      else if addweights = MERGENSUM then
        fl_add binary32 (se_min_max_norm set1 e1) (se_min_max_norm set2 e2)
      else if addweights = MERGENPRV then
        twice (fl_add binary32 (se_min_max_norm set1 e1) (se_min_max_norm set2 e2))
      else fl_add binary32 (weight e1) (weight e2))"

text \<open>
  The weight of a record of one set, while the other set is not used up; \<open>k\<close> is the index
  after it.
\<close>

definition or_one_weight :: "int \<Rightarrow> weighted_result \<Rightarrow> weighted_entry \<Rightarrow> int \<Rightarrow> cfloat" where
  "or_one_weight addweights s e k =
     (if addweights = MERGEMEAN then half (weight e)
      else if addweights = MERGENORM then half (se_min_max_norm s e)
      else if addweights = MERGECMBZ \<or> addweights = MERGENSUM then half (se_min_max_norm s e)
      else if addweights = MERGENPRV then
        let tempval = se_min_max_norm s e
        in if num_hits s > 150 \<and> k < 100 \<or> num_hits s < 150 \<and> k < num_hits s div 2 then tempval else half tempval
      else weight e)"

text \<open>The weight of a record of one set once the other set is used up.\<close>

definition or_rest_weight :: "int \<Rightarrow> weighted_result \<Rightarrow> weighted_entry \<Rightarrow> cfloat" where
  "or_rest_weight addweights s e =
     (if addweights = MERGEMEAN then half (weight e)
      else if addweights = MERGENORM \<or> addweights = MERGECMBZ then half (se_min_max_norm s e)
      else if addweights = MERGENSUM then se_min_max_norm s e
      else if addweights = MERGENPRV then
        let tempval = se_min_max_norm s e in if fl_less (Fin (1 / 2)) tempval then tempval else half tempval
      else weight e)"

definition or_rest :: "int \<Rightarrow> weighted_result \<Rightarrow> weighted_result \<Rightarrow> weighted_entry list \<Rightarrow> weighted_result" where
  "or_rest addweights s newset es =
     foldl (\<lambda>new e. push_entry new (e\<lparr>weight := or_rest_weight addweights s e\<rparr>)) newset es"

fun or_loop :: "int \<Rightarrow> bool \<Rightarrow> weighted_result \<Rightarrow> weighted_result \<Rightarrow> weighted_result
    \<Rightarrow> int \<Rightarrow> weighted_entry list \<Rightarrow> int \<Rightarrow> weighted_entry list \<Rightarrow> weighted_result" where
  "or_loop addweights fuzz set1 set2 newset i1 (e1 # es1) i2 (e2 # es2) =
     (if record_num e1 = record_num e2
      then or_loop addweights fuzz set1 set2
             (push_entry newset (e1\<lparr>weight := or_both_weight addweights fuzz set1 e1 set2 e2\<rparr>)) (i1 + 1) es1 (i2 + 1) es2
      else if record_num e1 < record_num e2
      then or_loop addweights fuzz set1 set2
             (push_entry newset (e1\<lparr>weight := or_one_weight addweights set1 e1 (i1 + 1)\<rparr>)) (i1 + 1) es1 i2 (e2 # es2)
      else or_loop addweights fuzz set1 set2
             (push_entry newset (e2\<lparr>weight := or_one_weight addweights set2 e2 (i2 + 1)\<rparr>)) i1 (e1 # es1) (i2 + 1) es2)"
| "or_loop addweights fuzz set1 set2 newset i1 es1 i2 es2 =
     or_rest addweights set2 (or_rest addweights set1 newset es1) es2"

definition add_one_weight :: "int \<Rightarrow> weighted_result \<Rightarrow> weighted_result" where
  "add_one_weight addweights s =
     (if addweights \<noteq> 0 then s\<lparr>result_weight := fl_to binary32 (fl_add binary64 (result_weight s) (Fin 1))\<rparr> else s)"

definition cut_weight :: "weighted_result \<Rightarrow> weighted_result" where
  "cut_weight s = (if fl_less (Fin 1) (result_weight s) then s\<lparr>result_weight := Fin 1\<rparr> else s)"

definition cut_step :: "int \<Rightarrow> merge_sets \<Rightarrow> merge_sets" where
  "cut_step addweights ms =
     (if addweights \<noteq> 0 then ms\<lparr>ms_set1 := cut_weight (ms_set1 ms), ms_set2 := cut_weight (ms_set2 ms)\<rparr> else ms)"

definition se_ormerge :: "callees \<Rightarrow> weighted_result option \<Rightarrow> weighted_result option \<Rightarrow> int \<Rightarrow> merge_out run" where
  "se_ormerge c in1 in2 addweights =
     (case (in1, in2) of
        (None, None) \<Rightarrow> Done (None, in1, in2)
      | (None, Some inset2) \<Rightarrow> Done (Some (add_one_weight addweights (copy_result inset2)), in1, in2)
      | (Some inset1, None) \<Rightarrow> Done (Some (add_one_weight addweights (copy_result inset1)), in1, in2)
      | (Some inset1, Some inset2) \<Rightarrow>
          let fuzz = (result_type inset1 AND FUZZY_REQUEST \<noteq> 0 \<and> result_type inset2 AND FUZZY_REQUEST \<noteq> 0)
          in if has_flag inset1 VIRTUAL_RESULT \<or> has_flag inset2 VIRTUAL_RESULT
             then call_virtualmerge c inset1 inset2 BOOLEAN_OR addweights
             else if has_flag inset1 BITMAP_RESULT \<or> has_flag inset2 BITMAP_RESULT
             then call_bitmap_merge c inset1 inset2 BOOLEAN_OR
             else run_bind (page_step c inset1 inset2) (\<lambda>ms0. run_bind (component_step_or c inset1 inset2 ms0) (\<lambda>ms1.
               let ms = cut_step addweights (rank_step ms1);
                   start = (if addweights \<noteq> 0
                            then new_result\<lparr>result_weight := fl_add binary32 (result_weight (ms_set1 ms)) (result_weight (ms_set2 ms))\<rparr>
                            else new_result);
                   newset = or_loop addweights fuzz (ms_set1 ms) (ms_set2 ms) start
                              0 (hits (ms_set1 ms)) 0 (hits (ms_set2 ms))
               in Done (merge_result inset1 inset2 ms (finish_merge ms fuzz (filename (ms_set1 ms)) newset)))))"

section \<open>Sets the merges are defined for\<close>

text \<open>
  A set can be merged if it is in the order of its record numbers, or ranked, in which case the
  merge sorts it; either way each record is there once.
\<close>

definition mergeable :: "weighted_result \<Rightarrow> bool" where
  "mergeable s \<longleftrightarrow> wf_result s
     \<and> (if ranked_flag s \<noteq> 0 then distinct (map record_num (hits s)) else by_record (hits s))"

text \<open>
  Two sets that are merged directly: neither virtual nor a bitmap, both paged or neither, both of the
  same component or neither of a component.
\<close>

definition compatible :: "weighted_result \<Rightarrow> weighted_result \<Rightarrow> bool" where
  "compatible s1 s2 \<longleftrightarrow> \<not> has_flag s1 VIRTUAL_RESULT \<and> \<not> has_flag s2 VIRTUAL_RESULT
     \<and> \<not> has_flag s1 BITMAP_RESULT \<and> \<not> has_flag s2 BITMAP_RESULT
     \<and> has_flag s1 PAGED_RESULT = has_flag s2 PAGED_RESULT
     \<and> has_flag s1 COMPONENT_RESULT = has_flag s2 COMPONENT_RESULT
     \<and> (has_flag s1 COMPONENT_RESULT \<longrightarrow> component s1 = component s2)"

definition direct_sets :: "weighted_result \<Rightarrow> weighted_result \<Rightarrow> merge_sets" where
  "direct_sets s1 s2 = \<lparr>ms_set1 = s1, ms_own1 = True, ms_set2 = s2, ms_own2 = True,
     ms_both_paged = has_flag s1 PAGED_RESULT, ms_paged = False, ms_both_component = has_flag s1 COMPONENT_RESULT\<rparr>"

lemma compatible_steps:
  assumes "compatible s1 s2"
  shows "run_bind (page_step c s1 s2) (\<lambda>ms0. run_bind (component_step c s1 s2 ms0) f) = f (direct_sets s1 s2)"
    and "run_bind (page_step c s1 s2) (\<lambda>ms0. run_bind (component_step_or c s1 s2 ms0) f) = f (direct_sets s1 s2)"
  using assms by (auto simp: compatible_def page_step_def component_step_def component_step_or_def both_component_def
      direct_sets_def Let_def)

lemma by_record_distinct: "by_record es \<Longrightarrow> distinct (map record_num es)"
  by (simp add: by_record_def strict_sorted_iff)

lemma sort_ranked_facts [simp]:
  "records (sort_ranked s) = records s" "num_hits (sort_ranked s) = num_hits s" "filename (sort_ranked s) = filename s"
  "result_type (sort_ranked s) = result_type s" "component (sort_ranked s) = component s"
  "ranked_flag (sort_ranked s) = ranked_flag s" "length (hits (sort_ranked s)) = length (hits s)"
  by (simp_all add: sort_ranked_def ranked_flag_def)

lemma mergeable_sorted: "mergeable s \<Longrightarrow> by_record (hits (sort_ranked s))"
  using by_record_sorted [of s] by (auto simp: mergeable_def sort_ranked_def split: if_splits)

lemma mergeable_length: "mergeable s \<Longrightarrow> int (length (hits s)) = num_hits s"
  by (auto simp: mergeable_def wf_result_def hits_def)

section \<open>What the loops compute\<close>

lemma by_record_Cons: "by_record (e # es) \<longleftrightarrow> by_record es \<and> (\<forall>x \<in> set es. record_num e < record_num x)"
  by (auto simp: by_record_def)

lemma and_loop_records:
  assumes "by_record es1" and "by_record es2"
  shows "map record_num (entries (and_loop fuzz prob new es1 es2)) =
    map record_num (entries new) @ filter (\<lambda>r. r \<in> record_num ` set es2) (map record_num es1)"
  using assms
proof (induction fuzz prob new es1 es2 rule: and_loop.induct)
  case (1 fuzz prob new e1 es1 e2 es2)
  consider (lt) "record_num e1 < record_num e2" | (gt) "record_num e1 > record_num e2"
    | (eq) "record_num e1 = record_num e2" by linarith
  then show ?case
  proof cases
    case lt
    then have "record_num e1 \<notin> record_num ` set (e2 # es2)" using "1.prems" by (fastforce simp: by_record_Cons)
    with lt 1(1) "1.prems" show ?thesis by (simp add: by_record_Cons)
  next
    case gt
    then have "\<forall>r \<in> set (map record_num (e1 # es1)). r \<in> record_num ` set (e2 # es2) \<longleftrightarrow> r \<in> record_num ` set es2"
      using "1.prems" by (auto simp: by_record_Cons)
    then have "filter (\<lambda>r. r \<in> record_num ` set (e2 # es2)) (map record_num (e1 # es1)) =
      filter (\<lambda>r. r \<in> record_num ` set es2) (map record_num (e1 # es1))" by (intro filter_cong) auto
    with gt 1(2) "1.prems" show ?thesis by (simp add: by_record_Cons)
  next
    case eq
    then have "\<forall>r \<in> set (map record_num es1). r \<in> record_num ` set (e2 # es2) \<longleftrightarrow> r \<in> record_num ` set es2"
      using "1.prems" by (auto simp: by_record_Cons)
    then have "filter (\<lambda>r. r \<in> record_num ` set (e2 # es2)) (map record_num es1) =
      filter (\<lambda>r. r \<in> record_num ` set es2) (map record_num es1)" by (intro filter_cong) auto
    with eq 1(3) "1.prems" show ?thesis by (simp add: by_record_Cons push_entry_def new_entry_def)
  qed
qed simp_all

lemma not_loop_records:
  assumes "by_record es1" and "by_record es2"
  shows "map record_num (not_loop es1 es2) = filter (\<lambda>r. r \<notin> record_num ` set es2) (map record_num es1)"
  using assms
proof (induction es1 es2 rule: not_loop.induct)
  case (3 e1 es1 e2 es2)
  consider (gt) "record_num e1 > record_num e2" | (eq) "record_num e1 = record_num e2"
    | (lt) "record_num e1 < record_num e2" by linarith
  then show ?case
  proof cases
    case gt
    then have "\<forall>r \<in> set (map record_num (e1 # es1)). r \<in> record_num ` set (e2 # es2) \<longleftrightarrow> r \<in> record_num ` set es2"
      using "3.prems" by (auto simp: by_record_Cons)
    then have "filter (\<lambda>r. r \<notin> record_num ` set (e2 # es2)) (map record_num (e1 # es1)) =
      filter (\<lambda>r. r \<notin> record_num ` set es2) (map record_num (e1 # es1))" by (intro filter_cong) auto
    with gt 3(1) "3.prems" show ?thesis by (simp add: by_record_Cons)
  next
    case eq
    then have "\<forall>r \<in> set (map record_num es1). r \<in> record_num ` set (e2 # es2) \<longleftrightarrow> r \<in> record_num ` set es2"
      using "3.prems" by (auto simp: by_record_Cons)
    then have "filter (\<lambda>r. r \<notin> record_num ` set (e2 # es2)) (map record_num es1) =
      filter (\<lambda>r. r \<notin> record_num ` set es2) (map record_num es1)" by (intro filter_cong) auto
    with eq 3(2) "3.prems" show ?thesis by (simp add: by_record_Cons)
  next
    case lt
    then have "record_num e1 \<notin> record_num ` set (e2 # es2)" using "3.prems" by (fastforce simp: by_record_Cons)
    with lt 3(3) "3.prems" show ?thesis by (simp add: by_record_Cons new_entry_def)
  qed
qed simp_all

fun or_records :: "int list \<Rightarrow> int list \<Rightarrow> int list" where
  "or_records (r # rs) (q # qs) =
     (if r = q then r # or_records rs qs
      else if r < q then r # or_records rs (q # qs)
      else q # or_records (r # rs) qs)"
| "or_records rs qs = rs @ qs"

lemma or_rest_records: "map record_num (entries (or_rest aw s new es)) = map record_num (entries new) @ map record_num es"
  by (induction es arbitrary: new) (simp_all add: or_rest_def push_entry_def)

lemma or_loop_records:
  "map record_num (entries (or_loop aw fuzz s1 s2 new i1 es1 i2 es2)) =
     map record_num (entries new) @ or_records (map record_num es1) (map record_num es2)"
  by (induction aw fuzz s1 s2 new i1 es1 i2 es2 rule: or_loop.induct)
     (simp_all add: push_entry_def or_rest_records)

lemma or_records_set: "set (or_records rs qs) = set rs \<union> set qs"
  by (induction rs qs rule: or_records.induct) auto

lemma or_records_sorted: "sorted_wrt (<) rs \<Longrightarrow> sorted_wrt (<) qs \<Longrightarrow> sorted_wrt (<) (or_records rs qs)"
  by (induction rs qs rule: or_records.induct) (auto simp: or_records_set)

lemma or_records_length: "length (or_records rs qs) \<le> length rs + length qs"
  by (induction rs qs rule: or_records.induct) auto

section \<open>The set returned\<close>

lemma and_exp_flag: "(x :: int) AND 2 ^ k = 2 ^ k \<longleftrightarrow> bit x k"
proof
  assume "x AND 2 ^ k = 2 ^ k"
  then have "bit (x AND 2 ^ k) k" by (simp add: bit_exp_iff)
  then show "bit x k" by (simp add: bit_and_iff)
next
  assume "bit x k"
  then show "x AND 2 ^ k = 2 ^ k" by (intro bit_eqI) (auto simp: bit_and_iff bit_exp_iff)
qed

lemma flag_powers:
  "PROBABILISTIC_RESULT = 2 ^ 0" "PAGED_RESULT = 2 ^ 3" "PAGED_DOC_RESULT = 2 ^ 4" "COMPONENT_RESULT = 2 ^ 5"
  "VIRTUAL_RESULT = 2 ^ 7" "OKAPI_RESULT = 2 ^ 9" "CORI_RESULT = 2 ^ 10" "BITMAP_RESULT = 2 ^ 11"
  "FUZZY_RESULT = 2 ^ 12" "FUZZY_REQUEST = 2 ^ 13" "BLOB_RESULT = 2 ^ 14" "GEORANK_RESULT = 2 ^ 15"
  "TFIDF_RESULT = 2 ^ 16" "HYBRID_RESULT = 2 ^ 17"
  by (simp_all add: result_flags)

lemma has_flag_bit:
  "has_flag s PAGED_RESULT \<longleftrightarrow> bit (result_type s) 3" "has_flag s COMPONENT_RESULT \<longleftrightarrow> bit (result_type s) 5"
  "has_flag s VIRTUAL_RESULT \<longleftrightarrow> bit (result_type s) 7" "has_flag s BITMAP_RESULT \<longleftrightarrow> bit (result_type s) 11"
  unfolding has_flag_def flag_powers and_exp_flag by (rule refl)+

lemma ranked_types_bit: "bit ranked_types k \<longleftrightarrow> k \<in> {0, 9, 10, 12, 14, 15, 16}"
  unfolding ranked_types_def flag_powers bit_or_iff bit_exp_iff by auto

lemma prob_flag_bit:
  "bit (prob_flag ms) k \<longleftrightarrow>
     k \<in> {0, 9, 10, 12, 14, 15, 16} \<and> (bit (result_type (ms_set1 ms)) k \<or> bit (result_type (ms_set2 ms)) k)"
  by (auto simp: prob_flag_def ranked_flag_def bit_or_iff bit_and_iff ranked_types_bit)

lemma ranked_flag_prob: "prob_flag ms \<noteq> 0 \<Longrightarrow> (t OR prob_flag ms) AND ranked_types \<noteq> 0"
proof -
  assume "prob_flag ms \<noteq> 0"
  then obtain k where "bit (prob_flag ms) k" by (metis bit_0_eq bit_eq_iff bot_apply bot_bool_def)
  then have "bit ((t OR prob_flag ms) AND ranked_types) k"
    by (simp add: bit_and_iff bit_or_iff prob_flag_bit ranked_types_bit)
  then show ?thesis by (metis bit_0_eq bot_apply bot_bool_def)
qed

definition base_type :: "merge_sets \<Rightarrow> bool \<Rightarrow> int" where
  "base_type ms fuzz = (if ms_both_component ms then COMPONENT_RESULT else 0)
     OR (if ms_both_paged ms then PAGED_RESULT else 0) OR (if ms_paged ms then PAGED_DOC_RESULT else 0)
     OR (if fuzz then FUZZY_RESULT else 0)"

lemma finish_merge_type: "result_type (finish_merge ms fuzz fn new) = base_type ms fuzz OR prob_flag ms"
  by (auto simp: finish_merge_def base_type_def Let_def or.assoc)

lemma finish_merge_hits:
  "num_hits (finish_merge ms fuzz fn new) = int (length (entries new))"
  "hits (finish_merge ms fuzz fn new) = (if prob_flag ms \<noteq> 0 then qsort compare_weights (entries new) else entries new)"
  "filename (finish_merge ms fuzz fn new) = fn"
  "max_weight (finish_merge ms fuzz fn new) = max_weight new" "min_weight (finish_merge ms fuzz fn new) = min_weight new"
  by (auto simp: finish_merge_def Let_def hits_def se_rank_docs_def)

lemma finish_merge_ok:
  assumes "by_record (entries new)"
  shows "mergeable (finish_merge ms fuzz fn new)"
    and "records (finish_merge ms fuzz fn new) = record_num ` set (entries new)"
proof -
  let ?r = "finish_merge ms fuzz fn new"
  have wf: "wf_result ?r"
    by (auto simp: finish_merge_def Let_def wf_result_def hits_def se_rank_docs_def)
  have d: "distinct (map record_num (hits ?r))"
    using by_record_distinct [OF assms] by (simp add: finish_merge_hits qs.sort_distinct)
  have "ranked_flag ?r \<noteq> 0" if "prob_flag ms \<noteq> 0"
    using ranked_flag_prob [OF that] by (simp add: ranked_flag_def finish_merge_type)
  then show "mergeable ?r" using wf d assms by (auto simp: mergeable_def finish_merge_hits)
  show "records ?r = record_num ` set (entries new)" by (simp add: records_def finish_merge_hits)
qed

text \<open>A set with none of the flags that change what a merge does; the results of merges are again plain.\<close>

definition plain :: "weighted_result \<Rightarrow> bool" where
  "plain s \<longleftrightarrow> \<not> has_flag s VIRTUAL_RESULT \<and> \<not> has_flag s BITMAP_RESULT \<and> \<not> has_flag s PAGED_RESULT
     \<and> \<not> has_flag s COMPONENT_RESULT"

lemma plain_compatible: "plain s1 \<Longrightarrow> plain s2 \<Longrightarrow> compatible s1 s2"
  by (simp add: plain_def compatible_def)

lemma finish_merge_plain:
  assumes "\<not> ms_both_component ms" and "\<not> ms_both_paged ms"
  shows "plain (finish_merge ms fuzz fn new)"
proof -
  have "bit PAGED_DOC_RESULT k \<longleftrightarrow> k = 4" "bit FUZZY_RESULT k \<longleftrightarrow> k = 12" for k
    unfolding flag_powers bit_exp_iff by auto
  then have "bit (base_type ms fuzz) k \<longleftrightarrow> ms_paged ms \<and> k = 4 \<or> fuzz \<and> k = 12" for k
    unfolding base_type_def using assms by (auto simp: bit_or_iff)
  then show ?thesis unfolding plain_def has_flag_bit finish_merge_type bit_or_iff prob_flag_bit by simp
qed

section \<open>The merges are the set operations\<close>

text \<open>The working sets of a direct merge, sorted.\<close>

lemma direct_rank [simp]:
  "ms_set1 (rank_step (direct_sets s1 s2)) = sort_ranked s1" "ms_set2 (rank_step (direct_sets s1 s2)) = sort_ranked s2"
  "ms_own1 (rank_step (direct_sets s1 s2))" "ms_own2 (rank_step (direct_sets s1 s2))"
  "ms_both_component (rank_step (direct_sets s1 s2)) = has_flag s1 COMPONENT_RESULT"
  "ms_both_paged (rank_step (direct_sets s1 s2)) = has_flag s1 PAGED_RESULT"
  by (simp_all add: rank_step_def direct_sets_def)

lemma cut_weight_facts [simp]:
  "hits (cut_weight s) = hits s" "result_type (cut_weight s) = result_type s" "num_hits (cut_weight s) = num_hits s"
  "ranked_flag (cut_weight s) = ranked_flag s" "records (cut_weight s) = records s"
  by (simp_all add: cut_weight_def hits_def ranked_flag_def records_def)

lemma cut_step_facts [simp]:
  "hits (ms_set1 (cut_step aw ms)) = hits (ms_set1 ms)" "hits (ms_set2 (cut_step aw ms)) = hits (ms_set2 ms)"
  "ms_both_component (cut_step aw ms) = ms_both_component ms" "ms_both_paged (cut_step aw ms) = ms_both_paged ms"
  by (simp_all add: cut_step_def)

lemma finish_merge_setid [simp]: "setid (finish_merge ms fuzz fn new) = []"
  by (simp add: finish_merge_def se_rank_docs_def Let_def)

lemma sort_ranked_setid [simp]: "setid (sort_ranked s) = setid s"
  by (simp add: sort_ranked_def se_sortwtset_def)

lemma sort_ranked_plain [simp]: "plain (sort_ranked s) \<longleftrightarrow> plain s"
  by (simp add: plain_def has_flag_def)

lemma sort_ranked_mergeable: "mergeable s \<Longrightarrow> mergeable (sort_ranked s)"
  using mergeable_sorted [of s] by_record_distinct [of "hits (sort_ranked s)"]
  by (auto simp: mergeable_def sort_ranked_def ranked_flag_def split: if_splits)

lemma direct_plain:
  assumes "plain s1" and "plain s2"
  shows "plain (finish_merge (rank_step (direct_sets s1 s2)) fuzz fn new)"
    and "plain (finish_merge (cut_step aw (rank_step (direct_sets s1 s2))) fuzz fn new)"
  by (rule finish_merge_plain; use assms(1) in \<open>simp add: plain_def\<close>)+

lemma compatible_no_special:
  "compatible s1 s2 \<Longrightarrow> \<not> (has_flag s1 VIRTUAL_RESULT \<or> has_flag s2 VIRTUAL_RESULT)
     \<and> \<not> (has_flag s1 BITMAP_RESULT \<or> has_flag s2 BITMAP_RESULT)"
  by (simp add: compatible_def)

lemma strict_filter: "sorted_wrt (<) (xs :: int list) \<Longrightarrow> sorted_wrt (<) (filter P xs)"
  by (rule sorted_wrt_filter)

lemma filter_common_length:
  assumes "distinct xs" and "distinct ys"
  shows "length (filter (\<lambda>r. r \<in> set ys) xs) \<le> length ys"
proof -
  have "length (filter (\<lambda>r. r \<in> set ys) xs) = card (set xs \<inter> set ys)"
    using assms(1) by (metis Int_def distinct_card distinct_filter set_filter)
  also have "\<dots> \<le> card (set ys)" by (simp add: card_mono)
  finally show ?thesis using assms(2) by (simp add: distinct_card)
qed

definition and_new :: "weighted_result \<Rightarrow> weighted_result \<Rightarrow> weighted_result" where
  "and_new s1 s2 = and_loop (result_type s1 AND FUZZY_REQUEST \<noteq> 0) (prob_flag (rank_step (direct_sets s1 s2)) \<noteq> 0)
     new_result (hits (sort_ranked s1)) (hits (sort_ranked s2))"

lemma se_andmerge_direct:
  "compatible s1 s2 \<Longrightarrow> se_andmerge c (Some s1) (Some s2) =
     Done (Some (finish_merge (rank_step (direct_sets s1 s2)) (result_type s1 AND FUZZY_REQUEST \<noteq> 0) (filename s1) (and_new s1 s2)),
           Some (sort_ranked s1), Some (sort_ranked s2))"
  using compatible_no_special [of s1 s2]
  by (simp add: se_andmerge_def compatible_steps merge_result_def Let_def and_new_def)

lemma and_new_records:
  assumes "mergeable s1" and "mergeable s2"
  shows "map record_num (entries (and_new s1 s2)) =
      filter (\<lambda>r. r \<in> records s2) (map record_num (hits (sort_ranked s1)))"
proof -
  have "records s2 = record_num ` set (hits (sort_ranked s2))"
    using sort_ranked_facts(1) [of s2] unfolding records_def by simp
  then show ?thesis
    using and_loop_records [OF mergeable_sorted [OF assms(1)] mergeable_sorted [OF assms(2)]]
    by (simp add: and_new_def new_result_def)
qed

lemma se_andmerge_facts:
  assumes "mergeable s1" and "mergeable s2" and "compatible s1 s2"
  shows "\<exists>new. se_andmerge c (Some s1) (Some s2) = Done (Some new, Some (sort_ranked s1), Some (sort_ranked s2))
    \<and> records new = records s1 \<inter> records s2 \<and> mergeable new \<and> setid new = []
    \<and> (plain s1 \<and> plain s2 \<longrightarrow> plain new) \<and> num_hits new \<le> min (num_hits s1) (num_hits s2)"
proof -
  let ?ms = "rank_step (direct_sets s1 s2)" and ?fuzz = "result_type s1 AND FUZZY_REQUEST \<noteq> 0"
  let ?r = "finish_merge ?ms ?fuzz (filename s1) (and_new s1 s2)"
  note recs = and_new_records [OF assms(1,2)]
  have srt: "by_record (hits (sort_ranked s1))" "by_record (hits (sort_ranked s2))"
    using assms mergeable_sorted by auto
  have ord: "by_record (entries (and_new s1 s2))"
    unfolding by_record_def recs using srt(1) by (simp add: by_record_def strict_filter)
  have "record_num ` set (entries (and_new s1 s2)) = set (map record_num (entries (and_new s1 s2)))" by simp
  also have "\<dots> = records (sort_ranked s1) \<inter> records s2" unfolding recs by (auto simp: records_def)
  finally have "records ?r = records s1 \<inter> records s2"
    using finish_merge_ok(2) [OF ord] by simp
  moreover have "mergeable ?r" by (rule finish_merge_ok(1) [OF ord])
  moreover have "num_hits ?r \<le> min (num_hits s1) (num_hits s2)"
  proof -
    have len: "length (entries (and_new s1 s2)) =
        length (filter (\<lambda>r. r \<in> records s2) (map record_num (hits (sort_ranked s1))))"
      using arg_cong [OF recs, of length] by simp
    have "set (map record_num (hits (sort_ranked s2))) = records s2"
      using sort_ranked_facts(1) [of s2] unfolding records_def by simp
    then have "length (entries (and_new s1 s2)) \<le> length (hits (sort_ranked s2))"
      using len filter_common_length [OF by_record_distinct [OF srt(1)] by_record_distinct [OF srt(2)]] by simp
    moreover have "length (entries (and_new s1 s2)) \<le> length (hits (sort_ranked s1))"
      using len length_filter_le [of _ "map record_num (hits (sort_ranked s1))"] by simp
    ultimately show ?thesis using mergeable_length [OF assms(1)] mergeable_length [OF assms(2)]
      by (simp add: finish_merge_hits)
  qed
  moreover have "plain s1 \<and> plain s2 \<longrightarrow> plain ?r" using direct_plain(1) by blast
  ultimately show ?thesis using se_andmerge_direct [OF assms(3)] finish_merge_setid by blast
qed

text \<open>
  C2: \<open>se_andmerge\<close> of two compatible sets returns, without a crash, a set that holds exactly the
  records of both, each once and ready to be merged again, and it never writes beyond
  the array allocated for the smaller of the two.
\<close>

theorem se_andmerge_intersection:
  assumes "mergeable s1" and "mergeable s2" and "compatible s1 s2"
  shows "\<exists>new. se_andmerge c (Some s1) (Some s2) = Done (Some new, Some (sort_ranked s1), Some (sort_ranked s2))
    \<and> records new = records s1 \<inter> records s2 \<and> mergeable new
    \<and> num_hits new \<le> min (num_hits s1) (num_hits s2)"
  using se_andmerge_facts [OF assms] by blast

definition no_callees :: callees where
  "no_callees = \<lparr>call_virtualmerge = (\<lambda>s t op add. Crash), call_bitmap_merge = (\<lambda>s t op. Crash),
     call_page_docs = (\<lambda>s n. Crash), call_comp2doc = (\<lambda>s. Crash)\<rparr>"

definition sample_bool :: "int list \<Rightarrow> weighted_result" where
  "sample_bool rs = new_result\<lparr>num_hits := int (length rs), entries := map (\<lambda>r. new_entry r (Fin 1)) rs\<rparr>"

lemma sample_bool_facts:
  "mergeable (sample_bool rs) \<longleftrightarrow> sorted_wrt (<) rs" "records (sample_bool rs) = set rs" "num_hits (sample_bool rs) = int (length rs)"
  "plain (sample_bool rs)"
proof -
  have n: "(\<lambda>r. record_num (new_entry r w)) = (\<lambda>r. r)" for w by (simp add: new_entry_def)
  show "mergeable (sample_bool rs) \<longleftrightarrow> sorted_wrt (<) rs"
    by (simp add: sample_bool_def mergeable_def wf_result_def ranked_flag_def new_result_def hits_def by_record_def comp_def n)
  show "records (sample_bool rs) = set rs"
    by (simp add: sample_bool_def records_def hits_def image_image new_entry_def)
  show "num_hits (sample_bool rs) = int (length rs)" by (simp add: sample_bool_def)
  show "plain (sample_bool rs)"
    by (simp add: plain_def has_flag_bit sample_bool_def new_result_def)
qed

lemma sample_bool_compatible: "compatible (sample_bool rs) (sample_bool qs)"
  by (rule plain_compatible) (simp_all add: sample_bool_facts)

theorem se_andmerge_intersection_witness:
  "\<exists>new. se_andmerge no_callees (Some (sample_bool [2, 5, 9])) (Some (sample_bool [1, 5, 9, 11])) =
      Done (Some new, Some (sort_ranked (sample_bool [2, 5, 9])), Some (sort_ranked (sample_bool [1, 5, 9, 11])))
    \<and> records new = {5, 9} \<and> mergeable new \<and> num_hits new \<le> 3"
proof -
  have "\<exists>new. se_andmerge no_callees (Some (sample_bool [2, 5, 9])) (Some (sample_bool [1, 5, 9, 11])) =
      Done (Some new, Some (sort_ranked (sample_bool [2, 5, 9])), Some (sort_ranked (sample_bool [1, 5, 9, 11])))
    \<and> records new = records (sample_bool [2, 5, 9]) \<inter> records (sample_bool [1, 5, 9, 11]) \<and> mergeable new
    \<and> num_hits new \<le> min (num_hits (sample_bool [2, 5, 9])) (num_hits (sample_bool [1, 5, 9, 11]))"
    by (rule se_andmerge_intersection) (simp_all add: sample_bool_facts sample_bool_compatible)
  then show ?thesis by (auto simp: sample_bool_facts)
qed

lemma se_notmerge_direct:
  "compatible s1 s2 \<Longrightarrow> se_notmerge c (Some s1) (Some s2) =
     Done (Some (finish_merge (rank_step (direct_sets s1 s2))
             (result_type s1 AND FUZZY_REQUEST \<noteq> 0 \<and> result_type s2 AND FUZZY_REQUEST \<noteq> 0) (filename s1)
             (new_result\<lparr>max_weight := max_weight (sort_ranked s1), min_weight := min_weight (sort_ranked s1),
                entries := not_loop (hits (sort_ranked s1)) (hits (sort_ranked s2))\<rparr>)),
           Some (sort_ranked s1), Some (sort_ranked s2))"
  using compatible_no_special [of s1 s2]
  by (simp add: se_notmerge_def compatible_steps merge_result_def Let_def)

lemma se_notmerge_facts:
  assumes "mergeable s1" and "mergeable s2" and "compatible s1 s2"
  shows "\<exists>new. se_notmerge c (Some s1) (Some s2) = Done (Some new, Some (sort_ranked s1), Some (sort_ranked s2))
    \<and> records new = records s1 - records s2 \<and> mergeable new \<and> setid new = []
    \<and> (plain s1 \<and> plain s2 \<longrightarrow> plain new) \<and> num_hits new \<le> max (num_hits s1) (num_hits s2)"
proof -
  let ?ms = "rank_step (direct_sets s1 s2)"
  let ?fuzz = "result_type s1 AND FUZZY_REQUEST \<noteq> 0 \<and> result_type s2 AND FUZZY_REQUEST \<noteq> 0"
  let ?es = "not_loop (hits (sort_ranked s1)) (hits (sort_ranked s2))"
  let ?new = "new_result\<lparr>max_weight := max_weight (sort_ranked s1), min_weight := min_weight (sort_ranked s1), entries := ?es\<rparr>"
  let ?r = "finish_merge ?ms ?fuzz (filename s1) ?new"
  have srt: "by_record (hits (sort_ranked s1))" "by_record (hits (sort_ranked s2))"
    using assms mergeable_sorted by auto
  have r2: "record_num ` set (hits (sort_ranked s2)) = records s2"
    using sort_ranked_facts(1) [of s2] unfolding records_def by simp
  have recs: "map record_num ?es = filter (\<lambda>r. r \<notin> records s2) (map record_num (hits (sort_ranked s1)))"
    using not_loop_records [OF srt] r2 by simp
  have ord: "by_record (entries ?new)"
    using srt(1) recs by (simp add: by_record_def strict_filter)
  have "record_num ` set (entries ?new) = set (map record_num ?es)" by simp
  also have "\<dots> = records (sort_ranked s1) - records s2" unfolding recs by (auto simp: records_def)
  finally have "records ?r = records s1 - records s2" using finish_merge_ok(2) [OF ord] by simp
  moreover have "mergeable ?r" by (rule finish_merge_ok(1) [OF ord])
  moreover have "num_hits ?r \<le> max (num_hits s1) (num_hits s2)"
  proof -
    have "length ?es \<le> length (hits (sort_ranked s1))"
      using arg_cong [OF recs, of length] length_filter_le [of _ "map record_num (hits (sort_ranked s1))"] by simp
    then show ?thesis using mergeable_length [OF assms(1)] by (simp add: finish_merge_hits)
  qed
  moreover have "plain s1 \<and> plain s2 \<longrightarrow> plain ?r" using direct_plain(1) by blast
  ultimately show ?thesis using se_notmerge_direct [OF assms(3)] finish_merge_setid by blast
qed

text \<open>
  C4: \<open>se_notmerge\<close> of two compatible sets returns exactly the records of the first that are not in
  the second, each once and ready to be merged again, within the array allocated for them.
\<close>

theorem se_notmerge_difference:
  assumes "mergeable s1" and "mergeable s2" and "compatible s1 s2"
  shows "\<exists>new. se_notmerge c (Some s1) (Some s2) = Done (Some new, Some (sort_ranked s1), Some (sort_ranked s2))
    \<and> records new = records s1 - records s2 \<and> mergeable new \<and> num_hits new \<le> max (num_hits s1) (num_hits s2)"
  using se_notmerge_facts [OF assms] by blast

theorem se_notmerge_difference_witness:
  "\<exists>new. se_notmerge no_callees (Some (sample_bool [2, 5, 9])) (Some (sample_bool [1, 5, 11])) =
      Done (Some new, Some (sort_ranked (sample_bool [2, 5, 9])), Some (sort_ranked (sample_bool [1, 5, 11])))
    \<and> records new = {2, 9} \<and> mergeable new"
proof -
  have "\<exists>new. se_notmerge no_callees (Some (sample_bool [2, 5, 9])) (Some (sample_bool [1, 5, 11])) =
      Done (Some new, Some (sort_ranked (sample_bool [2, 5, 9])), Some (sort_ranked (sample_bool [1, 5, 11])))
    \<and> records new = records (sample_bool [2, 5, 9]) - records (sample_bool [1, 5, 11]) \<and> mergeable new
    \<and> num_hits new \<le> max (num_hits (sample_bool [2, 5, 9])) (num_hits (sample_bool [1, 5, 11]))"
    by (rule se_notmerge_difference) (simp_all add: sample_bool_facts sample_bool_compatible)
  then show ?thesis by (auto simp: sample_bool_facts)
qed

definition or_new :: "int \<Rightarrow> weighted_result \<Rightarrow> weighted_result \<Rightarrow> weighted_result" where
  "or_new addweights s1 s2 =
     (let ms = cut_step addweights (rank_step (direct_sets s1 s2));
          start = (if addweights \<noteq> 0
                   then new_result\<lparr>result_weight := fl_add binary32 (result_weight (ms_set1 ms)) (result_weight (ms_set2 ms))\<rparr>
                   else new_result)
      in or_loop addweights (result_type s1 AND FUZZY_REQUEST \<noteq> 0 \<and> result_type s2 AND FUZZY_REQUEST \<noteq> 0)
           (ms_set1 ms) (ms_set2 ms) start 0 (hits (sort_ranked s1)) 0 (hits (sort_ranked s2)))"

lemma se_ormerge_direct:
  "compatible s1 s2 \<Longrightarrow> \<exists>fn t1 t2. se_ormerge c (Some s1) (Some s2) aw =
     Done (Some (finish_merge (cut_step aw (rank_step (direct_sets s1 s2)))
             (result_type s1 AND FUZZY_REQUEST \<noteq> 0 \<and> result_type s2 AND FUZZY_REQUEST \<noteq> 0) fn (or_new aw s1 s2)), Some t1, Some t2)
     \<and> (aw = 0 \<longrightarrow> t1 = sort_ranked s1 \<and> t2 = sort_ranked s2)"
  using compatible_no_special [of s1 s2]
  by (cases "aw = 0") (auto simp: se_ormerge_def compatible_steps merge_result_def Let_def or_new_def cut_step_def)

lemma se_ormerge_facts:
  assumes "mergeable s1" and "mergeable s2" and "compatible s1 s2"
  shows "\<exists>new t1 t2. se_ormerge c (Some s1) (Some s2) addweights = Done (Some new, Some t1, Some t2)
    \<and> records new = records s1 \<union> records s2 \<and> mergeable new \<and> setid new = []
    \<and> (plain s1 \<and> plain s2 \<longrightarrow> plain new) \<and> (addweights = 0 \<longrightarrow> t1 = sort_ranked s1 \<and> t2 = sort_ranked s2)
    \<and> num_hits new \<le> num_hits s1 + num_hits s2"
proof -
  let ?ms = "cut_step addweights (rank_step (direct_sets s1 s2))"
  let ?fuzz = "result_type s1 AND FUZZY_REQUEST \<noteq> 0 \<and> result_type s2 AND FUZZY_REQUEST \<noteq> 0"
  let ?rs = "map record_num (hits (sort_ranked s1))" and ?qs = "map record_num (hits (sort_ranked s2))"
  have srt: "sorted_wrt (<) ?rs" "sorted_wrt (<) ?qs"
    using assms(1,2) mergeable_sorted by (simp_all add: by_record_def)
  have sets: "set ?rs = records s1" "set ?qs = records s2"
    using sort_ranked_facts(1) [of s1] sort_ranked_facts(1) [of s2] unfolding records_def by simp_all
  have recs: "map record_num (entries (or_new addweights s1 s2)) = or_records ?rs ?qs"
    by (simp add: or_new_def Let_def or_loop_records new_result_def)
  have ord: "by_record (entries (or_new addweights s1 s2))"
    unfolding by_record_def recs by (rule or_records_sorted [OF srt])
  have "record_num ` set (entries (or_new addweights s1 s2)) = records s1 \<union> records s2"
    using arg_cong [OF recs, of set] sets by (simp add: or_records_set)
  then have "records (finish_merge ?ms ?fuzz fn (or_new addweights s1 s2)) = records s1 \<union> records s2" for fn
    using finish_merge_ok(2) [OF ord] by simp
  moreover have "mergeable (finish_merge ?ms ?fuzz fn (or_new addweights s1 s2))" for fn
    by (rule finish_merge_ok(1) [OF ord])
  moreover have "num_hits (finish_merge ?ms ?fuzz fn (or_new addweights s1 s2)) \<le> num_hits s1 + num_hits s2" for fn
    using arg_cong [OF recs, of length] or_records_length [of ?rs ?qs]
      mergeable_length [OF assms(1)] mergeable_length [OF assms(2)] by (simp add: finish_merge_hits)
  moreover obtain fn t1 t2 where "se_ormerge c (Some s1) (Some s2) addweights =
      Done (Some (finish_merge ?ms ?fuzz fn (or_new addweights s1 s2)), Some t1, Some t2)"
      "addweights = 0 \<longrightarrow> t1 = sort_ranked s1 \<and> t2 = sort_ranked s2"
    using se_ormerge_direct [OF assms(3)] by blast
  moreover have "plain s1 \<and> plain s2 \<longrightarrow> plain (finish_merge ?ms ?fuzz fn (or_new addweights s1 s2))" for fn
    using direct_plain(2) by blast
  ultimately show ?thesis using finish_merge_setid by blast
qed

text \<open>
  C3: \<open>se_ormerge\<close> of two compatible sets returns, for every way of combining weights, exactly the
  records of either, each once and ready to be merged again, within the array allocated for
  the two together.
\<close>

theorem se_ormerge_union:
  assumes "mergeable s1" and "mergeable s2" and "compatible s1 s2"
  shows "\<exists>new t1 t2. se_ormerge c (Some s1) (Some s2) addweights = Done (Some new, Some t1, Some t2)
    \<and> records new = records s1 \<union> records s2 \<and> mergeable new \<and> num_hits new \<le> num_hits s1 + num_hits s2"
  using se_ormerge_facts [OF assms] by blast

theorem se_ormerge_union_witness:
  "\<exists>new t1 t2. se_ormerge no_callees (Some (sample_bool [2, 5])) (Some (sample_bool [1, 5, 9])) 0 = Done (Some new, Some t1, Some t2)
    \<and> records new = {1, 2, 5, 9} \<and> mergeable new"
proof -
  have "\<exists>new t1 t2. se_ormerge no_callees (Some (sample_bool [2, 5])) (Some (sample_bool [1, 5, 9])) 0 = Done (Some new, Some t1, Some t2)
    \<and> records new = records (sample_bool [2, 5]) \<union> records (sample_bool [1, 5, 9]) \<and> mergeable new
    \<and> num_hits new \<le> num_hits (sample_bool [2, 5]) + num_hits (sample_bool [1, 5, 9])"
    by (rule se_ormerge_union) (simp_all add: sample_bool_facts sample_bool_compatible)
  moreover have "{2, 5} \<union> {1, 5, 9} = {1, 2, 5, 9 :: int}" by auto
  ultimately show ?thesis by (simp add: sample_bool_facts) blast
qed

text \<open>
  Finding: ranking puts the hits into descending order of their weights and loses none, as long as no
  weight is a NaN.
\<close>

theorem se_rank_docs_descending:
  assumes "\<forall>e \<in> set (hits s). weight e \<noteq> NaN"
  shows "sorted_wrt (\<lambda>a b. fl_le (weight b) (weight a)) (hits (se_rank_docs s))
    \<and> mset (hits (se_rank_docs s)) = mset (hits s) \<and> num_hits (se_rank_docs s) = num_hits s"
proof -
  have "sorted_wrt (\<lambda>a b. compare_weights a b \<le> 0) (qsort compare_weights (hits s))"
    by (rule qs.sort_ordered [OF comparison_weights [OF assms]])
  moreover have "fl_le (weight b) (weight a)"
    if "compare_weights a b \<le> 0" "a \<in> set (hits s)" "b \<in> set (hits s)" for a b
    using that assms fl_not_less by (auto simp: compare_weights_def split: if_splits)
  ultimately have "sorted_wrt (\<lambda>a b. fl_le (weight b) (weight a)) (qsort compare_weights (hits s))"
    by (auto intro: sorted_wrt_mono_rel [rotated])
  then show ?thesis by (simp add: qs.sort_mset)
qed

theorem se_rank_docs_descending_witness:
  "sorted_wrt (\<lambda>a b. fl_le (weight b) (weight a)) (hits (se_rank_docs sample_ranked))"
  using se_rank_docs_descending [of sample_ranked]
  by (simp add: sample_ranked_def new_entry_def hits_def)

text \<open>
  Finding: \<open>se_andmerge\<close> asks the first set twice whether the request was fuzzy and never the second, unlike
  \<open>se_notmerge\<close> and \<open>se_ormerge\<close>: with a fuzzy first and a plain second set the result
  is fuzzy, the other way round it is not.
\<close>

theorem se_andmerge_fuzzy_asymmetric:
  "\<exists>r q t1 t2 u1 u2.
     se_andmerge c (Some (new_result\<lparr>result_type := FUZZY_REQUEST\<rparr>)) (Some new_result) = Done (Some r, t1, t2)
     \<and> se_andmerge c (Some new_result) (Some (new_result\<lparr>result_type := FUZZY_REQUEST\<rparr>)) = Done (Some q, u1, u2)
     \<and> has_flag r FUZZY_RESULT \<and> \<not> has_flag q FUZZY_RESULT"
  by (simp add: se_andmerge_def page_step_def component_step_def both_component_def has_flag_def new_result_def
      result_flags rank_step_def sort_ranked_def ranked_flag_def ranked_types_def prob_flag_def finish_merge_def
      merge_result_def hits_def Let_def)

end
