(* ===== verification/Query.thy ===== *)
theory Query
  imports Boolean_Merge
begin

text \<open>
  The evaluation of a query (\<open>search/se_process_query.c\<close>): \<open>se_process_rpn_structure\<close> walks the
  RPN tree of a Z39.50 search request, evaluates the operands and combines their result
  sets with the merges.

  A result set with a name (\<open>setid\<close>) is one of the stored result sets and is shared: what a
  merge does to it in place stays. The model threads the stored sets through the
  evaluation and puts named sets back after a merge.
\<close>

section \<open>The query tree\<close>

datatype rpn_operator = Op_and | Op_or | Op_and_not | Op_prox int

text \<open>\<open>Rpn_null\<close> is a null pointer, \<open>Rpn_other\<close> a node with an unknown tag.\<close>

datatype 't rpn =
    Rpn_op rpn_operator "'t rpn" "'t rpn"
  | Rpn_result_set string
  | Rpn_terms 't
  | Rpn_null
  | Rpn_other

type_synonym set_store = "string \<Rightarrow> weighted_result option"

text \<open>
  The functions of other files that evaluation calls: \<open>se_get_result_set\<close> on the stored sets,
  \<open>se_process_feedback\<close>, \<open>se_process_terms\<close> and \<open>se_proxmerge\<close>.
\<close>

record 't rpn_callees =
  call_get_result_set :: "set_store \<Rightarrow> string \<Rightarrow> weighted_result option"
  call_feedback :: "weighted_result \<Rightarrow> weighted_result option run"
  call_terms :: "'t \<Rightarrow> weighted_result option run"
  call_proxmerge :: "int \<Rightarrow> weighted_result option \<Rightarrow> weighted_result option \<Rightarrow> merge_out run"

definition put_back :: "weighted_result option \<Rightarrow> set_store \<Rightarrow> set_store" where
  "put_back s0 store =
     (case s0 of None \<Rightarrow> store | Some s \<Rightarrow> if setid s = [] then store else store(setid s := Some s))"

text \<open>The contents of a named set may have changed while the other operand was evaluated.\<close>

definition current :: "set_store \<Rightarrow> weighted_result option \<Rightarrow> weighted_result option" where
  "current store s0 =
     (case s0 of
        None \<Rightarrow> None
      | Some s \<Rightarrow> if setid s = [] then s0 else (case store (setid s) of None \<Rightarrow> s0 | Some t \<Rightarrow> Some t))"

type_synonym merge_fn = "weighted_result option \<Rightarrow> weighted_result option \<Rightarrow> merge_out run"

text \<open>The three merges are parameters here, so that the evaluator can be reasoned about from their contract.\<close>

text \<open>
  After AND and AND NOT the code looks at \<open>setid\<close> of both operands to see whether to free them;
  a null pointer is dereferenced.
\<close>

definition free_both :: "weighted_result option \<Rightarrow> weighted_result option \<Rightarrow> 'a \<Rightarrow> 'a run" where
  "free_both l r x = run_bind (deref l) (\<lambda>_. run_bind (deref r) (\<lambda>_. Done x))"

fun rpn_eval :: "merge_fn \<Rightarrow> merge_fn \<Rightarrow> merge_fn \<Rightarrow> 't rpn_callees \<Rightarrow> set_store \<Rightarrow> 't rpn
    \<Rightarrow> (weighted_result option \<times> set_store) run" where
  "rpn_eval am om nm k store Rpn_null = Done (None, store)"
| "rpn_eval am om nm k store Rpn_other = Done (None, store)"
| "rpn_eval am om nm k store (Rpn_terms t) = run_bind (call_terms k t) (\<lambda>r. Done (r, store))"
| "rpn_eval am om nm k store (Rpn_result_set name) =
     (case call_get_result_set k store name of
        None \<Rightarrow> Done (None, store)
      | Some temp_res \<Rightarrow>
          if setid temp_res = [] then run_bind (call_feedback k temp_res) (\<lambda>r. Done (r, store))
          else Done (Some temp_res, store))"
| "rpn_eval am om nm k store (Rpn_op op rpn1 rpn2) =
     run_bind (rpn_eval am om nm k store rpn1) (\<lambda>(left_res, store1).
       if left_res = None \<and> (op = Op_and \<or> op = Op_and_not) then Done (None, store1)
       else run_bind (rpn_eval am om nm k store1 rpn2) (\<lambda>(right_res, store2).
         let left_res = current store2 left_res in
         if right_res = None \<and> op = Op_and then Done (None, store2)
         else (case op of
             Op_and \<Rightarrow> run_bind (am left_res right_res) (\<lambda>(bool_res, l, r).
               free_both l r (bool_res, put_back r (put_back l store2)))
           | Op_or \<Rightarrow> run_bind (om left_res right_res) (\<lambda>(bool_res, l, r).
               Done (bool_res, put_back r (put_back l store2)))
           | Op_and_not \<Rightarrow> run_bind (nm left_res right_res) (\<lambda>(bool_res, l, r).
               free_both l r (bool_res, put_back r (put_back l store2)))
           | Op_prox p \<Rightarrow> run_bind (call_proxmerge k p left_res right_res) (\<lambda>(bool_res, l, r).
               Done (bool_res, put_back r (put_back l store2))))))"

definition se_process_rpn_structure ::
    "callees \<Rightarrow> 't rpn_callees \<Rightarrow> set_store \<Rightarrow> 't rpn \<Rightarrow> (weighted_result option \<times> set_store) run" where
  "se_process_rpn_structure c k store s =
     rpn_eval (se_andmerge c) (\<lambda>l r. se_ormerge c l r 0) (se_notmerge c) k store s"

definition se_process_query ::
    "callees \<Rightarrow> 't rpn_callees \<Rightarrow> set_store \<Rightarrow> 't rpn option \<Rightarrow> (weighted_result option \<times> set_store) run" where
  "se_process_query c k store query =
     (case query of None \<Rightarrow> Done (None, store) | Some rpn \<Rightarrow> se_process_rpn_structure c k store rpn)"

section \<open>What a query means\<close>

definition usable :: "weighted_result \<Rightarrow> bool" where
  "usable s \<longleftrightarrow> mergeable s \<and> plain s"

definition stored_records :: "set_store \<Rightarrow> string \<Rightarrow> int set" where
  "stored_records store name = (case store name of None \<Rightarrow> {} | Some s \<Rightarrow> records s)"

fun rpn_set :: "('t \<Rightarrow> int set) \<Rightarrow> (string \<Rightarrow> int set) \<Rightarrow> 't rpn \<Rightarrow> int set" where
  "rpn_set T S (Rpn_op Op_and a b) = rpn_set T S a \<inter> rpn_set T S b"
| "rpn_set T S (Rpn_op Op_or a b) = rpn_set T S a \<union> rpn_set T S b"
| "rpn_set T S (Rpn_op Op_and_not a b) = rpn_set T S a - rpn_set T S b"
| "rpn_set T S (Rpn_terms t) = T t"
| "rpn_set T S (Rpn_result_set name) = S name"
| "rpn_set T S _ = {}"

text \<open>
  A Boolean query whose operands are there: term operands that find a set, and names of stored
  sets.
\<close>

fun answerable :: "'t rpn_callees \<Rightarrow> set_store \<Rightarrow> 't rpn \<Rightarrow> bool" where
  "answerable k store (Rpn_op op a b) =
     ((op = Op_and \<or> op = Op_or \<or> op = Op_and_not) \<and> answerable k store a \<and> answerable k store b)"
| "answerable k store (Rpn_terms t) =
     (case call_terms k t of Done (Some s) \<Rightarrow> usable s \<and> setid s = [] | _ \<Rightarrow> False)"
| "answerable k store (Rpn_result_set name) = (store name \<noteq> None)"
| "answerable k store _ = False"

definition store_ok :: "set_store \<Rightarrow> bool" where
  "store_ok store \<longleftrightarrow> (\<forall>name s. store name = Some s \<longrightarrow> usable s \<and> setid s = name \<and> name \<noteq> [])"

definition term_records :: "'t rpn_callees \<Rightarrow> 't \<Rightarrow> int set" where
  "term_records k t = (case call_terms k t of Done (Some s) \<Rightarrow> records s | _ \<Rightarrow> {})"

section \<open>The contract of the merges\<close>

text \<open>
  What evaluation relies on: each merge of two usable sets returns a fresh, usable set with the
  records of the set operation, and leaves of its inputs usable sets with the same records and
  name.
\<close>

locale boolean_merges =
  fixes am om nm :: merge_fn and after :: "weighted_result \<Rightarrow> weighted_result"
  assumes after_usable: "usable s \<Longrightarrow> usable (after s)"
    and after_same: "records (after s) = records s" "setid (after s) = setid s"
    and am_law: "usable s \<Longrightarrow> usable t \<Longrightarrow> \<exists>r. am (Some s) (Some t) = Done (Some r, Some (after s), Some (after t))
      \<and> usable r \<and> setid r = [] \<and> records r = records s \<inter> records t"
    and om_law: "usable s \<Longrightarrow> usable t \<Longrightarrow> \<exists>r. om (Some s) (Some t) = Done (Some r, Some (after s), Some (after t))
      \<and> usable r \<and> setid r = [] \<and> records r = records s \<union> records t"
    and nm_law: "usable s \<Longrightarrow> usable t \<Longrightarrow> \<exists>r. nm (Some s) (Some t) = Done (Some r, Some (after s), Some (after t))
      \<and> usable r \<and> setid r = [] \<and> records r = records s - records t"
begin

lemma put_back_ok:
  assumes "store_ok store" and "usable s" and "setid s \<noteq> [] \<Longrightarrow> stored_records store (setid s) = records s \<and> setid s \<in> dom store"
  shows "store_ok (put_back (Some (after s)) store) \<and> stored_records (put_back (Some (after s)) store) = stored_records store
    \<and> dom (put_back (Some (after s)) store) = dom store"
  using assms after_usable [OF assms(2)]
  by (auto simp: put_back_def store_ok_def stored_records_def after_same fun_eq_iff dom_def)

text \<open>One operator, given what its operands evaluate to.\<close>

lemma op_step:
  assumes m: "\<exists>r. m (Some s) (Some t) = Done (Some r, Some (after s), Some (after t)) \<and> usable r \<and> setid r = [] \<and> records r = S"
    and st: "store_ok store" and u: "usable s" "usable t"
    and named: "setid s \<noteq> [] \<Longrightarrow> stored_records store (setid s) = records s \<and> setid s \<in> dom store"
      "setid t \<noteq> [] \<Longrightarrow> stored_records store (setid t) = records t \<and> setid t \<in> dom store"
  shows "\<exists>r store'. m (Some s) (Some t) = Done (Some r, Some (after s), Some (after t))
    \<and> store' = put_back (Some (after t)) (put_back (Some (after s)) store)
    \<and> usable r \<and> setid r = [] \<and> records r = S \<and> store_ok store' \<and> stored_records store' = stored_records store
    \<and> dom store' = dom store"
proof -
  let ?s1 = "put_back (Some (after s)) store"
  have p1: "store_ok ?s1" "stored_records ?s1 = stored_records store" "dom ?s1 = dom store"
    using put_back_ok [OF st u(1) named(1)] by blast+
  have "setid t \<noteq> [] \<Longrightarrow> stored_records ?s1 (setid t) = records t \<and> setid t \<in> dom ?s1"
    unfolding p1 by (rule named(2))
  from put_back_ok [OF p1(1) u(2) this] p1 m show ?thesis by auto
qed

lemma current_ok:
  assumes "usable r" and "setid r \<noteq> [] \<longrightarrow> st1 (setid r) = Some r" and "store_ok st2"
    and "stored_records st2 = stored_records st1" and "dom st2 = dom st1"
  shows "\<exists>r'. current st2 (Some r) = Some r' \<and> usable r' \<and> setid r' = setid r \<and> records r' = records r
    \<and> (setid r' \<noteq> [] \<longrightarrow> stored_records st2 (setid r') = records r' \<and> setid r' \<in> dom st2)"
proof (cases "setid r = []")
  case True
  then show ?thesis using assms(1) by (simp add: current_def)
next
  case False
  then have "st1 (setid r) = Some r" using assms(2) by simp
  then have "setid r \<in> dom st2" using assms(5) by auto
  then obtain r' where r': "st2 (setid r) = Some r'" by blast
  then have "usable r'" "setid r' = setid r" using assms(3) by (auto simp: store_ok_def)
  moreover have "records r' = records r"
    using fun_cong [OF assms(4), of "setid r"] r' \<open>st1 (setid r) = Some r\<close> by (simp add: stored_records_def)
  ultimately show ?thesis using False r' by (auto simp: current_def stored_records_def)
qed

lemma answerable_dom: "dom st2 = dom st1 \<Longrightarrow> answerable k st2 q = answerable k st1 q"
proof (induction q)
  case (Rpn_result_set name)
  then have "name \<in> dom st2 \<longleftrightarrow> name \<in> dom st1" by simp
  then show ?case by (simp add: dom_def)
qed simp_all

lemma rpn_eval_correct:
  assumes "\<And>st name. call_get_result_set k st name = st name" and "store_ok store" and "answerable k store q"
  shows "\<exists>r store'. rpn_eval am om nm k store q = Done (Some r, store') \<and> usable r
    \<and> records r = rpn_set (term_records k) (stored_records store) q \<and> store_ok store'
    \<and> stored_records store' = stored_records store \<and> dom store' = dom store \<and> (setid r \<noteq> [] \<longrightarrow> store' (setid r) = Some r)"
  using assms(2,3)
proof (induction q arbitrary: store)
  case (Rpn_op op a b)
  obtain r1 st1 where A: "rpn_eval am om nm k store a = Done (Some r1, st1)" "usable r1"
    "records r1 = rpn_set (term_records k) (stored_records store) a" "store_ok st1"
    "stored_records st1 = stored_records store" "dom st1 = dom store" "setid r1 \<noteq> [] \<longrightarrow> st1 (setid r1) = Some r1"
    using Rpn_op.IH(1) [of store] Rpn_op.prems by auto
  have "answerable k st1 b" using Rpn_op.prems(2) answerable_dom [OF A(6), of k b] by simp
  then obtain r2 st2 where B: "rpn_eval am om nm k st1 b = Done (Some r2, st2)" "usable r2"
    "records r2 = rpn_set (term_records k) (stored_records store) b" "store_ok st2"
    "stored_records st2 = stored_records st1" "dom st2 = dom st1" "setid r2 \<noteq> [] \<longrightarrow> st2 (setid r2) = Some r2"
    using Rpn_op.IH(2) [of st1] A(4,5) by auto
  obtain l where L: "current st2 (Some r1) = Some l" "usable l" "records l = records r1"
    "setid l \<noteq> [] \<Longrightarrow> stored_records st2 (setid l) = records l \<and> setid l \<in> dom st2"
    using current_ok [OF A(2,7) B(4,5,6)] by blast
  have R: "setid r2 \<noteq> [] \<Longrightarrow> stored_records st2 (setid r2) = records r2 \<and> setid r2 \<in> dom st2"
    using B(7) by (auto simp: stored_records_def)
  have fin: ?case if "rpn_eval am om nm k store (Rpn_op op a b) = Done (Some r, store')" "usable r" "setid r = []"
      "records r = rpn_set (term_records k) (stored_records store) (Rpn_op op a b)" "store_ok store'"
      "stored_records store' = stored_records st2" "dom store' = dom st2" for r store'
    using that A(5,6) B(5,6) by auto
  consider "op = Op_and" | "op = Op_or" | "op = Op_and_not" using Rpn_op.prems(2) by auto
  then show ?case
  proof cases
    case 1
    obtain r store' where r: "am (Some l) (Some r2) = Done (Some r, Some (after l), Some (after r2))"
      "store' = put_back (Some (after r2)) (put_back (Some (after l)) st2)" "usable r" "setid r = []"
      "records r = records l \<inter> records r2" "store_ok store'" "stored_records store' = stored_records st2" "dom store' = dom st2"
      using op_step [where m = am and s = l and t = r2, OF am_law [OF L(2) B(2)] B(4) L(2) B(2) L(4) R] by blast
    show ?thesis
      using 1 A(1,3) B(1,3) L(1,3) r by (intro fin [of r store']) (simp_all add: free_both_def)
  next
    case 2
    obtain r store' where r: "om (Some l) (Some r2) = Done (Some r, Some (after l), Some (after r2))"
      "store' = put_back (Some (after r2)) (put_back (Some (after l)) st2)" "usable r" "setid r = []"
      "records r = records l \<union> records r2" "store_ok store'" "stored_records store' = stored_records st2" "dom store' = dom st2"
      using op_step [where m = om and s = l and t = r2, OF om_law [OF L(2) B(2)] B(4) L(2) B(2) L(4) R] by blast
    show ?thesis
      using 2 A(1,3) B(1,3) L(1,3) r by (intro fin [of r store']) (simp_all)
  next
    case 3
    obtain r store' where r: "nm (Some l) (Some r2) = Done (Some r, Some (after l), Some (after r2))"
      "store' = put_back (Some (after r2)) (put_back (Some (after l)) st2)" "usable r" "setid r = []"
      "records r = records l - records r2" "store_ok store'" "stored_records store' = stored_records st2" "dom store' = dom st2"
      using op_step [where m = nm and s = l and t = r2, OF nm_law [OF L(2) B(2)] B(4) L(2) B(2) L(4) R] by blast
    show ?thesis
      using 3 A(1,3) B(1,3) L(1,3) r by (intro fin [of r store']) (simp_all add: free_both_def)
  qed
next
  case (Rpn_result_set name)
  then obtain s where s: "store name = Some s" by auto
  then have "usable s" "setid s = name" "name \<noteq> []" using Rpn_result_set.prems(1) by (auto simp: store_ok_def)
  then show ?case using s assms(1) Rpn_result_set.prems(1) by (simp add: stored_records_def)
next
  case (Rpn_terms t)
  then obtain s where "call_terms k t = Done (Some s)" "usable s" "setid s = []"
    by (auto split: run.splits option.splits)
  then show ?case using Rpn_terms.prems(1) by (simp add: term_records_def)
qed simp_all

end

section \<open>The merges of the search engine meet the contract\<close>

interpretation eng: boolean_merges "se_andmerge c" "\<lambda>l r. se_ormerge c l r 0" "se_notmerge c" sort_ranked for c
proof unfold_locales
  fix s t
  assume u: "usable s" "usable t"
  then have m: "mergeable s" "mergeable t" "plain s" "plain t" "compatible s t"
    by (auto simp: usable_def plain_compatible)
  show "\<exists>r. se_andmerge c (Some s) (Some t) = Done (Some r, Some (sort_ranked s), Some (sort_ranked t))
      \<and> usable r \<and> setid r = [] \<and> records r = records s \<inter> records t"
    using se_andmerge_facts [OF m(1,2,5)] m(3,4) by (auto simp: usable_def)
  show "\<exists>r. se_ormerge c (Some s) (Some t) 0 = Done (Some r, Some (sort_ranked s), Some (sort_ranked t))
      \<and> usable r \<and> setid r = [] \<and> records r = records s \<union> records t"
    using se_ormerge_facts [OF m(1,2,5), of c 0] m(3,4) by (auto simp: usable_def)
  show "\<exists>r. se_notmerge c (Some s) (Some t) = Done (Some r, Some (sort_ranked s), Some (sort_ranked t))
      \<and> usable r \<and> setid r = [] \<and> records r = records s - records t"
    using se_notmerge_facts [OF m(1,2,5)] m(3,4) by (auto simp: usable_def)
qed (auto simp: usable_def sort_ranked_mergeable)

text \<open>
  C1: evaluating a Boolean query over term operands that find sets and over stored result sets
  returns a set with exactly the records the query asks for, and every stored set
  keeps its records.
\<close>

theorem se_process_query_correct:
  assumes "\<And>st name. call_get_result_set k st name = st name" and "store_ok store" and "answerable k store q"
  shows "\<exists>r store'. se_process_query c k store (Some q) = Done (Some r, store')
    \<and> records r = rpn_set (term_records k) (stored_records store) q
    \<and> distinct (map record_num (hits r)) \<and> stored_records store' = stored_records store"
proof -
  obtain r store' where "rpn_eval (se_andmerge c) (\<lambda>l r. se_ormerge c l r 0) (se_notmerge c) k store q = Done (Some r, store')"
    "usable r" "records r = rpn_set (term_records k) (stored_records store) q" "stored_records store' = stored_records store"
    using eng.rpn_eval_correct [OF assms, of c] by blast
  moreover have "distinct (map record_num (hits r))"
    using \<open>usable r\<close> by_record_distinct by (auto simp: usable_def mergeable_def split: if_splits)
  ultimately show ?thesis by (simp add: se_process_query_def se_process_rpn_structure_def)
qed

lemma renamed_set [simp]:
  "hits (s\<lparr>setid := x\<rparr>) = hits s" "records (s\<lparr>setid := x\<rparr>) = records s"
  "mergeable (s\<lparr>setid := x\<rparr>) = mergeable s" "plain (s\<lparr>setid := x\<rparr>) = plain s"
  by (simp_all add: hits_def records_def mergeable_def wf_result_def ranked_flag_def plain_def has_flag_def)

definition sample_callees :: "nat rpn_callees" where
  "sample_callees = \<lparr>call_get_result_set = (\<lambda>st name. st name), call_feedback = (\<lambda>s. Done None),
     call_terms = (\<lambda>t. if t = 0 then Done (Some (sample_bool [2, 5, 9])) else if t = 1 then Done (Some (sample_bool [5, 6])) else Done None),
     call_proxmerge = (\<lambda>p l r. Done (None, l, r))\<rparr>"

definition sample_store :: set_store where
  "sample_store = [''R'' \<mapsto> (sample_bool [5, 9, 20])\<lparr>setid := ''R''\<rparr>]"

lemma sample_store_ok: "store_ok sample_store"
  by (simp add: store_ok_def sample_store_def usable_def sample_bool_facts)

theorem se_process_query_correct_witness:
  "\<exists>r store'. se_process_query no_callees sample_callees sample_store
      (Some (Rpn_op Op_and_not (Rpn_op Op_or (Rpn_terms 0) (Rpn_result_set ''R'')) (Rpn_terms 1))) = Done (Some r, store')
    \<and> records r = {2, 9, 20} \<and> stored_records store' = stored_records sample_store"
proof -
  let ?q = "Rpn_op Op_and_not (Rpn_op Op_or (Rpn_terms 0) (Rpn_result_set ''R'')) (Rpn_terms 1)"
  have n: "setid (sample_bool rs) = []" for rs by (simp add: sample_bool_def new_result_def)
  have "answerable sample_callees sample_store ?q"
    using sample_bool_facts by (simp add: sample_callees_def sample_store_def usable_def n)
  moreover have "rpn_set (term_records sample_callees) (stored_records sample_store) ?q = {2, 9, 20}"
    by (auto simp: term_records_def sample_callees_def stored_records_def sample_store_def sample_bool_facts)
  ultimately show ?thesis
    using se_process_query_correct [OF _ sample_store_ok, of sample_callees ?q no_callees] by (auto simp: sample_callees_def)
qed

text \<open>
  Finding: a search for one thing and not another, where nothing is returned for the other (an unknown
  index, only stop words), reads through the null pointer after the merge.
\<close>

theorem and_not_null_right_crashes:
  "se_process_query c (k\<lparr>call_terms := (\<lambda>t :: nat. if t = 0 then Done (Some s) else Done None)\<rparr>) store
     (Some (Rpn_op Op_and_not (Rpn_terms 0) (Rpn_terms 1))) = Crash"
  by (cases "store (setid s)")
     (simp_all add: se_process_query_def se_process_rpn_structure_def current_def se_notmerge_def free_both_def Let_def)

definition sample_stored_ranked :: weighted_result where
  "sample_stored_ranked = new_result\<lparr>setid := ''R'', result_type := PROBABILISTIC_RESULT, num_hits := 2,
     entries := [new_entry 9 (Fin 1), new_entry 3 (Fin (1 / 2))]\<rparr>"

lemma sample_stored_ranked_facts:
  "setid sample_stored_ranked = ''R''" "plain sample_stored_ranked"
  "hits (sort_ranked sample_stored_ranked) = [new_entry 3 (Fin (1 / 2)), new_entry 9 (Fin 1)]"
proof -
  show "setid sample_stored_ranked = ''R''" by (simp add: sample_stored_ranked_def)
  show "plain sample_stored_ranked"
    by (simp add: plain_def has_flag_def result_flags sample_stored_ranked_def)
  have "ranked_flag sample_stored_ranked \<noteq> 0"
    by (simp add: ranked_flag_def ranked_types_def result_flags sample_stored_ranked_def)
  moreover have "hits sample_stored_ranked = [new_entry 9 (Fin 1), new_entry 3 (Fin (1 / 2))]"
    by (simp add: hits_def sample_stored_ranked_def)
  ultimately show "hits (sort_ranked sample_stored_ranked) = [new_entry 3 (Fin (1 / 2)), new_entry 9 (Fin 1)]"
    by (simp add: sort_ranked_def) (simp add: qsort.simps compare_wt_entries_def new_entry_def)
qed

text \<open>
  Finding: a stored ranked set that is used in a later query is sorted by record number in place: the
  stored set is no longer in the order of its weights.
\<close>

theorem query_reorders_stored_ranked_set:
  "\<exists>r store'. se_process_query c sample_callees [''R'' \<mapsto> sample_stored_ranked]
      (Some (Rpn_op Op_and (Rpn_result_set ''R'') (Rpn_terms 1))) = Done (Some r, store')
    \<and> hits sample_stored_ranked = [new_entry 9 (Fin 1), new_entry 3 (Fin (1 / 2))]
    \<and> map_option hits (store' ''R'') = Some [new_entry 3 (Fin (1 / 2)), new_entry 9 (Fin 1)]"
proof -
  have "compatible sample_stored_ranked (sample_bool [5, 6])"
    by (rule plain_compatible) (simp_all add: sample_stored_ranked_facts sample_bool_facts)
  moreover have "setid (sample_bool [5, 6]) = []" by (simp add: sample_bool_def new_result_def)
  moreover have "hits sample_stored_ranked = [new_entry 9 (Fin 1), new_entry 3 (Fin (1 / 2))]"
    by (simp add: hits_def sample_stored_ranked_def)
  ultimately show ?thesis
    by (simp add: se_process_query_def se_process_rpn_structure_def sample_callees_def current_def put_back_def free_both_def
        sample_stored_ranked_facts se_andmerge_direct)
qed

end
