(* ===== verification/Components.thy ===== *)
theory Components
  imports Result_Set
begin

text \<open>
  Component result sets: \<open>get_component_record\<close> (\<open>zserver/get_component.c\<close>), the conversion of
  a set of components into a set of documents (\<open>search/se_comp2doc.c\<close>) and the choice of the
  smallest or largest of nested components (\<open>search/se_comp_minmax.c\<close>).

  The component databases are a parameter: for the address of a component definition, what
  its database holds, or \<open>None\<close> if it cannot be opened. So is the memory that \<open>xtra\<close>
  pointers of hybrid sets point into.
\<close>

unbundle bit_operations_syntax

section \<open>Component records\<close>

record component_data_item =
  record_id :: int
  start_offset :: int
  end_offset :: int

type_synonym comp_dbs = "int \<Rightarrow> (int \<Rightarrow> component_data_item option) option"

definition get_component_record :: "comp_dbs \<Rightarrow> int \<Rightarrow> int \<Rightarrow> component_data_item option" where
  "get_component_record dbs component_id cle =
     (if cle = 0 then None
      else case dbs cle of None \<Rightarrow> None | Some db \<Rightarrow> db component_id)"

section \<open>From components to documents\<close>

text \<open>The entry of a hit with the number of its document; a missing component record is read through.\<close>

definition comp2doc_entry :: "comp_dbs \<Rightarrow> (int \<Rightarrow> weighted_result) \<Rightarrow> weighted_result \<Rightarrow> weighted_entry \<Rightarrow> weighted_entry run" where
  "comp2doc_entry dbs mem inset e =
     (if has_flag inset HYBRID_RESULT
      then let compset = mem (xtra e)
           in if component compset \<noteq> 0
              then run_bind (deref (get_component_record dbs (record_num e) (component compset)))
                     (\<lambda>comp_data. Done (e\<lparr>record_num := record_id comp_data\<rparr>))
              else Done e
      else run_bind (deref (get_component_record dbs (record_num e) (component inset)))
             (\<lambda>comp_data. Done (e\<lparr>record_num := record_id comp_data\<rparr>)))"

text \<open>
  The loop over the entries of \<open>tempset\<close> from the second on; \<open>i\<close> is the index of the last
  document in \<open>newset\<close>. The weight of a further component is compared with
  \<open>tempset->entries[i]\<close>.
\<close>

fun comp2doc_loop ::
    "bool \<Rightarrow> weighted_entry list \<Rightarrow> weighted_entry list \<Rightarrow> nat \<Rightarrow> int \<Rightarrow> weighted_entry list \<Rightarrow> weighted_entry list" where
  "comp2doc_loop prob temp [] i recnum new = new"
| "comp2doc_loop prob temp (e # es) i recnum new =
     (if recnum = record_num e
      then comp2doc_loop prob temp es i recnum
             (new[i := (new ! i)\<lparr>weight :=
                (if prob then if fl_less (weight (temp ! i)) (weight e) then weight e else weight (temp ! i)
                 else Fin 1)\<rparr>])
      else comp2doc_loop prob temp es (Suc i) (record_num e) (new @ [new_entry (record_num e) (weight e)]))"

definition comp2doc_ranked :: int where
  "comp2doc_ranked = PROBABILISTIC_RESULT OR OKAPI_RESULT OR TFIDF_RESULT OR CORI_RESULT OR FUZZY_RESULT OR BLOB_RESULT"

text \<open>
  An empty set has a zero entry all the same, since the structure has room for one; it becomes a
  document with number 0.
\<close>

definition comp2doc_entries :: "bool \<Rightarrow> weighted_entry list \<Rightarrow> weighted_entry list" where
  "comp2doc_entries prob temp =
     (let e = (case temp of [] \<Rightarrow> new_entry 0 (Fin 0) | e # _ \<Rightarrow> e)
      in comp2doc_loop prob temp (tl temp) 0 (record_num e) [new_entry (record_num e) (weight e)])"

definition se_comp2doc :: "comp_dbs \<Rightarrow> (int \<Rightarrow> weighted_result) \<Rightarrow> weighted_result option \<Rightarrow> weighted_result option run" where
  "se_comp2doc dbs mem inset0 =
     (case inset0 of
        None \<Rightarrow> Done None
      | Some inset \<Rightarrow>
          run_bind (run_map (comp2doc_entry dbs mem inset) (hits inset)) (\<lambda>mapped.
            let prob_flag = result_type inset AND comp2doc_ranked;
                tempset = se_sortwtset (new_result\<lparr>entries := mapped, num_hits := num_hits inset\<rparr>);
                docs = comp2doc_entries (prob_flag \<noteq> 0) (hits tempset);
                newset = new_result\<lparr>max_weight := max_weight inset, min_weight := min_weight inset,
                  result_weight := result_weight inset, filename := filename inset,
                  result_type := result_type inset AND NOT COMPONENT_RESULT,
                  entries := docs, num_hits := int (length docs)\<rparr>
            in Done (Some (if prob_flag \<noteq> 0
                           then se_rank_docs (newset\<lparr>result_type := result_type newset OR prob_flag\<rparr>)
                           else newset))))"

definition se_count_comp_docs :: "comp_dbs \<Rightarrow> (int \<Rightarrow> weighted_result) \<Rightarrow> weighted_result \<Rightarrow> int run" where
  "se_count_comp_docs dbs mem inset =
     (if component inset = 0 \<or> has_flag inset HYBRID_RESULT then Done (num_hits inset)
      else run_bind (se_comp2doc dbs mem (Some inset)) (\<lambda>docresult.
        Done (case docresult of None \<Rightarrow> 0 | Some d \<Rightarrow> num_hits d)))"

section \<open>Nested components\<close>

text \<open>\<open>templist[i]\<close> kills \<open>templist[j]\<close>: for the minimum the container, otherwise the contained one.\<close>

definition comp_kills :: "int \<Rightarrow> component_data_item \<Rightarrow> component_data_item \<Rightarrow> bool" where
  "comp_kills minmax a b \<longleftrightarrow>
     \<not> (end_offset a \<le> start_offset b \<or> start_offset a \<ge> end_offset b)
     \<and> (if minmax = 1 then start_offset a \<ge> start_offset b \<and> end_offset a \<le> end_offset b
        else start_offset a \<le> start_offset b \<and> end_offset a \<ge> end_offset b)"

text \<open>The inner loop for one \<open>i\<close>, over all \<open>j\<close>.\<close>

definition minmax_inner :: "int \<Rightarrow> nat \<Rightarrow> component_data_item option list \<Rightarrow> component_data_item option list" where
  "minmax_inner minmax i temps =
     (case temps ! i of
        None \<Rightarrow> temps
      | Some a \<Rightarrow> map (\<lambda>j. if j = i then temps ! j
                  else case temps ! j of
                         None \<Rightarrow> None
                       | Some b \<Rightarrow> if comp_kills minmax a b then None else Some b) [0..<length temps])"

definition minmax_loop :: "int \<Rightarrow> component_data_item option list \<Rightarrow> component_data_item option list" where
  "minmax_loop minmax temps = foldl (\<lambda>ts i. minmax_inner minmax i ts) temps [0..<length temps]"

text \<open>
  \<open>*newset = *inset\<close> copies the structure with its first entry, so the first entry of the new
  set keeps the \<open>xtra\<close> of the first entry of the old one.
\<close>

definition minmax_entries :: "weighted_entry list \<Rightarrow> component_data_item option list \<Rightarrow> weighted_entry list" where
  "minmax_entries es temps =
     (let kept = map (\<lambda>(e, t). new_entry (record_num e) (weight e)) (filter (\<lambda>(e, t). t \<noteq> None) (zip es temps))
      in case kept of [] \<Rightarrow> [] | k # ks \<Rightarrow> k\<lparr>xtra := xtra (hd es)\<rparr> # ks)"

text \<open>
  The guard compares the flags with \<open>!=\<close> before it masks: \<open>result_type & (FLAG != FLAG)\<close> is 0,
  so it never returns \<open>NULL\<close> for a set that is not a component set.
\<close>

definition se_comp_minmax :: "comp_dbs \<Rightarrow> int \<Rightarrow> weighted_result option \<Rightarrow> weighted_result option" where
  "se_comp_minmax dbs minmax inset0 =
     (case inset0 of
        None \<Rightarrow> None
      | Some inset \<Rightarrow>
          if result_type inset AND of_bool (COMPONENT_RESULT \<noteq> COMPONENT_RESULT) \<noteq> 0
             \<and> result_type inset AND of_bool (HYBRID_RESULT \<noteq> HYBRID_RESULT) \<noteq> 0
          then None
          else
            let templist = map (\<lambda>e. get_component_record dbs (record_num e) (component inset)) (hits inset);
                kept = minmax_entries (hits inset) (minmax_loop minmax templist)
            in Some (inset\<lparr>num_hits := int (length kept), entries := kept\<rparr>))"

section \<open>The documents of a component set\<close>

lemma last_reweighed:
  "length new = Suc i \<Longrightarrow> record_num (last (new[i := (new ! i)\<lparr>weight := w\<rparr>])) = record_num (last new)"
  by (cases "new = []") (simp_all add: last_conv_nth)

lemma comp2doc_loop_records:
  assumes "length new = Suc i" and "record_num (last new) = recnum"
  shows "map record_num (comp2doc_loop prob temp es i recnum new) =
    butlast (map record_num new) @ remdups_adj (recnum # map record_num es)"
  using assms
proof (induction prob temp es i recnum new rule: comp2doc_loop.induct)
  case (1 prob temp i recnum new)
  then have "new \<noteq> []" by auto
  then show ?case using 1(2) by (metis append_butlast_last_id comp2doc_loop.simps(1) last_map list.map_disc_iff
    list.simps(8) map_butlast remdups_adj.simps(2))
next
  case (2 prob temp e es i recnum new)
  show ?case
  proof (cases "recnum = record_num e")
    case True
    let ?new = "new[i := (new ! i)\<lparr>weight := (if prob then if fl_less (weight (temp ! i)) (weight e) then weight e
      else weight (temp ! i) else Fin 1)\<rparr>]"
    have "map record_num ?new = map record_num new"
      using 2(3) by (auto intro!: nth_equalityI simp: nth_list_update)
    moreover have "record_num (last ?new) = recnum" using 2(4) last_reweighed [OF 2(3)] by simp
    ultimately show ?thesis using 2(1) [OF True] 2(3) True by simp
  next
    case False
    have "map record_num (comp2doc_loop prob temp es (Suc i) (record_num e) (new @ [new_entry (record_num e) (weight e)]))
      = map record_num new @ remdups_adj (record_num e # map record_num es)"
      using 2(2) [OF False] 2(3) by (simp add: new_entry_def)
    moreover have "map record_num new = butlast (map record_num new) @ [recnum]"
      using 2(3,4) by (metis append_butlast_last_id last_map length_0_conv list.map_disc_iff nat.distinct(1))
    ultimately show ?thesis using False by simp
  qed
qed

lemma comp2doc_entries_records:
  "temp \<noteq> [] \<Longrightarrow> map record_num (comp2doc_entries prob temp) = remdups_adj (map record_num temp)"
  using comp2doc_loop_records [of "[new_entry (record_num (hd temp)) (weight (hd temp))]" 0 "record_num (hd temp)" prob temp "tl temp"]
  by (cases temp) (simp_all add: comp2doc_entries_def new_entry_def Let_def)

lemma strict_remdups_adj: "sorted (xs :: int list) \<Longrightarrow> sorted_wrt (<) (remdups_adj xs)"
  by (induction xs rule: remdups_adj.induct) (auto simp: less_le)

lemma sorted_by_record: "sorted (map record_num (qsort compare_wt_entries es))"
proof -
  have "sorted_wrt (\<lambda>x y. compare_wt_entries x y \<le> 0) (qsort compare_wt_entries es)"
    by (rule qs.sort_ordered [OF comparison_wt_entries])
  then show ?thesis
    unfolding sorted_wrt_map
    by (rule sorted_wrt_mono_rel [rotated]) (auto simp: compare_wt_entries_def split: if_splits)
qed

definition comp_doc :: "comp_dbs \<Rightarrow> weighted_result \<Rightarrow> weighted_entry \<Rightarrow> int" where
  "comp_doc dbs inset e = record_id (the (get_component_record dbs (record_num e) (component inset)))"

text \<open>
  C6: \<open>se_comp2doc\<close> on a non-empty component set whose component records all exist yields
  exactly the documents the components belong to, each once, in the order of their numbers
  unless the set is ranked, and the result is no longer a component set.
\<close>

theorem se_comp2doc_documents:
  assumes "wf_result inset" and "hits inset \<noteq> []" and "\<not> has_flag inset HYBRID_RESULT"
    and "\<forall>e \<in> set (hits inset). get_component_record dbs (record_num e) (component inset) \<noteq> None"
  shows "\<exists>newset. se_comp2doc dbs mem (Some inset) = Done (Some newset) \<and> wf_result newset
    \<and> records newset = comp_doc dbs inset ` set (hits inset) \<and> distinct (map record_num (hits newset))
    \<and> (result_type inset AND comp2doc_ranked = 0 \<longrightarrow> by_record (hits newset) \<and> \<not> has_flag newset COMPONENT_RESULT)"
proof -
  let ?g = "\<lambda>e. e\<lparr>record_num := comp_doc dbs inset e\<rparr>"
  let ?temp = "qsort compare_wt_entries (map ?g (hits inset))"
  let ?prob = "result_type inset AND comp2doc_ranked"
  let ?docs = "comp2doc_entries (?prob \<noteq> 0) ?temp"
  let ?new = "new_result\<lparr>max_weight := max_weight inset, min_weight := min_weight inset,
      result_weight := result_weight inset, filename := filename inset,
      result_type := result_type inset AND NOT COMPONENT_RESULT, entries := ?docs, num_hits := int (length ?docs)\<rparr>"
  have "run_map (comp2doc_entry dbs mem inset) (hits inset) = Done (map ?g (hits inset))"
    using assms(3,4) by (intro run_map_Done) (auto simp: comp2doc_entry_def comp_doc_def)
  moreover have "hits (se_sortwtset (new_result\<lparr>entries := map ?g (hits inset), num_hits := num_hits inset\<rparr>)) = ?temp"
  proof -
    have "wf_result (new_result\<lparr>entries := map ?g (hits inset), num_hits := num_hits inset\<rparr>)"
      using assms(1) by (simp add: wf_result_def hits_def)
    then show ?thesis unfolding hits_sorted by (simp add: hits_wf)
  qed
  ultimately have run: "se_comp2doc dbs mem (Some inset) =
      Done (Some (if ?prob \<noteq> 0 then se_rank_docs (?new\<lparr>result_type := result_type ?new OR ?prob\<rparr>) else ?new))"
    by (simp add: se_comp2doc_def Let_def)
  have ne: "?temp \<noteq> []" using assms(2) length_qsort [of compare_wt_entries "map ?g (hits inset)"] by force
  have recs: "map record_num ?docs = remdups_adj (map record_num ?temp)"
    by (rule comp2doc_entries_records [OF ne])
  have strict: "by_record ?docs"
    unfolding by_record_def recs by (rule strict_remdups_adj [OF sorted_by_record])
  have "record_num ` set ?docs = comp_doc dbs inset ` set (hits inset)"
    using arg_cong [OF recs, of set] by (simp add: image_image)
  moreover have "wf_result ?new" "hits ?new = ?docs" by (simp_all add: wf_result_def hits_def)
  moreover have "distinct (map record_num ?docs)" using strict by (simp add: by_record_def strict_sorted_iff)
  moreover have "distinct (map record_num (qsort compare_weights ?docs))"
    unfolding qs.sort_distinct by (rule \<open>distinct (map record_num ?docs)\<close>)
  moreover have "\<not> has_flag ?new COMPONENT_RESULT"
  proof -
    have "(result_type inset AND NOT COMPONENT_RESULT) AND COMPONENT_RESULT = 0"
      by (rule bit_eqI) (simp add: bit_simps)
    then show ?thesis by (simp add: has_flag_def COMPONENT_RESULT_def)
  qed
  ultimately show ?thesis using strict
    by (subst run) (auto simp: records_def wf_result_def hits_def se_rank_docs_def)
qed

definition sample_comp_dbs :: comp_dbs where
  "sample_comp_dbs c = (if c = 1 then Some (\<lambda>n.
     if n = 10 then Some \<lparr>record_id = 4, start_offset = 0, end_offset = 50\<rparr>
     else if n = 11 then Some \<lparr>record_id = 4, start_offset = 60, end_offset = 90\<rparr>
     else if n = 12 then Some \<lparr>record_id = 7, start_offset = 5, end_offset = 20\<rparr>
     else if n = 13 then Some \<lparr>record_id = 7, start_offset = 30, end_offset = 40\<rparr>
     else None) else None)"

definition sample_comps :: "int \<Rightarrow> weighted_result" where
  "sample_comps rtype = new_result\<lparr>result_type := rtype OR COMPONENT_RESULT, component := 1, num_hits := 4,
     entries := [new_entry 10 (Fin (9 / 10)), new_entry 11 (Fin (8 / 10)), new_entry 12 (Fin (1 / 10)), new_entry 13 (Fin (2 / 10))]\<rparr>"

lemma sample_comps_facts:
  "wf_result (sample_comps t)"
  "hits (sample_comps t) = [new_entry 10 (Fin (9 / 10)), new_entry 11 (Fin (8 / 10)), new_entry 12 (Fin (1 / 10)), new_entry 13 (Fin (2 / 10))]"
  "component (sample_comps t) = 1"
  by (simp_all add: sample_comps_def wf_result_def hits_def)

theorem se_comp2doc_documents_witness:
  "\<exists>newset. se_comp2doc sample_comp_dbs (\<lambda>_. new_result) (Some (sample_comps 0)) = Done (Some newset)
    \<and> records newset = {4, 7} \<and> by_record (hits newset)"
proof -
  have "\<exists>newset. se_comp2doc sample_comp_dbs (\<lambda>_. new_result) (Some (sample_comps 0)) = Done (Some newset)
    \<and> wf_result newset \<and> records newset = comp_doc sample_comp_dbs (sample_comps 0) ` set (hits (sample_comps 0))
    \<and> distinct (map record_num (hits newset))
    \<and> (result_type (sample_comps 0) AND comp2doc_ranked = 0 \<longrightarrow> by_record (hits newset) \<and> \<not> has_flag newset COMPONENT_RESULT)"
    by (rule se_comp2doc_documents)
       (simp_all add: sample_comps_facts sample_comp_dbs_def get_component_record_def new_entry_def has_flag_def,
        simp add: sample_comps_def result_flags)
  moreover have "comp_doc sample_comp_dbs (sample_comps 0) ` set (hits (sample_comps 0)) = {4, 7}"
    by (simp add: sample_comps_facts comp_doc_def sample_comp_dbs_def get_component_record_def new_entry_def)
  moreover have "result_type (sample_comps 0) AND comp2doc_ranked = 0"
    by (simp add: sample_comps_def comp2doc_ranked_def result_flags)
  ultimately show ?thesis by metis
qed

text \<open>
  Finding: in a ranked set the weight of a document is meant to be the largest of its components'
  weights, but the comparison is with \<open>tempset->entries[i]\<close>, where \<open>i\<close> counts documents: here
  document 7, whose components weigh 0.1 and 0.2, gets the weight 0.8 of a component of
  document 4.
\<close>

theorem comp2doc_weight_of_other_document:
  "comp2doc_entries True (hits (se_sortwtset (new_result\<lparr>num_hits := 4,
      entries := [new_entry 4 (Fin (9 / 10)), new_entry 4 (Fin (8 / 10)), new_entry 7 (Fin (1 / 10)), new_entry 7 (Fin (2 / 10))]\<rparr>)))
    = [new_entry 4 (Fin (9 / 10)), new_entry 7 (Fin (8 / 10))]"
  by (simp add: hits_def se_sortwtset_def qsort.simps compare_wt_entries_def new_entry_def comp2doc_entries_def)

section \<open>The smallest or largest components\<close>

lemma comp_kills_trans: "comp_kills m a b \<Longrightarrow> comp_kills m b c \<Longrightarrow> comp_kills m a c"
  by (auto simp: comp_kills_def split: if_splits)

definition alive :: "component_data_item option list \<Rightarrow> nat \<Rightarrow> bool" where
  "alive ts i \<longleftrightarrow> i < length ts \<and> ts ! i \<noteq> None"

definition kills_at :: "int \<Rightarrow> component_data_item option list \<Rightarrow> nat \<Rightarrow> nat \<Rightarrow> bool" where
  "kills_at m ts i j \<longleftrightarrow> i \<noteq> j \<and> comp_kills m (the (ts ! i)) (the (ts ! j))"

lemma minmax_inner_length [simp]: "length (minmax_inner m i ts) = length ts"
  by (simp add: minmax_inner_def split: option.splits)

lemma minmax_inner_nth:
  "j < length ts \<Longrightarrow> minmax_inner m i ts ! j =
     (if alive ts i \<and> kills_at m ts i j \<and> i < length ts then None else ts ! j)" if "i < length ts"
  using that by (auto simp: minmax_inner_def alive_def kills_at_def split: option.splits)

text \<open>
  What the loop has achieved after the first \<open>n\<close> turns, against the list \<open>ts0\<close> it started with:
  entries are only removed, no entry that is left is killed by one of the first \<open>n\<close> that is
  left, and each removed one is killed by one that is left.
\<close>

definition minmax_inv :: "int \<Rightarrow> component_data_item option list \<Rightarrow> nat \<Rightarrow> component_data_item option list \<Rightarrow> bool" where
  "minmax_inv m ts0 n ts \<longleftrightarrow> length ts = length ts0
     \<and> (\<forall>j. alive ts j \<longrightarrow> alive ts0 j \<and> ts ! j = ts0 ! j)
     \<and> (\<forall>i j. i < n \<and> alive ts i \<and> alive ts j \<longrightarrow> \<not> kills_at m ts0 i j)
     \<and> (\<forall>j. alive ts0 j \<and> \<not> alive ts j \<longrightarrow> (\<exists>i. alive ts i \<and> comp_kills m (the (ts0 ! i)) (the (ts0 ! j))))"

lemma minmax_inv_step:
  assumes inv: "minmax_inv m ts0 n ts" and n: "n < length ts0"
  shows "minmax_inv m ts0 (Suc n) (minmax_inner m n ts)"
proof -
  let ?ts = "minmax_inner m n ts"
  have len: "length ts = length ts0" using inv by (simp add: minmax_inv_def)
  have nth: "?ts ! j = (if alive ts n \<and> kills_at m ts n j then None else ts ! j)" if "j < length ts" for j
    using minmax_inner_nth [of n ts j m] n len that by simp
  have al: "alive ?ts j \<longleftrightarrow> alive ts j \<and> \<not> (alive ts n \<and> kills_at m ts n j)" for j
    using nth [of j] by (cases "j < length ts") (auto simp: alive_def split: if_splits)
  have same: "ts ! j = ts0 ! j" "alive ts0 j" if "alive ts j" for j using inv that by (simp_all add: minmax_inv_def)
  have kills: "kills_at m ts n j \<longleftrightarrow> kills_at m ts0 n j" if "alive ts n" "alive ts j" for j
    using same that by (simp add: kills_at_def)
  have self: "\<not> kills_at m ts n n" by (simp add: kills_at_def)
  have "\<exists>i. alive ?ts i \<and> comp_kills m (the (ts0 ! i)) (the (ts0 ! j))" if j: "alive ts0 j" "\<not> alive ?ts j" for j
  proof (cases "alive ts j")
    case True
    then have "alive ts n" "kills_at m ts n j" using j al by blast+
    moreover from this have "alive ?ts n" using al self by blast
    ultimately show ?thesis using kills True by (auto simp: kills_at_def)
  next
    case False
    then obtain i where i: "alive ts i" "comp_kills m (the (ts0 ! i)) (the (ts0 ! j))"
      using inv j by (auto simp: minmax_inv_def)
    show ?thesis
    proof (cases "alive ?ts i")
      case True
      with i show ?thesis by blast
    next
      case False
      then have k: "alive ts n" "kills_at m ts n i" using i al by blast+
      then have "comp_kills m (the (ts0 ! n)) (the (ts0 ! i))" using kills i by (auto simp: kills_at_def)
      with i(2) have "comp_kills m (the (ts0 ! n)) (the (ts0 ! j))" using comp_kills_trans by blast
      moreover have "alive ?ts n" using k al self by blast
      ultimately show ?thesis by blast
    qed
  qed
  moreover have "\<not> kills_at m ts0 i j" if "i < Suc n" "alive ?ts i" "alive ?ts j" for i j
    using that inv al kills by (cases "i = n") (auto simp: minmax_inv_def)
  moreover have "alive ts0 j \<and> ?ts ! j = ts0 ! j" if "alive ?ts j" for j
    using that al same nth [of j] by (auto simp: alive_def)
  ultimately show ?thesis using len by (auto simp: minmax_inv_def)
qed

lemma minmax_loop_inv: "minmax_inv m ts (length ts) (minmax_loop m ts)"
proof -
  have "n \<le> length ts \<Longrightarrow> minmax_inv m ts n (foldl (\<lambda>ts i. minmax_inner m i ts) ts [0..<n])" for n
  proof (induction n)
    case 0
    then show ?case by (simp add: minmax_inv_def)
  next
    case (Suc n)
    then show ?case using minmax_inv_step by simp
  qed
  then show ?thesis by (simp add: minmax_loop_def)
qed

lemma minmax_entries_records:
  assumes "length ts = length es"
  shows "map record_num (minmax_entries es ts) =
    map (\<lambda>i. record_num (es ! i)) (filter (\<lambda>i. alive ts i) [0..<length es])"
proof -
  have z: "zip es ts = map (\<lambda>i. (es ! i, ts ! i)) [0..<length es]"
    using assms by (auto intro: nth_equalityI)
  have hd_same: "map record_num (case ks of [] \<Rightarrow> [] | k # ks \<Rightarrow> k\<lparr>xtra := x\<rparr> # ks) = map record_num ks" for ks x
    by (cases ks) simp_all
  have "map record_num (minmax_entries es ts) = map (\<lambda>(e, t). record_num e) (filter (\<lambda>(e, t). t \<noteq> None) (zip es ts))"
    by (simp add: minmax_entries_def Let_def hd_same) (auto simp: new_entry_def)
  also have "\<dots> = map (\<lambda>i. record_num (es ! i)) (filter (\<lambda>i. ts ! i \<noteq> None) [0..<length es])"
    unfolding z by (simp add: filter_map comp_def)
  also have "filter (\<lambda>i. ts ! i \<noteq> None) [0..<length es] = filter (\<lambda>i. alive ts i) [0..<length es]"
    using assms by (intro filter_cong) (auto simp: alive_def)
  finally show ?thesis .
qed

definition comp_at :: "comp_dbs \<Rightarrow> weighted_result \<Rightarrow> nat \<Rightarrow> component_data_item option" where
  "comp_at dbs inset i = get_component_record dbs (record_num (hits inset ! i)) (component inset)"

text \<open>
  C7: \<open>se_comp_minmax\<close> keeps, in their order, a set of hits none of which kills another, and every
  hit it drops though its component record exists is killed by one it keeps: for the minimum
  no kept component lies inside another kept one and every dropped one contains a kept one.
\<close>

theorem se_comp_minmax_antichain:
  "\<exists>K newset. se_comp_minmax dbs m (Some inset) = Some newset
     \<and> map record_num (hits newset) =
         map (\<lambda>i. record_num (hits inset ! i)) (filter (\<lambda>i. i \<in> K) [0..<length (hits inset)])
     \<and> (\<forall>i \<in> K. \<forall>j \<in> K. i \<noteq> j \<longrightarrow> \<not> comp_kills m (the (comp_at dbs inset i)) (the (comp_at dbs inset j)))
     \<and> (\<forall>j < length (hits inset). comp_at dbs inset j \<noteq> None \<and> j \<notin> K \<longrightarrow>
          (\<exists>i \<in> K. comp_kills m (the (comp_at dbs inset i)) (the (comp_at dbs inset j))))"
proof -
  let ?es = "hits inset"
  let ?orig = "map (\<lambda>e. get_component_record dbs (record_num e) (component inset)) ?es"
  let ?ts = "minmax_loop m ?orig"
  let ?kept = "minmax_entries ?es ?ts"
  let ?new = "inset\<lparr>num_hits := int (length ?kept), entries := ?kept\<rparr>"
  let ?K = "{i. alive ?ts i}"
  have inv: "minmax_inv m ?orig (length ?orig) ?ts" by (rule minmax_loop_inv)
  have len: "length ?ts = length ?es" using inv by (simp add: minmax_inv_def)
  have at: "?orig ! i = comp_at dbs inset i" if "i < length ?es" for i
    using that by (simp add: comp_at_def)
  have run: "se_comp_minmax dbs m (Some inset) = Some ?new" by (simp add: se_comp_minmax_def Let_def)
  have recs: "map record_num (hits ?new) = map (\<lambda>i. record_num (?es ! i)) (filter (\<lambda>i. i \<in> ?K) [0..<length ?es])"
    using minmax_entries_records [OF len] by (simp add: hits_def)
  have anti: "\<forall>i \<in> ?K. \<forall>j \<in> ?K. i \<noteq> j \<longrightarrow> \<not> comp_kills m (the (comp_at dbs inset i)) (the (comp_at dbs inset j))"
  proof (intro ballI impI)
    fix i j
    assume ij: "i \<in> ?K" "j \<in> ?K" "i \<noteq> j"
    then have lt: "i < length ?es" "j < length ?es" using len by (simp_all add: alive_def)
    have "\<not> kills_at m ?orig i j" using inv ij lt by (simp add: minmax_inv_def)
    then show "\<not> comp_kills m (the (comp_at dbs inset i)) (the (comp_at dbs inset j))"
      using ij at lt by (simp add: kills_at_def)
  qed
  have cover: "\<exists>i \<in> ?K. comp_kills m (the (comp_at dbs inset i)) (the (comp_at dbs inset j))"
    if j: "j < length ?es" "comp_at dbs inset j \<noteq> None" "j \<notin> ?K" for j
  proof -
    have "alive ?orig j \<and> \<not> alive ?ts j" using j at by (simp add: alive_def)
    then obtain i where "alive ?ts i" "comp_kills m (the (?orig ! i)) (the (?orig ! j))"
      using inv unfolding minmax_inv_def by blast
    moreover have "i < length ?es" using \<open>alive ?ts i\<close> len by (simp add: alive_def)
    ultimately show ?thesis using at j by auto
  qed
  show ?thesis using run recs anti cover by blast
qed

theorem se_comp_minmax_antichain_witness:
  "\<exists>(K :: nat set) newset. se_comp_minmax sample_comp_dbs 1 (Some (sample_comps 0)) = Some newset
     \<and> (10 \<in> record_num ` set (hits newset) \<longleftrightarrow> 0 \<in> K) \<and> (\<not> (0 \<in> K \<and> 2 \<in> K))"
proof -
  obtain K newset where K: "se_comp_minmax sample_comp_dbs 1 (Some (sample_comps 0)) = Some newset"
    "map record_num (hits newset) =
      map (\<lambda>i. record_num (hits (sample_comps 0) ! i)) (filter (\<lambda>i. i \<in> K) [0..<length (hits (sample_comps 0))])"
    "\<forall>i \<in> K. \<forall>j \<in> K. i \<noteq> j \<longrightarrow> \<not> comp_kills 1 (the (comp_at sample_comp_dbs (sample_comps 0) i))
        (the (comp_at sample_comp_dbs (sample_comps 0) j))"
    using se_comp_minmax_antichain [of sample_comp_dbs 1 "sample_comps 0"] by blast
  have up: "[0..<length (hits (sample_comps 0))] = [0, 1, 2, 3]" by (simp add: sample_comps_facts eval_nat_numeral)
  have "set (map record_num (hits newset)) = (\<lambda>i. record_num (hits (sample_comps 0) ! i)) ` {i \<in> set [0, 1, 2, 3]. i \<in> K}"
    unfolding K(2) up set_map set_filter by (rule refl)
  then have "10 \<in> record_num ` set (hits newset) \<longleftrightarrow> 0 \<in> K"
    by (auto simp: sample_comps_facts new_entry_def image_iff)
  moreover have "\<not> (0 \<in> K \<and> 2 \<in> K)"
  proof
    assume "0 \<in> K \<and> 2 \<in> K"
    then have "\<not> comp_kills 1 (the (comp_at sample_comp_dbs (sample_comps 0) 2)) (the (comp_at sample_comp_dbs (sample_comps 0) 0))"
      using K(3) by simp
    then show False
      by (simp add: comp_kills_def comp_at_def sample_comps_facts get_component_record_def sample_comp_dbs_def new_entry_def)
  qed
  ultimately show ?thesis using K(1) by (intro exI [of _ K] exI [of _ newset]) simp
qed

text \<open>
  Finding: the offsets are compared without the documents they belong to: a component of document 4
  is dropped because a component of document 7 has offsets within its own.
\<close>

theorem se_comp_minmax_across_documents:
  "\<exists>newset. se_comp_minmax sample_comp_dbs 1 (Some (new_result\<lparr>component := 1, num_hits := 2,
       entries := [new_entry 10 (Fin 1), new_entry 12 (Fin 1)]\<rparr>)) = Some newset
     \<and> map record_num (hits newset) = [12]
     \<and> record_id (the (get_component_record sample_comp_dbs 10 1)) = 4
     \<and> record_id (the (get_component_record sample_comp_dbs 12 1)) = 7"
  by (simp add: se_comp_minmax_def hits_def get_component_record_def sample_comp_dbs_def new_entry_def new_result_def
      minmax_loop_def minmax_inner_def minmax_entries_def comp_kills_def eval_nat_numeral Let_def)

end
