(* ===== verification/Bitmap_Index.thy ===== *)
theory Bitmap_Index
  imports Result_Set
begin

text \<open>
  Bitmap indexes: the block macros of \<open>src/header/bitmaps.h\<close> and the maintenance of an index,
  \<open>in_add_bitmap_entry\<close> and \<open>in_del_bitmap_entry\<close> of \<open>src/index/in_bitmaps.c\<close>.

  A term has an information record under its text and bitmap blocks of 8192 octets under its
  number and a block number. The two kinds of key never coincide (the third octet of a block
  key is 0), so the Berkeley DB file is two maps: \<open>get\<close> returns what \<open>put\<close> stored last, or not
  found. The other error codes of the library, on which the program gives up, are not
  modelled. \<open>Crash\<close> stands for the end of the process.
\<close>

unbundle bit_operations_syntax

section \<open>Blocks\<close>

definition bitmap_blocksize_bytes :: nat where
  "bitmap_blocksize_bytes = 8192"

definition bitmap_blocksize_bits :: int where
  "bitmap_blocksize_bits = 65536"

definition bitmap_byte :: "int \<Rightarrow> int" where
  "bitmap_byte n = drop_bit 3 n"

definition bitmap_mask :: "int \<Rightarrow> octet" where
  "bitmap_mask n = push_bit (nat (n AND 7)) 1"

definition bitblock_id :: "int \<Rightarrow> int" where
  "bitblock_id recno = drop_bit 16 recno"

definition bitblock_bit :: "int \<Rightarrow> int" where
  "bitblock_bit recno = (recno - 1) AND 65535"

definition bitblock_set :: "octet list \<Rightarrow> int \<Rightarrow> octet list" where
  "bitblock_set name recno =
     (let i = nat (bitmap_byte (bitblock_bit recno)) in name[i := name ! i OR bitmap_mask (bitblock_bit recno)])"

definition bitblock_test :: "octet list \<Rightarrow> int \<Rightarrow> bool" where
  "bitblock_test name recno \<longleftrightarrow>
     name ! nat (bitmap_byte (bitblock_bit recno)) AND bitmap_mask (bitblock_bit recno) \<noteq> 0"

definition bitblock_clear :: "octet list \<Rightarrow> int \<Rightarrow> octet list" where
  "bitblock_clear name recno =
     (let i = nat (bitmap_byte (bitblock_bit recno)) in name[i := name ! i AND NOT (bitmap_mask (bitblock_bit recno))])"

definition bitmap_block_alloc :: "octet list" where
  "bitmap_block_alloc = replicate bitmap_blocksize_bytes 0"

text \<open>\<open>(short)\<close>\<close>

definition c_short :: "int \<Rightarrow> int" where
  "c_short x = (x + 32768) mod 65536 - 32768"

section \<open>The index\<close>

record term_info =
  ti_termid :: int
  ti_num_entries :: int
  ti_tot_freq :: int
  ti_record_no :: int
  ti_term_freq :: int

text \<open>\<open>bi_recptr\<close>, \<open>bi_tot_occur\<close> and \<open>bi_tot_numrecs\<close> are the fields of \<open>GlobalData\<close>.\<close>

record bitmap_index =
  bi_terms :: "string \<Rightarrow> term_info option"
  bi_blocks :: "int \<times> int \<Rightarrow> octet list option"
  bi_recptr :: int
  bi_tot_occur :: int
  bi_tot_numrecs :: int

text \<open>The first half of \<open>in_add_bitmap_entry\<close>: the information record of the term.\<close>

definition add_term_info :: "bitmap_index \<Rightarrow> int \<Rightarrow> string \<Rightarrow> int \<Rightarrow> bitmap_index \<times> term_info" where
  "add_term_info idx recnum word n =
     (case bi_terms idx word of
        Some old \<Rightarrow>
          let newinfo = old\<lparr>ti_tot_freq := ti_tot_freq old + n, ti_num_entries := ti_num_entries old + n,
                ti_record_no := recnum, ti_term_freq := ti_term_freq old + 1\<rparr>
          in (idx\<lparr>bi_terms := (bi_terms idx)(word := Some newinfo),
                 bi_tot_occur := bi_tot_occur idx + n, bi_tot_numrecs := bi_tot_numrecs idx + n\<rparr>, newinfo)
      | None \<Rightarrow>
          let tempinfo = \<lparr>ti_termid = bi_recptr idx, ti_num_entries = n, ti_tot_freq = n, ti_record_no = recnum,
                ti_term_freq = 1\<rparr>
          in (idx\<lparr>bi_terms := (bi_terms idx)(word := Some tempinfo), bi_recptr := bi_recptr idx + 1,
                 bi_tot_occur := bi_tot_occur idx + n, bi_tot_numrecs := bi_tot_numrecs idx + n\<rparr>, tempinfo))"

definition or_blocks :: "octet list \<Rightarrow> octet list \<Rightarrow> octet list" where
  "or_blocks b c = map2 (OR) b c"

definition in_add_bitmap_entry ::
    "bitmap_index \<Rightarrow> int \<Rightarrow> string \<Rightarrow> octet list option \<Rightarrow> int \<Rightarrow> bitmap_index run" where
  "in_add_bitmap_entry idx recnum word in_bitmap n_new_entries =
     (let (idx1, info) = add_term_info idx recnum word n_new_entries;
          block_key = (c_short (bitblock_id recnum), ti_termid info);
          single = (n_new_entries = 1 \<and> in_bitmap = None)
      in case bi_blocks idx1 block_key of
          Some b \<Rightarrow>
            if length b \<noteq> bitmap_blocksize_bytes then Crash
            else if single then Done (idx1\<lparr>bi_blocks := (bi_blocks idx1)(block_key := Some (bitblock_set b recnum))\<rparr>)
            else run_bind (deref in_bitmap) (\<lambda>c. Done (idx1\<lparr>bi_blocks := (bi_blocks idx1)(block_key := Some (or_blocks b c))\<rparr>))
        | None \<Rightarrow>
            if single
            then Done (idx1\<lparr>bi_blocks := (bi_blocks idx1)(block_key := Some (bitblock_set bitmap_block_alloc recnum))\<rparr>)
            else run_bind (deref in_bitmap) (\<lambda>c. Done (idx1\<lparr>bi_blocks := (bi_blocks idx1)(block_key := Some c)\<rparr>)))"

definition in_del_bitmap_entry :: "bitmap_index \<Rightarrow> int \<Rightarrow> int \<Rightarrow> bitmap_index run" where
  "in_del_bitmap_entry idx recnum tid =
     (let block_key = (c_short (bitblock_id recnum), tid)
      in case bi_blocks idx block_key of
          Some b \<Rightarrow>
            if length b \<noteq> bitmap_blocksize_bytes then Crash
            else Done (idx\<lparr>bi_blocks := (bi_blocks idx)(block_key := Some (bitblock_clear b recnum))\<rparr>)
        | None \<Rightarrow> Done idx)"

section \<open>Bits of a block\<close>

definition block_bit :: "octet list \<Rightarrow> nat \<Rightarrow> bool" where
  "block_bit b i \<longleftrightarrow> bit (b ! (i div 8)) (i mod 8)"

definition bit_index :: "int \<Rightarrow> nat" where
  "bit_index recno = nat (bitblock_bit recno)"

lemma bitblock_bit_mod: "bitblock_bit r = (r - 1) mod 65536"
proof -
  have "(r - 1) AND 65535 = take_bit 16 (r - 1)" by (simp add: take_bit_eq_mask mask_eq_exp_minus_1)
  then show ?thesis by (simp add: bitblock_bit_def take_bit_eq_mod)
qed

lemma bitblock_bit_range: "0 \<le> bitblock_bit r" "bitblock_bit r < 65536"
  by (simp_all add: bitblock_bit_mod)

lemma bit_index_lt: "bit_index r < 65536"
  by (simp add: bit_index_def bitblock_bit_mod nat_less_iff)

lemma byte_and_mask:
  "nat (bitmap_byte (bitblock_bit r)) = bit_index r div 8" "bitmap_mask (bitblock_bit r) = 2 ^ (bit_index r mod 8)"
proof -
  have "drop_bit 3 (bitblock_bit r) = bitblock_bit r div 8" by (simp add: drop_bit_eq_div)
  then show "nat (bitmap_byte (bitblock_bit r)) = bit_index r div 8"
    using bitblock_bit_range [of r] by (simp add: bitmap_byte_def bit_index_def nat_div_distrib)
  have "bitblock_bit r AND 7 = take_bit 3 (bitblock_bit r)" by (simp add: take_bit_eq_mask mask_eq_exp_minus_1)
  then have "nat (bitblock_bit r AND 7) = bit_index r mod 8"
    using bitblock_bit_range [of r] by (simp add: take_bit_eq_mod bit_index_def nat_mod_distrib)
  then show "bitmap_mask (bitblock_bit r) = 2 ^ (bit_index r mod 8)"
    by (simp add: bitmap_mask_def push_bit_eq_mult)
qed

lemma bitblock_test_bit: "bitblock_test b r \<longleftrightarrow> block_bit b (bit_index r)"
  by (simp add: bitblock_test_def block_bit_def byte_and_mask and_exp_eq_0_iff_not_bit)

lemma length_bitblock [simp]: "length (bitblock_set b r) = length b" "length (bitblock_clear b r) = length b"
  by (simp_all add: bitblock_set_def bitblock_clear_def Let_def)

lemma octet_exp_bit: "n < 8 \<Longrightarrow> bit (2 ^ n :: octet) m \<longleftrightarrow> m = n"
  by (auto simp: bit_exp_iff)

lemma block_bit_update:
  assumes "length b = 8192" and "i < 65536"
  shows "block_bit (bitblock_set b r) i \<longleftrightarrow> block_bit b i \<or> i = bit_index r"
    and "block_bit (bitblock_clear b r) i \<longleftrightarrow> block_bit b i \<and> i \<noteq> bit_index r"
proof -
  have idx: "bit_index r div 8 < length b" "i div 8 < length b" using assms bit_index_lt [of r] by simp_all
  have eq: "i = bit_index r \<longleftrightarrow> i div 8 = bit_index r div 8 \<and> i mod 8 = bit_index r mod 8"
    by (metis div_mult_mod_eq)
  show "block_bit (bitblock_set b r) i \<longleftrightarrow> block_bit b i \<or> i = bit_index r"
    using idx eq by (auto simp: block_bit_def bitblock_set_def Let_def byte_and_mask nth_list_update bit_or_iff octet_exp_bit)
  show "block_bit (bitblock_clear b r) i \<longleftrightarrow> block_bit b i \<and> i \<noteq> bit_index r"
    using idx eq
    by (auto simp: block_bit_def bitblock_clear_def Let_def byte_and_mask nth_list_update bit_and_iff bit_not_iff octet_exp_bit)
qed

lemma block_bit_empty [simp]: "i < 65536 \<Longrightarrow> \<not> block_bit bitmap_block_alloc i"
  by (simp add: block_bit_def bitmap_block_alloc_def bitmap_blocksize_bytes_def)

section \<open>What an index says\<close>

definition record_ok :: "int \<Rightarrow> bool" where
  "record_ok r \<longleftrightarrow> 0 < r \<and> r < 2147483648"

definition block_key :: "int \<Rightarrow> int \<Rightarrow> int \<times> int" where
  "block_key r tid = (c_short (bitblock_id r), tid)"

definition bit_member :: "bitmap_index \<Rightarrow> int \<Rightarrow> int \<Rightarrow> bool" where
  "bit_member idx tid r \<longleftrightarrow>
     (case bi_blocks idx (block_key r tid) of None \<Rightarrow> False | Some b \<Rightarrow> bitblock_test b r)"

text \<open>The records indexed under a word.\<close>

definition word_records :: "bitmap_index \<Rightarrow> string \<Rightarrow> int set" where
  "word_records idx w =
     (case bi_terms idx w of None \<Rightarrow> {} | Some t \<Rightarrow> {r. record_ok r \<and> bit_member idx (ti_termid t) r})"

definition index_ok :: "bitmap_index \<Rightarrow> bool" where
  "index_ok idx \<longleftrightarrow>
     (\<forall>k b. bi_blocks idx k = Some b \<longrightarrow> length b = bitmap_blocksize_bytes \<and> snd k < bi_recptr idx)
     \<and> (\<forall>w t. bi_terms idx w = Some t \<longrightarrow> ti_termid t < bi_recptr idx)
     \<and> (\<forall>v w s t. bi_terms idx v = Some s \<longrightarrow> bi_terms idx w = Some t \<longrightarrow> ti_termid s = ti_termid t \<longrightarrow> v = w)"

lemma index_block_length: "index_ok idx \<Longrightarrow> bi_blocks idx k = Some b \<Longrightarrow> length b = 8192"
  unfolding index_ok_def bitmap_blocksize_bytes_def by blast

lemma block_id_div: "bitblock_id r = r div 65536"
  by (simp add: bitblock_id_def drop_bit_eq_div)

lemma block_id_short: "record_ok r \<Longrightarrow> c_short (bitblock_id r) = r div 65536"
proof -
  assume "record_ok r"
  then have "0 \<le> r div 65536" "r div 65536 < 32768" by (auto simp: record_ok_def)
  then show ?thesis by (simp add: c_short_def block_id_div)
qed

text \<open>Block and bit determine the record, a block holding the record 65536 k as its last bit.\<close>

lemma block_bit_inj:
  assumes "record_ok r" and "record_ok q" and "c_short (bitblock_id r) = c_short (bitblock_id q)" and "bit_index r = bit_index q"
  shows "r = q"
proof -
  have d: "r div 65536 = q div 65536" using assms block_id_short by simp
  have "(r - 1) mod 65536 = (q - 1) mod 65536"
    using assms(4) bitblock_bit_range [of r] bitblock_bit_range [of q] by (simp add: bit_index_def bitblock_bit_mod)
  then have "r mod 65536 = q mod 65536"
    by (metis diff_add_cancel mod_add_left_eq)
  with d show ?thesis by (metis div_mult_mod_eq)
qed

text \<open>One bit of one block set, or cleared.\<close>

lemma member_set_bit:
  assumes "record_ok r" "record_ok q" "length b = 8192"
    and old: "(case bi_blocks idx (block_key r tid) of None \<Rightarrow> b = bitmap_block_alloc | Some c \<Rightarrow> b = c)"
    and new: "bi_blocks idx' = (bi_blocks idx)(block_key r tid := Some (bitblock_set b r))"
  shows "bit_member idx' sid q \<longleftrightarrow> bit_member idx sid q \<or> (sid = tid \<and> q = r)"
proof (cases "block_key q sid = block_key r tid")
  case True
  then have s: "sid = tid" "c_short (bitblock_id q) = c_short (bitblock_id r)" by (simp_all add: block_key_def)
  have b: "block_bit b (bit_index q) \<longleftrightarrow> bit_member idx sid q"
    using old True bit_index_lt [of q]
    by (cases "bi_blocks idx (block_key r tid)") (simp_all add: bit_member_def bitblock_test_bit)
  have "bit_member idx' sid q \<longleftrightarrow> block_bit (bitblock_set b r) (bit_index q)"
    using new True by (simp add: bit_member_def bitblock_test_bit)
  also have "\<dots> \<longleftrightarrow> bit_member idx sid q \<or> bit_index q = bit_index r"
    using block_bit_update(1) [OF assms(3) bit_index_lt] b by simp
  also have "bit_index q = bit_index r \<longleftrightarrow> q = r"
    using block_bit_inj [OF assms(2,1) s(2)] by auto
  finally show ?thesis using s by simp
next
  case False
  then have "\<not> (sid = tid \<and> q = r)" by auto
  then show ?thesis using False new by (auto simp: bit_member_def)
qed

lemma member_clear_bit:
  assumes "record_ok r" "record_ok q" "length b = 8192" and old: "bi_blocks idx (block_key r tid) = Some b"
    and new: "bi_blocks idx' = (bi_blocks idx)(block_key r tid := Some (bitblock_clear b r))"
  shows "bit_member idx' sid q \<longleftrightarrow> bit_member idx sid q \<and> \<not> (sid = tid \<and> q = r)"
proof (cases "block_key q sid = block_key r tid")
  case True
  then have s: "sid = tid" "c_short (bitblock_id q) = c_short (bitblock_id r)" by (simp_all add: block_key_def)
  have b: "block_bit b (bit_index q) \<longleftrightarrow> bit_member idx sid q"
    using old True by (simp add: bit_member_def bitblock_test_bit)
  have "bit_member idx' sid q \<longleftrightarrow> block_bit (bitblock_clear b r) (bit_index q)"
    using new True by (simp add: bit_member_def bitblock_test_bit)
  also have "\<dots> \<longleftrightarrow> bit_member idx sid q \<and> bit_index q \<noteq> bit_index r"
    using block_bit_update(2) [OF assms(3) bit_index_lt] b by simp
  also have "bit_index q = bit_index r \<longleftrightarrow> q = r"
    using block_bit_inj [OF assms(2,1) s(2)] by auto
  finally show ?thesis using s by simp
next
  case False
  then have "\<not> (sid = tid \<and> q = r)" by auto
  then show ?thesis using False new by (auto simp: bit_member_def)
qed

lemma add_term_info_facts:
  assumes "index_ok idx" and "add_term_info idx r w n = (idx1, info)"
  shows "bi_blocks idx1 = bi_blocks idx" and "bi_terms idx1 w = Some info"
    and "v \<noteq> w \<Longrightarrow> bi_terms idx1 v = bi_terms idx v" and "index_ok idx1" and "ti_termid info < bi_recptr idx1"
    and "case bi_terms idx w of Some old \<Rightarrow> ti_termid info = ti_termid old | None \<Rightarrow> ti_termid info = bi_recptr idx"
proof -
  have lt: "bi_terms idx u = Some t \<Longrightarrow> ti_termid t < bi_recptr idx" for u t using assms(1) by (simp add: index_ok_def)
  show "bi_blocks idx1 = bi_blocks idx" "bi_terms idx1 w = Some info" "v \<noteq> w \<Longrightarrow> bi_terms idx1 v = bi_terms idx v"
    "case bi_terms idx w of Some old \<Rightarrow> ti_termid info = ti_termid old | None \<Rightarrow> ti_termid info = bi_recptr idx"
    using assms(2) by (auto simp: add_term_info_def Let_def split: option.splits)
  show "ti_termid info < bi_recptr idx1"
    using assms(2) lt by (auto simp: add_term_info_def Let_def split: option.splits)
  show "index_ok idx1"
  proof (cases "bi_terms idx w")
    case None
    then have "bi_terms idx1 = (bi_terms idx)(w := Some info)" "ti_termid info = bi_recptr idx"
      "bi_recptr idx1 = bi_recptr idx + 1" "bi_blocks idx1 = bi_blocks idx"
      using assms(2) by (auto simp: add_term_info_def Let_def)
    moreover have "ti_termid t \<noteq> bi_recptr idx" if "bi_terms idx u = Some t" for u t using lt [OF that] by simp
    ultimately show ?thesis using assms(1) unfolding index_ok_def
      by (auto split: if_splits) (force dest: lt)+
  next
    case (Some old)
    then have "bi_terms idx1 = (bi_terms idx)(w := Some info)" "ti_termid info = ti_termid old"
      "bi_recptr idx1 = bi_recptr idx" "bi_blocks idx1 = bi_blocks idx"
      using assms(2) by (auto simp: add_term_info_def Let_def)
    then show ?thesis using assms(1) Some unfolding index_ok_def by (auto split: if_splits)
  qed
qed

lemma in_add_member:
  assumes "index_ok idx" and "record_ok r"
  shows "\<exists>idx' info. in_add_bitmap_entry idx r w None 1 = Done idx' \<and> index_ok idx' \<and> bi_terms idx' w = Some info
    \<and> (\<forall>v. v \<noteq> w \<longrightarrow> bi_terms idx' v = bi_terms idx v)
    \<and> (case bi_terms idx w of Some old \<Rightarrow> ti_termid info = ti_termid old | None \<Rightarrow> ti_termid info = bi_recptr idx)
    \<and> (\<forall>sid q. record_ok q \<longrightarrow> (bit_member idx' sid q \<longleftrightarrow> bit_member idx sid q \<or> (sid = ti_termid info \<and> q = r)))"
proof -
  obtain idx1 info where i: "add_term_info idx r w 1 = (idx1, info)" by force
  note f = add_term_info_facts [OF assms(1) i]
  define b where "b = (case bi_blocks idx (block_key r (ti_termid info)) of None \<Rightarrow> bitmap_block_alloc | Some c \<Rightarrow> c)"
  let ?idx = "idx1\<lparr>bi_blocks := (bi_blocks idx1)(block_key r (ti_termid info) := Some (bitblock_set b r))\<rparr>"
  have len: "length b = 8192"
    using index_block_length [OF assms(1)]
    by (auto simp: b_def bitmap_block_alloc_def bitmap_blocksize_bytes_def split: option.splits)
  have run: "in_add_bitmap_entry idx r w None 1 = Done ?idx"
    using f(1) len i by (simp add: in_add_bitmap_entry_def block_key_def b_def bitmap_blocksize_bytes_def split: option.splits)
  have ok: "index_ok ?idx"
    using f(4,5) len unfolding index_ok_def by (auto simp: block_key_def bitmap_blocksize_bytes_def split: if_splits)
  have mem: "bit_member ?idx sid q \<longleftrightarrow> bit_member idx sid q \<or> (sid = ti_termid info \<and> q = r)" if "record_ok q" for sid q
    using member_set_bit [OF assms(2) that len, of idx "ti_termid info" ?idx sid] f(1)
    by (simp add: b_def split: option.splits)
  show ?thesis using run ok f(2,3,6) mem by (intro exI [of _ ?idx] exI [of _ info]) auto
qed

lemma in_add_records:
  assumes "index_ok idx" and "record_ok r"
  shows "\<exists>idx'. in_add_bitmap_entry idx r w None 1 = Done idx' \<and> index_ok idx'
    \<and> (\<forall>v. word_records idx' v = (if v = w then insert r (word_records idx v) else word_records idx v))"
proof -
  obtain idx' info where i: "in_add_bitmap_entry idx r w None 1 = Done idx'" "index_ok idx'" "bi_terms idx' w = Some info"
    "\<forall>v. v \<noteq> w \<longrightarrow> bi_terms idx' v = bi_terms idx v"
    "case bi_terms idx w of Some old \<Rightarrow> ti_termid info = ti_termid old | None \<Rightarrow> ti_termid info = bi_recptr idx"
    "\<forall>sid q. record_ok q \<longrightarrow> (bit_member idx' sid q \<longleftrightarrow> bit_member idx sid q \<or> (sid = ti_termid info \<and> q = r))"
    using in_add_member [OF assms] by blast
  have fresh: "\<not> bit_member idx (bi_recptr idx) q" for q
    using assms(1) by (fastforce simp: bit_member_def index_ok_def block_key_def split: option.splits)
  have "word_records idx' v = (if v = w then insert r (word_records idx v) else word_records idx v)" for v
  proof (cases "v = w")
    case True
    then show ?thesis using i(3,5,6) fresh assms(2)
      by (cases "bi_terms idx w") (auto simp: word_records_def)
  next
    case False
    then have same: "bi_terms idx' v = bi_terms idx v" using i(4) by simp
    have "ti_termid t \<noteq> ti_termid info" if "bi_terms idx v = Some t" for t
      using i(2,3) same that False unfolding index_ok_def by metis
    then show ?thesis using False same i(6) by (auto simp: word_records_def split: option.splits)
  qed
  with i(1,2) show ?thesis by blast
qed

text \<open>
  C20: adding a record under a word with \<open>in_add_bitmap_entry\<close> adds exactly that record to the
  records of the word, new or known, leaves every other word alone, and keeps
  the index well formed.
\<close>

theorem in_add_bitmap_entry_adds:
  assumes "index_ok idx" and "record_ok r"
  shows "\<exists>idx'. in_add_bitmap_entry idx r w None 1 = Done idx' \<and> index_ok idx'
    \<and> (\<forall>v. word_records idx' v = (if v = w then insert r (word_records idx v) else word_records idx v))"
  using in_add_records [OF assms] .

definition empty_index :: bitmap_index where
  "empty_index = \<lparr>bi_terms = (\<lambda>w. None), bi_blocks = (\<lambda>k. None), bi_recptr = 1, bi_tot_occur = 0, bi_tot_numrecs = 0\<rparr>"

theorem in_add_bitmap_entry_adds_witness:
  "\<exists>idx'. in_add_bitmap_entry empty_index 70000 ''cat'' None 1 = Done idx' \<and> word_records idx' ''cat'' = {70000}"
proof -
  have "\<exists>idx'. in_add_bitmap_entry empty_index 70000 ''cat'' None 1 = Done idx' \<and> index_ok idx'
    \<and> (\<forall>v. word_records idx' v = (if v = ''cat'' then insert 70000 (word_records empty_index v) else word_records empty_index v))"
    by (rule in_add_bitmap_entry_adds) (simp_all add: index_ok_def empty_index_def record_ok_def)
  moreover have "word_records empty_index ''cat'' = {}" by (simp add: word_records_def empty_index_def)
  ultimately show ?thesis by auto
qed

lemma in_del_records:
  assumes "index_ok idx" and "record_ok r" and "bi_terms idx w = Some t"
  shows "\<exists>idx'. in_del_bitmap_entry idx r (ti_termid t) = Done idx' \<and> index_ok idx'
    \<and> (\<forall>v. word_records idx' v = (if v = w then word_records idx v - {r} else word_records idx v))"
proof (cases "bi_blocks idx (block_key r (ti_termid t))")
  case None
  then have "\<not> bit_member idx (ti_termid t) r" by (simp add: bit_member_def)
  then have "word_records idx w - {r} = word_records idx w" using assms(3) by (auto simp: word_records_def)
  then show ?thesis using None assms(1) by (simp add: in_del_bitmap_entry_def block_key_def)
next
  case (Some b)
  let ?idx = "idx\<lparr>bi_blocks := (bi_blocks idx)(block_key r (ti_termid t) := Some (bitblock_clear b r))\<rparr>"
  have len: "length b = 8192" by (rule index_block_length [OF assms(1) Some])
  have lt: "ti_termid t < bi_recptr idx" using assms(1,3) by (simp add: index_ok_def)
  have run: "in_del_bitmap_entry idx r (ti_termid t) = Done ?idx"
    using Some len by (simp add: in_del_bitmap_entry_def block_key_def bitmap_blocksize_bytes_def)
  have ok: "index_ok ?idx"
    using assms(1) len lt unfolding index_ok_def by (auto simp: block_key_def bitmap_blocksize_bytes_def split: if_splits)
  have mem: "bit_member ?idx sid q \<longleftrightarrow> bit_member idx sid q \<and> \<not> (sid = ti_termid t \<and> q = r)" if "record_ok q" for sid q
    using member_clear_bit [OF assms(2) that len Some, of ?idx sid] by simp
  have "word_records ?idx v = (if v = w then word_records idx v - {r} else word_records idx v)" for v
  proof (cases "v = w")
    case True
    then show ?thesis using assms(3) mem by (auto simp: word_records_def)
  next
    case False
    have "ti_termid s \<noteq> ti_termid t" if "bi_terms idx v = Some s" for s
      using assms(1,3) that False unfolding index_ok_def by metis
    then show ?thesis using False mem by (auto simp: word_records_def split: option.splits)
  qed
  with run ok show ?thesis by blast
qed

text \<open>
  Finding: \<open>in_del_bitmap_entry\<close> removes exactly the record from the records of the word with the
  given number and leaves every other word alone.
\<close>

theorem in_del_bitmap_entry_removes:
  assumes "index_ok idx" and "record_ok r" and "bi_terms idx w = Some t"
  shows "\<exists>idx'. in_del_bitmap_entry idx r (ti_termid t) = Done idx' \<and> index_ok idx'
    \<and> (\<forall>v. word_records idx' v = (if v = w then word_records idx v - {r} else word_records idx v))"
  using in_del_records [OF assms] .

definition sample_index :: bitmap_index where
  "sample_index = empty_index\<lparr>bi_terms := [''cat'' \<mapsto> \<lparr>ti_termid = 1, ti_num_entries = 1, ti_tot_freq = 1,
     ti_record_no = 70000, ti_term_freq = 1\<rparr>], bi_blocks := [(1, 1) \<mapsto> bitblock_set bitmap_block_alloc 70000], bi_recptr := 2\<rparr>"

theorem in_del_bitmap_entry_removes_witness:
  "\<exists>idx'. in_del_bitmap_entry sample_index 70000 1 = Done idx' \<and> 70000 \<notin> word_records idx' ''cat''"
proof -
  have ok: "index_ok sample_index"
    by (simp add: index_ok_def sample_index_def empty_index_def bitmap_block_alloc_def)
  let ?t = "\<lparr>ti_termid = 1, ti_num_entries = 1, ti_tot_freq = 1, ti_record_no = 70000, ti_term_freq = 1\<rparr>"
  have "\<exists>idx'. in_del_bitmap_entry sample_index 70000 (ti_termid ?t) = Done idx' \<and> index_ok idx'
    \<and> (\<forall>v. word_records idx' v = (if v = ''cat'' then word_records sample_index v - {70000} else word_records sample_index v))"
    by (rule in_del_bitmap_entry_removes [OF ok]) (simp_all add: record_ok_def sample_index_def)
  then show ?thesis by auto
qed

end
