(* ===== verification/Bitmap_Search.thy ===== *)
theory Bitmap_Search
  imports Bitmap_Index Boolean_Merge
begin

text \<open>
  Result sets that are bitmaps (\<open>src/search/se_bitmap.c\<close>, \<open>src/search/se_bitmap_merge.c\<close>): fetching
  the blocks of a set, the AND and NOT of two bitmaps, the conversion of a bitmap into a list
  of records, and the merge of a bitmap with an ordinary set.

  A bitmap set names its terms in \<open>termid\<close> and the index of each in \<open>index_ptr\<close>; its first entry
  holds the largest record number, and a negative \<open>num_hits\<close> says that the set is the conjunction
  of several terms. The indexes are a parameter, by their address.
\<close>

unbundle bit_operations_syntax

section \<open>Fetching a block\<close>

definition first_entry :: "weighted_result \<Rightarrow> weighted_entry" where
  "first_entry s = (case entries s of [] \<Rightarrow> new_entry 0 (Fin 0) | e # _ \<Rightarrow> e)"

definition and_blocks :: "octet list \<Rightarrow> octet list \<Rightarrow> octet list" where
  "and_blocks b c = map2 (AND) b c"

text \<open>The loop over the further terms; a term number that is not positive ends it.\<close>

fun fetch_further :: "(int \<Rightarrow> bitmap_index) \<Rightarrow> int \<Rightarrow> (int \<times> int) list \<Rightarrow> octet list \<Rightarrow> octet list option" where
  "fetch_further idxs blockid [] accum_block = Some accum_block"
| "fetch_further idxs blockid ((tid, ip) # rest) accum_block =
     (if tid \<le> 0 then Some accum_block
      else case bi_blocks (idxs ip) (blockid, tid) of
          None \<Rightarrow> Some bitmap_block_alloc
        | Some b \<Rightarrow> if length b \<noteq> bitmap_blocksize_bytes then None
                  else fetch_further idxs blockid rest (and_blocks accum_block b))"

text \<open>
  The block, \<open>None\<close> for \<open>NULL\<close>, and the new value of \<open>*block\<close>. The code reads the first index
  pointer without a test; a set with no term gives \<open>None\<close>, which every caller dereferences.
\<close>

definition se_fetch_bitmap_block ::
    "(int \<Rightarrow> bitmap_index) \<Rightarrow> weighted_result \<Rightarrow> int \<Rightarrow> int \<Rightarrow> octet list option \<Rightarrow> octet list option \<times> int" where
  "se_fetch_bitmap_block idxs inset recordno block last_block =
     (let current_blockno = bitblock_id recordno in
      if block = current_blockno \<and> last_block \<noteq> None then (last_block, block)
      else case zip (termid inset) (index_ptr inset) of
          [] \<Rightarrow> (None, block)
        | (tid, ip) # rest \<Rightarrow>
            (case bi_blocks (idxs ip) (c_short current_blockno, tid) of
               None \<Rightarrow> (Some bitmap_block_alloc, 0)
             | Some b \<Rightarrow>
                 if length b \<noteq> bitmap_blocksize_bytes then (None, block)
                 else if num_hits inset < 0
                 then (case fetch_further idxs (c_short current_blockno) rest b of
                         None \<Rightarrow> (None, block)
                       | Some accum_block \<Rightarrow> (Some accum_block, current_blockno))
                 else (Some b, current_blockno)))"

section \<open>AND and NOT of two bitmaps\<close>

definition byte_records :: "int \<Rightarrow> nat \<Rightarrow> octet \<Rightarrow> int list" where
  "byte_records block j byte =
     map (\<lambda>k. block * bitmap_blocksize_bits + int j * 8 + int k + 1) (filter (bit byte) [0..<8])"

definition block_records :: "int \<Rightarrow> octet list \<Rightarrow> int list" where
  "block_records block bytes = concat (map (\<lambda>j. byte_records block j (bytes ! j)) [0..<bitmap_blocksize_bytes])"

definition combine_blocks :: "int \<Rightarrow> octet list \<Rightarrow> octet list \<Rightarrow> octet list" where
  "combine_blocks oper b1 b2 = map2 (\<lambda>x y. if oper = BOOLEAN_AND then x AND y else x AND NOT y) b1 b2"

fun bitmaps_and_loop :: "(int \<Rightarrow> bitmap_index) \<Rightarrow> weighted_result \<Rightarrow> weighted_result \<Rightarrow> int \<Rightarrow> int list
    \<Rightarrow> octet list option \<times> int \<Rightarrow> octet list option \<times> int \<Rightarrow> int list run" where
  "bitmaps_and_loop idxs s1 s2 oper [] f1 f2 = Done []"
| "bitmaps_and_loop idxs s1 s2 oper (block # blocks) (last1, no1) (last2, no2) =
     (let dummy_recno = block * bitmap_blocksize_bits + 1;
          f1 = se_fetch_bitmap_block idxs s1 dummy_recno no1 last1;
          f2 = se_fetch_bitmap_block idxs s2 dummy_recno no2 last2
      in run_bind (deref (fst f1)) (\<lambda>b1. run_bind (deref (fst f2)) (\<lambda>b2.
           run_bind (bitmaps_and_loop idxs s1 s2 oper blocks f1 f2) (\<lambda>rs.
             Done (block_records block (combine_blocks oper b1 b2) @ rs)))))"

text \<open>
  The number of hits expected. The structure holds one entry and the allocation adds one more than
  expected, so that there is room for two more records than this.
\<close>

definition bitmaps_and_max_result :: "weighted_result \<Rightarrow> weighted_result \<Rightarrow> int \<Rightarrow> int" where
  "bitmaps_and_max_result inset1 inset2 oper =
     (let m0 = (if num_hits inset1 > 0 then num_hits inset1 else record_num (first_entry inset1));
          m1 = (if num_hits inset2 > 0 \<and> num_hits inset2 < m0 then num_hits inset2 else m0)
      in if oper = BOOLEAN_NOT \<and> num_hits inset2 > 0 \<and> m1 < num_hits inset2 then num_hits inset1 else m1)"

definition bitmaps_max_blockno :: "weighted_result \<Rightarrow> weighted_result \<Rightarrow> int" where
  "bitmaps_max_blockno inset1 inset2 =
     min (bitblock_id (record_num (first_entry inset1)) + 1) (bitblock_id (record_num (first_entry inset2)) + 1)"

text \<open>
  \<open>no1\<close> and \<open>no2\<close> are the block numbers the code starts with, which it does not initialise. The
  records are written without a test of the room, and a record beyond it is a crash.
\<close>

definition se_bitmaps_and :: "(int \<Rightarrow> bitmap_index) \<Rightarrow> int \<Rightarrow> int \<Rightarrow> weighted_result \<Rightarrow> weighted_result \<Rightarrow> int
    \<Rightarrow> weighted_result run" where
  "se_bitmaps_and idxs no1 no2 inset1 inset2 oper =
     run_bind (bitmaps_and_loop idxs inset1 inset2 oper (map int [0..<nat (bitmaps_max_blockno inset1 inset2)])
         (None, no1) (None, no2)) (\<lambda>rs.
       let room = bitmaps_and_max_result inset1 inset2 oper + 2
       in if 0 < room \<and> int (length rs) \<le> room
          then Done (new_result\<lparr>filename := filename inset1, num_hits := int (length rs), entries := map (\<lambda>r. new_entry r (Fin 1)) rs\<rparr>)
          else Crash)"

section \<open>The records of a bitmap\<close>

text \<open>One record found: the first \<open>n_start\<close> are skipped, at most \<open>n_wanted\<close> are taken.\<close>

definition take_record :: "int \<Rightarrow> int \<Rightarrow> int \<times> int list \<Rightarrow> int \<Rightarrow> int \<times> int list" where
  "take_record n_wanted n_start st r =
     (let (skip, found) = st
      in if skip < n_start then (skip + 1, found)
         else if int (length found) < n_wanted then (skip, found @ [r]) else (skip, found))"

text \<open>
  The loop over the blocks; the record number is computed from \<open>current_blockno\<close>, which the fetch
  sets. Once \<open>n_wanted\<close> records are found nothing is added, so that the loops over octets and
  bits need not be left early.
\<close>

fun to_result_loop :: "(int \<Rightarrow> bitmap_index) \<Rightarrow> weighted_result \<Rightarrow> int \<Rightarrow> int \<Rightarrow> int list
    \<Rightarrow> octet list option \<times> int \<Rightarrow> int \<times> int list \<Rightarrow> (int \<times> int list) run" where
  "to_result_loop idxs inres n_wanted n_start [] f st = Done st"
| "to_result_loop idxs inres n_wanted n_start (dummy_recno # recnos) (result_block, no) st =
     (if int (length (snd st)) < n_wanted
      then let f = se_fetch_bitmap_block idxs inres dummy_recno no result_block
           in run_bind (deref (fst f)) (\<lambda>b.
                to_result_loop idxs inres n_wanted n_start recnos f
                  (foldl (take_record n_wanted n_start) st (block_records (snd f) b)))
      else Done st)"

definition dummy_recnos :: "int \<Rightarrow> int list" where
  "dummy_recnos max_docid = filter (\<lambda>r. r < max_docid) (map (\<lambda>k. int k * bitmap_blocksize_bits + 1) [0..<nat (max_docid div bitmap_blocksize_bits) + 1])"

text \<open>
  The structure is copied from the set, with its first entry; the hit count of the set, if
  positive, is reported at the end.
\<close>

definition put_hits :: "weighted_entry list \<Rightarrow> int list \<Rightarrow> weighted_entry list" where
  "put_hits es rs = map2 (\<lambda>e r. e\<lparr>record_num := r, weight := Fin 1\<rparr>) es rs @ drop (length rs) es"

definition se_bitmap_to_result :: "(int \<Rightarrow> bitmap_index) \<Rightarrow> weighted_result \<Rightarrow> int \<Rightarrow> int \<Rightarrow> weighted_result run" where
  "se_bitmap_to_result idxs inres n_wanted n_start =
     run_bind (to_result_loop idxs inres n_wanted n_start (dummy_recnos (record_num (first_entry inres))) (None, 0) (0, []))
       (\<lambda>(skip, found).
         let es = put_hits (first_entry inres # replicate (nat n_wanted + 1) (new_entry 0 (Fin 0))) found
         in Done (inres\<lparr>setid := [], result_type := result_type inres AND NOT BITMAP_RESULT,
              max_weight := Fin 1, min_weight := Fin 1, entries := es,
              num_hits := (if num_hits inres > 0 then num_hits inres else int (length found))\<rparr>))"

section \<open>Merging\<close>

text \<open>The types of ranked results tested here, without the geographic one.\<close>

definition bitmap_ranked :: int where
  "bitmap_ranked = PROBABILISTIC_RESULT OR OKAPI_RESULT OR TFIDF_RESULT OR CORI_RESULT OR FUZZY_RESULT OR BLOB_RESULT"

fun bitmap_filter :: "(int \<Rightarrow> bitmap_index) \<Rightarrow> weighted_result \<Rightarrow> int \<Rightarrow> int \<Rightarrow> weighted_entry list \<Rightarrow> weighted_entry list run" where
  "bitmap_filter idxs bset oper no [] = Done []"
| "bitmap_filter idxs bset oper no (e # es) =
     (let (blk, no') = se_fetch_bitmap_block idxs bset (record_num e) no None
      in run_bind (deref blk) (\<lambda>b. run_bind (bitmap_filter idxs bset oper no' es) (\<lambda>rest.
           Done (if oper = BOOLEAN_AND \<and> bitblock_test b (record_num e) \<or> oper = BOOLEAN_NOT \<and> \<not> bitblock_test b (record_num e)
                 then e # rest else rest))))"

text \<open>
  \<open>om\<close> and \<open>nm\<close> are \<open>se_ormerge\<close> and \<open>se_notmerge\<close>; the former is called with two of its three
  arguments, so that \<open>junk\<close> is what happens to be in the place of the third.
\<close>

definition se_bitmap_merge ::
    "(int \<Rightarrow> bitmap_index) \<Rightarrow> (weighted_result option \<Rightarrow> weighted_result option \<Rightarrow> int \<Rightarrow> merge_out run)
     \<Rightarrow> (weighted_result option \<Rightarrow> weighted_result option \<Rightarrow> merge_out run) \<Rightarrow> int
     \<Rightarrow> weighted_result \<Rightarrow> weighted_result \<Rightarrow> int \<Rightarrow> merge_out run" where
  "se_bitmap_merge idxs om nm junk inset1 inset2 oper =
     (let b1 = has_flag inset1 BITMAP_RESULT; b2 = has_flag inset2 BITMAP_RESULT;
          whole = (\<lambda>s. se_bitmap_to_result idxs s (record_num (first_entry s)) 1)
      in if b1 \<and> b2
         then if oper = BOOLEAN_OR
              then run_bind (whole inset1) (\<lambda>r1. run_bind (whole inset2) (\<lambda>r2.
                     run_bind (om (Some r1) (Some r2) junk) (\<lambda>(r, _, _). Done (r, Some inset1, Some inset2))))
              else run_bind (se_bitmaps_and idxs junk junk inset1 inset2 oper) (\<lambda>r. Done (Some r, Some inset1, Some inset2))
         else if b1 \<and> oper = BOOLEAN_NOT
         then run_bind (whole inset1) (\<lambda>r1. run_bind (nm (Some r1) (Some inset2)) (\<lambda>(r, _, n). Done (r, Some inset1, n)))
         else
           let bset = (if b1 then inset1 else inset2); normal = (if b1 then inset2 else inset1);
               prob = result_type normal AND bitmap_ranked
           in if oper = BOOLEAN_OR
              then run_bind (whole bset) (\<lambda>r2. run_bind (om (Some normal) (Some r2) junk) (\<lambda>(r, n, _).
                     Done (r, if b1 then Some inset1 else n, if b1 then n else Some inset2)))
              else
                let normal' = (if prob \<noteq> 0 then se_sortwtset normal else normal)
                in run_bind (bitmap_filter idxs bset oper 0 (hits normal')) (\<lambda>es.
                     let newset = new_result\<lparr>filename := filename normal, num_hits := int (length es), entries := es\<rparr>
                     in Done (Some (if prob \<noteq> 0 then se_rank_docs (newset\<lparr>result_type := prob\<rparr>) else newset),
                          Some (if b1 then inset1 else normal'), Some (if b1 then normal' else inset2))))"

section \<open>What a bitmap set holds\<close>

definition set_terms :: "weighted_result \<Rightarrow> (int \<times> int) list" where
  "set_terms s = (case zip (termid s) (index_ptr s) of
       [] \<Rightarrow> []
     | t # rest \<Rightarrow> if num_hits s < 0 then t # takeWhile (\<lambda>(tid, ip). 0 < tid) rest else [t])"

definition block_has :: "(int \<Rightarrow> bitmap_index) \<Rightarrow> (int \<times> int) list \<Rightarrow> int \<Rightarrow> nat \<Rightarrow> bool" where
  "block_has idxs ts k i \<longleftrightarrow> (\<forall>(tid, ip) \<in> set ts.
     case bi_blocks (idxs ip) (c_short k, tid) of None \<Rightarrow> False | Some b \<Rightarrow> block_bit b i)"

text \<open>The record is in the bitmap of every term of the set.\<close>

definition in_bitmap :: "(int \<Rightarrow> bitmap_index) \<Rightarrow> weighted_result \<Rightarrow> int \<Rightarrow> bool" where
  "in_bitmap idxs s r \<longleftrightarrow> (\<forall>(tid, ip) \<in> set (set_terms s). bit_member (idxs ip) tid r)"

definition bitmap_ok :: "(int \<Rightarrow> bitmap_index) \<Rightarrow> weighted_result \<Rightarrow> bool" where
  "bitmap_ok idxs s \<longleftrightarrow> has_flag s BITMAP_RESULT \<and> termid s \<noteq> [] \<and> index_ptr s \<noteq> [] \<and> (\<forall>ip \<in> set (index_ptr s). index_ok (idxs ip))"

lemma in_bitmap_block: "in_bitmap idxs s r \<longleftrightarrow> block_has idxs (set_terms s) (bitblock_id r) (bit_index r)"
  by (simp add: in_bitmap_def block_has_def bit_member_def block_key_def bitblock_test_bit cong: option.case_cong)

lemma and_blocks_bit:
  assumes "length b = 8192" "length c = 8192" "i < 65536"
  shows "length (and_blocks b c) = 8192" "block_bit (and_blocks b c) i \<longleftrightarrow> block_bit b i \<and> block_bit c i"
  using assms by (simp_all add: and_blocks_def block_bit_def bit_and_iff)

lemma length_block_alloc [simp]: "length bitmap_block_alloc = 8192"
  by (simp add: bitmap_block_alloc_def bitmap_blocksize_bytes_def)

lemma fetch_further_bits:
  assumes "\<forall>(tid, ip) \<in> set ts. index_ok (idxs ip)" and "length acc = 8192"
  shows "\<exists>b. fetch_further idxs (c_short k) ts acc = Some b \<and> length b = 8192
    \<and> (\<forall>i < 65536. block_bit b i \<longleftrightarrow> block_bit acc i \<and> block_has idxs (takeWhile (\<lambda>(tid, ip). 0 < tid) ts) k i)"
  using assms
proof (induction ts arbitrary: acc)
  case Nil
  then show ?case by (simp add: block_has_def)
next
  case (Cons t ts)
  obtain tid ip where t: "t = (tid, ip)" by force
  show ?case
  proof (cases "0 < tid")
    case False
    then show ?thesis using t Cons.prems(2) by (simp add: block_has_def)
  next
    case pos: True
    show ?thesis
    proof (cases "bi_blocks (idxs ip) (c_short k, tid)")
      case None
      then show ?thesis using t pos by (simp add: block_has_def)
    next
      case (Some b)
      have len: "length b = 8192" using Cons.prems(1) t index_block_length [OF _ Some] by auto
      have "length (and_blocks acc b) = 8192" using and_blocks_bit(1) [OF Cons.prems(2) len, of 0] by simp
      from Cons.IH [OF _ this] Cons.prems(1) obtain c where c:
        "fetch_further idxs (c_short k) ts (and_blocks acc b) = Some c" "length c = 8192"
        "\<forall>i < 65536. block_bit c i \<longleftrightarrow> block_bit (and_blocks acc b) i \<and> block_has idxs (takeWhile (\<lambda>(tid, ip). 0 < tid) ts) k i"
        by auto
      then show ?thesis using t pos Some len and_blocks_bit(2) [OF Cons.prems(2) len]
        by (auto simp: bitmap_blocksize_bytes_def block_has_def)
    qed
  qed
qed

text \<open>A fetch that does not find the block it asks for in its last argument.\<close>

lemma fetch_bits:
  assumes "bitmap_ok idxs s" and "lb \<noteq> None \<Longrightarrow> no \<noteq> bitblock_id r"
  shows "\<exists>b no'. se_fetch_bitmap_block idxs s r no lb = (Some b, no') \<and> length b = 8192
    \<and> (\<forall>i < 65536. block_bit b i \<longleftrightarrow> block_has idxs (set_terms s) (bitblock_id r) i)
    \<and> (no' = bitblock_id r \<or> no' = 0 \<and> b = bitmap_block_alloc)"
proof -
  obtain tid ip rest where z: "zip (termid s) (index_ptr s) = (tid, ip) # rest"
    using assms(1) by (cases "termid s"; cases "index_ptr s") (auto simp: bitmap_ok_def)
  have ok: "\<forall>(tid, ip) \<in> set ((tid, ip) # rest). index_ok (idxs ip)"
    using assms(1) set_zip_rightD [of _ _ "termid s" "index_ptr s"] unfolding bitmap_ok_def z [symmetric] by auto
  have new: "\<not> (no = bitblock_id r \<and> lb \<noteq> None)" using assms(2) by blast
  show ?thesis
  proof (cases "bi_blocks (idxs ip) (c_short (bitblock_id r), tid)")
    case None
    then show ?thesis using new z
      by (auto simp: se_fetch_bitmap_block_def block_has_def set_terms_def)
  next
    case (Some b)
    have len: "length b = 8192" using ok index_block_length [OF _ Some] by auto
    from fetch_further_bits [OF _ len, of rest idxs "bitblock_id r"] ok obtain c where c:
      "fetch_further idxs (c_short (bitblock_id r)) rest b = Some c" "length c = 8192"
      "\<forall>i < 65536. block_bit c i \<longleftrightarrow> block_bit b i \<and> block_has idxs (takeWhile (\<lambda>(tid, ip). 0 < tid) rest) (bitblock_id r) i"
      by auto
    then show ?thesis using new z Some len
      by (auto simp: se_fetch_bitmap_block_def set_terms_def bitmap_blocksize_bytes_def block_has_def)
  qed
qed

section \<open>A bitmap and an ordinary set\<close>

definition keeps :: "(int \<Rightarrow> bitmap_index) \<Rightarrow> weighted_result \<Rightarrow> int \<Rightarrow> int \<Rightarrow> bool" where
  "keeps idxs s oper r \<longleftrightarrow> oper = BOOLEAN_AND \<and> in_bitmap idxs s r \<or> oper = BOOLEAN_NOT \<and> \<not> in_bitmap idxs s r"

lemma bitmap_filter_facts:
  assumes "bitmap_ok idxs s"
  shows "bitmap_filter idxs s oper no es = Done (filter (\<lambda>e. keeps idxs s oper (record_num e)) es)"
proof (induction es arbitrary: no)
  case (Cons e es)
  from fetch_bits [OF assms, of None no "record_num e"] obtain b no' where b:
    "se_fetch_bitmap_block idxs s (record_num e) no None = (Some b, no')"
    "\<forall>i < 65536. block_bit b i \<longleftrightarrow> block_has idxs (set_terms s) (bitblock_id (record_num e)) i" by auto
  then have "bitblock_test b (record_num e) \<longleftrightarrow> in_bitmap idxs s (record_num e)"
    by (simp add: bitblock_test_bit in_bitmap_block bit_index_lt)
  then show ?case using b(1) Cons.IH by (simp add: keeps_def)
qed simp

lemma records_new_result:
  "num_hits s = int (length (entries s)) \<Longrightarrow> records s = record_num ` set (entries s)"
  by (simp add: records_def hits_def)

lemma wf_new:
  "wf_result (new_result\<lparr>filename := fn, num_hits := int (length es), entries := es\<rparr>)"
  "wf_result (new_result\<lparr>filename := fn, num_hits := int (length es), entries := es, result_type := t\<rparr>)"
  by (simp_all add: wf_result_def)

lemma bitmap_merge_mixed:
  assumes "bitmap_ok idxs bs" and "\<not> has_flag ns BITMAP_RESULT" and "oper \<in> {BOOLEAN_AND, BOOLEAN_NOT}"
    and "(s1, s2) = (ns, bs) \<or> (s1, s2) = (bs, ns) \<and> oper = BOOLEAN_AND"
  shows "\<exists>r o1 o2. se_bitmap_merge idxs om nm junk s1 s2 oper = Done (Some r, o1, o2)
    \<and> records r = {q \<in> records ns. keeps idxs bs oper q} \<and> wf_result r"
proof -
  let ?prob = "result_type ns AND bitmap_ranked"
  let ?ns = "if ?prob \<noteq> 0 then se_sortwtset ns else ns"
  let ?es = "filter (\<lambda>e. keeps idxs bs oper (record_num e)) (hits ?ns)"
  let ?new = "new_result\<lparr>filename := filename ns, num_hits := int (length ?es), entries := ?es\<rparr>"
  let ?r = "if ?prob \<noteq> 0 then se_rank_docs (?new\<lparr>result_type := ?prob\<rparr>) else ?new"
  have bf: "has_flag bs BITMAP_RESULT" using assms(1) by (simp add: bitmap_ok_def)
  have op: "oper \<noteq> BOOLEAN_OR" "oper = BOOLEAN_AND \<Longrightarrow> oper \<noteq> BOOLEAN_NOT"
    using assms(3) by (auto simp: BOOLEAN_AND_def BOOLEAN_OR_def BOOLEAN_NOT_def)
  have run: "\<exists>o1 o2. se_bitmap_merge idxs om nm junk s1 s2 oper = Done (Some ?r, o1, o2)"
    using assms(4) bf assms(2) op bitmap_filter_facts [OF assms(1)]
    by (elim disjE) (simp_all add: se_bitmap_merge_def Let_def)
  have "records ?ns = records ns" by simp
  then have es: "record_num ` set ?es = {q \<in> records ns. keeps idxs bs oper q}"
    by (auto simp: records_def)
  have "records ?r = record_num ` set ?es" by (simp add: records_new_result)
  moreover have "wf_result ?r" by (simp add: wf_new)
  ultimately show ?thesis using run es by blast
qed

text \<open>
  C21: merging a bitmap with an ordinary set keeps exactly the records of the ordinary set that
  are in the bitmap (AND, the bitmap on either side) or are not in it (NOT, the bitmap on the right), whatever the type
  of the ordinary set and however many terms the bitmap stands for.
\<close>

theorem se_bitmap_merge_filters:
  assumes "bitmap_ok idxs bs" and "\<not> has_flag ns BITMAP_RESULT"
  shows "(\<exists>r o1 o2. se_bitmap_merge idxs om nm junk ns bs BOOLEAN_AND = Done (Some r, o1, o2)
            \<and> records r = {q \<in> records ns. in_bitmap idxs bs q} \<and> wf_result r)
    \<and> (\<exists>r o1 o2. se_bitmap_merge idxs om nm junk bs ns BOOLEAN_AND = Done (Some r, o1, o2)
            \<and> records r = {q \<in> records ns. in_bitmap idxs bs q} \<and> wf_result r)
    \<and> (\<exists>r o1 o2. se_bitmap_merge idxs om nm junk ns bs BOOLEAN_NOT = Done (Some r, o1, o2)
            \<and> records r = {q \<in> records ns. \<not> in_bitmap idxs bs q} \<and> wf_result r)"
proof -
  have "keeps idxs bs BOOLEAN_AND q \<longleftrightarrow> in_bitmap idxs bs q" "keeps idxs bs BOOLEAN_NOT q \<longleftrightarrow> \<not> in_bitmap idxs bs q" for q
    by (simp_all add: keeps_def BOOLEAN_AND_def BOOLEAN_NOT_def)
  then show ?thesis
    using bitmap_merge_mixed [OF assms, of BOOLEAN_AND ns bs om nm junk] bitmap_merge_mixed [OF assms, of BOOLEAN_AND bs ns om nm junk]
      bitmap_merge_mixed [OF assms, of BOOLEAN_NOT ns bs om nm junk] by simp
qed

text \<open>Sample indexes: the one at address \<open>r\<close> holds the record \<open>r\<close> under its only word.\<close>

definition sample_indexes :: "int \<Rightarrow> bitmap_index" where
  "sample_indexes r = empty_index\<lparr>bi_blocks := [block_key r 1 \<mapsto> bitblock_set bitmap_block_alloc r], bi_recptr := 2\<rparr>"

definition sample_bitmap :: "int \<Rightarrow> weighted_result" where
  "sample_bitmap r = new_result\<lparr>result_type := BITMAP_RESULT, termid := [1, 0], index_ptr := [r, 0], num_hits := 1,
     entries := [new_entry r (Fin 0)]\<rparr>"

lemma sample_bitmap_ok: "bitmap_ok sample_indexes (sample_bitmap r)"
  by (simp add: bitmap_ok_def sample_bitmap_def sample_indexes_def has_flag_def new_result_def index_ok_def
      empty_index_def bitmap_blocksize_bytes_def block_key_def)

lemma sample_bitmap_records:
  assumes "record_ok r" "record_ok q" shows "in_bitmap sample_indexes (sample_bitmap r) q \<longleftrightarrow> q = r"
proof -
  have "in_bitmap sample_indexes (sample_bitmap r) q \<longleftrightarrow> block_key q 1 = block_key r 1 \<and> bit_index q = bit_index r"
    by (simp add: in_bitmap_def set_terms_def sample_bitmap_def sample_indexes_def empty_index_def
        bit_member_def bitblock_test_bit new_result_def block_bit_update(1) [OF length_block_alloc bit_index_lt]
        block_bit_empty [OF bit_index_lt])
  then show ?thesis using block_bit_inj [OF assms] unfolding block_key_def prod.inject by metis
qed

theorem se_bitmap_merge_filters_witness:
  "\<exists>r o1 o2. se_bitmap_merge sample_indexes (\<lambda>_ _ _. Crash) (\<lambda>_ _. Crash) 0 (sample_bool [9, 70000]) (sample_bitmap 70000) BOOLEAN_AND
     = Done (Some r, o1, o2) \<and> records r = {70000}"
proof -
  have n: "\<not> has_flag (sample_bool [9, 70000]) BITMAP_RESULT" "records (sample_bool [9, 70000]) = {9, 70000}"
    by (simp_all add: sample_bool_def has_flag_def result_flags new_result_def records_def hits_def new_entry_def)
  have "{q \<in> records (sample_bool [9, 70000]). in_bitmap sample_indexes (sample_bitmap 70000) q} = {70000}"
    unfolding n(2) using sample_bitmap_records [of 70000] by (auto simp: record_ok_def)
  then show ?thesis
    using se_bitmap_merge_filters [OF sample_bitmap_ok [of 70000] n(1), of "\<lambda>_ _ _. Crash" "\<lambda>_ _. Crash" 0] by auto
qed

section \<open>Enumerating the records\<close>

lemma concat_chunks:
  "concat (map (\<lambda>j. map (\<lambda>k. f (8 * j + k)) (filter (\<lambda>k. P (8 * j + k)) [0..<8])) [0..<n]) = map f (filter P [0..<8 * n])"
proof (induction n)
  case (Suc n)
  have "map f (filter P [8 * n..<8 * n + 8]) = map (\<lambda>k. f (8 * n + k)) (filter (\<lambda>k. P (8 * n + k)) [0..<8])"
  proof -
    have "[8 * n..<8 * n + 8] = map (\<lambda>k. 8 * n + k) [0..<8]" using map_add_upt [of "8 * n" 8] by (simp add: add.commute)
    then show ?thesis by (simp add: filter_map o_def)
  qed
  moreover have "[0..<8 * Suc n] = [0..<8 * n] @ [8 * n..<8 * n + 8]"
    using upt_add_eq_append [of 0 "8 * n" 8] by (simp add: add.commute)
  ultimately show ?case using Suc.IH by simp
qed simp

definition block_record :: "int \<Rightarrow> nat \<Rightarrow> int" where
  "block_record k i = k * 65536 + int i + 1"

lemma block_records_bits: "block_records k b = map (block_record k) (filter (block_bit b) [0..<65536])"
proof -
  have "byte_records k j (b ! j) = map (\<lambda>i. block_record k (8 * j + i)) (filter (\<lambda>i. block_bit b (8 * j + i)) [0..<8])" for j
    unfolding byte_records_def block_record_def block_bit_def bitmap_blocksize_bits_def
    by (intro map_cong filter_cong refl) auto
  then show ?thesis using concat_chunks [of "block_record k" "block_bit b" 8192]
    by (simp add: block_records_def bitmap_blocksize_bytes_def)
qed

lemma div_mod_shift: "i < 65536 \<Longrightarrow> (k * 65536 + int i + 1 - 1) div 65536 = k" "i < 65536 \<Longrightarrow> (k * 65536 + int i + 1 - 1) mod 65536 = int i"
  by simp_all

lemma block_record_eq:
  assumes "i < 65536" shows "r = block_record k i \<longleftrightarrow> (r - 1) div 65536 = k \<and> bit_index r = i"
proof -
  have "bit_index r = i \<longleftrightarrow> (r - 1) mod 65536 = int i"
    using bitblock_bit_range [of r] by (auto simp: bit_index_def bitblock_bit_mod)
  moreover have "r = (r - 1) div 65536 * 65536 + (r - 1) mod 65536 + 1" by simp
  ultimately show ?thesis using assms unfolding block_record_def by (metis div_mod_shift)
qed

text \<open>Block \<open>k\<close> enumerates the records from \<open>65536 k + 1\<close> to \<open>65536 (k + 1)\<close>, whatever their block.\<close>

lemma set_block_records:
  "r \<in> set (block_records k b) \<longleftrightarrow> (r - 1) div 65536 = k \<and> block_bit b (bit_index r)"
  unfolding block_records_bits using block_record_eq [of _ r k] bit_index_lt [of r] by (auto simp: image_iff)

lemma sorted_block_records: "sorted_wrt (<) (block_records k b)"
proof -
  have "sorted_wrt (\<lambda>i j. block_record k i < block_record k j) (filter (block_bit b) [0..<65536])"
    by (rule sorted_wrt_filter, rule sorted_wrt_mono_rel [OF _ sorted_wrt_upt]) (simp add: block_record_def)
  then show ?thesis by (simp add: block_records_bits sorted_wrt_map)
qed

section \<open>Two bitmaps\<close>

definition wants :: "int \<Rightarrow> bool \<Rightarrow> bool \<Rightarrow> bool" where
  "wants oper x y \<longleftrightarrow> x \<and> (if oper = BOOLEAN_AND then y else \<not> y)"

lemma combine_blocks_bit:
  "length b = 8192 \<Longrightarrow> length c = 8192 \<Longrightarrow> i < 65536 \<Longrightarrow>
     block_bit (combine_blocks oper b c) i \<longleftrightarrow> wants oper (block_bit b i) (block_bit c i)"
  by (auto simp: combine_blocks_def block_bit_def bit_and_iff bit_not_iff wants_def)

lemma block_id_first: "bitblock_id (k * bitmap_blocksize_bits + 1) = k"
  by (simp add: block_id_div bitmap_blocksize_bits_def)

text \<open>The numbers of the blocks grow, so that no fetch is answered by the last block.\<close>

lemma fetch_next:
  assumes "bitmap_ok idxs s" and "fst f \<noteq> None \<Longrightarrow> snd f < int a"
  shows "\<exists>b no. se_fetch_bitmap_block idxs s (int a * bitmap_blocksize_bits + 1) (snd f) (fst f) = (Some b, no)
    \<and> length b = 8192 \<and> (\<forall>i < 65536. block_bit b i \<longleftrightarrow> block_has idxs (set_terms s) (int a) i) \<and> no < int (Suc a)
    \<and> (no = int a \<or> b = bitmap_block_alloc)"
  using fetch_bits [OF assms(1), of "fst f" "snd f" "int a * bitmap_blocksize_bits + 1"] assms(2)
  unfolding block_id_first by fastforce

lemma between_blocks: "(r - 1) div 65536 < (q - 1) div 65536 \<Longrightarrow> r < (q :: int)"
  by (meson diff_right_mono linorder_not_less zdiv_mono1 zero_less_numeral)

lemma bitmaps_and_loop_facts:
  assumes "bitmap_ok idxs s1" "bitmap_ok idxs s2"
    and "fst f1 \<noteq> None \<Longrightarrow> snd f1 < int a" "fst f2 \<noteq> None \<Longrightarrow> snd f2 < int a" and "a \<le> n"
  shows "\<exists>rs. bitmaps_and_loop idxs s1 s2 oper (map int [a..<n]) f1 f2 = Done rs \<and> sorted_wrt (<) rs
    \<and> (\<forall>r. r \<in> set rs \<longleftrightarrow> int a \<le> (r - 1) div 65536 \<and> (r - 1) div 65536 < int n
         \<and> wants oper (block_has idxs (set_terms s1) ((r - 1) div 65536) (bit_index r))
             (block_has idxs (set_terms s2) ((r - 1) div 65536) (bit_index r)))"
  using assms(3-5)
proof (induction "n - a" arbitrary: a f1 f2)
  case 0
  then show ?case by (intro exI [of _ "[]"]) auto
next
  case (Suc d)
  then have upt: "map int [a..<n] = int a # map int [Suc a..<n]" by (simp add: upt_conv_Cons)
  obtain b1 no1 where b1: "se_fetch_bitmap_block idxs s1 (int a * bitmap_blocksize_bits + 1) (snd f1) (fst f1) = (Some b1, no1)"
      "length b1 = 8192" "\<forall>i < 65536. block_bit b1 i \<longleftrightarrow> block_has idxs (set_terms s1) (int a) i" "no1 < int (Suc a)"
    using fetch_next [OF assms(1) Suc.prems(1)] by blast
  obtain b2 no2 where b2: "se_fetch_bitmap_block idxs s2 (int a * bitmap_blocksize_bits + 1) (snd f2) (fst f2) = (Some b2, no2)"
      "length b2 = 8192" "\<forall>i < 65536. block_bit b2 i \<longleftrightarrow> block_has idxs (set_terms s2) (int a) i" "no2 < int (Suc a)"
    using fetch_next [OF assms(2) Suc.prems(2)] by blast
  have d: "d = n - Suc a" "Suc a \<le> n" using Suc.hyps(2) by arith+
  obtain rs where rs: "bitmaps_and_loop idxs s1 s2 oper (map int [Suc a..<n]) (Some b1, no1) (Some b2, no2) = Done rs"
      "sorted_wrt (<) rs"
      "\<forall>r. r \<in> set rs \<longleftrightarrow> int (Suc a) \<le> (r - 1) div 65536 \<and> (r - 1) div 65536 < int n
         \<and> wants oper (block_has idxs (set_terms s1) ((r - 1) div 65536) (bit_index r))
             (block_has idxs (set_terms s2) ((r - 1) div 65536) (bit_index r))"
    using Suc.hyps(1) [OF d(1), of "(Some b1, no1)" "(Some b2, no2)"] d(2) b1(4) b2(4) by auto
  let ?here = "block_records (int a) (combine_blocks oper b1 b2)"
  have run: "bitmaps_and_loop idxs s1 s2 oper (map int [a..<n]) f1 f2 = Done (?here @ rs)"
    unfolding upt using b1(1) b2(1) rs(1) by (cases f1; cases f2) simp
  have here: "r \<in> set ?here \<longleftrightarrow> (r - 1) div 65536 = int a \<and> wants oper (block_has idxs (set_terms s1) (int a) (bit_index r))
      (block_has idxs (set_terms s2) (int a) (bit_index r))" for r
    using combine_blocks_bit [OF b1(2) b2(2) bit_index_lt] b1(3) b2(3) by (simp add: set_block_records bit_index_lt)
  have "sorted_wrt (<) (?here @ rs)"
    using sorted_block_records rs(2,3) here by (fastforce simp: sorted_wrt_append intro: between_blocks)
  moreover have "int a < int n" "int a \<le> x \<longleftrightarrow> x = int a \<or> int (Suc a) \<le> x" for x using Suc.hyps(2) by auto
  ultimately show ?case using run here rs(3) by (intro exI [of _ "?here @ rs"]) (auto simp del: of_nat_Suc)
qed

text \<open>The records that a block number and a bit stand for in the enumeration.\<close>

definition enumerated :: "(int \<Rightarrow> bitmap_index) \<Rightarrow> weighted_result \<Rightarrow> int \<Rightarrow> bool" where
  "enumerated idxs s r \<longleftrightarrow> block_has idxs (set_terms s) ((r - 1) div 65536) (bit_index r)"

text \<open>The enumeration and the test of a bit agree, but for the last record of a block.\<close>

lemma div_pred:
  assumes "(r :: int) mod 65536 \<noteq> 0" shows "(r - 1) div 65536 = r div 65536"
proof -
  have "0 \<le> r mod 65536" "r mod 65536 < 65536" by simp_all
  with assms have "0 \<le> r mod 65536 - 1" "r mod 65536 - 1 < 65536" by linarith+
  moreover have "r - 1 = (r mod 65536 - 1) + r div 65536 * 65536" by simp
  ultimately show ?thesis by (metis add.commute div_mult_self1 div_pos_pos_trivial add.right_neutral add_0 zero_neq_numeral)
qed

lemma enumerated_in_bitmap: "r mod 65536 \<noteq> 0 \<Longrightarrow> enumerated idxs s r \<longleftrightarrow> in_bitmap idxs s r"
  by (simp add: enumerated_def in_bitmap_block block_id_div div_pred)

lemma enumerated_boundary: "enumerated idxs s (65536 * (k + 1)) \<longleftrightarrow> in_bitmap idxs s (65536 * k)"
proof -
  have "(65536 * j - 1) mod 65536 = 65535" for j :: int using mod_mult_self2 [of "- 1" 65536 j] by simp
  then have m: "bit_index (65536 * (k + 1)) = bit_index (65536 * k)" by (simp add: bit_index_def bitblock_bit_mod)
  have "(65536 * (k + 1) - 1) div 65536 = k" by simp
  with m show ?thesis by (simp add: enumerated_def in_bitmap_block block_id_div)
qed

text \<open>The merge either has room for its records or overruns the array.\<close>

definition and_result :: "weighted_result \<Rightarrow> int list \<Rightarrow> weighted_result" where
  "and_result s1 rs = new_result\<lparr>filename := filename s1, num_hits := int (length rs), entries := map (\<lambda>r. new_entry r (Fin 1)) rs\<rparr>"

lemma and_result_simps:
  "sorted_wrt (<) rs \<Longrightarrow> by_record (entries (and_result s1 rs))" "wf_result (and_result s1 rs)" "records (and_result s1 rs) = set rs"
  by (simp_all add: and_result_def by_record_def new_entry_def o_def wf_result_def records_new_result image_image)

lemma se_bitmaps_and_facts:
  assumes "bitmap_ok idxs s1" "bitmap_ok idxs s2" and "oper \<noteq> BOOLEAN_OR"
  shows "\<exists>rs. se_bitmap_merge idxs om nm junk s1 s2 oper
      = (if 0 < bitmaps_and_max_result s1 s2 oper + 2 \<and> int (length rs) \<le> bitmaps_and_max_result s1 s2 oper + 2
         then Done (Some (and_result s1 rs), Some s1, Some s2) else Crash)
    \<and> sorted_wrt (<) rs
    \<and> (\<forall>q. q \<in> set rs \<longleftrightarrow> 0 < q \<and> (q - 1) div 65536 < bitmaps_max_blockno s1 s2
         \<and> wants oper (enumerated idxs s1 q) (enumerated idxs s2 q))"
proof -
  obtain rs where rs: "bitmaps_and_loop idxs s1 s2 oper (map int [0..<nat (bitmaps_max_blockno s1 s2)]) (None, junk) (None, junk) = Done rs"
      "sorted_wrt (<) rs" "\<forall>r. r \<in> set rs \<longleftrightarrow> int 0 \<le> (r - 1) div 65536 \<and> (r - 1) div 65536 < int (nat (bitmaps_max_blockno s1 s2))
         \<and> wants oper (enumerated idxs s1 r) (enumerated idxs s2 r)"
    using bitmaps_and_loop_facts [OF assms(1,2), of "(None, junk)" 0 "(None, junk)" "nat (bitmaps_max_blockno s1 s2)" oper]
    unfolding enumerated_def by auto
  have "se_bitmap_merge idxs om nm junk s1 s2 oper
      = (if 0 < bitmaps_and_max_result s1 s2 oper + 2 \<and> int (length rs) \<le> bitmaps_and_max_result s1 s2 oper + 2
         then Done (Some (and_result s1 rs), Some s1, Some s2) else Crash)"
    using assms rs(1) by (simp add: se_bitmap_merge_def bitmap_ok_def se_bitmaps_and_def and_result_def Let_def)
  moreover have "int 0 \<le> (q - 1) div 65536 \<longleftrightarrow> 0 < q" for q
    by (simp add: pos_imp_zdiv_nonneg_iff)
  moreover have "0 < q \<Longrightarrow> (q - 1) div 65536 < int (nat n) \<longleftrightarrow> (q - 1) div 65536 < n" for q n
    using \<open>\<And>q. int 0 \<le> (q - 1) div 65536 \<longleftrightarrow> 0 < q\<close> [of q] by auto
  ultimately show ?thesis using rs(2,3) by (intro exI [of _ rs]) auto
qed

text \<open>The largest record number of the set covers its bitmap.\<close>

definition covers :: "(int \<Rightarrow> bitmap_index) \<Rightarrow> weighted_result \<Rightarrow> bool" where
  "covers idxs s \<longleftrightarrow> record_num (first_entry s) < 2147483648
     \<and> (\<forall>q. record_ok q \<longrightarrow> in_bitmap idxs s q \<longrightarrow> q \<le> record_num (first_entry s))"


lemma block_record_ok:
  assumes "0 < q" "q mod 65536 \<noteq> 0" "q div 65536 < bitblock_id m + 1" "m < 2147483648"
  shows "record_ok q"
proof -
  have "q div 65536 \<le> m div 65536" using assms(3) by (simp add: block_id_div)
  moreover have "m div 65536 < 32768" using assms(4) by simp
  ultimately have "q div 65536 < 32768" by linarith
  then have "q < 2147483648" by simp
  with assms(1) show ?thesis by (simp add: record_ok_def)
qed

text \<open>
  The number of hits of a bitmap, where it is known, counts the records whose bit is set; the record 0
  is counted, since its bit is the one the enumeration takes for the record 65536.
\<close>

definition counted :: "(int \<Rightarrow> bitmap_index) \<Rightarrow> weighted_result \<Rightarrow> bool" where
  "counted idxs s \<longleftrightarrow> 0 \<le> record_num (first_entry s)
     \<and> (0 < num_hits s \<longrightarrow> int (card {q. 0 \<le> q \<and> q < 2147483648 \<and> in_bitmap idxs s q}) \<le> num_hits s)"

text \<open>The record whose bit the enumeration reports as \<open>q\<close>.\<close>

definition bit_of_record :: "int \<Rightarrow> int" where
  "bit_of_record q = (if q mod 65536 = 0 then q - 65536 else q)"

lemma bit_of_record_inj: "inj bit_of_record"
  by (rule injI) (auto simp: bit_of_record_def split: if_splits)

lemma enumerated_bit: "enumerated idxs s q \<longleftrightarrow> in_bitmap idxs s (bit_of_record q)"
proof (cases "q mod 65536 = 0")
  case True
  then have "q = 65536 * (q div 65536 - 1 + 1)" by auto
  then show ?thesis using enumerated_boundary [of idxs s "q div 65536 - 1"] True by (simp add: bit_of_record_def algebra_simps)
qed (simp add: bit_of_record_def enumerated_in_bitmap)

lemma bit_of_record_range:
  assumes "0 < q" "(q - 1) div 65536 < bitblock_id m + 1" "m < 2147483648"
  shows "0 \<le> bit_of_record q \<and> bit_of_record q < 2147483648"
proof (cases "q mod 65536 = 0")
  case True
  then obtain k where k: "q = 65536 * k" by auto
  have "(q - 1) div 65536 = k - 1" using k by simp
  moreover have "m div 65536 < 32768" using assms(3) by simp
  ultimately show ?thesis using assms(1,2) k by (simp add: bit_of_record_def block_id_div)
next
  case False
  then have "record_ok q" using block_record_ok [OF assms(1) False _ assms(3)] assms(2) by (simp add: div_pred)
  then show ?thesis using False by (simp add: bit_of_record_def record_ok_def)
qed

lemma covered_zero: "covers idxs s \<Longrightarrow> counted idxs s \<Longrightarrow>
    {q. 0 \<le> q \<and> q < 2147483648 \<and> in_bitmap idxs s q} \<subseteq> {0..record_num (first_entry s)}"
  by (auto simp: covers_def counted_def record_ok_def le_less)

text \<open>The AND of two bitmaps whose hits are counted has room for its records.\<close>

lemma and_room:
  assumes "covers idxs s1" "covers idxs s2" "counted idxs s1" "counted idxs s2" and "sorted_wrt (<) rs"
    and "\<forall>q. q \<in> set rs \<longleftrightarrow> 0 < q \<and> (q - 1) div 65536 < bitmaps_max_blockno s1 s2
         \<and> wants BOOLEAN_AND (enumerated idxs s1 q) (enumerated idxs s2 q)"
  shows "0 < bitmaps_and_max_result s1 s2 BOOLEAN_AND + 2 \<and> int (length rs) \<le> bitmaps_and_max_result s1 s2 BOOLEAN_AND + 2"
proof -
  let ?S = "\<lambda>s. {q. 0 \<le> q \<and> q < 2147483648 \<and> in_bitmap idxs s q}"
  have m: "record_num (first_entry s1) < 2147483648" using assms(1) by (simp add: covers_def)
  have sub: "bit_of_record ` set rs \<subseteq> ?S s1" "bit_of_record ` set rs \<subseteq> ?S s2"
    using assms(6) bit_of_record_range [OF _ _ m] by (auto simp: wants_def bitmaps_max_blockno_def enumerated_bit)
  have fin: "finite (?S s)" for s by (rule finite_subset [of _ "{0..<2147483648}"]) auto
  have "length rs = card (bit_of_record ` set rs)"
    using assms(5) by (simp add: card_image [OF inj_on_subset [OF bit_of_record_inj]] distinct_card strict_sorted_iff)
  then have len: "length rs \<le> card (?S s1)" "length rs \<le> card (?S s2)"
    using card_mono [OF fin sub(1)] card_mono [OF fin sub(2)] by simp_all
  have "int (length rs) \<le> record_num (first_entry s1) + 1"
  proof -
    have "card (?S s1) \<le> nat (record_num (first_entry s1) + 1)"
      using card_mono [OF _ covered_zero [OF assms(1,3)]] by simp
    with len(1) assms(3) show ?thesis unfolding counted_def by linarith
  qed
  moreover have "0 \<le> record_num (first_entry s1)" using assms(3) by (simp add: counted_def)
  moreover have "0 < num_hits s1 \<Longrightarrow> int (length rs) \<le> num_hits s1" "0 < num_hits s2 \<Longrightarrow> int (length rs) \<le> num_hits s2"
    using len assms(3,4) unfolding counted_def by linarith+
  ultimately show ?thesis unfolding bitmaps_and_max_result_def
    by (cases "0 < num_hits s1"; cases "0 < num_hits s2") (auto simp: Let_def BOOLEAN_AND_def BOOLEAN_NOT_def)
qed

lemma se_bitmaps_and_runs:
  assumes "bitmap_ok idxs s1" "bitmap_ok idxs s2" "covers idxs s1" "covers idxs s2" "counted idxs s1" "counted idxs s2"
  shows "\<exists>r. se_bitmap_merge idxs om nm junk s1 s2 BOOLEAN_AND = Done (Some r, Some s1, Some s2)
    \<and> by_record (entries r) \<and> wf_result r
    \<and> (\<forall>q. q \<in> records r \<longleftrightarrow> 0 < q \<and> (q - 1) div 65536 < bitmaps_max_blockno s1 s2
         \<and> enumerated idxs s1 q \<and> enumerated idxs s2 q)"
proof -
  have op: "BOOLEAN_AND \<noteq> BOOLEAN_OR" by (simp add: BOOLEAN_AND_def BOOLEAN_OR_def)
  obtain rs where rs: "se_bitmap_merge idxs om nm junk s1 s2 BOOLEAN_AND
      = (if 0 < bitmaps_and_max_result s1 s2 BOOLEAN_AND + 2 \<and> int (length rs) \<le> bitmaps_and_max_result s1 s2 BOOLEAN_AND + 2
         then Done (Some (and_result s1 rs), Some s1, Some s2) else Crash)"
      "sorted_wrt (<) rs" "\<forall>q. q \<in> set rs \<longleftrightarrow> 0 < q \<and> (q - 1) div 65536 < bitmaps_max_blockno s1 s2
         \<and> wants BOOLEAN_AND (enumerated idxs s1 q) (enumerated idxs s2 q)"
    using se_bitmaps_and_facts [OF assms(1,2) op] by blast
  show ?thesis using rs(1) and_room [OF assms(3-6) rs(2,3)] and_result_simps(1) [OF rs(2)] and_result_simps(2,3) rs(3)
    by (intro exI [of _ "and_result s1 rs"]) (simp add: wants_def)
qed


lemma sample_covers: "record_ok r \<Longrightarrow> covers sample_indexes (sample_bitmap r)"
  by (auto simp: covers_def sample_bitmap_records first_entry_def record_ok_def)
    (simp_all add: sample_bitmap_def new_entry_def)

lemma sample_counted:
  assumes "record_ok r" "65536 \<le> r" shows "counted sample_indexes (sample_bitmap r)"
proof -
  have "in_bitmap sample_indexes (sample_bitmap r) 0 \<longleftrightarrow> block_key 0 1 = block_key r 1 \<and> bit_index 0 = bit_index r"
    by (simp add: in_bitmap_def set_terms_def sample_bitmap_def sample_indexes_def empty_index_def
        bit_member_def bitblock_test_bit new_result_def block_bit_update(1) [OF length_block_alloc bit_index_lt]
        block_bit_empty [OF bit_index_lt])
  moreover have "block_key 0 1 \<noteq> block_key r 1"
  proof -
    have "1 \<le> r div 65536" using assms(2) by simp
    moreover have "r div 65536 < 32768" using assms(1) unfolding record_ok_def by linarith
    ultimately show ?thesis by (simp add: block_key_def block_id_div c_short_def)
  qed
  ultimately have "\<not> in_bitmap sample_indexes (sample_bitmap r) 0" by simp
  then have "{q. 0 \<le> q \<and> q < 2147483648 \<and> in_bitmap sample_indexes (sample_bitmap r) q} \<subseteq> {r}"
    using sample_bitmap_records [OF assms(1)] by (auto simp: record_ok_def le_less)
  then have "card {q. 0 \<le> q \<and> q < 2147483648 \<and> in_bitmap sample_indexes (sample_bitmap r) q} \<le> card {r}"
    by (intro card_mono) auto
  then show ?thesis using assms(1) by (auto simp: counted_def first_entry_def sample_bitmap_def new_entry_def record_ok_def)
qed


text \<open>
  Finding: the enumeration of a bitmap takes the record \<open>65536 k\<close>, which is the last bit of block \<open>k\<close>,
  for the record \<open>65536 (k + 1)\<close>: the AND of two bitmaps that both hold the former reports
  the latter, and never the former because of it.
\<close>

theorem bitmaps_and_boundary_record_shifts:
  assumes "bitmap_ok idxs s1" "bitmap_ok idxs s2" "covers idxs s1" "covers idxs s2" "counted idxs s1" "counted idxs s2"
    and "0 \<le> k" "k < bitmaps_max_blockno s1 s2"
  shows "\<exists>r. se_bitmap_merge idxs om nm junk s1 s2 BOOLEAN_AND = Done (Some r, Some s1, Some s2)
    \<and> (65536 * (k + 1) \<in> records r \<longleftrightarrow> in_bitmap idxs s1 (65536 * k) \<and> in_bitmap idxs s2 (65536 * k))"
proof -
  obtain r where r: "se_bitmap_merge idxs om nm junk s1 s2 BOOLEAN_AND = Done (Some r, Some s1, Some s2)"
      "\<forall>q. q \<in> records r \<longleftrightarrow> 0 < q \<and> (q - 1) div 65536 < bitmaps_max_blockno s1 s2
         \<and> enumerated idxs s1 q \<and> enumerated idxs s2 q"
    using se_bitmaps_and_runs [OF assms(1-6)] by blast
  have "0 < 65536 * (k + 1)" "(65536 * (k + 1) - 1) div 65536 = k" using assms(7) by simp_all
  then have "65536 * (k + 1) \<in> records r \<longleftrightarrow> in_bitmap idxs s1 (65536 * k) \<and> in_bitmap idxs s2 (65536 * k)"
    unfolding r(2) [rule_format] enumerated_boundary using assms(8) by simp
  with r(1) show ?thesis by blast
qed

theorem bitmaps_and_boundary_record_shifts_witness:
  "\<exists>r. se_bitmap_merge sample_indexes (\<lambda>_ _ _. Crash) (\<lambda>_ _. Crash) 0 (sample_bitmap 65536) (sample_bitmap 65536) BOOLEAN_AND
     = Done (Some r, Some (sample_bitmap 65536), Some (sample_bitmap 65536)) \<and> 131072 \<in> records r"
proof -
  have ok: "record_ok 65536" by (simp add: record_ok_def)
  have n: "counted sample_indexes (sample_bitmap 65536)" using sample_counted [OF ok] by simp
  have "1 < bitmaps_max_blockno (sample_bitmap 65536) (sample_bitmap 65536)"
    by (simp add: bitmaps_max_blockno_def block_id_div first_entry_def) (simp add: sample_bitmap_def new_entry_def)
  moreover have "in_bitmap sample_indexes (sample_bitmap 65536) (65536 * 1)"
    using sample_bitmap_records [OF ok ok] by simp
  ultimately show ?thesis
    using bitmaps_and_boundary_record_shifts [OF sample_bitmap_ok [of 65536] sample_bitmap_ok [of 65536]
        sample_covers [OF ok] sample_covers [OF ok] n n, of 1 "\<lambda>_ _ _. Crash" "\<lambda>_ _. Crash" 0]
    by auto
qed

text \<open>
  Finding: the NOT of two bitmaps runs over no more blocks than the second has, so that every record
  of the first bitmap in a later block is lost: 70000 and not 9 is empty.
\<close>

theorem bitmaps_not_loses_later_blocks:
  "\<exists>r. se_bitmap_merge sample_indexes om nm junk (sample_bitmap 70000) (sample_bitmap 9) BOOLEAN_NOT
     = Done (Some r, Some (sample_bitmap 70000), Some (sample_bitmap 9)) \<and> records r = {}
   \<and> in_bitmap sample_indexes (sample_bitmap 70000) 70000 \<and> \<not> in_bitmap sample_indexes (sample_bitmap 9) 70000"
proof -
  have ok: "record_ok 70000" "record_ok 9" by (simp_all add: record_ok_def)
  have op: "BOOLEAN_NOT \<noteq> BOOLEAN_OR" by (simp add: BOOLEAN_NOT_def BOOLEAN_OR_def)
  have one: "bitmaps_max_blockno (sample_bitmap 70000) (sample_bitmap 9) = 1"
    by (simp add: bitmaps_max_blockno_def block_id_div first_entry_def) (simp add: sample_bitmap_def new_entry_def)
  have room: "bitmaps_and_max_result (sample_bitmap 70000) (sample_bitmap 9) BOOLEAN_NOT = 1"
    by (simp add: bitmaps_and_max_result_def sample_bitmap_def)
  obtain rs where rs: "se_bitmap_merge sample_indexes om nm junk (sample_bitmap 70000) (sample_bitmap 9) BOOLEAN_NOT
      = (if 0 < (1 :: int) + 2 \<and> int (length rs) \<le> 1 + 2
         then Done (Some (and_result (sample_bitmap 70000) rs), Some (sample_bitmap 70000), Some (sample_bitmap 9)) else Crash)"
      "\<forall>q. q \<in> set rs \<longleftrightarrow> 0 < q \<and> (q - 1) div 65536 < 1
         \<and> wants BOOLEAN_NOT (enumerated sample_indexes (sample_bitmap 70000) q) (enumerated sample_indexes (sample_bitmap 9) q)"
    using se_bitmaps_and_facts [OF sample_bitmap_ok [of 70000] sample_bitmap_ok [of 9] op, of om nm junk] unfolding one room by blast
  have "q \<notin> set rs" for q
  proof
    assume "q \<in> set rs"
    then have q: "0 < q" "(q - 1) div 65536 < 1" "enumerated sample_indexes (sample_bitmap 70000) q"
      using rs(2) by (auto simp: wants_def)
    then have "(q - 1) div 65536 = 0" by (simp add: div_int_pos_iff order_antisym pos_imp_zdiv_nonneg_iff)
    with q(3) show False
      by (simp add: enumerated_def block_has_def set_terms_def sample_bitmap_def sample_indexes_def empty_index_def new_result_def
          block_key_def block_id_div c_short_def)
  qed
  then have "rs = []" by (cases rs) auto
  then show ?thesis using rs(1) and_result_simps(3) [of "sample_bitmap 70000" rs] sample_bitmap_records [OF ok(1) ok(1)]
      sample_bitmap_records [OF ok(2) ok(1)] by simp
qed

text \<open>
  Finding: where the second set of a NOT reports fewer hits than the first, its number is taken for
  the room, although every record of the first may be in the result: the four records 9, 20, 30 and
  40 but not 60 are one more than the array has room for.
\<close>

definition four_index :: bitmap_index where
  "four_index = empty_index\<lparr>bi_blocks := [(0, 1) \<mapsto> foldl bitblock_set bitmap_block_alloc [9, 20, 30, 40]], bi_recptr := 2\<rparr>"

definition overrun_indexes :: "int \<Rightarrow> bitmap_index" where
  "overrun_indexes ip = (if ip = 40 then four_index else sample_indexes ip)"

lemma overrun_indexes_eq: "overrun_indexes 40 = four_index" "overrun_indexes 60 = sample_indexes 60"
  by (simp_all add: overrun_indexes_def)

lemma enumerated_one:
  assumes "set_terms s = [(1, ip)]" "bi_blocks (idxs ip) = [(0, 1) \<mapsto> b]"
  shows "enumerated idxs s q \<longleftrightarrow> c_short ((q - 1) div 65536) = 0 \<and> block_bit b (bit_index q)"
  using assms by (simp add: enumerated_def block_has_def)

lemma overrun_blocks:
  "bi_blocks (overrun_indexes 40) = [(0, 1) \<mapsto> foldl bitblock_set bitmap_block_alloc [9, 20, 30, 40]]"
  "bi_blocks (overrun_indexes 60) = [(0, 1) \<mapsto> bitblock_set bitmap_block_alloc 60]"
  by (simp_all add: overrun_indexes_def four_index_def sample_indexes_def empty_index_def block_key_def block_id_div c_short_def)

lemma overrun_bits:
  assumes "i < 65536"
  shows "block_bit (foldl bitblock_set bitmap_block_alloc [9, 20, 30, 40]) i \<longleftrightarrow> i \<in> {8, 19, 29, 39}"
    and "block_bit (bitblock_set bitmap_block_alloc 60) i \<longleftrightarrow> i = 59"
proof -
  have bits: "bit_index 9 = 8" "bit_index 20 = 19" "bit_index 30 = 29" "bit_index 40 = 39" "bit_index 60 = 59"
    by (simp_all add: bit_index_def bitblock_bit_mod)
  have len: "length (foldl bitblock_set bitmap_block_alloc rs) = 8192" for rs
    by (induction rs rule: rev_induct) simp_all
  show "block_bit (foldl bitblock_set bitmap_block_alloc [9, 20, 30, 40]) i \<longleftrightarrow> i \<in> {8, 19, 29, 39}"
    using assms len [of "[]"] len [of "[9]"] len [of "[9, 20]"] len [of "[9, 20, 30]"] by (auto simp: bits block_bit_update(1) block_bit_empty)
  show "block_bit (bitblock_set bitmap_block_alloc 60) i \<longleftrightarrow> i = 59"
    using assms by (simp add: bits block_bit_update(1) block_bit_empty)
qed

lemma overrun_enumerated:
  "enumerated overrun_indexes ((sample_bitmap 40)\<lparr>num_hits := 4\<rparr>) q \<longleftrightarrow> c_short ((q - 1) div 65536) = 0 \<and> bit_index q \<in> {8, 19, 29, 39}"
  "enumerated overrun_indexes (sample_bitmap 60) q \<longleftrightarrow> c_short ((q - 1) div 65536) = 0 \<and> bit_index q = 59"
proof -
  have terms: "set_terms ((sample_bitmap 40)\<lparr>num_hits := 4\<rparr>) = [(1, 40)]" "set_terms (sample_bitmap 60) = [(1, 60)]"
    by (simp_all add: set_terms_def sample_bitmap_def new_result_def)
  show "enumerated overrun_indexes ((sample_bitmap 40)\<lparr>num_hits := 4\<rparr>) q \<longleftrightarrow> c_short ((q - 1) div 65536) = 0 \<and> bit_index q \<in> {8, 19, 29, 39}"
    by (simp only: enumerated_one [OF terms(1), of overrun_indexes, OF overrun_blocks(1)] overrun_bits(1) [OF bit_index_lt])
  show "enumerated overrun_indexes (sample_bitmap 60) q \<longleftrightarrow> c_short ((q - 1) div 65536) = 0 \<and> bit_index q = 59"
    by (simp only: enumerated_one [OF terms(2), of overrun_indexes, OF overrun_blocks(2)] overrun_bits(2) [OF bit_index_lt])
qed

lemma overrun_listed:
  "q \<in> {9, 20, 30, 40} \<Longrightarrow> 0 < q \<and> (q - 1) div 65536 < 1
     \<and> enumerated overrun_indexes ((sample_bitmap 40)\<lparr>num_hits := 4\<rparr>) q \<and> \<not> enumerated overrun_indexes (sample_bitmap 60) q"
  unfolding overrun_enumerated by (elim insertE) (simp_all add: bit_index_def bitblock_bit_mod c_short_def)

lemma in_bitmap_enumerated: "in_bitmap idxs s q \<longleftrightarrow> enumerated idxs s (if q mod 65536 = 0 then q + 65536 else q)"
proof (cases "q mod 65536 = 0")
  case True
  then obtain k where "q = 65536 * k" by auto
  then show ?thesis using enumerated_boundary [of idxs s k] by (simp add: algebra_simps)
qed (simp add: enumerated_in_bitmap)

lemma overrun_record:
  assumes "0 \<le> q" "q < 2147483648"
    and e: "c_short (((if q mod 65536 = 0 then q + 65536 else q) - 1) div 65536) = 0
      \<and> bit_index (if q mod 65536 = 0 then q + 65536 else q) \<in> {8, 19, 29, 39}"
  shows "q \<in> {9, 20, 30, 40}"
proof -
  have "(r - 1) mod 65536 \<in> {8, 19, 29, 39}" if "bit_index r \<in> {8, 19, 29, 39}" for r
    using that bitblock_bit_range [of r] by (auto simp: bit_index_def bitblock_bit_mod)
  then have m0: "((if q mod 65536 = 0 then q + 65536 else q) - 1) mod 65536 \<in> {8, 19, 29, 39}" using e by blast
  have nz: "q mod 65536 \<noteq> 0"
  proof
    assume z: "q mod 65536 = 0"
    then obtain k where "q = 65536 * k" by auto
    then have "q + 65536 - 1 = 65535 + 65536 * k" by simp
    then have "(q + 65536 - 1) mod 65536 = 65535" by (simp only: mod_mult_self2) simp
    with m0 z show False by simp
  qed
  with m0 have m: "(q - 1) mod 65536 \<in> {8, 19, 29, 39}" by simp
  have "0 \<le> q - 1" using nz assms(1) by (cases "q = 0") simp_all
  moreover have "q - 1 < 2147483648" using assms(2) by simp
  ultimately have "0 \<le> (q - 1) div 65536" "(q - 1) div 65536 < 32768" by linarith+
  then have "(q - 1) div 65536 = 0" using e nz by (simp add: c_short_def)
  moreover have "q - 1 = (q - 1) div 65536 * 65536 + (q - 1) mod 65536" by simp
  ultimately have "q = (q - 1) mod 65536 + 1" by simp
  then show ?thesis using m by auto
qed

theorem bitmaps_not_overruns:
  "se_bitmap_merge overrun_indexes om nm junk ((sample_bitmap 40)\<lparr>num_hits := 4\<rparr>) (sample_bitmap 60) BOOLEAN_NOT = Crash
   \<and> counted overrun_indexes ((sample_bitmap 40)\<lparr>num_hits := 4\<rparr>)"
proof -
  let ?s = "(sample_bitmap 40)\<lparr>num_hits := 4\<rparr>"
  have op: "BOOLEAN_NOT \<noteq> BOOLEAN_OR" by (simp add: BOOLEAN_NOT_def BOOLEAN_OR_def)
  have ok: "bitmap_ok overrun_indexes ?s" "bitmap_ok overrun_indexes (sample_bitmap 60)"
    by (simp_all add: bitmap_ok_def sample_bitmap_def overrun_indexes_def sample_indexes_def four_index_def has_flag_def
        new_result_def index_ok_def empty_index_def bitmap_blocksize_bytes_def block_key_def)
  have first: "record_num (first_entry ?s) = 40" "record_num (first_entry (sample_bitmap 60)) = 60"
    by (simp_all add: first_entry_def sample_bitmap_def new_entry_def)
  have one: "bitmaps_max_blockno ?s (sample_bitmap 60) = 1" by (simp only: bitmaps_max_blockno_def first) (simp add: block_id_div)
  have room: "bitmaps_and_max_result ?s (sample_bitmap 60) BOOLEAN_NOT = 1"
    by (simp add: bitmaps_and_max_result_def sample_bitmap_def)
  obtain rs where rs: "se_bitmap_merge overrun_indexes om nm junk ?s (sample_bitmap 60) BOOLEAN_NOT
      = (if 0 < (1 :: int) + 2 \<and> int (length rs) \<le> 1 + 2 then Done (Some (and_result ?s rs), Some ?s, Some (sample_bitmap 60)) else Crash)"
      "\<forall>q. q \<in> set rs \<longleftrightarrow> 0 < q \<and> (q - 1) div 65536 < 1
         \<and> wants BOOLEAN_NOT (enumerated overrun_indexes ?s q) (enumerated overrun_indexes (sample_bitmap 60) q)"
    using se_bitmaps_and_facts [OF ok op, of om nm junk] unfolding one room by blast
  have "{9, 20, 30, 40} \<subseteq> set rs"
  proof
    fix q :: int assume "q \<in> {9, 20, 30, 40}"
    then show "q \<in> set rs" using rs(2) overrun_listed [of q] by (simp add: wants_def BOOLEAN_NOT_def BOOLEAN_AND_def)
  qed
  then have "card {9, 20, 30, 40 :: int} \<le> card (set rs)" by (intro card_mono) auto
  then have "4 \<le> length rs" using card_length [of rs] by simp
  then have run: "se_bitmap_merge overrun_indexes om nm junk ?s (sample_bitmap 60) BOOLEAN_NOT = Crash" using rs(1) by simp
  have "q \<in> {9, 20, 30, 40}" if q: "0 \<le> q" "q < 2147483648" "in_bitmap overrun_indexes ?s q" for q
    using q(3) unfolding in_bitmap_enumerated overrun_enumerated by (rule overrun_record [OF q(1,2)])
  then have "card {q. 0 \<le> q \<and> q < 2147483648 \<and> in_bitmap overrun_indexes ?s q} \<le> card {9, 20, 30, 40 :: int}"
    by (intro card_mono) auto
  then have "counted overrun_indexes ?s" using first(1) by (simp add: counted_def)
  with run show ?thesis by simp
qed

section \<open>A bitmap as a list\<close>

text \<open>The state after the records \<open>p\<close> have been met.\<close>

definition taken :: "nat \<Rightarrow> nat \<Rightarrow> int list \<Rightarrow> int \<times> int list" where
  "taken w n p = (int (min (length p) n), take w (drop n p))"

lemma take_record_taken: "take_record (int w) (int n) (taken w n p) r = taken w n (p @ [r])"
  by (cases "length p < n") (auto simp: take_record_def taken_def)

lemma foldl_take_record: "foldl (take_record (int w) (int n)) (taken w n p) rs = taken w n (p @ rs)"
  by (induction rs arbitrary: p) (simp_all add: take_record_taken)

lemma taken_full:
  assumes "\<not> int (length (snd (taken w n p))) < int w" shows "snd (taken w n p) = take w (drop n (p @ rs))"
proof -
  have "w \<le> length p - n" using assms by (auto simp: taken_def)
  then show ?thesis by (auto simp: taken_def)
qed

lemma block_records_empty [simp]: "block_records k bitmap_block_alloc = []"
  by (simp add: block_records_bits filter_empty_conv)

lemma block_records_cong:
  assumes "\<forall>i < 65536. block_bit b i \<longleftrightarrow> block_has idxs (set_terms s) k i"
  shows "block_records k b = map (block_record k) (filter (block_has idxs (set_terms s) k) [0..<65536])"
  unfolding block_records_bits using assms by (intro arg_cong [of _ _ "map _"] filter_cong) auto

definition blocks_listed :: "(int \<Rightarrow> bitmap_index) \<Rightarrow> weighted_result \<Rightarrow> nat list \<Rightarrow> int list" where
  "blocks_listed idxs s ks = concat (map (\<lambda>k. map (block_record (int k)) (filter (block_has idxs (set_terms s) (int k)) [0..<65536])) ks)"

lemma to_result_loop_facts:
  assumes "bitmap_ok idxs s"
  shows "sorted_wrt (<) ks \<Longrightarrow> (fst f \<noteq> None \<Longrightarrow> \<forall>k \<in> set ks. snd f < int k) \<Longrightarrow>
    \<exists>sk. to_result_loop idxs s (int w) (int n) (map (\<lambda>k. int k * bitmap_blocksize_bits + 1) ks) f (taken w n p)
       = Done (sk, take w (drop n (p @ blocks_listed idxs s ks)))"
proof (induction ks arbitrary: f p)
  case Nil
  then show ?case by (simp add: blocks_listed_def taken_def)
next
  case (Cons k ks)
  obtain lb no where f: "f = (lb, no)" by force
  obtain b no' where b: "se_fetch_bitmap_block idxs s (int k * bitmap_blocksize_bits + 1) (snd f) (fst f) = (Some b, no')"
      "length b = 8192" "\<forall>i < 65536. block_bit b i \<longleftrightarrow> block_has idxs (set_terms s) (int k) i" "no' < int (Suc k)"
      "no' = int k \<or> b = bitmap_block_alloc"
    using fetch_next [OF assms, of f k] Cons.prems(2) by auto
  have here: "block_records no' b = map (block_record (int k)) (filter (block_has idxs (set_terms s) (int k)) [0..<65536])"
    using b(5) block_records_cong [OF b(3)] by auto
  have "\<forall>j \<in> set ks. no' < int j" using Cons.prems(1) b(4) by auto
  then obtain sk where sk: "to_result_loop idxs s (int w) (int n) (map (\<lambda>k. int k * bitmap_blocksize_bits + 1) ks) (Some b, no')
      (taken w n (p @ block_records no' b)) = Done (sk, take w (drop n ((p @ block_records no' b) @ blocks_listed idxs s ks)))"
    using Cons.IH [of "(Some b, no')" "p @ block_records no' b"] Cons.prems(1) by auto
  show ?case
  proof (cases "int (length (snd (taken w n p))) < int w")
    case True
    then show ?thesis using f b(1) sk here by (simp add: foldl_take_record blocks_listed_def)
  next
    case False
    then show ?thesis using f taken_full [OF False, of "blocks_listed idxs s (k # ks)"]
      by (cases "taken w n p") simp
  qed
qed

definition visited_blocks :: "int \<Rightarrow> nat list" where
  "visited_blocks m = filter (\<lambda>k. int k * 65536 + 1 < m) [0..<nat (m div 65536) + 1]"

lemma dummy_recnos_visited: "dummy_recnos m = map (\<lambda>k. int k * bitmap_blocksize_bits + 1) (visited_blocks m)"
  by (simp add: dummy_recnos_def visited_blocks_def filter_map o_def bitmap_blocksize_bits_def)

lemma sorted_visited: "sorted_wrt (<) (visited_blocks m)"
  unfolding visited_blocks_def by (rule sorted_wrt_filter, rule sorted_wrt_upt)

lemma set_visited: "k \<in> set (visited_blocks m) \<longleftrightarrow> int k * 65536 + 1 < m"
proof -
  have "int k < int (nat (m div 65536) + 1)" if "int k * 65536 + 1 < m"
  proof -
    have "int k * 65536 div 65536 \<le> m div 65536" using that by (intro zdiv_mono1) auto
    then show ?thesis by simp
  qed
  then show ?thesis by (auto simp: visited_blocks_def)
qed

lemma sorted_blocks_listed: "sorted_wrt (<) ks \<Longrightarrow> sorted_wrt (<) (blocks_listed idxs s ks)"
proof (induction ks)
  case (Cons k ks)
  let ?one = "\<lambda>k. map (block_record (int k)) (filter (block_has idxs (set_terms s) (int k)) [0..<65536])"
  have "sorted_wrt (<) (?one k)"
    unfolding sorted_wrt_map
    by (rule sorted_wrt_filter, rule sorted_wrt_mono_rel [OF _ sorted_wrt_upt]) (simp add: block_record_def)
  moreover have "x < y" if x: "x \<in> set (?one k)" and y: "y \<in> set (blocks_listed idxs s ks)" for x y
  proof -
    obtain i where i: "i < 65536" "x = block_record (int k) i" using x by auto
    obtain j l where j: "j \<in> set ks" "y = block_record (int j) l" using y by (auto simp: blocks_listed_def)
    have "int k + 1 \<le> int j" using Cons.prems j(1) by auto
    then show ?thesis using i j(2) by (simp add: block_record_def)
  qed
  ultimately show ?case using Cons by (simp add: blocks_listed_def sorted_wrt_append)
qed (simp add: blocks_listed_def)

lemma set_blocks_listed:
  "q \<in> set (blocks_listed idxs s ks) \<longleftrightarrow> (\<exists>k \<in> set ks. (q - 1) div 65536 = int k \<and> enumerated idxs s q)"
proof -
  have "q \<in> set (map (block_record (int k)) (filter (block_has idxs (set_terms s) (int k)) [0..<65536]))
      \<longleftrightarrow> (q - 1) div 65536 = int k \<and> enumerated idxs s q" for k
    using block_record_eq [of _ q "int k"] bit_index_lt [of q] by (auto simp: image_iff enumerated_def)
  then show ?thesis by (auto simp: blocks_listed_def)
qed

text \<open>The records of the blocks that start below the largest record number.\<close>

definition bitmap_list :: "(int \<Rightarrow> bitmap_index) \<Rightarrow> weighted_result \<Rightarrow> int list" where
  "bitmap_list idxs s = blocks_listed idxs s (visited_blocks (record_num (first_entry s)))"

lemma bitmap_list_sorted: "sorted_wrt (<) (bitmap_list idxs s)"
  unfolding bitmap_list_def by (rule sorted_blocks_listed, rule sorted_visited)

lemma set_bitmap_list:
  "q \<in> set (bitmap_list idxs s)
     \<longleftrightarrow> 0 < q \<and> (q - 1) div 65536 * 65536 + 1 < record_num (first_entry s) \<and> enumerated idxs s q"
proof -
  have "0 < q \<longleftrightarrow> 0 \<le> (q - 1) div 65536" by (simp add: pos_imp_zdiv_nonneg_iff)
  then show ?thesis unfolding bitmap_list_def set_blocks_listed
    by (auto simp: set_visited intro!: bexI [of _ "nat ((q - 1) div 65536)"])
qed

lemma put_hits_records:
  "length rs \<le> length es \<Longrightarrow> map record_num (put_hits es rs) = rs @ map record_num (drop (length rs) es)"
  by (induction rs arbitrary: es) (auto simp: put_hits_def Suc_le_length_iff)

lemma se_bitmap_to_result_facts:
  assumes "bitmap_ok idxs s"
  shows "\<exists>r. se_bitmap_to_result idxs s (int w) (int n) = Done r
    \<and> map record_num (entries r) = take w (drop n (bitmap_list idxs s))
         @ map record_num (drop (length (take w (drop n (bitmap_list idxs s)))) (first_entry s # replicate (w + 1) (new_entry 0 (Fin 0))))
    \<and> num_hits r = (if num_hits s > 0 then num_hits s else int (length (take w (drop n (bitmap_list idxs s)))))"
proof -
  let ?m = "record_num (first_entry s)"
  from to_result_loop_facts [OF assms sorted_visited [of ?m], of "(None, 0)" w n "[]"] obtain sk where
    "to_result_loop idxs s (int w) (int n) (dummy_recnos ?m) (None, 0) (0, []) = Done (sk, take w (drop n (bitmap_list idxs s)))"
    by (auto simp: dummy_recnos_visited bitmap_list_def taken_def)
  then show ?thesis
    by (simp add: se_bitmap_to_result_def put_hits_records del: take_drop)
qed






definition pair_index :: bitmap_index where
  "pair_index = empty_index\<lparr>bi_blocks := [(0, 1) \<mapsto> bitblock_set (bitblock_set bitmap_block_alloc 9) 20], bi_recptr := 2\<rparr>"

definition pair_bitmap :: weighted_result where
  "pair_bitmap = (sample_bitmap 0)\<lparr>num_hits := 2, entries := [new_entry 20 (Fin 0)]\<rparr>"

text \<open>
  Finding: the merges ask for the records of a bitmap from the second on, and the conversion reports
  the number of hits of the bitmap: of the records 9 and 20 the list has 20 and the
  record number 0.
\<close>

theorem bitmap_to_result_skips_first:
  "\<exists>r. se_bitmap_to_result (\<lambda>_. pair_index) pair_bitmap 20 1 = Done r \<and> map record_num (hits r) = [20, 0]
   \<and> in_bitmap (\<lambda>_. pair_index) pair_bitmap 9"
proof -
  have ok: "bitmap_ok (\<lambda>_. pair_index) pair_bitmap"
    by (simp add: bitmap_ok_def pair_bitmap_def pair_index_def sample_bitmap_def has_flag_def new_result_def index_ok_def
      empty_index_def bitmap_blocksize_bytes_def)
  have bits: "bit_index 9 = 8" "bit_index 20 = 19" by (simp_all add: bit_index_def bitblock_bit_mod)
  have len: "length (bitblock_set bitmap_block_alloc 9) = 8192" by simp
  have enum: "enumerated (\<lambda>_. pair_index) pair_bitmap q \<longleftrightarrow> c_short ((q - 1) div 65536) = 0 \<and> bit_index q \<in> {8, 19}" for q
    by (auto simp: enumerated_def block_has_def set_terms_def pair_bitmap_def pair_index_def sample_bitmap_def empty_index_def bits
        new_result_def block_bit_update(1) [OF len bit_index_lt] block_bit_update(1) [OF length_block_alloc bit_index_lt]
        block_bit_empty [OF bit_index_lt])
  have first: "record_num (first_entry pair_bitmap) = 20" by (simp add: first_entry_def pair_bitmap_def new_entry_def)
  have "q \<in> set (bitmap_list (\<lambda>_. pair_index) pair_bitmap) \<longleftrightarrow> q \<in> set [9, 20]" for q
  proof -
    have "q \<in> set (bitmap_list (\<lambda>_. pair_index) pair_bitmap) \<longleftrightarrow> (q - 1) div 65536 = 0 \<and> bit_index q \<in> {8, 19}"
      unfolding set_bitmap_list first enum by (auto simp: c_short_def)
    also have "\<dots> \<longleftrightarrow> q \<in> set [9, 20]" using block_record_eq [of 8 q 0] block_record_eq [of 19 q 0] by (auto simp: block_record_def)
    finally show ?thesis .
  qed
  then have "bitmap_list (\<lambda>_. pair_index) pair_bitmap = [9, 20]"
    using bitmap_list_sorted [of "\<lambda>_. pair_index" pair_bitmap]
    by (intro sorted_distinct_set_unique) (auto simp: strict_sorted_iff)
  then obtain r where "se_bitmap_to_result (\<lambda>_. pair_index) pair_bitmap (int 20) (int 1) = Done r" "num_hits r = 2"
    "map record_num (entries r) = 20 # map record_num (replicate 21 (new_entry 0 (Fin 0)))"
    using se_bitmap_to_result_facts [OF ok, of 20 1] by (auto simp: pair_bitmap_def)
  moreover have "in_bitmap (\<lambda>_. pair_index) pair_bitmap 9"
    using enum [of 9] by (simp add: enumerated_in_bitmap bits c_short_def)
  ultimately show ?thesis by (auto simp: hits_def take_map [symmetric] eval_nat_numeral new_entry_def)
qed

end
