(* ===== verification/Tcl_Hash.thy ===== *)
theory Tcl_Hash
  imports Result_Set "HOL-Library.Multiset"
begin

text \<open>
  The in-memory hash tables of \<open>src/tclhash/tclHash.c\<close>: tables with string, one-word or array
  keys, lookup, creation with growth by four, deletion and enumeration.

  A bucket is the list of the entries on its chain. An entry has its address, which the clients
  hold, the bucket its \<open>bucketPtr\<close> points into, its key and the client's data (\<open>None\<close> for 0). The
  address of a new entry is what \<open>malloc\<close> returns, an argument of the model. A C string is the
  list of its characters before the terminator. \<open>Crash\<close> stands for \<open>Tcl_panic\<close>, which ends the process.
\<close>

unbundle bit_operations_syntax

section \<open>Tables\<close>

datatype hash_key =
    StringKey string
  | OneWordKey "64 word"
  | ArrayKey "32 word list"

record 'v hash_entry =
  he_addr :: int
  he_bucket :: nat
  he_key :: hash_key
  he_data :: "'v option"

datatype hash_procs = StringProcs | OneWordProcs | ArrayProcs | BogusProcs

record 'v hash_table =
  buckets :: "'v hash_entry list list"
  numBuckets :: int
  numEntries :: int
  rebuildSize :: int
  downShift :: int
  ht_mask :: "32 word"
  keyType :: int
  procs :: hash_procs

definition TCL_SMALL_HASH_TABLE :: int where "TCL_SMALL_HASH_TABLE = 4"
definition REBUILD_MULTIPLIER :: int where "REBUILD_MULTIPLIER = 3"
definition TCL_STRING_KEYS :: int where "TCL_STRING_KEYS = 0"
definition TCL_ONE_WORD_KEYS :: int where "TCL_ONE_WORD_KEYS = 1"

definition Tcl_InitHashTable :: "int \<Rightarrow> 'v hash_table" where
  "Tcl_InitHashTable kt =
     \<lparr>buckets = replicate 4 [], numBuckets = TCL_SMALL_HASH_TABLE, numEntries = 0,
      rebuildSize = TCL_SMALL_HASH_TABLE * REBUILD_MULTIPLIER, downShift = 28, ht_mask = 3, keyType = kt,
      procs = (if kt = TCL_STRING_KEYS then StringProcs else if kt = TCL_ONE_WORD_KEYS then OneWordProcs else ArrayProcs)\<rparr>"

section \<open>Hashing\<close>

text \<open>\<open>char\<close> is signed.\<close>

definition signed_char :: "char \<Rightarrow> 32 word" where
  "signed_char c = signed_take_bit 7 (of_char c)"

definition Tcl_HashString :: "string \<Rightarrow> 32 word" where
  "Tcl_HashString s = foldl (\<lambda>result c. result + (push_bit 3 result + signed_char c)) 0 s"

definition RANDOM_INDEX :: "'v hash_table \<Rightarrow> 64 word \<Rightarrow> nat" where
  "RANDOM_INDEX t i = unat (signed_drop_bit (nat (downShift t)) (i * 1103515245) AND ucast (ht_mask t))"

definition string_index :: "'v hash_table \<Rightarrow> string \<Rightarrow> nat" where
  "string_index t s = unat (Tcl_HashString s AND ht_mask t)"

definition array_index :: "'v hash_table \<Rightarrow> 32 word list \<Rightarrow> nat" where
  "array_index t ws = RANDOM_INDEX t (word_of_int (sint (foldl (+) 0 (take (nat (keyType t)) ws))))"

section \<open>Lookup\<close>

definition Tcl_StringFind :: "'v hash_table \<Rightarrow> string \<Rightarrow> 'v hash_entry option" where
  "Tcl_StringFind t key = find (\<lambda>h. he_key h = StringKey key) (buckets t ! string_index t key)"

definition Tcl_OneWordFind :: "'v hash_table \<Rightarrow> 64 word \<Rightarrow> 'v hash_entry option" where
  "Tcl_OneWordFind t key = find (\<lambda>h. he_key h = OneWordKey key) (buckets t ! RANDOM_INDEX t key)"

text \<open>The loop over the words ends after \<open>keyType\<close> of them.\<close>

definition words_match :: "int \<Rightarrow> 32 word list \<Rightarrow> hash_key \<Rightarrow> bool" where
  "words_match n ws k = (case k of ArrayKey vs \<Rightarrow> take (nat n) ws = take (nat n) vs | _ \<Rightarrow> False)"

definition Tcl_ArrayFind :: "'v hash_table \<Rightarrow> 32 word list \<Rightarrow> 'v hash_entry option" where
  "Tcl_ArrayFind t key = find (\<lambda>h. words_match (keyType t) key (he_key h)) (buckets t ! array_index t key)"

text \<open>The call through \<open>findProc\<close>; a key of another kind than the table's is never passed.\<close>

definition Tcl_FindHashEntry :: "'v hash_table \<Rightarrow> hash_key \<Rightarrow> 'v hash_entry option run" where
  "Tcl_FindHashEntry t key =
     (case (procs t, key) of
        (StringProcs, StringKey s) \<Rightarrow> Done (Tcl_StringFind t s)
      | (OneWordProcs, OneWordKey w) \<Rightarrow> Done (Tcl_OneWordFind t w)
      | (ArrayProcs, ArrayKey ws) \<Rightarrow> Done (Tcl_ArrayFind t ws)
      | _ \<Rightarrow> Crash)"

section \<open>Growth\<close>

definition key_index :: "'v hash_table \<Rightarrow> hash_key \<Rightarrow> nat" where
  "key_index t key = (case key of
       StringKey s \<Rightarrow> string_index t s | OneWordKey w \<Rightarrow> RANDOM_INDEX t w | ArrayKey ws \<Rightarrow> array_index t ws)"

text \<open>An entry becomes the first of its new chain.\<close>

definition rehash_entry :: "'v hash_table \<Rightarrow> 'v hash_entry list list \<Rightarrow> 'v hash_entry \<Rightarrow> 'v hash_entry list list" where
  "rehash_entry t bs h = (let i = key_index t (he_key h) in bs[i := h\<lparr>he_bucket := i\<rparr> # bs ! i])"

definition Tcl_RebuildTable :: "'v hash_table \<Rightarrow> 'v hash_table" where
  "Tcl_RebuildTable t =
     (let t1 = t\<lparr>numBuckets := c_int (numBuckets t * 4), rebuildSize := c_int (rebuildSize t * 4),
                downShift := downShift t - 2, ht_mask := push_bit 2 (ht_mask t) + 3\<rparr>
      in t1\<lparr>buckets := foldl (rehash_entry t1) (replicate (nat (numBuckets t1)) []) (concat (buckets t))\<rparr>)"

section \<open>Creation\<close>

text \<open>The entry put first on its chain, and the growth of the table.\<close>

definition add_entry :: "'v hash_table \<Rightarrow> int \<Rightarrow> nat \<Rightarrow> hash_key \<Rightarrow> 'v hash_table" where
  "add_entry t a i key =
     (let h = \<lparr>he_addr = a, he_bucket = i, he_key = key, he_data = None\<rparr>;
          t1 = t\<lparr>buckets := (buckets t)[i := h # buckets t ! i], numEntries := numEntries t + 1\<rparr>
      in if numEntries t1 \<ge> rebuildSize t1 then Tcl_RebuildTable t1 else t1)"

text \<open>The table, the address of the entry, and \<open>*newPtr\<close>.\<close>

definition create_or_found :: "'v hash_table \<Rightarrow> int \<Rightarrow> nat \<Rightarrow> hash_key \<Rightarrow> 'v hash_entry option \<Rightarrow> 'v hash_table \<times> int \<times> int" where
  "create_or_found t a i key found =
     (case found of Some h \<Rightarrow> (t, he_addr h, 0) | None \<Rightarrow> (add_entry t a i key, a, 1))"

definition Tcl_StringCreate :: "'v hash_table \<Rightarrow> int \<Rightarrow> string \<Rightarrow> 'v hash_table \<times> int \<times> int" where
  "Tcl_StringCreate t a key = create_or_found t a (string_index t key) (StringKey key) (Tcl_StringFind t key)"

definition Tcl_OneWordCreate :: "'v hash_table \<Rightarrow> int \<Rightarrow> 64 word \<Rightarrow> 'v hash_table \<times> int \<times> int" where
  "Tcl_OneWordCreate t a key = create_or_found t a (RANDOM_INDEX t key) (OneWordKey key) (Tcl_OneWordFind t key)"

definition Tcl_ArrayCreate :: "'v hash_table \<Rightarrow> int \<Rightarrow> 32 word list \<Rightarrow> 'v hash_table \<times> int \<times> int" where
  "Tcl_ArrayCreate t a key =
     create_or_found t a (array_index t key) (ArrayKey (take (nat (keyType t)) key)) (Tcl_ArrayFind t key)"

definition Tcl_CreateHashEntry :: "'v hash_table \<Rightarrow> int \<Rightarrow> hash_key \<Rightarrow> ('v hash_table \<times> int \<times> int) run" where
  "Tcl_CreateHashEntry t a key =
     (case (procs t, key) of
        (StringProcs, StringKey s) \<Rightarrow> Done (Tcl_StringCreate t a s)
      | (OneWordProcs, OneWordKey w) \<Rightarrow> Done (Tcl_OneWordCreate t a w)
      | (ArrayProcs, ArrayKey ws) \<Rightarrow> Done (Tcl_ArrayCreate t a ws)
      | _ \<Rightarrow> Crash)"

section \<open>Data, deletion and enumeration\<close>

definition Tcl_SetHashValue :: "'v hash_table \<Rightarrow> int \<Rightarrow> 'v \<Rightarrow> 'v hash_table" where
  "Tcl_SetHashValue t a v =
     t\<lparr>buckets := map (map (\<lambda>h. if he_addr h = a then h\<lparr>he_data := Some v\<rparr> else h)) (buckets t)\<rparr>"

text \<open>The walk along the chain that finds the pointer to the entry; \<open>Crash\<close> at its end.\<close>

fun unlink_entry :: "int \<Rightarrow> 'v hash_entry list \<Rightarrow> 'v hash_entry list run" where
  "unlink_entry a [] = Crash"
| "unlink_entry a (h # hs) = (if he_addr h = a then Done hs else run_bind (unlink_entry a hs) (\<lambda>r. Done (h # r)))"

definition Tcl_DeleteHashEntry :: "'v hash_table \<Rightarrow> 'v hash_entry \<Rightarrow> 'v hash_table run" where
  "Tcl_DeleteHashEntry t h =
     run_bind (unlink_entry (he_addr h) (buckets t ! he_bucket h)) (\<lambda>chain.
       Done (t\<lparr>buckets := (buckets t)[he_bucket h := chain], numEntries := numEntries t - 1\<rparr>))"

definition Tcl_DeleteHashTable :: "'v hash_table \<Rightarrow> 'v hash_table" where
  "Tcl_DeleteHashTable t = t\<lparr>buckets := [], procs := BogusProcs\<rparr>"

record 'v hash_search =
  nextIndex :: nat
  nextEntryPtr :: "'v hash_entry list"

text \<open>The rest of a chain stands for the pointer to its first entry.\<close>

function Tcl_NextHashEntry :: "'v hash_table \<Rightarrow> 'v hash_search \<Rightarrow> 'v hash_entry option \<times> 'v hash_search" where
  "Tcl_NextHashEntry t s =
     (case nextEntryPtr s of
        h # rest \<Rightarrow> (Some h, s\<lparr>nextEntryPtr := rest\<rparr>)
      | [] \<Rightarrow>
          if int (nextIndex s) \<ge> numBuckets t then (None, s)
          else Tcl_NextHashEntry t (s\<lparr>nextEntryPtr := buckets t ! nextIndex s, nextIndex := nextIndex s + 1\<rparr>))"
  by pat_completeness auto
termination by (relation "measure (\<lambda>(t, s). nat (numBuckets t) - nextIndex s)") auto

declare Tcl_NextHashEntry.simps [simp del]

definition Tcl_FirstHashEntry :: "'v hash_table \<Rightarrow> 'v hash_entry option \<times> 'v hash_search" where
  "Tcl_FirstHashEntry t = Tcl_NextHashEntry t \<lparr>nextIndex = 0, nextEntryPtr = []\<rparr>"

lemma next_entry_advances:
  "Tcl_NextHashEntry t s = (Some h, s') \<Longrightarrow>
     ((nat (numBuckets t) - nextIndex s', length (nextEntryPtr s')), (nat (numBuckets t) - nextIndex s, length (nextEntryPtr s)))
       \<in> less_than <*lex*> less_than"
proof (induction t s rule: Tcl_NextHashEntry.induct)
  case (1 t s)
  show ?case
  proof (cases "nextEntryPtr s")
    case (Cons h' rest)
    then show ?thesis using 1(2) by (auto simp: Tcl_NextHashEntry.simps [of t s])
  next
    case Nil
    then have n: "\<not> int (nextIndex s) \<ge> numBuckets t"
      and step: "Tcl_NextHashEntry t (s\<lparr>nextEntryPtr := buckets t ! nextIndex s, nextIndex := nextIndex s + 1\<rparr>) = (Some h, s')"
      using 1(2) by (auto simp: Tcl_NextHashEntry.simps [of t s] split: if_splits)
    have "nat (numBuckets t) - (nextIndex s + 1) < nat (numBuckets t) - nextIndex s" using n by auto
    then show ?thesis using 1(1) [OF Nil n step] by auto
  qed
qed

text \<open>The loop of the clients: the entries from the state of a search on.\<close>

function enumerate :: "'v hash_table \<Rightarrow> 'v hash_search \<Rightarrow> 'v hash_entry list" where
  "enumerate t s = (case Tcl_NextHashEntry t s of (None, _) \<Rightarrow> [] | (Some h, s') \<Rightarrow> h # enumerate t s')"
  by pat_completeness auto
termination
  by (relation "inv_image (less_than <*lex*> less_than)
        (\<lambda>(t, s :: 'a hash_search). (nat (numBuckets t) - nextIndex s, length (nextEntryPtr s)))")
    (auto dest!: sym [THEN next_entry_advances] simp: next_entry_advances)

declare enumerate.simps [simp del]

definition hash_entries :: "'v hash_table \<Rightarrow> 'v hash_entry list" where
  "hash_entries t = (case Tcl_FirstHashEntry t of (None, _) \<Rightarrow> [] | (Some h, s) \<Rightarrow> h # enumerate t s)"

section \<open>The invariant\<close>

definition key_fits :: "'v hash_table \<Rightarrow> hash_key \<Rightarrow> bool" where
  "key_fits t key = (case key of
       StringKey s \<Rightarrow> procs t = StringProcs | OneWordKey w \<Rightarrow> procs t = OneWordProcs
     | ArrayKey ws \<Rightarrow> procs t = ArrayProcs \<and> length ws = nat (keyType t))"

text \<open>The sizes after \<open>k\<close> rebuilds; the bound keeps \<open>rebuildSize\<close> within an \<open>int\<close>.\<close>

definition sizes_ok :: "nat \<Rightarrow> 'v hash_table \<Rightarrow> bool" where
  "sizes_ok k t \<longleftrightarrow> k \<le> 13 \<and> numBuckets t = 4 ^ (k + 1) \<and> rebuildSize t = 3 * 4 ^ (k + 1) \<and> downShift t = 28 - 2 * int k
     \<and> ht_mask t = 4 ^ (k + 1) - 1 \<and> length (buckets t) = 4 ^ (k + 1)"

definition chains_ok :: "'v hash_table \<Rightarrow> bool" where
  "chains_ok t \<longleftrightarrow> (\<forall>i < length (buckets t). \<forall>h \<in> set (buckets t ! i).
     he_bucket h = i \<and> key_index t (he_key h) = i \<and> key_fits t (he_key h))"

definition table_entries :: "'v hash_table \<Rightarrow> 'v hash_entry list" where
  "table_entries t = concat (buckets t)"

definition table_ok :: "'v hash_table \<Rightarrow> bool" where
  "table_ok t \<longleftrightarrow> (\<exists>k. sizes_ok k t) \<and> chains_ok t \<and> numEntries t = int (length (table_entries t)) \<and> numEntries t < rebuildSize t
     \<and> distinct (map he_key (table_entries t)) \<and> distinct (map he_addr (table_entries t))"

lemma mask_word: "k \<le> 13 \<Longrightarrow> unat (4 ^ (k + 1) - 1 :: 32 word) = 4 ^ (k + 1) - 1" "k \<le> 13 \<Longrightarrow> unat (ucast (4 ^ (k + 1) - 1 :: 32 word) :: 64 word) = 4 ^ (k + 1) - 1"
proof -
  assume k: "k \<le> 13"
  have le: "(4 :: nat) ^ (k + 1) \<le> 4 ^ 14" using k by (intro power_increasing) auto
  have "unat (4 ^ (k + 1) :: 32 word) = 4 ^ (k + 1)"
  proof -
    have "unat (of_nat (4 ^ (k + 1)) :: 32 word) = 4 ^ (k + 1) mod 2 ^ 32" by (simp only: unat_of_nat) simp
    moreover have "(4 :: nat) ^ (k + 1) < 2 ^ 32" using le by simp
    ultimately show ?thesis by simp
  qed
  then show u: "unat (4 ^ (k + 1) - 1 :: 32 word) = 4 ^ (k + 1) - 1"
    by (simp add: unat_sub word_le_nat_alt)
  have "unat (ucast (4 ^ (k + 1) - 1 :: 32 word) :: 64 word) = unat (4 ^ (k + 1) - 1 :: 32 word)"
    using u le by (simp only: unsigned_ucast_eq) (simp add: take_bit_nat_eq_self)
  then show "unat (ucast (4 ^ (k + 1) - 1 :: 32 word) :: 64 word) = 4 ^ (k + 1) - 1" using u by simp
qed

lemma index_bound_mask:
  assumes k: "k \<le> 13" "ht_mask t = 4 ^ (k + 1) - 1" shows "key_index t key < 4 ^ (k + 1)"
proof -
  have "unat (x AND ht_mask t) < 4 ^ (k + 1)" for x
    using word_and_le1 [of x "ht_mask t"] mask_word(1) [OF k(1)] unfolding k(2) word_le_nat_alt
    by (metis One_nat_def Suc_pred le_imp_less_Suc zero_less_numeral zero_less_power)
  moreover have "unat (x AND ucast (ht_mask t)) < 4 ^ (k + 1)" for x :: "64 word"
    using word_and_le1 [of x "ucast (ht_mask t)"] mask_word(2) [OF k(1)] unfolding k(2) word_le_nat_alt
    by (metis One_nat_def Suc_pred le_imp_less_Suc zero_less_numeral zero_less_power)
  ultimately show ?thesis
    by (cases key) (simp_all add: key_index_def string_index_def array_index_def RANDOM_INDEX_def)
qed

lemma index_bound: "sizes_ok k t \<Longrightarrow> key_index t key < length (buckets t)"
  using index_bound_mask [of k t key] by (simp add: sizes_ok_def)

lemma key_index_cong:
  "ht_mask t' = ht_mask t \<Longrightarrow> downShift t' = downShift t \<Longrightarrow> keyType t' = keyType t \<Longrightarrow> key_index t' key = key_index t key"
  by (cases key) (simp_all add: key_index_def string_index_def array_index_def RANDOM_INDEX_def)

lemma key_fits_cong: "procs t' = procs t \<Longrightarrow> keyType t' = keyType t \<Longrightarrow> key_fits t' key = key_fits t key"
  by (cases key) (simp_all add: key_fits_def)

lemma find_unique:
  assumes "distinct (map he_key hs)" "h \<in> set hs" "he_key h = key" shows "find (\<lambda>h. he_key h = key) hs = Some h"
  using assms by (induction hs) (auto simp: rev_image_eqI)

lemma entry_bucket: "h \<in> set (table_entries t) \<longleftrightarrow> (\<exists>j < length (buckets t). h \<in> set (buckets t ! j))"
  by (auto simp: table_entries_def set_conv_nth [of "buckets t"])

text \<open>A key is looked up in its bucket only, and all entries with the key are there.\<close>

lemma find_in_bucket:
  assumes "table_ok t" and "key_fits t key"
  shows "find (\<lambda>h. he_key h = key) (buckets t ! key_index t key) = find (\<lambda>h. he_key h = key) (table_entries t)"
proof -
  obtain k where k: "sizes_ok k t" using assms(1) by (auto simp: table_ok_def)
  let ?i = "key_index t key"
  have i: "?i < length (buckets t)" by (rule index_bound [OF k])
  have dist: "distinct (map he_key (table_entries t))" using assms(1) by (simp add: table_ok_def)
  have sub: "set (buckets t ! ?i) \<subseteq> set (table_entries t)" using nth_mem [OF i] by (auto simp: table_entries_def)
  have only: "h \<in> set (buckets t ! ?i)" if h: "h \<in> set (table_entries t)" "he_key h = key" for h
  proof -
    obtain j where "j < length (buckets t)" "h \<in> set (buckets t ! j)"
      using h(1) entry_bucket by blast
    then show ?thesis using assms(1) h(2) by (auto simp: table_ok_def chains_ok_def)
  qed
  show ?thesis
  proof (cases "\<exists>h \<in> set (table_entries t). he_key h = key")
    case True
    then obtain h where h: "h \<in> set (table_entries t)" "he_key h = key" by blast
    have "distinct (map he_key (buckets t ! ?i))"
      using dist i by (metis distinct_concat_iff map_concat nth_map nth_mem length_map table_entries_def)
    then show ?thesis using find_unique [OF _ only [OF h] h(2)] find_unique [OF dist h] by simp
  next
    case False
    then have "find (\<lambda>h. he_key h = key) (buckets t ! ?i) = None" "find (\<lambda>h. he_key h = key) (table_entries t) = None"
      using sub by (auto simp: find_None_iff)
    then show ?thesis by simp
  qed
qed

lemma fits_procs:
  assumes "key_fits t key"
  shows "case key of StringKey s \<Rightarrow> procs t = StringProcs | OneWordKey w \<Rightarrow> procs t = OneWordProcs
     | ArrayKey ws \<Rightarrow> procs t = ArrayProcs \<and> take (nat (keyType t)) ws = ws"
  using assms by (cases key) (simp_all add: key_fits_def)

lemma bucket_fits:
  assumes "table_ok t" "i < length (buckets t)" "h \<in> set (buckets t ! i)" shows "key_fits t (he_key h)"
  using assms by (simp add: table_ok_def chains_ok_def)

lemma words_match_key:
  assumes "key_fits t (ArrayKey ws)" "key_fits t k" shows "words_match (keyType t) ws k \<longleftrightarrow> k = ArrayKey ws"
  using assms by (cases k) (auto simp: words_match_def key_fits_def)

lemma find_entry:
  assumes "table_ok t" and "key_fits t key"
  shows "Tcl_FindHashEntry t key = Done (find (\<lambda>h. he_key h = key) (table_entries t))"
proof -
  obtain k where k: "sizes_ok k t" using assms(1) by (auto simp: table_ok_def)
  show ?thesis
  proof (cases key)
    case (ArrayKey ws)
    have i: "key_index t key < length (buckets t)" by (rule index_bound [OF k])
    have "find (\<lambda>h. words_match (keyType t) ws (he_key h)) (buckets t ! key_index t key)
        = find (\<lambda>h. he_key h = key) (buckets t ! key_index t key)"
      using bucket_fits [OF assms(1) i] words_match_key [of t ws] assms(2) ArrayKey by (intro find_cong) auto
    then show ?thesis using ArrayKey fits_procs [OF assms(2)] find_in_bucket [OF assms]
      by (simp add: Tcl_FindHashEntry_def Tcl_ArrayFind_def key_index_def)
  qed (use fits_procs [OF assms(2)] find_in_bucket [OF assms] in
      \<open>simp_all add: Tcl_FindHashEntry_def Tcl_StringFind_def Tcl_OneWordFind_def key_index_def\<close>)
qed

section \<open>Changing a chain\<close>

lemma mset_update_chain:
  assumes "i < length bs"
  shows "mset (concat (bs[i := c])) + mset (bs ! i) = mset (concat bs) + mset c"
proof -
  have bs: "bs = take i bs @ bs ! i # drop (Suc i) bs" by (rule id_take_nth_drop [OF assms])
  have "bs[i := c] = take i bs @ c # drop (Suc i) bs" using assms by (simp add: upd_conv_take_nth_drop)
  moreover have "mset (concat bs) = mset (concat (take i bs)) + mset (bs ! i) + mset (concat (drop (Suc i) bs))"
    by (subst bs) simp
  ultimately show ?thesis by (simp add: ac_simps)
qed

definition placed :: "'v hash_table \<Rightarrow> 'v hash_entry \<Rightarrow> 'v hash_entry" where
  "placed t h = h\<lparr>he_bucket := key_index t (he_key h)\<rparr>"

definition chains_of :: "'v hash_table \<Rightarrow> 'v hash_entry list list \<Rightarrow> bool" where
  "chains_of t bs \<longleftrightarrow> (\<forall>i < length bs. \<forall>h \<in> set (bs ! i). he_bucket h = i \<and> key_index t (he_key h) = i)"

lemma rehash_facts:
  assumes "\<forall>key. key_index t key < length bs" and "chains_of t bs"
  shows "length (foldl (rehash_entry t) bs hs) = length bs \<and> chains_of t (foldl (rehash_entry t) bs hs)
    \<and> mset (concat (foldl (rehash_entry t) bs hs)) = mset (concat bs) + mset (map (placed t) hs)"
  using assms
proof (induction hs arbitrary: bs)
  case (Cons h hs)
  let ?i = "key_index t (he_key h)"
  let ?bs = "rehash_entry t bs h"
  have bs: "?bs = bs[?i := placed t h # bs ! ?i]" by (simp add: rehash_entry_def placed_def Let_def)
  have i: "?i < length bs" using Cons.prems(1) by simp
  have "mset (concat ?bs) = add_mset (placed t h) (mset (concat bs))"
    using mset_update_chain [OF i, of "placed t h # bs ! ?i"] unfolding bs by simp
  moreover have "chains_of t ?bs"
    using Cons.prems(2) i unfolding bs chains_of_def by (auto simp: nth_list_update placed_def)
  ultimately show ?case using Cons.IH [of ?bs] Cons.prems(1) by (simp add: bs)
qed simp

definition item :: "'v hash_entry \<Rightarrow> hash_key \<times> int \<times> 'v option" where
  "item h = (he_key h, he_addr h, he_data h)"

lemma item_placed [simp]: "item (placed t h) = item h" "he_key (placed t h) = he_key h" "he_addr (placed t h) = he_addr h"
  by (simp_all add: item_def placed_def)

lemma map_placed [simp]: "he_key \<circ> placed t = he_key" "he_addr \<circ> placed t = he_addr" "item \<circ> placed t = item"
  by (auto simp: fun_eq_iff)

text \<open>A rebuild keeps every entry, in the bucket its key now has.\<close>

lemma rebuild_facts:
  assumes "sizes_ok k t" "k \<le> 12" and "\<forall>h \<in> set (table_entries t). key_fits t (he_key h)"
  shows "sizes_ok (Suc k) (Tcl_RebuildTable t)" and "chains_ok (Tcl_RebuildTable t)"
    and "mset (table_entries (Tcl_RebuildTable t)) = mset (map (placed (Tcl_RebuildTable t)) (table_entries t))"
    and "numEntries (Tcl_RebuildTable t) = numEntries t" "procs (Tcl_RebuildTable t) = procs t" "keyType (Tcl_RebuildTable t) = keyType t"
proof -
  define t1 where "t1 = t\<lparr>numBuckets := c_int (numBuckets t * 4), rebuildSize := c_int (rebuildSize t * 4),
                downShift := downShift t - 2, ht_mask := push_bit 2 (ht_mask t) + 3\<rparr>"
  let ?t2 = "Tcl_RebuildTable t"
  have "(4 :: int) ^ (k + 2) \<le> 4 ^ 14" using assms(2) by (intro power_increasing) auto
  moreover have "(0 :: int) < 4 ^ k" by simp
  ultimately have "is_c_int (4 * 4 ^ (k + 1))" "is_c_int (4 * (3 * 4 ^ (k + 1)))"
    unfolding is_c_int_def by (simp_all, linarith+)
  then have n: "c_int (numBuckets t * 4) = 4 ^ (Suc k + 1)" "c_int (rebuildSize t * 4) = 3 * 4 ^ (Suc k + 1)"
    using assms(1) by (simp_all add: sizes_ok_def mult.commute)
  have mask: "push_bit 2 (ht_mask t) + 3 = 4 ^ (Suc k + 1) - 1"
  proof -
    have m: "ht_mask t = 4 ^ (k + 1) - 1" using assms(1) by (simp add: sizes_ok_def)
    show ?thesis unfolding m by (simp add: push_bit_eq_mult algebra_simps)
  qed
  have t1: "numBuckets t1 = 4 ^ (Suc k + 1)" "rebuildSize t1 = 3 * 4 ^ (Suc k + 1)" "ht_mask t1 = 4 ^ (Suc k + 1) - 1"
    "downShift t1 = downShift t - 2" "numEntries t1 = numEntries t" "procs t1 = procs t" "keyType t1 = keyType t"
    unfolding t1_def using n mask by simp_all
  let ?bs = "replicate (nat (numBuckets t1)) []"
  have len: "length ?bs = 4 ^ (Suc k + 1)" using t1(1) by (simp add: nat_mult_distrib nat_power_eq)
  have idx: "\<forall>key. key_index t1 key < length ?bs"
    using index_bound_mask [OF _ t1(3)] assms(2) unfolding len by simp
  have t2: "?t2 = t1\<lparr>buckets := foldl (rehash_entry t1) ?bs (table_entries t)\<rparr>"
    by (simp add: Tcl_RebuildTable_def table_entries_def Let_def t1_def)
  have key: "key_index ?t2 = key_index t1" unfolding t2 by (rule ext, rule key_index_cong) simp_all
  have "chains_of t1 ?bs" by (simp add: chains_of_def)
  note f = rehash_facts [OF idx this, of "table_entries t"]
  show sz: "sizes_ok (Suc k) ?t2"
    using assms(1,2) t1 f len unfolding t2 sizes_ok_def by auto
  show ms: "mset (table_entries ?t2) = mset (map (placed ?t2) (table_entries t))"
  proof -
    have "placed ?t2 = placed t1" using key by (auto simp: placed_def fun_eq_iff)
    then show ?thesis using f by (simp add: t2 table_entries_def)
  qed
  show "numEntries ?t2 = numEntries t" "procs ?t2 = procs t" "keyType ?t2 = keyType t" unfolding t2 using t1 by simp_all
  have fits: "key_fits ?t2 = key_fits t" unfolding t2 using t1 by (intro ext key_fits_cong) simp_all
  have "key_fits ?t2 (he_key h)" if "h \<in> set (table_entries ?t2)" for h
  proof -
    have "h \<in> set (map (placed ?t2) (table_entries t))" using that ms by (metis set_mset_mset)
    then show ?thesis using assms(3) fits by auto
  qed
  then show "chains_ok ?t2"
    using f key unfolding chains_ok_def chains_of_def by (auto simp: entry_bucket t2)
qed

section \<open>The table as a map\<close>

definition table_items :: "'v hash_table \<Rightarrow> (hash_key \<times> int \<times> 'v option) set" where
  "table_items t = item ` set (table_entries t)"

lemma same_entries:
  assumes "mset (table_entries t') = mset hs"
  shows "length (table_entries t') = length hs" "distinct (map he_key (table_entries t')) \<longleftrightarrow> distinct (map he_key hs)"
    "distinct (map he_addr (table_entries t')) \<longleftrightarrow> distinct (map he_addr hs)" "table_items t' = item ` set hs"
proof -
  show "length (table_entries t') = length hs" using assms by (metis size_mset)
  have m: "mset (map f (table_entries t')) = mset (map f hs)" for f :: "'a hash_entry \<Rightarrow> 'b" using assms by simp
  show "distinct (map he_key (table_entries t')) \<longleftrightarrow> distinct (map he_key hs)" by (rule mset_eq_imp_distinct_iff) (rule m)
  have m: "mset (map f (table_entries t')) = mset (map f hs)" for f :: "'a hash_entry \<Rightarrow> 'b" using assms by simp
  show "distinct (map he_addr (table_entries t')) \<longleftrightarrow> distinct (map he_addr hs)" by (rule mset_eq_imp_distinct_iff) (rule m)
  show "table_items t' = item ` set hs" unfolding table_items_def using assms by (metis set_mset_mset)
qed

lemma add_entry_facts:
  assumes ok: "table_ok t" and fits: "key_fits t key" and new: "key \<notin> he_key ` set (table_entries t)" "a \<notin> he_addr ` set (table_entries t)"
    and room: "numEntries t + 1 < 805306368"
  defines "t' \<equiv> add_entry t a (key_index t key) key"
  shows "table_ok t'" and "table_items t' = insert (key, a, None) (table_items t)"
    and "procs t' = procs t" "keyType t' = keyType t" "numEntries t' = numEntries t + 1"
proof -
  obtain k where k: "sizes_ok k t" using ok by (auto simp: table_ok_def)
  let ?i = "key_index t key"
  define h :: "'a hash_entry" where "h = \<lparr>he_addr = a, he_bucket = ?i, he_key = key, he_data = None\<rparr>"
  define t1 where "t1 = t\<lparr>buckets := (buckets t)[?i := h # buckets t ! ?i], numEntries := numEntries t + 1\<rparr>"
  have i: "?i < length (buckets t)" by (rule index_bound [OF k])
  have same: "key_index t1 = key_index t" "key_fits t1 = key_fits t"
    unfolding t1_def by (intro ext key_index_cong key_fits_cong; simp)+
  have sz: "sizes_ok k t1" using k by (simp add: sizes_ok_def t1_def)
  have ms: "mset (table_entries t1) = mset (h # table_entries t)"
    using mset_update_chain [OF i, of "h # buckets t ! ?i"] by (simp add: table_entries_def t1_def)
  have ch: "chains_ok t1"
    using ok i fits unfolding chains_ok_def same by (auto simp: t1_def h_def nth_list_update table_ok_def chains_ok_def)
  have t': "t' = (if numEntries t1 \<ge> rebuildSize t1 then Tcl_RebuildTable t1 else t1)"
    by (simp add: t'_def add_entry_def Let_def t1_def h_def)
  have n1: "numEntries t1 = numEntries t + 1" "rebuildSize t1 = 3 * 4 ^ (k + 1)" "numEntries t < 3 * 4 ^ (k + 1)"
    using k ok by (simp_all add: t1_def sizes_ok_def table_ok_def)
  have hs: "distinct (map he_key (h # table_entries t))" "distinct (map he_addr (h # table_entries t))"
    "int (length (h # table_entries t)) = numEntries t + 1" "item ` set (h # table_entries t) = insert (key, a, None) (table_items t)"
    using ok new by (auto simp: table_ok_def h_def item_def table_items_def)
  have k12: "k \<le> 12" if "numEntries t1 \<ge> rebuildSize t1"
  proof (rule ccontr)
    assume "\<not> k \<le> 12"
    then have "(4 :: int) ^ 14 \<le> 4 ^ (k + 1)" by (intro power_increasing) auto
    then show False using that n1 room by simp
  qed
  have fit1: "\<forall>g \<in> set (table_entries t1). key_fits t1 (he_key g)"
    using ch by (auto simp: chains_ok_def entry_bucket)
  note r = rebuild_facts [OF sz _ fit1]
  have ms': "\<exists>f. mset (table_entries t') = mset (map (f :: 'a hash_entry \<Rightarrow> 'a hash_entry) (h # table_entries t)) \<and> he_key \<circ> f = he_key
      \<and> he_addr \<circ> f = he_addr \<and> item \<circ> f = item"
  proof (cases "numEntries t1 \<ge> rebuildSize t1")
    case True
    have "mset (table_entries t') = mset (map (placed t') (h # table_entries t))"
      using r(3) [OF k12 [OF True]] True ms t' by simp
    then show ?thesis by (intro exI [of _ "placed t'"]) simp
  next
    case False
    then show ?thesis using ms t' by (intro exI [of _ id]) simp
  qed
  then obtain f :: "'a hash_entry \<Rightarrow> 'a hash_entry" where f: "mset (table_entries t') = mset (map f (h # table_entries t))"
    "he_key \<circ> f = he_key" "he_addr \<circ> f = he_addr" "item \<circ> f = item" by blast
  note e = same_entries [OF f(1)]
  show "procs t' = procs t" "keyType t' = keyType t" and n': "numEntries t' = numEntries t + 1"
    using r(4-6) k12 t' by (auto simp: t1_def)
  show "table_items t' = insert (key, a, None) (table_items t)"
    using e(4) hs(4) f(4) by (metis image_comp set_map)
  have "(\<exists>k. sizes_ok k t') \<and> chains_ok t' \<and> numEntries t' < rebuildSize t'"
  proof (cases "numEntries t1 \<ge> rebuildSize t1")
    case True
    then have "sizes_ok (Suc k) t'" "chains_ok t'" using r(1,2) k12 t' by auto
    moreover have "rebuildSize t' = 3 * 4 ^ (k + 2)" using \<open>sizes_ok (Suc k) t'\<close> by (simp add: sizes_ok_def)
    moreover have "numEntries t + 1 < 3 * 4 ^ (k + 2)"
    proof -
      define p :: int where "p = 4 ^ k"
      have "1 \<le> p" "numEntries t < 12 * p" using n1(3) by (simp_all add: p_def)
      then have "numEntries t + 1 < 48 * p" by linarith
      then show ?thesis by (simp add: p_def)
    qed
    ultimately show ?thesis using n' by auto
  next
    case False
    then show ?thesis using sz ch t' by auto
  qed
  moreover have "he_key (f x) = he_key x" "he_addr (f x) = he_addr x" for x using f(2,3) by (metis comp_apply)+
  ultimately show "table_ok t'"
    unfolding table_ok_def using e hs f(2,3) n' by simp
qed

text \<open>What the table says of a key: the address of its entry and the client's data.\<close>

definition table_map :: "'v hash_table \<Rightarrow> hash_key \<Rightarrow> (int \<times> 'v option) option" where
  "table_map t key = map_option (\<lambda>h. (he_addr h, he_data h)) (find (\<lambda>h. he_key h = key) (table_entries t))"

lemma table_map_items:
  assumes "table_ok t" shows "table_map t key = Some (a, d) \<longleftrightarrow> (key, a, d) \<in> table_items t"
proof
  assume "table_map t key = Some (a, d)"
  then obtain h where "find (\<lambda>h. he_key h = key) (table_entries t) = Some h" "he_addr h = a" "he_data h = d"
    by (auto simp: table_map_def)
  then have "h \<in> set (table_entries t)" "item h = (key, a, d)" by (auto simp: find_Some_iff item_def)
  then show "(key, a, d) \<in> table_items t" by (force simp: table_items_def)
next
  assume "(key, a, d) \<in> table_items t"
  then obtain h where h: "h \<in> set (table_entries t)" "he_key h = key" "he_addr h = a" "he_data h = d"
    by (auto simp: table_items_def item_def)
  have "distinct (map he_key (table_entries t))" using assms by (simp add: table_ok_def)
  then show "table_map t key = Some (a, d)" using find_unique [OF _ h(1,2)] h(3,4) by (simp add: table_map_def)
qed

lemma table_map_eqI:
  assumes "table_ok t" "table_ok t'" "\<And>key a d. (key, a, d) \<in> table_items t' \<longleftrightarrow> m key = Some (a, d)"
  shows "table_map t' = m"
proof (rule ext)
  fix key
  have "table_map t' key = Some x \<longleftrightarrow> m key = Some x" for x
    using table_map_items [OF assms(2)] assms(3) by (cases x) simp
  then show "table_map t' key = m key" by (metis option.exhaust)
qed

lemma create_entry:
  assumes "table_ok t" "key_fits t key" "a \<notin> he_addr ` set (table_entries t)" "numEntries t + 1 < 805306368"
  shows "case table_map t key of
      Some (b, d) \<Rightarrow> Tcl_CreateHashEntry t a key = Done (t, b, 0)
    | None \<Rightarrow> \<exists>t'. Tcl_CreateHashEntry t a key = Done (t', a, 1) \<and> table_ok t' \<and> table_map t' = (table_map t)(key \<mapsto> (a, None))
        \<and> procs t' = procs t \<and> keyType t' = keyType t \<and> numEntries t' = numEntries t + 1"
proof -
  let ?find = "find (\<lambda>h. he_key h = key) (table_entries t)"
  let ?t' = "add_entry t a (key_index t key) key"
  have "Tcl_CreateHashEntry t a key = Done (create_or_found t a (key_index t key) key ?find)"
    using find_entry [OF assms(1,2)] fits_procs [OF assms(2)]
    by (cases key) (simp_all add: Tcl_FindHashEntry_def Tcl_CreateHashEntry_def Tcl_StringCreate_def Tcl_OneWordCreate_def
        Tcl_ArrayCreate_def key_index_def)
  moreover have "table_ok ?t' \<and> table_map ?t' = (table_map t)(key \<mapsto> (a, None)) \<and> procs ?t' = procs t \<and> keyType ?t' = keyType t
      \<and> numEntries ?t' = numEntries t + 1" if "?find = None"
  proof -
    have "key \<notin> he_key ` set (table_entries t)" using that by (auto simp: find_None_iff)
    note e = add_entry_facts [OF assms(1,2) this assms(3,4)]
    have "table_map ?t' = (table_map t)(key \<mapsto> (a, None))"
    proof (rule table_map_eqI [OF assms(1) e(1)])
      fix k2 b d
      have "table_map t key = None" using that by (simp add: table_map_def)
      then show "(k2, b, d) \<in> table_items ?t' \<longleftrightarrow> ((table_map t)(key \<mapsto> (a, None))) k2 = Some (b, d)"
        unfolding e(2) by (auto simp: table_map_items [OF assms(1), symmetric])
    qed
    with e show ?thesis by simp
  qed
  ultimately show ?thesis
    by (cases ?find) (simp_all add: table_map_def create_or_found_def)
qed

lemma items_unique:
  assumes "table_ok t" "(k, a, d) \<in> table_items t" "(k', a', d') \<in> table_items t"
  shows "a = a' \<longleftrightarrow> k = k'"
proof -
  obtain g h where g: "g \<in> set (table_entries t)" "he_key g = k" "he_addr g = a"
    and h: "h \<in> set (table_entries t)" "he_key h = k'" "he_addr h = a'"
    using assms(2,3) by (auto simp: table_items_def item_def)
  have "inj_on he_key (set (table_entries t))" "inj_on he_addr (set (table_entries t))"
    using assms(1) by (simp_all add: table_ok_def distinct_map)
  then show ?thesis using g h by (metis inj_onD)
qed

text \<open>Setting the data of an entry and deleting an entry.\<close>

lemma set_entry:
  assumes "table_ok t" "table_map t key = Some (a, d)"
  shows "table_ok (Tcl_SetHashValue t a v) \<and> table_map (Tcl_SetHashValue t a v) = (table_map t)(key \<mapsto> (a, Some v))"
proof -
  let ?t = "Tcl_SetHashValue t a v"
  let ?f = "\<lambda>h :: 'a hash_entry. if he_addr h = a then h\<lparr>he_data := Some v\<rparr> else h"
  have ent: "table_entries ?t = map ?f (table_entries t)"
    by (simp add: table_entries_def Tcl_SetHashValue_def map_concat)
  have keys: "map he_key (table_entries ?t) = map he_key (table_entries t)" "map he_addr (table_entries ?t) = map he_addr (table_entries t)"
    unfolding ent by simp_all
  have idx: "key_index ?t = key_index t" "key_fits ?t = key_fits t"
    by (intro ext key_index_cong key_fits_cong; simp add: Tcl_SetHashValue_def)+
  have "chains_ok ?t" using assms(1) unfolding chains_ok_def idx
    by (auto simp: Tcl_SetHashValue_def table_ok_def chains_ok_def)
  moreover have "sizes_ok k ?t \<longleftrightarrow> sizes_ok k t" for k by (simp add: sizes_ok_def Tcl_SetHashValue_def)
  moreover have "numEntries ?t = numEntries t" "rebuildSize ?t = rebuildSize t" by (simp_all add: Tcl_SetHashValue_def)
  ultimately have ok: "table_ok ?t" using assms(1) keys unfolding table_ok_def by (metis length_map)
  have "table_map ?t = (table_map t)(key \<mapsto> (a, Some v))"
  proof (rule table_map_eqI [OF assms(1) ok])
    fix k2 b d2
    have "item (?f h) = (\<lambda>(k, b, d). (k, b, if b = a then Some v else d)) (item h)" for h by (simp add: item_def)
    then have "table_items ?t = (\<lambda>(k, b, d). (k, b, if b = a then Some v else d)) ` table_items t"
      unfolding table_items_def ent set_map image_image by (intro image_cong refl)
    then have "(k2, b, d2) \<in> table_items ?t \<longleftrightarrow> (\<exists>d. (k2, b, d) \<in> table_items t \<and> d2 = (if b = a then Some v else d))"
      by (auto simp: image_iff split_beta intro: bexI [rotated] split: if_splits)
    also have "\<dots> \<longleftrightarrow> (if k2 = key then (b, d2) = (a, Some v) else (k2, b, d2) \<in> table_items t)"
      using items_unique [OF assms(1), of key a d k2 b] assms(2) by (auto simp: table_map_items [OF assms(1)])
    finally show "(k2, b, d2) \<in> table_items ?t \<longleftrightarrow> ((table_map t)(key \<mapsto> (a, Some v))) k2 = Some (b, d2)"
      using table_map_items [OF assms(1)] by auto
  qed
  with ok show ?thesis by simp
qed

lemma unlink_entry_facts:
  assumes "h \<in> set hs" "distinct (map he_addr hs)"
  shows "\<exists>r. unlink_entry (he_addr h) hs = Done r \<and> mset hs = add_mset h (mset r)"
  using assms
proof (induction hs)
  case (Cons g hs)
  show ?case
  proof (cases "he_addr g = he_addr h")
    case True
    then have "g = h" using Cons.prems by auto
    then show ?thesis by simp
  next
    case False
    then show ?thesis using Cons by auto
  qed
qed simp

lemma delete_entry:
  assumes ok: "table_ok t" and h: "h \<in> set (table_entries t)"
  shows "\<exists>t'. Tcl_DeleteHashEntry t h = Done t' \<and> table_ok t' \<and> table_map t' = (table_map t)(he_key h := None)
    \<and> numEntries t' = numEntries t - 1 \<and> procs t' = procs t \<and> keyType t' = keyType t"
proof -
  obtain i where i: "i < length (buckets t)" "h \<in> set (buckets t ! i)" using h entry_bucket by blast
  have b: "he_bucket h = i" using ok i by (simp add: table_ok_def chains_ok_def)
  have "distinct (map he_addr (buckets t ! i))"
    using ok i(1) unfolding table_ok_def table_entries_def
    by (metis distinct_concat_iff map_concat nth_map nth_mem length_map)
  then obtain r where r: "unlink_entry (he_addr h) (buckets t ! i) = Done r" "mset (buckets t ! i) = add_mset h (mset r)"
    using unlink_entry_facts [OF i(2)] by blast
  let ?t = "t\<lparr>buckets := (buckets t)[i := r], numEntries := numEntries t - 1\<rparr>"
  have run: "Tcl_DeleteHashEntry t h = Done ?t" by (simp add: Tcl_DeleteHashEntry_def b r(1))
  have ms: "mset (h # table_entries ?t) = mset (table_entries t)"
    using mset_update_chain [OF i(1), of r] r(2) by (simp add: table_entries_def)
  note e = same_entries [OF ms [symmetric]]
  have sub: "set r \<subseteq> set (buckets t ! i)" using r(2) by (metis set_mset_mset set_mset_add_mset_insert subset_insertI)
  have idx: "key_index ?t = key_index t" "key_fits ?t = key_fits t" by (intro ext key_index_cong key_fits_cong; simp)+
  have "chains_ok ?t" using ok sub i(1) unfolding chains_ok_def idx
    by (auto simp: nth_list_update table_ok_def chains_ok_def)
  moreover have "sizes_ok k ?t \<longleftrightarrow> sizes_ok k t" for k by (simp add: sizes_ok_def)
  moreover have "distinct (map he_key (table_entries ?t))" "distinct (map he_addr (table_entries ?t))"
    "numEntries ?t = int (length (table_entries ?t))" "numEntries ?t < rebuildSize ?t"
    using ok e(1-3) by (simp_all add: table_ok_def)
  ultimately have ok': "table_ok ?t" using ok unfolding table_ok_def by blast
  have "table_map ?t = (table_map t)(he_key h := None)"
  proof (rule table_map_eqI [OF ok ok'])
    fix k2 b2 d2
    have "distinct (map he_key (table_entries t))" using ok by (simp add: table_ok_def)
    then have "he_key h \<notin> he_key ` set (table_entries ?t)" using e(2) by simp
    then have "(k2, b2, d2) \<in> table_items ?t \<longleftrightarrow> (k2, b2, d2) \<in> table_items t \<and> k2 \<noteq> he_key h"
      unfolding e(4) by (auto simp: table_items_def item_def rev_image_eqI)
    then show "(k2, b2, d2) \<in> table_items ?t \<longleftrightarrow> ((table_map t)(he_key h := None)) k2 = Some (b2, d2)"
      by (simp add: table_map_items [OF ok, symmetric])
  qed
  with run ok' show ?thesis by simp
qed

section \<open>Enumeration\<close>

definition unseen :: "'v hash_table \<Rightarrow> 'v hash_search \<Rightarrow> 'v hash_entry list" where
  "unseen t s = nextEntryPtr s @ concat (drop (nextIndex s) (buckets t))"

lemma next_entry_unseen:
  assumes "numBuckets t = int (length (buckets t))"
  shows "case unseen t s of [] \<Rightarrow> fst (Tcl_NextHashEntry t s) = None
    | h # rest \<Rightarrow> \<exists>s'. Tcl_NextHashEntry t s = (Some h, s') \<and> unseen t s' = rest"
  using assms
proof (induction t s rule: Tcl_NextHashEntry.induct)
  case (1 t s)
  show ?case
  proof (cases "nextEntryPtr s")
    case (Cons h rest)
    then show ?thesis by (simp add: unseen_def Tcl_NextHashEntry.simps [of t s])
  next
    case Nil
    show ?thesis
    proof (cases "int (nextIndex s) \<ge> numBuckets t")
      case True
      then show ?thesis using Nil 1(2) by (simp add: unseen_def Tcl_NextHashEntry.simps [of t s])
    next
      case False
      let ?s = "s\<lparr>nextEntryPtr := buckets t ! nextIndex s, nextIndex := nextIndex s + 1\<rparr>"
      have "nextIndex s < length (buckets t)" using False 1(2) by simp
      then have "unseen t ?s = unseen t s" using Nil by (simp add: unseen_def Cons_nth_drop_Suc [symmetric])
      moreover have "Tcl_NextHashEntry t s = Tcl_NextHashEntry t ?s"
        using Nil False by (subst Tcl_NextHashEntry.simps) simp
      ultimately show ?thesis using 1(1) [OF Nil False 1(2)] by (simp only:)
    qed
  qed
qed

lemma enumerate_unseen:
  assumes "numBuckets t = int (length (buckets t))" shows "enumerate t s = unseen t s"
  using assms
proof (induction t s rule: enumerate.induct)
  case (1 t s)
  show ?case
  proof (cases "unseen t s")
    case Nil
    then show ?thesis using next_entry_unseen [OF 1(2), of s]
      by (cases "Tcl_NextHashEntry t s") (auto simp: enumerate.simps [of t s])
  next
    case (Cons h rest)
    then obtain s' where "Tcl_NextHashEntry t s = (Some h, s')" "unseen t s' = rest"
      using next_entry_unseen [OF 1(2), of s] by auto
    then show ?thesis using 1 Cons by (simp add: enumerate.simps [of t s])
  qed
qed

lemma hash_entries_table:
  assumes "table_ok t" shows "hash_entries t = table_entries t"
proof -
  have "numBuckets t = int (length (buckets t))" using assms by (auto simp: table_ok_def sizes_ok_def)
  from enumerate_unseen [OF this] show ?thesis
    unfolding hash_entries_def Tcl_FirstHashEntry_def table_entries_def
    by (subst (asm) enumerate.simps) (simp add: unseen_def enumerate.simps)
qed

section \<open>The interface of the clients\<close>

text \<open>
  What a client of a table relies on: \<open>content\<close> says which keys the table has, with the address
  of the entry and its data, \<open>live\<close> which addresses are in use and \<open>room\<close> that one more
  entry can be made.
\<close>

locale keyed_table =
  fixes ok :: "'t \<Rightarrow> bool" and fits :: "'t \<Rightarrow> 'k \<Rightarrow> bool" and content :: "'t \<Rightarrow> 'k \<Rightarrow> (int \<times> 'v option) option"
    and live :: "'t \<Rightarrow> int set" and room :: "'t \<Rightarrow> bool"
    and find_op :: "'t \<Rightarrow> 'k \<Rightarrow> 'h option run" and create_op :: "'t \<Rightarrow> int \<Rightarrow> 'k \<Rightarrow> ('t \<times> int \<times> int) run"
    and set_op :: "'t \<Rightarrow> int \<Rightarrow> 'v \<Rightarrow> 't" and delete_op :: "'t \<Rightarrow> 'h \<Rightarrow> 't run"
    and addr :: "'h \<Rightarrow> int" and data :: "'h \<Rightarrow> 'v option"
  assumes find_none: "ok t \<Longrightarrow> fits t k \<Longrightarrow> content t k = None \<Longrightarrow> find_op t k = Done None"
    and find_some: "ok t \<Longrightarrow> fits t k \<Longrightarrow> content t k = Some (a, d) \<Longrightarrow>
      \<exists>h. find_op t k = Done (Some h) \<and> addr h = a \<and> data h = d
        \<and> (\<exists>t'. delete_op t h = Done t' \<and> ok t' \<and> content t' = (content t)(k := None) \<and> fits t' = fits t)"
    and create_new: "ok t \<Longrightarrow> fits t k \<Longrightarrow> content t k = None \<Longrightarrow> a \<notin> live t \<Longrightarrow> room t \<Longrightarrow>
      \<exists>t'. create_op t a k = Done (t', a, 1) \<and> ok t' \<and> content t' = (content t)(k \<mapsto> (a, None)) \<and> fits t' = fits t"
    and create_old: "ok t \<Longrightarrow> fits t k \<Longrightarrow> content t k = Some (b, d) \<Longrightarrow> a \<notin> live t \<Longrightarrow> room t \<Longrightarrow> create_op t a k = Done (t, b, 0)"
    and set_law: "ok t \<Longrightarrow> content t k = Some (b, d) \<Longrightarrow>
      ok (set_op t b v) \<and> content (set_op t b v) = (content t)(k \<mapsto> (b, Some v)) \<and> fits (set_op t b v) = fits t"
begin

lemma put_content:
  assumes "ok t" "fits t k" "a \<notin> live t" "room t"
  shows "\<exists>t' b. run_bind (create_op t a k) (\<lambda>(t1, b, new). Done (set_op t1 b v)) = Done t'
    \<and> ok t' \<and> content t' = (content t)(k \<mapsto> (b, Some v)) \<and> fits t' = fits t \<and> (b = a \<or> (\<exists>d. content t k = Some (b, d)))"
proof (cases "content t k")
  case None
  then obtain t1 where t1: "create_op t a k = Done (t1, a, 1)" "ok t1" "content t1 = (content t)(k \<mapsto> (a, None))" "fits t1 = fits t"
    using create_new [OF assms(1,2) _ assms(3,4)] by blast
  then show ?thesis using set_law [OF t1(2), of k a None v] by auto
next
  case (Some p)
  obtain b d where p: "p = (b, d)" by force
  show ?thesis
    using create_old [OF assms(1,2) Some [unfolded p] assms(3,4)] set_law [OF assms(1) Some [unfolded p], of v] Some [unfolded p]
    by (intro exI [of _ "set_op t b v"] exI [of _ b]) simp
qed

lemma remove_content:
  assumes "ok t" "fits t k"
  shows "\<exists>t'. run_bind (find_op t k) (\<lambda>r. case r of None \<Rightarrow> Done t | Some h \<Rightarrow> delete_op t h) = Done t'
    \<and> ok t' \<and> content t' = (content t)(k := None) \<and> fits t' = fits t"
proof (cases "content t k")
  case None
  then show ?thesis using find_none [OF assms] assms(1) by (auto simp: fun_upd_idem)
next
  case (Some p)
  then show ?thesis using find_some [OF assms, of "fst p" "snd p"] by auto
qed

end

definition table_room :: "'v hash_table \<Rightarrow> bool" where
  "table_room t \<longleftrightarrow> numEntries t + 1 < 805306368"

definition table_live :: "'v hash_table \<Rightarrow> int set" where
  "table_live t = he_addr ` set (table_entries t)"

lemma fits_same: "procs t' = procs t \<Longrightarrow> keyType t' = keyType t \<Longrightarrow> key_fits t' = key_fits t"
  by (intro ext key_fits_cong)

interpretation tcl: keyed_table table_ok key_fits table_map table_live table_room
  Tcl_FindHashEntry Tcl_CreateHashEntry Tcl_SetHashValue Tcl_DeleteHashEntry he_addr he_data
proof unfold_locales
  fix t :: "'v hash_table" and k a b d v
  assume ok: "table_ok t"
  show "Tcl_FindHashEntry t k = Done None" if "key_fits t k" "table_map t k = None"
    using find_entry [OF ok that(1)] that(2) by (simp add: table_map_def)
  show "\<exists>h. Tcl_FindHashEntry t k = Done (Some h) \<and> he_addr h = a \<and> he_data h = d
      \<and> (\<exists>t'. Tcl_DeleteHashEntry t h = Done t' \<and> table_ok t' \<and> table_map t' = (table_map t)(k := None) \<and> key_fits t' = key_fits t)"
    if f: "key_fits t k" and s: "table_map t k = Some (a, d)"
  proof -
    obtain h where h: "find (\<lambda>h. he_key h = k) (table_entries t) = Some h" "he_addr h = a" "he_data h = d"
      using s by (auto simp: table_map_def)
    then have "h \<in> set (table_entries t)" "he_key h = k" by (auto simp: find_Some_iff)
    then obtain t' where t': "Tcl_DeleteHashEntry t h = Done t'" "table_ok t'" "table_map t' = (table_map t)(k := None)"
        "procs t' = procs t" "keyType t' = keyType t"
      using delete_entry [OF ok, of h] by auto
    have "key_fits t' = key_fits t" by (rule fits_same) (rule t')+
    then show ?thesis using t' find_entry [OF ok f] h by auto
  qed
  show "\<exists>t'. Tcl_CreateHashEntry t a k = Done (t', a, 1) \<and> table_ok t' \<and> table_map t' = (table_map t)(k \<mapsto> (a, None)) \<and> key_fits t' = key_fits t"
    if new: "key_fits t k" "table_map t k = None" "a \<notin> table_live t" "table_room t"
  proof -
    obtain t' where t': "Tcl_CreateHashEntry t a k = Done (t', a, 1)" "table_ok t'" "table_map t' = (table_map t)(k \<mapsto> (a, None))"
        "procs t' = procs t" "keyType t' = keyType t"
      using create_entry [OF ok new(1), of a] new by (auto simp: table_live_def table_room_def)
    have "key_fits t' = key_fits t" by (rule fits_same) (rule t')+
    then show ?thesis using t' by auto
  qed
  show "Tcl_CreateHashEntry t a k = Done (t, b, 0)"
    if "key_fits t k" "table_map t k = Some (b, d)" "a \<notin> table_live t" "table_room t"
    using create_entry [OF ok that(1), of a] that by (simp add: table_live_def table_room_def)
  show "table_ok (Tcl_SetHashValue t b v) \<and> table_map (Tcl_SetHashValue t b v) = (table_map t)(k \<mapsto> (b, Some v))
      \<and> key_fits (Tcl_SetHashValue t b v) = key_fits t"
    if "table_map t k = Some (b, d)"
    using set_entry [OF ok that, of v] fits_same [of "Tcl_SetHashValue t b v" t] by (simp add: Tcl_SetHashValue_def)
qed

section \<open>Sequences of operations\<close>

text \<open>What the clients do: create an entry and set its data, or find an entry and delete it.\<close>

datatype 'v table_op = Put hash_key int 'v | Remove hash_key

definition apply_op :: "'v hash_table \<Rightarrow> 'v table_op \<Rightarrow> 'v hash_table run" where
  "apply_op t op = (case op of
       Put k a v \<Rightarrow> run_bind (Tcl_CreateHashEntry t a k) (\<lambda>(t1, b, new). Done (Tcl_SetHashValue t1 b v))
     | Remove k \<Rightarrow> run_bind (Tcl_FindHashEntry t k) (\<lambda>r. case r of None \<Rightarrow> Done t | Some h \<Rightarrow> Tcl_DeleteHashEntry t h))"

fun apply_ops :: "'v hash_table \<Rightarrow> 'v table_op list \<Rightarrow> 'v hash_table run" where
  "apply_ops t [] = Done t"
| "apply_ops t (op # ops) = run_bind (apply_op t op) (\<lambda>t'. apply_ops t' ops)"

text \<open>\<open>malloc\<close> never returns the address of a live entry, and there is room for the new one.\<close>

fun allocs_fresh :: "'v hash_table \<Rightarrow> 'v table_op list \<Rightarrow> bool" where
  "allocs_fresh t [] = True"
| "allocs_fresh t (op # ops) \<longleftrightarrow>
     (case op of Put k a v \<Rightarrow> key_fits t k \<and> list_all (\<lambda>h. he_addr h \<noteq> a) (table_entries t) \<and> table_room t | Remove k \<Rightarrow> key_fits t k)
     \<and> (case apply_op t op of Crash \<Rightarrow> True | Done t' \<Rightarrow> allocs_fresh t' ops)"

fun map_op :: "(hash_key \<Rightarrow> 'v option) \<Rightarrow> 'v table_op \<Rightarrow> hash_key \<Rightarrow> 'v option" where
  "map_op m (Put k a v) = m(k \<mapsto> v)"
| "map_op m (Remove k) = m(k := None)"

text \<open>The client's data of a key.\<close>

definition table_data :: "'v hash_table \<Rightarrow> hash_key \<Rightarrow> 'v option" where
  "table_data t k = (case table_map t k of None \<Rightarrow> None | Some (a, d) \<Rightarrow> d)"

lemma apply_op_facts:
  assumes "table_ok t" "allocs_fresh t (op # ops)"
  shows "\<exists>t'. apply_op t op = Done t' \<and> table_ok t' \<and> key_fits t' = key_fits t \<and> table_data t' = map_op (table_data t) op
    \<and> allocs_fresh t' ops"
proof (cases op)
  case (Put k a v)
  have "key_fits t k" "a \<notin> table_live t" "table_room t"
    using assms(2) Put by (auto simp: table_live_def list_all_iff)
  from tcl.put_content [OF assms(1) this, of v] obtain t' b where t': "apply_op t op = Done t'" "table_ok t'"
    "table_map t' = (table_map t)(k \<mapsto> (b, Some v))" "key_fits t' = key_fits t" using Put by (auto simp: apply_op_def)
  then have "table_data t' = map_op (table_data t) op" using Put by (auto simp: table_data_def fun_eq_iff)
  with t' assms(2) show ?thesis by simp
next
  case (Remove k)
  have "key_fits t k" using assms(2) Remove by simp
  from tcl.remove_content [OF assms(1) this] obtain t' where t': "apply_op t op = Done t'" "table_ok t'"
    "table_map t' = (table_map t)(k := None)" "key_fits t' = key_fits t" using Remove by (auto simp: apply_op_def)
  then have "table_data t' = map_op (table_data t) op" using Remove by (auto simp: table_data_def fun_eq_iff)
  with t' assms(2) show ?thesis by simp
qed

lemma apply_ops_facts:
  assumes "table_ok t" "allocs_fresh t ops"
  shows "\<exists>t'. apply_ops t ops = Done t' \<and> table_ok t' \<and> key_fits t' = key_fits t \<and> table_data t' = foldl map_op (table_data t) ops"
  using assms
proof (induction ops arbitrary: t)
  case (Cons op ops)
  obtain t1 where t1: "apply_op t op = Done t1" "table_ok t1" "key_fits t1 = key_fits t" "table_data t1 = map_op (table_data t) op"
      "allocs_fresh t1 ops"
    using apply_op_facts [OF Cons.prems] by blast
  then show ?case using Cons.IH [of t1] by auto
qed simp

lemma init_ok:
  "table_ok (Tcl_InitHashTable kt :: 'v hash_table)" "table_data (Tcl_InitHashTable kt :: 'v hash_table) = (\<lambda>k. None)"
proof -
  have "sizes_ok 0 (Tcl_InitHashTable kt :: 'v hash_table)"
    by (simp add: sizes_ok_def Tcl_InitHashTable_def TCL_SMALL_HASH_TABLE_def REBUILD_MULTIPLIER_def)
  moreover have "table_entries (Tcl_InitHashTable kt :: 'v hash_table) = []"
    by (simp add: table_entries_def Tcl_InitHashTable_def)
  moreover have "chains_ok (Tcl_InitHashTable kt :: 'v hash_table)"
    by (auto simp: chains_ok_def Tcl_InitHashTable_def)
  moreover have "numEntries (Tcl_InitHashTable kt :: 'v hash_table) = 0" "rebuildSize (Tcl_InitHashTable kt :: 'v hash_table) = 12"
    by (simp_all add: Tcl_InitHashTable_def TCL_SMALL_HASH_TABLE_def REBUILD_MULTIPLIER_def)
  ultimately show "table_ok (Tcl_InitHashTable kt :: 'v hash_table)" "table_data (Tcl_InitHashTable kt :: 'v hash_table) = (\<lambda>k. None)"
    by (auto simp: table_ok_def table_data_def table_map_def fun_eq_iff)
qed

text \<open>
  C24: from a fresh table, any sequence of insertions and deletions through the operations of the
  library, rebuilds included, leaves a well-formed table whose lookups return exactly the
  data last stored under each key and not deleted since.
\<close>

theorem hash_table_is_map:
  assumes "allocs_fresh (Tcl_InitHashTable kt) ops"
  shows "\<exists>t. apply_ops (Tcl_InitHashTable kt) ops = Done t \<and> table_ok t
    \<and> (\<forall>k. key_fits (Tcl_InitHashTable kt :: 'v hash_table) k \<longrightarrow>
         (\<exists>r. Tcl_FindHashEntry t k = Done r \<and> Option.bind r he_data = foldl map_op (\<lambda>k. None :: 'v option) ops k))"
proof -
  let ?t0 = "Tcl_InitHashTable kt :: 'v hash_table"
  obtain t where t: "apply_ops ?t0 ops = Done t" "table_ok t" "key_fits t = key_fits ?t0" "table_data t = foldl map_op (\<lambda>k. None) ops"
    using apply_ops_facts [OF init_ok(1) assms] unfolding init_ok(2) by blast
  have "\<exists>r. Tcl_FindHashEntry t k = Done r \<and> Option.bind r he_data = table_data t k" if "key_fits t k" for k
    using find_entry [OF t(2) that] by (auto simp: table_data_def table_map_def split: option.splits)
  with t show ?thesis by metis
qed

definition sample_ops :: "int table_op list" where
  "sample_ops = [Put (StringKey ''DEFAULT_1'') 100 7, Put (StringKey ''FIRST_1'') 140 8, Put (StringKey ''DEFAULT_1'') 180 9, Remove (StringKey ''FIRST_1'')]"

lemma sample_ops_fresh: "allocs_fresh (Tcl_InitHashTable TCL_STRING_KEYS) sample_ops"
  by code_simp

theorem hash_table_is_map_witness:
  "\<exists>t. apply_ops (Tcl_InitHashTable TCL_STRING_KEYS) sample_ops = Done t
     \<and> (\<exists>r. Tcl_FindHashEntry t (StringKey ''DEFAULT_1'') = Done r \<and> Option.bind r he_data = Some 9)
     \<and> (\<exists>r. Tcl_FindHashEntry t (StringKey ''FIRST_1'') = Done r \<and> Option.bind r he_data = None)"
proof -
  have fits: "key_fits (Tcl_InitHashTable TCL_STRING_KEYS :: int hash_table) (StringKey s)" for s
    by (simp add: key_fits_def Tcl_InitHashTable_def)
  obtain t where t: "apply_ops (Tcl_InitHashTable TCL_STRING_KEYS) sample_ops = Done t"
    "\<And>k. key_fits (Tcl_InitHashTable TCL_STRING_KEYS :: int hash_table) k \<Longrightarrow>
       \<exists>r. Tcl_FindHashEntry t k = Done r \<and> Option.bind r he_data = foldl map_op (\<lambda>k. None) sample_ops k"
    using hash_table_is_map [OF sample_ops_fresh] by blast
  show ?thesis using t(1) t(2) [OF fits [of "''DEFAULT_1''"]] t(2) [OF fits [of "''FIRST_1''"]] by (simp add: sample_ops_def)
qed

text \<open>
  C25: the enumeration of a table by \<open>Tcl_FirstHashEntry\<close> and \<open>Tcl_NextHashEntry\<close> ends and visits
  every entry exactly once, as many as \<open>numEntries\<close> says.
\<close>

theorem enumeration_visits_all:
  assumes "table_ok t"
  shows "distinct (map he_key (hash_entries t)) \<and> int (length (hash_entries t)) = numEntries t
    \<and> (\<forall>k a d. table_map t k = Some (a, d) \<longleftrightarrow> (\<exists>h \<in> set (hash_entries t). he_key h = k \<and> he_addr h = a \<and> he_data h = d))"
  using assms table_map_items [OF assms] hash_entries_table [OF assms]
  by (auto simp: table_ok_def table_items_def item_def)

theorem enumeration_visits_all_witness:
  "\<exists>t. apply_ops (Tcl_InitHashTable TCL_STRING_KEYS) sample_ops = Done t \<and> int (length (hash_entries t)) = numEntries t"
proof -
  obtain t where "apply_ops (Tcl_InitHashTable TCL_STRING_KEYS) sample_ops = Done t" "table_ok t"
    using apply_ops_facts [OF init_ok(1) sample_ops_fresh] by blast
  then show ?thesis using enumeration_visits_all [of t] by blast
qed

end
