(* ===== verification/Result_Store.thy ===== *)
theory Result_Store
  imports Tcl_Hash C_String
begin

text \<open>
  The named result sets of a session, \<open>src/search/se_get_result.c\<close>: looking a name up, storing a
  set under a name, in memory and in a file, reading it back, selecting records of it, and
  deleting sets.

  Result sets are allocated, and named sets hold pointers to them, so the state has a heap from
  addresses to sets; \<open>heap_next\<close> is the address the next allocation returns. Freed addresses are
  not handed out again. A file holds the structure \<open>result_set_data\<close> and the entries written after it.
  The environment is a parameter: the user, the name that \<open>mkstemp\<close> makes in a
  directory, which may depend on the files there are, and which files can be opened for writing.
  \<open>Crash\<close> stands for an access outside the memory of an object: freed
  sets, arrays that are read or written beyond their end, and sizes computed from a negative number
  of hits. The array of a set holds as many entries as were allocated, of which the structure has
  the first; the sizes in bytes are not bounded.
\<close>

unbundle bit_operations_syntax

section \<open>The state\<close>

definition REPLACE_RESULT_SETS :: int where "REPLACE_RESULT_SETS = 1"
definition DONT_SAVE_RESULT_SETS :: int where "DONT_SAVE_RESULT_SETS = 4"
definition SUCCEED :: int where "SUCCEED = 1"
definition FAIL :: int where "FAIL = 0"

record result_set_data =
  rs_filename :: string
  search_file_name :: string
  rs_userid :: int
  really_stored :: int
  result_ptr :: int
  rs_result :: weighted_result

datatype stored_file = Empty_File | Saved result_set_data "weighted_entry list"

record store =
  result_set_hash_tab :: "result_set_data hash_table option"
  heap :: "int \<Rightarrow> weighted_result option"
  heap_next :: int
  files :: "string \<Rightarrow> stored_file option"
  diags :: "int list"

record environment =
  current_user_id :: int
  mkstemp_name :: "(string \<Rightarrow> stored_file option) \<Rightarrow> string \<Rightarrow> string"
  fopen_ok :: "string \<Rightarrow> bool"

definition diagnostic_set :: "int \<Rightarrow> store \<Rightarrow> store" where
  "diagnostic_set n st = st\<lparr>diags := n # diags st\<rparr>"

text \<open>An assignment of the structure takes the first entry only.\<close>

definition shallow :: "weighted_result \<Rightarrow> weighted_result" where
  "shallow s = s\<lparr>entries := take 1 (entries s)\<rparr>"

definition alloc_set :: "weighted_result \<Rightarrow> store \<Rightarrow> store \<times> int" where
  "alloc_set s st = (st\<lparr>heap := (heap st)(heap_next st \<mapsto> s), heap_next := heap_next st + 1\<rparr>, heap_next st)"

text \<open>\<open>FREE\<close> of a set.\<close>

definition free_set :: "int \<Rightarrow> store \<Rightarrow> store run" where
  "free_set p st = run_bind (deref (heap st p)) (\<lambda>_. Done (st\<lparr>heap := (heap st)(p := None)\<rparr>))"

section \<open>Looking a name up\<close>

definition set_delim :: "char \<Rightarrow> bool" where
  "set_delim c \<longleftrightarrow> c = CHR '':'' \<or> c = CHR '',''"

text \<open>The hashed name, built in an array of 100 characters.\<close>

definition hashed_name :: "environment \<Rightarrow> string \<Rightarrow> string run" where
  "hashed_name env name =
     (let s = name @ CHR ''_'' # print_int (current_user_id env)
      in if length s \<ge> 100 then Crash else Done (str_upper s))"

definition init_table :: "store \<Rightarrow> store" where
  "init_table st = (case result_set_hash_tab st of
       Some t \<Rightarrow> st | None \<Rightarrow> st\<lparr>result_set_hash_tab := Some (Tcl_InitHashTable TCL_STRING_KEYS)\<rparr>)"

text \<open>
  The state, the entry, the record numbers that follow the name, and the string as \<open>strtok_r\<close>
  leaves it.
\<close>

definition se_check_result_set ::
    "environment \<Rightarrow> store \<Rightarrow> string option \<Rightarrow> (store \<times> result_set_data hash_entry option \<times> string option \<times> string) run" where
  "se_check_result_set env st sid =
     (case sid of
        None \<Rightarrow> Done (st, None, None, [])
      | Some s \<Rightarrow>
          let st1 = init_table st
          in if s = [] then Done (st1, None, None, s)
             else
               let (setname, rest, left) = strtok_first set_delim s;
                   recnos = (if rest = [] then None else Some rest)
               in case setname of
                    None \<Rightarrow> Done (diagnostic_set 128 st1, None, recnos, left)
                  | Some name \<Rightarrow>
                      run_bind (hashed_name env name) (\<lambda>key.
                      run_bind (deref (result_set_hash_tab st1)) (\<lambda>t.
                      run_bind (Tcl_FindHashEntry t (StringKey key)) (\<lambda>entry.
                        Done (if entry = None then diagnostic_set 30 st1 else st1, entry, recnos, left)))))"

definition default_name :: "string \<Rightarrow> string" where
  "default_name sid = (if sid = [] then ''default'' else sid)"

text \<open>The data of an entry that was found.\<close>

definition entry_data :: "result_set_data hash_entry \<Rightarrow> result_set_data run" where
  "entry_data h = deref (he_data h)"

definition set_entry_data :: "result_set_data hash_entry \<Rightarrow> result_set_data \<Rightarrow> store \<Rightarrow> store" where
  "set_entry_data h rs st =
     st\<lparr>result_set_hash_tab := map_option (\<lambda>t. Tcl_SetHashValue t (he_addr h) rs) (result_set_hash_tab st)\<rparr>"

section \<open>Selecting records\<close>

text \<open>
  One number or range of the list; \<open>None\<close> is an error. The array of positions has
  as many places as the set has hits.
\<close>

definition subset_token :: "int \<Rightarrow> string \<Rightarrow> int list option" where
  "subset_token n tok =
     (if CHR ''-'' \<notin> set tok then Some [atoi tok - 1]
      else case scan_range tok of
          None \<Rightarrow> None
        | Some (a, b) \<Rightarrow>
            if a > n then None
            else let b1 = (if b > n then n else b); b2 = (if b1 < a then a else b1) in Some [a - 1..b2 - 1])"

fun subset_loop :: "int \<Rightarrow> string list \<Rightarrow> bool \<Rightarrow> int list \<Rightarrow> string list \<Rightarrow> (int list \<times> bool \<times> string list) option run" where
  "subset_loop n [] keys recs regex = Done (Some (recs, keys, regex))"
| "subset_loop n (tok # toks) keys recs regex =
     (if keys
      then if length regex > 30 then Done (Some (recs, keys, regex))
           else if length regex = 30 then Crash
           else subset_loop n toks keys recs (regex @ [tok])
      else if CHR ''-'' \<notin> set tok \<and> strcaseeq tok ''FIND'' then subset_loop n toks True recs regex
      else case subset_token n tok of
          None \<Rightarrow> Done None
        | Some rs \<Rightarrow> if int (length (recs @ rs)) > n then Crash else subset_loop n toks keys (recs @ rs) regex)"

text \<open>The entries at the positions, without \<open>xtra\<close>; the first is copied with the structure.\<close>

definition pick :: "weighted_result \<Rightarrow> int \<Rightarrow> weighted_entry option" where
  "pick s i = (if 0 \<le> i \<and> i < num_hits s then Some (entries s ! nat i) else None)"

fun pick_all :: "weighted_result \<Rightarrow> int list \<Rightarrow> weighted_entry list option" where
  "pick_all s [] = Some []"
| "pick_all s (i # ixs) = (case pick s i of None \<Rightarrow> None
     | Some e \<Rightarrow> map_option (\<lambda>es. new_entry (record_num e) (weight e) # es) (pick_all s ixs))"

definition keep_first_xtra :: "weighted_result \<Rightarrow> weighted_entry list \<Rightarrow> weighted_entry list" where
  "keep_first_xtra s es = (case (es, entries s) of (e # r, f # _) \<Rightarrow> e\<lparr>xtra := xtra f\<rparr> # r | _ \<Rightarrow> es)"

text \<open>The diagnostics set and the set, \<open>None\<close> being the null pointer; \<open>scan\<close> is \<open>se_regex_scan\<close>.\<close>

definition se_get_result_subset ::
    "(weighted_result \<Rightarrow> string list \<Rightarrow> weighted_result option) \<Rightarrow> weighted_result \<Rightarrow> string
     \<Rightarrow> (int list \<times> weighted_result option) run" where
  "se_get_result_subset scan in_res recnos =
     run_bind (subset_loop (num_hits in_res) (strtok_all (\<lambda>c. c = CHR '','') recnos) False [] []) (\<lambda>r.
       case r of
         None \<Rightarrow> Done ([100], None)
       | Some (recs, keys, regex) \<Rightarrow>
           (case pick_all in_res recs of
              None \<Rightarrow> Done ([100], None)
            | Some es \<Rightarrow>
                let wt_res = in_res\<lparr>num_hits := int (length recs), setid := (if keys then setid in_res @ ''_kwscan'' else []),
                      entries := (if recs = [] then take 1 (entries in_res) else keep_first_xtra in_res es)\<rparr>
                in Done ([], if keys \<and> regex \<noteq> [] then scan wt_res regex else Some wt_res)))"

section \<open>Fetching a set\<close>

definition give_set :: "(weighted_result \<Rightarrow> string list \<Rightarrow> weighted_result option) \<Rightarrow> store \<Rightarrow> int \<Rightarrow> string option
    \<Rightarrow> (store \<times> int) run" where
  "give_set scan st p recnos = (case recnos of
       None \<Rightarrow> Done (st, p)
     | Some nos \<Rightarrow> run_bind (deref (heap st p)) (\<lambda>s. run_bind (se_get_result_subset scan s nos) (\<lambda>(ds, r).
         let st1 = st\<lparr>diags := ds @ diags st\<rparr> in Done (case r of None \<Rightarrow> (st1, 0) | Some w \<Rightarrow> alloc_set w st1))))"

text \<open>What is in memory after reading the file over the structure.\<close>

definition read_file :: "result_set_data \<Rightarrow> stored_file \<Rightarrow> result_set_data \<times> weighted_entry list" where
  "read_file rs f = (case f of Empty_File \<Rightarrow> (rs, []) | Saved rs1 tail \<Rightarrow> (rs1, tail))"

text \<open>The set allocated for the hits and read from the rest of the file.\<close>

definition loaded_set :: "result_set_data \<Rightarrow> weighted_entry list \<Rightarrow> weighted_result run" where
  "loaded_set rs tail =
     (if num_hits (rs_result rs) < 0 then Crash
      else let n = nat (num_hits (rs_result rs))
           in Done ((rs_result rs)\<lparr>entries := take 1 (entries (rs_result rs)) @ take n tail @ replicate (n - length tail) (new_entry 0 (Fin 0))\<rparr>))"

text \<open>The state and the pointer returned, 0 for \<open>NULL\<close>.\<close>

definition se_get_result_set :: "(weighted_result \<Rightarrow> string list \<Rightarrow> weighted_result option) \<Rightarrow> environment \<Rightarrow> store \<Rightarrow> string
    \<Rightarrow> (store \<times> int) run" where
  "se_get_result_set scan env st sid =
     run_bind (se_check_result_set env st (Some (default_name sid))) (\<lambda>(st1, entry, recnos, left).
       case entry of
         None \<Rightarrow> Done (st1, 0)
       | Some h \<Rightarrow> run_bind (entry_data h) (\<lambda>rs.
           if result_ptr rs \<noteq> 0 then give_set scan st1 (result_ptr rs) recnos
           else case files st1 (rs_filename rs) of
               None \<Rightarrow> Done (diagnostic_set 27 st1, 0)
             | Some f \<Rightarrow>
                 let (rs1, tail) = read_file rs f
                 in run_bind (loaded_set rs1 tail) (\<lambda>s. let (st2, p) = alloc_set s st1
                      in give_set scan (set_entry_data h (rs1\<lparr>result_ptr := p\<rparr>) st2) p recnos)))"

text \<open>
  The copy has room for one entry more than there are hits; the structure brings the first entry even if
  there are none.
\<close>

definition dup_entries :: "weighted_result \<Rightarrow> weighted_entry list" where
  "dup_entries s = (if num_hits s = 0 then take 1 (entries s) else take (nat (num_hits s)) (entries s) @ [new_entry 0 (Fin 0)])"

definition se_dup_result_set :: "weighted_result \<Rightarrow> weighted_result run" where
  "se_dup_result_set s =
     (if num_hits s < 0 \<or> int (length (entries s)) < num_hits s then Crash else Done (s\<lparr>entries := dup_entries s\<rparr>))"

section \<open>Storing a set\<close>

text \<open>\<open>strncpy\<close> of at most \<open>n\<close> characters over an array that holds a string: the rest of the old string stays.\<close>

definition strncpy_over :: "nat \<Rightarrow> string \<Rightarrow> string \<Rightarrow> string" where
  "strncpy_over n old new = (if length new < n then new else take n new @ drop n old)"

text \<open>\<open>se_free_result\<close>\<close>

definition se_free_result :: "store \<Rightarrow> result_set_data \<Rightarrow> (store \<times> result_set_data) run" where
  "se_free_result st rs =
     (if result_ptr rs \<noteq> 0 then run_bind (free_set (result_ptr rs) st) (\<lambda>st1. Done (st1, rs\<lparr>result_ptr := 0\<rparr>))
      else Done (st, rs))"

definition put_table :: "string \<Rightarrow> result_set_data \<Rightarrow> store \<Rightarrow> store run" where
  "put_table key rs st =
     run_bind (deref (result_set_hash_tab st)) (\<lambda>t.
     run_bind (Tcl_CreateHashEntry t (heap_next st) (StringKey key)) (\<lambda>(t1, b, new).
       Done (st\<lparr>result_set_hash_tab := Some (Tcl_SetHashValue t1 b rs), heap_next := heap_next st + 1\<rparr>)))"

text \<open>What \<open>fwrite\<close> reads: as many entries as there are hits, from the second on.\<close>

definition saved_entries :: "weighted_result \<Rightarrow> weighted_entry list run" where
  "saved_entries s =
     (if num_hits s < 0 \<or> 0 < num_hits s \<and> int (length (entries s)) < num_hits s + 1 then Crash
      else Done (take (nat (num_hits s)) (drop 1 (entries s))))"

text \<open>
  The first branch of \<open>se_store_result_set\<close>: the name is new. \<open>really_stored\<close> is set after the
  structure has been written.
\<close>

definition store_new :: "environment \<Rightarrow> store \<Rightarrow> int \<Rightarrow> weighted_result \<Rightarrow> string \<Rightarrow> string \<Rightarrow> string \<Rightarrow> int \<Rightarrow> (store \<times> int) run" where
  "store_new env st p s left search_file save_directory flags =
     run_bind (if setid s \<noteq> [] then se_dup_result_set s else Done s) (\<lambda>s0.
      let (st1, q) = (if setid s \<noteq> [] then alloc_set s0 st else (st, p));
          name = default_name left; file = mkstemp_name env (files st) save_directory;
          s1 = s0\<lparr>setid := take 199 name\<rparr>;
          rs = \<lparr>rs_filename = file, search_file_name = take 499 search_file, rs_userid = current_user_id env,
                really_stored = 0, result_ptr = q, rs_result = shallow s1\<rparr>;
          st2 = st1\<lparr>heap := (heap st1)(q \<mapsto> s1), files := (files st1)(file \<mapsto> Empty_File)\<rparr>
      in run_bind (hashed_name env name) (\<lambda>key.
         if length file \<ge> 500 then Crash
         else if flags AND DONT_SAVE_RESULT_SETS \<noteq> DONT_SAVE_RESULT_SETS
         then if fopen_ok env file
              then run_bind (put_table key (rs\<lparr>really_stored := 1\<rparr>) st2) (\<lambda>st3. run_bind (saved_entries s1) (\<lambda>tail.
                     Done (st3\<lparr>files := (files st3)(file \<mapsto> Saved rs tail)\<rparr>, SUCCEED)))
              else run_bind (put_table key rs st2) (\<lambda>st3. Done (diagnostic_set 2 st3, FAIL))
         else run_bind (put_table key rs st2) (\<lambda>st3. Done (st3\<lparr>files := (files st3)(file := None)\<rparr>, SUCCEED))))"

text \<open>
  The second branch: the name exists. \<open>==\<close> and \<open>!=\<close> bind tighter than \<open>&\<close>, so that the first
  test is of the lowest bit and the second is always false; the code it guards would write
  entries from behind the structure.
\<close>

definition store_replace :: "environment \<Rightarrow> store \<Rightarrow> int \<Rightarrow> result_set_data hash_entry \<Rightarrow> string \<Rightarrow> string \<Rightarrow> int \<Rightarrow> (store \<times> int) run" where
  "store_replace env st p h left search_file flags =
     (if flags AND (if REPLACE_RESULT_SETS = REPLACE_RESULT_SETS then 1 else 0) \<noteq> 0
      then run_bind (entry_data h) (\<lambda>rs0.
           run_bind (se_free_result st (rs0\<lparr>search_file_name := strncpy_over 199 (search_file_name rs0) search_file\<rparr>)) (\<lambda>(st1, rs1).
           run_bind (deref (heap st1 p)) (\<lambda>s.
             let s1 = s\<lparr>setid := take 199 left\<rparr>; rs2 = rs1\<lparr>result_ptr := p, rs_result := shallow s1\<rparr>;
                 st2 = set_entry_data h rs2 (st1\<lparr>heap := (heap st1)(p \<mapsto> s1)\<rparr>)
             in if flags AND (if DONT_SAVE_RESULT_SETS \<noteq> DONT_SAVE_RESULT_SETS then 1 else 0) \<noteq> 0 then Crash
                else Done (st2, SUCCEED))))
      else Done (diagnostic_set 21 st, FAIL))"

definition se_store_result_set :: "environment \<Rightarrow> store \<Rightarrow> int \<Rightarrow> string \<Rightarrow> string \<Rightarrow> string \<Rightarrow> int \<Rightarrow> (store \<times> int) run" where
  "se_store_result_set env st p sid search_file save_directory flags =
     (if p = 0 then Done (st, FAIL)
      else run_bind (deref (heap st p)) (\<lambda>s.
        if setid s \<noteq> [] \<and> strcaseeq (setid s) sid then Done (st, SUCCEED)
        else run_bind (se_check_result_set env st (Some sid)) (\<lambda>(st1, entry, recnos, left).
          case entry of
            None \<Rightarrow> store_new env st1 p s left search_file save_directory flags
          | Some h \<Rightarrow> store_replace env st1 p h left search_file flags)))"

section \<open>Deleting and inspecting sets\<close>

definition unlink_file :: "result_set_data \<Rightarrow> store \<Rightarrow> store" where
  "unlink_file rs st = (if really_stored rs = 1 then st\<lparr>files := (files st)(rs_filename rs := None)\<rparr> else st)"

definition se_delete_result_set :: "environment \<Rightarrow> store \<Rightarrow> string \<Rightarrow> (store \<times> int) run" where
  "se_delete_result_set env st sid =
     (if result_set_hash_tab st = None then Done (st, SUCCEED)
      else run_bind (se_check_result_set env st (Some sid)) (\<lambda>(st1, entry, recnos, left).
        case entry of
          None \<Rightarrow> Done (diagnostic_set 30 st1, FAIL)
        | Some h \<Rightarrow> run_bind (entry_data h) (\<lambda>rs.
            let st2 = (if left \<noteq> ''***TMP*BITMAP*RESULTS***'' then unlink_file rs st1 else st1)
            in run_bind (se_free_result st2 rs) (\<lambda>(st3, rs1).
               run_bind (deref (result_set_hash_tab st3)) (\<lambda>t.
               run_bind (Tcl_DeleteHashEntry t h) (\<lambda>t1. Done (st3\<lparr>result_set_hash_tab := Some t1\<rparr>, SUCCEED)))))))"

fun delete_each :: "store \<Rightarrow> result_set_data hash_entry list \<Rightarrow> store run" where
  "delete_each st [] = Done st"
| "delete_each st (h # hs) =
     run_bind (entry_data h) (\<lambda>rs. run_bind (se_free_result (unlink_file rs st) rs) (\<lambda>(st1, rs1). delete_each st1 hs))"

definition se_delete_all_result_sets :: "store \<Rightarrow> (store \<times> int) run" where
  "se_delete_all_result_sets st = (case result_set_hash_tab st of
       None \<Rightarrow> Done (st, SUCCEED)
     | Some t \<Rightarrow> run_bind (delete_each st (hash_entries t)) (\<lambda>st1. Done (st1\<lparr>result_set_hash_tab := None\<rparr>, SUCCEED)))"

text \<open>
  The array for the names has no place for the null character that the last \<open>strcat\<close> writes.
\<close>

definition se_get_all_result_set_names :: "store \<Rightarrow> string run" where
  "se_get_all_result_set_names st = (case result_set_hash_tab st of
       None \<Rightarrow> Done []
     | Some t \<Rightarrow> run_bind (run_map entry_data (hash_entries t)) (\<lambda>rss.
         let size = sum_list (map (\<lambda>rs. length (setid (rs_result rs)) + 1) rss);
             name_list = concat (map (\<lambda>rs. setid (rs_result rs) @ '' '') rss)
         in if rss \<noteq> [] \<and> size < length name_list + 1 then Crash else Done name_list))"

definition se_free_result_name :: "environment \<Rightarrow> store \<Rightarrow> string \<Rightarrow> store run" where
  "se_free_result_name env st sid =
     (if result_set_hash_tab st = None then Done st
      else run_bind (se_check_result_set env st (Some sid)) (\<lambda>(st1, entry, recnos, left).
        case entry of
          None \<Rightarrow> Done st1
        | Some h \<Rightarrow> run_bind (entry_data h) (\<lambda>rs. run_bind (se_free_result st1 rs) (\<lambda>(st2, rs1). Done (set_entry_data h rs1 st2)))))"

text \<open>The three functions that read one field; \<open>field\<close> is the field and \<open>none\<close> the value for an unknown name.\<close>

definition get_field :: "(weighted_result \<Rightarrow> 'a) \<Rightarrow> 'a \<Rightarrow> environment \<Rightarrow> store \<Rightarrow> string \<Rightarrow> (store \<times> 'a) run" where
  "get_field field none env st sid =
     run_bind (se_check_result_set env st (Some (default_name sid))) (\<lambda>(st1, entry, recnos, left).
       case entry of
         None \<Rightarrow> Done (diagnostic_set 30 st1, none)
       | Some h \<Rightarrow> run_bind (entry_data h) (\<lambda>rs. Done (st1, field (rs_result rs))))"

definition se_get_result_filetag :: "environment \<Rightarrow> store \<Rightarrow> string \<Rightarrow> (store \<times> string option) run" where
  "se_get_result_filetag env st sid = get_field (\<lambda>s. Some (filename s)) None env st sid"

definition se_get_result_type :: "environment \<Rightarrow> store \<Rightarrow> string \<Rightarrow> (store \<times> int) run" where
  "se_get_result_type env st sid = get_field result_type 0 env st sid"

definition se_get_result_hits :: "environment \<Rightarrow> store \<Rightarrow> string \<Rightarrow> (store \<times> int) run" where
  "se_get_result_hits env st sid = get_field num_hits (- 1) env st sid"

definition sample_env :: environment where
  "sample_env = \<lparr>current_user_id = 1, mkstemp_name = (\<lambda>fs d. take 400 d @ (if Option.is_none (fs (take 400 d @ ''/cheshAb12cd'')) then ''/cheshAb12cd'' else ''/cheshEf34gh'')), fopen_ok = (\<lambda>f. True)\<rparr>"

definition sample_set :: "int list \<Rightarrow> weighted_result" where
  "sample_set rs = new_result\<lparr>num_hits := int (length rs), entries := map (\<lambda>r. new_entry r (Fin 1)) rs @ [new_entry 0 (Fin 0)]\<rparr>"

definition sample_store :: store where
  "sample_store = \<lparr>result_set_hash_tab = None, heap = [1 \<mapsto> sample_set [3, 5], 2 \<mapsto> sample_set [7]], heap_next = 3,
     files = (\<lambda>f. None), diags = []\<rparr>"

definition stored :: "store \<times> int \<Rightarrow> int \<Rightarrow> string \<Rightarrow> (store \<times> int) run" where
  "stored r p name = se_store_result_set sample_env (fst r) p name ''db'' ''/tmp'' REPLACE_RESULT_SETS"

definition got :: "store \<times> int \<Rightarrow> string \<Rightarrow> (store \<times> int) run" where
  "got r name = se_get_result_set (\<lambda>s rs. None) sample_env (fst r) name"

definition freed :: "store \<times> int \<Rightarrow> string \<Rightarrow> (store \<times> int) run" where
  "freed r name = run_bind (se_free_result_name sample_env (fst r) name) (\<lambda>st. Done (st, 0))"

section \<open>The invariant\<close>

definition named :: "store \<Rightarrow> string \<Rightarrow> result_set_data option" where
  "named st key = (case result_set_hash_tab st of None \<Rightarrow> None | Some t \<Rightarrow> table_data t (StringKey key))"

definition tab_ok :: "store \<Rightarrow> bool" where
  "tab_ok st = (case result_set_hash_tab st of
       None \<Rightarrow> True
     | Some t \<Rightarrow> table_ok t \<and> (\<forall>s. key_fits t (StringKey s)) \<and> (\<forall>k a d. table_map t k = Some (a, d) \<longrightarrow> a < heap_next st \<and> d \<noteq> None))"

text \<open>
  The sets that names point to are allocated, bear a name and are not shared, and so are the
  sets in the files named; a file holds a structure, with a number of hits that is not negative.
\<close>

definition file_ok :: "stored_file \<Rightarrow> bool" where
  "file_ok f = (case f of Empty_File \<Rightarrow> False | Saved rs tail \<Rightarrow> setid (rs_result rs) \<noteq> [] \<and> 0 \<le> num_hits (rs_result rs))"

definition ptr_ok :: "(string \<Rightarrow> result_set_data option) \<Rightarrow> (int \<Rightarrow> weighted_result option) \<Rightarrow> (string \<Rightarrow> stored_file option) \<Rightarrow> int \<Rightarrow> bool" where
  "ptr_ok nm hp fs nx \<longleftrightarrow> 0 < nx \<and> (\<forall>a s. hp a = Some s \<longrightarrow> 0 < a \<and> a < nx)
     \<and> (\<forall>k rs. nm k = Some rs \<longrightarrow> setid (rs_result rs) \<noteq> []
          \<and> (result_ptr rs \<noteq> 0 \<longrightarrow> (\<exists>s. hp (result_ptr rs) = Some s \<and> setid s \<noteq> [])))
     \<and> (\<forall>k k' rs rs'. nm k = Some rs \<longrightarrow> nm k' = Some rs' \<longrightarrow> result_ptr rs \<noteq> 0 \<longrightarrow> result_ptr rs = result_ptr rs' \<longrightarrow> k = k')
     \<and> (\<forall>f x. fs f = Some x \<longrightarrow> file_ok x)"

definition store_ok :: "store \<Rightarrow> bool" where
  "store_ok st \<longleftrightarrow> tab_ok st \<and> ptr_ok (named st) (heap st) (files st) (heap_next st)"

text \<open>A name without the characters that end a name.\<close>

definition plain_name :: "string \<Rightarrow> bool" where
  "plain_name name \<longleftrightarrow> name \<noteq> [] \<and> list_all (\<lambda>c. \<not> set_delim c) name"

definition name_key :: "environment \<Rightarrow> string \<Rightarrow> string" where
  "name_key env name = str_upper (name @ CHR ''_'' # print_int (current_user_id env))"

definition name_fits :: "environment \<Rightarrow> string \<Rightarrow> bool" where
  "name_fits env name \<longleftrightarrow> plain_name name \<and> length (name @ CHR ''_'' # print_int (current_user_id env)) < 100"

definition store_room :: "store \<Rightarrow> bool" where
  "store_room st = (case result_set_hash_tab st of None \<Rightarrow> True | Some t \<Rightarrow> table_room t)"

lemma strtok_plain: "plain_name name \<Longrightarrow> strtok_first set_delim name = (Some name, [], name)"
  by (cases name) (auto simp: plain_name_def strtok_first_def list_all_iff Let_def takeWhile_eq_all_conv
      dropWhile_eq_Nil_conv [THEN iffD2])

lemma hashed_name_fits: "name_fits env name \<Longrightarrow> hashed_name env name = Done (name_key env name)"
  by (simp add: name_fits_def hashed_name_def name_key_def Let_def)

lemma init_table_facts:
  assumes "tab_ok st"
  shows "tab_ok (init_table st)" "named (init_table st) = named st" "\<exists>t. result_set_hash_tab (init_table st) = Some t"
    "heap (init_table st) = heap st" "files (init_table st) = files st" "heap_next (init_table st) = heap_next st"
    "store_room st \<Longrightarrow> store_room (init_table st)" "diags (init_table st) = diags st"
proof -
  let ?t = "Tcl_InitHashTable TCL_STRING_KEYS :: result_set_data hash_table"
  have e: "table_entries ?t = []" by (simp add: table_entries_def Tcl_InitHashTable_def)
  have "table_ok ?t" by (rule init_ok)
  moreover have "key_fits ?t (StringKey s)" for s by (simp add: key_fits_def Tcl_InitHashTable_def)
  moreover have "table_map ?t k = None" for k by (simp add: table_map_def e)
  moreover have "table_data ?t = (\<lambda>k. None)" by (rule init_ok)
  moreover have "table_room ?t" by (simp add: table_room_def Tcl_InitHashTable_def)
  ultimately show "tab_ok (init_table st)" "named (init_table st) = named st" "\<exists>t. result_set_hash_tab (init_table st) = Some t"
    "heap (init_table st) = heap st" "files (init_table st) = files st" "heap_next (init_table st) = heap_next st"
    "store_room st \<Longrightarrow> store_room (init_table st)" "diags (init_table st) = diags st"
    using assms by (auto simp: init_table_def tab_ok_def named_def store_room_def fun_eq_iff split: option.splits)
qed

text \<open>What the lookup of a plain name finds.\<close>

lemma check_plain:
  assumes "tab_ok st" "name_fits env name"
  shows "\<exists>entry st1. se_check_result_set env st (Some name) = Done (st1, entry, None, name)
    \<and> st1 = (init_table st)\<lparr>diags := (if entry = None then [30] else []) @ diags st\<rparr>
    \<and> (case named st (name_key env name) of
         None \<Rightarrow> entry = None
       | Some rs \<Rightarrow> \<exists>h t. entry = Some h \<and> he_data h = Some rs \<and> result_set_hash_tab st1 = Some t
           \<and> table_map t (StringKey (name_key env name)) = Some (he_addr h, Some rs)
           \<and> (\<exists>t'. Tcl_DeleteHashEntry t h = Done t' \<and> table_ok t' \<and> table_map t' = (table_map t)(StringKey (name_key env name) := None)
                \<and> key_fits t' = key_fits t))"
proof -
  let ?k = "StringKey (name_key env name)"
  have p: "plain_name name" "name \<noteq> []" using assms(2) by (auto simp: name_fits_def plain_name_def)
  obtain t where t: "result_set_hash_tab (init_table st) = Some t" using init_table_facts(3) [OF assms(1)] by blast
  have ok: "table_ok t" "key_fits t ?k" "\<And>k a d. table_map t k = Some (a, d) \<Longrightarrow> d \<noteq> None"
    using init_table_facts(1) [OF assms(1)] t by (auto simp: tab_ok_def)
  have nm: "named st (name_key env name) = table_data t ?k"
    using init_table_facts(2) [OF assms(1)] t by (auto simp: named_def fun_eq_iff)
  have run: "se_check_result_set env st (Some name) = run_bind (Tcl_FindHashEntry t ?k) (\<lambda>entry.
      Done (if entry = None then diagnostic_set 30 (init_table st) else init_table st, entry, None, name))"
    using p t by (simp add: se_check_result_set_def strtok_plain hashed_name_fits [OF assms(2)] Let_def)
  note d = init_table_facts(8) [OF assms(1)]
  show ?thesis
  proof (cases "table_map t ?k")
    case None
    then show ?thesis using run nm tcl.find_none [OF ok(1,2) None] d
      by (simp add: table_data_def diagnostic_set_def)
  next
    case (Some q)
    obtain a rs where q: "q = (a, Some rs)" using ok(3) [of ?k "fst q" "snd q"] Some by (cases q) auto
    then show ?thesis using run nm Some tcl.find_some [OF ok(1,2), of a "Some rs"] d t
      by (auto simp: table_data_def)
  qed
qed

text \<open>The operations on the table, in terms of the names.\<close>

lemma put_table_facts:
  assumes "tab_ok st" "result_set_hash_tab st = Some t" "store_room st"
  shows "\<exists>t'. put_table key rs st = Done (st\<lparr>result_set_hash_tab := Some t', heap_next := heap_next st + 1\<rparr>)
    \<and> tab_ok (st\<lparr>result_set_hash_tab := Some t', heap_next := heap_next st + 1\<rparr>)
    \<and> named (st\<lparr>result_set_hash_tab := Some t', heap_next := heap_next st + 1\<rparr>) = (named st)(key \<mapsto> rs)"
proof -
  have ok: "table_ok t" "key_fits t (StringKey key)" "heap_next st \<notin> table_live t" "table_room t"
  proof -
    show t: "table_ok t" "key_fits t (StringKey key)" "table_room t" using assms by (auto simp: tab_ok_def store_room_def)
    show "heap_next st \<notin> table_live t"
    proof
      assume "heap_next st \<in> table_live t"
      then obtain h where "h \<in> set (table_entries t)" "he_addr h = heap_next st" by (auto simp: table_live_def)
      then have "table_map t (he_key h) = Some (heap_next st, he_data h)"
        using table_map_items [OF t(1)] by (force simp: table_items_def item_def)
      then show False using assms(1,2) unfolding tab_ok_def by force
    qed
  qed
  from tcl.put_content [OF ok, of rs] obtain t' b where t':
    "run_bind (Tcl_CreateHashEntry t (heap_next st) (StringKey key)) (\<lambda>(t1, b, new). Done (Tcl_SetHashValue t1 b rs)) = Done t'"
    "table_ok t'" "table_map t' = (table_map t)(StringKey key \<mapsto> (b, Some rs))" "key_fits t' = key_fits t"
    "b = heap_next st \<or> (\<exists>d. table_map t (StringKey key) = Some (b, d))" by blast
  have b: "b \<le> heap_next st" using t'(5) assms(1,2) by (fastforce simp: tab_ok_def)
  let ?st = "st\<lparr>result_set_hash_tab := Some t', heap_next := heap_next st + 1\<rparr>"
  have "put_table key rs st = Done ?st"
    using t'(1) assms(2) by (cases "Tcl_CreateHashEntry t (heap_next st) (StringKey key)") (auto simp: put_table_def)
  moreover have "tab_ok ?st" using t' b assms(1,2) by (fastforce simp: tab_ok_def)
  moreover have "named ?st = (named st)(key \<mapsto> rs)"
    using t'(3) assms(2) by (auto simp: named_def table_data_def fun_eq_iff)
  ultimately show ?thesis by blast
qed

lemma set_entry_data_facts:
  assumes "tab_ok st" "result_set_hash_tab st = Some t" "table_map t (StringKey key) = Some (he_addr h, d)"
  shows "tab_ok (set_entry_data h rs st)" "named (set_entry_data h rs st) = (named st)(key \<mapsto> rs)"
    "heap (set_entry_data h rs st) = heap st" "files (set_entry_data h rs st) = files st" "heap_next (set_entry_data h rs st) = heap_next st"
proof -
  have ok: "table_ok t" using assms by (simp add: tab_ok_def)
  note s = tcl.set_law [OF ok assms(3), of rs]
  have st: "result_set_hash_tab (set_entry_data h rs st) = Some (Tcl_SetHashValue t (he_addr h) rs)"
    by (simp add: set_entry_data_def assms(2))
  show "tab_ok (set_entry_data h rs st)"
    using s assms st by (auto simp: tab_ok_def set_entry_data_def)
  show "named (set_entry_data h rs st) = (named st)(key \<mapsto> rs)"
    using s assms(2) st by (auto simp: named_def table_data_def fun_eq_iff)
qed (simp_all add: set_entry_data_def)

lemma delete_table_facts:
  assumes "tab_ok st" "result_set_hash_tab st = Some t" "table_ok t'" "table_map t' = (table_map t)(StringKey key := None)" "key_fits t' = key_fits t"
  shows "tab_ok (st\<lparr>result_set_hash_tab := Some t'\<rparr>)" "named (st\<lparr>result_set_hash_tab := Some t'\<rparr>) = (named st)(key := None)"
  using assms by (auto simp: tab_ok_def named_def table_data_def fun_eq_iff)

lemma tab_ok_same:
  assumes "result_set_hash_tab st' = result_set_hash_tab st" "heap_next st \<le> heap_next st'" "tab_ok st"
  shows "tab_ok st'"
proof (cases "result_set_hash_tab st")
  case (Some t)
  then show ?thesis using assms by (fastforce simp: tab_ok_def)
qed (use assms in \<open>simp add: tab_ok_def\<close>)

lemma named_same: "result_set_hash_tab st' = result_set_hash_tab st \<Longrightarrow> named st' = named st"
  by (simp add: named_def fun_eq_iff)

section \<open>Storing a new name\<close>

lemma ptr_okD:
  assumes "ptr_ok nm hp fs nx"
  shows "0 < nx" "\<And>a s. hp a = Some s \<Longrightarrow> 0 < a \<and> a < nx"
    "\<And>k rs. nm k = Some rs \<Longrightarrow> setid (rs_result rs) \<noteq> [] \<and> (result_ptr rs \<noteq> 0 \<longrightarrow> (\<exists>s. hp (result_ptr rs) = Some s \<and> setid s \<noteq> []))"
    "\<And>k k' rs rs'. nm k = Some rs \<Longrightarrow> nm k' = Some rs' \<Longrightarrow> result_ptr rs \<noteq> 0 \<Longrightarrow> result_ptr rs = result_ptr rs' \<Longrightarrow> k = k'"
    "\<And>f x. fs f = Some x \<Longrightarrow> file_ok x"
  using assms unfolding ptr_ok_def by blast+

text \<open>A set that no name points to yet.\<close>

lemma ptr_ok_alloc:
  assumes "ptr_ok nm hp fs nx" shows "ptr_ok nm (hp(nx \<mapsto> s)) fs (nx + 1)"
proof -
  note o = ptr_okD [OF assms]
  have free: "hp nx = None" using o(2) [of nx] by (cases "hp nx") auto
  show ?thesis unfolding ptr_ok_def
  proof (intro conjI allI impI)
    show "0 < nx + 1" using o(1) by simp
    show "0 < a" "a < nx + 1" if "(hp(nx \<mapsto> s)) a = Some u" for a u using that o(1) o(2) [of a u] by (auto split: if_splits)
    show "setid (rs_result r) \<noteq> []" if "nm k = Some r" for k r using o(3) [OF that] by blast
    show "\<exists>u. (hp(nx \<mapsto> s)) (result_ptr r) = Some u \<and> setid u \<noteq> []" if "nm k = Some r" "result_ptr r \<noteq> 0" for k r
      using o(3) [OF that(1)] that(2) free by (cases "result_ptr r = nx") auto
    show "k = k'" if "nm k = Some r" "nm k' = Some r'" "result_ptr r \<noteq> 0" "result_ptr r = result_ptr r'" for k k' r r'
      using o(4) [OF that] .
    show "file_ok x" if "fs f = Some x" for f x using o(5) [OF that] .
  qed
qed

text \<open>What the pointers look like with the set \<open>s1\<close> at \<open>q\<close> under a new name.\<close>

lemma ptr_ok_new:
  assumes "ptr_ok nm hp fs nx" and "0 < q" "q < nx'" "nx \<le> nx'" and "\<And>k rs. nm k = Some rs \<Longrightarrow> result_ptr rs \<noteq> q"
    and "result_ptr rs = q" "setid (rs_result rs) \<noteq> []" "setid s1 \<noteq> []"
    and "\<And>g x. fs' g = Some x \<Longrightarrow> file_ok x \<or> fs g = Some x"
  shows "ptr_ok (nm(key \<mapsto> rs)) (hp(q \<mapsto> s1)) fs' nx'"
proof -
  note o = ptr_okD [OF assms(1)]
  show ?thesis unfolding ptr_ok_def
  proof (intro conjI allI impI)
    show "0 < nx'" using assms(2,3) by simp
    show "0 < a" "a < nx'" if "(hp(q \<mapsto> s1)) a = Some s" for a s
      using that o(2) [of a s] assms(2-4) by (auto split: if_splits)
    show "setid (rs_result rs') \<noteq> []" if "(nm(key \<mapsto> rs)) k = Some rs'" for k rs'
      using that o(3) [of k rs'] assms(7) by (cases "k = key") auto
    show "\<exists>s. (hp(q \<mapsto> s1)) (result_ptr rs') = Some s \<and> setid s \<noteq> []" if "(nm(key \<mapsto> rs)) k = Some rs'" "result_ptr rs' \<noteq> 0" for k rs'
      using that o(3) [of k rs'] assms(5) [of k rs'] assms(6,8) by (cases "k = key") auto
    show "k = k'" if "(nm(key \<mapsto> rs)) k = Some r" "(nm(key \<mapsto> rs)) k' = Some r'" "result_ptr r \<noteq> 0" "result_ptr r = result_ptr r'" for k k' r r'
    proof (cases "k = key \<or> k' = key")
      case True
      then show ?thesis using that assms(5) [of k r] assms(5) [of k' r'] assms(6) by (cases "k = key"; cases "k' = key") simp_all
    next
      case False
      then show ?thesis using that by (intro o(4) [of k r k' r']) simp_all
    qed
    show "file_ok x" if "fs' g = Some x" for g x
      using assms(9) [OF that] o(5) by blast
  qed
qed

definition saves :: "int \<Rightarrow> bool" where
  "saves flags \<longleftrightarrow> flags AND DONT_SAVE_RESULT_SETS \<noteq> DONT_SAVE_RESULT_SETS"

definition stored_set :: "weighted_result \<Rightarrow> string \<Rightarrow> weighted_result" where
  "stored_set s name = (if setid s \<noteq> [] then s\<lparr>entries := dup_entries s\<rparr> else s)\<lparr>setid := take 199 name\<rparr>"

lemma stored_set_facts [simp]:
  "setid (stored_set s name) = take 199 name" "num_hits (stored_set s name) = num_hits s" "result_type (stored_set s name) = result_type s"
  "filename (stored_set s name) = filename s"
  by (simp_all add: stored_set_def)

text \<open>
  The array is longer than the hits, as every array is that is allocated as a structure with so many further
  entries. The theories of the merges do not list the entry beyond the hits.
\<close>

definition hits_fit :: "weighted_result \<Rightarrow> bool" where
  "hits_fit s \<longleftrightarrow> 0 \<le> num_hits s \<and> num_hits s < int (length (entries s))"

lemma stored_set_hits: "hits_fit s \<Longrightarrow> hits (stored_set s name) = hits s" "hits_fit s \<Longrightarrow> hits_fit (stored_set s name)"
  by (auto simp: stored_set_def dup_entries_def hits_def hits_fit_def)

text \<open>The copy and the file are made of memory that the set has.\<close>

definition storable :: "weighted_result \<Rightarrow> int \<Rightarrow> bool" where
  "storable s flags \<longleftrightarrow>
     (if setid s \<noteq> [] then 0 \<le> num_hits s \<and> num_hits s \<le> int (length (entries s))
      else saves flags \<longrightarrow> 0 \<le> num_hits s \<and> (num_hits s = 0 \<or> num_hits s < int (length (entries s))))"

lemma hits_fit_storable: "hits_fit s \<Longrightarrow> storable s flags"
  by (auto simp: storable_def hits_fit_def)

lemma storable_hits: "storable s flags \<Longrightarrow> saves flags \<Longrightarrow> 0 \<le> num_hits s"
  by (auto simp: storable_def split: if_splits)

lemma storable_dup: "storable s flags \<Longrightarrow> setid s \<noteq> [] \<Longrightarrow> se_dup_result_set s = Done (s\<lparr>entries := dup_entries s\<rparr>)"
  by (simp add: storable_def se_dup_result_set_def)

lemma storable_saved:
  "storable s flags \<Longrightarrow> saves flags \<Longrightarrow>
     saved_entries (stored_set s name) = Done (take (nat (num_hits s)) (drop 1 (entries (stored_set s name))))"
  by (auto simp: storable_def saved_entries_def stored_set_def dup_entries_def split: if_splits)

lemma not_storable:
  "\<not> storable s flags \<Longrightarrow> (if setid s \<noteq> [] then se_dup_result_set s = Crash else saves flags \<and> saved_entries (s\<lparr>setid := n\<rparr>) = Crash)"
  by (auto simp: storable_def se_dup_result_set_def saved_entries_def split: if_splits)

text \<open>The address of the stored set, and what the record, the state before the table is changed and the files are.\<close>

definition new_ptr :: "store \<Rightarrow> int \<Rightarrow> weighted_result \<Rightarrow> int" where
  "new_ptr st p s = (if setid s = [] then p else heap_next st)"

definition new_data :: "environment \<Rightarrow> store \<Rightarrow> int \<Rightarrow> weighted_result \<Rightarrow> string \<Rightarrow> string \<Rightarrow> string \<Rightarrow> int \<Rightarrow> result_set_data" where
  "new_data env st p s name sf dir flags =
     \<lparr>rs_filename = mkstemp_name env (files st) dir, search_file_name = take 499 sf, rs_userid = current_user_id env,
      really_stored = (if saves flags then 1 else 0), result_ptr = new_ptr st p s, rs_result = shallow (stored_set s name)\<rparr>"

definition before_put :: "environment \<Rightarrow> store \<Rightarrow> int \<Rightarrow> weighted_result \<Rightarrow> string \<Rightarrow> string \<Rightarrow> store" where
  "before_put env st p s name dir =
     st\<lparr>heap := (heap st)(new_ptr st p s \<mapsto> stored_set s name), files := (files st)(mkstemp_name env (files st) dir \<mapsto> Empty_File),
        heap_next := heap_next st + (if setid s = [] then 0 else 1)\<rparr>"

definition new_files :: "environment \<Rightarrow> store \<Rightarrow> int \<Rightarrow> weighted_result \<Rightarrow> string \<Rightarrow> string \<Rightarrow> string \<Rightarrow> int \<Rightarrow> string \<Rightarrow> stored_file option" where
  "new_files env st p s name sf dir flags =
     (files st)(mkstemp_name env (files st) dir :=
       (if saves flags then Some (Saved ((new_data env st p s name sf dir flags)\<lparr>really_stored := 0\<rparr>)
            (take (nat (num_hits s)) (drop 1 (entries (stored_set s name)))))
        else None))"

lemma store_new_run:
  assumes "name_fits env name" "length (mkstemp_name env (files st) dir) < 500" "saves flags \<longrightarrow> fopen_ok env (mkstemp_name env (files st) dir)"
  shows "store_new env st p s name sf dir flags = (if storable s flags then
    run_bind (put_table (name_key env name) (new_data env st p s name sf dir flags) (before_put env st p s name dir)) (\<lambda>st3.
      Done (st3\<lparr>files := (files st3)(mkstemp_name env (files st) dir := new_files env st p s name sf dir flags (mkstemp_name env (files st) dir))\<rparr>, SUCCEED))
    else Crash)"
proof -
  have dn: "default_name name = name" using assms(1) by (auto simp: name_fits_def plain_name_def default_name_def)
  have bp: "before_put env st p s name dir = (let (st1, q) = (if setid s \<noteq> [] then alloc_set (s\<lparr>entries := dup_entries s\<rparr>) st else (st, p))
      in st1\<lparr>heap := (heap st1)(q \<mapsto> stored_set s name), files := (files st1)(mkstemp_name env (files st) dir \<mapsto> Empty_File)\<rparr>)"
    by (auto simp: before_put_def alloc_set_def new_ptr_def)
  note d = dn bp store_new_def hashed_name_fits [OF assms(1)] new_data_def new_ptr_def saves_def alloc_set_def new_files_def Let_def
  show ?thesis
  proof (cases "storable s flags")
    case True
    show ?thesis
    proof (cases "setid s = []")
      case noname: True
      have s: "stored_set s name = s\<lparr>setid := take 199 name\<rparr>" using noname by (simp add: stored_set_def)
      show ?thesis using assms(2,3) True noname storable_saved [OF True, of name] by (simp add: d s)
    next
      case False
      have s: "stored_set s name = s\<lparr>entries := dup_entries s, setid := take 199 name\<rparr>" using False by (simp add: stored_set_def)
      show ?thesis using assms(2,3) True False storable_dup [OF True False] storable_saved [OF True, of name] by (simp add: d s)
    qed
  next
    case False
    then show ?thesis using assms(2,3) not_storable [OF False, of "take 199 name"] by (cases "setid s = []") (simp_all add: d)
  qed
qed

lemma new_ptr_fresh:
  assumes "ptr_ok (named st) (heap st) (files st) (heap_next st)" "heap st p = Some s" "named st k = Some r"
  shows "result_ptr r \<noteq> new_ptr st p s"
proof
  assume q: "result_ptr r = new_ptr st p s"
  have pl: "0 < heap_next st" "\<And>a s. heap st a = Some s \<Longrightarrow> 0 < a \<and> a < heap_next st" using assms(1) by (auto simp: ptr_ok_def)
  have "result_ptr r \<noteq> 0" using q pl(1) pl(2) [OF assms(2)] by (auto simp: new_ptr_def)
  then obtain u where u: "heap st (new_ptr st p s) = Some u" "setid u \<noteq> []" using assms(1,3) q unfolding ptr_ok_def by metis
  show False
  proof (cases "setid s = []")
    case True
    then show ?thesis using u assms(2) by (simp add: new_ptr_def)
  next
    case False
    then show ?thesis using u(1) pl(2) [of "heap_next st" u] by (simp add: new_ptr_def)
  qed
qed

text \<open>Storing a set that has no name, or another name, under a name that is not in the table.\<close>

lemma store_new_facts:
  assumes ok: "store_ok st" and name: "name_fits env name" and new: "named st (name_key env name) = None"
    and p: "heap st p = Some s" and other: "setid s = [] \<or> \<not> strcaseeq (setid s) name"
    and room: "store_room st" and fl: "length (mkstemp_name env (files st) dir) < 500" "saves flags \<longrightarrow> fopen_ok env (mkstemp_name env (files st) dir)"
    and storable: "storable s flags"
  shows "\<exists>st'. se_store_result_set env st p name sf dir flags = Done (st', SUCCEED) \<and> store_ok st'
    \<and> named st' = (named st)(name_key env name \<mapsto> new_data env st p s name sf dir flags)
    \<and> heap st' = (heap st)(new_ptr st p s \<mapsto> stored_set s name) \<and> files st' = new_files env st p s name sf dir flags"
proof -
  let ?k = "name_key env name" and ?rs = "new_data env st p s name sf dir flags"
  have to: "tab_ok st" and po: "ptr_ok (named st) (heap st) (files st) (heap_next st)" using ok by (simp_all add: store_ok_def)
  have pl: "0 < heap_next st" "0 < p" "p < heap_next st" using po p unfolding ptr_ok_def by blast+
  obtain st1 where chk: "se_check_result_set env st (Some name) = Done (st1, None, None, name)"
      and st1: "st1 = (init_table st)\<lparr>diags := [30] @ diags st\<rparr>"
    using check_plain [OF to name] new by auto
  note it = init_table_facts [OF to]
  have fs1: "files st1 = files st" by (simp add: st1 it)
  have fl': "length (mkstemp_name env (files st1) dir) < 500" "saves flags \<longrightarrow> fopen_ok env (mkstemp_name env (files st1) dir)"
    using fl by (simp_all add: fs1)
  have same: "new_data env st1 = new_data env st" "new_files env st1 = new_files env st" "new_ptr st1 = new_ptr st"
    by (auto simp: fun_eq_iff new_data_def new_files_def new_ptr_def st1 it)
  let ?st2 = "before_put env st1 p s name dir"
  have "tab_ok ?st2" by (rule tab_ok_same [OF _ _ it(1)]) (simp_all add: before_put_def st1 it(6))
  moreover obtain t where "result_set_hash_tab ?st2 = Some t" using it(3) by (auto simp: before_put_def st1)
  moreover have "store_room ?st2" using it(7) [OF room] by (simp add: before_put_def st1 store_room_def)
  ultimately obtain t' where t': "put_table ?k ?rs ?st2 = Done (?st2\<lparr>result_set_hash_tab := Some t', heap_next := heap_next ?st2 + 1\<rparr>)"
      "tab_ok (?st2\<lparr>result_set_hash_tab := Some t', heap_next := heap_next ?st2 + 1\<rparr>)"
      "named (?st2\<lparr>result_set_hash_tab := Some t', heap_next := heap_next ?st2 + 1\<rparr>) = (named ?st2)(?k \<mapsto> ?rs)"
    using put_table_facts [of ?st2 t ?k ?rs] by blast
  define st3 where "st3 = ?st2\<lparr>result_set_hash_tab := Some t', heap_next := heap_next ?st2 + 1, files := new_files env st p s name sf dir flags\<rparr>"
  have "se_store_result_set env st p name sf dir flags = store_new env st1 p s name sf dir flags"
    using p other chk pl(2) by (auto simp: se_store_result_set_def)
  also have "\<dots> = Done (st3, SUCCEED)"
    using t'(1) storable by (simp add: store_new_run [OF name fl'] same fs1 st3_def) (simp add: before_put_def new_files_def st1 it)
  finally have run: "se_store_result_set env st p name sf dir flags = Done (st3, SUCCEED)" .
  have nm: "take 199 name \<noteq> []" using name by (auto simp: name_fits_def plain_name_def)
  have "ptr_ok ((named st)(?k \<mapsto> ?rs)) ((heap st)(new_ptr st p s \<mapsto> stored_set s name)) (new_files env st p s name sf dir flags) (heap_next ?st2 + 1)"
  proof (rule ptr_ok_new [OF po _ _ _ new_ptr_fresh [OF po p]])
    show "0 < new_ptr st p s" "new_ptr st p s < heap_next ?st2 + 1" "heap_next st \<le> heap_next ?st2 + 1"
      using pl by (auto simp: new_ptr_def before_put_def st1 it)
    show "file_ok x \<or> files st g = Some x" if "new_files env st p s name sf dir flags g = Some x" for g x
      using that nm storable_hits [OF storable] by (auto simp: file_ok_def new_files_def new_data_def shallow_def split: if_splits)
  qed (use nm in \<open>simp_all add: new_data_def shallow_def\<close>)
  moreover have "named ?st2 = named st" using it(2) named_same [of ?st2 "init_table st"] by (simp add: before_put_def st1)
  then have n3: "named st3 = (named st)(?k \<mapsto> ?rs)"
    using t'(3) named_same [of st3 "?st2\<lparr>result_set_hash_tab := Some t', heap_next := heap_next ?st2 + 1\<rparr>"] by (simp add: st3_def)
  moreover have h3: "heap st3 = (heap st)(new_ptr st p s \<mapsto> stored_set s name)" "files st3 = new_files env st p s name sf dir flags"
    "heap_next st3 = heap_next ?st2 + 1" by (simp_all add: st3_def) (simp add: before_put_def st1 it new_ptr_def)
  moreover have "tab_ok st3" by (rule tab_ok_same [OF _ _ t'(2)]) (simp_all add: st3_def)
  ultimately show ?thesis using run by (auto simp: store_ok_def)
qed

section \<open>Names that are in the table\<close>

lemma check_named:
  assumes "tab_ok st" "name_fits env name" "named st (name_key env name) = Some rs"
  shows "\<exists>h t. se_check_result_set env st (Some name) = Done (st, Some h, None, name) \<and> he_data h = Some rs
    \<and> result_set_hash_tab st = Some t \<and> table_map t (StringKey (name_key env name)) = Some (he_addr h, Some rs)
    \<and> (\<exists>t'. Tcl_DeleteHashEntry t h = Done t' \<and> table_ok t' \<and> table_map t' = (table_map t)(StringKey (name_key env name) := None)
         \<and> key_fits t' = key_fits t)"
proof -
  obtain t where t: "result_set_hash_tab st = Some t" using assms(3) by (auto simp: named_def split: option.splits)
  then have "init_table st = st" by (simp add: init_table_def)
  then show ?thesis using check_plain [OF assms(1,2)] assms(3) t by auto
qed

lemma get_in_core:
  assumes "store_ok st" "name_fits env name" "named st (name_key env name) = Some rs" "result_ptr rs \<noteq> 0"
  shows "se_get_result_set scan env st name = Done (st, result_ptr rs)"
proof -
  have "tab_ok st" "default_name name = name"
    using assms(1,2) by (auto simp: store_ok_def name_fits_def plain_name_def default_name_def)
  then show ?thesis using check_named [OF _ assms(2,3)] assms(4)
    by (auto simp: se_get_result_set_def entry_data_def give_set_def)
qed

text \<open>Names whose set is freed, or replaced by a set at a new address.\<close>

lemma ptr_ok_freed:
  assumes "ptr_ok nm hp fs nx" "nm key = Some rs"
  shows "ptr_ok (nm(key \<mapsto> rs\<lparr>result_ptr := 0\<rparr>)) (hp(result_ptr rs := None)) fs nx" "ptr_ok (nm(key := None)) (hp(result_ptr rs := None)) fs nx"
proof -
  note o = ptr_okD [OF assms(1)]
  have un: "result_ptr r \<noteq> result_ptr rs" if "nm k = Some r" "k \<noteq> key" "result_ptr r \<noteq> 0" for k r
    using o(4) [OF that(1) assms(2) that(3)] that(2) by blast
  have gen: "ptr_ok nm' (hp(result_ptr rs := None)) fs nx"
    if nm': "\<And>k r. nm' k = Some r \<Longrightarrow> (k \<noteq> key \<and> nm k = Some r) \<or> (k = key \<and> r = rs\<lparr>result_ptr := 0\<rparr>)" for nm'
    unfolding ptr_ok_def
  proof (intro conjI allI impI)
    show "0 < nx" by (rule o)
    show "0 < a" "a < nx" if "(hp(result_ptr rs := None)) a = Some s" for a s using that o(2) [of a s] by (auto split: if_splits)
    show "setid (rs_result r) \<noteq> []" if "nm' k = Some r" for k r using nm' [OF that] o(3) assms(2) by auto
    show "\<exists>s. (hp(result_ptr rs := None)) (result_ptr r) = Some s \<and> setid s \<noteq> []" if "nm' k = Some r" "result_ptr r \<noteq> 0" for k r
      using nm' [OF that(1)] that(2) o(3) [of k r] un [of k r] by auto
    show "k = k'" if "nm' k = Some r" "nm' k' = Some r'" "result_ptr r \<noteq> 0" "result_ptr r = result_ptr r'" for k k' r r'
    proof -
      have "nm k = Some r" using nm' [OF that(1)] that(3) by auto
      moreover have "nm k' = Some r'" using nm' [OF that(2)] that(3,4) by auto
      ultimately show ?thesis using o(4) that(3,4) by blast
    qed
    show "file_ok x" if "fs f = Some x" for f x using o(5) [OF that] .
  qed
  show "ptr_ok (nm(key \<mapsto> rs\<lparr>result_ptr := 0\<rparr>)) (hp(result_ptr rs := None)) fs nx" by (rule gen) (auto split: if_splits)
  show "ptr_ok (nm(key := None)) (hp(result_ptr rs := None)) fs nx" by (rule gen) (auto split: if_splits)
qed

lemma free_result_facts:
  assumes "ptr_ok (named st) (heap st) (files st) (heap_next st)" "named st key = Some rs" "result_ptr r = result_ptr rs"
  shows "se_free_result (st\<lparr>files := fs\<rparr>) r
    = Done (st\<lparr>files := fs, heap := (heap st)(result_ptr rs := None)\<rparr>, r\<lparr>result_ptr := 0\<rparr>)"
proof (cases "result_ptr rs = 0")
  case True
  have "heap st 0 = None" using assms(1) unfolding ptr_ok_def by (metis less_irrefl option.exhaust)
  then have "(heap st)(0 := None) = heap st" "r\<lparr>result_ptr := 0\<rparr> = r" using True assms(3) by (auto simp: fun_upd_idem)
  then show ?thesis using True assms(3) by (simp add: se_free_result_def)
next
  case False
  then obtain s where "heap st (result_ptr rs) = Some s" using assms unfolding ptr_ok_def by blast
  then show ?thesis using False assms(3) by (simp add: se_free_result_def free_set_def)
qed

lemma free_name_facts:
  assumes "store_ok st" "name_fits env name" "named st (name_key env name) = Some rs"
  shows "\<exists>st'. se_free_result_name env st name = Done st' \<and> store_ok st'
    \<and> named st' = (named st)(name_key env name \<mapsto> rs\<lparr>result_ptr := 0\<rparr>) \<and> heap st' = (heap st)(result_ptr rs := None)
    \<and> files st' = files st \<and> heap_next st' = heap_next st"
proof -
  have to: "tab_ok st" and po: "ptr_ok (named st) (heap st) (files st) (heap_next st)" using assms(1) by (simp_all add: store_ok_def)
  obtain h t where h: "se_check_result_set env st (Some name) = Done (st, Some h, None, name)" "he_data h = Some rs"
      "result_set_hash_tab st = Some t" "table_map t (StringKey (name_key env name)) = Some (he_addr h, Some rs)"
    using check_named [OF to assms(2,3)] by blast
  let ?st1 = "st\<lparr>heap := (heap st)(result_ptr rs := None)\<rparr>"
  let ?st = "set_entry_data h (rs\<lparr>result_ptr := 0\<rparr>) ?st1"
  have "tab_ok ?st1" by (rule tab_ok_same [OF _ _ to]) simp_all
  note s = set_entry_data_facts [OF this _ h(4), of "rs\<lparr>result_ptr := 0\<rparr>"]
  have "se_free_result_name env st name = Done ?st"
    using h free_result_facts [OF po assms(3) refl, of "files st"] by (simp add: se_free_result_name_def entry_data_def)
  moreover have "named ?st = (named st)(name_key env name \<mapsto> rs\<lparr>result_ptr := 0\<rparr>)"
    using s(2) h(3) named_same [of ?st1 st] by simp
  ultimately show ?thesis using s(1,3-5) h(3) ptr_ok_freed(1) [OF po assms(3)] by (simp add: store_ok_def)
qed

text \<open>The set that is made of a file that a well-formed store has.\<close>

definition file_set :: "result_set_data \<Rightarrow> weighted_entry list \<Rightarrow> weighted_result" where
  "file_set rs tail = (rs_result rs)\<lparr>entries := take 1 (entries (rs_result rs)) @ take (nat (num_hits (rs_result rs))) tail
     @ replicate (nat (num_hits (rs_result rs)) - length tail) (new_entry 0 (Fin 0))\<rparr>"

lemma loaded_file_set: "0 \<le> num_hits (rs_result rs) \<Longrightarrow> loaded_set rs tail = Done (file_set rs tail)"
  by (simp add: loaded_set_def file_set_def Let_def)

lemma get_from_file:
  assumes "store_ok st" "name_fits env name" "named st (name_key env name) = Some rs" "result_ptr rs = 0"
    and "files st (rs_filename rs) = Some (Saved rs1 tail)"
  shows "\<exists>st'. se_get_result_set scan env st name = Done (st', heap_next st) \<and> store_ok st'
    \<and> named st' = (named st)(name_key env name \<mapsto> rs1\<lparr>result_ptr := heap_next st\<rparr>)
    \<and> heap st' = (heap st)(heap_next st \<mapsto> file_set rs1 tail) \<and> files st' = files st"
proof -
  have to: "tab_ok st" and po: "ptr_ok (named st) (heap st) (files st) (heap_next st)" using assms(1) by (simp_all add: store_ok_def)
  have dn: "default_name name = name" using assms(2) by (auto simp: name_fits_def plain_name_def default_name_def)
  have fo: "setid (rs_result rs1) \<noteq> []" "0 \<le> num_hits (rs_result rs1)"
    using ptr_okD(5) [OF po assms(5)] by (simp_all add: file_ok_def)
  obtain h t where h: "se_check_result_set env st (Some name) = Done (st, Some h, None, name)" "he_data h = Some rs"
      "result_set_hash_tab st = Some t" "table_map t (StringKey (name_key env name)) = Some (he_addr h, Some rs)"
    using check_named [OF to assms(2,3)] by blast
  let ?st1 = "st\<lparr>heap := (heap st)(heap_next st \<mapsto> file_set rs1 tail), heap_next := heap_next st + 1\<rparr>"
  let ?rs = "rs1\<lparr>result_ptr := heap_next st\<rparr>"
  let ?st = "set_entry_data h ?rs ?st1"
  have "tab_ok ?st1" by (rule tab_ok_same [OF _ _ to]) simp_all
  note s = set_entry_data_facts [OF this _ h(4), of ?rs]
  have run: "se_get_result_set scan env st name = Done (?st, heap_next st)"
    using h assms(4,5) dn
    by (simp add: se_get_result_set_def entry_data_def alloc_set_def give_set_def read_file_def loaded_file_set [OF fo(2)])
  have nm: "named ?st = (named st)(name_key env name \<mapsto> ?rs)" using s(2) h(3) named_same [of ?st1 st] by simp
  have "ptr_ok ((named st)(name_key env name \<mapsto> ?rs)) ((heap st)(heap_next st \<mapsto> file_set rs1 tail)) (files st) (heap_next st + 1)"
  proof (rule ptr_ok_new [OF po])
    show "result_ptr r \<noteq> heap_next st" if "named st k = Some r" for k r
      using po that unfolding ptr_ok_def by (metis less_irrefl)
  qed (use po fo(1) in \<open>auto simp: ptr_ok_def file_set_def\<close>)
  then show ?thesis using run nm s(1,3-5) h(3) by (simp add: store_ok_def)
qed

lemma ptr_ok_files:
  "ptr_ok nm hp fs nx \<Longrightarrow> (\<And>f x. fs' f = Some x \<Longrightarrow> fs f = Some x) \<Longrightarrow> ptr_ok nm hp fs' nx"
  unfolding ptr_ok_def by blast

lemma delete_facts:
  assumes "store_ok st" "name_fits env name" "named st (name_key env name) = Some rs" "name \<noteq> ''***TMP*BITMAP*RESULTS***''"
  shows "\<exists>st'. se_delete_result_set env st name = Done (st', SUCCEED) \<and> store_ok st'
    \<and> named st' = (named st)(name_key env name := None) \<and> heap st' = (heap st)(result_ptr rs := None)
    \<and> files st' = (if really_stored rs = 1 then (files st)(rs_filename rs := None) else files st)"
proof -
  have to: "tab_ok st" and po: "ptr_ok (named st) (heap st) (files st) (heap_next st)" using assms(1) by (simp_all add: store_ok_def)
  obtain h t t' where h: "se_check_result_set env st (Some name) = Done (st, Some h, None, name)" "he_data h = Some rs"
      "result_set_hash_tab st = Some t" "Tcl_DeleteHashEntry t h = Done t'" "table_ok t'"
      "table_map t' = (table_map t)(StringKey (name_key env name) := None)" "key_fits t' = key_fits t"
    using check_named [OF to assms(2,3)] by blast
  let ?fs = "if really_stored rs = 1 then (files st)(rs_filename rs := None) else files st"
  let ?st1 = "st\<lparr>files := ?fs, heap := (heap st)(result_ptr rs := None)\<rparr>"
  let ?st = "?st1\<lparr>result_set_hash_tab := Some t'\<rparr>"
  have "tab_ok ?st1" by (rule tab_ok_same [OF _ _ to]) simp_all
  note d = delete_table_facts [OF this _ h(5-7)]
  have "unlink_file rs st = st\<lparr>files := ?fs\<rparr>" by (simp add: unlink_file_def)
  then have run: "se_delete_result_set env st name = Done (?st, SUCCEED)"
    using h(1-4) assms(4) free_result_facts [OF po assms(3) refl, of ?fs] by (simp add: se_delete_result_set_def entry_data_def)
  have "named ?st = (named st)(name_key env name := None)" using d(2) h(3) named_same [of ?st1 st] by simp
  moreover have "ptr_ok ((named st)(name_key env name := None)) ((heap st)(result_ptr rs := None)) ?fs (heap_next st)"
    by (rule ptr_ok_files [OF ptr_ok_freed(2) [OF po assms(3)]]) (auto split: if_splits)
  ultimately show ?thesis using run d(1) h(3) by (simp add: store_ok_def)
qed

lemma get_unknown:
  assumes "store_ok st" "name_fits env name" "named st (name_key env name) = None"
  shows "\<exists>st'. se_get_result_set scan env st name = Done (st', 0) \<and> diags st' = 30 # diags st \<and> store_ok st'"
proof -
  have to: "tab_ok st" and dn: "default_name name = name"
    using assms(1,2) by (auto simp: store_ok_def name_fits_def plain_name_def default_name_def)
  let ?st = "(init_table st)\<lparr>diags := 30 # diags st\<rparr>"
  have chk: "se_check_result_set env st (Some name) = Done (?st, None, None, name)"
    using check_plain [OF to assms(2)] assms(3) by auto
  note it = init_table_facts [OF to]
  have "tab_ok ?st" by (rule tab_ok_same [OF _ _ it(1)]) simp_all
  moreover have "named ?st = named st" using it(2) named_same [of ?st "init_table st"] by simp
  ultimately have "store_ok ?st" using assms(1) it by (simp add: store_ok_def)
  then show ?thesis using chk dn by (simp add: se_get_result_set_def)
qed

lemma take_split: "n < length es \<Longrightarrow> take n (take 1 (take 1 es) @ take n (take n (drop 1 es)) @ zs) = take n es"
  by (cases es; cases n) auto

lemma file_set_hits:
  assumes "rs_result rs = shallow s" "hits_fit s"
  shows "hits (file_set rs (take (nat (num_hits s)) (drop 1 (entries s)))) = hits s"
    and "num_hits (file_set rs tail) = num_hits s" "setid (file_set rs tail) = setid s" "result_type (file_set rs tail) = result_type s"
proof -
  have "nat (num_hits s) < length (entries s)" using assms(2) by (auto simp: hits_fit_def)
  from take_split [OF this]
  show "hits (file_set rs (take (nat (num_hits s)) (drop 1 (entries s)))) = hits s"
    and "num_hits (file_set rs tail) = num_hits s" "setid (file_set rs tail) = setid s" "result_type (file_set rs tail) = result_type s"
    using assms(1) by (simp_all add: file_set_def hits_def shallow_def del: append_take_drop_id take_append take_take)
qed

text \<open>
  A set stored under a new name is found again under that name, in the same session, with
  its hits; every other name keeps its set, and the table stays well formed.
\<close>

theorem stored_set_is_found:
  assumes "store_ok st" "name_fits env name" "named st (name_key env name) = None" "heap st p = Some s" "hits_fit s"
    and "setid s = [] \<or> \<not> strcaseeq (setid s) name" "store_room st" "length (mkstemp_name env (files st) dir) < 500"
    and "saves flags \<longrightarrow> fopen_ok env (mkstemp_name env (files st) dir)"
  shows "\<exists>st' q s'. se_store_result_set env st p name sf dir flags = Done (st', SUCCEED) \<and> store_ok st'
    \<and> se_get_result_set scan env st' name = Done (st', q) \<and> heap st' q = Some s' \<and> hits s' = hits s \<and> setid s' = take 199 name
    \<and> (\<forall>k. k \<noteq> name_key env name \<longrightarrow> named st' k = named st k)"
proof -
  obtain st' where st': "se_store_result_set env st p name sf dir flags = Done (st', SUCCEED)" "store_ok st'"
      "named st' = (named st)(name_key env name \<mapsto> new_data env st p s name sf dir flags)"
      "heap st' = (heap st)(new_ptr st p s \<mapsto> stored_set s name)"
    using store_new_facts [OF assms(1-4,6-9) hits_fit_storable [OF assms(5)]] by blast
  have "new_ptr st p s \<noteq> 0" using assms(1,4) by (auto simp: new_ptr_def store_ok_def ptr_ok_def)
  then have "se_get_result_set scan env st' name = Done (st', new_ptr st p s)"
    using get_in_core [OF st'(2) assms(2)] st'(3) by (simp add: new_data_def)
  then show ?thesis using st' stored_set_hits(1) [OF assms(5)] by (intro exI [of _ st'] exI [of _ "new_ptr st p s"]) simp
qed

lemma sample_store_facts:
  "store_ok sample_store" "name_fits sample_env ''first''" "named sample_store k = None" "heap sample_store 1 = Some (sample_set [3, 5])"
  "hits_fit (sample_set rs)" "setid (sample_set rs) = []" "store_room sample_store" "length (mkstemp_name sample_env (files sample_store) ''/tmp'') < 500"
  "saves 0" "fopen_ok sample_env f"
proof -
  have sid: "setid (sample_set rs) = []" for rs by (simp add: sample_set_def new_result_def)
  have nm: "named sample_store k = None" for k by (simp add: named_def sample_store_def)
  have "ptr_ok (named sample_store) (heap sample_store) (files sample_store) (heap_next sample_store)"
    unfolding ptr_ok_def nm by (auto simp: sample_store_def split: if_splits)
  then show "store_ok sample_store" by (simp add: store_ok_def tab_ok_def sample_store_def)
  show "name_fits sample_env ''first''" by code_simp
  show "named sample_store k = None" "setid (sample_set rs) = []" by (rule nm, rule sid)
  show "heap sample_store 1 = Some (sample_set [3, 5])" "store_room sample_store" by (simp_all add: sample_store_def store_room_def)
  show "hits_fit (sample_set rs)" by (simp add: hits_fit_def sample_set_def)
  show "length (mkstemp_name sample_env (files sample_store) ''/tmp'') < 500" "fopen_ok sample_env f" by (simp_all add: sample_env_def)
  show "saves 0" by (simp add: saves_def DONT_SAVE_RESULT_SETS_def)
qed

lemma sample_set_hits: "map record_num (hits (sample_set rs)) = rs"
  by (simp add: sample_set_def hits_def new_entry_def o_def)

theorem stored_set_is_found_witness:
  "\<exists>st' q s'. se_store_result_set sample_env sample_store 1 ''first'' ''db'' ''/tmp'' 0 = Done (st', SUCCEED)
     \<and> se_get_result_set (\<lambda>s rs. None) sample_env st' ''first'' = Done (st', q) \<and> heap st' q = Some s' \<and> map record_num (hits s') = [3, 5]"
  using stored_set_is_found [OF sample_store_facts(1-5) disjI1 [OF sample_store_facts(6)] sample_store_facts(7,8),
      of 0 "''db''" "\<lambda>s rs. None"] sample_store_facts(10) sample_set_hits [of "[3, 5]"] by metis

text \<open>
  C27: a set that was stored with its file, freed in memory and asked for again comes back from
  the file with the same hits, type and name.
\<close>

theorem store_free_get_roundtrip:
  assumes "store_ok st" "name_fits env name" "named st (name_key env name) = None" "heap st p = Some s" "hits_fit s"
    and "setid s = [] \<or> \<not> strcaseeq (setid s) name" "store_room st" "length (mkstemp_name env (files st) dir) < 500"
    and "saves flags" "fopen_ok env (mkstemp_name env (files st) dir)"
  shows "\<exists>st1 st2 st3 q s'. se_store_result_set env st p name sf dir flags = Done (st1, SUCCEED)
    \<and> se_free_result_name env st1 name = Done st2 \<and> heap st2 (new_ptr st p s) = None
    \<and> se_get_result_set scan env st2 name = Done (st3, q) \<and> heap st3 q = Some s'
    \<and> hits s' = hits s \<and> num_hits s' = num_hits s \<and> result_type s' = result_type s \<and> setid s' = take 199 name \<and> store_ok st3"
proof -
  let ?k = "name_key env name" and ?rs = "new_data env st p s name sf dir flags"
  let ?tail = "take (nat (num_hits s)) (drop 1 (entries (stored_set s name)))"
  obtain st1 where st1: "se_store_result_set env st p name sf dir flags = Done (st1, SUCCEED)" "store_ok st1"
      "named st1 ?k = Some ?rs" "files st1 = new_files env st p s name sf dir flags"
    using store_new_facts [OF assms(1-4,6-8) _ hits_fit_storable [OF assms(5)], of flags sf] assms(9,10) by auto
  obtain st2 where st2: "se_free_result_name env st1 name = Done st2" "store_ok st2" "named st2 ?k = Some (?rs\<lparr>result_ptr := 0\<rparr>)"
      "heap st2 (new_ptr st p s) = None" "files st2 = files st1"
    using free_name_facts [OF st1(2) assms(2) st1(3)] by (auto simp: new_data_def)
  have ff: "files st2 (rs_filename (?rs\<lparr>result_ptr := 0\<rparr>)) = Some (Saved (?rs\<lparr>really_stored := 0\<rparr>) ?tail)"
    using st1(4) st2(5) assms(9) by (simp add: new_files_def new_data_def)
  obtain st3 where st3: "se_get_result_set scan env st2 name = Done (st3, heap_next st2)" "store_ok st3"
      "heap st3 (heap_next st2) = Some (file_set (?rs\<lparr>really_stored := 0\<rparr>) ?tail)"
    using get_from_file [OF st2(2) assms(2) st2(3) _ ff, of scan] by auto
  have "rs_result (?rs\<lparr>really_stored := 0\<rparr>) = shallow (stored_set s name)" by (simp add: new_data_def)
  note l = file_set_hits [OF this stored_set_hits(2) [OF assms(5)]]
  show ?thesis using st1(1) st2(1,4) st3 l stored_set_hits(1) [OF assms(5), of name] by auto
qed

theorem store_free_get_roundtrip_witness:
  "\<exists>st1 st2 st3 q s'. se_store_result_set sample_env sample_store 1 ''first'' ''db'' ''/tmp'' 0 = Done (st1, SUCCEED)
     \<and> se_free_result_name sample_env st1 ''first'' = Done st2 \<and> se_get_result_set (\<lambda>s rs. None) sample_env st2 ''first'' = Done (st3, q)
     \<and> heap st3 q = Some s' \<and> map record_num (hits s') = [3, 5]"
  using store_free_get_roundtrip [OF sample_store_facts(1-5) disjI1 [OF sample_store_facts(6)] sample_store_facts(7-10),
      of "''db''" "\<lambda>s rs. None"] sample_set_hits [of "[3, 5]"] by metis

section \<open>Sessions\<close>

lemma get_total:
  assumes "store_ok st" "name_fits env name"
  shows "\<exists>st' q. se_get_result_set scan env st name = Done (st', q) \<and> store_ok st' \<and> (q = 0 \<or> (\<exists>s. heap st' q = Some s))"
proof (cases "named st (name_key env name)")
  case None
  then show ?thesis using get_unknown [OF assms] by blast
next
  case (Some rs)
  show ?thesis
  proof (cases "result_ptr rs = 0")
    case False
    have "\<exists>s. heap st (result_ptr rs) = Some s" using assms(1) Some False unfolding store_ok_def ptr_ok_def by blast
    then show ?thesis using get_in_core [OF assms Some False] assms(1) by auto
  next
    case True
    have dn: "default_name name = name" using assms(2) by (auto simp: name_fits_def plain_name_def default_name_def)
    obtain h where h: "se_check_result_set env st (Some name) = Done (st, Some h, None, name)" "he_data h = Some rs"
      using check_named [OF _ assms(2) Some] assms(1) unfolding store_ok_def by blast
    show ?thesis
    proof (cases "files st (rs_filename rs)")
      case None
      have "tab_ok (diagnostic_set 27 st)"
        by (rule tab_ok_same [of _ st]) (use assms(1) in \<open>simp_all add: diagnostic_set_def store_ok_def\<close>)
      moreover have "named (diagnostic_set 27 st) = named st" by (rule named_same) (simp add: diagnostic_set_def)
      ultimately have "store_ok (diagnostic_set 27 st)" using assms(1) by (simp add: store_ok_def) (simp add: diagnostic_set_def)
      then show ?thesis using h True None dn by (simp add: se_get_result_set_def entry_data_def)
    next
      case (Some f)
      then have "file_ok f" using assms(1) ptr_okD(5) unfolding store_ok_def by blast
      then obtain rs1 tail where "f = Saved rs1 tail" by (cases f) (auto simp: file_ok_def)
      with get_from_file [OF assms \<open>named st (name_key env name) = Some rs\<close> True, of rs1 tail scan] Some show ?thesis by auto
    qed
  qed
qed

text \<open>Replacing the set of a name by a set that has no name.\<close>

lemma replace_facts:
  assumes "store_ok st" "name_fits env name" "named st (name_key env name) = Some rs" "heap st p = Some s" "setid s = []" "flags AND 1 \<noteq> 0"
  shows "\<exists>st' rs'. se_store_result_set env st p name sf dir flags = Done (st', SUCCEED) \<and> store_ok st'
    \<and> named st' = (named st)(name_key env name \<mapsto> rs') \<and> result_ptr rs' = p \<and> rs_result rs' = shallow (s\<lparr>setid := take 199 name\<rparr>)
    \<and> heap st' = (heap st)(result_ptr rs := None, p \<mapsto> s\<lparr>setid := take 199 name\<rparr>) \<and> files st' = files st"
proof -
  let ?k = "name_key env name" and ?s = "s\<lparr>setid := take 199 name\<rparr>"
  have to: "tab_ok st" and po: "ptr_ok (named st) (heap st) (files st) (heap_next st)" using assms(1) by (simp_all add: store_ok_def)
  have p: "0 < p" "p < heap_next st" using po assms(4) unfolding ptr_ok_def by blast+
  have fresh: "result_ptr r \<noteq> p" if "named st k = Some r" for k r
    using new_ptr_fresh [OF po assms(4) that] assms(5) by (simp add: new_ptr_def)
  obtain h t where h: "se_check_result_set env st (Some name) = Done (st, Some h, None, name)" "he_data h = Some rs"
      "result_set_hash_tab st = Some t" "table_map t (StringKey ?k) = Some (he_addr h, Some rs)"
    using check_named [OF to assms(2,3)] by blast
  let ?old = "rs\<lparr>search_file_name := strncpy_over 199 (search_file_name rs) sf\<rparr>"
  let ?st1 = "st\<lparr>heap := (heap st)(result_ptr rs := None, p \<mapsto> ?s)\<rparr>"
  let ?rs = "?old\<lparr>result_ptr := p, rs_result := shallow ?s\<rparr>"
  have "se_free_result st ?old = Done (st\<lparr>heap := (heap st)(result_ptr rs := None)\<rparr>, ?old\<lparr>result_ptr := 0\<rparr>)"
    using free_result_facts [OF po assms(3), of ?old "files st"] by simp
  then have "store_replace env st p h name sf flags = Done (set_entry_data h ?rs ?st1, SUCCEED)"
    using h(2) assms(4,6) fresh [OF assms(3)] by (simp add: store_replace_def entry_data_def Let_def)
  then have run: "se_store_result_set env st p name sf dir flags = Done (set_entry_data h ?rs ?st1, SUCCEED)"
    using h(1) assms(4,5) p(1) by (simp add: se_store_result_set_def)
  have "tab_ok ?st1" by (rule tab_ok_same [OF _ _ to]) simp_all
  note s = set_entry_data_facts [OF this _ h(4), of ?rs]
  have "ptr_ok (((named st)(?k := None))(?k \<mapsto> ?rs)) (((heap st)(result_ptr rs := None))(p \<mapsto> ?s)) (files st) (heap_next st)"
  proof (rule ptr_ok_new [OF ptr_ok_freed(2) [OF po assms(3)] p(1,2)])
    show "result_ptr r \<noteq> p" if "((named st)(?k := None)) k = Some r" for k r using that fresh [of k r] by (auto split: if_splits)
  qed (use assms(2) in \<open>auto simp: shallow_def name_fits_def plain_name_def\<close>)
  moreover have "named (set_entry_data h ?rs ?st1) = (named st)(?k \<mapsto> ?rs)" using s(2) h(3) named_same [of ?st1 st] by simp
  ultimately show ?thesis using run s(1,3-5) h(3) by (intro exI [of _ "set_entry_data h ?rs ?st1"] exI [of _ ?rs]) (simp add: store_ok_def)
qed

text \<open>
  What a session does to the store: a search allocates a set without a name, and sets are stored
  under plain names, fetched, freed and deleted, one by one or all of them. Any set of the heap may be
  stored under any name. The flag records whether a set that bears a name has
  replaced the set of another name.
\<close>

definition replaces_by_named :: "environment \<Rightarrow> store \<Rightarrow> weighted_result \<Rightarrow> string \<Rightarrow> int \<Rightarrow> bool" where
  "replaces_by_named env st s name flags \<longleftrightarrow>
     setid s \<noteq> [] \<and> \<not> strcaseeq (setid s) name \<and> \<not> Option.is_none (named st (name_key env name)) \<and> flags AND REPLACE_RESULT_SETS \<noteq> 0"

inductive session :: "environment \<Rightarrow> store \<times> bool \<Rightarrow> store \<times> bool \<Rightarrow> bool" for env where
  search: "setid s = [] \<Longrightarrow> session env (st, b) (fst (alloc_set s st), b)"
| keep: "name_fits env name \<Longrightarrow> heap st p = Some s \<Longrightarrow> store_room st \<Longrightarrow>
    se_store_result_set env st p name sf dir flags = Done (st', r) \<Longrightarrow>
    session env (st, b) (st', b \<or> replaces_by_named env st s name flags)"
| fetch: "name_fits env name \<Longrightarrow> se_get_result_set scan env st name = Done (st', q) \<Longrightarrow> session env (st, b) (st', b)"
| release: "name_fits env name \<Longrightarrow> se_free_result_name env st name = Done st' \<Longrightarrow> session env (st, b) (st', b)"
| remove: "name_fits env name \<Longrightarrow> name \<noteq> ''***TMP*BITMAP*RESULTS***'' \<Longrightarrow> se_delete_result_set env st name = Done (st', r) \<Longrightarrow>
    session env (st, b) (st', b)"
| clear: "se_delete_all_result_sets st = Done (st', r) \<Longrightarrow> session env (st, b) (st', b)"

lemma store_ok_same:
  assumes "store_ok st" "result_set_hash_tab st' = result_set_hash_tab (init_table st)" "heap st' = heap st" "files st' = files st"
    "heap_next st' = heap_next st"
  shows "store_ok st'"
proof -
  have to: "tab_ok st" using assms(1) by (simp add: store_ok_def)
  note it = init_table_facts [OF to]
  have "tab_ok st'" by (rule tab_ok_same [OF assms(2) _ it(1)]) (simp add: it assms(5))
  moreover have "named st' = named st" using named_same [OF assms(2)] it(2) by simp
  ultimately show ?thesis using assms by (simp add: store_ok_def)
qed

lemma tab_okI: "store_ok st \<Longrightarrow> tab_ok st"
  by (simp add: store_ok_def)

lemma store_ok_diags: "store_ok st \<Longrightarrow> store_ok ((init_table st)\<lparr>diags := ds\<rparr>)"
  by (rule store_ok_same) (simp_all add: init_table_facts tab_okI)

text \<open>Deleting all sets frees each set once.\<close>

lemma delete_each_facts:
  assumes "\<forall>h \<in> set hs. \<exists>rs. he_data h = Some rs \<and> (result_ptr rs \<noteq> 0 \<longrightarrow> (\<exists>s. heap st (result_ptr rs) = Some s))"
    and "distinct hs" "\<forall>g \<in> set hs. \<forall>h \<in> set hs. \<forall>rs rs'. he_data g = Some rs \<longrightarrow> he_data h = Some rs' \<longrightarrow> result_ptr rs \<noteq> 0
        \<longrightarrow> result_ptr rs = result_ptr rs' \<longrightarrow> g = h"
  shows "\<exists>st'. delete_each st hs = Done st' \<and> heap_next st' = heap_next st
    \<and> (\<forall>a s. heap st' a = Some s \<longrightarrow> heap st a = Some s) \<and> (\<forall>f x. files st' f = Some x \<longrightarrow> files st f = Some x)"
  using assms
proof (induction hs arbitrary: st)
  case (Cons h hs)
  obtain rs where rs: "he_data h = Some rs" "result_ptr rs \<noteq> 0 \<longrightarrow> (\<exists>s. heap st (result_ptr rs) = Some s)" using Cons.prems(1) by auto
  let ?st = "(unlink_file rs st)\<lparr>heap := if result_ptr rs = 0 then heap st else (heap st)(result_ptr rs := None)\<rparr>"
  have free: "se_free_result (unlink_file rs st) rs = Done (?st, rs\<lparr>result_ptr := 0\<rparr>)"
    using rs(2) by (auto simp: se_free_result_def free_set_def unlink_file_def)
  have "\<exists>r. he_data g = Some r \<and> (result_ptr r \<noteq> 0 \<longrightarrow> (\<exists>s. heap ?st (result_ptr r) = Some s))" if g: "g \<in> set hs" for g
  proof -
    obtain r where r: "he_data g = Some r" "result_ptr r \<noteq> 0 \<longrightarrow> (\<exists>s. heap st (result_ptr r) = Some s)" using Cons.prems(1) g by auto
    have "g \<noteq> h" using Cons.prems(2) g by auto
    then have "result_ptr r \<noteq> 0 \<longrightarrow> result_ptr r \<noteq> result_ptr rs" using Cons.prems(3) g r(1) rs(1) by (metis list.set_intros(1,2))
    then show ?thesis using r by auto
  qed
  moreover have "distinct hs" using Cons.prems(2) by simp
  moreover note Cons.prems(3)
  ultimately have "\<exists>st'. delete_each ?st hs = Done st' \<and> heap_next st' = heap_next ?st
      \<and> (\<forall>a s. heap st' a = Some s \<longrightarrow> heap ?st a = Some s) \<and> (\<forall>f x. files st' f = Some x \<longrightarrow> files ?st f = Some x)"
    by (intro Cons.IH) auto
  then obtain st' where st': "delete_each ?st hs = Done st'" "heap_next st' = heap_next ?st"
      "\<forall>a s. heap st' a = Some s \<longrightarrow> heap ?st a = Some s" "\<forall>f x. files st' f = Some x \<longrightarrow> files ?st f = Some x" by blast
  have sub: "heap ?st a = Some s \<Longrightarrow> heap st a = Some s" "files ?st f = Some x \<Longrightarrow> files st f = Some x" "heap_next ?st = heap_next st" for a s f x
    by (auto simp: unlink_file_def split: if_splits)
  have run: "delete_each st (h # hs) = Done st'" using rs(1) free st'(1) by (simp add: entry_data_def)
  show ?case
  proof (intro exI conjI allI impI)
    show "delete_each st (h # hs) = Done st'" by (rule run)
    show "heap_next st' = heap_next st" by (rule trans [OF st'(2) sub(3)])
    show "heap st a = Some s" if "heap st' a = Some s" for a s by (rule sub(1)) (use st'(3) that in blast)
    show "files st f = Some x" if "files st' f = Some x" for f x by (rule sub(2)) (use st'(4) that in blast)
  qed
qed simp

lemma delete_all_facts:
  assumes "store_ok st"
  shows "\<exists>st'. se_delete_all_result_sets st = Done (st', SUCCEED) \<and> store_ok st' \<and> named st' = (\<lambda>k. None)"
proof (cases "result_set_hash_tab st")
  case None
  then show ?thesis using assms by (auto simp: se_delete_all_result_sets_def named_def fun_eq_iff)
next
  case (Some t)
  have po: "ptr_ok (named st) (heap st) (files st) (heap_next st)" and t: "table_ok t" "\<And>s. key_fits t (StringKey s)"
      "\<And>k a d. table_map t k = Some (a, d) \<Longrightarrow> d \<noteq> None"
    using assms Some by (auto simp: store_ok_def tab_ok_def)
  note o = ptr_okD [OF po]
  have entry: "\<exists>k rs. he_key h = StringKey k \<and> he_data h = Some rs \<and> named st k = Some rs" if h: "h \<in> set (hash_entries t)" for h
  proof -
    have "h \<in> set (table_entries t)" using h hash_entries_table [OF t(1)] by simp
    then obtain b where "b \<in> set (buckets t)" "h \<in> set b" by (auto simp: table_entries_def)
    then obtain i where "i < length (buckets t)" "h \<in> set (buckets t ! i)" by (metis in_set_conv_nth)
    then have "key_fits t (he_key h)" using t(1) by (auto simp: table_ok_def chains_ok_def)
    moreover have "procs t = StringProcs" using t(2) [of "[]"] by (simp add: key_fits_def)
    ultimately obtain k where k: "he_key h = StringKey k" by (cases "he_key h") (auto simp: key_fits_def)
    have "table_map t (he_key h) = Some (he_addr h, he_data h)"
      using table_map_items [OF t(1)] \<open>h \<in> set (table_entries t)\<close> by (auto simp: table_items_def item_def)
    then show ?thesis using t(3) k Some by (auto simp: named_def table_data_def)
  qed
  have dist: "distinct (map he_key (hash_entries t))" using t(1) hash_entries_table [OF t(1)] by (simp add: table_ok_def)
  then have "distinct (hash_entries t)" by (simp add: distinct_map)
  moreover have "\<forall>h \<in> set (hash_entries t). \<exists>rs. he_data h = Some rs \<and> (result_ptr rs \<noteq> 0 \<longrightarrow> (\<exists>s. heap st (result_ptr rs) = Some s))"
    using entry o(3) by blast
  moreover have "g = h" if g: "g \<in> set (hash_entries t)" "h \<in> set (hash_entries t)" "he_data g = Some rs" "he_data h = Some rs'"
      "result_ptr rs \<noteq> 0" "result_ptr rs = result_ptr rs'" for g h rs rs'
  proof -
    obtain k k' where k: "he_key g = StringKey k" "named st k = Some rs" "he_key h = StringKey k'" "named st k' = Some rs'"
      using entry [OF g(1)] entry [OF g(2)] g(3,4) by auto
    have "he_key g = he_key h" using o(4) [OF k(2,4) g(5,6)] k(1,3) by simp
    then show ?thesis using dist g(1,2) by (metis distinct_map inj_onD)
  qed
  ultimately obtain st1 where st1: "delete_each st (hash_entries t) = Done st1" "heap_next st1 = heap_next st"
      "\<forall>a s. heap st1 a = Some s \<longrightarrow> heap st a = Some s" "\<forall>f x. files st1 f = Some x \<longrightarrow> files st f = Some x"
    using delete_each_facts [of "hash_entries t" st] by blast
  let ?st = "st1\<lparr>result_set_hash_tab := None\<rparr>"
  have "named ?st = (\<lambda>k. None)" by (simp add: named_def fun_eq_iff)
  moreover have "ptr_ok (\<lambda>k. None) (heap st1) (files st1) (heap_next st1)"
    unfolding ptr_ok_def
  proof (intro conjI allI impI)
    show "0 < a" "a < heap_next st1" if "heap st1 a = Some s" for a s using o(2) [of a s] st1(2,3) that by simp_all
    show "file_ok x" if "files st1 f = Some x" for f x using o(5) [of f x] st1(4) that by simp
  qed (use o(1) st1(2) in simp_all)
  ultimately have "store_ok ?st" by (simp add: store_ok_def tab_ok_def)
  then show ?thesis using st1(1) Some \<open>named ?st = (\<lambda>k. None)\<close> by (simp add: se_delete_all_result_sets_def)
qed

text \<open>A set that was stored under a new name was there to be read.\<close>

lemma store_new_storable:
  assumes "store_ok st" "name_fits env name" "named st (name_key env name) = None" "heap st p = Some s"
    and "setid s = [] \<or> \<not> strcaseeq (setid s) name" "length (mkstemp_name env (files st) dir) < 500" "fopen_ok env (mkstemp_name env (files st) dir)"
    and "se_store_result_set env st p name sf dir flags = Done r"
  shows "storable s flags"
proof (rule ccontr)
  assume n: "\<not> storable s flags"
  have to: "tab_ok st" using assms(1) by (simp add: store_ok_def)
  have p: "p \<noteq> 0" using assms(1,4) by (auto simp: store_ok_def ptr_ok_def)
  obtain st1 where chk: "se_check_result_set env st (Some name) = Done (st1, None, None, name)"
      and st1: "st1 = (init_table st)\<lparr>diags := [30] @ diags st\<rparr>"
    using check_plain [OF to assms(2)] assms(3) by auto
  have f: "files st1 = files st" by (simp add: st1 init_table_facts [OF to])
  have "se_store_result_set env st p name sf dir flags = store_new env st1 p s name sf dir flags"
    using p assms(4,5) chk by (auto simp: se_store_result_set_def)
  also have "\<dots> = Crash" using n assms(6,7) by (simp add: store_new_run [OF assms(2)] f)
  finally show False using assms(8) by simp
qed

lemma keep_store_ok:
  assumes env: "length (mkstemp_name env (files st) dir) < 500" "\<And>f. fopen_ok env f" and ok: "store_ok st" and name: "name_fits env name"
    and p: "heap st p = Some s" and room: "store_room st" and run: "se_store_result_set env st p name sf dir flags = Done (st', r)"
    and one: "\<not> replaces_by_named env st s name flags"
  shows "store_ok st'"
proof (cases "setid s \<noteq> [] \<and> strcaseeq (setid s) name")
  case True
  then have "st' = st" using run p by (auto simp: se_store_result_set_def split: if_splits)
  then show ?thesis using ok by simp
next
  case other: False
  then have other': "setid s = [] \<or> \<not> strcaseeq (setid s) name" by blast
  show ?thesis
  proof (cases "named st (name_key env name)")
    case None
    have "storable s flags" using store_new_storable [OF ok name None p other' env run] .
    then show ?thesis using store_new_facts [OF ok name None p other' room env(1), of flags sf] env(2) run by auto
  next
    case (Some rs)
    show ?thesis
    proof (cases "flags AND 1 = 0")
      case False
      then have "setid s = []" using one other Some by (auto simp: replaces_by_named_def REPLACE_RESULT_SETS_def)
      then show ?thesis using replace_facts [OF ok name Some p _ False, of sf dir] run by auto
    next
      case True
      obtain h where "se_check_result_set env st (Some name) = Done (st, Some h, None, name)"
        using check_named [OF _ name Some] ok unfolding store_ok_def by blast
      moreover have "init_table st = st" using Some by (auto simp: init_table_def named_def split: option.splits)
      ultimately have "st' = diagnostic_set 21 st \<or> st' = st"
        using run p True by (auto simp: se_store_result_set_def store_replace_def split: if_splits)
      then show ?thesis using ok \<open>init_table st = st\<close> by (auto intro: store_ok_same simp: diagnostic_set_def)
    qed
  qed
qed

lemma release_store_ok:
  assumes "store_ok st" "name_fits env name" "se_free_result_name env st name = Done st'"
  shows "store_ok st'"
proof (cases "named st (name_key env name)")
  case None
  have "st' = st \<or> st' = (init_table st)\<lparr>diags := [30] @ diags st\<rparr>"
    using assms(3) check_plain [OF tab_okI [OF assms(1)] assms(2)] None
    by (auto simp: se_free_result_name_def split: if_splits)
  then show ?thesis using store_ok_diags assms(1) by auto
next
  case (Some rs)
  then show ?thesis using free_name_facts [OF assms(1,2) Some] assms(3) by auto
qed

lemma remove_store_ok:
  assumes "store_ok st" "name_fits env name" "name \<noteq> ''***TMP*BITMAP*RESULTS***''" "se_delete_result_set env st name = Done (st', r)"
  shows "store_ok st'"
proof (cases "named st (name_key env name)")
  case None
  have "st' = st \<or> st' = (init_table st)\<lparr>diags := [30, 30] @ diags st\<rparr>"
    using assms(4) check_plain [OF tab_okI [OF assms(1)] assms(2)] None
    by (auto simp: se_delete_result_set_def diagnostic_set_def split: if_splits)
  then show ?thesis using store_ok_diags assms(1) by auto
next
  case (Some rs)
  then show ?thesis using delete_facts [OF assms(1,2) Some assms(3)] assms(4) by auto
qed

lemma search_store_ok:
  assumes "store_ok st" shows "store_ok (fst (alloc_set s st))"
proof -
  have po: "ptr_ok (named st) (heap st) (files st) (heap_next st)" and to: "tab_ok st" using assms by (simp_all add: store_ok_def)
  let ?st = "st\<lparr>heap := (heap st)(heap_next st \<mapsto> s), heap_next := heap_next st + 1\<rparr>"
  have "tab_ok ?st" by (rule tab_ok_same [OF _ _ to]) simp_all
  moreover have "ptr_ok (named st) ((heap st)(heap_next st \<mapsto> s)) (files st) (heap_next st + 1)"
    by (rule ptr_ok_alloc [OF po])
  moreover have "named ?st = named st" by (rule named_same) simp
  ultimately show ?thesis by (simp add: alloc_set_def store_ok_def)
qed

lemma session_store_ok:
  assumes env: "\<And>fs dir. length (mkstemp_name env fs dir) < 500" "\<And>f. fopen_ok env f"
    and "session env (st, b) (st', b')" "\<not> b'" "store_ok st"
  shows "store_ok st' \<and> \<not> b"
  using assms(3)
proof cases
  case (search s)
  then show ?thesis using search_store_ok [OF assms(5)] assms(4) by simp
next
  case (keep name p s sf dir flags r)
  then show ?thesis using keep_store_ok [OF env(1,2) assms(5), of name p s sf dir flags st' r] assms(4) by blast
next
  case (fetch name scan q)
  then show ?thesis using get_total [OF assms(5) fetch(2), of scan] assms(4) by auto
next
  case (release name)
  then show ?thesis using release_store_ok [OF assms(5)] assms(4) by blast
next
  case (remove name r)
  then show ?thesis using remove_store_ok [OF assms(5)] assms(4) by blast
next
  case (clear r)
  then show ?thesis using delete_all_facts [OF assms(5)] assms(4) by auto
qed

lemma session_flag: "session env x y \<Longrightarrow> snd x \<Longrightarrow> snd y"
  by (induction rule: session.induct) simp_all

text \<open>
  C26: in a session of searches, stores, fetches, releases and deletions, in which no set that bears a name
  replaces the set of another name, the named sets stay allocated and unshared and the table well
  formed: fetching any name then never touches freed memory and returns an allocated set or none, and
  deleting all sets frees none twice. Without that restriction the statement
  is false: \<open>replaced_set_is_shared\<close> is the session that replaces once. The names are
  plain and fit their array, the table has room, files can be opened, and the name of the temporary
  bitmap set is not deleted. The steps of a session are calls that return; storing a set whose number of hits is negative
  with its file is none (\<open>unknown_hits_crash\<close>).
\<close>

theorem session_keeps_store:
  assumes "\<And>fs dir. length (mkstemp_name env fs dir) < 500" "\<And>f. fopen_ok env f" "store_ok st"
    and "(session env)\<^sup>*\<^sup>* (st, False) (st', False)" "name_fits env name"
  shows "store_ok st'
    \<and> (\<exists>st2 q. se_get_result_set scan env st' name = Done (st2, q) \<and> store_ok st2 \<and> (q = 0 \<or> (\<exists>s. heap st2 q = Some s)))
    \<and> (\<exists>st2. se_delete_all_result_sets st' = Done (st2, SUCCEED) \<and> store_ok st2)"
proof -
  have "\<not> snd x \<longrightarrow> store_ok (fst x)" if "(session env)\<^sup>*\<^sup>* (st, False) x" for x
    using that
  proof (induction rule: rtranclp_induct)
    case (step y z)
    obtain yst yb where y: "y = (yst, yb)" by force
    obtain zst zb where z: "z = (zst, zb)" by force
    have "\<not> zb \<longrightarrow> \<not> yb" using session_flag [OF step(2)] y z by auto
    then show ?case using session_store_ok [OF assms(1,2), of yst yb zst zb] step y z by auto
  qed (simp add: assms(3))
  from this [OF assms(4)] have ok: "store_ok st'" by simp
  then show ?thesis using get_total [OF ok assms(5)] delete_all_facts [OF ok] by blast
qed

text \<open>
  A sample session: the set 3, 5 is stored with its file under a name, the set of that name is stored under a second
  one, the first is freed and read back from its file, and the second is deleted.
\<close>

definition sample_session :: "(store \<times> store \<times> store \<times> store \<times> store \<times> int) run" where
  "sample_session =
     run_bind (stored (sample_store, 0) 1 ''first'') (\<lambda>r1. run_bind (stored r1 1 ''second'') (\<lambda>r2.
     run_bind (freed r2 ''first'') (\<lambda>r3. run_bind (got r3 ''first'') (\<lambda>r4.
     run_bind (se_delete_result_set sample_env (fst r4) ''second'') (\<lambda>r5.
       Done (fst r1, fst r2, fst r3, fst r4, fst r5, snd r4))))))"

lemma sample_session_values:
  "run_bind sample_session (\<lambda>(s1, s2, s3, s4, s5, q). Done (Option.is_none (heap s1 1), store_room s1, map_option setid (heap s1 1),
       Option.is_none (named s1 (name_key sample_env ''second'')), map_option (map record_num \<circ> hits) (heap s5 q), q))
   = Done (False, True, Some ''first'', True, Some [3, 5], 6)"
  by code_simp

theorem session_keeps_store_witness:
  "\<exists>st' st2. (session sample_env)\<^sup>*\<^sup>* (sample_store, False) (st', False) \<and> store_ok st'
     \<and> map_option (map record_num \<circ> hits) (heap st' 6) = Some [3, 5] \<and> se_delete_all_result_sets st' = Done (st2, SUCCEED)"
proof -
  obtain s1 s2 s3 s4 s5 q where run: "sample_session = Done (s1, s2, s3, s4, s5, q)"
    using sample_session_values by (cases sample_session) auto
  have v: "heap s1 1 \<noteq> None" "store_room s1" "map_option setid (heap s1 1) = Some ''first''" "named s1 (name_key sample_env ''second'') = None"
      "map_option (map record_num \<circ> hits) (heap s5 q) = Some [3, 5]" "q = 6"
    using sample_session_values by (auto simp: run Option.is_none_def)
  from run obtain r1 r2 r5 where steps: "stored (sample_store, 0) 1 ''first'' = Done (s1, r1)" "stored (s1, r1) 1 ''second'' = Done (s2, r2)"
      "se_free_result_name sample_env s2 ''first'' = Done s3" "se_get_result_set (\<lambda>s rs. None) sample_env s3 ''first'' = Done (s4, q)"
      "se_delete_result_set sample_env s4 ''second'' = Done (s5, r5)"
    by (auto simp: sample_session_def run_bind_eq_Done freed_def got_def)
  have n: "name_fits sample_env ''first''" "name_fits sample_env ''second''" by code_simp+
  have ns: "''second'' \<noteq> ''***TMP*BITMAP*RESULTS***''" by simp
  have 1: "session sample_env (sample_store, False) (s1, False \<or> replaces_by_named sample_env sample_store (sample_set [3, 5]) ''first'' REPLACE_RESULT_SETS)"
    by (rule session.keep [OF n(1) sample_store_facts(4,7)]) (use steps(1) in \<open>simp add: stored_def\<close>)
  obtain u where u: "heap s1 1 = Some u" using v(1) by blast
  have 2: "session sample_env (s1, False) (s2, False \<or> replaces_by_named sample_env s1 u ''second'' REPLACE_RESULT_SETS)"
    by (rule session.keep [OF n(2) u v(2)]) (use steps(2) in \<open>simp add: stored_def\<close>)
  have 3: "session sample_env (s2, False) (s3, False)" by (rule session.release [OF n(1) steps(3)])
  have 4: "session sample_env (s3, False) (s4, False)" by (rule session.fetch [OF n(1) steps(4)])
  have 5: "session sample_env (s4, False) (s5, False)" by (rule session.remove [OF n(2) ns steps(5)])
  have f1: "\<not> replaces_by_named sample_env sample_store (sample_set [3, 5]) ''first'' REPLACE_RESULT_SETS"
    by (simp add: replaces_by_named_def sample_store_facts(6))
  have f2: "\<not> replaces_by_named sample_env s1 u ''second'' REPLACE_RESULT_SETS" by (simp add: replaces_by_named_def v(4))
  have whole: "(session sample_env)\<^sup>*\<^sup>* (sample_store, False) (s5, False)"
    using 1 2 3 4 5 f1 f2 by (simp add: rtranclp.rtrancl_into_rtrancl)
  have env: "length (mkstemp_name sample_env fs dir) < 500" "fopen_ok sample_env f" for fs dir f by (simp_all add: sample_env_def)
  from session_keeps_store [OF env sample_store_facts(1) whole n(1)]
  have ok: "store_ok s5" "\<exists>st2. se_delete_all_result_sets s5 = Done (st2, SUCCEED) \<and> store_ok st2" by blast+
  then show ?thesis using whole v(5,6) by auto
qed

text \<open>
  A deleted name is gone: its set is freed, fetching it gives none and the diagnostic 30,
  and every other name keeps its set.
\<close>

theorem deleted_set_is_gone:
  assumes "store_ok st" "name_fits env name" "named st (name_key env name) = Some rs" "name \<noteq> ''***TMP*BITMAP*RESULTS***''"
  shows "\<exists>st' st2. se_delete_result_set env st name = Done (st', SUCCEED) \<and> store_ok st' \<and> heap st' (result_ptr rs) = None
    \<and> (\<forall>k. k \<noteq> name_key env name \<longrightarrow> named st' k = named st k)
    \<and> se_get_result_set scan env st' name = Done (st2, 0) \<and> diags st2 = 30 # diags st'"
proof -
  obtain st' where st': "se_delete_result_set env st name = Done (st', SUCCEED)" "store_ok st'"
      "named st' = (named st)(name_key env name := None)" "heap st' = (heap st)(result_ptr rs := None)"
    using delete_facts [OF assms] by blast
  moreover have "named st' (name_key env name) = None" using st'(3) by simp
  ultimately show ?thesis using get_unknown [OF st'(2) assms(2), of scan] by auto
qed

theorem deleted_set_is_gone_witness:
  "\<exists>st st' st2. se_store_result_set sample_env sample_store 1 ''first'' ''db'' ''/tmp'' 0 = Done (st, SUCCEED)
     \<and> se_delete_result_set sample_env st ''first'' = Done (st', SUCCEED) \<and> heap st' 1 = None
     \<and> se_get_result_set (\<lambda>s rs. None) sample_env st' ''first'' = Done (st2, 0)"
proof -
  note s = sample_store_facts
  obtain st where st: "se_store_result_set sample_env sample_store 1 ''first'' ''db'' ''/tmp'' 0 = Done (st, SUCCEED)" "store_ok st"
      "named st (name_key sample_env ''first'') = Some (new_data sample_env sample_store 1 (sample_set [3, 5]) ''first'' ''db'' ''/tmp'' 0)"
    using store_new_facts [OF s(1-4) disjI1 [OF s(6)] s(7,8) _ hits_fit_storable [OF s(5)], of 0 "''db''"] s(10) by auto
  show ?thesis using deleted_set_is_gone [OF st(2) s(2) st(3), of "\<lambda>s rs. None"] st(1)
    by (auto simp: new_data_def new_ptr_def s(6))
qed

section \<open>Selecting records by number\<close>

text \<open>A list of numbers as it follows the name of a set.\<close>

definition number_list :: "int list \<Rightarrow> string" where
  "number_list ns = concat (map (\<lambda>n. print_int n @ '','') ns)"

lemma number_token:
  assumes "1 \<le> n"
  shows "print_int n \<noteq> []" "\<forall>c \<in> set (print_int n). c \<noteq> CHR '',''" "CHR ''-'' \<notin> set (print_int n)" "\<not> strcaseeq (print_int n) ''FIND''"
    "subset_token m (print_int n) = Some [n - 1]"
proof -
  have p: "print_int n = nat_digits (nat n)" using assms by (simp add: print_int_def)
  note d = nat_digits_facts [of "nat n"]
  show "print_int n \<noteq> []" unfolding p by (rule d(1))
  show "\<forall>c \<in> set (print_int n). c \<noteq> CHR '',''" and dash: "CHR ''-'' \<notin> set (print_int n)"
    unfolding p using d(2) digit_not_special by blast+
  obtain c r where cr: "print_int n = c # r" using d(1) unfolding p by (cases "nat_digits (nat n)") auto
  then have "c_isdigit c" using d(2) unfolding p by simp
  then have "c_toupper c \<noteq> CHR ''F''" by (auto simp: c_toupper_def c_isdigit_def ch_def)
  moreover have "c_toupper (CHR ''F'') = CHR ''F''" by (simp add: c_toupper_def ch_def)
  ultimately show "\<not> strcaseeq (print_int n) ''FIND''" unfolding cr by (simp add: strcaseeq_def str_upper_def)
  show "subset_token m (print_int n) = Some [n - 1]" using dash atoi_print [of n] assms by (simp add: subset_token_def)
qed

lemma number_list_tokens: "\<forall>n \<in> set ns. 1 \<le> n \<Longrightarrow> strtok_all (\<lambda>c. c = CHR '','') (number_list ns) = map print_int ns"
proof (induction ns)
  case Nil
  then show ?case by (simp add: number_list_def strtok_all.simps strtok_first_def)
next
  case (Cons n ns)
  have "number_list (n # ns) = print_int n @ CHR '','' # number_list ns" by (simp add: number_list_def)
  then show ?case using strtok_join [of "print_int n" "\<lambda>c. c = CHR '',''" "CHR '',''" "number_list ns"] number_token(1,2) [of n] Cons by simp
qed

lemma subset_loop_numbers:
  assumes "\<forall>n \<in> set ns. 1 \<le> n" "int (length recs + length ns) \<le> m"
  shows "subset_loop m (map print_int ns) False recs [] = Done (Some (recs @ map (\<lambda>n. n - 1) ns, False, []))"
  using assms by (induction ns arbitrary: recs) (simp_all add: number_token)

lemma pick_all_numbers:
  assumes "\<forall>n \<in> set ns. 1 \<le> n \<and> n \<le> num_hits s"
  shows "\<exists>es. pick_all s (map (\<lambda>n. n - 1) ns) = Some es \<and> length es = length ns
    \<and> map record_num es = map (\<lambda>n. record_num (entries s ! nat (n - 1))) ns \<and> map weight es = map (\<lambda>n. weight (entries s ! nat (n - 1))) ns"
  using assms by (induction ns) (auto simp: pick_def new_entry_def)

text \<open>
  C28: a name followed by a list of numbers between 1 and the number of hits, no more than there are
  hits, selects exactly the records at those positions, in the order asked for.
\<close>

theorem subset_selects_positions:
  assumes "\<forall>n \<in> set ns. 1 \<le> n \<and> n \<le> num_hits s" "int (length ns) \<le> num_hits s" "ns \<noteq> []"
  shows "\<exists>w. se_get_result_subset scan s (number_list ns) = Done ([], Some w) \<and> setid w = []
    \<and> map record_num (hits w) = map (\<lambda>n. record_num (entries s ! nat (n - 1))) ns
    \<and> map weight (hits w) = map (\<lambda>n. weight (entries s ! nat (n - 1))) ns"
proof -
  obtain es where es: "pick_all s (map (\<lambda>n. n - 1) ns) = Some es" "length es = length ns"
      "map record_num es = map (\<lambda>n. record_num (entries s ! nat (n - 1))) ns" "map weight es = map (\<lambda>n. weight (entries s ! nat (n - 1))) ns"
    using pick_all_numbers [OF assms(1)] by blast
  let ?w = "s\<lparr>num_hits := int (length ns), setid := [], entries := keep_first_xtra s es\<rparr>"
  have k: "map record_num (keep_first_xtra s es) = map record_num es" "map weight (keep_first_xtra s es) = map weight es"
    "length (keep_first_xtra s es) = length es"
    by (auto simp: keep_first_xtra_def split: list.splits)
  have "se_get_result_subset scan s (number_list ns) = Done ([], Some ?w)"
    using es(1) assms by (simp add: se_get_result_subset_def number_list_tokens subset_loop_numbers)
  moreover have "hits ?w = keep_first_xtra s es" using k(3) es(2) by (simp add: hits_def)
  ultimately show ?thesis using k(1,2) es(3,4) by simp
qed

theorem subset_selects_positions_witness:
  "\<exists>w. se_get_result_subset (\<lambda>s rs. None) (sample_set [3, 5, 8]) (number_list [3, 1]) = Done ([], Some w) \<and> map record_num (hits w) = [8, 3]"
  using subset_selects_positions [of "[3, 1]" "sample_set [3, 5, 8]" "\<lambda>s rs. None"] by (auto simp: sample_set_def new_entry_def)

section \<open>Findings\<close>

text \<open>
  Finding: the file of a replaced set is not written again, because \<open>!=\<close> binds tighter than \<open>&\<close>: after
  the set 7 has replaced the set 3, 5 under a name and was freed in memory, fetching the name gives
  the old set.
\<close>

theorem replaced_set_reverts:
  "run_bind (stored (sample_store, 0) 1 ''first'') (\<lambda>r1. run_bind (stored r1 2 ''first'') (\<lambda>r2.
     run_bind (freed r2 ''first'') (\<lambda>r3. run_bind (got r3 ''first'') (\<lambda>r4.
       Done (snd r1, snd r2, map_option (map record_num \<circ> hits) (heap (fst r4) (snd r4)))))))
   = Done (SUCCEED, SUCCEED, Some [3, 5])"
  by code_simp

text \<open>
  Finding: replacing the set of a name by the set of another name makes both names point to one set;
  deleting all sets then frees it twice.
\<close>

theorem replaced_set_is_shared:
  "run_bind (stored (sample_store, 0) 1 ''first'') (\<lambda>r1. run_bind (stored r1 2 ''second'') (\<lambda>r2. run_bind (stored r2 1 ''second'') (\<lambda>r3.
     run_bind (got r3 ''first'') (\<lambda>r4. run_bind (got r3 ''second'') (\<lambda>r5. Done (snd r4, snd r5))))))
   = Done (1, 1)
   \<and> run_bind (stored (sample_store, 0) 1 ''first'') (\<lambda>r1. run_bind (stored r1 2 ''second'') (\<lambda>r2. run_bind (stored r2 1 ''second'') (\<lambda>r3.
       run_bind (se_delete_all_result_sets (fst r3)) (\<lambda>r4. Done (snd r4)))))
   = Crash"
  by (intro conjI; code_simp)

text \<open>
  Finding: \<open>really_stored\<close> is set after the structure has been written, so that a set read back from
  its file counts as not stored, and deleting it leaves the file behind.
\<close>

theorem reloaded_set_leaves_file:
  "run_bind (stored (sample_store, 0) 1 ''first'') (\<lambda>r1. run_bind (freed r1 ''first'') (\<lambda>r2. run_bind (got r2 ''first'') (\<lambda>r3.
     run_bind (se_delete_result_set sample_env (fst r3) ''first'') (\<lambda>r4. Done (snd r4, Option.is_none (files (fst r4) ''/tmp/cheshAb12cd''))))))
   = Done (SUCCEED, False)"
  by code_simp

text \<open>
  Finding: the array for the list of the names is as long as the names and the blanks after them, so
  that the null character at the end is written behind it.
\<close>

theorem set_names_overrun:
  "run_bind (stored (sample_store, 0) 1 ''first'') (\<lambda>r1. se_get_all_result_set_names (fst r1)) = Crash
   \<and> se_get_all_result_set_names sample_store = Done []"
  by (intro conjI; code_simp)

text \<open>
  Finding: a bitmap of several terms has -1 for its number of hits; storing it with its file takes the -1
  for a huge number of entries to write. The second set is stored with an array of exactly its hits, of which the
  last entry written is missing.
\<close>

definition bitmap_store :: store where
  "bitmap_store = sample_store\<lparr>heap := [1 \<mapsto> (sample_set [3])\<lparr>num_hits := - 1\<rparr>, 2 \<mapsto> (sample_set [3])\<lparr>num_hits := 2\<rparr>]\<rparr>"

theorem unknown_hits_crash:
  "run_bind (stored (bitmap_store, 0) 1 ''first'') (\<lambda>r. Done (snd r)) = Crash
   \<and> run_bind (stored (bitmap_store, 0) 2 ''first'') (\<lambda>r. Done (snd r)) = Crash"
  by (intro conjI; code_simp)

end
