(* ===== verification/Page_Docs.thy ===== *)
theory Page_Docs
  imports Boolean_Merge Tcl_Hash
begin

text \<open>
  The documents of a paged result set, \<open>src/search/se_get_page_docs.c\<close>. A search on a paged index finds
  pages; the page associator file of the index says of each page which document it belongs to.
  \<open>se_get_page_assoc\<close> keeps up to ten of these files in memory; \<open>se_get_page_docs\<close> collects
  the pages of each document in a hash table and makes a result set of the documents.

  The files are a parameter: \<open>files f tag\<close> is the content of the associator file of the index \<open>tag\<close> of the
  database \<open>f\<close> as \<open>cf_index_open\<close> (\<open>src/config\<close>) opens it, \<open>None\<close> if it returns a null pointer. A pointer into a buffer
  is the number of the buffer and an index; reading outside the buffer is \<open>Crash\<close>. The list of the pages of a document (\<open>page_ptr\<close>, \<open>next\<close>, \<open>lastpage\<close>)
  is a list, and the structure that a table entry points to is the data of the entry. The theorems: the documents are
  those of the pages that were found, each once, with the mean weight of the source;
  the composition with the merge of document sets.
\<close>

unbundle bit_operations_syntax

section \<open>Page associator files\<close>

record page_assoc_rec =
  parentid :: int
  pagenum :: int
  recsize :: int
  nameoffset :: int

definition no_page :: page_assoc_rec where
  "no_page = \<lparr>parentid = 0, pagenum = 0, recsize = 0, nameoffset = 0\<rparr>"

type_synonym page_files = "string \<Rightarrow> string \<Rightarrow> page_assoc_rec list option"

definition MAXPAGEBUFFS :: nat where "MAXPAGEBUFFS = 10"

record page_info_buffer =
  pb_tag :: "string option"
  pb_maxpagenum :: int
  pb_pagedata :: "page_assoc_rec list"

definition no_buffer :: page_info_buffer where
  "no_buffer = \<lparr>pb_tag = None, pb_maxpagenum = 0, pb_pagedata = []\<rparr>"

text \<open>The static variables \<open>firstcall\<close> and \<open>page_info_buffers\<close>.\<close>

record page_state =
  firstcall :: bool
  page_info_buffers :: "page_info_buffer list"

definition initial_pages :: page_state where
  "initial_pages = \<lparr>firstcall = True, page_info_buffers = replicate MAXPAGEBUFFS no_buffer\<rparr>"

text \<open>Where the loop over the buffers stops: at a buffer with the tag, at the first free one, or at the end.\<close>

fun scan_buffers :: "page_info_buffer list \<Rightarrow> string \<Rightarrow> nat" where
  "scan_buffers [] tag = 0"
| "scan_buffers (b # bs) tag = (if pb_tag b = None \<or> pb_tag b = Some tag then 0 else Suc (scan_buffers bs tag))"

text \<open>The new buffer has one record more than the file, of zeros. The page number is not checked on this path.\<close>

definition se_get_page_assoc ::
    "page_files \<Rightarrow> page_state \<Rightarrow> string option \<Rightarrow> string option \<Rightarrow> int \<Rightarrow> (page_state \<times> (nat \<times> int) option) run" where
  "se_get_page_assoc files st fname indextag pn =
     (case (fname, indextag) of
        (Some f, Some tag) \<Rightarrow>
          let st = (if firstcall st then initial_pages\<lparr>firstcall := False\<rparr> else st);
              bufs = page_info_buffers st; i = scan_buffers bufs tag
          in if i = MAXPAGEBUFFS then Done (st, None)
             else if pb_tag (bufs ! i) \<noteq> None
             then Done (st, if pn > pb_maxpagenum (bufs ! i) then None else Some (i, pn))
             else (case files f tag of
                 None \<Rightarrow> Crash
               | Some recs \<Rightarrow> Done (st\<lparr>page_info_buffers := bufs[i := \<lparr>pb_tag = Some tag, pb_maxpagenum = int (length recs),
                     pb_pagedata = recs @ [no_page]\<rparr>]\<rparr>, Some (i, pn)))
      | _ \<Rightarrow> Done (st, None))"

definition read_page :: "page_state \<Rightarrow> (nat \<times> int) option \<Rightarrow> page_assoc_rec run" where
  "read_page st p = run_bind (deref p) (\<lambda>(i, pn).
     let d = pb_pagedata (page_info_buffers st ! i)
     in if 0 \<le> pn \<and> pn < int (length d) then Done (d ! nat pn) else Crash)"

section \<open>The documents of the pages\<close>

record pageitem =
  pi_pagenum :: int
  pi_setindex :: int
  pi_pageid :: int

record docsum =
  num_pages :: int
  sum_wts :: cfloat
  page_list :: "pageitem list"

text \<open>\<open>(void *)recnum\<close>, of a \<open>long\<close>, and \<open>(int)Tcl_GetHashKey (...)\<close>\<close>

definition record_key :: "int \<Rightarrow> hash_key" where
  "record_key n = OneWordKey (word_of_int n)"

definition key_record :: "hash_key \<Rightarrow> int" where
  "key_record k = (case k of OneWordKey w \<Rightarrow> c_int (uint w) | _ \<Rightarrow> 0)"

text \<open>One hit put into the table; the address of a new entry is \<open>a\<close>.\<close>

definition add_page :: "docsum hash_table \<Rightarrow> int \<Rightarrow> int \<Rightarrow> int \<Rightarrow> page_assoc_rec \<Rightarrow> cfloat \<Rightarrow> (docsum hash_table \<times> int) run" where
  "add_page hash_tab idnumber a i page_data w =
     (let key = record_key (parentid page_data);
          newpage = \<lparr>pi_pagenum = pagenum page_data, pi_setindex = i, pi_pageid = idnumber\<rparr>
      in run_bind (Tcl_FindHashEntry hash_tab key) (\<lambda>found. case found of
           None \<Rightarrow>
             run_bind (Tcl_CreateHashEntry hash_tab a key) (\<lambda>(t, b, _).
               Done (Tcl_SetHashValue t b \<lparr>num_pages = 1, sum_wts = w, page_list = [newpage]\<rparr>, 1))
         | Some h \<Rightarrow>
             run_bind (deref (he_data h)) (\<lambda>d.
               Done (Tcl_SetHashValue hash_tab (he_addr h)
                 \<lparr>num_pages = c_int (num_pages d + 1), sum_wts = fl_add binary32 (sum_wts d) w,
                  page_list = page_list d @ [newpage]\<rparr>, 0))))"

text \<open>The loop over the hits: the state of the buffers, the table and \<open>doc_count\<close>.\<close>

fun page_loop :: "page_files \<Rightarrow> string \<Rightarrow> string option \<Rightarrow> int \<Rightarrow> int \<Rightarrow> weighted_entry list
    \<Rightarrow> page_state \<Rightarrow> docsum hash_table \<Rightarrow> int \<Rightarrow> (page_state \<times> docsum hash_table \<times> int) run" where
  "page_loop files f tag idnumber i [] st hash_tab doc_count = Done (st, hash_tab, doc_count)"
| "page_loop files f tag idnumber i (e # es) st hash_tab doc_count =
     run_bind (se_get_page_assoc files st (Some f) tag (record_num e)) (\<lambda>r1.
     run_bind (read_page (fst r1) (snd r1)) (\<lambda>page_data.
     run_bind (add_page hash_tab idnumber (i + 1) i page_data (weight e)) (\<lambda>r2.
       page_loop files f tag idnumber (i + 1) es (fst r1) (fst r2) (doc_count + snd r2))))"

text \<open>
  \<open>filename\<close> is copied into an array of 100 characters and divided at the first colon. Without a colon the
  variable \<open>index_tag\<close> has no value: the copy succeeds and the first use of it is a fault. The result
  is \<open>None\<close> for the null pointer returned when a single colon is found.
\<close>

datatype page_name = NoIndexName | IndexTag string string | UnsetTag string

definition page_filename :: "string \<Rightarrow> page_name run" where
  "page_filename name =
     (if length name \<ge> 100 then Crash
      else let f = takeWhile (\<lambda>c. c \<noteq> CHR '':'') name in
        Done (case dropWhile (\<lambda>c. c \<noteq> CHR '':'') name of
            [] \<Rightarrow> UnsetTag f
          | c # r \<Rightarrow> (case r of [] \<Rightarrow> NoIndexName | c2 # tag \<Rightarrow> if c2 = CHR '':'' then IndexTag f tag else NoIndexName)))"

definition page_types :: int where
  "page_types = PROBABILISTIC_RESULT OR OKAPI_RESULT OR CORI_RESULT OR FUZZY_RESULT OR BLOB_RESULT"

definition doc_weight :: "docsum \<Rightarrow> cfloat" where
  "doc_weight d = fl_to binary32 (fl_div binary64 (sum_wts d) (fl_add binary64 (fl_round binary32 (of_int (num_pages d))) (Fin 1)))"

definition page_entry :: "docsum hash_entry \<Rightarrow> weighted_entry run" where
  "page_entry h = run_bind (deref (he_data h)) (\<lambda>d. Done (new_entry (key_record (he_key h)) (doc_weight d)))"

definition page_docs_set :: "weighted_result \<Rightarrow> docsum hash_table \<Rightarrow> int \<Rightarrow> weighted_result run" where
  "page_docs_set inset hash_tab doc_count =
     run_bind (run_map page_entry (hash_entries hash_tab)) (\<lambda>es.
       let prob = result_type inset AND page_types;
           newset = new_result\<lparr>num_hits := doc_count, filename := filename inset, result_type := PAGED_DOC_RESULT, entries := es\<rparr>
       in Done (if prob \<noteq> 0 then se_rank_docs (newset\<lparr>result_type := PAGED_DOC_RESULT OR prob\<rparr>) else newset))"

text \<open>The new set and the table that \<open>*return_hash\<close> is set to.\<close>

definition se_get_page_docs :: "page_files \<Rightarrow> page_state \<Rightarrow> weighted_result option \<Rightarrow> int
    \<Rightarrow> (page_state \<times> (weighted_result \<times> docsum hash_table) option) run" where
  "se_get_page_docs files st inset idnumber =
     (case inset of
        None \<Rightarrow> Done (st, None)
      | Some s \<Rightarrow>
          if \<not> has_flag s PAGED_RESULT then Done (st, None)
          else run_bind (page_filename (filename s)) (\<lambda>nm.
            let docs = (\<lambda>f tag. run_bind (page_loop files f tag idnumber 0 (hits s) st (Tcl_InitHashTable TCL_ONE_WORD_KEYS) 0)
                  (\<lambda>r. run_bind (page_docs_set s (fst (snd r)) (snd (snd r))) (\<lambda>newset. Done (fst r, Some (newset, fst (snd r))))))
            in case nm of
                 NoIndexName \<Rightarrow> Done (st, None)
               | IndexTag f tag \<Rightarrow> docs f (Some tag)
               | UnsetTag f \<Rightarrow> if hits s = [] then docs f None else Crash))"

text \<open>
  \<open>free_page_hash_tab\<close>: what is released, in order. The loop over the pages releases each page after
  its \<open>next\<close> has been taken.
\<close>

datatype page_block = PageItem pageitem | DocSum hash_key | Buckets | HashTable

fun free_pages :: "pageitem \<Rightarrow> pageitem list \<Rightarrow> page_block list" where
  "free_pages lastpage [] = [PageItem lastpage]"
| "free_pages lastpage (p # ps) = PageItem lastpage # free_pages p ps"

definition free_doc :: "docsum hash_entry \<Rightarrow> page_block list run" where
  "free_doc h = run_bind (deref (he_data h)) (\<lambda>d.
     Done ((case page_list d of [] \<Rightarrow> [] | p # ps \<Rightarrow> free_pages p ps) @ [DocSum (he_key h)]))"

definition free_page_hash_tab :: "docsum hash_table option \<Rightarrow> page_block list run" where
  "free_page_hash_tab tab =
     (case tab of
        None \<Rightarrow> Done []
      | Some t \<Rightarrow> run_bind (run_map free_doc (hash_entries t)) (\<lambda>bs. Done (concat bs @ [Buckets, HashTable])))"

section \<open>Reading the associator\<close>

text \<open>The pages of the index can be read: from the buffer with its tag, or from its file into a free buffer.\<close>

definition pages_available :: "page_files \<Rightarrow> page_state \<Rightarrow> string \<Rightarrow> string \<Rightarrow> page_assoc_rec list \<Rightarrow> bool" where
  "pages_available files st f tag recs \<longleftrightarrow>
     (let bufs = page_info_buffers (if firstcall st then initial_pages else st); i = scan_buffers bufs tag
      in length bufs = MAXPAGEBUFFS \<and> i < MAXPAGEBUFFS
       \<and> (if pb_tag (bufs ! i) = None then files f tag = Some recs
          else pb_maxpagenum (bufs ! i) = int (length recs) \<and> pb_pagedata (bufs ! i) = recs @ [no_page]))"

lemma scan_buffers_update:
  assumes "scan_buffers bs tag < length bs" "pb_tag (bs ! scan_buffers bs tag) = None" "pb_tag b = Some tag"
  shows "scan_buffers (bs[scan_buffers bs tag := b]) tag = scan_buffers bs tag"
  using assms by (induction bs) (auto split: if_splits)

lemma page_read:
  assumes "pages_available files st f tag recs" "0 \<le> n" "n < int (length recs)"
  shows "\<exists>st' p. se_get_page_assoc files st (Some f) (Some tag) n = Done (st', p) \<and> read_page st' p = Done (recs ! nat n)
    \<and> pages_available files st' f tag recs"
proof -
  define s0 where "s0 = (if firstcall st then initial_pages\<lparr>firstcall := False\<rparr> else st)"
  define bufs where "bufs = page_info_buffers s0"
  define i where "i = scan_buffers bufs tag"
  have f0: "\<not> firstcall s0" by (simp add: s0_def)
  have "page_info_buffers (if firstcall st then initial_pages else st) = bufs" by (simp add: s0_def bufs_def)
  with assms(1) have av: "length bufs = MAXPAGEBUFFS" "i < MAXPAGEBUFFS"
    "if pb_tag (bufs ! i) = None then files f tag = Some recs
     else pb_maxpagenum (bufs ! i) = int (length recs) \<and> pb_pagedata (bufs ! i) = recs @ [no_page]"
    by (simp_all add: pages_available_def Let_def i_def)
  have nth: "(recs @ [no_page]) ! nat n = recs ! nat n" using assms(2,3) by (simp add: nth_append)
  have call: "se_get_page_assoc files st (Some f) (Some tag) n =
     (if pb_tag (bufs ! i) \<noteq> None then Done (s0, Some (i, n))
      else Done (s0\<lparr>page_info_buffers := bufs[i := \<lparr>pb_tag = Some tag, pb_maxpagenum = int (length recs),
        pb_pagedata = recs @ [no_page]\<rparr>]\<rparr>, Some (i, n)))"
    using av assms(3) by (simp add: se_get_page_assoc_def Let_def s0_def [symmetric] bufs_def [symmetric] i_def [symmetric])
  show ?thesis
  proof (cases "pb_tag (bufs ! i)")
    case None
    then show ?thesis
      using call av assms(2,3) nth f0 scan_buffers_update [of bufs tag] by (simp add: read_page_def pages_available_def Let_def i_def)
  next
    case (Some g)
    then show ?thesis
      using call av assms(2,3) nth f0 by (simp add: read_page_def pages_available_def Let_def i_def bufs_def)
  qed
qed

section \<open>The table of the documents\<close>

text \<open>A hit: the document of its page, the item for the list of pages, and its weight.\<close>

type_synonym page_hit = "int \<times> pageitem \<times> cfloat"

definition page_hit :: "page_assoc_rec list \<Rightarrow> int \<Rightarrow> int \<Rightarrow> weighted_entry \<Rightarrow> page_hit" where
  "page_hit recs idnumber i e = (let r = recs ! nat (record_num e)
     in (parentid r, \<lparr>pi_pagenum = pagenum r, pi_setindex = i, pi_pageid = idnumber\<rparr>, weight e))"

fun page_hits :: "page_assoc_rec list \<Rightarrow> int \<Rightarrow> int \<Rightarrow> weighted_entry list \<Rightarrow> page_hit list" where
  "page_hits recs idnumber i [] = []"
| "page_hits recs idnumber i (e # es) = page_hit recs idnumber i e # page_hits recs idnumber (i + 1) es"

definition pages_of :: "page_hit list \<Rightarrow> hash_key \<Rightarrow> page_hit list" where
  "pages_of ps k = filter (\<lambda>p. record_key (fst p) = k) ps"

definition summary :: "page_hit list \<Rightarrow> docsum" where
  "summary ps = \<lparr>num_pages = int (length ps),
     sum_wts = foldl (fl_add binary32) (snd (snd (hd ps))) (map (snd \<circ> snd) (tl ps)), page_list = map (fst \<circ> snd) ps\<rparr>"

lemma summary_snoc:
  assumes "ps \<noteq> []"
  shows "summary (ps @ [p]) = \<lparr>num_pages = num_pages (summary ps) + 1, sum_wts = fl_add binary32 (sum_wts (summary ps)) (snd (snd p)),
    page_list = page_list (summary ps) @ [fst (snd p)]\<rparr>"
  using assms by (simp add: summary_def)

definition docs_content :: "page_hit list \<Rightarrow> hash_key \<Rightarrow> docsum option option" where
  "docs_content ps k = (if pages_of ps k = [] then None else Some (Some (summary (pages_of ps k))))"

definition docs_ok :: "page_hit list \<Rightarrow> docsum hash_table \<Rightarrow> bool" where
  "docs_ok ps t \<longleftrightarrow> table_ok t \<and> procs t = OneWordProcs \<and> numEntries t \<le> int (length ps)
     \<and> (\<forall>k. map_option snd (table_map t k) = docs_content ps k) \<and> (\<forall>a \<in> table_live t. a \<le> int (length ps))"

lemma table_live_map:
  assumes "table_ok t" shows "a \<in> table_live t \<longleftrightarrow> (\<exists>k d. table_map t k = Some (a, d))"
  using table_map_items [OF assms] by (auto simp: table_live_def table_items_def item_def image_iff)

lemma set_value_fields [simp]:
  "numEntries (Tcl_SetHashValue t a v) = numEntries t" "procs (Tcl_SetHashValue t a v) = procs t"
  by (simp_all add: Tcl_SetHashValue_def)

lemma docs_content_snoc:
  "docs_content (ps @ [p]) = (docs_content ps)(record_key (fst p) := Some (Some (summary (pages_of ps (record_key (fst p)) @ [p]))))"
  by (auto simp: docs_content_def pages_of_def fun_eq_iff)

lemma add_page_ok:
  assumes "docs_ok ps t" "int (length ps) < 805306366"
  shows "\<exists>t' n. add_page t idnumber (int (length ps) + 1) i r w = Done (t', n)
    \<and> docs_ok (ps @ [(parentid r, \<lparr>pi_pagenum = pagenum r, pi_setindex = i, pi_pageid = idnumber\<rparr>, w)]) t' \<and> numEntries t' = numEntries t + n"
proof -
  let ?k = "record_key (parentid r)" and ?p = "(parentid r, \<lparr>pi_pagenum = pagenum r, pi_setindex = i, pi_pageid = idnumber\<rparr>, w)"
  have ok: "table_ok t" and pr: "procs t = OneWordProcs" and num: "numEntries t \<le> int (length ps)"
    and con: "\<And>k. map_option snd (table_map t k) = docs_content ps k" and live: "\<And>a. a \<in> table_live t \<Longrightarrow> a \<le> int (length ps)"
    using assms(1) by (auto simp: docs_ok_def)
  have fits: "key_fits t ?k" using pr by (simp add: key_fits_def record_key_def)
  have step: "docs_ok (ps @ [?p]) t'" if "table_ok t'" "procs t' = OneWordProcs" "numEntries t' \<le> int (length ps) + 1"
    "table_map t' = (table_map t)(?k \<mapsto> (a, Some (summary (pages_of ps ?k @ [?p]))))" "a \<le> int (length ps) + 1" for t' a
  proof -
    have "a' \<le> 1 + int (length ps)" if "a' \<in> table_live t'" for a'
      using that live [of a'] \<open>a \<le> _\<close> unfolding table_live_map [OF ok] table_live_map [OF \<open>table_ok t'\<close>] \<open>table_map t' = _\<close>
      by (fastforce split: if_splits)
    then show ?thesis using that con by (auto simp: docs_ok_def docs_content_snoc)
  qed
  show ?thesis
  proof (cases "table_map t ?k")
    case None
    then have e: "pages_of ps ?k = []" using con [of ?k] by (simp add: docs_content_def split: if_splits)
    have "int (length ps) + 1 \<notin> he_addr ` set (table_entries t)" using live by (force simp: table_live_def)
    moreover have "numEntries t + 1 < 805306368" using num assms(2) by simp
    ultimately obtain t1 where t1: "Tcl_CreateHashEntry t (int (length ps) + 1) ?k = Done (t1, int (length ps) + 1, 1)" "table_ok t1"
      "table_map t1 = (table_map t)(?k \<mapsto> (int (length ps) + 1, None))" "procs t1 = procs t" "numEntries t1 = numEntries t + 1"
      using create_entry [OF ok fits, of "int (length ps) + 1"] None by auto
    let ?d = "summary [?p]" and ?a = "int (length ps) + 1"
    have s: "table_ok (Tcl_SetHashValue t1 ?a ?d)" "table_map (Tcl_SetHashValue t1 ?a ?d) = (table_map t)(?k \<mapsto> (?a, Some ?d))"
      using tcl.set_law [OF t1(2), of ?k ?a None ?d] t1(3) by auto
    have "add_page t idnumber ?a i r w = Done (Tcl_SetHashValue t1 ?a ?d, 1)"
      using tcl.find_none [OF ok fits None] t1(1) by (simp add: add_page_def Let_def summary_def)
    moreover have "docs_ok (ps @ [?p]) (Tcl_SetHashValue t1 ?a ?d)"
      using s t1 pr num e by (intro step [of _ ?a]) simp_all
    ultimately show ?thesis using t1(5) by auto
  next
    case (Some x)
    then obtain a d where x: "table_map t ?k = Some (a, d)" by (cases x) simp
    then have e: "pages_of ps ?k \<noteq> []" "d = Some (summary (pages_of ps ?k))"
      using con [of ?k] by (auto simp: docs_content_def split: if_splits)
    obtain h where h: "Tcl_FindHashEntry t ?k = Done (Some h)" "he_addr h = a" "he_data h = d"
      using tcl.find_some [OF ok fits x] by blast
    let ?d = "summary (pages_of ps ?k @ [?p])"
    have s: "table_ok (Tcl_SetHashValue t a ?d)" "table_map (Tcl_SetHashValue t a ?d) = (table_map t)(?k \<mapsto> (a, Some ?d))"
      using tcl.set_law [OF ok x, of ?d] by auto
    have "a \<in> table_live t" using x table_live_map [OF ok] by blast
    have "length (pages_of ps ?k) \<le> length ps" by (simp add: pages_of_def)
    then have "is_c_int (num_pages (summary (pages_of ps ?k)) + 1)"
      using assms(2) by (simp add: is_c_int_def summary_def)
    then have "add_page t idnumber (int (length ps) + 1) i r w = Done (Tcl_SetHashValue t a ?d, 0)"
      using h e by (simp add: add_page_def Let_def summary_snoc [OF e(1)])
    moreover have "docs_ok (ps @ [?p]) (Tcl_SetHashValue t a ?d)"
      using s pr num live [OF \<open>a \<in> table_live t\<close>] by (intro step [of _ a]) simp_all
    ultimately show ?thesis by auto
  qed
qed

lemma page_loop_ok:
  assumes "pages_available files st f tag recs" "docs_ok ps t" "int (length ps + length es) < 805306367" "doc_count = numEntries t"
    "\<forall>e \<in> set es. 0 \<le> record_num e \<and> record_num e < int (length recs)" "i = int (length ps)"
  shows "\<exists>st' t'. page_loop files f (Some tag) idnumber i es st t doc_count = Done (st', t', numEntries t')
    \<and> docs_ok (ps @ page_hits recs idnumber i es) t' \<and> pages_available files st' f tag recs"
  using assms
proof (induction es arbitrary: st t ps doc_count i)
  case (Cons e es)
  obtain st1 p where a: "se_get_page_assoc files st (Some f) (Some tag) (record_num e) = Done (st1, p)"
    "read_page st1 p = Done (recs ! nat (record_num e))" "pages_available files st1 f tag recs"
    using page_read [OF Cons.prems(1), of "record_num e"] Cons.prems(5) by auto
  obtain t1 n where t1: "add_page t idnumber (i + 1) i (recs ! nat (record_num e)) (weight e) = Done (t1, n)"
    "docs_ok (ps @ [page_hit recs idnumber i e]) t1" "numEntries t1 = numEntries t + n"
    using add_page_ok [OF Cons.prems(2), of idnumber i] Cons.prems(3,6) by (force simp: page_hit_def Let_def)
  show ?case
    using Cons.IH [OF a(3) t1(2), of "doc_count + n" "i + 1"] Cons.prems a(1,2) t1(1,3) by simp
qed simp

lemma init_docs_ok: "docs_ok [] (Tcl_InitHashTable TCL_ONE_WORD_KEYS)"
proof -
  let ?t = "Tcl_InitHashTable TCL_ONE_WORD_KEYS :: docsum hash_table"
  have "table_entries ?t = []" by (simp add: table_entries_def Tcl_InitHashTable_def)
  moreover have "procs ?t = OneWordProcs" "numEntries ?t = 0"
    by (simp_all add: Tcl_InitHashTable_def TCL_STRING_KEYS_def TCL_ONE_WORD_KEYS_def)
  ultimately show ?thesis
    using init_ok(1) by (simp add: docs_ok_def docs_content_def pages_of_def table_map_def table_live_def)
qed

section \<open>The set of the documents\<close>

lemma key_record_key [simp]: "is_c_int n \<Longrightarrow> key_record (record_key n) = n"
proof -
  assume "is_c_int n"
  have "(n mod 18446744073709551616 + 2147483648) mod 4294967296 = (n mod 18446744073709551616 mod 4294967296 + 2147483648) mod 4294967296"
    by (simp only: mod_add_left_eq)
  also have "n mod 18446744073709551616 mod 4294967296 = n mod 4294967296" by (rule mod_mod_cancel) simp
  finally have "c_int (n mod 18446744073709551616) = c_int n" by (simp add: c_int_def mod_add_left_eq)
  with \<open>is_c_int n\<close> show ?thesis by (simp add: key_record_def record_key_def uint_word_of_int)
qed

lemma docs_ok_entries:
  assumes "docs_ok ps t"
  shows "he_key ` set (hash_entries t) = record_key ` fst ` set ps" "distinct (map he_key (hash_entries t))"
    "h \<in> set (hash_entries t) \<Longrightarrow> he_data h = Some (summary (pages_of ps (he_key h)))"
    "int (length (hash_entries t)) = numEntries t"
proof -
  have ok: "table_ok t" and con: "\<And>k. map_option snd (table_map t k) = docs_content ps k" using assms by (auto simp: docs_ok_def)
  note he = hash_entries_table [OF ok]
  have mem: "table_map t (he_key h) = Some (he_addr h, he_data h)" if "h \<in> set (hash_entries t)" for h
    using that table_map_items [OF ok] by (simp add: he table_items_def item_def image_iff) blast
  show data: "h \<in> set (hash_entries t) \<Longrightarrow> he_data h = Some (summary (pages_of ps (he_key h)))" for h
    using mem [of h] con [of "he_key h"] by (auto simp: docs_content_def split: if_splits)
  have "k \<in> he_key ` set (hash_entries t) \<longleftrightarrow> pages_of ps k \<noteq> []" for k
  proof -
    have "k \<in> he_key ` set (hash_entries t) \<longleftrightarrow> (\<exists>a d. table_map t k = Some (a, d))"
      using table_map_items [OF ok, of k] by (auto simp: he table_items_def item_def image_iff)
    also have "\<dots> \<longleftrightarrow> map_option snd (table_map t k) \<noteq> None" by auto
    finally show ?thesis unfolding con by (simp add: docs_content_def)
  qed
  moreover have "pages_of ps k \<noteq> [] \<longleftrightarrow> k \<in> record_key ` fst ` set ps" for k
    by (auto simp: pages_of_def filter_empty_conv)
  ultimately show "he_key ` set (hash_entries t) = record_key ` fst ` set ps" by blast
  show "distinct (map he_key (hash_entries t))" "int (length (hash_entries t)) = numEntries t"
    using ok he by (simp_all add: table_ok_def)
qed

text \<open>The conditions under which the pages of a set can be looked up.\<close>

definition pages_found :: "page_files \<Rightarrow> page_state \<Rightarrow> string \<Rightarrow> string \<Rightarrow> page_assoc_rec list \<Rightarrow> weighted_result \<Rightarrow> bool" where
  "pages_found files st f tag recs s \<longleftrightarrow> wf_result s \<and> has_flag s PAGED_RESULT
     \<and> filename s = f @ ''::'' @ tag \<and> CHR '':'' \<notin> set f \<and> length (filename s) < 100
     \<and> pages_available files st f tag recs \<and> num_hits s < 805306367
     \<and> (\<forall>e \<in> set (hits s). 0 \<le> record_num e \<and> record_num e < int (length recs) \<and> is_c_int (parentid (recs ! nat (record_num e))))"

lemma page_filename_tag:
  assumes "CHR '':'' \<notin> set f" "length (f @ ''::'' @ tag) < 100"
  shows "page_filename (f @ ''::'' @ tag) = Done (IndexTag f tag)"
proof -
  have "takeWhile (\<lambda>c. c \<noteq> CHR '':'') (f @ ''::'' @ tag) = f" "dropWhile (\<lambda>c. c \<noteq> CHR '':'') (f @ ''::'' @ tag) = ''::'' @ tag"
    using assms(1) by (induction f) auto
  then show ?thesis using assms(2) by (simp add: page_filename_def)
qed

lemma page_hits_parents: "map fst (page_hits recs n i es) = map (\<lambda>e. parentid (recs ! nat (record_num e))) es"
  by (induction es arbitrary: i) (simp_all add: page_hit_def Let_def)

definition page_set :: "weighted_result \<Rightarrow> docsum hash_table \<Rightarrow> weighted_result" where
  "page_set s t = new_result\<lparr>num_hits := numEntries t, filename := filename s, result_type := PAGED_DOC_RESULT OR (result_type s AND page_types),
     entries := map (\<lambda>h. new_entry (key_record (he_key h)) (doc_weight (the (he_data h)))) (hash_entries t)\<rparr>"

lemma page_docs_result:
  assumes "pages_found files st f tag recs s"
  shows "\<exists>st' t. se_get_page_docs files st (Some s) idnumber =
      Done (st', Some (if result_type s AND page_types \<noteq> 0 then se_rank_docs (page_set s t) else page_set s t, t))
    \<and> docs_ok (page_hits recs idnumber 0 (hits s)) t \<and> pages_available files st' f tag recs
    \<and> page_loop files f (Some tag) idnumber 0 (hits s) st (Tcl_InitHashTable TCL_ONE_WORD_KEYS) 0 = Done (st', t, numEntries t)"
proof -
  let ?ps = "page_hits recs idnumber 0 (hits s)"
  have len: "num_hits s = int (length (hits s))" using assms(1) by (simp add: pages_found_def hits_wf wf_result_def)
  have init: "numEntries (Tcl_InitHashTable TCL_ONE_WORD_KEYS :: docsum hash_table) = 0" by (simp add: Tcl_InitHashTable_def)
  have av: "pages_available files st f tag recs" using assms(1) by (simp add: pages_found_def)
  obtain st' t where t: "page_loop files f (Some tag) idnumber 0 (hits s) st (Tcl_InitHashTable TCL_ONE_WORD_KEYS) 0 = Done (st', t, numEntries t)"
    "docs_ok ?ps t" "pages_available files st' f tag recs"
    using page_loop_ok [OF av init_docs_ok, of "hits s" 0 0 idnumber] assms(1) len init
    unfolding pages_found_def list.size append_Nil by auto
  have "run_map page_entry (hash_entries t) = Done (map (\<lambda>h. new_entry (key_record (he_key h)) (doc_weight (the (he_data h)))) (hash_entries t))"
    using docs_ok_entries(3) [OF t(2)] by (intro run_map_Done) (simp add: page_entry_def)
  then have "page_docs_set s t (numEntries t) =
      Done (if result_type s AND page_types \<noteq> 0 then se_rank_docs (page_set s t) else page_set s t)"
    by (simp add: page_docs_set_def page_set_def Let_def new_result_def)
  moreover have "page_filename (filename s) = Done (IndexTag f tag)"
    using assms(1) page_filename_tag by (metis pages_found_def)
  ultimately have "se_get_page_docs files st (Some s) idnumber =
      Done (st', Some (if result_type s AND page_types \<noteq> 0 then se_rank_docs (page_set s t) else page_set s t, t))"
    using t(1) assms(1) by (simp add: se_get_page_docs_def pages_found_def)
  with t show ?thesis by blast
qed

lemma page_set_hits:
  assumes "docs_ok ps t" "\<forall>p \<in> set ps. is_c_int (fst p)"
  shows "wf_result (page_set s t)" "distinct (map record_num (hits (page_set s t)))" "records (page_set s t) = fst ` set ps"
    "\<forall>e \<in> set (hits (page_set s t)). weight e = doc_weight (summary (filter (\<lambda>p. fst p = record_num e) ps))"
proof -
  note e = docs_ok_entries [OF assms(1)]
  show wf: "wf_result (page_set s t)" using e(4) by (simp add: wf_result_def page_set_def)
  have hits: "hits (page_set s t) = map (\<lambda>h. new_entry (key_record (he_key h)) (doc_weight (the (he_data h)))) (hash_entries t)"
    unfolding hits_wf [OF wf] by (simp add: page_set_def)
  have rk: "record_key (key_record k) = k" if "k \<in> he_key ` set (hash_entries t)" for k
    using that e(1) assms(2) by auto
  have recs: "map record_num (hits (page_set s t)) = map key_record (map he_key (hash_entries t))"
    by (simp add: hits new_entry_def comp_def)
  have "inj_on key_record (he_key ` set (hash_entries t))" by (metis inj_on_inverseI rk)
  then show "distinct (map record_num (hits (page_set s t)))"
    unfolding recs distinct_map [of key_record] set_map using e(2) by blast
  have "records (page_set s t) = key_record ` he_key ` set (hash_entries t)"
    unfolding records_def using recs by (metis set_map)
  also have "\<dots> = fst ` set ps" unfolding e(1) image_image using assms(2) by simp
  finally show "records (page_set s t) = fst ` set ps" .
  have "pages_of ps (he_key h) = filter (\<lambda>p. fst p = key_record (he_key h)) ps" if "h \<in> set (hash_entries t)" for h
  proof -
    have "record_key (fst p) = he_key h \<longleftrightarrow> fst p = key_record (he_key h)" if "p \<in> set ps" for p
      using rk [of "he_key h"] \<open>h \<in> _\<close> that assms(2) key_record_key [of "fst p"] by (metis image_eqI)
    then show ?thesis unfolding pages_of_def by (intro filter_cong refl)
  qed
  then show "\<forall>e \<in> set (hits (page_set s t)). weight e = doc_weight (summary (filter (\<lambda>p. fst p = record_num e) ps))"
    using e(3) by (simp add: hits new_entry_def)
qed

text \<open>
  C8: for a set of pages of an index whose associator file can be read, the set made of it has the documents
  that the pages belong to, each once, and no others. The weight of a document is the sum of the weights of its pages, added in
  the order of the hits, divided by one more than their number; and the pages can still be read afterwards.
\<close>

theorem page_docs_are_documents:
  assumes "pages_found files st f tag recs s"
  shows "\<exists>st' d t. se_get_page_docs files st (Some s) idnumber = Done (st', Some (d, t)) \<and> pages_available files st' f tag recs
    \<and> wf_result d \<and> distinct (map record_num (hits d))
    \<and> records d = (\<lambda>e. parentid (recs ! nat (record_num e))) ` set (hits s)
    \<and> (\<forall>e \<in> set (hits d). weight e = doc_weight (summary (filter (\<lambda>p. fst p = record_num e) (page_hits recs idnumber 0 (hits s)))))"
proof -
  let ?ps = "page_hits recs idnumber 0 (hits s)"
  obtain st' t where t: "se_get_page_docs files st (Some s) idnumber =
      Done (st', Some (if result_type s AND page_types \<noteq> 0 then se_rank_docs (page_set s t) else page_set s t, t))"
    "docs_ok ?ps t" "pages_available files st' f tag recs"
    using page_docs_result [OF assms] by blast
  have par: "fst ` set ?ps = (\<lambda>e. parentid (recs ! nat (record_num e))) ` set (hits s)"
    using arg_cong [OF page_hits_parents, of set] by simp
  then have "\<forall>p \<in> set ?ps. is_c_int (fst p)" using assms by (force simp: pages_found_def)
  note h = page_set_hits [OF t(2) this, of s]
  let ?d = "if result_type s AND page_types \<noteq> 0 then se_rank_docs (page_set s t) else page_set s t"
  have "set (hits ?d) = set (hits (page_set s t))" "records ?d = records (page_set s t)" "wf_result ?d"
    using h(1) by auto
  moreover have "distinct (map record_num (hits ?d))"
    using h(2) mset_eq_imp_distinct_iff [OF mset_records_ranked [of "page_set s t"]] by (cases "result_type s AND page_types = 0") simp_all
  ultimately have "wf_result ?d \<and> distinct (map record_num (hits ?d)) \<and> records ?d = (\<lambda>e. parentid (recs ! nat (record_num e))) ` set (hits s)
    \<and> (\<forall>e \<in> set (hits ?d). weight e = doc_weight (summary (filter (\<lambda>p. fst p = record_num e) ?ps)))"
    using h(3,4) par by (simp only:)
  with t(1,3) show ?thesis by blast
qed

definition sample_assoc :: "page_assoc_rec list" where
  "sample_assoc = map (\<lambda>(d, n). \<lparr>parentid = d, pagenum = n, recsize = 100, nameoffset = 0\<rparr>) [(0, 0), (1, 1), (1, 2), (2, 1)]"

definition sample_page_files :: page_files where
  "sample_page_files f tag = (if f = ''docs'' \<and> tag = ''text'' then Some sample_assoc else None)"

definition sample_pages :: "int \<Rightarrow> weighted_result" where
  "sample_pages ty = new_result\<lparr>filename := ''docs::text'', result_type := PAGED_RESULT OR ty, num_hits := 3,
     entries := [new_entry 1 (Fin (1 / 2)), new_entry 2 (Fin (1 / 4)), new_entry 3 (Fin 1)]\<rparr>"

lemma sample_pages_found:
  assumes "ty = 0 \<or> ty = PROBABILISTIC_RESULT"
  shows "pages_found sample_page_files initial_pages ''docs'' ''text'' sample_assoc (sample_pages ty)"
proof -
  have "page_info_buffers initial_pages = no_buffer # replicate 9 no_buffer"
    by (simp add: initial_pages_def MAXPAGEBUFFS_def numeral_eq_Suc)
  moreover have "length (page_info_buffers initial_pages) = 10" by (simp add: initial_pages_def MAXPAGEBUFFS_def)
  ultimately have "pages_available sample_page_files initial_pages ''docs'' ''text'' sample_assoc"
    by (simp add: pages_available_def no_buffer_def MAXPAGEBUFFS_def sample_page_files_def Let_def)
  moreover have "has_flag (sample_pages ty) PAGED_RESULT"
    using assms by (auto simp: has_flag_def sample_pages_def new_result_def result_flags)
  ultimately show ?thesis
    by (simp add: pages_found_def sample_pages_def new_result_def new_entry_def wf_result_def hits_def sample_assoc_def is_c_int_def)
qed

theorem page_docs_are_documents_witness:
  "\<exists>st' d t. se_get_page_docs sample_page_files initial_pages (Some (sample_pages 0)) 1 = Done (st', Some (d, t)) \<and> records d = {1, 2}"
proof -
  obtain st' d t where "se_get_page_docs sample_page_files initial_pages (Some (sample_pages 0)) 1 = Done (st', Some (d, t))"
    "records d = (\<lambda>e. parentid (sample_assoc ! nat (record_num e))) ` set (hits (sample_pages 0))"
    using page_docs_are_documents [OF sample_pages_found [OF disjI1 [OF refl]], of 1] by blast
  moreover have "(\<lambda>e. parentid (sample_assoc ! nat (record_num e))) ` set (hits (sample_pages 0)) = {1, 2}"
    by (simp add: sample_pages_def sample_assoc_def hits_def new_result_def new_entry_def insert_commute numeral_eq_Suc)
  ultimately show ?thesis by metis
qed

section \<open>Documents of pages in the merges\<close>

definition page_callees :: "page_files \<Rightarrow> page_state \<Rightarrow> callees \<Rightarrow> callees" where
  "page_callees files st c = c\<lparr>call_page_docs := (\<lambda>s n. run_bind (se_get_page_docs files st (Some s) n) (\<lambda>r. Done (map_option fst (snd r))))\<rparr>"

lemma page_types_bit: "bit page_types k \<longleftrightarrow> k \<in> {0, 9, 10, 12, 14}"
  unfolding page_types_def flag_powers bit_or_iff bit_exp_iff by auto

lemma page_set_plain: "plain (page_set s t)" "plain (se_rank_docs (page_set s t))"
proof -
  have "bit PAGED_DOC_RESULT k \<longleftrightarrow> k = 4" for k unfolding flag_powers bit_exp_iff by auto
  then show "plain (page_set s t)"
    unfolding plain_def has_flag_bit by (simp add: page_set_def bit_or_iff bit_and_iff page_types_bit)
  then show "plain (se_rank_docs (page_set s t))" by (simp add: plain_def has_flag_def)
qed

lemma page_set_ranked: "result_type s AND page_types \<noteq> 0 \<Longrightarrow> ranked_flag (page_set s t) \<noteq> 0"
proof -
  assume "result_type s AND page_types \<noteq> 0"
  then obtain k where "bit (result_type s AND page_types) k" by (metis bit_0_eq bit_eq_iff bot_apply bot_bool_def)
  then have "bit (ranked_flag (page_set s t)) k"
    by (auto simp: ranked_flag_def page_set_def bit_or_iff bit_and_iff page_types_bit ranked_types_bit)
  then show ?thesis by (metis bit_0_eq bot_apply bot_bool_def)
qed

lemma page_step_docs:
  assumes "pages_found files st f tag recs s1" "result_type s1 AND page_types \<noteq> 0" "plain s2"
  shows "\<exists>d. page_step (page_callees files st c) s1 s2 = Done (direct_sets d s2\<lparr>ms_own1 := False, ms_paged := True\<rparr>)
    \<and> plain d \<and> mergeable d \<and> records d = (\<lambda>e. parentid (recs ! nat (record_num e))) ` set (hits s1)"
proof -
  let ?ps = "page_hits recs 1 0 (hits s1)"
  obtain st' t where t: "se_get_page_docs files st (Some s1) 1 = Done (st', Some (se_rank_docs (page_set s1 t), t))" "docs_ok ?ps t"
    using page_docs_result [OF assms(1), of 1] assms(2) by auto
  have par: "fst ` set ?ps = (\<lambda>e. parentid (recs ! nat (record_num e))) ` set (hits s1)"
    using arg_cong [OF page_hits_parents, of set] by simp
  then have "\<forall>p \<in> set ?ps. is_c_int (fst p)" using assms(1) by (force simp: pages_found_def)
  note h = page_set_hits [OF t(2) this, of s1]
  let ?d = "se_rank_docs (page_set s1 t)"
  have "distinct (map record_num (hits ?d))" using h(2) mset_eq_imp_distinct_iff [OF mset_records_ranked [of "page_set s1 t"]] by simp
  moreover have "ranked_flag ?d \<noteq> 0" using page_set_ranked [OF assms(2), of t] by (simp add: ranked_flag_def)
  ultimately have "mergeable ?d" using h(1) by (simp add: mergeable_def)
  moreover have "has_flag s1 PAGED_RESULT" "\<not> has_flag s2 PAGED_RESULT" "\<not> has_flag ?d PAGED_RESULT" "\<not> has_flag ?d COMPONENT_RESULT"
    using assms(1,3) page_set_plain(2) [of s1 t] by (simp_all add: pages_found_def plain_def)
  moreover from this have "page_step (page_callees files st c) s1 s2 = Done (direct_sets ?d s2\<lparr>ms_own1 := False, ms_paged := True\<rparr>)"
    using t(1) by (simp add: page_step_def page_callees_def direct_sets_def Let_def)
  moreover have "records ?d = (\<lambda>e. parentid (recs ! nat (record_num e))) ` set (hits s1)" using h(3) par by simp
  ultimately show ?thesis using page_set_plain(2) by blast
qed

text \<open>
  A ranked set of pages combined by AND with a set of documents gives the documents that have a page in the
  first set and are in the second: the conversion of pages to documents and the merge work together.
\<close>

theorem ranked_pages_and_documents:
  assumes "pages_found files st f tag recs s1" "result_type s1 AND page_types \<noteq> 0"
    and "\<not> has_flag s1 VIRTUAL_RESULT" "\<not> has_flag s1 BITMAP_RESULT" "plain s2" "mergeable s2"
  shows "\<exists>r o1 o2. se_andmerge (page_callees files st c) (Some s1) (Some s2) = Done (Some r, o1, o2) \<and> mergeable r
    \<and> records r = (\<lambda>e. parentid (recs ! nat (record_num e))) ` set (hits s1) \<inter> records s2"
proof -
  obtain d where d: "page_step (page_callees files st c) s1 s2 = Done (direct_sets d s2\<lparr>ms_own1 := False, ms_paged := True\<rparr>)"
    "plain d" "mergeable d" "records d = (\<lambda>e. parentid (recs ! nat (record_num e))) ` set (hits s1)"
    using page_step_docs [OF assms(1,2,5)] by blast
  let ?ms = "direct_sets d s2\<lparr>ms_own1 := False, ms_paged := True\<rparr>"
  have comp: "component_step (page_callees files st c) s1 s2 ?ms = Done ?ms"
    using d(2) assms(5) by (simp add: component_step_def both_component_def plain_def direct_sets_def)
  have sorted: "by_record (hits (sort_ranked d))" "by_record (hits (sort_ranked s2))"
    using mergeable_sorted d(3) assms(6) by blast+
  define fuzz where "fuzz = (result_type s1 AND FUZZY_REQUEST \<noteq> 0)"
  define new where "new = and_loop fuzz (prob_flag (rank_step ?ms) \<noteq> 0) new_result (hits (sort_ranked d)) (hits (sort_ranked s2))"
  have "map record_num (entries new) = filter (\<lambda>r. r \<in> records s2) (map record_num (hits (sort_ranked d)))"
    using and_loop_records [OF sorted] sort_ranked_facts(1) [of s2] by (simp add: new_def new_result_def records_def)
  then have "by_record (entries new)" "record_num ` set (entries new) = records d \<inter> records s2"
    using sorted(1) strict_filter sort_ranked_facts(1) [of d]
    by (simp add: by_record_def, metis list.set_map filter_is_subset inter_set_filter records_def Int_commute set_map)
  moreover have "se_andmerge (page_callees files st c) (Some s1) (Some s2) =
      Done (merge_result s1 s2 (rank_step ?ms) (finish_merge (rank_step ?ms) fuzz (filename s1) new))"
    using d(1) comp assms(3-5) unfolding new_def fuzz_def
    by (simp add: se_andmerge_def plain_def Let_def rank_step_def direct_sets_def)
  ultimately show ?thesis using finish_merge_ok [of new "rank_step ?ms" fuzz "filename s1"] d(4) by (auto simp: merge_result_def)
qed

theorem ranked_pages_and_documents_witness:
  "\<exists>r o1 o2. se_andmerge (page_callees sample_page_files initial_pages no_callees) (Some (sample_pages PROBABILISTIC_RESULT)) (Some (sample_bool [2, 5]))
     = Done (Some r, o1, o2) \<and> records r = {2}"
proof -
  let ?s = "sample_pages PROBABILISTIC_RESULT" and ?c = "page_callees sample_page_files initial_pages no_callees"
  have flags: "result_type ?s AND page_types \<noteq> 0" "\<not> has_flag ?s VIRTUAL_RESULT" "\<not> has_flag ?s BITMAP_RESULT"
    by (simp_all add: sample_pages_def new_result_def has_flag_def page_types_def result_flags)
  have b: "plain (sample_bool [2, 5])" "mergeable (sample_bool [2, 5])" "records (sample_bool [2, 5]) = {2, 5}"
    using sample_bool_facts [of "[2, 5]"] by simp_all
  have "(\<lambda>e. parentid (sample_assoc ! nat (record_num e))) ` set (hits ?s) = {1, 2}"
    by (simp add: sample_pages_def sample_assoc_def hits_def new_result_def new_entry_def insert_commute numeral_eq_Suc)
  then show ?thesis
    using ranked_pages_and_documents [OF sample_pages_found [OF disjI2 [OF refl]] flags b(1,2), of no_callees] b(3) by auto
qed

definition sample_unranked :: weighted_result where
  "sample_unranked = (sample_pages 0)\<lparr>num_hits := 2, entries := [new_entry 1 (Fin 1), new_entry 3 (Fin 1)]\<rparr>"

lemma sample_page_order:
  "(case page_loop sample_page_files ''docs'' (Some ''text'') 1 0 (hits sample_unranked) initial_pages (Tcl_InitHashTable TCL_ONE_WORD_KEYS) 0 of
      Done (_, t, _) \<Rightarrow> map he_key (hash_entries t) | Crash \<Rightarrow> []) = [OneWordKey 2, OneWordKey 1]"
  by code_simp

lemma sample_unranked_found: "pages_found sample_page_files initial_pages ''docs'' ''text'' sample_assoc sample_unranked"
  using sample_pages_found [of 0]
  by (simp add: pages_found_def sample_unranked_def wf_result_def hits_def new_entry_def has_flag_def sample_assoc_def is_c_int_def)

text \<open>
  Finding: the documents of an unranked set of pages come in the order of the hash table, and the merge, which sorts only ranked sets, takes them
  to be in the order of their numbers: of two documents that both sets have, one is lost.
\<close>

theorem unranked_pages_lose_documents:
  "\<exists>r o1 o2 st d t. se_get_page_docs sample_page_files initial_pages (Some sample_unranked) 1 = Done (st, Some (d, t)) \<and> records d = {1, 2}
     \<and> records (sample_bool [1, 2]) = {1, 2}
     \<and> se_andmerge (page_callees sample_page_files initial_pages no_callees) (Some sample_unranked) (Some (sample_bool [1, 2])) = Done (Some r, o1, o2)
     \<and> records r = {2}"
proof -
  let ?s = sample_unranked and ?c = "page_callees sample_page_files initial_pages no_callees" and ?b = "sample_bool [1, 2]"
  have ty: "result_type ?s = 8" by (simp add: sample_unranked_def sample_pages_def new_result_def result_flags)
  have nr: "result_type ?s AND page_types = 0" by (simp add: ty page_types_def result_flags)
  obtain st t where t: "se_get_page_docs sample_page_files initial_pages (Some ?s) 1 = Done (st, Some (page_set ?s t, t))"
    "docs_ok (page_hits sample_assoc 1 0 (hits ?s)) t" "map he_key (hash_entries t) = [OneWordKey 2, OneWordKey 1]"
    using page_docs_result [OF sample_unranked_found, of 1] sample_page_order nr by auto
  obtain w2 w1 where h: "hits (page_set ?s t) = [new_entry 2 w2, new_entry 1 w1]"
  proof -
    have "wf_result (page_set ?s t)" using docs_ok_entries(4) [OF t(2)] by (simp add: wf_result_def page_set_def)
    then have "hits (page_set ?s t) = map (\<lambda>h. new_entry (key_record (he_key h)) (doc_weight (the (he_data h)))) (hash_entries t)"
      by (simp add: hits_wf) (simp add: page_set_def)
    with t(3) that show ?thesis by (auto simp: map_eq_Cons_conv key_record_def c_int_def)
  qed
  have rf: "ranked_flag (page_set ?s t) = 0" "ranked_flag ?b = 0"
    by (simp_all add: ranked_flag_def page_set_def nr ranked_types_def result_flags sample_bool_def new_result_def)
  let ?ms = "direct_sets (page_set ?s t) ?b\<lparr>ms_own1 := False, ms_paged := True\<rparr>"
  have step: "page_step ?c ?s ?b = Done ?ms"
    using t(1) page_set_plain(1) [of ?s t] sample_bool_facts(4) [of "[1, 2]"] ty
    by (simp add: page_step_def page_callees_def direct_sets_def Let_def plain_def has_flag_def result_flags)
  have comp: "component_step ?c ?s ?b ?ms = Done ?ms"
    using page_set_plain(1) [of ?s t] sample_bool_facts(4) [of "[1, 2]"] by (simp add: component_step_def both_component_def plain_def direct_sets_def)
  have flags: "\<not> has_flag ?s VIRTUAL_RESULT" "\<not> has_flag ?s BITMAP_RESULT" "\<not> has_flag ?b VIRTUAL_RESULT" "\<not> has_flag ?b BITMAP_RESULT"
    "result_type ?s AND FUZZY_REQUEST = 0"
    using sample_bool_facts(4) [of "[1, 2]"] by (simp_all add: plain_def has_flag_def ty result_flags)
  have rank: "rank_step ?ms = ?ms" by (simp add: rank_step_def direct_sets_def sort_ranked_def rf)
  have new: "entries (and_loop False (prob_flag ?ms \<noteq> 0) new_result (hits (page_set ?s t)) (hits ?b)) =
      [new_entry 2 (and_weight False (prob_flag ?ms \<noteq> 0) w2 (Fin 1))]"
    unfolding h by (simp add: sample_bool_def hits_def new_entry_def new_result_def push_entry_def)
  have "se_andmerge ?c (Some ?s) (Some ?b) = Done (merge_result ?s ?b ?ms (finish_merge ?ms False (filename ?s)
      (and_loop False (prob_flag ?ms \<noteq> 0) new_result (hits (page_set ?s t)) (hits ?b))))"
    using step comp rank flags by (simp add: se_andmerge_def Let_def direct_sets_def)
  moreover have "records (page_set ?s t) = {1, 2}" by (auto simp: records_def h new_entry_def)
  moreover have "records (finish_merge ?ms False (filename ?s)
      (and_loop False (prob_flag ?ms \<noteq> 0) new_result (hits (page_set ?s t)) (hits ?b))) = {2}"
    by (subst finish_merge_ok(2)) (simp_all add: new by_record_def new_entry_def)
  ultimately show ?thesis using t(1) sample_bool_facts(2) [of "[1, 2]"] by (auto simp: merge_result_def)
qed

section \<open>Releasing the table\<close>

lemma free_pages_all: "free_pages p ps = map PageItem (p # ps)"
  by (induction ps arbitrary: p) simp_all

lemma mset_pages_of:
  assumes "distinct ks" "\<forall>p \<in> set ps. record_key (fst p) \<in> set ks"
  shows "mset (concat (map (pages_of ps) ks)) = mset ps"
  using assms(2)
proof (induction ps)
  case Nil
  then show ?case by (induction ks) (simp_all add: pages_of_def)
next
  case (Cons p ps)
  have "mset (concat (map (pages_of (p # ps)) ks)) = mset (concat (map (pages_of ps) ks)) + (if record_key (fst p) \<in> set ks then {#p#} else {#})"
    using assms(1) by (induction ks) (auto simp: pages_of_def)
  with Cons show ?case by simp
qed

lemma free_docs:
  assumes "docs_ok ps t"
  shows "\<exists>bs. free_page_hash_tab (Some t) = Done bs \<and> mset [b \<leftarrow> bs. \<exists>p. b = PageItem p] = mset (map (PageItem \<circ> fst \<circ> snd) ps)"
proof -
  note e = docs_ok_entries [OF assms]
  let ?ks = "map he_key (hash_entries t)"
  define blocks where "blocks k = map PageItem (map (fst \<circ> snd) (pages_of ps k)) @ [DocSum k]" for k
  have "free_doc h = Done (blocks (he_key h))" if "h \<in> set (hash_entries t)" for h
    using e(3) [OF that] by (cases "pages_of ps (he_key h)") (simp_all add: free_doc_def blocks_def summary_def free_pages_all)
  then have free: "free_page_hash_tab (Some t) = Done (concat (map blocks ?ks) @ [Buckets, HashTable])"
    using run_map_Done [of "hash_entries t" free_doc "\<lambda>h. blocks (he_key h)"] by (simp add: free_page_hash_tab_def comp_def)
  have "[b \<leftarrow> concat (map blocks ks). \<exists>p. b = PageItem p] = map (PageItem \<circ> fst \<circ> snd) (concat (map (pages_of ps) ks))" for ks
    by (induction ks) (auto simp: blocks_def filter_map comp_def)
  moreover have "mset (concat (map (pages_of ps) ?ks)) = mset ps"
    using e(1,2) by (intro mset_pages_of) (auto simp: image_image)
  ultimately have "mset [b \<leftarrow> concat (map blocks ?ks) @ [Buckets, HashTable]. \<exists>p. b = PageItem p] = mset (map (PageItem \<circ> fst \<circ> snd) ps)"
    unfolding filter_append by (simp only: mset_append mset_map) simp
  with free show ?thesis by blast
qed

text \<open>
  Releasing the table that was returned releases every page that was collected exactly once, in spite of
  the lists being spread over the documents.
\<close>

theorem page_table_released:
  assumes "pages_found files st f tag recs s" "se_get_page_docs files st (Some s) idnumber = Done (st', Some (d, t))"
  shows "\<exists>bs. free_page_hash_tab (Some t) = Done bs
    \<and> mset [b \<leftarrow> bs. \<exists>p. b = PageItem p] = mset (map (PageItem \<circ> fst \<circ> snd) (page_hits recs idnumber 0 (hits s)))"
  using page_docs_result [OF assms(1), of idnumber] assms(2) free_docs by fastforce

theorem page_table_released_witness:
  "\<exists>st' d t bs. se_get_page_docs sample_page_files initial_pages (Some (sample_pages 0)) 1 = Done (st', Some (d, t))
     \<and> free_page_hash_tab (Some t) = Done bs \<and> length [b \<leftarrow> bs. \<exists>p. b = PageItem p] = 3"
proof -
  note found = sample_pages_found [OF disjI1 [OF refl]]
  obtain st' d t where d: "se_get_page_docs sample_page_files initial_pages (Some (sample_pages 0)) 1 = Done (st', Some (d, t))"
    using page_docs_result [OF found, of 1] by blast
  obtain bs where bs: "free_page_hash_tab (Some t) = Done bs"
    "mset [b \<leftarrow> bs. \<exists>p. b = PageItem p] = mset (map (PageItem \<circ> fst \<circ> snd) (page_hits sample_assoc 1 0 (hits (sample_pages 0))))"
    using page_table_released [OF found d] by blast
  have "length [b \<leftarrow> bs. \<exists>p. b = PageItem p] = length (page_hits sample_assoc 1 0 (hits (sample_pages 0)))"
    using mset_eq_length [OF bs(2)] by simp
  also have "\<dots> = 3" by (simp add: sample_pages_def hits_def new_result_def numeral_eq_Suc)
  finally show ?thesis using d bs(1) by blast
qed

end
