(* ===== verification/Rpn_Codec.thy ===== *)
theory Rpn_Codec
  imports Asn_Tree
begin

text \<open>
  The query of a search request as it crosses the connection: the routines of \<open>src/zpdu/z3_encode.c\<close> and
  \<open>src/zpdu/z3_decode.c\<close> for \<open>Query\<close>, \<open>RPNQuery\<close>, \<open>RPNStructure\<close>, \<open>Operand\<close>, \<open>Term\<close>, \<open>Operator\<close>, \<open>AttributeElement\<close> and the structures
  below them, and these structures (\<open>src/header/z3950_3.h\<close>).

  A pointer that may be null is an optional value, a list linked through \<open>next\<close> is a list, a union with its
  discriminator \<open>which\<close> is a datatype whose first constructor is the one that \<open>calloc\<close> leaves. A decoder may run
  forever (in \<open>DecodeOid\<close>), so it returns a \<open>zrun\<close>: \<open>None\<close> is a call that does not return, \<open>Some Crash\<close> a fault. The values of octets that
  are never set are the fields \<open>cd_oid\<close> and \<open>cd_octet\<close> of a \<open>codec\<close>; its other fields stand for \<open>EncodeExternal\<close> and
  \<open>DecodeExternal\<close>, which lead to the record formats. Parameters \<open>class_var\<close>, \<open>type\<close> and \<open>tagno\<close> that a routine of the source
  ignores are left out.
\<close>

section \<open>Outcomes of decoders\<close>

type_synonym 'a zrun = "'a run option"

definition zret :: "'a \<Rightarrow> 'a zrun" where
  "zret x = Some (Done x)"

fun zbind :: "'a zrun \<Rightarrow> ('a \<Rightarrow> 'b zrun) \<Rightarrow> 'b zrun" where
  "zbind None f = None"
| "zbind (Some Crash) f = Some Crash"
| "zbind (Some (Done x)) f = f x"

lemma zbind_zret [simp]: "zbind (zret x) f = f x"
  by (simp add: zret_def)

fun zfold :: "('s \<Rightarrow> 'a \<Rightarrow> 's zrun) \<Rightarrow> 's \<Rightarrow> 'a list \<Rightarrow> 's zrun" where
  "zfold f s [] = zret s"
| "zfold f s (x # xs) = zbind (f s x) (\<lambda>s1. zfold f s1 xs)"

fun zmap :: "('a \<Rightarrow> 'b zrun) \<Rightarrow> 'a list \<Rightarrow> 'b list zrun" where
  "zmap f [] = zret []"
| "zmap f (x # xs) = zbind (f x) (\<lambda>y. zbind (zmap f xs) (\<lambda>ys. zret (y # ys)))"

text \<open>\<open>if (!node) return NULL\<close>, and a node that is used without a test\<close>

definition null_check :: "('a \<Rightarrow> 'b option zrun) \<Rightarrow> 'a option \<Rightarrow> 'b option zrun" where
  "null_check f p = (case p of None \<Rightarrow> zret None | Some n \<Rightarrow> f n)"

definition no_check :: "('a \<Rightarrow> 'b zrun) \<Rightarrow> 'a option \<Rightarrow> 'b zrun" where
  "no_check f p = zbind (Some (deref p)) f"

definition an_head :: "asn_node \<Rightarrow> asn_node option" where
  "an_head n = (case an_children n of [] \<Rightarrow> None | c # _ \<Rightarrow> Some c)"

section \<open>The structures\<close>

definition UNIVERSAL :: int where "UNIVERSAL = 0"
definition BER_CONTEXT :: int where "BER_CONTEXT = 2"
definition CLASS_NONE :: int where "CLASS_NONE = - 1"
definition TYPE_NONE :: int where "TYPE_NONE = - 1"
definition TAGNO_NONE :: int where "TAGNO_NONE = - 1"
definition INTEGER :: int where "INTEGER = 2"
definition OCTETSTRING :: int where "OCTETSTRING = 4"
definition OBJECTIDENTIFIER :: int where "OBJECTIDENTIFIER = 6"
definition SEQUENCE :: int where "SEQUENCE = 16"
definition GENERALSTRING :: int where "GENERALSTRING = 27"
definition ANY :: int where "ANY = 100"

lemmas ber_constants = UNIVERSAL_def BER_CONTEXT_def CLASS_NONE_def TYPE_NONE_def TAGNO_NONE_def INTEGER_def
  OCTETSTRING_def OBJECTIDENTIFIER_def SEQUENCE_def GENERALSTRING_def ANY_def PRIMITIVE_def CONSTRUCTED_def

datatype string_or_numeric = SN_string "gstr option" | SN_numeric int

record z_unit =
  un_unitSystem :: "gstr option"
  un_unitType :: "string_or_numeric option"
  un_unit :: "string_or_numeric option"
  un_scaleFactor :: int

record int_unit =
  iu_value :: int
  iu_unitUsed :: "z_unit option"

text \<open>The list of a complex value is \<open>None\<close> where the union still holds a number: the pointer has no meaning.\<close>

datatype attribute_value = AV_numeric int | AV_complex "string_or_numeric option list option" "int list"

record attribute_element =
  ae_attributeSet :: "gstr option"
  ae_attributeType :: int
  ae_attributeValue :: attribute_value

datatype 'x term_value =
    T_general "gstr option"
  | T_numeric int
  | T_characterString "gstr option"
  | T_oid "gstr option"
  | T_dateTime "gstr option"
  | T_external "'x option"
  | T_integerAndUnit "int_unit option"
  | T_nullVal int

record 'x attributes_plus_term =
  at_attributes :: "attribute_element option list"
  at_term :: "'x term_value option"

record result_set_plus_attributes =
  ra_resultSet :: "gstr option"
  ra_attributes :: "attribute_element option list"

datatype 'x operand =
    OP_attrTerm "'x attributes_plus_term option"
  | OP_resultSet "gstr option"
  | OP_resultAttr "result_set_plus_attributes option"

datatype unit_which = E8_known | E8_private

record proximity_operator =
  po_exclusion :: octet
  po_distance :: int
  po_ordered :: octet
  po_relationType :: int
  po_unit_which :: unit_which
  po_unit_code :: int

datatype z_operator = Z_and int | Z_or int | Z_and_not int | Z_prox "proximity_operator option"

datatype 'x rpn_structure =
    RPN_op "'x operand option"
  | RPN_rpnRpnOp "'x rpn_structure option" "'x rpn_structure option" "z_operator option"

record 'x rpn_query =
  rq_attributeSet :: "gstr option"
  rq_rpn :: "'x rpn_structure option"

text \<open>A \<open>void *\<close>: the encoders take it for a \<open>GSTR\<close>, the decoder returns a string of characters.\<close>

datatype any_value = Any_gstr gstr | Any_chars "octet list"

datatype 'x query =
    Q_type_0 "any_value option"
  | Q_type_1 "'x rpn_query option"
  | Q_type_2 "gstr option"
  | Q_type_100 "gstr option"
  | Q_type_101 "'x rpn_query option"
  | Q_type_102 "gstr option"

record 'x codec =
  cd_oid :: "nat \<Rightarrow> octet"
  cd_octet :: octet
  cd_encode_external :: "int \<Rightarrow> int \<Rightarrow> 'x option \<Rightarrow> asn_node option run"
  cd_decode_external :: "asn_node \<Rightarrow> 'x option zrun"

section \<open>Encoding\<close>

text \<open>A sequence of \<open>ATTACH (node, ...)\<close>: a child that is missing ends the routine with a null pointer.\<close>

fun attach_all :: "asn_node \<Rightarrow> asn_node option run list \<Rightarrow> asn_node option run" where
  "attach_all node [] = Done (Some node)"
| "attach_all node (e # es) = run_bind e (\<lambda>child.
     case Attach (Some node) (case child of None \<Rightarrow> [] | Some c \<Rightarrow> [c]) of
       None \<Rightarrow> Done None
     | Some node1 \<Rightarrow> attach_all node1 es)"

definition choose_node :: "int \<Rightarrow> int \<Rightarrow> int \<Rightarrow> int \<Rightarrow> int \<Rightarrow> asn_node" where
  "choose_node class_var type tagno c t =
     (if class_var \<noteq> CLASS_NONE then NewAsnNode class_var type tagno else NewAsnNode c CONSTRUCTED t)"

definition EncodeInternationalString :: "int \<Rightarrow> int \<Rightarrow> gstr option \<Rightarrow> asn_node option run" where
  "EncodeInternationalString class_var tagno s =
     (if class_var \<noteq> CLASS_NONE then EncodeGeneralString class_var tagno s else EncodeGeneralString BER_CONTEXT GENERALSTRING s)"

definition EncodeResultSetId :: "int \<Rightarrow> int \<Rightarrow> gstr option \<Rightarrow> asn_node option run" where
  "EncodeResultSetId class_var tagno resultSetId =
     (if class_var \<noteq> CLASS_NONE then EncodeInternationalString class_var tagno resultSetId
      else EncodeInternationalString BER_CONTEXT 31 resultSetId)"

definition EncodeAttributeSetId :: "'x codec \<Rightarrow> int \<Rightarrow> int \<Rightarrow> gstr option \<Rightarrow> asn_node option run" where
  "EncodeAttributeSetId cd class_var tagno attributeSetId =
     (if class_var \<noteq> CLASS_NONE then EncodeOid (cd_oid cd) class_var tagno attributeSetId
      else EncodeOid (cd_oid cd) UNIVERSAL OBJECTIDENTIFIER attributeSetId)"

definition EncodeStringOrNumeric :: "string_or_numeric option \<Rightarrow> asn_node option run" where
  "EncodeStringOrNumeric p = run_bind (deref p) (\<lambda>sn. case sn of
       SN_string s \<Rightarrow> EncodeInternationalString BER_CONTEXT 1 s
     | SN_numeric n \<Rightarrow> EncodeInteger BER_CONTEXT 2 n)"

definition EncodeUnit :: "int \<Rightarrow> int \<Rightarrow> int \<Rightarrow> z_unit option \<Rightarrow> asn_node option run" where
  "EncodeUnit class_var type tagno p = run_bind (deref p) (\<lambda>u.
     attach_all (choose_node class_var type tagno UNIVERSAL SEQUENCE)
      ((if un_unitSystem u \<noteq> None
        then [attach_all (NewAsnNode BER_CONTEXT CONSTRUCTED 1) [EncodeInternationalString CLASS_NONE TAGNO_NONE (un_unitSystem u)]] else [])
       @ (if un_unitType u \<noteq> None
          then [attach_all (NewAsnNode BER_CONTEXT CONSTRUCTED 2) [EncodeStringOrNumeric (un_unitType u)]] else [])
       @ (if un_unit u \<noteq> None
          then [attach_all (NewAsnNode BER_CONTEXT CONSTRUCTED 3) [EncodeStringOrNumeric (un_unit u)]] else [])
       @ (if un_scaleFactor u \<noteq> 0 then [EncodeInteger BER_CONTEXT 4 (un_scaleFactor u)] else [])))"

definition EncodeIntUnit :: "int \<Rightarrow> int \<Rightarrow> int \<Rightarrow> int_unit option \<Rightarrow> asn_node option run" where
  "EncodeIntUnit class_var type tagno p = run_bind (deref p) (\<lambda>iu.
     attach_all (choose_node class_var type tagno UNIVERSAL SEQUENCE)
      [EncodeInteger BER_CONTEXT 1 (iu_value iu), EncodeUnit BER_CONTEXT CONSTRUCTED 2 (iu_unitUsed iu)])"

text \<open>A list whose pointer has no meaning is a fault when it is walked.\<close>

definition encode_value :: "attribute_value \<Rightarrow> asn_node option run" where
  "encode_value v = (case v of
       AV_numeric n \<Rightarrow> EncodeInteger BER_CONTEXT 121 n
     | AV_complex list acts \<Rightarrow> run_bind (deref list) (\<lambda>items.
         attach_all (NewAsnNode BER_CONTEXT CONSTRUCTED 224)
          (attach_all (NewAsnNode BER_CONTEXT CONSTRUCTED 1) (map EncodeStringOrNumeric items)
           # (if acts \<noteq> [] then [attach_all (NewAsnNode BER_CONTEXT CONSTRUCTED 2) (map (EncodeInteger UNIVERSAL INTEGER) acts)] else []))))"

definition EncodeAttributeElement :: "'x codec \<Rightarrow> int \<Rightarrow> int \<Rightarrow> int \<Rightarrow> attribute_element option \<Rightarrow> asn_node option run" where
  "EncodeAttributeElement cd class_var type tagno p = run_bind (deref p) (\<lambda>ae.
     attach_all (choose_node class_var type tagno UNIVERSAL SEQUENCE)
      ((if ae_attributeSet ae \<noteq> None then [EncodeAttributeSetId cd BER_CONTEXT 1 (ae_attributeSet ae)] else [])
       @ [EncodeInteger BER_CONTEXT 120 (ae_attributeType ae), encode_value (ae_attributeValue ae)]))"

definition EncodeAttributeList :: "'x codec \<Rightarrow> int \<Rightarrow> int \<Rightarrow> int \<Rightarrow> attribute_element option list \<Rightarrow> asn_node option run" where
  "EncodeAttributeList cd class_var type tagno attributeList =
     attach_all (choose_node class_var type tagno BER_CONTEXT 44)
       (map (EncodeAttributeElement cd CLASS_NONE TYPE_NONE TAGNO_NONE) attributeList)"

definition EncodeTerm :: "'x codec \<Rightarrow> 'x term_value option \<Rightarrow> asn_node option run" where
  "EncodeTerm cd p = run_bind (deref p) (\<lambda>term_value. case term_value of
       T_general s \<Rightarrow> EncodeOctetString BER_CONTEXT 45 s
     | T_numeric n \<Rightarrow> EncodeInteger BER_CONTEXT 215 n
     | T_characterString s \<Rightarrow> EncodeInternationalString BER_CONTEXT 216 s
     | T_oid s \<Rightarrow> EncodeOid (cd_oid cd) BER_CONTEXT 217 s
     | T_dateTime s \<Rightarrow> EncodeGeneralizedTime BER_CONTEXT 218 s
     | T_external x \<Rightarrow> cd_encode_external cd BER_CONTEXT 219 x
     | T_integerAndUnit iu \<Rightarrow> EncodeIntUnit BER_CONTEXT CONSTRUCTED 220 iu
     | T_nullVal _ \<Rightarrow> EncodeNull BER_CONTEXT 221)"

definition EncodeAttributesPlusTerm :: "'x codec \<Rightarrow> int \<Rightarrow> int \<Rightarrow> int \<Rightarrow> 'x attributes_plus_term option \<Rightarrow> asn_node option run" where
  "EncodeAttributesPlusTerm cd class_var type tagno p = run_bind (deref p) (\<lambda>at.
     attach_all (choose_node class_var type tagno BER_CONTEXT 102)
      [EncodeAttributeList cd CLASS_NONE TYPE_NONE TAGNO_NONE (at_attributes at), EncodeTerm cd (at_term at)])"

definition EncodeResultSetPlusAttributes :: "'x codec \<Rightarrow> int \<Rightarrow> int \<Rightarrow> int \<Rightarrow> result_set_plus_attributes option \<Rightarrow> asn_node option run" where
  "EncodeResultSetPlusAttributes cd class_var type tagno p = run_bind (deref p) (\<lambda>ra.
     attach_all (choose_node class_var type tagno BER_CONTEXT 214)
      [EncodeResultSetId CLASS_NONE TAGNO_NONE (ra_resultSet ra),
       EncodeAttributeList cd CLASS_NONE TYPE_NONE TAGNO_NONE (ra_attributes ra)])"

definition EncodeOperand :: "'x codec \<Rightarrow> 'x operand option \<Rightarrow> asn_node option run" where
  "EncodeOperand cd p = run_bind (deref p) (\<lambda>operand. case operand of
       OP_attrTerm at \<Rightarrow> EncodeAttributesPlusTerm cd CLASS_NONE TYPE_NONE TAGNO_NONE at
     | OP_resultSet s \<Rightarrow> EncodeResultSetId CLASS_NONE TAGNO_NONE s
     | OP_resultAttr ra \<Rightarrow> EncodeResultSetPlusAttributes cd CLASS_NONE TYPE_NONE TAGNO_NONE ra)"

definition EncodeKnownProximityUnit :: "int \<Rightarrow> int \<Rightarrow> int \<Rightarrow> asn_node option run" where
  "EncodeKnownProximityUnit class_var tagno knownProximityUnit =
     (if class_var \<noteq> CLASS_NONE then EncodeInteger class_var tagno knownProximityUnit
      else EncodeInteger UNIVERSAL INTEGER knownProximityUnit)"

definition EncodeProximityOperator :: "int \<Rightarrow> int \<Rightarrow> int \<Rightarrow> proximity_operator option \<Rightarrow> asn_node option run" where
  "EncodeProximityOperator class_var type tagno p = run_bind (deref p) (\<lambda>po.
     attach_all (choose_node class_var type tagno UNIVERSAL SEQUENCE)
      ((if po_exclusion po \<noteq> 0 then [EncodeBoolean BER_CONTEXT 1 (po_exclusion po)] else [])
       @ [EncodeInteger BER_CONTEXT 2 (po_distance po), EncodeBoolean BER_CONTEXT 3 (po_ordered po),
          EncodeInteger BER_CONTEXT 4 (po_relationType po),
          attach_all (NewAsnNode BER_CONTEXT CONSTRUCTED 5)
            [case po_unit_which po of
               E8_known \<Rightarrow> EncodeKnownProximityUnit BER_CONTEXT 1 (po_unit_code po)
             | E8_private \<Rightarrow> EncodeInteger BER_CONTEXT 2 (po_unit_code po)]]))"

definition EncodeOperator :: "z_operator option \<Rightarrow> asn_node option run" where
  "EncodeOperator p = run_bind (deref p) (\<lambda>op.
     attach_all (NewAsnNode BER_CONTEXT CONSTRUCTED 46)
      [case op of
         Z_and _ \<Rightarrow> EncodeNull BER_CONTEXT 0
       | Z_or _ \<Rightarrow> EncodeNull BER_CONTEXT 1
       | Z_and_not _ \<Rightarrow> EncodeNull BER_CONTEXT 2
       | Z_prox po \<Rightarrow> EncodeProximityOperator BER_CONTEXT CONSTRUCTED 3 po])"

fun EncodeRPNStructure :: "'x codec \<Rightarrow> 'x rpn_structure option \<Rightarrow> asn_node option run" where
  "EncodeRPNStructure cd None = Crash"
| "EncodeRPNStructure cd (Some (RPN_op op)) = attach_all (NewAsnNode BER_CONTEXT CONSTRUCTED 0) [EncodeOperand cd op]"
| "EncodeRPNStructure cd (Some (RPN_rpnRpnOp rpn1 rpn2 op)) =
     attach_all (NewAsnNode BER_CONTEXT CONSTRUCTED 1) [EncodeRPNStructure cd rpn1, EncodeRPNStructure cd rpn2, EncodeOperator op]"

definition EncodeRPNQuery :: "'x codec \<Rightarrow> int \<Rightarrow> int \<Rightarrow> int \<Rightarrow> 'x rpn_query option \<Rightarrow> asn_node option run" where
  "EncodeRPNQuery cd class_var type tagno p = run_bind (deref p) (\<lambda>q.
     attach_all (choose_node class_var type tagno UNIVERSAL SEQUENCE)
      [EncodeAttributeSetId cd CLASS_NONE TAGNO_NONE (rq_attributeSet q), EncodeRPNStructure cd (rq_rpn q)])"

text \<open>A string of characters taken for a \<open>GSTR\<close> is a fault.\<close>

definition any_gstr :: "any_value option \<Rightarrow> gstr option run" where
  "any_gstr a = (case a of None \<Rightarrow> Done None | Some (Any_gstr g) \<Rightarrow> Done (Some g) | Some (Any_chars _) \<Rightarrow> Crash)"

definition EncodeQuery :: "'x codec \<Rightarrow> 'x query option \<Rightarrow> asn_node option run" where
  "EncodeQuery cd p = run_bind (deref p) (\<lambda>query. case query of
       Q_type_0 a \<Rightarrow> attach_all (NewAsnNode BER_CONTEXT CONSTRUCTED 0) [run_bind (any_gstr a) (EncodeAny UNIVERSAL ANY)]
     | Q_type_1 q \<Rightarrow> EncodeRPNQuery cd BER_CONTEXT CONSTRUCTED 1 q
     | Q_type_2 s \<Rightarrow> attach_all (NewAsnNode BER_CONTEXT CONSTRUCTED 2) [EncodeOctetString UNIVERSAL OCTETSTRING s]
     | Q_type_100 s \<Rightarrow> attach_all (NewAsnNode BER_CONTEXT CONSTRUCTED 100) [EncodeOctetString UNIVERSAL OCTETSTRING s]
     | Q_type_101 q \<Rightarrow> EncodeRPNQuery cd BER_CONTEXT CONSTRUCTED 101 q
     | Q_type_102 s \<Rightarrow> attach_all (NewAsnNode BER_CONTEXT CONSTRUCTED 102) [EncodeOctetString UNIVERSAL OCTETSTRING s])"

section \<open>Decoding\<close>

definition DecodeInternationalString :: "asn_node \<Rightarrow> gstr option" where
  "DecodeInternationalString node = fst (DecodeGeneralString node)"

definition DecodeResultSetId :: "asn_node \<Rightarrow> gstr option" where
  "DecodeResultSetId node = DecodeInternationalString node"

definition DecodeAttributeSetId :: "'x codec \<Rightarrow> asn_node \<Rightarrow> (gstr \<times> dbuf option) zrun" where
  "DecodeAttributeSetId cd node = DecodeOid (cd_octet cd) node"

definition decode_int :: "'x codec \<Rightarrow> asn_node \<Rightarrow> int" where
  "decode_int cd node = fst (DecodeInteger (cd_octet cd) node)"

definition decode_bool :: "'x codec \<Rightarrow> asn_node \<Rightarrow> octet" where
  "decode_bool cd node = octet_of (fst (DecodeBoolean (cd_octet cd) node))"

definition decode_oid_ptr :: "'x codec \<Rightarrow> asn_node \<Rightarrow> gstr option zrun" where
  "decode_oid_ptr cd node = zbind (DecodeOid (cd_octet cd) node) (\<lambda>r. zret (Some (fst r)))"

definition DecodeStringOrNumeric :: "'x codec \<Rightarrow> asn_node \<Rightarrow> string_or_numeric option zrun" where
  "DecodeStringOrNumeric cd node =
     zret (Some (if an_tagno node = 1 then SN_string (DecodeInternationalString node)
                 else if an_tagno node = 2 then SN_numeric (decode_int cd node)
                 else SN_string None))"

definition unit_field :: "'x codec \<Rightarrow> z_unit \<Rightarrow> asn_node \<Rightarrow> z_unit zrun" where
  "unit_field cd u child0 =
     (if an_tagno child0 = 1 then no_check (\<lambda>child1. zret (u\<lparr>un_unitSystem := DecodeInternationalString child1\<rparr>)) (an_head child0)
      else if an_tagno child0 = 2
      then zbind (null_check (DecodeStringOrNumeric cd) (an_head child0)) (\<lambda>sn. zret (u\<lparr>un_unitType := sn\<rparr>))
      else if an_tagno child0 = 3
      then zbind (null_check (DecodeStringOrNumeric cd) (an_head child0)) (\<lambda>sn. zret (u\<lparr>un_unit := sn\<rparr>))
      else if an_tagno child0 = 4 then zret (u\<lparr>un_scaleFactor := decode_int cd child0\<rparr>)
      else zret u)"

definition DecodeUnit :: "'x codec \<Rightarrow> asn_node \<Rightarrow> z_unit option zrun" where
  "DecodeUnit cd node =
     zbind (zfold (unit_field cd) \<lparr>un_unitSystem = None, un_unitType = None, un_unit = None, un_scaleFactor = 0\<rparr> (an_children node))
       (\<lambda>u. zret (Some u))"

definition int_unit_field :: "'x codec \<Rightarrow> int_unit \<Rightarrow> asn_node \<Rightarrow> int_unit zrun" where
  "int_unit_field cd iu child0 =
     (if an_tagno child0 = 1 then zret (iu\<lparr>iu_value := decode_int cd child0\<rparr>)
      else if an_tagno child0 = 2 then zbind (DecodeUnit cd child0) (\<lambda>u. zret (iu\<lparr>iu_unitUsed := u\<rparr>))
      else zret iu)"

definition DecodeIntUnit :: "'x codec \<Rightarrow> asn_node \<Rightarrow> int_unit option zrun" where
  "DecodeIntUnit cd node =
     zbind (zfold (int_unit_field cd) \<lparr>iu_value = 0, iu_unitUsed = None\<rparr> (an_children node)) (\<lambda>iu. zret (Some iu))"

text \<open>
  \<open>DecodeAttributeElement\<close>. The loop for \<open>semanticAction\<close> runs over the children of \<open>node\<close> and not over those of
  \<open>child1\<close>: it reads again nodes that have been read before. The children are therefore a part of the state, with
  their buffers left behind what was read.
\<close>

definition moved :: "asn_node \<Rightarrow> dbuf option \<Rightarrow> asn_node" where
  "moved n db = Asn_node (an_type n) (an_class n) (an_tagno n) (an_length n) db (an_children n) (an_tail n)"

definition decode_ints :: "'x codec \<Rightarrow> asn_node list \<Rightarrow> int list \<times> asn_node list" where
  "decode_ints cd ns = (map (decode_int cd) ns, map (\<lambda>n. moved n (snd (DecodeInteger (cd_octet cd) n))) ns)"

fun complex_loop :: "'x codec \<Rightarrow> asn_node list \<Rightarrow> attribute_element \<Rightarrow> asn_node list \<Rightarrow> (asn_node list \<times> attribute_element) zrun" where
  "complex_loop cd children ae [] = zret (children, ae)"
| "complex_loop cd children ae (child1 # cs) =
     (case ae_attributeValue ae of
        AV_numeric _ \<Rightarrow> Some Crash
      | AV_complex list acts \<Rightarrow>
          if an_tagno child1 = 1
          then zbind (zmap (DecodeStringOrNumeric cd) (an_children child1)) (\<lambda>items.
                 complex_loop cd children (ae\<lparr>ae_attributeValue := AV_complex (Some items) acts\<rparr>) cs)
          else if an_tagno child1 = 2
          then let (vs, children1) = decode_ints cd children
               in complex_loop cd children1 (ae\<lparr>ae_attributeValue := AV_complex list vs\<rparr>) cs
          else complex_loop cd children ae cs)"

text \<open>The union, when its discriminator becomes \<open>e7_complex\<close>: a number other than 0 is no valid list.\<close>

definition as_complex :: "attribute_value \<Rightarrow> attribute_value" where
  "as_complex v = (case v of AV_numeric n \<Rightarrow> AV_complex (if n = 0 then Some [] else None) [] | AV_complex l a \<Rightarrow> AV_complex l a)"

definition attribute_field :: "'x codec \<Rightarrow> asn_node list \<times> attribute_element \<Rightarrow> nat \<Rightarrow> (asn_node list \<times> attribute_element) zrun" where
  "attribute_field cd st i =
     (let children = fst st; ae = snd st; child0 = children ! i; r = DecodeInteger (cd_octet cd) child0
      in if an_tagno child0 = 1
         then zbind (DecodeAttributeSetId cd child0) (\<lambda>(g, db). zret (children[i := moved child0 db], ae\<lparr>ae_attributeSet := Some g\<rparr>))
         else if an_tagno child0 = 120
         then zret (children[i := moved child0 (snd r)], ae\<lparr>ae_attributeType := fst r\<rparr>)
         else if an_tagno child0 = 121
         then zret (children[i := moved child0 (snd r)], ae\<lparr>ae_attributeValue := AV_numeric (fst r)\<rparr>)
         else if an_tagno child0 = 224
         then complex_loop cd children (ae\<lparr>ae_attributeValue := as_complex (ae_attributeValue ae)\<rparr>) (an_children child0)
         else zret st)"

definition DecodeAttributeElement :: "'x codec \<Rightarrow> asn_node \<Rightarrow> attribute_element option zrun" where
  "DecodeAttributeElement cd node =
     zbind (zfold (attribute_field cd)
        (an_children node, \<lparr>ae_attributeSet = None, ae_attributeType = 0, ae_attributeValue = AV_numeric 0\<rparr>)
        [0 ..< length (an_children node)]) (\<lambda>st. zret (Some (snd st)))"

definition DecodeAttributeList :: "'x codec \<Rightarrow> asn_node \<Rightarrow> attribute_element option list zrun" where
  "DecodeAttributeList cd node = zmap (DecodeAttributeElement cd) (an_children node)"

definition DecodeTerm :: "'x codec \<Rightarrow> asn_node \<Rightarrow> 'x term_value option zrun" where
  "DecodeTerm cd node =
     (let tagno = an_tagno node
      in if tagno = 45 then zret (Some (T_general (fst (DecodeOctetString node))))
         else if tagno = 215 then zret (Some (T_numeric (decode_int cd node)))
         else if tagno = 216 then zret (Some (T_characterString (DecodeInternationalString node)))
         else if tagno = 217 then zbind (decode_oid_ptr cd node) (\<lambda>g. zret (Some (T_oid g)))
         else if tagno = 218 then zret (Some (T_dateTime (fst (DecodeGeneralizedTime node))))
         else if tagno = 219 then zbind (cd_decode_external cd node) (\<lambda>x. zret (Some (T_external x)))
         else if tagno = 220 then zbind (DecodeIntUnit cd node) (\<lambda>iu. zret (Some (T_integerAndUnit iu)))
         else if tagno = 221 then zret (Some (T_nullVal (DecodeNull node)))
         else zret (Some (T_general None)))"

definition DecodeAttributesPlusTerm :: "'x codec \<Rightarrow> asn_node \<Rightarrow> 'x attributes_plus_term option zrun" where
  "DecodeAttributesPlusTerm cd node =
     (case an_children node of
        [] \<Rightarrow> zret None
      | child0 # rest \<Rightarrow>
          zbind (DecodeAttributeList cd child0) (\<lambda>attributes. case rest of
              [] \<Rightarrow> zret None
            | child1 # _ \<Rightarrow> zbind (DecodeTerm cd child1) (\<lambda>t. zret (Some \<lparr>at_attributes = attributes, at_term = t\<rparr>))))"

definition result_attr_field :: "'x codec \<Rightarrow> result_set_plus_attributes \<Rightarrow> asn_node \<Rightarrow> result_set_plus_attributes zrun" where
  "result_attr_field cd ra child0 =
     (if an_tagno child0 = 31 then zret (ra\<lparr>ra_resultSet := DecodeResultSetId child0\<rparr>)
      else if an_tagno child0 = 44 then zbind (DecodeAttributeList cd child0) (\<lambda>l. zret (ra\<lparr>ra_attributes := l\<rparr>))
      else zret ra)"

definition DecodeResultSetPlusAttributes :: "'x codec \<Rightarrow> asn_node \<Rightarrow> result_set_plus_attributes option zrun" where
  "DecodeResultSetPlusAttributes cd node =
     zbind (zfold (result_attr_field cd) \<lparr>ra_resultSet = None, ra_attributes = []\<rparr> (an_children node)) (\<lambda>ra. zret (Some ra))"

definition DecodeOperand :: "'x codec \<Rightarrow> asn_node \<Rightarrow> 'x operand option zrun" where
  "DecodeOperand cd node =
     (if an_tagno node = 102 then zbind (DecodeAttributesPlusTerm cd node) (\<lambda>at. zret (Some (OP_attrTerm at)))
      else if an_tagno node = 31 then zret (Some (OP_resultSet (DecodeResultSetId node)))
      else if an_tagno node = 214 then zbind (DecodeResultSetPlusAttributes cd node) (\<lambda>ra. zret (Some (OP_resultAttr ra)))
      else zret (Some (OP_attrTerm None)))"

definition unit_code :: "'x codec \<Rightarrow> proximity_operator \<Rightarrow> asn_node \<Rightarrow> proximity_operator" where
  "unit_code cd po child1 =
     (if an_tagno child1 = 1 then po\<lparr>po_unit_which := E8_known, po_unit_code := decode_int cd child1\<rparr>
      else if an_tagno child1 = 2 then po\<lparr>po_unit_which := E8_private, po_unit_code := decode_int cd child1\<rparr>
      else po)"

definition proximity_field :: "'x codec \<Rightarrow> proximity_operator \<Rightarrow> asn_node \<Rightarrow> proximity_operator zrun" where
  "proximity_field cd po child0 =
     (if an_tagno child0 = 1 then zret (po\<lparr>po_exclusion := decode_bool cd child0\<rparr>)
      else if an_tagno child0 = 2 then zret (po\<lparr>po_distance := decode_int cd child0\<rparr>)
      else if an_tagno child0 = 3 then zret (po\<lparr>po_ordered := decode_bool cd child0\<rparr>)
      else if an_tagno child0 = 4 then zret (po\<lparr>po_relationType := decode_int cd child0\<rparr>)
      else if an_tagno child0 = 5 then no_check (\<lambda>child1. zret (unit_code cd po child1)) (an_head child0)
      else zret po)"

definition DecodeProximityOperator :: "'x codec \<Rightarrow> asn_node \<Rightarrow> proximity_operator option zrun" where
  "DecodeProximityOperator cd node =
     zbind (zfold (proximity_field cd) \<lparr>po_exclusion = 0, po_distance = 0, po_ordered = 0, po_relationType = 0,
        po_unit_which = E8_known, po_unit_code = 0\<rparr> (an_children node)) (\<lambda>po. zret (Some po))"

definition DecodeOperator :: "'x codec \<Rightarrow> asn_node \<Rightarrow> z_operator option zrun" where
  "DecodeOperator cd node = no_check (\<lambda>child0.
     if an_tagno child0 = 0 then zret (Some (Z_and (DecodeNull child0)))
     else if an_tagno child0 = 1 then zret (Some (Z_or (DecodeNull child0)))
     else if an_tagno child0 = 2 then zret (Some (Z_and_not (DecodeNull child0)))
     else if an_tagno child0 = 3 then zbind (DecodeProximityOperator cd child0) (\<lambda>po. zret (Some (Z_prox po)))
     else zret (Some (Z_and 0))) (an_head node)"

fun DecodeRPNStructure :: "'x codec \<Rightarrow> asn_node \<Rightarrow> 'x rpn_structure option zrun" where
  "DecodeRPNStructure cd (Asn_node ty cl tagno len db children tail) =
     (if tagno = 0
      then zbind (null_check (DecodeOperand cd) (case children of [] \<Rightarrow> None | c # _ \<Rightarrow> Some c)) (\<lambda>op. zret (Some (RPN_op op)))
      else if tagno = 1
      then (case children of
          [] \<Rightarrow> zret None
        | c1 # rest1 \<Rightarrow> zbind (DecodeRPNStructure cd c1) (\<lambda>rpn1. case rest1 of
            [] \<Rightarrow> zret None
          | c2 # rest2 \<Rightarrow> zbind (DecodeRPNStructure cd c2) (\<lambda>rpn2. case rest2 of
              [] \<Rightarrow> zret None
            | c3 # _ \<Rightarrow> zbind (DecodeOperator cd c3) (\<lambda>op. zret (Some (RPN_rpnRpnOp rpn1 rpn2 op))))))
      else zret (Some (RPN_op None)))"

definition rpn_query_field :: "'x codec \<Rightarrow> 'x rpn_query \<Rightarrow> asn_node \<Rightarrow> 'x rpn_query zrun" where
  "rpn_query_field cd q child0 =
     (if an_tagno child0 = OBJECTIDENTIFIER then zbind (decode_oid_ptr cd child0) (\<lambda>g. zret (q\<lparr>rq_attributeSet := g\<rparr>))
      else if an_tagno child0 = 0 then zbind (DecodeRPNStructure cd child0) (\<lambda>r. zret (q\<lparr>rq_rpn := r\<rparr>))
      else if an_tagno child0 = 1 then zbind (DecodeRPNStructure cd child0) (\<lambda>r. zret (q\<lparr>rq_rpn := r\<rparr>))
      else zret q)"

definition DecodeRPNQuery :: "'x codec \<Rightarrow> asn_node \<Rightarrow> 'x rpn_query option zrun" where
  "DecodeRPNQuery cd node =
     zbind (zfold (rpn_query_field cd) \<lparr>rq_attributeSet = None, rq_rpn = None\<rparr> (an_children node)) (\<lambda>q. zret (Some q))"

definition DecodeQuery :: "'x codec \<Rightarrow> asn_node \<Rightarrow> 'x query option zrun" where
  "DecodeQuery cd node =
     (let tagno = an_tagno node; octets = (\<lambda>c. no_check (\<lambda>child1. zret (Some (c (fst (DecodeOctetString child1))))) (an_head node))
      in if tagno = 0
         then no_check (\<lambda>child1. zbind (Some (DecodeAny child1)) (\<lambda>cs. zret (Some (Q_type_0 (Some (Any_chars cs)))))) (an_head node)
         else if tagno = 1 then zbind (DecodeRPNQuery cd node) (\<lambda>q. zret (Some (Q_type_1 q)))
         else if tagno = 2 then octets Q_type_2
         else if tagno = 100 then octets Q_type_100
         else if tagno = 101 then zbind (DecodeRPNQuery cd node) (\<lambda>q. zret (Some (Q_type_101 q)))
         else if tagno = 102 then octets Q_type_102
         else zret (Some (Q_type_0 None)))"

end
