(* ===== verification/Rpn_Wire.thy ===== *)
theory Rpn_Wire
  imports Rpn_Codec
begin

text \<open>
  What the routines of \<open>Rpn_Codec\<close> promise: which queries can be sent (\<open>query_ok\<close>), which value of BER a query is (\<open>ber_query\<close>, the definition
  of the protocol), that the encoders build a tree for this value and the decoders read the query off any tree that holds it. The
  locale \<open>wire_type\<close> is the interface of such a pair of routines; within it a value is followed over a connection. It
  is interpreted for queries.
\<close>

section \<open>Values that can be sent\<close>

text \<open>Non-empty strings, object identifiers in dot notation, integers whose sign survives, truth values as 0 and 1.\<close>

definition str_ok :: "gstr option \<Rightarrow> bool" where
  "str_ok g = (case g of None \<Rightarrow> False | Some s \<Rightarrow> (case gs_data s of None \<Rightarrow> False
     | Some d \<Rightarrow> 1 < length d \<and> last d = 0 \<and> gs_length s = int (length d) - 1 \<and> length d + 10 \<le> dbuf_capacity))"

definition str_octets :: "gstr option \<Rightarrow> octet list" where
  "str_octets g = butlast (the (gs_data (the g)))"

definition oid_ids :: "gstr option \<Rightarrow> int list" where
  "oid_ids g = (case g of None \<Rightarrow> [] | Some s \<Rightarrow> (case oid_convert (gs_data s) of Done (Some ids) \<Rightarrow> ids | _ \<Rightarrow> []))"

definition oid_str_ok :: "gstr option \<Rightarrow> bool" where
  "oid_str_ok g \<longleftrightarrow> oid_ok (oid_ids g) \<and> g = Some (c_str (oid_text (oid_ids g)))"

definition oid_bytes :: "gstr option \<Rightarrow> octet list" where
  "oid_bytes g = oid_octets (oid_numbers (oid_ids g))"

definition int_ok :: "int \<Rightarrow> bool" where
  "int_ok v \<longleftrightarrow> is_c_int v \<and> \<not> (- 8388608 \<le> v \<and> v < 0)"

definition bool_ok :: "octet \<Rightarrow> bool" where
  "bool_ok v \<longleftrightarrow> v = 0 \<or> v = 1"

fun sn_ok :: "string_or_numeric option \<Rightarrow> bool" where
  "sn_ok None = False"
| "sn_ok (Some (SN_string s)) = str_ok s"
| "sn_ok (Some (SN_numeric n)) = int_ok n"

definition unit_ok :: "z_unit \<Rightarrow> bool" where
  "unit_ok u \<longleftrightarrow> (un_unitSystem u = None \<or> str_ok (un_unitSystem u)) \<and> (un_unitType u = None \<or> sn_ok (un_unitType u))
     \<and> (un_unit u = None \<or> sn_ok (un_unit u)) \<and> int_ok (un_scaleFactor u)
     \<and> (un_unitSystem u \<noteq> None \<or> un_unitType u \<noteq> None \<or> un_unit u \<noteq> None \<or> un_scaleFactor u \<noteq> 0)"

definition int_unit_ok :: "int_unit \<Rightarrow> bool" where
  "int_unit_ok iu \<longleftrightarrow> int_ok (iu_value iu) \<and> (case iu_unitUsed iu of None \<Rightarrow> False | Some u \<Rightarrow> unit_ok u)"

fun value_ok :: "attribute_value \<Rightarrow> bool" where
  "value_ok (AV_numeric n) = int_ok n"
| "value_ok (AV_complex list acts) = (acts = [] \<and> (case list of None \<Rightarrow> False | Some items \<Rightarrow> items \<noteq> [] \<and> (\<forall>i \<in> set items. sn_ok i)))"

definition attribute_ok :: "attribute_element option \<Rightarrow> bool" where
  "attribute_ok p = (case p of None \<Rightarrow> False | Some ae \<Rightarrow>
     (ae_attributeSet ae = None \<or> oid_str_ok (ae_attributeSet ae)) \<and> int_ok (ae_attributeType ae) \<and> value_ok (ae_attributeValue ae))"

definition attributes_ok :: "attribute_element option list \<Rightarrow> bool" where
  "attributes_ok aes \<longleftrightarrow> aes \<noteq> [] \<and> (\<forall>ae \<in> set aes. attribute_ok ae)"

fun term_ok :: "'x term_value \<Rightarrow> bool" where
  "term_ok (T_general s) = str_ok s"
| "term_ok (T_numeric n) = int_ok n"
| "term_ok (T_characterString s) = str_ok s"
| "term_ok (T_oid s) = oid_str_ok s"
| "term_ok (T_dateTime s) = str_ok s"
| "term_ok (T_external x) = False"
| "term_ok (T_integerAndUnit iu) = (case iu of None \<Rightarrow> False | Some v \<Rightarrow> int_unit_ok v)"
| "term_ok (T_nullVal v) = (v = 1)"

fun operand_ok :: "'x operand \<Rightarrow> bool" where
  "operand_ok (OP_attrTerm at) = (case at of None \<Rightarrow> False | Some a \<Rightarrow>
     attributes_ok (at_attributes a) \<and> (case at_term a of None \<Rightarrow> False | Some t \<Rightarrow> term_ok t))"
| "operand_ok (OP_resultSet s) = str_ok s"
| "operand_ok (OP_resultAttr ra) = (case ra of None \<Rightarrow> False | Some a \<Rightarrow> str_ok (ra_resultSet a) \<and> attributes_ok (ra_attributes a))"

definition proximity_ok :: "proximity_operator \<Rightarrow> bool" where
  "proximity_ok po \<longleftrightarrow> bool_ok (po_exclusion po) \<and> int_ok (po_distance po) \<and> bool_ok (po_ordered po)
     \<and> int_ok (po_relationType po) \<and> int_ok (po_unit_code po)"

fun operator_ok :: "z_operator option \<Rightarrow> bool" where
  "operator_ok None = False"
| "operator_ok (Some (Z_and v)) = (v = 1)"
| "operator_ok (Some (Z_or v)) = (v = 1)"
| "operator_ok (Some (Z_and_not v)) = (v = 1)"
| "operator_ok (Some (Z_prox po)) = (case po of None \<Rightarrow> False | Some p \<Rightarrow> proximity_ok p)"

fun rpn_ok :: "'x rpn_structure option \<Rightarrow> bool" where
  "rpn_ok None = False"
| "rpn_ok (Some (RPN_op op)) = (case op of None \<Rightarrow> False | Some p \<Rightarrow> operand_ok p)"
| "rpn_ok (Some (RPN_rpnRpnOp r1 r2 op)) = (rpn_ok r1 \<and> rpn_ok r2 \<and> operator_ok op)"

definition rpn_query_ok :: "'x rpn_query option \<Rightarrow> bool" where
  "rpn_query_ok p = (case p of None \<Rightarrow> False | Some q \<Rightarrow> oid_str_ok (rq_attributeSet q) \<and> rpn_ok (rq_rpn q))"

fun query_ok :: "'x query option \<Rightarrow> bool" where
  "query_ok None = False"
| "query_ok (Some (Q_type_0 a)) = False"
| "query_ok (Some (Q_type_1 q)) = rpn_query_ok q"
| "query_ok (Some (Q_type_2 s)) = str_ok s"
| "query_ok (Some (Q_type_100 s)) = str_ok s"
| "query_ok (Some (Q_type_101 q)) = rpn_query_ok q"
| "query_ok (Some (Q_type_102 s)) = str_ok s"

section \<open>Their encodings\<close>

text \<open>The protocol: which value of BER a structure is.\<close>

definition ber_str :: "int \<Rightarrow> gstr option \<Rightarrow> ber" where
  "ber_str t s = Ber_prim 2 t (str_octets s)"

definition ber_int :: "int \<Rightarrow> int \<Rightarrow> ber" where
  "ber_int t v = Ber_prim 2 t (int_contents v)"

fun ber_sn :: "string_or_numeric option \<Rightarrow> ber" where
  "ber_sn (Some (SN_numeric n)) = ber_int 2 n"
| "ber_sn (Some (SN_string s)) = ber_str 1 s"
| "ber_sn None = ber_str 1 None"

definition ber_unit :: "int \<Rightarrow> z_unit \<Rightarrow> ber" where
  "ber_unit t u = Ber_cons 2 t
     ((if un_unitSystem u \<noteq> None then [Ber_cons 2 1 [ber_str 27 (un_unitSystem u)]] else [])
      @ (if un_unitType u \<noteq> None then [Ber_cons 2 2 [ber_sn (un_unitType u)]] else [])
      @ (if un_unit u \<noteq> None then [Ber_cons 2 3 [ber_sn (un_unit u)]] else [])
      @ (if un_scaleFactor u \<noteq> 0 then [ber_int 4 (un_scaleFactor u)] else []))"

definition ber_int_unit :: "int \<Rightarrow> int_unit \<Rightarrow> ber" where
  "ber_int_unit t iu = Ber_cons 2 t [ber_int 1 (iu_value iu), ber_unit 2 (the (iu_unitUsed iu))]"

fun ber_value :: "attribute_value \<Rightarrow> ber" where
  "ber_value (AV_numeric n) = ber_int 121 n"
| "ber_value (AV_complex list acts) = Ber_cons 2 224 [Ber_cons 2 1 (map ber_sn (the list))]"

definition ber_attribute :: "attribute_element option \<Rightarrow> ber" where
  "ber_attribute p = (let ae = the p in Ber_cons 0 16
     ((if ae_attributeSet ae \<noteq> None then [Ber_prim 2 1 (oid_bytes (ae_attributeSet ae))] else [])
      @ [ber_int 120 (ae_attributeType ae), ber_value (ae_attributeValue ae)]))"

definition ber_attributes :: "attribute_element option list \<Rightarrow> ber" where
  "ber_attributes aes = Ber_cons 2 44 (map ber_attribute aes)"

fun ber_term :: "'x term_value \<Rightarrow> ber" where
  "ber_term (T_general s) = ber_str 45 s"
| "ber_term (T_numeric n) = ber_int 215 n"
| "ber_term (T_characterString s) = ber_str 216 s"
| "ber_term (T_oid s) = Ber_prim 2 217 (oid_bytes s)"
| "ber_term (T_dateTime s) = ber_str 218 s"
| "ber_term (T_external x) = Ber_cons 2 219 []"
| "ber_term (T_integerAndUnit iu) = ber_int_unit 220 (the iu)"
| "ber_term (T_nullVal v) = Ber_prim 2 221 []"

fun ber_operand :: "'x operand \<Rightarrow> ber" where
  "ber_operand (OP_attrTerm at) = Ber_cons 2 102 [ber_attributes (at_attributes (the at)), ber_term (the (at_term (the at)))]"
| "ber_operand (OP_resultSet s) = ber_str 31 s"
| "ber_operand (OP_resultAttr ra) = Ber_cons 2 214 [ber_str 31 (ra_resultSet (the ra)), ber_attributes (ra_attributes (the ra))]"

definition ber_proximity :: "int \<Rightarrow> proximity_operator \<Rightarrow> ber" where
  "ber_proximity t po = Ber_cons 2 t
     ((if po_exclusion po \<noteq> 0 then [Ber_prim 2 1 [po_exclusion po]] else [])
      @ [ber_int 2 (po_distance po), Ber_prim 2 3 [po_ordered po], ber_int 4 (po_relationType po),
         Ber_cons 2 5 [case po_unit_which po of E8_known \<Rightarrow> ber_int 1 (po_unit_code po) | E8_private \<Rightarrow> ber_int 2 (po_unit_code po)]])"

fun ber_operator :: "z_operator option \<Rightarrow> ber" where
  "ber_operator (Some (Z_and v)) = Ber_cons 2 46 [Ber_prim 2 0 []]"
| "ber_operator (Some (Z_or v)) = Ber_cons 2 46 [Ber_prim 2 1 []]"
| "ber_operator (Some (Z_and_not v)) = Ber_cons 2 46 [Ber_prim 2 2 []]"
| "ber_operator (Some (Z_prox po)) = Ber_cons 2 46 [ber_proximity 3 (the po)]"
| "ber_operator None = Ber_cons 2 46 []"

fun ber_rpn :: "'x rpn_structure option \<Rightarrow> ber" where
  "ber_rpn (Some (RPN_op op)) = Ber_cons 2 0 [ber_operand (the op)]"
| "ber_rpn (Some (RPN_rpnRpnOp r1 r2 op)) = Ber_cons 2 1 [ber_rpn r1, ber_rpn r2, ber_operator op]"
| "ber_rpn None = Ber_cons 2 0 []"

definition ber_rpn_query :: "int \<Rightarrow> 'x rpn_query option \<Rightarrow> ber" where
  "ber_rpn_query t p = Ber_cons 2 t [Ber_prim 0 6 (oid_bytes (rq_attributeSet (the p))), ber_rpn (rq_rpn (the p))]"

fun ber_query :: "'x query option \<Rightarrow> ber" where
  "ber_query (Some (Q_type_1 q)) = ber_rpn_query 1 q"
| "ber_query (Some (Q_type_101 q)) = ber_rpn_query 101 q"
| "ber_query (Some (Q_type_2 s)) = Ber_cons 2 2 [Ber_prim 0 4 (str_octets s)]"
| "ber_query (Some (Q_type_100 s)) = Ber_cons 2 100 [Ber_prim 0 4 (str_octets s)]"
| "ber_query (Some (Q_type_102 s)) = Ber_cons 2 102 [Ber_prim 0 4 (str_octets s)]"
| "ber_query (Some (Q_type_0 a)) = Ber_cons 2 0 []"
| "ber_query None = Ber_cons 2 0 []"

section \<open>Leaves and sequences\<close>

text \<open>An encoder makes a tree for a value of BER; a decoder reads its result off every tree that holds the value.\<close>

definition encodes :: "asn_node option run \<Rightarrow> ber \<Rightarrow> bool" where
  "encodes e b \<longleftrightarrow> (\<exists>n. e = Done (Some n) \<and> represents n b)"

definition decodes :: "(asn_node \<Rightarrow> 'a zrun) \<Rightarrow> ber \<Rightarrow> 'a \<Rightarrow> bool" where
  "decodes f b v \<longleftrightarrow> (\<forall>m. decoded m b \<longrightarrow> f m = zret v)"

named_theorems wire_intros "what the encoders make"

lemma attach_all_represents:
  assumes "represents node (Ber_cons c t bs)" "an_tail node = length bs - 1" "list_all2 encodes es bs'"
  shows "encodes (attach_all node es) (Ber_cons c t (bs @ bs'))"
  using assms
proof (induction es arbitrary: node bs bs')
  case (Cons e es)
  obtain b bs2 where bs': "bs' = b # bs2" "encodes e b" "list_all2 encodes es bs2" using Cons.prems(3) by (cases bs') auto
  obtain n where n: "e = Done (Some n)" "represents n b" using bs'(2) by (auto simp: encodes_def)
  obtain len db ns tp where node: "node = Asn_node 1 c t len db ns tp" "dbuf_at 0 db" "dbuf_octets db = []" "list_all2 represents ns bs"
    using Cons.prems(1) by (auto elim: represents.cases)
  have len: "length ns = length bs" using node(4) by (rule list_all2_lengthD)
  let ?node = "Asn_node 1 c t len db (ns @ [n]) (length bs)"
  have "Attach (Some node) [n] = Some ?node"
    using len Cons.prems(2) by (cases ns) (auto simp: Attach_def node(1))
  moreover have "represents ?node (Ber_cons c t (bs @ [b]))"
    using node(2-4) n(2) by (intro rep_cons) (simp_all add: list_all2_appendI)
  ultimately show ?case using Cons.IH [of ?node "bs @ [b]" bs2] bs' n(1) by simp
qed (auto simp: encodes_def)

lemma encodes_node [wire_intros]:
  "list_all2 encodes es bs \<Longrightarrow> encodes (attach_all (NewAsnNode c 1 t) es) (Ber_cons c t bs)"
proof -
  assume a: "list_all2 encodes es bs"
  have "represents (NewAsnNode c 1 t) (Ber_cons c t [])"
    unfolding NewAsnNode_def by (rule rep_cons) (simp_all add: dbuf_at_def)
  from attach_all_represents [OF this _ a] show ?thesis by (simp add: NewAsnNode_def)
qed

declare attach_all.simps [simp del]

lemma encodes_context [wire_intros]:
  "list_all2 encodes es bs \<Longrightarrow> encodes (attach_all (NewAsnNode BER_CONTEXT CONSTRUCTED t) es) (Ber_cons 2 t bs)"
  using encodes_node by (simp add: BER_CONTEXT_def CONSTRUCTED_def)

lemma encodes_list [wire_intros]:
  "list_all2 encodes [] []" "encodes e b \<Longrightarrow> list_all2 encodes es bs \<Longrightarrow> list_all2 encodes (e # es) (b # bs)"
  "list_all2 encodes es bs \<Longrightarrow> list_all2 encodes es' bs' \<Longrightarrow> list_all2 encodes (es @ es') (bs @ bs')"
  "(P \<Longrightarrow> encodes e b) \<Longrightarrow> list_all2 encodes (if P then [e] else []) (if P then [b] else [])"
  by (simp_all add: list_all2_appendI)

lemma encodes_map [wire_intros]: "(\<And>v. v \<in> set vs \<Longrightarrow> encodes (f v) (g v)) \<Longrightarrow> list_all2 encodes (map f vs) (map g vs)"
  by (induction vs) simp_all

lemma choose_node_simps [simp]:
  "choose_node CLASS_NONE TYPE_NONE TAGNO_NONE c t = NewAsnNode c 1 t" "choose_node BER_CONTEXT CONSTRUCTED t c t' = NewAsnNode 2 1 t"
  by (simp_all add: choose_node_def ber_constants)

lemma str_okE:
  assumes "str_ok g"
  obtains cs where "g = Some (c_str cs)" "cs \<noteq> []" "length cs + 11 \<le> dbuf_capacity" "str_octets g = cs"
proof -
  obtain s d where s: "g = Some s" "gs_data s = Some d" "1 < length d" "last d = 0" "gs_length s = int (length d) - 1" "length d + 10 \<le> dbuf_capacity"
    using assms by (auto simp: str_ok_def split: option.splits)
  have d: "butlast d @ [0] = d" using s(3,4) append_butlast_last_id [of d] by fastforce
  have "g = Some (c_str (butlast d))" using s(1,2,3,5) d by (simp add: c_str_def)
  moreover have "butlast d \<noteq> []" "length (butlast d) + 11 \<le> dbuf_capacity" "str_octets g = butlast d"
    using s d by (auto simp: str_octets_def)
  ultimately show ?thesis using that by blast
qed

lemma encodes_string:
  assumes "str_ok g" "tag_ok c 0 t"
  shows "encodes (encode_leaf c t (\<lambda>b. encode_generic_string b c t g)) (Ber_prim c t (str_octets g))"
proof -
  obtain cs where g: "g = Some (c_str cs)" "cs \<noteq> []" "length cs + 11 \<le> dbuf_capacity" "str_octets g = cs" using assms(1) by (rule str_okE)
  have "dbuf_at 0 NewDbuf" "room_for NewDbuf cs" using g(3) by (simp_all add: dbuf_at_def room_for_def)
  then obtain b where b: "encode_generic_string NewDbuf c t g = Done (Z_OK, b)" "dbuf_at 0 b" "dbuf_octets b = tlv c 0 t cs"
    using encode_generic_string_writes [of 0 NewDbuf c t cs "c_str cs" "[0]"] assms(2) g(1,2) by (auto simp: c_str_def)
  show ?thesis using encode_leaf_represents [of "\<lambda>b. encode_generic_string b c t g", OF b] g(4) by (simp add: encodes_def)
qed

lemma encodes_strings [wire_intros]:
  "str_ok g \<Longrightarrow> tag_ok c 0 t \<Longrightarrow> encodes (EncodeOctetString c t g) (Ber_prim c t (str_octets g))"
  "str_ok g \<Longrightarrow> tag_ok c 0 t \<Longrightarrow> encodes (EncodeGeneralString c t g) (Ber_prim c t (str_octets g))"
  "str_ok g \<Longrightarrow> tag_ok c 0 t \<Longrightarrow> encodes (EncodeGeneralizedTime c t g) (Ber_prim c t (str_octets g))"
  by (simp_all add: EncodeOctetString_def EncodeGeneralString_def EncodeGeneralizedTime_def encodes_string)

lemma encodes_int [wire_intros]:
  assumes "int_ok v" "tag_ok c 0 t"
  shows "encodes (EncodeInteger c t v) (Ber_prim c t (int_contents v))"
proof -
  have "dbuf_at 0 NewDbuf" by (simp add: dbuf_at_def)
  then obtain b where b: "encode_integer NewDbuf c t v = (Z_OK, b)" "dbuf_at 0 b" "dbuf_octets b = tlv c 0 t (int_contents v)"
    using encode_integer_writes [of 0 NewDbuf c t v] assms by (auto simp: dbuf_capacity_def int_ok_def)
  then show ?thesis
    using encode_leaf_represents [of "\<lambda>b. Done (encode_integer b c t v)", OF _ b(2,3)] by (auto simp: EncodeInteger_def encodes_def)
qed

lemma encodes_oid [wire_intros]:
  "oid_str_ok g \<Longrightarrow> tag_ok c 0 t \<Longrightarrow> encodes (EncodeOid junk c t g) (Ber_prim c t (oid_bytes g))"
  using EncodeOid_represents [of c t "oid_ids g" junk] by (auto simp: oid_str_ok_def encodes_def oid_bytes_def)

lemma put_header_null: "tag_ok c 0 t \<Longrightarrow> \<exists>b. put_header NewDbuf c t 0 = (True, b) \<and> dbuf_at 0 b \<and> dbuf_octets b = tlv c 0 t []"
  using header_then [of 0 NewDbuf c t "[]"] by (auto simp: dbuf_at_def room_for_def dbuf_capacity_def tlv_def)

lemma encodes_null [wire_intros]:
  assumes "tag_ok c 0 t" shows "encodes (EncodeNull c t) (Ber_prim c t [])"
proof -
  obtain b where b: "put_header NewDbuf c t 0 = (True, b)" "dbuf_at 0 b" "dbuf_octets b = tlv c 0 t []"
    using put_header_null [OF assms] by blast
  have "encode_null NewDbuf c t = (Z_OK, b)" using b(1) by (simp add: encode_null_def z_status_def)
  then show ?thesis
    using encode_leaf_represents [of "\<lambda>b. Done (encode_null b c t)", OF _ b(2,3)] by (simp add: EncodeNull_def encodes_def)
qed

lemma encodes_bool [wire_intros]:
  assumes "bool_ok v" "tag_ok c 0 t" shows "encodes (EncodeBoolean c t v) (Ber_prim c t [v])"
proof -
  have "dbuf_at 0 NewDbuf" "room_for NewDbuf [v]" by (simp_all add: dbuf_at_def room_for_def dbuf_capacity_def)
  then obtain b where b: "put_header NewDbuf c t 1 = (True, b)" "dbuf_at 0 b" "dbuf_octets b = tag_octets c 0 t @ len_octets 1"
      "length (dbuf_octets b) + 1 \<le> dbuf_capacity"
    using header_then [of 0 NewDbuf c t "[v]"] assms(2) by auto
  obtain b' where b': "put_one b v = (True, b')" "dbuf_at 0 b'" "dbuf_octets b' = tlv c 0 t [v]"
    using put_one_valid [of b v] b(2-4) by (auto simp: dbuf_at_def tlv_def)
  have "encode_boolean NewDbuf c t v = (Z_OK, b')"
    using b(1) b'(1) assms(1) by (auto simp: encode_boolean_def z_status_def bool_ok_def)
  then show ?thesis
    using encode_leaf_represents [of "\<lambda>b. Done (encode_boolean b c t v)", OF _ b'(2,3)] by (simp add: EncodeBoolean_def encodes_def)
qed

text \<open>The leaves, read.\<close>

lemma decoded_tag: "decoded m (Ber_prim c t cs) \<Longrightarrow> an_tagno m = t" "decoded m (Ber_cons c t bs) \<Longrightarrow> an_tagno m = t"
  by (auto elim: decoded_primE decoded_consE)

lemma decoded_contents:
  "decoded m (Ber_prim c t cs) \<Longrightarrow> dbuf_valid (an_dbuf m) \<and> dbuf_rest (an_dbuf m) = cs \<and> an_length m = int (length cs)"
  by (erule decoded_primE) (auto simp: dbuf_at_def dbuf_rest_def)

lemma decoded_children: "decoded m (Ber_cons c t bs) \<Longrightarrow> list_all2 decoded (an_children m) bs"
  by (auto elim: decoded_consE)

lemma decode_int_leaf: "decoded m (Ber_prim c t (int_contents v)) \<Longrightarrow> int_ok v \<Longrightarrow> fst (DecodeInteger junk m) = v"
  using decode_integer_contents [of "an_dbuf m" v "[]" junk] decoded_contents [of m c t "int_contents v"] int_value [of v]
  by (auto simp: DecodeInteger_def int_ok_def)

lemma decode_str_leaf:
  assumes "decoded m (Ber_prim c t (str_octets g))" "str_ok g"
  shows "fst (DecodeGSTR (an_dbuf m) (an_length m)) = g"
proof -
  obtain cs where g: "g = Some (c_str cs)" "length cs + 11 \<le> dbuf_capacity" "str_octets g = cs" using assms(2) by (rule str_okE) blast
  have m: "dbuf_valid (an_dbuf m)" "dbuf_rest (an_dbuf m) = cs" "an_length m = int (length cs)"
    using decoded_contents [OF assms(1)] g(3) by simp_all
  have "is_c_int (int (length cs) + 1)" using g(2) by (simp add: is_c_int_def dbuf_capacity_def)
  then show ?thesis
    using db_get_valid [OF m(1), of "int (length cs)" "replicate (nat (int (length cs) + 1)) 0"] m(2,3) g(1)
    by (auto simp: DecodeGSTR_def c_str_def nat_add_distrib replicate_Suc [of 0] simp del: replicate_Suc)
qed

lemma decode_str_leaves:
  assumes "decoded m (Ber_prim c t (str_octets g))" "str_ok g"
  shows "fst (DecodeOctetString m) = g" "DecodeInternationalString m = g" "DecodeResultSetId m = g" "fst (DecodeGeneralizedTime m) = g"
  using decode_str_leaf [OF assms]
  by (simp_all add: DecodeOctetString_def DecodeInternationalString_def DecodeGeneralString_def DecodeResultSetId_def DecodeGeneralizedTime_def)

lemma decode_oid_leaf:
  assumes "decoded m (Ber_prim c t (oid_bytes g))" "oid_str_ok g"
  shows "\<exists>s b. g = Some s \<and> DecodeOid junk m = Some (Done (s, b))"
  using decode_oid_string_contents [of "an_dbuf m" "oid_ids g" "[]" junk] decoded_contents [OF assms(1)] assms(2)
  by (auto simp: oid_str_ok_def oid_bytes_def DecodeOid_def c_str_def)

lemma decode_oid_ptr_leaf: "decoded m (Ber_prim c t (oid_bytes g)) \<Longrightarrow> oid_str_ok g \<Longrightarrow> decode_oid_ptr cd m = zret g"
  using decode_oid_leaf [of m c t g "cd_octet cd"] by (auto simp: decode_oid_ptr_def)

lemma decode_int_ptr: "decoded m (ber_int t v) \<Longrightarrow> int_ok v \<Longrightarrow> decode_int cd m = v"
  by (simp add: decode_int_def decode_int_leaf ber_int_def)

lemma decode_bool_leaf:
  assumes "decoded m (Ber_prim c t [v])" "bool_ok v" shows "decode_bool cd m = v"
proof -
  have "[v] = int_contents (uint v)" using assms(2) unfolding bool_ok_def by (elim disjE) (simp_all, code_simp+)
  moreover have "int_ok (uint v)" using assms(2) by (auto simp: bool_ok_def int_ok_def is_c_int_def)
  ultimately have "fst (DecodeInteger (cd_octet cd) m) = uint v" using decode_int_leaf [of m c t "uint v"] assms(1) by simp
  then show ?thesis using assms(2) by (auto simp: decode_bool_def DecodeBoolean_def bool_ok_def c_char_def octet_of_def)
qed

lemma decoded_head: "decoded m (Ber_cons c t (b # bs)) \<Longrightarrow> \<exists>ch. an_head m = Some ch \<and> decoded ch b"
  using decoded_children [of m c t "b # bs"] by (cases "an_children m") (auto simp: an_head_def)

lemma zmap_decoded:
  assumes "list_all2 decoded ns (map f vs)" "\<And>v m. v \<in> set vs \<Longrightarrow> decoded m (f v) \<Longrightarrow> g m = zret v"
  shows "zmap g ns = zret vs"
  using assms
proof (induction vs arbitrary: ns)
  case (Cons v vs)
  then obtain n ns' where ns: "ns = n # ns'" "decoded n (f v)" "list_all2 decoded ns' (map f vs)" by (cases ns) auto
  then have "g n = zret v" "zmap g ns' = zret vs" using Cons.IH [of ns'] Cons.prems(2) by simp_all
  then show ?case using ns(1) by simp
qed simp

section \<open>Structures\<close>

lemma tag_ok_prim [simp]: "0 \<le> t \<Longrightarrow> t < 2147483648 \<Longrightarrow> tag_ok 2 0 t" "tag_ok 0 0 6" "tag_ok 0 0 4"
  by (simp_all add: tag_ok_def)

lemma sn_encodes: "sn_ok sn \<Longrightarrow> encodes (EncodeStringOrNumeric sn) (ber_sn sn)"
  by (cases sn rule: sn_ok.cases)
     (auto simp: EncodeStringOrNumeric_def EncodeInternationalString_def ber_str_def ber_int_def ber_constants intro!: wire_intros)

lemma sn_decodes:
  assumes "sn_ok sn" "decoded m (ber_sn sn)" shows "DecodeStringOrNumeric cd m = zret sn"
proof (cases sn rule: sn_ok.cases)
  case (2 s)
  with assms have "decoded m (Ber_prim 2 1 (str_octets s))" "str_ok s" by (simp_all add: ber_str_def)
  then show ?thesis using decode_str_leaves(2) decoded_tag(1) 2 by (fastforce simp: DecodeStringOrNumeric_def)
next
  case (3 n)
  with assms have "decoded m (ber_int 2 n)" "int_ok n" by simp_all
  then show ?thesis using decode_int_ptr decoded_tag(1) 3 by (fastforce simp: DecodeStringOrNumeric_def ber_int_def)
qed (use assms in simp)

lemma international_encodes [wire_intros]:
  "str_ok g \<Longrightarrow> encodes (EncodeInternationalString CLASS_NONE TAGNO_NONE g) (ber_str 27 g)"
  "str_ok g \<Longrightarrow> 0 \<le> t \<Longrightarrow> t < 2147483648 \<Longrightarrow> encodes (EncodeInternationalString BER_CONTEXT t g) (ber_str t g)"
  "str_ok g \<Longrightarrow> encodes (EncodeResultSetId CLASS_NONE TAGNO_NONE g) (ber_str 31 g)"
  by (auto simp: EncodeInternationalString_def EncodeResultSetId_def ber_str_def ber_constants intro!: wire_intros)

lemma integer_encodes [wire_intros]:
  "int_ok v \<Longrightarrow> 0 \<le> t \<Longrightarrow> t < 2147483648 \<Longrightarrow> encodes (EncodeInteger BER_CONTEXT t v) (ber_int t v)"
  by (auto simp: ber_int_def ber_constants intro!: wire_intros)

lemma unit_encodes [wire_intros]:
  "unit_ok u \<Longrightarrow> encodes (EncodeUnit BER_CONTEXT CONSTRUCTED t (Some u)) (ber_unit t u)"
  unfolding EncodeUnit_def ber_unit_def deref.simps run_bind.simps choose_node_simps
  by (intro wire_intros sn_encodes) (auto simp: unit_ok_def)

lemma decoded_list:
  "list_all2 decoded ns [] \<longleftrightarrow> ns = []" "list_all2 decoded ns (b # bs) \<longleftrightarrow> (\<exists>n ns'. ns = n # ns' \<and> decoded n b \<and> list_all2 decoded ns' bs)"
  by (cases ns; auto)+

lemma unit_decodes:
  assumes "unit_ok u" "decoded m (ber_unit t u)" shows "DecodeUnit cd m = zret (Some u)"
proof -
  have f1: "unit_field cd v n = zret (v\<lparr>un_unitSystem := s\<rparr>)" if "decoded n (Ber_cons 2 1 [ber_str 27 s])" "str_ok s" for n v s
    using decoded_head [OF that(1)] decoded_tag(2) [OF that(1)] decode_str_leaves(2) [OF _ that(2)] by (auto simp: unit_field_def no_check_def ber_str_def)
  have f2: "unit_field cd v n = zret (v\<lparr>un_unitType := sn\<rparr>)" if "decoded n (Ber_cons 2 2 [ber_sn sn])" "sn_ok sn" for n v sn
    using decoded_head [OF that(1)] decoded_tag(2) [OF that(1)] sn_decodes [OF that(2), where cd = cd] by (auto simp: unit_field_def null_check_def)
  have f3: "unit_field cd v n = zret (v\<lparr>un_unit := sn\<rparr>)" if "decoded n (Ber_cons 2 3 [ber_sn sn])" "sn_ok sn" for n v sn
    using decoded_head [OF that(1)] decoded_tag(2) [OF that(1)] sn_decodes [OF that(2), where cd = cd] by (auto simp: unit_field_def null_check_def)
  have f4: "unit_field cd v n = zret (v\<lparr>un_scaleFactor := x\<rparr>)" if "decoded n (ber_int 4 x)" "int_ok x" for n v x
    using decode_int_ptr [OF that, of cd] decoded_tag(1) [OF that(1) [unfolded ber_int_def]] by (simp add: unit_field_def)
  have nones: "\<not> str_ok None" "\<not> sn_ok None" by (simp_all add: str_ok_def)
  have "list_all2 decoded (an_children m) (case ber_unit t u of Ber_cons _ _ bs \<Rightarrow> bs | _ \<Rightarrow> [])"
    using decoded_children assms(2) by (simp add: ber_unit_def)
  then show ?thesis
    using assms(1) nones unfolding unit_ok_def ber_unit_def DecodeUnit_def
    by (cases "un_unitSystem u = None"; cases "un_unitType u = None"; cases "un_unit u = None"; cases "un_scaleFactor u = 0")
       (cases u; auto simp: decoded_list f1 f2 f3 f4)+
qed
lemma int_unit_encodes [wire_intros]:
  "int_unit_ok iu \<Longrightarrow> encodes (EncodeIntUnit BER_CONTEXT CONSTRUCTED t (Some iu)) (ber_int_unit t iu)"
proof -
  assume ok: "int_unit_ok iu"
  then obtain u where u: "iu_unitUsed iu = Some u" "unit_ok u" "int_ok (iu_value iu)" by (auto simp: int_unit_ok_def split: option.splits)
  show ?thesis unfolding EncodeIntUnit_def ber_int_unit_def deref.simps run_bind.simps choose_node_simps u(1) option.sel
    by (intro wire_intros) (use u in simp_all)
qed

lemma int_unit_decodes:
  assumes "int_unit_ok iu" "decoded m (ber_int_unit t iu)" shows "DecodeIntUnit cd m = zret (Some iu)"
proof -
  obtain u where u: "iu_unitUsed iu = Some u" "unit_ok u" "int_ok (iu_value iu)" using assms(1) by (auto simp: int_unit_ok_def split: option.splits)
  obtain n1 n2 where n: "an_children m = [n1, n2]" "decoded n1 (ber_int 1 (iu_value iu))" "decoded n2 (ber_unit 2 u)"
    using decoded_children [OF assms(2) [unfolded ber_int_unit_def]] u(1) by (auto simp: decoded_list)
  have "an_tagno n1 = 1" "an_tagno n2 = 2" using n(2,3) decoded_tag by (fastforce simp: ber_int_def ber_unit_def)+
  then show ?thesis
    using n(1) decode_int_ptr [OF n(2) u(3), of cd] unit_decodes [OF u(2) n(3), of cd] u(1)
    by (cases iu) (simp add: DecodeIntUnit_def int_unit_field_def)
qed

text \<open>Attributes.\<close>

lemma attribute_encodes: "attribute_ok p \<Longrightarrow> encodes (EncodeAttributeElement cd CLASS_NONE TYPE_NONE TAGNO_NONE p) (ber_attribute p)"
proof -
  assume "attribute_ok p"
  then obtain ae where ae: "p = Some ae" "ae_attributeSet ae = None \<or> oid_str_ok (ae_attributeSet ae)" "int_ok (ae_attributeType ae)"
      "value_ok (ae_attributeValue ae)"
    by (auto simp: attribute_ok_def split: option.splits)
  have set: "encodes (EncodeAttributeSetId cd BER_CONTEXT 1 g) (Ber_prim 2 1 (oid_bytes g))" if "oid_str_ok g" for g
    using that by (auto simp: EncodeAttributeSetId_def ber_constants intro!: wire_intros)
  have val: "encodes (encode_value v) (ber_value v)" if vok: "value_ok v" for v
  proof (cases v)
    case (AV_numeric n)
    then show ?thesis using vok by (auto simp: encode_value_def intro!: wire_intros)
  next
    case (AV_complex l acts)
    then obtain items where i: "l = Some items" "acts = []" "\<forall>i \<in> set items. sn_ok i" using vok by (auto split: option.splits)
    show ?thesis unfolding AV_complex i encode_value_def attribute_value.case deref.simps run_bind.simps ber_value.simps option.sel
      by (simp, intro wire_intros) (use i(3) sn_encodes in auto)
  qed
  show ?thesis
    unfolding ae(1) EncodeAttributeElement_def ber_attribute_def Let_def deref.simps run_bind.simps choose_node_simps option.sel UNIVERSAL_def SEQUENCE_def
    by (intro wire_intros set val) (use ae in auto)
qed

lemma set_field:
  assumes "decoded (ns ! i) (Ber_prim 2 1 (oid_bytes g))" "oid_str_ok g"
  shows "\<exists>n'. attribute_field cd (ns, ae) i = zret (ns[i := n'], ae\<lparr>ae_attributeSet := g\<rparr>)"
  using decode_oid_leaf [OF assms, of "cd_octet cd"] decoded_tag(1) [OF assms(1)]
  by (auto simp: attribute_field_def DecodeAttributeSetId_def Let_def)

lemma type_field:
  assumes "decoded (ns ! i) (ber_int 120 v)" "int_ok v"
  shows "\<exists>n'. attribute_field cd (ns, ae) i = zret (ns[i := n'], ae\<lparr>ae_attributeType := v\<rparr>)"
  using decode_int_leaf [OF assms(1) [unfolded ber_int_def] assms(2)] decoded_tag(1) [OF assms(1) [unfolded ber_int_def]]
  by (auto simp: attribute_field_def Let_def)

lemma value_field:
  assumes "decoded (ns ! i) (ber_value v)" "value_ok v" "ae_attributeValue ae = AV_numeric 0"
  shows "\<exists>ns'. attribute_field cd (ns, ae) i = zret (ns', ae\<lparr>ae_attributeValue := v\<rparr>)"
proof (cases v)
  case (AV_numeric n)
  then have "decoded (ns ! i) (Ber_prim 2 121 (int_contents n))" "int_ok n" using assms(1,2) by (simp_all add: ber_int_def)
  then show ?thesis using decode_int_leaf decoded_tag(1) AV_numeric by (fastforce simp: attribute_field_def Let_def)
next
  case (AV_complex l acts)
  then obtain items where it: "l = Some items" "acts = []" "\<forall>i \<in> set items. sn_ok i" using assms(2) by (auto split: option.splits)
  then have d: "decoded (ns ! i) (Ber_cons 2 224 [Ber_cons 2 1 (map ber_sn items)])" using assms(1) AV_complex by simp
  obtain c where c: "an_children (ns ! i) = [c]" "decoded c (Ber_cons 2 1 (map ber_sn items))"
    using decoded_children [OF d] by (auto simp: decoded_list)
  have "zmap (DecodeStringOrNumeric cd) (an_children c) = zret items"
    using zmap_decoded [OF decoded_children [OF c(2)], of "DecodeStringOrNumeric cd"] it(3) sn_decodes by blast
  then show ?thesis
    using c(1) decoded_tag(2) [OF d] decoded_tag(2) [OF c(2)] AV_complex it(1,2) assms(3)
    by (auto simp: attribute_field_def Let_def as_complex_def)
qed

lemma attribute_decodes:
  assumes "attribute_ok p" "decoded m (ber_attribute p)" shows "DecodeAttributeElement cd m = zret p"
proof -
  obtain ae where ae: "p = Some ae" "ae_attributeSet ae = None \<or> oid_str_ok (ae_attributeSet ae)" "int_ok (ae_attributeType ae)"
      "value_ok (ae_attributeValue ae)"
    using assms(1) by (auto simp: attribute_ok_def split: option.splits)
  let ?ae0 = "\<lparr>ae_attributeSet = None, ae_attributeType = 0, ae_attributeValue = AV_numeric 0\<rparr>"
  show ?thesis
  proof (cases "ae_attributeSet ae")
    case None
    then obtain n1 n2 where n: "an_children m = [n1, n2]" "decoded n1 (ber_int 120 (ae_attributeType ae))" "decoded n2 (ber_value (ae_attributeValue ae))"
      using decoded_children [OF assms(2) [unfolded ber_attribute_def Let_def]] ae(1) by (auto simp: decoded_list)
    obtain n' where 1: "attribute_field cd ([n1, n2], ?ae0) 0 = zret ([n', n2], ?ae0\<lparr>ae_attributeType := ae_attributeType ae\<rparr>)"
      using type_field [of "[n1, n2]" 0 "ae_attributeType ae" cd ?ae0] n(2) ae(3) by auto
    obtain ns' where 2: "attribute_field cd ([n', n2], ?ae0\<lparr>ae_attributeType := ae_attributeType ae\<rparr>) 1
        = zret (ns', ?ae0\<lparr>ae_attributeType := ae_attributeType ae, ae_attributeValue := ae_attributeValue ae\<rparr>)"
      using value_field [of "[n', n2]" 1 "ae_attributeValue ae" "?ae0\<lparr>ae_attributeType := ae_attributeType ae\<rparr>" cd] n(3) ae(4) None by auto
    show ?thesis using 1 2 ae(1) None by (cases ae) (simp add: DecodeAttributeElement_def n(1) upt_rec)
  next
    case (Some g)
    then obtain n0 n1 n2 where n: "an_children m = [n0, n1, n2]" "decoded n0 (Ber_prim 2 1 (oid_bytes (Some g)))"
        "decoded n1 (ber_int 120 (ae_attributeType ae))" "decoded n2 (ber_value (ae_attributeValue ae))"
      using decoded_children [OF assms(2) [unfolded ber_attribute_def Let_def]] ae(1) by (auto simp: decoded_list)
    let ?ae1 = "?ae0\<lparr>ae_attributeSet := Some g\<rparr>"
    obtain m0 where 0: "attribute_field cd ([n0, n1, n2], ?ae0) 0 = zret ([m0, n1, n2], ?ae1)"
      using set_field [of "[n0, n1, n2]" 0 "Some g" cd ?ae0] n(2) ae(2) Some by auto
    obtain n' where 1: "attribute_field cd ([m0, n1, n2], ?ae1) 1 = zret ([m0, n', n2], ?ae1\<lparr>ae_attributeType := ae_attributeType ae\<rparr>)"
      using type_field [of "[m0, n1, n2]" 1 "ae_attributeType ae" cd ?ae1] n(3) ae(3) by auto
    obtain ns' where 2: "attribute_field cd ([m0, n', n2], ?ae1\<lparr>ae_attributeType := ae_attributeType ae\<rparr>) 2
        = zret (ns', ?ae1\<lparr>ae_attributeType := ae_attributeType ae, ae_attributeValue := ae_attributeValue ae\<rparr>)"
      using value_field [of "[m0, n', n2]" 2 "ae_attributeValue ae" "?ae1\<lparr>ae_attributeType := ae_attributeType ae\<rparr>" cd] n(4) ae(4) Some by auto
    show ?thesis using 0 1 2 ae(1) Some by (cases ae) (simp add: DecodeAttributeElement_def n(1) upt_rec numeral_2_eq_2)
  qed
qed

lemma attributes_encodes [wire_intros]:
  "attributes_ok aes \<Longrightarrow> encodes (EncodeAttributeList cd CLASS_NONE TYPE_NONE TAGNO_NONE aes) (ber_attributes aes)"
  unfolding EncodeAttributeList_def ber_attributes_def choose_node_simps BER_CONTEXT_def
  by (intro wire_intros attribute_encodes) (simp add: attributes_ok_def)

lemma attributes_decodes: "attributes_ok aes \<Longrightarrow> decoded m (ber_attributes aes) \<Longrightarrow> DecodeAttributeList cd m = zret aes"
  unfolding DecodeAttributeList_def ber_attributes_def
  by (rule zmap_decoded [OF decoded_children]) (auto simp: attributes_ok_def attribute_decodes)

text \<open>Terms and operands.\<close>

lemma term_encodes [wire_intros]: "term_ok t \<Longrightarrow> encodes (EncodeTerm cd (Some t)) (ber_term t)"
  by (cases t rule: term_ok.cases)
     (auto simp: EncodeTerm_def ber_str_def [of 45] ber_str_def [of 218] BER_CONTEXT_def [symmetric] split: option.splits
       intro!: wire_intros; simp add: BER_CONTEXT_def; fail)+

lemma term_decodes:
  assumes "term_ok t" "decoded m (ber_term t)" shows "DecodeTerm cd m = zret (Some t)"
  using assms decode_str_leaves [of m 2] decode_int_ptr [of m _ _ cd] decode_oid_ptr_leaf [of m 2 _ _ cd] int_unit_decodes [of _ m _ cd] decoded_tag [of m]
  by (cases t rule: term_ok.cases)
     (auto simp: DecodeTerm_def Let_def ber_str_def ber_int_def ber_int_unit_def DecodeNull_def split: option.splits)

lemma operand_encodes [wire_intros]:
  assumes "operand_ok p" shows "encodes (EncodeOperand cd (Some p)) (ber_operand p)"
proof (cases p)
  case (OP_attrTerm at)
  then obtain a t where a: "at = Some a" "at_term a = Some t" "attributes_ok (at_attributes a)" "term_ok t"
    using assms by (auto split: option.splits)
  show ?thesis
    unfolding OP_attrTerm a(1) EncodeOperand_def EncodeAttributesPlusTerm_def deref.simps run_bind.simps operand.case choose_node_simps
      ber_operand.simps option.sel a(2) BER_CONTEXT_def
    by (intro wire_intros a(3,4))
next
  case (OP_resultSet s)
  then show ?thesis using assms by (auto simp: EncodeOperand_def intro!: wire_intros)
next
  case (OP_resultAttr ra)
  then obtain a where a: "ra = Some a" "str_ok (ra_resultSet a)" "attributes_ok (ra_attributes a)" using assms by (auto split: option.splits)
  show ?thesis
    unfolding OP_resultAttr a(1) EncodeOperand_def EncodeResultSetPlusAttributes_def deref.simps run_bind.simps operand.case choose_node_simps
      ber_operand.simps option.sel BER_CONTEXT_def
    by (intro wire_intros a(2,3))
qed

lemma operand_decodes:
  assumes "operand_ok p" "decoded m (ber_operand p)" shows "DecodeOperand cd m = zret (Some p)"
proof (cases p)
  case (OP_attrTerm at)
  then obtain a t where a: "at = Some a" "at_term a = Some t" "attributes_ok (at_attributes a)" "term_ok t"
    using assms(1) by (auto split: option.splits)
  have d: "decoded m (Ber_cons 2 102 [ber_attributes (at_attributes a), ber_term t])" using assms(2) OP_attrTerm a(1,2) by simp
  obtain n1 n2 where n: "an_children m = [n1, n2]" "decoded n1 (ber_attributes (at_attributes a))" "decoded n2 (ber_term t)"
    using decoded_children [OF d] by (auto simp: decoded_list)
  have "DecodeAttributesPlusTerm cd m = zret (Some a)"
    using n(1) attributes_decodes [OF a(3) n(2), of cd] term_decodes [OF a(4) n(3), of cd] a(2) by (cases a) (simp add: DecodeAttributesPlusTerm_def)
  then show ?thesis using decoded_tag(2) [OF d] OP_attrTerm a(1) by (simp add: DecodeOperand_def)
next
  case (OP_resultSet s)
  then have "decoded m (Ber_prim 2 31 (str_octets s))" "str_ok s" using assms by (simp_all add: ber_str_def)
  then show ?thesis using decode_str_leaves(3) decoded_tag(1) OP_resultSet by (fastforce simp: DecodeOperand_def)
next
  case (OP_resultAttr ra)
  then obtain a where a: "ra = Some a" "str_ok (ra_resultSet a)" "attributes_ok (ra_attributes a)" using assms(1) by (auto split: option.splits)
  have d: "decoded m (Ber_cons 2 214 [ber_str 31 (ra_resultSet a), ber_attributes (ra_attributes a)])" using assms(2) OP_resultAttr a(1) by simp
  obtain n1 n2 where n: "an_children m = [n1, n2]" "decoded n1 (Ber_prim 2 31 (str_octets (ra_resultSet a)))" "decoded n2 (ber_attributes (ra_attributes a))"
    using decoded_children [OF d] by (auto simp: decoded_list ber_str_def)
  have "an_tagno n1 = 31" "an_tagno n2 = 44" using n(2,3) decoded_tag by (fastforce simp: ber_attributes_def)+
  then have "DecodeResultSetPlusAttributes cd m = zret (Some a)"
    using n(1) decode_str_leaves(3) [OF n(2) a(2)] attributes_decodes [OF a(3) n(3), of cd]
    by (cases a) (simp add: DecodeResultSetPlusAttributes_def result_attr_field_def)
  then show ?thesis using decoded_tag(2) [OF d] OP_resultAttr a(1) by (simp add: DecodeOperand_def)
qed

text \<open>Operators.\<close>

lemma proximity_encodes [wire_intros]:
  "proximity_ok po \<Longrightarrow> encodes (EncodeProximityOperator BER_CONTEXT CONSTRUCTED t (Some po)) (ber_proximity t po)"
  unfolding EncodeProximityOperator_def ber_proximity_def deref.simps run_bind.simps choose_node_simps
  by (intro wire_intros encodes_bool [of _ 2, folded BER_CONTEXT_def])
     (auto simp: proximity_ok_def EncodeKnownProximityUnit_def ber_constants ber_int_def split: unit_which.splits intro!: wire_intros)

lemma proximity_decodes:
  assumes "proximity_ok po" "decoded m (ber_proximity t po)" shows "DecodeProximityOperator cd m = zret (Some po)"
proof -
  have ok: "bool_ok (po_exclusion po)" "int_ok (po_distance po)" "bool_ok (po_ordered po)" "int_ok (po_relationType po)" "int_ok (po_unit_code po)"
    using assms(1) by (simp_all add: proximity_ok_def)
  have f1: "proximity_field cd q n = zret (q\<lparr>po_exclusion := v\<rparr>)" if "decoded n (Ber_prim 2 1 [v])" "bool_ok v" for q n v
    using decode_bool_leaf [OF that, of cd] decoded_tag(1) [OF that(1)] by (simp add: proximity_field_def)
  have f2: "proximity_field cd q n = zret (q\<lparr>po_distance := v\<rparr>)" if "decoded n (ber_int 2 v)" "int_ok v" for q n v
    using decode_int_ptr [OF that, of cd] decoded_tag(1) [OF that(1) [unfolded ber_int_def]] by (simp add: proximity_field_def)
  have f3: "proximity_field cd q n = zret (q\<lparr>po_ordered := v\<rparr>)" if "decoded n (Ber_prim 2 3 [v])" "bool_ok v" for q n v
    using decode_bool_leaf [OF that, of cd] decoded_tag(1) [OF that(1)] by (simp add: proximity_field_def)
  have f4: "proximity_field cd q n = zret (q\<lparr>po_relationType := v\<rparr>)" if "decoded n (ber_int 4 v)" "int_ok v" for q n v
    using decode_int_ptr [OF that, of cd] decoded_tag(1) [OF that(1) [unfolded ber_int_def]] by (simp add: proximity_field_def)
  let ?b = "case po_unit_which po of E8_known \<Rightarrow> ber_int 1 (po_unit_code po) | E8_private \<Rightarrow> ber_int 2 (po_unit_code po)"
  have f5: "proximity_field cd q n = zret (q\<lparr>po_unit_which := po_unit_which po, po_unit_code := po_unit_code po\<rparr>)"
    if n: "decoded n (Ber_cons 2 5 [?b])" for q n
  proof -
    obtain c where c: "an_head n = Some c" "decoded c ?b" using decoded_head [OF n] by blast
    have "unit_code cd q c = q\<lparr>po_unit_which := po_unit_which po, po_unit_code := po_unit_code po\<rparr>"
      using c(2) ok(5) decode_int_ptr [of c _ "po_unit_code po" cd] decoded_tag(1) [of c 2 _ "int_contents (po_unit_code po)"]
      by (cases "po_unit_which po") (auto simp: unit_code_def ber_int_def)
    then show ?thesis using c(1) decoded_tag(2) [OF n] by (simp add: proximity_field_def no_check_def)
  qed
  let ?bs = "[ber_int 2 (po_distance po), Ber_prim 2 3 [po_ordered po], ber_int 4 (po_relationType po), Ber_cons 2 5 [?b]]"
  have rest: "zfold (proximity_field cd) q ns = zret (q\<lparr>po_distance := po_distance po, po_ordered := po_ordered po,
      po_relationType := po_relationType po, po_unit_which := po_unit_which po, po_unit_code := po_unit_code po\<rparr>)"
    if ns: "list_all2 decoded ns ?bs" for q ns
  proof -
    obtain n2 n3 n4 n5 where "ns = [n2, n3, n4, n5]" "decoded n2 (ber_int 2 (po_distance po))" "decoded n3 (Ber_prim 2 3 [po_ordered po])"
        "decoded n4 (ber_int 4 (po_relationType po))" "decoded n5 (Ber_cons 2 5 [?b])"
      using ns unfolding decoded_list by blast
    then show ?thesis by (simp add: f2 [OF _ ok(2)] f3 [OF _ ok(3)] f4 [OF _ ok(4)] f5)
  qed
  show ?thesis
  proof (cases "po_exclusion po = 0")
    case True
    then have "list_all2 decoded (an_children m) ?bs" using decoded_children [OF assms(2) [unfolded ber_proximity_def]] by simp
    then show ?thesis using True by (cases po) (simp add: DecodeProximityOperator_def rest)
  next
    case False
    then obtain n1 ns where n: "an_children m = n1 # ns" "decoded n1 (Ber_prim 2 1 [po_exclusion po])" "list_all2 decoded ns ?bs"
      using decoded_children [OF assms(2) [unfolded ber_proximity_def]] unfolding append.simps by (simp add: decoded_list(2) [of _ "Ber_prim 2 1 [po_exclusion po]"]) blast
    then show ?thesis using f1 [OF n(2) ok(1)] by (cases po) (simp add: DecodeProximityOperator_def rest)
  qed
qed

lemma operator_encodes [wire_intros]: "operator_ok op \<Longrightarrow> encodes (EncodeOperator op) (ber_operator op)"
proof -
  assume ok: "operator_ok op"
  have null: "0 \<le> t \<Longrightarrow> t < 2147483648 \<Longrightarrow> encodes (EncodeNull BER_CONTEXT t) (Ber_prim 2 t [])" for t
    using encodes_null [of 2 t] by (simp add: BER_CONTEXT_def)
  show ?thesis using ok
    by (cases op rule: operator_ok.cases) (auto simp: EncodeOperator_def split: option.splits intro!: wire_intros null)
qed

lemma operator_decodes:
  assumes "operator_ok op" "decoded m (ber_operator op)" shows "DecodeOperator cd m = zret op"
proof -
  have tags: "an_tagno n = t" if "decoded n (Ber_prim 2 t [])" for n t using decoded_tag(1) [OF that] .
  have prox: "an_tagno n = 3" if "decoded n (ber_proximity 3 po)" for n po using decoded_tag(2) [OF that [unfolded ber_proximity_def]] .
  show ?thesis
    using assms
    by (cases op rule: operator_ok.cases)
       (auto dest!: decoded_head tags split: option.splits simp: DecodeOperator_def no_check_def DecodeNull_def prox
         proximity_decodes [where cd = cd])
qed

section \<open>Queries\<close>

lemma rpn_encodes: "rpn_ok r \<Longrightarrow> encodes (EncodeRPNStructure cd r) (ber_rpn r)"
proof (induction r rule: rpn_ok.induct)
  case (2 op)
  then obtain p where "op = Some p" "operand_ok p" by (auto split: option.splits)
  then show ?case by (simp, intro wire_intros)
next
  case (3 r1 r2 op)
  then have "encodes (EncodeRPNStructure cd r1) (ber_rpn r1)" "encodes (EncodeRPNStructure cd r2) (ber_rpn r2)" "operator_ok op" by simp_all
  then show ?case unfolding EncodeRPNStructure.simps ber_rpn.simps by (intro wire_intros)
qed simp

lemma rpn_decodes: "rpn_ok r \<Longrightarrow> decoded m (ber_rpn r) \<Longrightarrow> DecodeRPNStructure cd m = zret r"
proof (induction r arbitrary: m rule: rpn_ok.induct)
  case (2 op)
  then obtain p where p: "op = Some p" "operand_ok p" by (auto split: option.splits)
  have d: "decoded m (Ber_cons 2 0 [ber_operand p])" using 2(2) p(1) by simp
  obtain n where n: "an_children m = [n]" "decoded n (ber_operand p)" using decoded_children [OF d] by (auto simp: decoded_list)
  show ?case using n(1) operand_decodes [OF p(2) n(2), of cd] decoded_tag(2) [OF d] p(1) by (cases m) (simp add: null_check_def)
next
  case (3 r1 r2 op)
  have d: "decoded m (Ber_cons 2 1 [ber_rpn r1, ber_rpn r2, ber_operator op])" using 3(4) by simp
  obtain n1 n2 n3 where n: "an_children m = [n1, n2, n3]" "decoded n1 (ber_rpn r1)" "decoded n2 (ber_rpn r2)" "decoded n3 (ber_operator op)"
    using decoded_children [OF d] by (auto simp: decoded_list)
  have "DecodeRPNStructure cd n1 = zret r1" "DecodeRPNStructure cd n2 = zret r2" "DecodeOperator cd n3 = zret op"
    using 3(1-3) n(2-4) operator_decodes [where cd = cd] by simp_all
  then show ?case using n(1) decoded_tag(2) [OF d] by (cases m) simp
qed simp

lemma rpn_query_encodes [wire_intros]:
  "rpn_query_ok q \<Longrightarrow> encodes (EncodeRPNQuery cd BER_CONTEXT CONSTRUCTED t q) (ber_rpn_query t q)"
proof -
  assume "rpn_query_ok q"
  then obtain p where p: "q = Some p" "oid_str_ok (rq_attributeSet p)" "rpn_ok (rq_rpn p)" by (auto simp: rpn_query_ok_def split: option.splits)
  have "encodes (EncodeAttributeSetId cd CLASS_NONE TAGNO_NONE g) (Ber_prim 0 6 (oid_bytes g))" if "oid_str_ok g" for g
    using that by (auto simp: EncodeAttributeSetId_def ber_constants intro!: wire_intros)
  then show ?thesis unfolding p(1) EncodeRPNQuery_def ber_rpn_query_def deref.simps run_bind.simps choose_node_simps option.sel
    using p(2,3) by (intro wire_intros rpn_encodes) blast+
qed

lemma rpn_tag: "rpn_ok r \<Longrightarrow> decoded m (ber_rpn r) \<Longrightarrow> an_tagno m = 0 \<or> an_tagno m = 1"
  by (cases r rule: rpn_ok.cases) (auto dest: decoded_tag)

lemma rpn_query_decodes:
  assumes "rpn_query_ok q" "decoded m (ber_rpn_query t q)" shows "DecodeRPNQuery cd m = zret q"
proof -
  obtain p where p: "q = Some p" "oid_str_ok (rq_attributeSet p)" "rpn_ok (rq_rpn p)" using assms(1) by (auto simp: rpn_query_ok_def split: option.splits)
  obtain n1 n2 where n: "an_children m = [n1, n2]" "decoded n1 (Ber_prim 0 6 (oid_bytes (rq_attributeSet p)))" "decoded n2 (ber_rpn (rq_rpn p))"
    using decoded_children [OF assms(2) [unfolded ber_rpn_query_def]] p(1) by (auto simp: decoded_list)
  show ?thesis
    using n(1) decode_oid_ptr_leaf [OF n(2) p(2), of cd] decoded_tag(1) [OF n(2)] rpn_decodes [OF p(3) n(3), of cd] rpn_tag [OF p(3) n(3)] p(1)
    by (cases p) (auto simp: DecodeRPNQuery_def rpn_query_field_def OBJECTIDENTIFIER_def)
qed

lemma query_encodes: "query_ok q \<Longrightarrow> encodes (EncodeQuery cd q) (ber_query q)"
proof -
  have oct: "encodes (attach_all (NewAsnNode BER_CONTEXT CONSTRUCTED t) [EncodeOctetString UNIVERSAL OCTETSTRING s]) (Ber_cons 2 t [Ber_prim 0 4 (str_octets s)])"
    if "str_ok s" for s t
    unfolding UNIVERSAL_def OCTETSTRING_def by (intro wire_intros that) simp
  assume "query_ok q"
  then show ?thesis by (cases q rule: query_ok.cases) (auto simp: EncodeQuery_def intro!: oct rpn_query_encodes)
qed

lemma query_decodes:
  assumes "query_ok q" "decoded m (ber_query q)" shows "DecodeQuery cd m = zret q"
proof -
  have oct: "\<exists>c. an_tagno m = t \<and> an_head m = Some c \<and> fst (DecodeOctetString c) = s" if "decoded m (Ber_cons 2 t [Ber_prim 0 4 (str_octets s)])" "str_ok s" for t s
    using decoded_head [OF that(1)] decode_str_leaves(1) [OF _ that(2)] decoded_tag(2) [OF that(1)] by blast
  have rpn: "an_tagno m = t" if "decoded m (ber_rpn_query t p)" for t and p :: "'a rpn_query option"
    using decoded_tag(2) [OF that [unfolded ber_rpn_query_def]] .
  show ?thesis
    using assms
    by (cases q rule: query_ok.cases)
       (auto simp: DecodeQuery_def Let_def no_check_def rpn rpn_query_decodes [where cd = cd] dest!: oct)
qed

section \<open>The interface\<close>

text \<open>
  A type of values with an encoder, a decoder and its definition in BER. The laws: the encoder makes a tree for the value of BER, the decoder
  reads the value off any tree that holds it, and the value of BER can be sent. What follows from them: the value
  sent is the value received.
\<close>

lemma tree_arrives:
  assumes "represents n b" "ber_ok b" "length (ber_octets b) \<le> dbuf_capacity" "sock_valid s" "stream_ready s"
    and "sock_octets s = sent_octets (Done (Some n)) @ rest"
  shows "\<exists>m k s'. GetPDUFromStream Z_SERVER s z secs = Some (Some m, k, s') \<and> decoded m b \<and> sock_octets s' = rest"
proof -
  have "sock_octets s = ber_octets b @ rest" using sent_octets_represents [OF assms(1-3)] assms(6) by simp
  then obtain m s' where "get_pdu (stream_mode Z_SERVER secs) s (Get_node z) = Some (Some m, int (length (ber_octets b)), s')"
      "decoded m b" "sock_octets s' = rest"
    using server.readsE [OF server.all_read [OF assms(2,3)] assms(4,5)] by metis
  then show ?thesis by (auto simp: GetPDUFromStream_def)
qed

locale wire_type =
  fixes ok :: "'v \<Rightarrow> bool" and ber_of :: "'v \<Rightarrow> ber" and enc :: "'v \<Rightarrow> asn_node option run" and dec :: "asn_node \<Rightarrow> 'v zrun"
  assumes enc_law: "ok v \<Longrightarrow> encodes (enc v) (ber_of v)"
    and dec_law: "ok v \<Longrightarrow> decoded m (ber_of v) \<Longrightarrow> dec m = zret v"
    and ber_law: "ok v \<Longrightarrow> ber_ok (ber_of v)"
begin

lemma arrives:
  assumes "ok v" "length (ber_octets (ber_of v)) \<le> dbuf_capacity" "sock_valid s" "stream_ready s" "sock_octets s = sent_octets (enc v) @ rest"
  shows "\<exists>m k s'. GetPDUFromStream Z_SERVER s z secs = Some (Some m, k, s') \<and> dec m = zret v \<and> sock_octets s' = rest"
proof -
  obtain n where n: "enc v = Done (Some n)" "represents n (ber_of v)" using enc_law [OF assms(1)] by (auto simp: encodes_def)
  show ?thesis
    using tree_arrives [OF n(2) ber_law [OF assms(1)] assms(2-4), of rest z secs] assms(5) n(1) dec_law [OF assms(1)] by auto
qed

lemma sent:
  assumes "ok v" "length (ber_octets (ber_of v)) \<le> dbuf_capacity" shows "sent_octets (enc v) = ber_octets (ber_of v)"
  using enc_law [OF assms(1)] sent_octets_represents [OF _ ber_law [OF assms(1)] assms(2)] by (auto simp: encodes_def)

end

lemma ber_leaf_ok [simp]: "0 \<le> t \<Longrightarrow> t < 2147483648 \<Longrightarrow> ber_ok (ber_int t v)" "0 \<le> t \<Longrightarrow> t < 2147483648 \<Longrightarrow> ber_ok (ber_str t g)"
  by (simp_all add: ber_int_def ber_str_def)

lemma tag_ok_cons [simp]: "0 \<le> t \<Longrightarrow> t < 2147483648 \<Longrightarrow> tag_ok 2 1 t" "tag_ok 0 1 16"
  by (simp_all add: tag_ok_def)

lemma ber_sn_ok [simp]: "ber_ok (ber_sn sn)"
  by (cases sn rule: sn_ok.cases) simp_all

lemma ber_unit_ok: "unit_ok u \<Longrightarrow> 0 \<le> t \<Longrightarrow> t < 2147483648 \<Longrightarrow> ber_ok (ber_unit t u)"
  by (auto simp: ber_unit_def unit_ok_def)

lemma ber_attributes_ok: "attributes_ok aes \<Longrightarrow> ber_ok (ber_attributes aes)"
proof -
  have val: "ber_ok (ber_value v)" if "value_ok v" for v
    using that by (cases v) (auto split: option.splits)
  show "attributes_ok aes \<Longrightarrow> ber_ok (ber_attributes aes)"
    by (auto simp: attributes_ok_def ber_attributes_def ber_attribute_def Let_def attribute_ok_def val split: option.splits)
qed

lemma ber_term_ok: "term_ok t \<Longrightarrow> ber_ok (ber_term t)"
  by (cases t rule: term_ok.cases) (auto simp: ber_int_unit_def int_unit_ok_def ber_unit_ok split: option.splits)

lemma ber_operand_ok: "operand_ok p \<Longrightarrow> ber_ok (ber_operand p)"
  by (cases p) (auto simp: ber_attributes_ok ber_term_ok split: option.splits)

lemma ber_operator_ok: "operator_ok op \<Longrightarrow> ber_ok (ber_operator op)"
  by (cases op rule: operator_ok.cases) (auto simp: ber_proximity_def split: option.splits unit_which.splits)

lemma ber_rpn_ok: "rpn_ok r \<Longrightarrow> ber_ok (ber_rpn r)"
  by (induction r rule: rpn_ok.induct) (auto simp: ber_operand_ok ber_operator_ok split: option.splits)

lemma ber_query_ok: "query_ok q \<Longrightarrow> ber_ok (ber_query q)"
  by (cases q rule: query_ok.cases) (auto simp: ber_rpn_query_def rpn_query_ok_def ber_rpn_ok split: option.splits)

interpretation query_wire: wire_type query_ok ber_query "EncodeQuery cd" "DecodeQuery cd" for cd :: "'x codec"
  by unfold_locales (auto intro: query_encodes query_decodes ber_query_ok)

text \<open>
  C34: a query sent as \<open>EncodeQuery\<close>, \<open>LengthAsnTree\<close> and \<open>SerializeAsnTree\<close> put it on the connection, and read there with
  \<open>GetPDUFromStream\<close> and \<open>DecodeQuery\<close>, is the same query: the same tree of operators and operands with the same attributes
  and terms, whatever pieces its octets arrive in.
\<close>

theorem query_over_connection:
  assumes "query_ok q" "length (ber_octets (ber_query q)) \<le> dbuf_capacity" "sock_valid s" "stream_ready s"
    and "sock_octets s = sent_octets (EncodeQuery cd q) @ rest"
  shows "\<exists>m k s'. GetPDUFromStream Z_SERVER s z secs = Some (Some m, k, s') \<and> DecodeQuery cd m = zret q \<and> sock_octets s' = rest"
  using query_wire.arrives [OF assms] .

text \<open>The query: (title = cat) and not set A.\<close>

lemma oid_ids_text: "oid_ok ids \<Longrightarrow> oid_ids (Some (c_str (oid_text ids))) = ids"
  using oid_convert_text [of ids "[]"] oid_ok_ids [of ids] by (auto simp: oid_ids_def c_str_def oid_ok_def split: list.splits)

lemma oid_str_okI: "oid_ok ids \<Longrightarrow> oid_str_ok (Some (c_str (oid_text ids)))"
  by (simp add: oid_str_ok_def oid_ids_text)

definition sample_oid_text :: "gstr option" where
  "sample_oid_text = Some (c_str (oid_text [1, 2, 840, 10003, 3, 1]))"

definition sample_rpn :: "unit rpn_structure" where
  "sample_rpn = RPN_rpnRpnOp
     (Some (RPN_op (Some (OP_attrTerm (Some
       \<lparr>at_attributes = [Some \<lparr>ae_attributeSet = None, ae_attributeType = 1, ae_attributeValue = AV_numeric 4\<rparr>],
        at_term = Some (T_general (Some (c_str [99, 97, 116])))\<rparr>)))))
     (Some (RPN_op (Some (OP_resultSet (Some (c_str [65]))))))
     (Some (Z_and_not 1))"

definition sample_query :: "unit query option" where
  "sample_query = Some (Q_type_1 (Some \<lparr>rq_attributeSet = sample_oid_text, rq_rpn = Some sample_rpn\<rparr>))"

definition sample_codec :: "unit codec" where
  "sample_codec = \<lparr>cd_oid = (\<lambda>_. 0), cd_octet = 0, cd_encode_external = (\<lambda>c t x. Done None), cd_decode_external = (\<lambda>n. zret None)\<rparr>"

lemma sample_query_ok: "query_ok sample_query"
  by (simp add: sample_query_def sample_rpn_def rpn_query_ok_def attributes_ok_def attribute_ok_def int_ok_def is_c_int_def
      str_ok_def c_str_def dbuf_capacity_def, simp add: sample_oid_text_def oid_str_okI oid_ok_def)

definition sample_query_ber :: ber where
  "sample_query_ber = Ber_cons 2 1 [Ber_prim 0 6 [42, 134, 72, 206, 19, 3, 1],
     Ber_cons 2 1 [Ber_cons 2 0 [Ber_cons 2 102 [Ber_cons 2 44 [Ber_cons 0 16 [Ber_prim 2 120 [1], Ber_prim 2 121 [4]]], Ber_prim 2 45 [99, 97, 116]]],
       Ber_cons 2 0 [Ber_prim 2 31 [65]], Ber_cons 2 46 [Ber_prim 2 2 []]]]"

lemma sample_query_value: "ber_query sample_query = sample_query_ber"
proof -
  have "oid_bytes sample_oid_text = [42, 134, 72, 206, 19, 3, 1]"
    unfolding oid_bytes_def sample_oid_text_def by (subst oid_ids_text, simp add: oid_ok_def, code_simp)
  moreover have "int_contents 1 = [1]" "int_contents 4 = [4]" by code_simp+
  ultimately show ?thesis
    by (simp add: sample_query_def sample_rpn_def sample_query_ber_def ber_rpn_query_def ber_attributes_def ber_attribute_def ber_int_def
        ber_str_def str_octets_def c_str_def)
qed

definition sample_query_octets :: "octet list" where
  "sample_query_octets = [161, 46, 6, 7, 42, 134, 72, 206, 19, 3, 1, 161, 35, 160, 22, 191, 102, 19,
     191, 44, 10, 48, 8, 159, 120, 1, 1, 159, 121, 1, 4, 159, 45, 3, 99, 97, 116, 160, 4, 159, 31, 1, 65, 191, 46, 2, 130, 0]"

lemma sample_query_written: "ber_octets (ber_query sample_query) = sample_query_octets"
  unfolding sample_query_value by code_simp

definition sample_query_sock :: sock where
  "sample_query_sock = \<lparr>incoming = [Data (take 3 sample_query_octets), Data (drop 3 sample_query_octets), Failed EINTR, Data [48], Failed 104],
     outgoing = [], sent = [], errno = 0, is_open = True, selects = [1, 1]\<rparr>"

theorem query_over_connection_witness:
  "\<exists>m k s'. GetPDUFromStream Z_SERVER sample_query_sock 0 60 = Some (Some m, k, s') \<and> DecodeQuery sample_codec m = zret sample_query
     \<and> sock_octets s' = [48]"
proof (rule query_over_connection [OF sample_query_ok])
  show len: "length (ber_octets (ber_query sample_query)) \<le> dbuf_capacity"
    unfolding sample_query_written by (simp add: sample_query_octets_def dbuf_capacity_def)
  show "sock_octets sample_query_sock = sent_octets (EncodeQuery sample_codec sample_query) @ [48]"
    unfolding query_wire.sent [OF sample_query_ok len] sample_query_written
    by (simp add: sample_query_sock_def sock_octets_def EINTR_def sample_query_octets_def)
qed (simp_all add: sample_query_sock_def sample_query_octets_def sock_valid_def stream_ready_def EINTR_def)

text \<open>
  Finding: the decoder of \<open>semanticAction\<close> walks over the parts of the attribute element and not over the numbers: an action 7 arrives
  as two numbers, read from the type, already consumed, and from the value itself.
\<close>

definition sample_complex :: asn_node where
  "sample_complex = Asn_node 1 0 16 0 (sample_db [])
     [Asn_node 0 2 120 1 (sample_db [1]) [] 0,
      Asn_node 1 2 224 8 (sample_db []) [Asn_node 1 2 1 3 (sample_db []) [Asn_node 0 2 2 1 (sample_db [5]) [] 0] 0,
        Asn_node 1 2 2 3 (sample_db []) [Asn_node 0 0 2 1 (sample_db [7]) [] 0] 1] 1] 1"

theorem semantic_action_lost:
  "\<exists>vs. DecodeAttributeElement sample_codec sample_complex = zret (Some \<lparr>ae_attributeSet = None, ae_attributeType = 1,
      ae_attributeValue = AV_complex (Some [Some (SN_numeric 5)]) vs\<rparr>) \<and> length vs = 2"
  by (simp add: DecodeAttributeElement_def sample_complex_def upt_rec attribute_field_def Let_def as_complex_def decode_ints_def
      DecodeStringOrNumeric_def moved_def DecodeInteger_def decode_int_def sample_codec_def sample_db_def decode_integer_def
      get_one_def db_get_def c_int_def) (intro exI conjI, rule refl, simp)

end
