(* ===== verification/Search_Request.thy ===== *)
theory Search_Request
  imports Rpn_Wire
begin

text \<open>
  Search and initialize requests: the routines of \<open>src/zpdu/z3_encode.c\<close> and \<open>src/zpdu/z3_decode.c\<close> for \<open>SearchRequest\<close>, \<open>InitializeRequest\<close>,
  \<open>InitializeResponse\<close>, \<open>ElementSetNames\<close>, \<open>OtherInformation\<close> and what is below them, with the structures of
  \<open>src/header/z3950_3.h\<close>, in the way of \<open>Rpn_Codec\<close>. The interface \<open>wire_type\<close> is interpreted for each of the three: what
  is sent is what arrives.
\<close>

section \<open>The structures\<close>

record info_category =
  ic_categoryTypeId :: "gstr option"
  ic_categoryValue :: int

datatype 'x information =
    I_characterInfo "gstr option"
  | I_binaryInfo "gstr option"
  | I_externallyDefinedInfo "'x option"
  | I_oid "gstr option"

record 'x other_info =
  oi_category :: "info_category option"
  oi_information :: "'x information"

record database_specific =
  ds_dbName :: "gstr option"
  ds_esn :: "gstr option"

datatype element_set_names = ES_generic "gstr option" | ES_databaseSpecific "database_specific list"

record 'x search_request =
  sr_referenceId :: "gstr option"
  sr_smallSetUpperBound :: int
  sr_largeSetLowerBound :: int
  sr_mediumSetPresentNumber :: int
  sr_replaceIndicator :: octet
  sr_resultSetName :: "gstr option"
  sr_databaseNames :: "gstr option list"
  sr_smallSetElementSetNames :: "element_set_names option"
  sr_mediumSetElementSetNames :: "element_set_names option"
  sr_preferredRecordSyntax :: "gstr option"
  sr_query :: "'x query option"
  sr_additionalSearchInfo :: "'x other_info list"
  sr_otherInfo :: "'x other_info list"

record 'x init_request =
  ir_referenceId :: "gstr option"
  ir_protocolVersion :: "gstr option"
  ir_options :: "gstr option"
  ir_preferredMessageSize :: int
  ir_exceptionalRecordSize :: int
  ir_idAuthentication :: "any_value option"
  ir_implementationId :: "gstr option"
  ir_implementationName :: "gstr option"
  ir_implementationVersion :: "gstr option"
  ir_userInformationField :: "'x option"
  ir_otherInfo :: "'x other_info list"

record 'x init_response =
  ip_referenceId :: "gstr option"
  ip_protocolVersion :: "gstr option"
  ip_options :: "gstr option"
  ip_preferredMessageSize :: int
  ip_exceptionalRecordSize :: int
  ip_result :: octet
  ip_implementationId :: "gstr option"
  ip_implementationName :: "gstr option"
  ip_implementationVersion :: "gstr option"
  ip_userInformationField :: "'x option"
  ip_otherInfo :: "'x other_info list"

section \<open>Encoding\<close>

definition VISIBLESTRING :: int where "VISIBLESTRING = 26"
definition EXTERNAL :: int where "EXTERNAL = 8"

definition EncodeReferenceId :: "int \<Rightarrow> int \<Rightarrow> gstr option \<Rightarrow> asn_node option run" where
  "EncodeReferenceId class_var tagno referenceId =
     (if class_var \<noteq> CLASS_NONE then EncodeOctetString class_var tagno referenceId else EncodeOctetString BER_CONTEXT 2 referenceId)"

definition EncodeProtocolVersion :: "int \<Rightarrow> int \<Rightarrow> gstr option \<Rightarrow> asn_node option run" where
  "EncodeProtocolVersion class_var tagno protocolVersion =
     (if class_var \<noteq> CLASS_NONE then EncodeBitString class_var tagno protocolVersion else EncodeBitString BER_CONTEXT 3 protocolVersion)"

definition EncodeOptions :: "int \<Rightarrow> int \<Rightarrow> gstr option \<Rightarrow> asn_node option run" where
  "EncodeOptions class_var tagno options =
     (if class_var \<noteq> CLASS_NONE then EncodeBitString class_var tagno options else EncodeBitString BER_CONTEXT 4 options)"

definition EncodeElementSetName :: "int \<Rightarrow> int \<Rightarrow> gstr option \<Rightarrow> asn_node option run" where
  "EncodeElementSetName class_var tagno elementSetName =
     (if class_var \<noteq> CLASS_NONE then EncodeInternationalString class_var tagno elementSetName
      else EncodeInternationalString BER_CONTEXT 103 elementSetName)"

definition EncodeDatabaseName :: "int \<Rightarrow> int \<Rightarrow> gstr option \<Rightarrow> asn_node option run" where
  "EncodeDatabaseName class_var tagno databaseName =
     (if class_var \<noteq> CLASS_NONE then EncodeInternationalString class_var tagno databaseName
      else EncodeInternationalString BER_CONTEXT 105 databaseName)"

definition EncodeElementSetNames :: "element_set_names option \<Rightarrow> asn_node option run" where
  "EncodeElementSetNames p = run_bind (deref p) (\<lambda>es. case es of
       ES_generic s \<Rightarrow> EncodeInternationalString BER_CONTEXT 0 s
     | ES_databaseSpecific items \<Rightarrow>
         attach_all (NewAsnNode BER_CONTEXT CONSTRUCTED 1)
          (map (\<lambda>item. attach_all (NewAsnNode UNIVERSAL CONSTRUCTED SEQUENCE)
             [EncodeDatabaseName CLASS_NONE TAGNO_NONE (ds_dbName item), EncodeElementSetName CLASS_NONE TAGNO_NONE (ds_esn item)]) items))"

definition EncodeInfoCategory :: "'x codec \<Rightarrow> int \<Rightarrow> int \<Rightarrow> int \<Rightarrow> info_category option \<Rightarrow> asn_node option run" where
  "EncodeInfoCategory cd class_var type tagno p = run_bind (deref p) (\<lambda>ic.
     attach_all (choose_node class_var type tagno UNIVERSAL SEQUENCE)
      ((if ic_categoryTypeId ic \<noteq> None then [EncodeOid (cd_oid cd) BER_CONTEXT 1 (ic_categoryTypeId ic)] else [])
       @ [EncodeInteger BER_CONTEXT 2 (ic_categoryValue ic)]))"

definition encode_other_info :: "'x codec \<Rightarrow> 'x other_info \<Rightarrow> asn_node option run" where
  "encode_other_info cd item =
     attach_all (NewAsnNode UNIVERSAL CONSTRUCTED SEQUENCE)
      ((if oi_category item \<noteq> None then [EncodeInfoCategory cd BER_CONTEXT CONSTRUCTED 1 (oi_category item)] else [])
       @ [case oi_information item of
            I_characterInfo s \<Rightarrow> EncodeInternationalString BER_CONTEXT 2 s
          | I_binaryInfo s \<Rightarrow> EncodeOctetString BER_CONTEXT 3 s
          | I_externallyDefinedInfo x \<Rightarrow> cd_encode_external cd BER_CONTEXT 4 x
          | I_oid s \<Rightarrow> EncodeOid (cd_oid cd) BER_CONTEXT 5 s])"

definition EncodeOtherInformation :: "'x codec \<Rightarrow> int \<Rightarrow> int \<Rightarrow> int \<Rightarrow> 'x other_info list \<Rightarrow> asn_node option run" where
  "EncodeOtherInformation cd class_var type tagno otherInformation =
     attach_all (choose_node class_var type tagno BER_CONTEXT 201) (map (encode_other_info cd) otherInformation)"

definition EncodeSearchRequest :: "'x codec \<Rightarrow> int \<Rightarrow> int \<Rightarrow> int \<Rightarrow> 'x search_request option \<Rightarrow> asn_node option run" where
  "EncodeSearchRequest cd class_var type tagno p = run_bind (deref p) (\<lambda>sr.
     attach_all (choose_node class_var type tagno UNIVERSAL SEQUENCE)
      ((if sr_referenceId sr \<noteq> None then [EncodeReferenceId CLASS_NONE TAGNO_NONE (sr_referenceId sr)] else [])
       @ [EncodeInteger BER_CONTEXT 13 (sr_smallSetUpperBound sr), EncodeInteger BER_CONTEXT 14 (sr_largeSetLowerBound sr),
          EncodeInteger BER_CONTEXT 15 (sr_mediumSetPresentNumber sr), EncodeBoolean BER_CONTEXT 16 (sr_replaceIndicator sr),
          EncodeInternationalString BER_CONTEXT 17 (sr_resultSetName sr),
          attach_all (NewAsnNode BER_CONTEXT CONSTRUCTED 18) (map (EncodeDatabaseName CLASS_NONE TAGNO_NONE) (sr_databaseNames sr))]
       @ (if sr_smallSetElementSetNames sr \<noteq> None
          then [attach_all (NewAsnNode BER_CONTEXT CONSTRUCTED 100) [EncodeElementSetNames (sr_smallSetElementSetNames sr)]] else [])
       @ (if sr_mediumSetElementSetNames sr \<noteq> None
          then [attach_all (NewAsnNode BER_CONTEXT CONSTRUCTED 101) [EncodeElementSetNames (sr_mediumSetElementSetNames sr)]] else [])
       @ (if sr_preferredRecordSyntax sr \<noteq> None then [EncodeOid (cd_oid cd) BER_CONTEXT 104 (sr_preferredRecordSyntax sr)] else [])
       @ [attach_all (NewAsnNode BER_CONTEXT CONSTRUCTED 21) [EncodeQuery cd (sr_query sr)]]
       @ (if sr_additionalSearchInfo sr \<noteq> []
          then [EncodeOtherInformation cd BER_CONTEXT CONSTRUCTED 203 (sr_additionalSearchInfo sr)] else [])
       @ (if sr_otherInfo sr \<noteq> [] then [EncodeOtherInformation cd CLASS_NONE TYPE_NONE TAGNO_NONE (sr_otherInfo sr)] else [])))"

definition EncodeInitializeRequest :: "'x codec \<Rightarrow> int \<Rightarrow> int \<Rightarrow> int \<Rightarrow> 'x init_request option \<Rightarrow> asn_node option run" where
  "EncodeInitializeRequest cd class_var type tagno p = run_bind (deref p) (\<lambda>ir.
     attach_all (choose_node class_var type tagno UNIVERSAL SEQUENCE)
      ((if ir_referenceId ir \<noteq> None then [EncodeReferenceId CLASS_NONE TAGNO_NONE (ir_referenceId ir)] else [])
       @ [EncodeProtocolVersion CLASS_NONE TAGNO_NONE (ir_protocolVersion ir), EncodeOptions CLASS_NONE TAGNO_NONE (ir_options ir),
          EncodeInteger BER_CONTEXT 5 (ir_preferredMessageSize ir), EncodeInteger BER_CONTEXT 6 (ir_exceptionalRecordSize ir)]
       @ (if ir_idAuthentication ir \<noteq> None
          then [attach_all (NewAsnNode BER_CONTEXT CONSTRUCTED 7)
                  [run_bind (any_gstr (ir_idAuthentication ir)) (EncodeAny UNIVERSAL VISIBLESTRING)]] else [])
       @ (if ir_implementationId ir \<noteq> None then [EncodeInternationalString BER_CONTEXT 110 (ir_implementationId ir)] else [])
       @ (if ir_implementationName ir \<noteq> None then [EncodeInternationalString BER_CONTEXT 111 (ir_implementationName ir)] else [])
       @ (if ir_implementationVersion ir \<noteq> None then [EncodeInternationalString BER_CONTEXT 112 (ir_implementationVersion ir)] else [])
       @ (if ir_userInformationField ir \<noteq> None
          then [attach_all (NewAsnNode BER_CONTEXT CONSTRUCTED 11) [cd_encode_external cd UNIVERSAL EXTERNAL (ir_userInformationField ir)]] else [])
       @ (if ir_otherInfo ir \<noteq> [] then [EncodeOtherInformation cd CLASS_NONE TYPE_NONE TAGNO_NONE (ir_otherInfo ir)] else [])))"

definition EncodeInitializeResponse :: "'x codec \<Rightarrow> int \<Rightarrow> int \<Rightarrow> int \<Rightarrow> 'x init_response option \<Rightarrow> asn_node option run" where
  "EncodeInitializeResponse cd class_var type tagno p = run_bind (deref p) (\<lambda>ip.
     attach_all (choose_node class_var type tagno UNIVERSAL SEQUENCE)
      ((if ip_referenceId ip \<noteq> None then [EncodeReferenceId CLASS_NONE TAGNO_NONE (ip_referenceId ip)] else [])
       @ [EncodeProtocolVersion CLASS_NONE TAGNO_NONE (ip_protocolVersion ip), EncodeOptions CLASS_NONE TAGNO_NONE (ip_options ip),
          EncodeInteger BER_CONTEXT 5 (ip_preferredMessageSize ip), EncodeInteger BER_CONTEXT 6 (ip_exceptionalRecordSize ip),
          EncodeBoolean BER_CONTEXT 12 (ip_result ip)]
       @ (if ip_implementationId ip \<noteq> None then [EncodeInternationalString BER_CONTEXT 110 (ip_implementationId ip)] else [])
       @ (if ip_implementationName ip \<noteq> None then [EncodeInternationalString BER_CONTEXT 111 (ip_implementationName ip)] else [])
       @ (if ip_implementationVersion ip \<noteq> None then [EncodeInternationalString BER_CONTEXT 112 (ip_implementationVersion ip)] else [])
       @ (if ip_userInformationField ip \<noteq> None
          then [attach_all (NewAsnNode BER_CONTEXT CONSTRUCTED 11) [cd_encode_external cd UNIVERSAL EXTERNAL (ip_userInformationField ip)]] else [])
       @ (if ip_otherInfo ip \<noteq> [] then [EncodeOtherInformation cd CLASS_NONE TYPE_NONE TAGNO_NONE (ip_otherInfo ip)] else [])))"

section \<open>Decoding\<close>

definition DecodeElementSetName :: "asn_node \<Rightarrow> gstr option" where
  "DecodeElementSetName node = DecodeInternationalString node"

definition DecodeDatabaseName :: "asn_node \<Rightarrow> gstr option" where
  "DecodeDatabaseName node = DecodeInternationalString node"

definition specific_field :: "database_specific \<Rightarrow> asn_node \<Rightarrow> database_specific" where
  "specific_field item child2 =
     (if an_tagno child2 = 105 then item\<lparr>ds_dbName := DecodeDatabaseName child2\<rparr>
      else if an_tagno child2 = 103 then item\<lparr>ds_esn := DecodeElementSetName child2\<rparr>
      else item)"

definition DecodeElementSetNames :: "asn_node \<Rightarrow> element_set_names option zrun" where
  "DecodeElementSetNames node =
     zret (Some (if an_tagno node = 0 then ES_generic (DecodeInternationalString node)
       else if an_tagno node = 1
       then ES_databaseSpecific (map (\<lambda>child1. foldl specific_field \<lparr>ds_dbName = None, ds_esn = None\<rparr> (an_children child1)) (an_children node))
       else ES_generic None))"

definition category_field :: "'x codec \<Rightarrow> info_category \<Rightarrow> asn_node \<Rightarrow> info_category zrun" where
  "category_field cd ic child0 =
     (if an_tagno child0 = 1 then zbind (decode_oid_ptr cd child0) (\<lambda>g. zret (ic\<lparr>ic_categoryTypeId := g\<rparr>))
      else if an_tagno child0 = 2 then zret (ic\<lparr>ic_categoryValue := decode_int cd child0\<rparr>)
      else zret ic)"

definition DecodeInfoCategory :: "'x codec \<Rightarrow> asn_node \<Rightarrow> info_category option zrun" where
  "DecodeInfoCategory cd node =
     zbind (zfold (category_field cd) \<lparr>ic_categoryTypeId = None, ic_categoryValue = 0\<rparr> (an_children node)) (\<lambda>ic. zret (Some ic))"

definition other_field :: "'x codec \<Rightarrow> 'x other_info \<Rightarrow> asn_node \<Rightarrow> 'x other_info zrun" where
  "other_field cd item child1 =
     (if an_tagno child1 = 1 then zbind (DecodeInfoCategory cd child1) (\<lambda>c. zret (item\<lparr>oi_category := c\<rparr>))
      else if an_tagno child1 = 2 then zret (item\<lparr>oi_information := I_characterInfo (DecodeInternationalString child1)\<rparr>)
      else if an_tagno child1 = 3 then zret (item\<lparr>oi_information := I_binaryInfo (fst (DecodeOctetString child1))\<rparr>)
      else if an_tagno child1 = 4
      then zbind (cd_decode_external cd child1) (\<lambda>x. zret (item\<lparr>oi_information := I_externallyDefinedInfo x\<rparr>))
      else if an_tagno child1 = 5 then zbind (decode_oid_ptr cd child1) (\<lambda>g. zret (item\<lparr>oi_information := I_oid g\<rparr>))
      else zret item)"

definition DecodeOtherInformation :: "'x codec \<Rightarrow> asn_node \<Rightarrow> 'x other_info list zrun" where
  "DecodeOtherInformation cd node =
     zmap (\<lambda>child0. zfold (other_field cd) \<lparr>oi_category = None, oi_information = I_characterInfo None\<rparr> (an_children child0)) (an_children node)"

definition search_field :: "'x codec \<Rightarrow> 'x search_request \<Rightarrow> asn_node \<Rightarrow> 'x search_request zrun" where
  "search_field cd sr child0 =
     (let tagno = an_tagno child0
      in if tagno = 2 then zret (sr\<lparr>sr_referenceId := fst (DecodeOctetString child0)\<rparr>)
         else if tagno = 13 then zret (sr\<lparr>sr_smallSetUpperBound := decode_int cd child0\<rparr>)
         else if tagno = 14 then zret (sr\<lparr>sr_largeSetLowerBound := decode_int cd child0\<rparr>)
         else if tagno = 15 then zret (sr\<lparr>sr_mediumSetPresentNumber := decode_int cd child0\<rparr>)
         else if tagno = 16 then zret (sr\<lparr>sr_replaceIndicator := decode_bool cd child0\<rparr>)
         else if tagno = 17 then zret (sr\<lparr>sr_resultSetName := DecodeInternationalString child0\<rparr>)
         else if tagno = 18 then zret (sr\<lparr>sr_databaseNames := map DecodeDatabaseName (an_children child0)\<rparr>)
         else if tagno = 100
         then zbind (null_check DecodeElementSetNames (an_head child0)) (\<lambda>es. zret (sr\<lparr>sr_smallSetElementSetNames := es\<rparr>))
         else if tagno = 101
         then zbind (null_check DecodeElementSetNames (an_head child0)) (\<lambda>es. zret (sr\<lparr>sr_mediumSetElementSetNames := es\<rparr>))
         else if tagno = 104 then zbind (decode_oid_ptr cd child0) (\<lambda>g. zret (sr\<lparr>sr_preferredRecordSyntax := g\<rparr>))
         else if tagno = 21 then zbind (null_check (DecodeQuery cd) (an_head child0)) (\<lambda>q. zret (sr\<lparr>sr_query := q\<rparr>))
         else if tagno = 203 then zbind (DecodeOtherInformation cd child0) (\<lambda>oi. zret (sr\<lparr>sr_additionalSearchInfo := oi\<rparr>))
         else if tagno = 201 then zbind (DecodeOtherInformation cd child0) (\<lambda>oi. zret (sr\<lparr>sr_otherInfo := oi\<rparr>))
         else zret sr)"

definition empty_search :: "'x search_request" where
  "empty_search = \<lparr>sr_referenceId = None, sr_smallSetUpperBound = 0, sr_largeSetLowerBound = 0, sr_mediumSetPresentNumber = 0,
     sr_replaceIndicator = 0, sr_resultSetName = None, sr_databaseNames = [], sr_smallSetElementSetNames = None,
     sr_mediumSetElementSetNames = None, sr_preferredRecordSyntax = None, sr_query = None, sr_additionalSearchInfo = [], sr_otherInfo = []\<rparr>"

definition DecodeSearchRequest :: "'x codec \<Rightarrow> asn_node \<Rightarrow> 'x search_request option zrun" where
  "DecodeSearchRequest cd node = zbind (zfold (search_field cd) empty_search (an_children node)) (\<lambda>sr. zret (Some sr))"

text \<open>The bit strings arrive as new strings of characters.\<close>

definition decode_bits_ptr :: "'x codec \<Rightarrow> asn_node \<Rightarrow> gstr option zrun" where
  "decode_bits_ptr cd node = zbind (Some (DecodeBitString (cd_octet cd) node)) (\<lambda>r. zret (Some (fst r)))"

definition init_field :: "'x codec \<Rightarrow> 'x init_request \<Rightarrow> asn_node \<Rightarrow> 'x init_request zrun" where
  "init_field cd ir child0 =
     (let tagno = an_tagno child0
      in if tagno = 2 then zret (ir\<lparr>ir_referenceId := fst (DecodeOctetString child0)\<rparr>)
         else if tagno = 3 then zbind (decode_bits_ptr cd child0) (\<lambda>g. zret (ir\<lparr>ir_protocolVersion := g\<rparr>))
         else if tagno = 4 then zbind (decode_bits_ptr cd child0) (\<lambda>g. zret (ir\<lparr>ir_options := g\<rparr>))
         else if tagno = 5 then zret (ir\<lparr>ir_preferredMessageSize := decode_int cd child0\<rparr>)
         else if tagno = 6 then zret (ir\<lparr>ir_exceptionalRecordSize := decode_int cd child0\<rparr>)
         else if tagno = 7
         then no_check (\<lambda>child1. zbind (Some (DecodeAny child1)) (\<lambda>cs. zret (ir\<lparr>ir_idAuthentication := Some (Any_chars cs)\<rparr>))) (an_head child0)
         else if tagno = 110 then zret (ir\<lparr>ir_implementationId := DecodeInternationalString child0\<rparr>)
         else if tagno = 111 then zret (ir\<lparr>ir_implementationName := DecodeInternationalString child0\<rparr>)
         else if tagno = 112 then zret (ir\<lparr>ir_implementationVersion := DecodeInternationalString child0\<rparr>)
         else if tagno = 11
         then no_check (\<lambda>child1. zbind (cd_decode_external cd child1) (\<lambda>x. zret (ir\<lparr>ir_userInformationField := x\<rparr>))) (an_head child0)
         else if tagno = 201 then zbind (DecodeOtherInformation cd child0) (\<lambda>oi. zret (ir\<lparr>ir_otherInfo := oi\<rparr>))
         else zret ir)"

definition empty_init :: "'x init_request" where
  "empty_init = \<lparr>ir_referenceId = None, ir_protocolVersion = None, ir_options = None, ir_preferredMessageSize = 0,
     ir_exceptionalRecordSize = 0, ir_idAuthentication = None, ir_implementationId = None, ir_implementationName = None,
     ir_implementationVersion = None, ir_userInformationField = None, ir_otherInfo = []\<rparr>"

definition DecodeInitializeRequest :: "'x codec \<Rightarrow> asn_node \<Rightarrow> 'x init_request option zrun" where
  "DecodeInitializeRequest cd node = zbind (zfold (init_field cd) empty_init (an_children node)) (\<lambda>ir. zret (Some ir))"

definition response_field :: "'x codec \<Rightarrow> 'x init_response \<Rightarrow> asn_node \<Rightarrow> 'x init_response zrun" where
  "response_field cd ip child0 =
     (let tagno = an_tagno child0
      in if tagno = 2 then zret (ip\<lparr>ip_referenceId := fst (DecodeOctetString child0)\<rparr>)
         else if tagno = 3 then zbind (decode_bits_ptr cd child0) (\<lambda>g. zret (ip\<lparr>ip_protocolVersion := g\<rparr>))
         else if tagno = 4 then zbind (decode_bits_ptr cd child0) (\<lambda>g. zret (ip\<lparr>ip_options := g\<rparr>))
         else if tagno = 5 then zret (ip\<lparr>ip_preferredMessageSize := decode_int cd child0\<rparr>)
         else if tagno = 6 then zret (ip\<lparr>ip_exceptionalRecordSize := decode_int cd child0\<rparr>)
         else if tagno = 12 then zret (ip\<lparr>ip_result := decode_bool cd child0\<rparr>)
         else if tagno = 110 then zret (ip\<lparr>ip_implementationId := DecodeInternationalString child0\<rparr>)
         else if tagno = 111 then zret (ip\<lparr>ip_implementationName := DecodeInternationalString child0\<rparr>)
         else if tagno = 112 then zret (ip\<lparr>ip_implementationVersion := DecodeInternationalString child0\<rparr>)
         else if tagno = 11
         then no_check (\<lambda>child1. zbind (cd_decode_external cd child1) (\<lambda>x. zret (ip\<lparr>ip_userInformationField := x\<rparr>))) (an_head child0)
         else if tagno = 201 then zbind (DecodeOtherInformation cd child0) (\<lambda>oi. zret (ip\<lparr>ip_otherInfo := oi\<rparr>))
         else zret ip)"

definition empty_response :: "'x init_response" where
  "empty_response = \<lparr>ip_referenceId = None, ip_protocolVersion = None, ip_options = None, ip_preferredMessageSize = 0,
     ip_exceptionalRecordSize = 0, ip_result = 0, ip_implementationId = None, ip_implementationName = None,
     ip_implementationVersion = None, ip_userInformationField = None, ip_otherInfo = []\<rparr>"

definition DecodeInitializeResponse :: "'x codec \<Rightarrow> asn_node \<Rightarrow> 'x init_response option zrun" where
  "DecodeInitializeResponse cd node = zbind (zfold (response_field cd) empty_response (an_children node)) (\<lambda>ip. zret (Some ip))"

section \<open>Values that can be sent, and their encodings\<close>

definition opt_str_ok :: "gstr option \<Rightarrow> bool" where
  "opt_str_ok g \<longleftrightarrow> g = None \<or> str_ok g"

definition opt_oid_ok :: "gstr option \<Rightarrow> bool" where
  "opt_oid_ok g \<longleftrightarrow> g = None \<or> oid_str_ok g"

text \<open>A non-empty string of the characters 0 and 1.\<close>

definition bits_ok :: "gstr option \<Rightarrow> bool" where
  "bits_ok g \<longleftrightarrow> str_ok g \<and> (\<forall>ch \<in> set (str_octets g). bit_char ch) \<and> length (str_octets g) + 20 \<le> dbuf_capacity"

definition ber_bits :: "int \<Rightarrow> gstr option \<Rightarrow> ber" where
  "ber_bits t g = Ber_prim 2 t (bit_contents (str_octets g))"

definition ber_oid :: "int \<Rightarrow> gstr option \<Rightarrow> ber" where
  "ber_oid t g = Ber_prim 2 t (oid_bytes g)"

definition ber_bool :: "int \<Rightarrow> octet \<Rightarrow> ber" where
  "ber_bool t v = Ber_prim 2 t [v]"

fun names_ok :: "element_set_names option \<Rightarrow> bool" where
  "names_ok None = False"
| "names_ok (Some (ES_generic s)) = str_ok s"
| "names_ok (Some (ES_databaseSpecific items)) = (items \<noteq> [] \<and> (\<forall>i \<in> set items. str_ok (ds_dbName i) \<and> str_ok (ds_esn i)))"

fun ber_names :: "element_set_names option \<Rightarrow> ber" where
  "ber_names (Some (ES_databaseSpecific items)) =
     Ber_cons 2 1 (map (\<lambda>i. Ber_cons 0 16 [ber_str 105 (ds_dbName i), ber_str 103 (ds_esn i)]) items)"
| "ber_names (Some (ES_generic s)) = ber_str 0 s"
| "ber_names None = ber_str 0 None"

definition category_ok :: "info_category \<Rightarrow> bool" where
  "category_ok ic \<longleftrightarrow> opt_oid_ok (ic_categoryTypeId ic) \<and> int_ok (ic_categoryValue ic)"

definition ber_category :: "info_category \<Rightarrow> ber" where
  "ber_category ic = Ber_cons 2 1
     ((if ic_categoryTypeId ic \<noteq> None then [ber_oid 1 (ic_categoryTypeId ic)] else []) @ [ber_int 2 (ic_categoryValue ic)])"

fun information_ok :: "'x information \<Rightarrow> bool" where
  "information_ok (I_characterInfo s) = str_ok s"
| "information_ok (I_binaryInfo s) = str_ok s"
| "information_ok (I_externallyDefinedInfo x) = False"
| "information_ok (I_oid s) = oid_str_ok s"

fun ber_information :: "'x information \<Rightarrow> ber" where
  "ber_information (I_characterInfo s) = ber_str 2 s"
| "ber_information (I_binaryInfo s) = ber_str 3 s"
| "ber_information (I_externallyDefinedInfo x) = Ber_cons 2 4 []"
| "ber_information (I_oid s) = ber_oid 5 s"

definition other_ok :: "'x other_info \<Rightarrow> bool" where
  "other_ok oi \<longleftrightarrow> (case oi_category oi of None \<Rightarrow> True | Some ic \<Rightarrow> category_ok ic) \<and> information_ok (oi_information oi)"

definition ber_other :: "'x other_info \<Rightarrow> ber" where
  "ber_other oi = Ber_cons 0 16
     ((if oi_category oi \<noteq> None then [ber_category (the (oi_category oi))] else []) @ [ber_information (oi_information oi)])"

definition ber_others :: "int \<Rightarrow> 'x other_info list \<Rightarrow> ber" where
  "ber_others t ois = Ber_cons 2 t (map ber_other ois)"

definition search_ok :: "'x search_request \<Rightarrow> bool" where
  "search_ok sr \<longleftrightarrow> opt_str_ok (sr_referenceId sr) \<and> int_ok (sr_smallSetUpperBound sr) \<and> int_ok (sr_largeSetLowerBound sr)
     \<and> int_ok (sr_mediumSetPresentNumber sr) \<and> bool_ok (sr_replaceIndicator sr) \<and> str_ok (sr_resultSetName sr)
     \<and> sr_databaseNames sr \<noteq> [] \<and> (\<forall>d \<in> set (sr_databaseNames sr). str_ok d)
     \<and> (sr_smallSetElementSetNames sr = None \<or> names_ok (sr_smallSetElementSetNames sr))
     \<and> (sr_mediumSetElementSetNames sr = None \<or> names_ok (sr_mediumSetElementSetNames sr))
     \<and> opt_oid_ok (sr_preferredRecordSyntax sr) \<and> query_ok (sr_query sr)
     \<and> (\<forall>oi \<in> set (sr_additionalSearchInfo sr). other_ok oi) \<and> (\<forall>oi \<in> set (sr_otherInfo sr). other_ok oi)"

definition ber_search :: "int \<Rightarrow> 'x search_request \<Rightarrow> ber" where
  "ber_search t sr = Ber_cons 2 t
     ((if sr_referenceId sr \<noteq> None then [ber_str 2 (sr_referenceId sr)] else [])
      @ [ber_int 13 (sr_smallSetUpperBound sr), ber_int 14 (sr_largeSetLowerBound sr), ber_int 15 (sr_mediumSetPresentNumber sr),
         ber_bool 16 (sr_replaceIndicator sr), ber_str 17 (sr_resultSetName sr), Ber_cons 2 18 (map (ber_str 105) (sr_databaseNames sr))]
      @ (if sr_smallSetElementSetNames sr \<noteq> None then [Ber_cons 2 100 [ber_names (sr_smallSetElementSetNames sr)]] else [])
      @ (if sr_mediumSetElementSetNames sr \<noteq> None then [Ber_cons 2 101 [ber_names (sr_mediumSetElementSetNames sr)]] else [])
      @ (if sr_preferredRecordSyntax sr \<noteq> None then [ber_oid 104 (sr_preferredRecordSyntax sr)] else [])
      @ [Ber_cons 2 21 [ber_query (sr_query sr)]]
      @ (if sr_additionalSearchInfo sr \<noteq> [] then [ber_others 203 (sr_additionalSearchInfo sr)] else [])
      @ (if sr_otherInfo sr \<noteq> [] then [ber_others 201 (sr_otherInfo sr)] else []))"

text \<open>Requests without \<open>idAuthentication\<close>, whose two sides do not agree on a type, and without an external value.\<close>

definition init_ok :: "'x init_request \<Rightarrow> bool" where
  "init_ok ir \<longleftrightarrow> opt_str_ok (ir_referenceId ir) \<and> bits_ok (ir_protocolVersion ir) \<and> bits_ok (ir_options ir)
     \<and> int_ok (ir_preferredMessageSize ir) \<and> int_ok (ir_exceptionalRecordSize ir) \<and> ir_idAuthentication ir = None
     \<and> opt_str_ok (ir_implementationId ir) \<and> opt_str_ok (ir_implementationName ir) \<and> opt_str_ok (ir_implementationVersion ir)
     \<and> ir_userInformationField ir = None \<and> (\<forall>oi \<in> set (ir_otherInfo ir). other_ok oi)"

definition ber_init :: "int \<Rightarrow> 'x init_request \<Rightarrow> ber" where
  "ber_init t ir = Ber_cons 2 t
     ((if ir_referenceId ir \<noteq> None then [ber_str 2 (ir_referenceId ir)] else [])
      @ [ber_bits 3 (ir_protocolVersion ir), ber_bits 4 (ir_options ir), ber_int 5 (ir_preferredMessageSize ir),
         ber_int 6 (ir_exceptionalRecordSize ir)]
      @ (if ir_implementationId ir \<noteq> None then [ber_str 110 (ir_implementationId ir)] else [])
      @ (if ir_implementationName ir \<noteq> None then [ber_str 111 (ir_implementationName ir)] else [])
      @ (if ir_implementationVersion ir \<noteq> None then [ber_str 112 (ir_implementationVersion ir)] else [])
      @ (if ir_otherInfo ir \<noteq> [] then [ber_others 201 (ir_otherInfo ir)] else []))"

definition response_ok :: "'x init_response \<Rightarrow> bool" where
  "response_ok ip \<longleftrightarrow> opt_str_ok (ip_referenceId ip) \<and> bits_ok (ip_protocolVersion ip) \<and> bits_ok (ip_options ip)
     \<and> int_ok (ip_preferredMessageSize ip) \<and> int_ok (ip_exceptionalRecordSize ip) \<and> bool_ok (ip_result ip)
     \<and> opt_str_ok (ip_implementationId ip) \<and> opt_str_ok (ip_implementationName ip) \<and> opt_str_ok (ip_implementationVersion ip)
     \<and> ip_userInformationField ip = None \<and> (\<forall>oi \<in> set (ip_otherInfo ip). other_ok oi)"

definition ber_response :: "int \<Rightarrow> 'x init_response \<Rightarrow> ber" where
  "ber_response t ip = Ber_cons 2 t
     ((if ip_referenceId ip \<noteq> None then [ber_str 2 (ip_referenceId ip)] else [])
      @ [ber_bits 3 (ip_protocolVersion ip), ber_bits 4 (ip_options ip), ber_int 5 (ip_preferredMessageSize ip),
         ber_int 6 (ip_exceptionalRecordSize ip), ber_bool 12 (ip_result ip)]
      @ (if ip_implementationId ip \<noteq> None then [ber_str 110 (ip_implementationId ip)] else [])
      @ (if ip_implementationName ip \<noteq> None then [ber_str 111 (ip_implementationName ip)] else [])
      @ (if ip_implementationVersion ip \<noteq> None then [ber_str 112 (ip_implementationVersion ip)] else [])
      @ (if ip_otherInfo ip \<noteq> [] then [ber_others 201 (ip_otherInfo ip)] else []))"

section \<open>The encoders\<close>

lemma bits_encodes [wire_intros]:
  assumes "bits_ok g" "0 \<le> t" "t < 2147483648" shows "encodes (EncodeBitString BER_CONTEXT t g) (ber_bits t g)"
proof -
  obtain cs where g: "g = Some (c_str cs)" "cs \<noteq> []" "str_octets g = cs" using assms(1) by (auto simp: bits_ok_def elim: str_okE)
  have cap: "length cs + 20 \<le> dbuf_capacity" using assms(1) g(3) by (simp add: bits_ok_def)
  have "bit_octet_count (length cs) \<le> length cs" using bit_count_bounds(2) [of "length cs"] g(2) by (cases cs) simp_all
  then have "dbuf_at 0 NewDbuf" "room_for NewDbuf (bit_contents cs)" "length cs < 2147483648"
    using cap by (simp_all add: dbuf_at_def room_for_def dbuf_capacity_def bit_contents_def)
  then obtain b where b: "encode_bitstr NewDbuf 2 t g = Done (Z_OK, b)" "dbuf_at 0 b" "dbuf_octets b = tlv 2 0 t (bit_contents cs)"
    using encode_bitstr_writes [of 0 NewDbuf 2 t cs "c_str cs" "[0]"] assms(2,3) g(1,2) by (auto simp: c_str_def)
  show ?thesis
    using encode_leaf_represents [of "\<lambda>b. encode_bitstr b 2 t g", OF b] g(1,3)
    by (simp add: encodes_def EncodeBitString_def BER_CONTEXT_def ber_bits_def)
qed

lemma oid_encodes [wire_intros]:
  "oid_str_ok g \<Longrightarrow> 0 \<le> t \<Longrightarrow> t < 2147483648 \<Longrightarrow> encodes (EncodeOid junk BER_CONTEXT t g) (ber_oid t g)"
  by (auto simp: ber_oid_def BER_CONTEXT_def intro!: encodes_oid)

lemma bool_encodes [wire_intros]:
  "bool_ok v \<Longrightarrow> 0 \<le> t \<Longrightarrow> t < 2147483648 \<Longrightarrow> encodes (EncodeBoolean BER_CONTEXT t v) (ber_bool t v)"
  by (auto simp: ber_bool_def BER_CONTEXT_def intro!: encodes_bool)

lemma named_strings_encode [wire_intros]:
  "str_ok g \<Longrightarrow> encodes (EncodeReferenceId CLASS_NONE TAGNO_NONE g) (ber_str 2 g)"
  "str_ok g \<Longrightarrow> encodes (EncodeDatabaseName CLASS_NONE TAGNO_NONE g) (ber_str 105 g)"
  "str_ok g \<Longrightarrow> encodes (EncodeElementSetName CLASS_NONE TAGNO_NONE g) (ber_str 103 g)"
  "str_ok g \<Longrightarrow> encodes (EncodeOctetString BER_CONTEXT 3 g) (ber_str 3 g)"
  "bits_ok g \<Longrightarrow> encodes (EncodeProtocolVersion CLASS_NONE TAGNO_NONE g) (ber_bits 3 g)"
  "bits_ok g \<Longrightarrow> encodes (EncodeOptions CLASS_NONE TAGNO_NONE g) (ber_bits 4 g)"
  by (auto simp: EncodeReferenceId_def EncodeDatabaseName_def EncodeElementSetName_def EncodeProtocolVersion_def EncodeOptions_def
      intro!: wire_intros) (auto simp: ber_str_def BER_CONTEXT_def intro!: wire_intros)

lemma encodes_sequence [wire_intros]:
  "list_all2 encodes es bs \<Longrightarrow> encodes (attach_all (NewAsnNode UNIVERSAL CONSTRUCTED SEQUENCE) es) (Ber_cons 0 16 bs)"
  using encodes_node by (simp add: UNIVERSAL_def CONSTRUCTED_def SEQUENCE_def)

lemma names_encodes [wire_intros]: "names_ok es \<Longrightarrow> encodes (EncodeElementSetNames es) (ber_names es)"
  by (cases es rule: names_ok.cases) (auto simp: EncodeElementSetNames_def intro!: wire_intros)

lemma category_encodes [wire_intros]:
  "category_ok ic \<Longrightarrow> encodes (EncodeInfoCategory cd BER_CONTEXT CONSTRUCTED 1 (Some ic)) (ber_category ic)"
  unfolding EncodeInfoCategory_def ber_category_def deref.simps run_bind.simps choose_node_simps
  by (intro wire_intros) (auto simp: category_ok_def opt_oid_ok_def)

lemma other_encodes: "other_ok oi \<Longrightarrow> encodes (encode_other_info cd oi) (ber_other oi)"
proof -
  assume ok: "other_ok oi"
  have cat: "encodes (EncodeInfoCategory cd BER_CONTEXT CONSTRUCTED 1 (oi_category oi)) (ber_category (the (oi_category oi)))"
    if "oi_category oi \<noteq> None"
    using that ok by (auto simp: other_ok_def intro!: category_encodes)
  show ?thesis unfolding encode_other_info_def ber_other_def
  proof (intro wire_intros cat)
    show "encodes (case oi_information oi of I_characterInfo s \<Rightarrow> EncodeInternationalString BER_CONTEXT 2 s
        | I_binaryInfo s \<Rightarrow> EncodeOctetString BER_CONTEXT 3 s | I_externallyDefinedInfo x \<Rightarrow> cd_encode_external cd BER_CONTEXT 4 x
        | I_oid s \<Rightarrow> EncodeOid (cd_oid cd) BER_CONTEXT 5 s) (ber_information (oi_information oi))"
      using ok by (cases "oi_information oi") (auto simp: other_ok_def intro!: wire_intros)
  qed
qed

lemma others_encode [wire_intros]:
  "\<forall>oi \<in> set ois. other_ok oi \<Longrightarrow> encodes (EncodeOtherInformation cd BER_CONTEXT CONSTRUCTED t ois) (ber_others t ois)"
  "\<forall>oi \<in> set ois. other_ok oi \<Longrightarrow> encodes (EncodeOtherInformation cd CLASS_NONE TYPE_NONE TAGNO_NONE ois) (ber_others 201 ois)"
  unfolding EncodeOtherInformation_def ber_others_def choose_node_simps
  by (intro wire_intros other_encodes; simp)+ (simp add: BER_CONTEXT_def, intro wire_intros other_encodes, simp)

lemma search_encodes: "search_ok sr \<Longrightarrow> encodes (EncodeSearchRequest cd BER_CONTEXT CONSTRUCTED t (Some sr)) (ber_search t sr)"
  unfolding EncodeSearchRequest_def ber_search_def deref.simps run_bind.simps choose_node_simps
  by (intro wire_intros query_encodes) (auto simp: search_ok_def opt_str_ok_def opt_oid_ok_def)

lemma init_encodes: "init_ok ir \<Longrightarrow> encodes (EncodeInitializeRequest cd BER_CONTEXT CONSTRUCTED t (Some ir)) (ber_init t ir)"
proof -
  assume ok: "init_ok ir"
  then have none: "ir_idAuthentication ir = None" "ir_userInformationField ir = None" by (simp_all add: init_ok_def)
  show ?thesis
    unfolding EncodeInitializeRequest_def ber_init_def deref.simps run_bind.simps choose_node_simps none
    by (simp only: not_True_eq_False if_False append_Nil simp_thms, intro wire_intros) (use ok in \<open>auto simp: init_ok_def opt_str_ok_def\<close>)
qed

lemma response_encodes: "response_ok ip \<Longrightarrow> encodes (EncodeInitializeResponse cd BER_CONTEXT CONSTRUCTED t (Some ip)) (ber_response t ip)"
proof -
  assume ok: "response_ok ip"
  then have none: "ip_userInformationField ip = None" by (simp add: response_ok_def)
  show ?thesis
    unfolding EncodeInitializeResponse_def ber_response_def deref.simps run_bind.simps choose_node_simps none
    by (simp only: not_True_eq_False if_False append_Nil simp_thms, intro wire_intros) (use ok in \<open>auto simp: response_ok_def opt_str_ok_def\<close>)
qed

section \<open>The decoders\<close>

text \<open>
  A structure as the list of its parts: whether the part is there, its encoding, and what reading it does to the
  structure. The loop of a decoder over the parts that are there applies their updates in order.
\<close>

definition parts_there :: "(bool \<times> ber \<times> ('s \<Rightarrow> 's)) list \<Rightarrow> ber list" where
  "parts_there ps = map (\<lambda>p. fst (snd p)) (filter fst ps)"

fun apply_parts :: "(bool \<times> ber \<times> ('s \<Rightarrow> 's)) list \<Rightarrow> 's \<Rightarrow> 's" where
  "apply_parts [] s = s"
| "apply_parts ((there, b, f) # ps) s = apply_parts ps (if there then f s else s)"

lemma parts_there_simps:
  "parts_there [] = []" "parts_there ((there, b, f) # ps) = (if there then [b] else []) @ parts_there ps"
  by (simp_all add: parts_there_def)

lemma zfold_parts:
  assumes "list_all2 decoded ns (parts_there ps)"
    and "list_all (\<lambda>(there, b, f). there \<longrightarrow> (\<forall>n s. decoded n b \<longrightarrow> step s n = zret (f s))) ps"
  shows "zfold step s ns = zret (apply_parts ps s)"
  using assms
proof (induction ps arbitrary: ns s)
  case (Cons p ps)
  obtain there b f where p: "p = (there, b, f)" by (cases p)
  show ?case
  proof (cases there)
    case True
    then obtain n ns' where "ns = n # ns'" "decoded n b" "list_all2 decoded ns' (parts_there ps)"
      using Cons.prems(1) p by (auto simp: parts_there_simps decoded_list)
    then show ?thesis using Cons.IH [of ns' "f s"] Cons.prems(2) p True by simp
  next
    case False
    then show ?thesis using Cons.IH [of ns s] Cons.prems p by (simp add: parts_there_simps)
  qed
qed (simp add: parts_there_simps)

lemma opt_parts: "(if v \<noteq> None then v else None) = v" "(if l \<noteq> [] then l else []) = l"
  by simp_all

lemma leaf_reads:
  "decoded n (ber_str t g) \<Longrightarrow> str_ok g \<Longrightarrow> an_tagno n = t \<and> fst (DecodeOctetString n) = g \<and> DecodeInternationalString n = g"
  "decoded n (ber_int t v) \<Longrightarrow> int_ok v \<Longrightarrow> an_tagno n = t \<and> decode_int cd n = v"
  "decoded n (ber_bool t b) \<Longrightarrow> bool_ok b \<Longrightarrow> an_tagno n = t \<and> decode_bool cd n = b"
  "decoded n (ber_oid t g) \<Longrightarrow> oid_str_ok g \<Longrightarrow> an_tagno n = t \<and> decode_oid_ptr cd n = zret g"
  using decode_str_leaves [of n 2 t g] decode_int_ptr [of n t v cd] decode_bool_leaf [of n 2 t b cd] decode_oid_ptr_leaf [of n 2 t g cd]
    decoded_tag(1) [of n 2 t]
  by (auto simp: ber_str_def ber_int_def ber_bool_def ber_oid_def)

lemma bits_read:
  assumes "decoded n (ber_bits t g)" "bits_ok g" shows "an_tagno n = t \<and> decode_bits_ptr cd n = zret g"
proof -
  obtain cs where g: "g = Some (c_str cs)" "str_octets g = cs" using assms(2) by (auto simp: bits_ok_def elim: str_okE)
  have d: "decoded n (Ber_prim 2 t (bit_contents cs))" using assms(1) g(2) by (simp add: ber_bits_def)
  have "\<exists>b. DecodeBitString (cd_octet cd) n = Done (c_str cs, b)"
    using decode_bit_string_contents [of "an_dbuf n" cs "[]" "cd_octet cd"] decoded_contents [OF d] assms(2) g(2)
    by (auto simp: DecodeBitString_def c_str_def bits_ok_def)
  then show ?thesis using decoded_tag(1) [OF d] g(1) by (auto simp: decode_bits_ptr_def)
qed

lemma names_read:
  assumes "names_ok es" "decoded n (ber_names es)" shows "DecodeElementSetNames n = zret es"
proof (cases es rule: names_ok.cases)
  case (2 s)
  then show ?thesis using assms leaf_reads(1) [of n 0 s] by (auto simp: DecodeElementSetNames_def)
next
  case (3 items)
  have d: "decoded n (Ber_cons 2 1 (map (\<lambda>i. Ber_cons 0 16 [ber_str 105 (ds_dbName i), ber_str 103 (ds_esn i)]) items))"
    using assms(2) 3 by simp
  have item: "foldl specific_field \<lparr>ds_dbName = None, ds_esn = None\<rparr> (an_children c) = i"
    if c: "decoded c (Ber_cons 0 16 [ber_str 105 (ds_dbName i), ber_str 103 (ds_esn i)])" and i: "i \<in> set items" for c i
  proof -
    obtain n1 n2 where "an_children c = [n1, n2]" "decoded n1 (ber_str 105 (ds_dbName i))" "decoded n2 (ber_str 103 (ds_esn i))"
      using decoded_children [OF c] by (auto simp: decoded_list)
    then show ?thesis
      using leaf_reads(1) [of n1 105 "ds_dbName i"] leaf_reads(1) [of n2 103 "ds_esn i"] assms(1) 3 i
      by (cases i) (force simp: specific_field_def DecodeDatabaseName_def DecodeElementSetName_def)
  qed
  have "map (\<lambda>c. foldl specific_field \<lparr>ds_dbName = None, ds_esn = None\<rparr> (an_children c)) ns = is"
    if "list_all2 decoded ns (map (\<lambda>i. Ber_cons 0 16 [ber_str 105 (ds_dbName i), ber_str 103 (ds_esn i)]) is)" "set is \<subseteq> set items" for ns "is"
    using that item by (induction "is" arbitrary: ns) (auto simp: decoded_list)
  then show ?thesis using decoded_children [OF d] decoded_tag(2) [OF d] 3 by (simp add: DecodeElementSetNames_def)
qed (use assms in simp)

lemma category_read:
  assumes "category_ok ic" "decoded n (ber_category ic)" shows "DecodeInfoCategory cd n = zret (Some ic)"
proof -
  let ?ps = "[(ic_categoryTypeId ic \<noteq> None, ber_oid 1 (ic_categoryTypeId ic), ic_categoryTypeId_update (\<lambda>_. ic_categoryTypeId ic)),
    (True, ber_int 2 (ic_categoryValue ic), ic_categoryValue_update (\<lambda>_. ic_categoryValue ic))]"
  have "list_all2 decoded (an_children n) (parts_there ?ps)"
    using decoded_children [OF assms(2) [unfolded ber_category_def]] by (simp add: parts_there_simps)
  from zfold_parts [OF this, of "category_field cd"] show ?thesis
    using leaf_reads(2) [of _ 2 "ic_categoryValue ic" cd] leaf_reads(4) [of _ 1 "ic_categoryTypeId ic" cd] assms(1)
    by (cases ic) (auto simp: DecodeInfoCategory_def category_field_def category_ok_def opt_oid_ok_def)
qed

lemma others_read:
  assumes "\<forall>oi \<in> set ois. other_ok oi" "decoded n (ber_others t ois)" shows "an_tagno n = t \<and> DecodeOtherInformation cd n = zret ois"
proof -
  have item: "zfold (other_field cd) \<lparr>oi_category = None, oi_information = I_characterInfo None\<rparr> (an_children c) = zret oi"
    if oi: "oi \<in> set ois" and c: "decoded c (ber_other oi)" for c oi
  proof -
    have ok: "other_ok oi" using assms(1) oi by blast
    let ?ps = "[(oi_category oi \<noteq> None, ber_category (the (oi_category oi)), oi_category_update (\<lambda>_. oi_category oi)),
      (True, ber_information (oi_information oi), oi_information_update (\<lambda>_. oi_information oi))]"
    have l: "list_all2 decoded (an_children c) (parts_there ?ps)"
      using decoded_children [OF c [unfolded ber_other_def]] by (simp add: parts_there_simps)
    have cat: "other_field cd s m = zret (s\<lparr>oi_category := oi_category oi\<rparr>)"
      if "oi_category oi \<noteq> None" "decoded m (ber_category (the (oi_category oi)))" for s m
      using that ok category_read [of _ m cd] decoded_tag(2) [OF that(2) [unfolded ber_category_def]] by (auto simp: other_field_def other_ok_def)
    have inf: "other_field cd s m = zret (s\<lparr>oi_information := oi_information oi\<rparr>)" if "decoded m (ber_information (oi_information oi))" for s m
      using that ok leaf_reads(1) [of m] leaf_reads(4) [of m _ _ cd]
      by (cases "oi_information oi") (auto simp: other_field_def other_ok_def)
    show ?thesis using zfold_parts [OF l, of "other_field cd"] cat inf by (cases oi) auto
  qed
  show ?thesis
    using zmap_decoded [OF decoded_children [OF assms(2) [unfolded ber_others_def]], OF item] decoded_tag(2) [OF assms(2) [unfolded ber_others_def]]
    by (simp add: DecodeOtherInformation_def)
qed

definition search_parts :: "'x search_request \<Rightarrow> (bool \<times> ber \<times> ('x search_request \<Rightarrow> 'x search_request)) list" where
  "search_parts sr =
     [(sr_referenceId sr \<noteq> None, ber_str 2 (sr_referenceId sr), sr_referenceId_update (\<lambda>_. sr_referenceId sr)),
      (True, ber_int 13 (sr_smallSetUpperBound sr), sr_smallSetUpperBound_update (\<lambda>_. sr_smallSetUpperBound sr)),
      (True, ber_int 14 (sr_largeSetLowerBound sr), sr_largeSetLowerBound_update (\<lambda>_. sr_largeSetLowerBound sr)),
      (True, ber_int 15 (sr_mediumSetPresentNumber sr), sr_mediumSetPresentNumber_update (\<lambda>_. sr_mediumSetPresentNumber sr)),
      (True, ber_bool 16 (sr_replaceIndicator sr), sr_replaceIndicator_update (\<lambda>_. sr_replaceIndicator sr)),
      (True, ber_str 17 (sr_resultSetName sr), sr_resultSetName_update (\<lambda>_. sr_resultSetName sr)),
      (True, Ber_cons 2 18 (map (ber_str 105) (sr_databaseNames sr)), sr_databaseNames_update (\<lambda>_. sr_databaseNames sr)),
      (sr_smallSetElementSetNames sr \<noteq> None, Ber_cons 2 100 [ber_names (sr_smallSetElementSetNames sr)],
        sr_smallSetElementSetNames_update (\<lambda>_. sr_smallSetElementSetNames sr)),
      (sr_mediumSetElementSetNames sr \<noteq> None, Ber_cons 2 101 [ber_names (sr_mediumSetElementSetNames sr)],
        sr_mediumSetElementSetNames_update (\<lambda>_. sr_mediumSetElementSetNames sr)),
      (sr_preferredRecordSyntax sr \<noteq> None, ber_oid 104 (sr_preferredRecordSyntax sr), sr_preferredRecordSyntax_update (\<lambda>_. sr_preferredRecordSyntax sr)),
      (True, Ber_cons 2 21 [ber_query (sr_query sr)], sr_query_update (\<lambda>_. sr_query sr)),
      (sr_additionalSearchInfo sr \<noteq> [], ber_others 203 (sr_additionalSearchInfo sr), sr_additionalSearchInfo_update (\<lambda>_. sr_additionalSearchInfo sr)),
      (sr_otherInfo sr \<noteq> [], ber_others 201 (sr_otherInfo sr), sr_otherInfo_update (\<lambda>_. sr_otherInfo sr))]"

lemma search_parts_ber: "ber_search t sr = Ber_cons 2 t (parts_there (search_parts sr))"
  by (simp add: ber_search_def search_parts_def parts_there_simps)

text \<open>A part that is not there leaves a field as it was made.\<close>

lemma if_update:
  "(if P then sr_referenceId_update f s else s) = sr_referenceId_update (if P then f else id) s"
  "(if P then sr_smallSetElementSetNames_update f1 s else s) = sr_smallSetElementSetNames_update (if P then f1 else id) s"
  "(if P then sr_mediumSetElementSetNames_update f1 s else s) = sr_mediumSetElementSetNames_update (if P then f1 else id) s"
  "(if P then sr_preferredRecordSyntax_update f s else s) = sr_preferredRecordSyntax_update (if P then f else id) s"
  "(if P then sr_additionalSearchInfo_update f2 s else s) = sr_additionalSearchInfo_update (if P then f2 else id) s"
  "(if P then sr_otherInfo_update f2 s else s) = sr_otherInfo_update (if P then f2 else id) s"
  by (simp_all add: id_def)

lemma keep_empty: "(if v \<noteq> None then (\<lambda>_. v) else id) None = v" "(if l \<noteq> [] then (\<lambda>_. l) else id) [] = l"
  by simp_all

lemma search_parts_apply: "apply_parts (search_parts sr) empty_search = sr"
  unfolding search_parts_def apply_parts.simps if_update if_True empty_search_def search_request.simps keep_empty
  by (cases sr) simp

lemma databases_read:
  assumes "decoded n (Ber_cons 2 18 (map (ber_str 105) ds))" "\<forall>d \<in> set ds. str_ok d"
  shows "map DecodeDatabaseName (an_children n) = ds"
proof -
  have "map DecodeDatabaseName ns = ds" if "list_all2 decoded ns (map (ber_str 105) ds)" "\<forall>d \<in> set ds. str_ok d" for ns ds
    using that
  proof (induction ds arbitrary: ns)
    case (Cons d ds)
    then obtain n' ns' where "ns = n' # ns'" "decoded n' (ber_str 105 d)" "list_all2 decoded ns' (map (ber_str 105) ds)"
      by (auto simp: decoded_list)
    then show ?case using Cons leaf_reads(1) [of n' 105 d] by (simp add: DecodeDatabaseName_def)
  qed simp
  then show ?thesis using decoded_children [OF assms(1)] assms(2) by blast
qed

lemma search_steps:
  assumes "search_ok sr"
  shows "list_all (\<lambda>(there, b, f). there \<longrightarrow> (\<forall>n s. decoded n b \<longrightarrow> search_field cd s n = zret (f s))) (search_parts sr)"
proof -
  have names: "null_check DecodeElementSetNames (an_head n) = zret es \<and> an_tagno n = t"
    if "decoded n (Ber_cons 2 t [ber_names es])" "names_ok es" for n es t
    using decoded_head [OF that(1)] names_read [OF that(2)] decoded_tag(2) [OF that(1)] by (auto simp: null_check_def)
  have query: "null_check (DecodeQuery cd) (an_head n) = zret q" if "decoded n (Ber_cons 2 21 [ber_query q])" "query_ok q" for n q
    using decoded_head [OF that(1)] query_decodes [OF that(2), of _ cd] by (auto simp: null_check_def)
  show ?thesis
    unfolding search_parts_def list.pred_inject prod.case
    by (intro conjI impI allI TrueI; (frule decoded_tag(2))?)
       (use assms in \<open>auto simp: search_ok_def opt_str_ok_def opt_oid_ok_def search_field_def query databases_read
          dest!: names leaf_reads(1) leaf_reads(2,3,4) [where cd = cd] others_read [where cd = cd, rotated]\<close>)
qed

definition init_parts :: "'x init_request \<Rightarrow> (bool \<times> ber \<times> ('x init_request \<Rightarrow> 'x init_request)) list" where
  "init_parts v =
     [(ir_referenceId v \<noteq> None, ber_str 2 (ir_referenceId v), ir_referenceId_update (\<lambda>_. ir_referenceId v)),
      (True, ber_bits 3 (ir_protocolVersion v), ir_protocolVersion_update (\<lambda>_. ir_protocolVersion v)),
      (True, ber_bits 4 (ir_options v), ir_options_update (\<lambda>_. ir_options v)),
      (True, ber_int 5 (ir_preferredMessageSize v), ir_preferredMessageSize_update (\<lambda>_. ir_preferredMessageSize v)),
      (True, ber_int 6 (ir_exceptionalRecordSize v), ir_exceptionalRecordSize_update (\<lambda>_. ir_exceptionalRecordSize v)),
      (ir_implementationId v \<noteq> None, ber_str 110 (ir_implementationId v), ir_implementationId_update (\<lambda>_. ir_implementationId v)),
      (ir_implementationName v \<noteq> None, ber_str 111 (ir_implementationName v), ir_implementationName_update (\<lambda>_. ir_implementationName v)),
      (ir_implementationVersion v \<noteq> None, ber_str 112 (ir_implementationVersion v), ir_implementationVersion_update (\<lambda>_. ir_implementationVersion v)),
      (ir_otherInfo v \<noteq> [], ber_others 201 (ir_otherInfo v), ir_otherInfo_update (\<lambda>_. ir_otherInfo v))]"

lemma if_init:
  "(if P then ir_referenceId_update f s else s) = ir_referenceId_update (if P then f else id) s"
  "(if P then ir_implementationId_update f s else s) = ir_implementationId_update (if P then f else id) s"
  "(if P then ir_implementationName_update f s else s) = ir_implementationName_update (if P then f else id) s"
  "(if P then ir_implementationVersion_update f s else s) = ir_implementationVersion_update (if P then f else id) s"
  "(if P then ir_otherInfo_update f1 s else s) = ir_otherInfo_update (if P then f1 else id) s"
  by (simp_all add: id_def)

lemma init_parts_apply:
  assumes "init_ok v" shows "apply_parts (init_parts v) empty_init = v"
  unfolding init_parts_def apply_parts.simps if_init if_True empty_init_def init_request.simps keep_empty
  by (cases v) (use assms in \<open>simp add: init_ok_def\<close>)

lemma init_steps:
  assumes "init_ok v"
  shows "list_all (\<lambda>(there, b, f). there \<longrightarrow> (\<forall>n s. decoded n b \<longrightarrow> init_field cd s n = zret (f s))) (init_parts v)"
  unfolding init_parts_def list.pred_inject prod.case
  by (intro conjI impI allI TrueI)
     (use assms in \<open>auto simp: init_ok_def opt_str_ok_def init_field_def
        dest!: leaf_reads(1) leaf_reads(2,3,4) [where cd = cd] bits_read [where cd = cd] others_read [where cd = cd, rotated]\<close>)

lemma init_decodes:
  assumes "init_ok v" "decoded n (ber_init t v)" shows "DecodeInitializeRequest cd n = zret (Some v)"
proof -
  have "list_all2 decoded (an_children n) (parts_there (init_parts v))"
    using decoded_children [OF assms(2) [unfolded ber_init_def]] by (simp add: init_parts_def parts_there_simps)
  from zfold_parts [OF this init_steps [OF assms(1)], of cd empty_init] show ?thesis
    by (simp add: DecodeInitializeRequest_def init_parts_apply [OF assms(1)])
qed

definition response_parts :: "'x init_response \<Rightarrow> (bool \<times> ber \<times> ('x init_response \<Rightarrow> 'x init_response)) list" where
  "response_parts v =
     [(ip_referenceId v \<noteq> None, ber_str 2 (ip_referenceId v), ip_referenceId_update (\<lambda>_. ip_referenceId v)),
      (True, ber_bits 3 (ip_protocolVersion v), ip_protocolVersion_update (\<lambda>_. ip_protocolVersion v)),
      (True, ber_bits 4 (ip_options v), ip_options_update (\<lambda>_. ip_options v)),
      (True, ber_int 5 (ip_preferredMessageSize v), ip_preferredMessageSize_update (\<lambda>_. ip_preferredMessageSize v)),
      (True, ber_int 6 (ip_exceptionalRecordSize v), ip_exceptionalRecordSize_update (\<lambda>_. ip_exceptionalRecordSize v)),
      (True, ber_bool 12 (ip_result v), ip_result_update (\<lambda>_. ip_result v)),
      (ip_implementationId v \<noteq> None, ber_str 110 (ip_implementationId v), ip_implementationId_update (\<lambda>_. ip_implementationId v)),
      (ip_implementationName v \<noteq> None, ber_str 111 (ip_implementationName v), ip_implementationName_update (\<lambda>_. ip_implementationName v)),
      (ip_implementationVersion v \<noteq> None, ber_str 112 (ip_implementationVersion v), ip_implementationVersion_update (\<lambda>_. ip_implementationVersion v)),
      (ip_otherInfo v \<noteq> [], ber_others 201 (ip_otherInfo v), ip_otherInfo_update (\<lambda>_. ip_otherInfo v))]"

lemma if_response:
  "(if P then ip_referenceId_update f s else s) = ip_referenceId_update (if P then f else id) s"
  "(if P then ip_implementationId_update f s else s) = ip_implementationId_update (if P then f else id) s"
  "(if P then ip_implementationName_update f s else s) = ip_implementationName_update (if P then f else id) s"
  "(if P then ip_implementationVersion_update f s else s) = ip_implementationVersion_update (if P then f else id) s"
  "(if P then ip_otherInfo_update f1 s else s) = ip_otherInfo_update (if P then f1 else id) s"
  by (simp_all add: id_def)

lemma response_parts_apply:
  assumes "response_ok v" shows "apply_parts (response_parts v) empty_response = v"
  unfolding response_parts_def apply_parts.simps if_response if_True empty_response_def init_response.simps keep_empty
  by (cases v) (use assms in \<open>simp add: response_ok_def\<close>)

lemma response_steps:
  assumes "response_ok v"
  shows "list_all (\<lambda>(there, b, f). there \<longrightarrow> (\<forall>n s. decoded n b \<longrightarrow> response_field cd s n = zret (f s))) (response_parts v)"
  unfolding response_parts_def list.pred_inject prod.case
  by (intro conjI impI allI TrueI)
     (use assms in \<open>auto simp: response_ok_def opt_str_ok_def response_field_def
        dest!: leaf_reads(1) leaf_reads(2,3,4) [where cd = cd] bits_read [where cd = cd] others_read [where cd = cd, rotated]\<close>)

lemma response_decodes:
  assumes "response_ok v" "decoded n (ber_response t v)" shows "DecodeInitializeResponse cd n = zret (Some v)"
proof -
  have "list_all2 decoded (an_children n) (parts_there (response_parts v))"
    using decoded_children [OF assms(2) [unfolded ber_response_def]] by (simp add: response_parts_def parts_there_simps)
  from zfold_parts [OF this response_steps [OF assms(1)], of cd empty_response] show ?thesis
    by (simp add: DecodeInitializeResponse_def response_parts_apply [OF assms(1)])
qed

lemma search_decodes:
  assumes "search_ok sr" "decoded n (ber_search t sr)" shows "DecodeSearchRequest cd n = zret (Some sr)"
proof -
  have "list_all2 decoded (an_children n) (parts_there (search_parts sr))"
    using decoded_children [OF assms(2) [unfolded search_parts_ber]] .
  from zfold_parts [OF this search_steps [OF assms(1)], of cd empty_search] show ?thesis
    by (simp add: DecodeSearchRequest_def search_parts_apply)
qed

section \<open>Requests over a connection\<close>

lemma ber_named_ok [simp]:
  "0 \<le> t \<Longrightarrow> t < 2147483648 \<Longrightarrow> ber_ok (ber_bits t g)" "0 \<le> t \<Longrightarrow> t < 2147483648 \<Longrightarrow> ber_ok (ber_bool t b)"
  "0 \<le> t \<Longrightarrow> t < 2147483648 \<Longrightarrow> ber_ok (ber_oid t g)"
  by (simp_all add: ber_bits_def ber_bool_def ber_oid_def)

lemma ber_names_ok [simp]: "names_ok es \<Longrightarrow> ber_ok (ber_names es)"
  by (cases es rule: names_ok.cases) auto

lemma ber_others_ok [simp]:
  assumes "0 \<le> t" "t < 2147483648" "ois \<noteq> []" "\<forall>oi \<in> set ois. other_ok oi" shows "ber_ok (ber_others t ois)"
proof -
  have "ber_ok (ber_information i)" if "information_ok i" for i :: "'a information" using that by (cases i) simp_all
  then show ?thesis using assms by (auto simp: ber_others_def ber_other_def other_ok_def ber_category_def)
qed

lemma ber_search_ok: "search_ok sr \<Longrightarrow> 0 \<le> t \<Longrightarrow> t < 2147483648 \<Longrightarrow> ber_ok (ber_search t sr)"
  by (auto simp: ber_search_def search_ok_def ber_query_ok)

lemma ber_init_ok: "init_ok v \<Longrightarrow> 0 \<le> t \<Longrightarrow> t < 2147483648 \<Longrightarrow> ber_ok (ber_init t v)"
  by (auto simp: ber_init_def init_ok_def)

lemma ber_response_ok: "response_ok v \<Longrightarrow> 0 \<le> t \<Longrightarrow> t < 2147483648 \<Longrightarrow> ber_ok (ber_response t v)"
  by (auto simp: ber_response_def response_ok_def)

definition given :: "('a \<Rightarrow> bool) \<Rightarrow> 'a option \<Rightarrow> bool" where
  "given ok p = (case p of None \<Rightarrow> False | Some v \<Rightarrow> ok v)"

lemma given_Some: "given ok p \<longleftrightarrow> (\<exists>v. p = Some v \<and> ok v)"
  by (cases p) (simp_all add: given_def)

text \<open>The tags of the three requests in a PDU.\<close>

interpretation search_wire: wire_type "given search_ok" "\<lambda>p. ber_search 22 (the p)"
    "EncodeSearchRequest cd BER_CONTEXT CONSTRUCTED 22" "DecodeSearchRequest cd" for cd :: "'x codec"
  by unfold_locales (auto simp: given_Some intro: search_encodes search_decodes ber_search_ok)

interpretation init_wire: wire_type "given init_ok" "\<lambda>p. ber_init 20 (the p)"
    "EncodeInitializeRequest cd BER_CONTEXT CONSTRUCTED 20" "DecodeInitializeRequest cd" for cd :: "'x codec"
  by unfold_locales (auto simp: given_Some intro: init_encodes init_decodes ber_init_ok)

interpretation response_wire: wire_type "given response_ok" "\<lambda>p. ber_response 21 (the p)"
    "EncodeInitializeResponse cd BER_CONTEXT CONSTRUCTED 21" "DecodeInitializeResponse cd" for cd :: "'x codec"
  by unfold_locales (auto simp: given_Some intro: response_encodes response_decodes ber_response_ok)

text \<open>
  C35: a search request sent as \<open>EncodeSearchRequest\<close> builds it and read with \<open>GetPDUFromStream\<close> and \<open>DecodeSearchRequest\<close> is the
  same request: every optional field that was set and none that was not, the list of databases in its order, the query and
  the additional information, however the octets are cut up on the way; what follows it on the connection is left there.
\<close>

theorem search_request_over_connection:
  assumes "given search_ok p" "length (ber_octets (ber_search 22 (the p))) \<le> dbuf_capacity" "sock_valid s" "stream_ready s"
    and "sock_octets s = sent_octets (EncodeSearchRequest cd BER_CONTEXT CONSTRUCTED 22 p) @ rest"
  shows "\<exists>m k s'. GetPDUFromStream Z_SERVER s z secs = Some (Some m, k, s') \<and> DecodeSearchRequest cd m = zret p \<and> sock_octets s' = rest"
  using search_wire.arrives [OF assms] .

definition sample_search :: "unit search_request option" where
  "sample_search = Some \<lparr>sr_referenceId = Some (c_str [114]), sr_smallSetUpperBound = 0, sr_largeSetLowerBound = 1, sr_mediumSetPresentNumber = 300,
     sr_replaceIndicator = 1, sr_resultSetName = Some (c_str [65]), sr_databaseNames = [Some (c_str [98]), Some (c_str [99])],
     sr_smallSetElementSetNames = None, sr_mediumSetElementSetNames = Some (ES_generic (Some (c_str [70]))), sr_preferredRecordSyntax = None,
     sr_query = sample_query, sr_additionalSearchInfo = [], sr_otherInfo = []\<rparr>"

lemma sample_search_ok: "given search_ok sample_search"
  by (simp add: sample_search_def given_def search_ok_def sample_query_ok int_ok_def is_c_int_def bool_ok_def opt_str_ok_def opt_oid_ok_def
      str_ok_def c_str_def dbuf_capacity_def)

definition sample_search_ber :: ber where
  "sample_search_ber = Ber_cons 2 22 [Ber_prim 2 2 [114], Ber_prim 2 13 [0], Ber_prim 2 14 [1], Ber_prim 2 15 [1, 44], Ber_prim 2 16 [1],
     Ber_prim 2 17 [65], Ber_cons 2 18 [Ber_prim 2 105 [98], Ber_prim 2 105 [99]], Ber_cons 2 101 [Ber_prim 2 0 [70]],
     Ber_cons 2 21 [sample_query_ber]]"

lemma sample_search_value: "ber_search 22 (the sample_search) = sample_search_ber"
proof -
  have "int_contents 0 = [0]" "int_contents 1 = [1]" "int_contents 300 = [1, 44]" by code_simp+
  then show ?thesis
    by (simp add: sample_search_def sample_search_ber_def ber_search_def sample_query_value ber_int_def ber_bool_def ber_str_def str_octets_def c_str_def)
qed

definition sample_search_octets :: "octet list" where
  "sample_search_octets = [182, 85, 130, 1, 114, 141, 1, 0, 142, 1, 1, 143, 2, 1, 44, 144, 1, 1, 145,
  1, 65, 178, 8, 159, 105, 1, 98, 159, 105, 1, 99, 191, 101, 3, 128, 1, 70,
  181, 48, 161, 46, 6, 7, 42, 134, 72, 206, 19, 3, 1, 161, 35, 160, 22, 191,
  102, 19, 191, 44, 10, 48, 8, 159, 120, 1, 1, 159, 121, 1, 4, 159, 45, 3,
  99, 97, 116, 160, 4, 159, 31, 1, 65, 191, 46, 2, 130, 0]"

lemma sample_search_written: "ber_octets (ber_search 22 (the sample_search)) = sample_search_octets"
  unfolding sample_search_value by code_simp

text \<open>The octets arrive in two pieces, with an interrupted call between them, and an octet of the next request behind.\<close>

definition in_pieces :: "nat \<Rightarrow> octet list \<Rightarrow> sock" where
  "in_pieces n os = \<lparr>incoming = [Data (take n os), Failed EINTR, Data (drop n os), Data [48], Failed 104],
     outgoing = [], sent = [], errno = 0, is_open = True, selects = [1, 1]\<rparr>"

lemma in_pieces_ready:
  assumes "os = a # b # c # d" shows "sock_valid (in_pieces 2 os)" "stream_ready (in_pieces 2 os)" "sock_octets (in_pieces 2 os) = os @ [48]"
  by (simp_all add: assms in_pieces_def sock_valid_def stream_ready_def sock_octets_def EINTR_def)

theorem search_request_over_connection_witness:
  "\<exists>m k s'. GetPDUFromStream Z_SERVER (in_pieces 2 sample_search_octets) 0 60 = Some (Some m, k, s')
     \<and> DecodeSearchRequest sample_codec m = zret sample_search \<and> sock_octets s' = [48]"
proof (rule search_request_over_connection [OF sample_search_ok])
  show len: "length (ber_octets (ber_search 22 (the sample_search))) \<le> dbuf_capacity"
    unfolding sample_search_written by (simp add: sample_search_octets_def dbuf_capacity_def)
  show "sock_octets (in_pieces 2 sample_search_octets)
      = sent_octets (EncodeSearchRequest sample_codec BER_CONTEXT CONSTRUCTED 22 sample_search) @ [48]"
    unfolding search_wire.sent [OF sample_search_ok len] sample_search_written by (rule in_pieces_ready) (rule sample_search_octets_def)
qed (simp_all add: in_pieces_ready [OF sample_search_octets_def])

text \<open>
  The same for the request that opens a session, with its bit strings of versions and options, when it has neither an
  \<open>idAuthentication\<close> nor user information.
\<close>

theorem init_request_over_connection:
  assumes "given init_ok p" "length (ber_octets (ber_init 20 (the p))) \<le> dbuf_capacity" "sock_valid s" "stream_ready s"
    and "sock_octets s = sent_octets (EncodeInitializeRequest cd BER_CONTEXT CONSTRUCTED 20 p) @ rest"
  shows "\<exists>m k s'. GetPDUFromStream Z_SERVER s z secs = Some (Some m, k, s') \<and> DecodeInitializeRequest cd m = zret p \<and> sock_octets s' = rest"
  using init_wire.arrives [OF assms] .

definition sample_init :: "unit init_request option" where
  "sample_init = Some \<lparr>ir_referenceId = None, ir_protocolVersion = Some (c_str [49, 49, 49]), ir_options = Some (c_str [49, 49, 48]),
     ir_preferredMessageSize = 16384, ir_exceptionalRecordSize = 16384, ir_idAuthentication = None, ir_implementationId = Some (c_str [57]),
     ir_implementationName = None, ir_implementationVersion = None, ir_userInformationField = None,
     ir_otherInfo = [\<lparr>oi_category = None, oi_information = I_characterInfo (Some (c_str [120]))\<rparr>]\<rparr>"

lemma sample_init_ok: "given init_ok sample_init"
  by (simp add: sample_init_def given_def init_ok_def bits_ok_def bit_char_def int_ok_def is_c_int_def opt_str_ok_def str_octets_def
      str_ok_def c_str_def dbuf_capacity_def other_ok_def)

definition sample_init_ber :: ber where
  "sample_init_ber = Ber_cons 2 20 [Ber_prim 2 3 [5, 224], Ber_prim 2 4 [5, 192], Ber_prim 2 5 [64, 0], Ber_prim 2 6 [64, 0],
     Ber_prim 2 110 [57], Ber_cons 2 201 [Ber_cons 0 16 [Ber_prim 2 2 [120]]]]"

lemma sample_init_value: "ber_init 20 (the sample_init) = sample_init_ber"
proof -
  have "int_contents 16384 = [64, 0]" "bit_contents [49, 49, 49] = [5, 224]" "bit_contents [49, 49, 48] = [5, 192]" by code_simp+
  then show ?thesis
    by (simp add: sample_init_def sample_init_ber_def ber_init_def ber_int_def ber_bits_def ber_str_def ber_others_def ber_other_def
        str_octets_def c_str_def)
qed

definition sample_init_octets :: "octet list" where
  "sample_init_octets = [180, 29, 131, 2, 5, 224, 132, 2, 5, 192, 133, 2, 64, 0, 134, 2, 64, 0,
  159, 110, 1, 57, 191, 129, 73, 5, 48, 3, 130, 1, 120]"

lemma sample_init_written: "ber_octets (ber_init 20 (the sample_init)) = sample_init_octets"
  unfolding sample_init_value by code_simp

theorem init_request_over_connection_witness:
  "\<exists>m k s'. GetPDUFromStream Z_SERVER (in_pieces 2 sample_init_octets) 0 60 = Some (Some m, k, s')
     \<and> DecodeInitializeRequest sample_codec m = zret sample_init \<and> sock_octets s' = [48]"
proof (rule init_request_over_connection [OF sample_init_ok])
  show len: "length (ber_octets (ber_init 20 (the sample_init))) \<le> dbuf_capacity"
    unfolding sample_init_written by (simp add: sample_init_octets_def dbuf_capacity_def)
  show "sock_octets (in_pieces 2 sample_init_octets)
      = sent_octets (EncodeInitializeRequest sample_codec BER_CONTEXT CONSTRUCTED 20 sample_init) @ [48]"
    unfolding init_wire.sent [OF sample_init_ok len] sample_init_written by (rule in_pieces_ready) (rule sample_init_octets_def)
qed (simp_all add: in_pieces_ready [OF sample_init_octets_def])

end
