(* ===== verification/Posting_Index.thy ===== *)
theory Posting_Index
  imports Bitmap_Index C_String
begin

text \<open>
  Inverted files: the routines of \<open>src/index/in_kwadd.c\<close> and \<open>src/index/in_kwdel.c\<close> that put the words of a record
  into the indexes of its file and take them out again, on the structures \<open>idx_result\<close> and \<open>prox_idx_pos_key\<close> of
  \<open>src/header/cheshire.h\<close> and \<open>HT_DATA\<close> of \<open>src/header/ht_info.h\<close>.

  An index file is a map from words to items and the file of positions a map from pairs of a term number and a record number to lists. As in
  \<open>Bitmap_Index\<close>, \<open>get\<close> returns what \<open>put\<close> stored last and the error codes of Berkeley DB on which the program gives up are not
  modelled. An item has as many places for postings as its size allows, of which the first \<open>num_entries\<close> are in use.
  Counters are integers that do not overflow, and no two indexes share a file. The words of a record are
  extracted by \<open>in_extract\<close>, a parameter, which gives the hash table as the list of its entries in the order of enumeration.
\<close>

section \<open>Items\<close>

record posting =
  po_record_no :: int
  po_term_freq :: int

record idx_result =
  ix_termid :: int
  ix_num_entries :: int
  ix_tot_freq :: int
  ix_entries :: "posting list"

record ht_data =
  ht_termfreq :: int
  ht_pos :: "int list"

record posting_index =
  pi_terms :: "string \<Rightarrow> idx_result option"
  pi_prox :: "int \<times> int \<Rightarrow> int list option"
  pi_recptr :: int
  pi_tot_occur :: int
  pi_tot_numrecs :: int

text \<open>An entry of the configuration: the type bits \<open>PROXIMITY\<close> and \<open>EXTERNKEY\<close>, and the files, the last the text of the
  temporary file of a batch run.\<close>

datatype index_data = Postings posting_index | Bitmaps bitmap_index

record kw_idx =
  kx_proximity :: bool
  kx_externkey :: bool
  kx_prox_open :: bool
  kx_data :: index_data
  kx_outfile :: string

section \<open>Adding a posting\<close>

text \<open>An item with a further place, one entry more, and the posting in the last place in use.\<close>

definition push_posting :: "posting \<Rightarrow> idx_result \<Rightarrow> int \<Rightarrow> int \<Rightarrow> idx_result run" where
  "push_posting place info recnum freq =
     (let n = ix_num_entries info + 1; es = ix_entries info @ [place]
      in if 0 < n \<and> n \<le> int (length es)
         then Done (info\<lparr>ix_tot_freq := ix_tot_freq info + freq, ix_num_entries := n,
                ix_entries := es[nat (n - 1) := \<lparr>po_record_no = recnum, po_term_freq = freq\<rparr>]\<rparr>)
         else Crash)"

definition empty_place :: posting where
  "empty_place = \<lparr>po_record_no = 0, po_term_freq = 0\<rparr>"

definition new_item :: "int \<Rightarrow> int \<Rightarrow> int \<Rightarrow> idx_result" where
  "new_item tid recnum freq =
     \<lparr>ix_termid = tid, ix_num_entries = 1, ix_tot_freq = freq, ix_entries = [\<lparr>po_record_no = recnum, po_term_freq = freq\<rparr>]\<rparr>"

text \<open>
  The positions of a word in a record, \<open>room\<close> of them expected. They are stored without the terminating null
  that the branch for an existing item takes the last one to be.
\<close>

definition put_positions :: "bool \<Rightarrow> posting_index \<Rightarrow> int \<Rightarrow> int \<Rightarrow> int \<Rightarrow> int list \<Rightarrow> posting_index run" where
  "put_positions prox_open idx recnum tid room pos =
     (if \<not> prox_open then Done idx
      else case pi_prox idx (tid, recnum) of
        Some old \<Rightarrow>
          if old = [] \<or> int (length pos) > room + 1 then Crash
          else Done (idx\<lparr>pi_prox := (pi_prox idx)((tid, recnum) := Some (butlast old @ pos))\<rparr>)
      | None \<Rightarrow>
          if int (length pos) > room + 1 then Crash
          else Done (idx\<lparr>pi_prox := (pi_prox idx)((tid, recnum) := Some pos)\<rparr>))"

definition PutPositionInfo :: "bool \<Rightarrow> posting_index \<Rightarrow> int \<Rightarrow> int \<Rightarrow> ht_data \<Rightarrow> posting_index run" where
  "PutPositionInfo prox_open idx recnum tid ht = put_positions prox_open idx recnum tid (ht_termfreq ht) (ht_pos ht)"

definition PutPositionInfoArray :: "bool \<Rightarrow> posting_index \<Rightarrow> int \<Rightarrow> int \<Rightarrow> int \<Rightarrow> int list \<Rightarrow> posting_index run" where
  "PutPositionInfoArray prox_open idx recnum tid numprox proxdata =
     (if int (length proxdata) < numprox then Crash
      else put_positions prox_open idx recnum tid numprox (take (nat numprox) proxdata))"

definition add_term :: "bool \<Rightarrow> bool \<Rightarrow> posting_index \<Rightarrow> int \<Rightarrow> string \<Rightarrow> ht_data \<Rightarrow> posting_index run" where
  "add_term proximity prox_open idx recnum word ht =
     (case pi_terms idx word of
        Some info \<Rightarrow>
          run_bind (push_posting empty_place info recnum (ht_termfreq ht)) (\<lambda>newinfo.
            let idx1 = idx\<lparr>pi_terms := (pi_terms idx)(word := Some newinfo), pi_tot_occur := pi_tot_occur idx + ht_termfreq ht\<rparr>
            in if proximity then PutPositionInfo prox_open idx1 recnum (ix_termid newinfo) ht else Done idx1)
      | None \<Rightarrow>
          let tempinfo = new_item (pi_recptr idx) recnum (ht_termfreq ht);
              idx1 = idx\<lparr>pi_terms := (pi_terms idx)(word := Some tempinfo), pi_recptr := pi_recptr idx + 1,
                pi_tot_occur := pi_tot_occur idx + ht_termfreq ht\<rparr>
          in if proximity then PutPositionInfo prox_open idx1 recnum (ix_termid tempinfo) ht else Done idx1)"

text \<open>The loop over the words of a record: the index, \<open>items_output\<close> and \<open>total_docsize\<close>.\<close>

fun add_words :: "kw_idx \<Rightarrow> int \<Rightarrow> (string \<times> ht_data) list \<Rightarrow> int \<times> int \<Rightarrow> (kw_idx \<times> int \<times> int) run" where
  "add_words idx recnum [] (items, docsize) = Done (idx, items, docsize)"
| "add_words idx recnum ((word, ht) # rest) (items, docsize) =
     (let docsize1 = (if kx_externkey idx then docsize + ht_termfreq ht else docsize)
      in run_bind
        (case kx_data idx of
           Bitmaps b \<Rightarrow> run_bind (in_add_bitmap_entry b recnum word None 1) (\<lambda>b1. Done (idx\<lparr>kx_data := Bitmaps b1\<rparr>, items))
         | Postings p \<Rightarrow> run_bind (add_term (kx_proximity idx) (kx_prox_open idx) p recnum word ht)
             (\<lambda>p1. Done (idx\<lparr>kx_data := Postings p1\<rparr>, items + 1)))
        (\<lambda>(idx1, items1). if kx_proximity idx \<and> ht_pos ht = [] then Crash else add_words idx1 recnum rest (items1, docsize1)))"

text \<open>\<open>items_output\<close> stays 0 for a bitmap index, whose records are counted by \<open>in_add_bitmap_entry\<close>.\<close>

definition count_record :: "index_data \<Rightarrow> int \<Rightarrow> index_data" where
  "count_record d items =
     (if items = 0 then d
      else case d of Postings p \<Rightarrow> Postings (p\<lparr>pi_tot_numrecs := pi_tot_numrecs p + 1\<rparr>)
        | Bitmaps b \<Rightarrow> Bitmaps (b\<lparr>bi_tot_numrecs := bi_tot_numrecs b + 1\<rparr>))"

section \<open>Batch runs\<close>

text \<open>\<open>%012d\<close>, and the line for a word of a record; the character 1, which separates the positions, may not occur in the word.\<close>

definition pad_int :: "nat \<Rightarrow> int \<Rightarrow> string" where
  "pad_int n x =
     (let ds = nat_digits (nat \<bar>x\<bar>); s = (if x < 0 then 1 else 0)
      in (if x < 0 then ''-'' else []) @ replicate (n - s - length ds) CHR ''0'' @ ds)"

definition tab_char :: char where "tab_char = char_of (9::nat)"
definition newline :: char where "newline = char_of (10::nat)"
definition prox_mark :: char where "prox_mark = char_of (1::nat)"

definition batch_word :: "string \<Rightarrow> string" where
  "batch_word w = map (\<lambda>c. if c = prox_mark then CHR ''?'' else c) w"

definition batch_line :: "bool \<Rightarrow> int \<Rightarrow> string \<Rightarrow> ht_data \<Rightarrow> string" where
  "batch_line proximity recnum word ht =
     batch_word word @ [tab_char] @ pad_int 12 recnum @ [tab_char] @ print_int (ht_termfreq ht)
       @ (if proximity then prox_mark # concat (map (\<lambda>x. CHR '' '' # print_int x) (ht_pos ht)) else [])"

fun batch_words :: "kw_idx \<Rightarrow> int \<Rightarrow> (string \<times> ht_data) list \<Rightarrow> int \<Rightarrow> (kw_idx \<times> int) run" where
  "batch_words idx recnum [] docsize = Done (idx, docsize)"
| "batch_words idx recnum ((word, ht) # rest) docsize =
     (let docsize1 = (if kx_externkey idx then docsize + ht_termfreq ht else docsize);
          idx1 = idx\<lparr>kx_outfile := kx_outfile idx @ batch_line (kx_proximity idx) recnum word ht @ [newline]\<rparr>
      in if kx_proximity idx \<and> ht_pos ht = [] then Crash else batch_words idx1 recnum rest docsize1)"

section \<open>Deleting a posting\<close>

text \<open>The loop that closes the gap: once the record has been found every further entry moves down.\<close>

fun close_up :: "int \<Rightarrow> nat \<Rightarrow> nat \<Rightarrow> posting list \<Rightarrow> bool \<Rightarrow> (posting list \<times> bool) run" where
  "close_up recnum i 0 es found = Done (es, found)"
| "close_up recnum i (Suc left) es found =
     (if i < length es
      then let es1 = (if found then es[i - 1 := es ! i] else es)
           in close_up recnum (Suc i) left es1 (found \<or> po_record_no (es1 ! i) = recnum)
      else Crash)"

text \<open>
  One word of a record: the index and whether \<open>reduce_rec_count\<close> is set. The size of the item is never reduced, since the test
  \<open>idx->type & BITMAPPED_TYPE != BITMAPPED_TYPE\<close> is \<open>idx->type & 0\<close>.
\<close>

definition del_posting :: "posting_index \<Rightarrow> int \<Rightarrow> string \<Rightarrow> ht_data \<Rightarrow> (posting_index \<times> bool) run" where
  "del_posting p recnum word ht =
     (case pi_terms p word of
        None \<Rightarrow> Done (p, False)
      | Some info \<Rightarrow>
          if ix_num_entries info = 1 then Done (p\<lparr>pi_terms := (pi_terms p)(word := None)\<rparr>, False)
          else run_bind (close_up recnum 0 (nat (ix_num_entries info)) (ix_entries info @ [empty_place]) False) (\<lambda>(es, found).
            if found
            then Done (p\<lparr>pi_terms := (pi_terms p)(word := Some (info\<lparr>ix_tot_freq := ix_tot_freq info - ht_termfreq ht,
                     ix_num_entries := ix_num_entries info - 1, ix_entries := take (length (ix_entries info)) es\<rparr>)),
                   pi_tot_occur := pi_tot_occur p - ht_termfreq ht\<rparr>, True)
            else Done (p, False)))"

definition del_bitmap :: "bitmap_index \<Rightarrow> int \<Rightarrow> string \<Rightarrow> (bitmap_index \<times> bool) run" where
  "del_bitmap b recnum word =
     (case bi_terms b word of
        None \<Rightarrow> Done (b, False)
      | Some info \<Rightarrow>
          if ti_num_entries info = 1 then Done (b\<lparr>bi_terms := (bi_terms b)(word := None)\<rparr>, False)
          else run_bind (in_del_bitmap_entry b recnum (ti_termid info)) (\<lambda>b1.
            Done (b1\<lparr>bi_terms := (bi_terms b1)(word := Some (info\<lparr>ti_tot_freq := ti_tot_freq info - 1,
                     ti_num_entries := ti_num_entries info - 1\<rparr>)),
                   bi_tot_occur := bi_tot_occur b1 - 1\<rparr>, True)))"

definition del_word :: "index_data \<Rightarrow> int \<Rightarrow> string \<Rightarrow> ht_data \<Rightarrow> (index_data \<times> bool) run" where
  "del_word d recnum word ht =
     (case d of
        Postings p \<Rightarrow> run_bind (del_posting p recnum word ht) (\<lambda>(p1, found). Done (Postings p1, found))
      | Bitmaps b \<Rightarrow> run_bind (del_bitmap b recnum word) (\<lambda>(b1, found). Done (Bitmaps b1, found)))"

fun del_words :: "index_data \<Rightarrow> int \<Rightarrow> (string \<times> ht_data) list \<Rightarrow> bool \<Rightarrow> (index_data \<times> bool) run" where
  "del_words d recnum [] reduce = Done (d, reduce)"
| "del_words d recnum ((word, ht) # rest) reduce =
     run_bind (del_word d recnum word ht) (\<lambda>(d1, found). del_words d1 recnum rest (reduce \<or> found))"

definition uncount_record :: "index_data \<Rightarrow> bool \<Rightarrow> index_data" where
  "uncount_record d reduce =
     (if reduce
      then case d of Postings p \<Rightarrow> Postings (p\<lparr>pi_tot_numrecs := pi_tot_numrecs p - 1\<rparr>)
        | Bitmaps b \<Rightarrow> Bitmaps (b\<lparr>bi_tot_numrecs := bi_tot_numrecs b - 1\<rparr>)
      else d)"

section \<open>The indexes of a file\<close>

text \<open>What \<open>GetSGML\<close> reports of a record.\<close>

datatype sgml_state = Parsed | Parse_error | Deleted_record | Read_error

text \<open>
  The routines of other files, over the state \<open>'w\<close> of the record files and of the indexes they keep: \<open>GetSGML\<close>, \<open>in_extract\<close> for an index by
  its place in the configuration, \<open>fil_del\<close>, \<open>in_components\<close> and \<open>in_cluster\<close>, whose errors are only logged.
\<close>

record 'w kw_env =
  en_sgml :: "'w \<Rightarrow> int \<Rightarrow> sgml_state"
  en_extract :: "'w \<Rightarrow> nat \<Rightarrow> int \<Rightarrow> (string \<times> ht_data) list"
  en_fil_del :: "'w \<Rightarrow> int \<Rightarrow> 'w"
  en_components :: "'w \<Rightarrow> int \<Rightarrow> bool \<Rightarrow> 'w"
  en_cluster :: "'w \<Rightarrow> int \<Rightarrow> 'w"

text \<open>A file: its type, the place of the primary key and its bit \<open>PRIMARYREPLACE\<close>, the indexes, \<open>DOCSIZEFILE\<close>.\<close>

record 'w kw_file =
  kf_type :: int
  kf_primary :: "nat option"
  kf_replace :: bool
  kf_indexes :: "kw_idx list"
  kf_docsizes :: "int \<Rightarrow> int"
  kf_world :: 'w

text \<open>
  \<open>FILE_TYPE_SGMLFILE\<close>, \<open>FILE_TYPE_MARCFILE\<close>, \<open>FILE_TYPE_CLUSTER\<close>, \<open>FILE_TYPE_XML\<close>, \<open>FILE_TYPE_XML_NODTD\<close>, \<open>FILE_TYPE_SGML_DATASTORE\<close>,
  \<open>FILE_TYPE_MARC_DATASTORE\<close>, \<open>FILE_TYPE_XML_DATASTORE\<close>; \<open>in_kwdel\<close> also takes \<open>FILE_TYPE_CLUSTER_DATASTORE\<close>.
\<close>

definition kwadd_types :: "int list" where
  "kwadd_types = [0, 1, 3, 9, 11, 100, 101, 109]"

definition kwdel_types :: "int list" where
  "kwdel_types = [0, 1, 3, 9, 11, 100, 101, 103, 109]"

fun del_indexes :: "(nat \<Rightarrow> (string \<times> ht_data) list) \<Rightarrow> int \<Rightarrow> nat \<Rightarrow> kw_idx list \<Rightarrow> kw_idx list run" where
  "del_indexes ext recnum k [] = Done []"
| "del_indexes ext recnum k (idx # rest) =
     run_bind (del_words (kx_data idx) recnum (ext k) False) (\<lambda>(d, reduce).
       run_bind (del_indexes ext recnum (Suc k) rest) (\<lambda>rest1. Done (idx\<lparr>kx_data := uncount_record d reduce\<rparr> # rest1)))"

definition in_kwdel :: "'w kw_env \<Rightarrow> 'w kw_file \<Rightarrow> int \<Rightarrow> (int \<times> 'w kw_file) run" where
  "in_kwdel en f recnum =
     (if kf_type f \<notin> set kwdel_types then Done (- 3, f)
      else case en_sgml en (kf_world f) recnum of
        Parse_error \<Rightarrow> Done (- 2, f)
      | Deleted_record \<Rightarrow> Done (1, f)
      | Read_error \<Rightarrow> Done (- 1, f)
      | Parsed \<Rightarrow> run_bind (del_indexes (\<lambda>k. en_extract en (kf_world f) k recnum) recnum 0 (kf_indexes f))
          (\<lambda>ids. Done (1, f\<lparr>kf_indexes := ids\<rparr>)))"

text \<open>
  The primary key of a record, outside a batch run: \<open>Some\<close> is the code with which \<open>in_kwadd\<close> returns at once. An item is known by its number of
  entries and its first record.
\<close>

definition primary_item :: "index_data \<Rightarrow> string \<Rightarrow> (int \<times> int) option" where
  "primary_item d word = (case d of
       Postings p \<Rightarrow> map_option (\<lambda>info. (ix_num_entries info, po_record_no (hd (ix_entries info)))) (pi_terms p word)
     | Bitmaps b \<Rightarrow> map_option (\<lambda>info. (ti_num_entries info, ti_record_no info)) (bi_terms b word))"

fun primary_words :: "'w kw_env \<Rightarrow> 'w kw_file \<Rightarrow> int \<Rightarrow> nat \<Rightarrow> (string \<times> ht_data) list \<Rightarrow> (int option \<times> 'w kw_file) run" where
  "primary_words en f recnum k [] = Done (None, f)"
| "primary_words en f recnum k ((word, ht) # rest) =
     (case primary_item (kx_data (kf_indexes f ! k)) word of
        None \<Rightarrow> primary_words en f recnum k rest
      | Some (n, old_record) \<Rightarrow>
          if \<not> kf_replace f then Done (Some 1, f)
          else if n \<noteq> 1 then primary_words en f recnum k rest
          else if recnum < old_record then Done (Some 0, f)
          else run_bind (in_kwdel en f old_record) (\<lambda>(_, f1).
            primary_words en (f1\<lparr>kf_world := en_fil_del en (kf_world f1) old_record\<rparr>) recnum k rest))"

text \<open>The loop over the indexes, with \<open>total_docsize\<close>.\<close>

fun add_indexes :: "(nat \<Rightarrow> (string \<times> ht_data) list) \<Rightarrow> int \<Rightarrow> bool \<Rightarrow> nat \<Rightarrow> kw_idx list \<Rightarrow> int \<Rightarrow> (kw_idx list \<times> int) run" where
  "add_indexes ext recnum batch k [] docsize = Done ([], docsize)"
| "add_indexes ext recnum batch k (idx # rest) docsize =
     run_bind
       (if batch then run_bind (batch_words idx recnum (ext k) docsize) (\<lambda>(idx1, docsize1). Done (idx1, 0, docsize1))
        else add_words idx recnum (ext k) (0, docsize))
       (\<lambda>(idx1, items, docsize1). run_bind (add_indexes ext recnum batch (Suc k) rest docsize1) (\<lambda>(rest1, docsize2).
          Done (idx1\<lparr>kx_data := count_record (kx_data idx1) items\<rparr> # rest1, docsize2)))"

definition in_kwadd :: "'w kw_env \<Rightarrow> 'w kw_file \<Rightarrow> int \<Rightarrow> bool \<Rightarrow> (int \<times> 'w kw_file) run" where
  "in_kwadd en f recnum batch =
     (if kf_type f \<notin> set kwadd_types then Done (- 3, f)
      else case en_sgml en (kf_world f) recnum of
        Parse_error \<Rightarrow> Done (- 2, f)
      | Deleted_record \<Rightarrow> Done (1, f)
      | Read_error \<Rightarrow> Done (- 1, f)
      | Parsed \<Rightarrow>
          let ext = (\<lambda>k. en_extract en (kf_world f) k recnum)
          in run_bind (case kf_primary f of
                 None \<Rightarrow> Done (None, f)
               | Some k \<Rightarrow> if batch then Done (None, f) else primary_words en f recnum k (ext k))
             (\<lambda>(code, f1). case code of
                 Some c \<Rightarrow> Done (c, f1)
               | None \<Rightarrow> run_bind (add_indexes ext recnum batch 0 (kf_indexes f1) 0) (\<lambda>(ids, docsize).
                   Done (1, f1\<lparr>kf_indexes := ids,
                     kf_docsizes := (if docsize > 0 then (kf_docsizes f1)(recnum := docsize) else kf_docsizes f1),
                     kf_world := en_cluster en (en_components en (kf_world f1) recnum batch) recnum\<rparr>))))"

section \<open>What an index says\<close>

definition item_postings :: "idx_result \<Rightarrow> posting list" where
  "item_postings info = take (nat (ix_num_entries info)) (ix_entries info)"

definition postings :: "posting_index \<Rightarrow> string \<Rightarrow> posting list" where
  "postings p w = (case pi_terms p w of None \<Rightarrow> [] | Some info \<Rightarrow> item_postings info)"

definition item_ok :: "idx_result \<Rightarrow> bool" where
  "item_ok info \<longleftrightarrow> 1 \<le> ix_num_entries info \<and> ix_num_entries info \<le> int (length (ix_entries info))
     \<and> ix_tot_freq info = sum_list (map po_term_freq (item_postings info)) \<and> distinct (map po_record_no (item_postings info))"

definition posting_ok :: "posting_index \<Rightarrow> bool" where
  "posting_ok p \<longleftrightarrow>
     (\<forall>w info. pi_terms p w = Some info \<longrightarrow> item_ok info \<and> ix_termid info < pi_recptr p)
     \<and> (\<forall>v w s t. pi_terms p v = Some s \<longrightarrow> pi_terms p w = Some t \<longrightarrow> ix_termid s = ix_termid t \<longrightarrow> v = w)
     \<and> (\<forall>t r pos. pi_prox p (t, r) = Some pos \<longrightarrow> pos \<noteq> [] \<and> t < pi_recptr p)"

text \<open>A bitmap index whose counters are right.\<close>

definition bitmap_ok :: "bitmap_index \<Rightarrow> bool" where
  "bitmap_ok b \<longleftrightarrow> index_ok b
     \<and> (\<forall>w t. bi_terms b w = Some t \<longrightarrow> finite (word_records b w) \<and> ti_num_entries t = int (card (word_records b w)))"

lemma postings_ok:
  assumes "posting_ok p" "pi_terms p w = Some info"
  shows "item_ok info" "ix_termid info < pi_recptr p" "postings p w = item_postings info"
  using assms by (auto simp: posting_ok_def postings_def)

lemma length_item_postings: "item_ok info \<Longrightarrow> int (length (item_postings info)) = ix_num_entries info"
  by (auto simp: item_ok_def item_postings_def min_def)

lemma push_posting_item:
  assumes "item_ok info" "r \<notin> po_record_no ` set (item_postings info)"
  shows "\<exists>new. push_posting place info r freq = Done new \<and> item_ok new \<and> ix_termid new = ix_termid info
    \<and> item_postings new = item_postings info @ [\<lparr>po_record_no = r, po_term_freq = freq\<rparr>]"
proof -
  let ?n = "nat (ix_num_entries info)" and ?es = "ix_entries info @ [place]" and ?e = "\<lparr>po_record_no = r, po_term_freq = freq\<rparr>"
  have n: "1 \<le> ix_num_entries info" "?n \<le> length (ix_entries info)" "nat (ix_num_entries info + 1) = Suc ?n"
    using assms(1) by (auto simp: item_ok_def)
  have t: "take (Suc ?n) (?es[?n := ?e]) = item_postings info @ [?e]"
    using n by (simp add: take_Suc_conv_app_nth item_postings_def)
  let ?new = "info\<lparr>ix_tot_freq := ix_tot_freq info + freq, ix_num_entries := ix_num_entries info + 1, ix_entries := ?es[?n := ?e]\<rparr>"
  have p: "item_postings ?new = item_postings info @ [?e]"
    using t n(3) by (simp add: item_postings_def)
  have "push_posting place info r freq = Done ?new"
    using n by (simp add: push_posting_def Let_def)
  moreover have "item_ok ?new"
    using assms n p unfolding item_ok_def by (auto simp: p)
  ultimately show ?thesis using p by simp
qed

lemma new_item_facts [simp]:
  "item_ok (new_item tid r freq)" "ix_termid (new_item tid r freq) = tid"
  "item_postings (new_item tid r freq) = [\<lparr>po_record_no = r, po_term_freq = freq\<rparr>]"
  by (simp_all add: item_ok_def new_item_def item_postings_def)

text \<open>What \<open>in_extract\<close> gives for a word: in an index with positions there are as many as the frequency says.\<close>

definition ht_ok :: "bool \<Rightarrow> ht_data \<Rightarrow> bool" where
  "ht_ok proximity ht \<longleftrightarrow> 0 < ht_termfreq ht \<and> (proximity \<longrightarrow> int (length (ht_pos ht)) = ht_termfreq ht)"

lemma put_positions_keeps:
  assumes "posting_ok p" "tid < pi_recptr p" "int (length pos) \<le> room + 1" "pos \<noteq> []"
  shows "\<exists>p'. put_positions prox_open p r tid room pos = Done p' \<and> posting_ok p' \<and> pi_terms p' = pi_terms p \<and> pi_recptr p' = pi_recptr p"
  using assms by (auto simp: put_positions_def posting_ok_def split: option.splits)

lemma store_item_ok:
  assumes "posting_ok p" "item_ok info" "ix_termid info < n" "pi_recptr p \<le> n"
    and "\<And>v t. v \<noteq> w \<Longrightarrow> pi_terms p v = Some t \<Longrightarrow> ix_termid t \<noteq> ix_termid info"
  shows "posting_ok (p\<lparr>pi_terms := (pi_terms p)(w := Some info), pi_recptr := n, pi_tot_occur := c\<rparr>)"
  using assms unfolding posting_ok_def by (fastforce split: if_splits)

lemma replace_item_ok:
  assumes "posting_ok p" "pi_terms p w = Some old" "item_ok info" "ix_termid info = ix_termid old"
  shows "posting_ok (p\<lparr>pi_terms := (pi_terms p)(w := Some info), pi_tot_occur := c\<rparr>)"
proof -
  have other: "ix_termid t \<noteq> ix_termid info" if "v \<noteq> w" "pi_terms p v = Some t" for v t
    using assms(1,2,4) that unfolding posting_ok_def by metis
  have "posting_ok (p\<lparr>pi_terms := (pi_terms p)(w := Some info), pi_recptr := pi_recptr p, pi_tot_occur := c\<rparr>)"
    by (rule store_item_ok [OF assms(1,3) _ order_refl other]) (use postings_ok(2) [OF assms(1,2)] assms(4) in simp_all)
  moreover have "p\<lparr>pi_terms := ts, pi_recptr := pi_recptr p, pi_tot_occur := c\<rparr> = p\<lparr>pi_terms := ts, pi_tot_occur := c\<rparr>" for ts
    by (cases p) simp
  ultimately show ?thesis by simp
qed

lemma add_term_adds:
  assumes "posting_ok p" "r \<notin> po_record_no ` set (postings p w)" "ht_ok proximity ht"
  shows "\<exists>p'. add_term proximity prox_open p r w ht = Done p' \<and> posting_ok p'
    \<and> postings p' = (postings p)(w := postings p w @ [\<lparr>po_record_no = r, po_term_freq = ht_termfreq ht\<rparr>])"
proof -
  let ?e = "\<lparr>po_record_no = r, po_term_freq = ht_termfreq ht\<rparr>"
  obtain info n where info: "item_ok info" "ix_termid info < n" "pi_recptr p \<le> n" "item_postings info = postings p w @ [?e]"
    "\<And>v t. v \<noteq> w \<Longrightarrow> pi_terms p v = Some t \<Longrightarrow> ix_termid t \<noteq> ix_termid info"
    and run: "add_term proximity prox_open p r w ht =
      (let idx1 = p\<lparr>pi_terms := (pi_terms p)(w := Some info), pi_recptr := n, pi_tot_occur := pi_tot_occur p + ht_termfreq ht\<rparr>
       in if proximity then PutPositionInfo prox_open idx1 r (ix_termid info) ht else Done idx1)"
  proof (cases "pi_terms p w")
    case None
    show ?thesis
      by (rule that [of "new_item (pi_recptr p) r (ht_termfreq ht)" "pi_recptr p + 1"])
         (use None assms(1) in \<open>auto simp: postings_def add_term_def Let_def dest: postings_ok(2)\<close>)
  next
    case (Some old)
    note o = postings_ok [OF assms(1) Some]
    obtain new where new: "push_posting empty_place old r (ht_termfreq ht) = Done new" "item_ok new" "ix_termid new = ix_termid old"
      "item_postings new = item_postings old @ [?e]"
      using push_posting_item [OF o(1), of r empty_place "ht_termfreq ht"] assms(2) o(3) by auto
    have other: "ix_termid t \<noteq> ix_termid new" if "v \<noteq> w" "pi_terms p v = Some t" for v t
      using assms(1) Some that new(3) unfolding posting_ok_def by metis
    show ?thesis
      by (rule that [of new "pi_recptr p", OF new(2)]) (use new o other Some in \<open>simp_all add: add_term_def Let_def\<close>)
  qed
  let ?p = "p\<lparr>pi_terms := (pi_terms p)(w := Some info), pi_recptr := n, pi_tot_occur := pi_tot_occur p + ht_termfreq ht\<rparr>"
  have ok: "posting_ok ?p" by (rule store_item_ok [OF assms(1) info(1-3,5)])
  have view: "postings q = (postings p)(w := postings p w @ [?e])" if "pi_terms q = pi_terms ?p" for q
    using that info(4) by (auto simp: postings_def fun_eq_iff)
  show ?thesis
  proof (cases proximity)
    case False
    then show ?thesis using run ok view by simp
  next
    case True
    then have "int (length (ht_pos ht)) \<le> ht_termfreq ht + 1" "ht_pos ht \<noteq> []" using assms(3) by (auto simp: ht_ok_def)
    then show ?thesis
      using put_positions_keeps [OF ok, of "ix_termid info" "ht_pos ht" "ht_termfreq ht" prox_open r] info(2) run True view
      by (auto simp: PutPositionInfo_def)
  qed
qed

text \<open>Once the record has been found the rest moves down by one place.\<close>

lemma close_up_found:
  "0 < length us \<Longrightarrow> close_up r (length us) (length vs) (us @ vs @ zs) True = Done (butlast us @ vs @ last (us @ vs) # zs, True)"
proof (induction vs arbitrary: us)
  case Nil
  then show ?case by (simp add: append_butlast_last_id)
next
  case (Cons v vs)
  have "(us @ (v # vs) @ zs)[length us - 1 := v] = (butlast us @ [v, v]) @ vs @ zs"
    using Cons.prems by (cases us rule: rev_cases) simp_all
  then show ?case using Cons.IH [of "butlast us @ [v, v]"] Cons.prems
    by (simp add: butlast_append nth_append)
qed

lemma close_up_search:
  assumes "\<forall>e \<in> set us. po_record_no e \<noteq> r" "po_record_no e = r"
  shows "close_up r (length xs) (length us + Suc (length vs)) (xs @ us @ e # vs @ zs) False
    = Done (xs @ us @ vs @ last (e # vs) # zs, True)"
  using assms(1)
proof (induction us arbitrary: xs)
  case Nil
  have "close_up r (length (xs @ [e])) (length vs) ((xs @ [e]) @ vs @ zs) True = Done (butlast (xs @ [e]) @ vs @ last ((xs @ [e]) @ vs) # zs, True)"
    by (rule close_up_found) simp
  then show ?case using assms(2) by simp
next
  case (Cons u us)
  have "close_up r (length (xs @ [u])) (length us + Suc (length vs)) ((xs @ [u]) @ us @ e # vs @ zs) False
    = Done ((xs @ [u]) @ us @ vs @ last (e # vs) # zs, True)"
    by (rule Cons.IH) (use Cons.prems in simp)
  then show ?case using Cons.prems by (simp add: nth_append)
qed

lemma del_posting_removes:
  assumes "posting_ok p" "\<lparr>po_record_no = r, po_term_freq = ht_termfreq ht\<rparr> \<in> set (postings p w)"
  shows "\<exists>p' found. del_posting p r w ht = Done (p', found) \<and> posting_ok p'
    \<and> postings p' = (postings p)(w := filter (\<lambda>e. po_record_no e \<noteq> r) (postings p w))"
proof -
  let ?e = "\<lparr>po_record_no = r, po_term_freq = ht_termfreq ht\<rparr>"
  obtain info where info: "pi_terms p w = Some info" using assms(2) by (cases "pi_terms p w") (auto simp: postings_def)
  note o = postings_ok [OF assms(1) info]
  have dist: "distinct (map po_record_no (item_postings info))" using o(1) by (simp add: item_ok_def)
  obtain us vs where s: "item_postings info = us @ ?e # vs"
    using assms(2) o(3) by (metis in_set_conv_decomp)
  have us: "\<forall>e \<in> set us. po_record_no e \<noteq> r" "\<forall>e \<in> set vs. po_record_no e \<noteq> r" using dist s by auto
  have f: "filter (\<lambda>e. po_record_no e \<noteq> r) (postings p w) = us @ vs" using us s o(3) by (simp add: filter_id_conv)
  show ?thesis
  proof (cases "ix_num_entries info = 1")
    case True
    then have "int (length (us @ ?e # vs)) = 1" using length_item_postings [OF o(1)] unfolding s by simp
    then have "us = [] \<and> vs = []" by (cases us; cases vs) simp_all
    moreover have "posting_ok (p\<lparr>pi_terms := (pi_terms p)(w := None)\<rparr>)"
      using assms(1) unfolding posting_ok_def by (auto split: if_splits)
    ultimately show ?thesis using info True f by (auto simp: del_posting_def postings_def fun_eq_iff)
  next
    case False
    define zs where "zs = drop (nat (ix_num_entries info)) (ix_entries info)"
    let ?n = "nat (ix_num_entries info)" and ?es = "us @ vs @ last (?e # vs) # zs @ [empty_place]"
    have es: "ix_entries info = us @ ?e # vs @ zs"
      using s append_take_drop_id [of ?n "ix_entries info"] by (simp add: item_postings_def zs_def)
    have n: "?n = length us + Suc (length vs)" using length_item_postings [OF o(1)] s by simp
    have run: "close_up r 0 ?n (ix_entries info @ [empty_place]) False = Done (?es, True)"
      using close_up_search [OF us(1), of ?e "[]" vs "zs @ [empty_place]"] es n by simp
    let ?new = "info\<lparr>ix_tot_freq := ix_tot_freq info - ht_termfreq ht, ix_num_entries := ix_num_entries info - 1,
      ix_entries := take (length (ix_entries info)) ?es\<rparr>"
    let ?p = "p\<lparr>pi_terms := (pi_terms p)(w := Some ?new), pi_tot_occur := pi_tot_occur p - ht_termfreq ht\<rparr>"
    have t: "take (length (ix_entries info)) ?es = us @ vs @ last (?e # vs) # zs" using es by simp
    have pos: "item_postings ?new = us @ vs"
    proof -
      have "nat (ix_num_entries info - 1) = length (us @ vs)" using n by simp
      then show ?thesis unfolding item_postings_def t by (simp add: t)
    qed
    have "item_ok ?new"
      using o(1) False dist s n es unfolding item_ok_def pos by (simp add: t)
    then have ok: "posting_ok ?p"
      by (intro replace_item_ok [OF assms(1) info]) simp_all
    have run_del: "del_posting p r w ht = Done (?p, True)"
      using info False run by (simp add: del_posting_def)
    have "postings ?p = (postings p)(w := us @ vs)"
      using pos by (auto simp: postings_def fun_eq_iff)
    then show ?thesis using run_del ok f by auto
  qed
qed

text \<open>The same for a bitmap index: the number of entries is the number of records.\<close>

lemma in_add_counts:
  assumes "in_add_bitmap_entry b r w block n = Done b'"
  shows "\<exists>info. bi_terms b' = (bi_terms b)(w := Some info)
    \<and> ti_num_entries info = (case bi_terms b w of None \<Rightarrow> n | Some old \<Rightarrow> ti_num_entries old + n)"
proof -
  obtain b1 info where i: "add_term_info b r w n = (b1, info)" by force
  have b1: "bi_terms b1 = (bi_terms b)(w := Some info)" "ti_num_entries info = (case bi_terms b w of None \<Rightarrow> n | Some old \<Rightarrow> ti_num_entries old + n)"
    using i by (auto simp: add_term_info_def Let_def split: option.splits)
  have "bi_terms b' = bi_terms b1"
    using assms i by (cases block) (auto simp: in_add_bitmap_entry_def Let_def split: option.splits if_splits)
  then show ?thesis using b1 by auto
qed

lemma bitmap_okD:
  assumes "bitmap_ok b"
  shows "index_ok b" "finite (word_records b w)" "bi_terms b w = Some t \<Longrightarrow> ti_num_entries t = int (card (word_records b w))"
proof -
  show "finite (word_records b w)"
    using assms by (cases "bi_terms b w") (auto simp: bitmap_ok_def, simp add: word_records_def)
qed (use assms in \<open>auto simp: bitmap_ok_def\<close>)

lemma bitmap_okI:
  assumes "index_ok b" "\<And>w. finite (word_records b w)"
    "\<And>w t. bi_terms b w = Some t \<Longrightarrow> ti_num_entries t = int (card (word_records b w))"
  shows "bitmap_ok b"
  using assms by (simp add: bitmap_ok_def)

lemma word_records_None: "bi_terms b w = None \<Longrightarrow> word_records b w = {}"
  by (simp add: word_records_def)

lemma add_bitmap_adds:
  assumes "bitmap_ok b" "record_ok r" "r \<notin> word_records b w"
  shows "\<exists>b'. in_add_bitmap_entry b r w None 1 = Done b' \<and> bitmap_ok b' \<and> word_records b' = (word_records b)(w := insert r (word_records b w))"
proof -
  note ok = bitmap_okD [OF assms(1)]
  obtain b' where b': "in_add_bitmap_entry b r w None 1 = Done b'" "index_ok b'"
    "\<And>v. word_records b' v = (if v = w then insert r (word_records b v) else word_records b v)"
    using in_add_records [OF ok(1) assms(2)] by blast
  obtain info where info: "bi_terms b' = (bi_terms b)(w := Some info)"
    "ti_num_entries info = (case bi_terms b w of None \<Rightarrow> 1 | Some old \<Rightarrow> ti_num_entries old + 1)"
    using in_add_counts [OF b'(1)] by blast
  have card: "ti_num_entries info = int (card (insert r (word_records b w)))"
    using info(2) assms(3) ok(2) [of w] ok(3) [of w] word_records_None [of b w] by (cases "bi_terms b w") simp_all
  have "bitmap_ok b'"
  proof (rule bitmap_okI [OF b'(2)])
    show "finite (word_records b' v)" for v using ok(2) b'(3) by simp
    show "ti_num_entries t = int (card (word_records b' v))" if "bi_terms b' v = Some t" for v t
      using that info(1) card ok(3) b'(3) by (cases "v = w") simp_all
  qed
  moreover have "word_records b' = (word_records b)(w := insert r (word_records b w))" using b'(3) by (auto simp: fun_eq_iff)
  ultimately show ?thesis using b'(1) by blast
qed

lemma records_of_terms:
  assumes "bi_blocks b' = bi_blocks b" "bi_terms b' = (bi_terms b)(w := t)"
    "map_option ti_termid t = map_option ti_termid (bi_terms b w) \<or> t = None"
  shows "word_records b' = (word_records b)(w := if t = None then {} else word_records b w)"
proof
  fix v
  have m: "bit_member b' = bit_member b" unfolding bit_member_def assms(1) ..
  show "word_records b' v = ((word_records b)(w := if t = None then {} else word_records b w)) v"
    using assms(2,3) m by (cases "v = w"; cases "bi_terms b w"; cases t; cases "bi_terms b v") (simp_all add: word_records_def)
qed

lemma del_bitmap_removes:
  assumes "bitmap_ok b" "record_ok r" "r \<in> word_records b w"
  shows "\<exists>b' found. del_bitmap b r w = Done (b', found) \<and> bitmap_ok b'
    \<and> word_records b' = (word_records b)(w := word_records b w - {r})"
proof -
  obtain info where info: "bi_terms b w = Some info" using assms(3) by (cases "bi_terms b w") (auto simp: word_records_def)
  note ok = bitmap_okD [OF assms(1)]
  have n: "finite (word_records b w)" "ti_num_entries info = int (card (word_records b w))" using ok(2,3) info by auto
  show ?thesis
  proof (cases "ti_num_entries info = 1")
    case True
    let ?b = "b\<lparr>bi_terms := (bi_terms b)(w := None)\<rparr>"
    have "card (word_records b w) = 1" using True n(2) by simp
    then have only: "word_records b w - {r} = {}" using assms(3) by (auto simp: card_1_singleton_iff)
    have view: "word_records ?b = (word_records b)(w := {})" using records_of_terms [of ?b b w None] by simp
    have iok: "index_ok ?b" using ok(1) unfolding index_ok_def by (auto split: if_splits)
    have "bitmap_ok ?b"
    proof (rule bitmap_okI [OF iok], unfold view)
      show "finite (((word_records b)(w := {})) v)" for v using ok(2) by simp
      show "ti_num_entries t = int (card (((word_records b)(w := {})) v))" if "bi_terms ?b v = Some t" for v t
        using that ok(3) by (cases "v = w") simp_all
    qed
    then show ?thesis using info True view unfolding only by (auto simp: del_bitmap_def)
  next
    case False
    obtain b1 where b1: "in_del_bitmap_entry b r (ti_termid info) = Done b1" "index_ok b1"
      "\<And>v. word_records b1 v = (if v = w then word_records b v - {r} else word_records b v)"
      using in_del_records [OF ok(1) assms(2) info] by blast
    have t1: "bi_terms b1 = bi_terms b"
      using b1(1) by (auto simp: in_del_bitmap_entry_def Let_def split: option.splits if_splits)
    let ?t = "info\<lparr>ti_tot_freq := ti_tot_freq info - 1, ti_num_entries := ti_num_entries info - 1\<rparr>"
    let ?b = "b1\<lparr>bi_terms := (bi_terms b1)(w := Some ?t), bi_tot_occur := bi_tot_occur b1 - 1\<rparr>"
    have view: "word_records ?b = (word_records b)(w := word_records b w - {r})"
    proof -
      have "word_records ?b = (word_records b1)(w := if Some ?t = None then {} else word_records b1 w)"
        by (rule records_of_terms) (simp_all add: t1 info)
      then show ?thesis by (rule trans) (simp add: b1(3) fun_eq_iff)
    qed
    have iok: "index_ok ?b"
      using b1(2) t1 info unfolding index_ok_def by (auto split: if_splits)
    have card: "card (word_records b w - {r}) = card (word_records b w) - 1" "0 < card (word_records b w)"
      using n(1) assms(3) by (auto simp: card_gt_0_iff)
    have "bitmap_ok ?b"
    proof (rule bitmap_okI [OF iok], unfold view)
      show "finite (((word_records b)(w := word_records b w - {r})) v)" for v using ok(2) by simp
      show "ti_num_entries t = int (card (((word_records b)(w := word_records b w - {r})) v))" if "bi_terms ?b v = Some t" for v t
        using that ok(3) n(2) card t1 by (cases "v = w") auto
    qed
    then show ?thesis using info False b1(1) view by (auto simp: del_bitmap_def)
  qed
qed

section \<open>All words of a record\<close>

fun index_words :: "('d \<Rightarrow> int \<Rightarrow> string \<Rightarrow> ht_data \<Rightarrow> 'd run) \<Rightarrow> 'd \<Rightarrow> int \<Rightarrow> (string \<times> ht_data) list \<Rightarrow> 'd run" where
  "index_words f d r [] = Done d"
| "index_words f d r ((w, ht) # rest) = run_bind (f d r w ht) (\<lambda>d1. index_words f d1 r rest)"

lemma index_words_ConsE:
  assumes "index_words f d r ((w, ht) # ws) = Done d'"
  obtains d1 where "f d r w ht = Done d1" "index_words f d1 r ws = Done d'"
  using assms by (cases "f d r w ht") auto

definition all_words :: "('r \<Rightarrow> ht_data \<Rightarrow> 'v \<Rightarrow> 'v) \<Rightarrow> 'r \<Rightarrow> (string \<times> ht_data) list \<Rightarrow> (string \<Rightarrow> 'v) \<Rightarrow> string \<Rightarrow> 'v" where
  "all_words upd r ws v w = (case map_of ws w of None \<Rightarrow> v w | Some ht \<Rightarrow> upd r ht (v w))"

text \<open>
  An operation on one word of an index: it keeps the index well formed and changes what the index says of that word.
  \<open>pre\<close> is what the operation needs of the record, the data of the word and what the index says so far.
\<close>

locale word_op =
  fixes f :: "'d \<Rightarrow> int \<Rightarrow> string \<Rightarrow> ht_data \<Rightarrow> 'd run" and ok :: "'d \<Rightarrow> bool" and view :: "'d \<Rightarrow> string \<Rightarrow> 'v"
    and pre :: "int \<Rightarrow> ht_data \<Rightarrow> 'v \<Rightarrow> bool" and upd :: "int \<Rightarrow> ht_data \<Rightarrow> 'v \<Rightarrow> 'v"
  assumes law: "ok d \<Longrightarrow> pre r ht (view d w) \<Longrightarrow> \<exists>d'. f d r w ht = Done d' \<and> ok d' \<and> view d' = (view d)(w := upd r ht (view d w))"
begin

lemma all:
  assumes "ok d" "distinct (map fst ws)" "\<forall>(w, ht) \<in> set ws. pre r ht (view d w)"
  shows "\<exists>d'. index_words f d r ws = Done d' \<and> ok d' \<and> view d' = all_words upd r ws (view d)"
  using assms
proof (induction ws arbitrary: d)
  case Nil
  then show ?case by (simp add: all_words_def)
next
  case (Cons x ws)
  obtain w ht where x: "x = (w, ht)" by (cases x)
  obtain d1 where d1: "f d r w ht = Done d1" "ok d1" "view d1 = (view d)(w := upd r ht (view d w))"
    using law Cons.prems x by fastforce
  have "v \<noteq> w" if "(v, h) \<in> set ws" for v h using Cons.prems(2) x that by (metis distinct.simps(2) fst_conv image_eqI list.set_map list.simps(9))
  then have "\<forall>(v, h) \<in> set ws. pre r h (view d1 v)" using Cons.prems(3) d1(3) by auto
  then obtain d' where d': "index_words f d1 r ws = Done d'" "ok d'" "view d' = all_words upd r ws (view d1)"
    using Cons.IH [OF d1(2)] Cons.prems(2) by auto
  have "map_of ws w = None" using Cons.prems(2) x by (simp add: map_of_eq_None_iff)
  then have "view d' = all_words upd r (x # ws) (view d)" using d'(3) d1(3) x by (auto simp: all_words_def fun_eq_iff split: option.split)
  then show ?case using d1(1) d'(1,2) x by simp
qed

end

text \<open>Adding and deleting, each the other's inverse for a record that is not there before.\<close>

locale word_index =
  adds: word_op add ok view fresh ins + dels: word_op del ok view entry rem
  for add del :: "'d \<Rightarrow> int \<Rightarrow> string \<Rightarrow> ht_data \<Rightarrow> 'd run" and ok :: "'d \<Rightarrow> bool" and view :: "'d \<Rightarrow> string \<Rightarrow> 'v"
    and fresh entry :: "int \<Rightarrow> ht_data \<Rightarrow> 'v \<Rightarrow> bool" and ins rem :: "int \<Rightarrow> ht_data \<Rightarrow> 'v \<Rightarrow> 'v" +
  assumes entry_law: "fresh r ht v \<Longrightarrow> entry r ht (ins r ht v)"
    and undo_law: "fresh r ht v \<Longrightarrow> rem r ht (ins r ht v) = v"
begin

lemma undone:
  assumes "ok d" "distinct (map fst ws)" "\<forall>(w, ht) \<in> set ws. fresh r ht (view d w)" "ok d1" "view d1 = all_words ins r ws (view d)"
  shows "\<exists>d2. index_words del d1 r ws = Done d2 \<and> ok d2 \<and> view d2 = view d"
proof -
  have m: "map_of ws w = Some ht" if "(w, ht) \<in> set ws" for w ht using that assms(2) by simp
  have "\<forall>(w, ht) \<in> set ws. entry r ht (view d1 w)"
    using assms(3) m entry_law by (fastforce simp: assms(5) all_words_def)
  then obtain d2 where d2: "index_words del d1 r ws = Done d2" "ok d2" "view d2 = all_words rem r ws (view d1)"
    using dels.all [OF assms(4,2)] by blast
  have "all_words rem r ws (all_words ins r ws (view d)) = view d"
  proof
    fix w
    have "fresh r ht (view d w)" if "map_of ws w = Some ht" for ht using map_of_SomeD [OF that] assms(3) by auto
    then show "all_words rem r ws (all_words ins r ws (view d)) w = view d w"
      by (cases "map_of ws w") (simp_all add: all_words_def undo_law)
  qed
  then show ?thesis using d2 assms(5) by auto
qed

end

section \<open>The two kinds of indexes\<close>

definition del_posting_op :: "posting_index \<Rightarrow> int \<Rightarrow> string \<Rightarrow> ht_data \<Rightarrow> posting_index run" where
  "del_posting_op p r w ht = run_bind (del_posting p r w ht) (\<lambda>(p1, found). Done p1)"

definition add_bitmap_op :: "bitmap_index \<Rightarrow> int \<Rightarrow> string \<Rightarrow> ht_data \<Rightarrow> bitmap_index run" where
  "add_bitmap_op b r w ht = in_add_bitmap_entry b r w None 1"

definition del_bitmap_op :: "bitmap_index \<Rightarrow> int \<Rightarrow> string \<Rightarrow> ht_data \<Rightarrow> bitmap_index run" where
  "del_bitmap_op b r w ht = run_bind (del_bitmap b r w) (\<lambda>(b1, found). Done b1)"

definition fresh_posting :: "bool \<Rightarrow> int \<Rightarrow> ht_data \<Rightarrow> posting list \<Rightarrow> bool" where
  "fresh_posting proximity r ht es \<longleftrightarrow> ht_ok proximity ht \<and> r \<notin> po_record_no ` set es"

definition posting_entry :: "int \<Rightarrow> ht_data \<Rightarrow> posting list \<Rightarrow> bool" where
  "posting_entry r ht es \<longleftrightarrow> \<lparr>po_record_no = r, po_term_freq = ht_termfreq ht\<rparr> \<in> set es"

definition add_posting :: "int \<Rightarrow> ht_data \<Rightarrow> posting list \<Rightarrow> posting list" where
  "add_posting r ht es = es @ [\<lparr>po_record_no = r, po_term_freq = ht_termfreq ht\<rparr>]"

definition remove_posting :: "int \<Rightarrow> ht_data \<Rightarrow> posting list \<Rightarrow> posting list" where
  "remove_posting r ht es = filter (\<lambda>e. po_record_no e \<noteq> r) es"

interpretation posting_words: word_index "add_term proximity prox_open" del_posting_op posting_ok postings "fresh_posting proximity" posting_entry
    add_posting remove_posting for proximity prox_open
proof
  show "\<exists>d'. add_term proximity prox_open d r w ht = Done d' \<and> posting_ok d' \<and> postings d' = (postings d)(w := add_posting r ht (postings d w))"
    if "posting_ok d" "fresh_posting proximity r ht (postings d w)" for d r w ht
    using add_term_adds [OF that(1)] that(2) by (simp add: fresh_posting_def add_posting_def)
  show "\<exists>d'. del_posting_op d r w ht = Done d' \<and> posting_ok d' \<and> postings d' = (postings d)(w := remove_posting r ht (postings d w))"
    if "posting_ok d" "posting_entry r ht (postings d w)" for d r w ht
    using del_posting_removes [OF that(1)] that(2) by (fastforce simp: posting_entry_def del_posting_op_def remove_posting_def)
qed (auto simp: fresh_posting_def posting_entry_def add_posting_def remove_posting_def filter_id_conv)

interpretation bitmap_words: word_index add_bitmap_op del_bitmap_op bitmap_ok word_records "\<lambda>r ht rs. record_ok r \<and> r \<notin> rs" "\<lambda>r ht rs. record_ok r \<and> r \<in> rs"
    "\<lambda>r ht rs. insert r rs" "\<lambda>r ht rs. rs - {r}"
proof
  show "\<exists>d'. del_bitmap_op d r w ht = Done d' \<and> bitmap_ok d' \<and> word_records d' = (word_records d)(w := word_records d w - {r})"
    if "bitmap_ok d" "record_ok r \<and> r \<in> word_records d w" for d r w ht
    using del_bitmap_removes [OF that(1), of r w] that(2) by (auto simp: del_bitmap_op_def)
qed (auto simp: add_bitmap_op_def add_bitmap_adds)

section \<open>Whole records\<close>

definition data_ok :: "index_data \<Rightarrow> bool" where
  "data_ok d = (case d of Postings p \<Rightarrow> posting_ok p | Bitmaps b \<Rightarrow> bitmap_ok b)"

definition data_records :: "index_data \<Rightarrow> string \<Rightarrow> int set" where
  "data_records d w = (case d of Postings p \<Rightarrow> po_record_no ` set (postings p w) | Bitmaps b \<Rightarrow> word_records b w)"

text \<open>Words of a record that is not in the index yet, and the index with them, and with the same contents.\<close>

definition new_words :: "kw_idx \<Rightarrow> int \<Rightarrow> (string \<times> ht_data) list \<Rightarrow> bool" where
  "new_words idx r ws \<longleftrightarrow> distinct (map fst ws)
     \<and> (\<forall>(w, ht) \<in> set ws. ht_ok (kx_proximity idx) ht \<and> r \<notin> data_records (kx_data idx) w)"

definition data_added :: "index_data \<Rightarrow> int \<Rightarrow> (string \<times> ht_data) list \<Rightarrow> index_data \<Rightarrow> bool" where
  "data_added d r ws d' = (case (d, d') of
       (Postings p, Postings p') \<Rightarrow> postings p' = all_words add_posting r ws (postings p)
     | (Bitmaps b, Bitmaps b') \<Rightarrow> word_records b' = all_words (\<lambda>r ht rs. insert r rs) r ws (word_records b)
     | _ \<Rightarrow> False)"

definition data_same :: "index_data \<Rightarrow> index_data \<Rightarrow> bool" where
  "data_same d d' = (case (d, d') of
       (Postings p, Postings p') \<Rightarrow> postings p' = postings p
     | (Bitmaps b, Bitmaps b') \<Rightarrow> word_records b' = word_records b
     | _ \<Rightarrow> False)"

lemma add_words_postings:
  assumes "index_words (add_term (kx_proximity idx) (kx_prox_open idx)) p r ws = Done p'" "kx_data idx = Postings p"
    "\<forall>(w, ht) \<in> set ws. kx_proximity idx \<longrightarrow> ht_pos ht \<noteq> []"
  shows "\<exists>s'. add_words idx r ws (i, s) = Done (idx\<lparr>kx_data := Postings p'\<rparr>, i + int (length ws), s')"
  using assms
proof (induction ws arbitrary: idx p i s)
  case Nil
  then show ?case by (cases idx) simp
next
  case (Cons x ws)
  obtain w ht where x: "x = (w, ht)" by (cases x)
  let ?f = "add_term (kx_proximity idx) (kx_prox_open idx)"
  obtain p1 where p1: "?f p r w ht = Done p1" "index_words ?f p1 r ws = Done p'"
    using Cons.prems(1) unfolding x by (rule index_words_ConsE)
  let ?i = "idx\<lparr>kx_data := Postings p1\<rparr>"
  have "\<exists>s'. add_words ?i r ws (i + 1, s0) = Done (?i\<lparr>kx_data := Postings p'\<rparr>, i + 1 + int (length ws), s')" for s0
    by (rule Cons.IH) (use p1(2) Cons.prems(3) in auto)
  then show ?case using p1(1) Cons.prems x by (auto simp: Let_def algebra_simps)
qed

lemma add_words_bitmaps:
  assumes "index_words add_bitmap_op b r ws = Done b'" "kx_data idx = Bitmaps b"
    "\<forall>(w, ht) \<in> set ws. kx_proximity idx \<longrightarrow> ht_pos ht \<noteq> []"
  shows "\<exists>s'. add_words idx r ws (i, s) = Done (idx\<lparr>kx_data := Bitmaps b'\<rparr>, i, s')"
  using assms
proof (induction ws arbitrary: idx b i s)
  case Nil
  then show ?case by (cases idx) simp
next
  case (Cons x ws)
  obtain w ht where x: "x = (w, ht)" by (cases x)
  obtain b1 where b1': "add_bitmap_op b r w ht = Done b1" "index_words add_bitmap_op b1 r ws = Done b'"
    using Cons.prems(1) unfolding x by (rule index_words_ConsE)
  then have b1: "in_add_bitmap_entry b r w None 1 = Done b1" "index_words add_bitmap_op b1 r ws = Done b'" by (simp_all add: add_bitmap_op_def)
  let ?i = "idx\<lparr>kx_data := Bitmaps b1\<rparr>"
  have "\<exists>s'. add_words ?i r ws (i, s0) = Done (?i\<lparr>kx_data := Bitmaps b'\<rparr>, i, s')" for s0
    by (rule Cons.IH) (use b1(2) Cons.prems(3) in auto)
  then show ?case using b1(1) Cons.prems x by (auto simp: Let_def)
qed

lemma counters_only [simp]:
  "posting_ok (p\<lparr>pi_tot_numrecs := n\<rparr>) = posting_ok p" "postings (p\<lparr>pi_tot_numrecs := n\<rparr>) = postings p"
  "bitmap_ok (b\<lparr>bi_tot_numrecs := n\<rparr>) = bitmap_ok b" "word_records (b\<lparr>bi_tot_numrecs := n\<rparr>) = word_records b"
proof -
  show w: "word_records (b\<lparr>bi_tot_numrecs := n\<rparr>) = word_records b" by (simp add: word_records_def bit_member_def fun_eq_iff split: option.split)
  show "bitmap_ok (b\<lparr>bi_tot_numrecs := n\<rparr>) = bitmap_ok b" by (simp add: bitmap_ok_def index_ok_def w)
  show "posting_ok (p\<lparr>pi_tot_numrecs := n\<rparr>) = posting_ok p" by (simp add: posting_ok_def)
  show "postings (p\<lparr>pi_tot_numrecs := n\<rparr>) = postings p" by (simp add: postings_def fun_eq_iff)
qed

lemma count_record_facts [simp]:
  "data_ok (count_record d i) = data_ok d" "data_added d0 r ws (count_record d i) = data_added d0 r ws d"
  "data_ok (uncount_record d c) = data_ok d" "data_same d0 (uncount_record d c) = data_same d0 d"
  by (cases d; simp add: count_record_def uncount_record_def data_ok_def data_added_def data_same_def split: index_data.splits)+

lemma add_words_adds:
  assumes "data_ok (kx_data idx)" "record_ok r" "new_words idx r ws"
  shows "\<exists>d' i' s'. add_words idx r ws (i, s) = Done (idx\<lparr>kx_data := d'\<rparr>, i', s') \<and> data_ok d' \<and> data_added (kx_data idx) r ws d'"
proof -
  have pos: "\<forall>(w, ht) \<in> set ws. kx_proximity idx \<longrightarrow> ht_pos ht \<noteq> []" using assms(3) by (fastforce simp: new_words_def ht_ok_def)
  show ?thesis
  proof (cases "kx_data idx")
    case (Postings p)
    have "\<forall>(w, ht) \<in> set ws. fresh_posting (kx_proximity idx) r ht (postings p w)" "posting_ok p" "distinct (map fst ws)"
      using assms(1,3) Postings by (auto simp: new_words_def data_records_def fresh_posting_def data_ok_def)
    then obtain p' where "index_words (add_term (kx_proximity idx) (kx_prox_open idx)) p r ws = Done p'" "posting_ok p'"
      "postings p' = all_words add_posting r ws (postings p)"
      using posting_words.adds.all by blast
    then show ?thesis using add_words_postings [OF _ Postings pos] Postings by (fastforce simp: data_ok_def data_added_def)
  next
    case (Bitmaps b)
    have "\<forall>(w, ht) \<in> set ws. record_ok r \<and> r \<notin> word_records b w" "bitmap_ok b" "distinct (map fst ws)"
      using assms Bitmaps by (auto simp: new_words_def data_records_def data_ok_def)
    then obtain b' where "index_words add_bitmap_op b r ws = Done b'" "bitmap_ok b'"
      "word_records b' = all_words (\<lambda>r ht rs. insert r rs) r ws (word_records b)"
      using bitmap_words.adds.all by blast
    then show ?thesis using add_words_bitmaps [OF _ Bitmaps pos] Bitmaps by (fastforce simp: data_ok_def data_added_def)
  qed
qed

lemma del_words_postings:
  "index_words del_posting_op p r ws = Done p' \<Longrightarrow> \<exists>c'. del_words (Postings p) r ws c = Done (Postings p', c')"
proof (induction ws arbitrary: p c)
  case (Cons x ws)
  obtain w ht where x: "x = (w, ht)" by (cases x)
  obtain p1 found where p1: "del_posting p r w ht = Done (p1, found)" "index_words del_posting_op p1 r ws = Done p'"
    using Cons.prems unfolding x
  proof (rule index_words_ConsE)
    fix p1 assume "del_posting_op p r w ht = Done p1" "index_words del_posting_op p1 r ws = Done p'"
    then show thesis using that by (cases "del_posting p r w ht") (auto simp: del_posting_op_def)
  qed
  then show ?case using Cons.IH [OF p1(2)] x by (simp add: del_word_def)
qed simp

lemma del_words_bitmaps:
  "index_words del_bitmap_op b r ws = Done b' \<Longrightarrow> \<exists>c'. del_words (Bitmaps b) r ws c = Done (Bitmaps b', c')"
proof (induction ws arbitrary: b c)
  case (Cons x ws)
  obtain w ht where x: "x = (w, ht)" by (cases x)
  obtain b1 found where b1: "del_bitmap b r w = Done (b1, found)" "index_words del_bitmap_op b1 r ws = Done b'"
    using Cons.prems unfolding x
  proof (rule index_words_ConsE)
    fix b1 assume "del_bitmap_op b r w ht = Done b1" "index_words del_bitmap_op b1 r ws = Done b'"
    then show thesis using that by (cases "del_bitmap b r w") (auto simp: del_bitmap_op_def)
  qed
  then show ?case using Cons.IH [OF b1(2)] x by (simp add: del_word_def)
qed simp

text \<open>The words of a record that is in the index with the frequencies it had when it was added.\<close>

definition old_words :: "index_data \<Rightarrow> int \<Rightarrow> (string \<times> ht_data) list \<Rightarrow> bool" where
  "old_words d r ws \<longleftrightarrow> distinct (map fst ws) \<and> (\<forall>(w, ht) \<in> set ws. case d of
       Postings p \<Rightarrow> posting_entry r ht (postings p w)
     | Bitmaps b \<Rightarrow> record_ok r \<and> r \<in> word_records b w)"

definition data_removed :: "index_data \<Rightarrow> int \<Rightarrow> (string \<times> ht_data) list \<Rightarrow> index_data \<Rightarrow> bool" where
  "data_removed d r ws d' = (case (d, d') of
       (Postings p, Postings p') \<Rightarrow> postings p' = all_words remove_posting r ws (postings p)
     | (Bitmaps b, Bitmaps b') \<Rightarrow> word_records b' = all_words (\<lambda>r ht rs. rs - {r}) r ws (word_records b)
     | _ \<Rightarrow> False)"

lemma data_removed_uncount [simp]: "data_removed d0 r ws (uncount_record d c) = data_removed d0 r ws d"
  by (cases d; simp add: uncount_record_def data_removed_def split: index_data.splits)

lemma del_words_removes:
  assumes "data_ok d" "old_words d r ws"
  shows "\<exists>d' c'. del_words d r ws c = Done (d', c') \<and> data_ok d' \<and> data_removed d r ws d'"
proof (cases d)
  case (Postings p)
  then have "posting_ok p" "distinct (map fst ws)" "\<forall>(w, ht) \<in> set ws. posting_entry r ht (postings p w)"
    using assms by (auto simp: data_ok_def old_words_def)
  then show ?thesis
    using posting_words.dels.all [of p ws r] del_words_postings [of p r ws _ c] Postings by (fastforce simp: data_ok_def data_removed_def)
next
  case (Bitmaps b)
  then have "bitmap_ok b" "distinct (map fst ws)" "\<forall>(w, ht) \<in> set ws. record_ok r \<and> r \<in> word_records b w"
    using assms by (auto simp: data_ok_def old_words_def)
  then show ?thesis
    using bitmap_words.dels.all [of b ws r] del_words_bitmaps [of b r ws _ c] Bitmaps by (fastforce simp: data_ok_def data_removed_def)
qed

lemma del_words_undo:
  assumes "data_ok (kx_data idx)" "record_ok r" "new_words idx r ws" "data_ok d" "data_added (kx_data idx) r ws d"
  shows "\<exists>d' c'. del_words d r ws c = Done (d', c') \<and> data_ok d' \<and> data_same (kx_data idx) d'"
proof (cases "kx_data idx")
  case (Postings p)
  then obtain p1 where p1: "d = Postings p1" "posting_ok p1" "postings p1 = all_words add_posting r ws (postings p)"
    using assms(4,5) by (cases d) (auto simp: data_added_def data_ok_def)
  have "\<forall>(w, ht) \<in> set ws. fresh_posting (kx_proximity idx) r ht (postings p w)" "posting_ok p" "distinct (map fst ws)"
    using assms(1,3) Postings by (auto simp: new_words_def data_records_def fresh_posting_def data_ok_def)
  then obtain p2 where "index_words del_posting_op p1 r ws = Done p2" "posting_ok p2" "postings p2 = postings p"
    using posting_words.undone [OF _ _ _ p1(2,3)] by blast
  then show ?thesis using del_words_postings p1(1) Postings by (fastforce simp: data_ok_def data_same_def)
next
  case (Bitmaps b)
  then obtain b1 where b1: "d = Bitmaps b1" "bitmap_ok b1" "word_records b1 = all_words (\<lambda>r ht rs. insert r rs) r ws (word_records b)"
    using assms(4,5) by (cases d) (auto simp: data_added_def data_ok_def)
  have "\<forall>(w, ht) \<in> set ws. record_ok r \<and> r \<notin> word_records b w" "bitmap_ok b" "distinct (map fst ws)"
    using assms(1,2,3) Bitmaps by (auto simp: new_words_def data_records_def data_ok_def)
  then obtain b2 where "index_words del_bitmap_op b1 r ws = Done b2" "bitmap_ok b2" "word_records b2 = word_records b"
    using bitmap_words.undone [OF _ _ _ b1(2,3)] by blast
  then show ?thesis using del_words_bitmaps b1(1) Bitmaps by (fastforce simp: data_ok_def data_same_def)
qed

section \<open>All indexes of a file\<close>

text \<open>The indexes of a file before and after, the words of each taken from \<open>ext\<close>.\<close>

definition each_index :: "(nat \<Rightarrow> kw_idx \<Rightarrow> index_data \<Rightarrow> bool) \<Rightarrow> kw_idx list \<Rightarrow> kw_idx list \<Rightarrow> bool" where
  "each_index R ids ids' \<longleftrightarrow> length ids' = length ids
     \<and> (\<forall>i < length ids. data_ok (kx_data (ids' ! i)) \<and> ids' ! i = (ids ! i)\<lparr>kx_data := kx_data (ids' ! i)\<rparr> \<and> R i (ids ! i) (kx_data (ids' ! i)))"

lemma each_index_Cons:
  assumes "data_ok d" "R 0 idx d" "each_index (\<lambda>i. R (Suc i)) rest rest'"
  shows "each_index R (idx # rest) (idx\<lparr>kx_data := d\<rparr> # rest')"
  using assms by (auto simp: each_index_def nth_Cons split: nat.split)

lemma add_indexes_adds:
  assumes "record_ok r" "\<forall>i < length ids. data_ok (kx_data (ids ! i)) \<and> new_words (ids ! i) r (ext (k + i))"
  shows "\<exists>ids' s'. add_indexes ext r False k ids s = Done (ids', s')
    \<and> each_index (\<lambda>i idx d. data_added (kx_data idx) r (ext (k + i)) d) ids ids'"
  using assms(2)
proof (induction ids arbitrary: k s)
  case Nil
  then show ?case by (simp add: each_index_def)
next
  case (Cons idx rest)
  have "data_ok (kx_data idx)" "new_words idx r (ext k)" using Cons.prems by force+
  then obtain d items s1 where d: "add_words idx r (ext k) (0, s) = Done (idx\<lparr>kx_data := d\<rparr>, items, s1)" "data_ok d"
    "data_added (kx_data idx) r (ext k) d"
    using add_words_adds [OF _ assms(1)] by blast
  have "\<forall>i < length rest. data_ok (kx_data (rest ! i)) \<and> new_words (rest ! i) r (ext (Suc k + i))"
    using Cons.prems by force
  then obtain rest' s2 where r: "add_indexes ext r False (Suc k) rest s1 = Done (rest', s2)"
    "each_index (\<lambda>i idx d. data_added (kx_data idx) r (ext (Suc k + i)) d) rest rest'"
    using Cons.IH by blast
  have "each_index (\<lambda>i idx d. data_added (kx_data idx) r (ext (k + i)) d) (idx # rest) (idx\<lparr>kx_data := count_record d items\<rparr> # rest')"
    by (rule each_index_Cons) (use d(2,3) r(2) in simp_all)
  then show ?case using d(1) r(1) by simp
qed

lemma del_indexes_each:
  assumes "\<forall>i < length ids. \<exists>d c. del_words (kx_data (ids ! i)) r (ext (k + i)) False = Done (d, c) \<and> data_ok d \<and> R i (ids ! i) d"
    and "\<And>i idx d c. R i idx (uncount_record d c) = R i idx d"
  shows "\<exists>ids'. del_indexes ext r k ids = Done ids' \<and> each_index R ids ids'"
  using assms
proof (induction ids arbitrary: k R)
  case Nil
  then show ?case by (simp add: each_index_def)
next
  case (Cons idx rest)
  obtain d c where d: "del_words (kx_data idx) r (ext k) False = Done (d, c)" "data_ok d" "R 0 idx d"
    using Cons.prems(1) by force
  have "\<forall>i < length rest. \<exists>d c. del_words (kx_data (rest ! i)) r (ext (Suc k + i)) False = Done (d, c) \<and> data_ok d \<and> R (Suc i) (rest ! i) d"
    using Cons.prems(1) by force
  then obtain rest' where r: "del_indexes ext r (Suc k) rest = Done rest'" "each_index (\<lambda>i. R (Suc i)) rest rest'"
    using Cons.IH [of "Suc k" "\<lambda>i. R (Suc i)"] Cons.prems(2) by blast
  have "each_index R (idx # rest) (idx\<lparr>kx_data := uncount_record d c\<rparr> # rest')"
    by (rule each_index_Cons) (use d(2,3) r(2) Cons.prems(2) in simp_all)
  then show ?case using d(1) r(1) by simp
qed

text \<open>No word of the record is in the index of the primary key.\<close>

definition primary_new :: "'w kw_file \<Rightarrow> (nat \<Rightarrow> (string \<times> ht_data) list) \<Rightarrow> bool" where
  "primary_new f ext = (case kf_primary f of None \<Rightarrow> True
     | Some k \<Rightarrow> \<forall>(w, ht) \<in> set (ext k). primary_item (kx_data (kf_indexes f ! k)) w = None)"

lemma primary_words_new:
  "\<forall>(w, ht) \<in> set ws. primary_item (kx_data (kf_indexes f ! k)) w = None \<Longrightarrow> primary_words en f r k ws = Done (None, f)"
  by (induction ws) auto

lemma in_kwadd_new:
  assumes "kf_type f \<in> set kwadd_types" "en_sgml en (kf_world f) r = Parsed" "primary_new f (\<lambda>k. en_extract en (kf_world f) k r)" "record_ok r"
    and "\<forall>i < length (kf_indexes f). data_ok (kx_data (kf_indexes f ! i)) \<and> new_words (kf_indexes f ! i) r (en_extract en (kf_world f) i r)"
  shows "\<exists>f'. in_kwadd en f r False = Done (1, f') \<and> kf_type f' = kf_type f \<and> kf_primary f' = kf_primary f
    \<and> each_index (\<lambda>i idx d. data_added (kx_data idx) r (en_extract en (kf_world f) i r) d) (kf_indexes f) (kf_indexes f')"
proof -
  let ?ext = "\<lambda>k. en_extract en (kf_world f) k r"
  have p: "(case kf_primary f of None \<Rightarrow> Done (None, f) | Some k \<Rightarrow> if False then Done (None, f) else primary_words en f r k (?ext k)) = Done (None, f)"
    using assms(3) primary_words_new by (auto simp: primary_new_def split: option.split)
  obtain ids s where "add_indexes ?ext r False 0 (kf_indexes f) 0 = Done (ids, s)"
    "each_index (\<lambda>i idx d. data_added (kx_data idx) r (?ext i) d) (kf_indexes f) ids"
    using add_indexes_adds [OF assms(4), of "kf_indexes f" ?ext 0 0] assms(5) by auto
  then show ?thesis using assms(1,2) by (simp add: in_kwadd_def Let_def p del: if_False)
qed

lemma in_kwdel_each:
  assumes "kf_type f \<in> set kwdel_types" "en_sgml en (kf_world f) r = Parsed"
    and "\<forall>i < length (kf_indexes f). \<exists>d c. del_words (kx_data (kf_indexes f ! i)) r (en_extract en (kf_world f) i r) False = Done (d, c)
      \<and> data_ok d \<and> R i (kf_indexes f ! i) d"
    and "\<And>i idx d c. R i idx (uncount_record d c) = R i idx d"
  shows "\<exists>f'. in_kwdel en f r = Done (1, f') \<and> kf_world f' = kf_world f \<and> kf_type f' = kf_type f \<and> each_index R (kf_indexes f) (kf_indexes f')"
  using del_indexes_each [of "kf_indexes f" r "\<lambda>k. en_extract en (kf_world f) k r" 0 R] assms by (auto simp: in_kwdel_def)

text \<open>
  C10: indexing a record that is in no index yet adds it, in every index of the file, to the postings of exactly the words extracted from it,
  at the end and with the frequency of the word, or to the bitmap of the word; all other postings stay, and every index
  is well formed again: the totals of each item fit its postings.
\<close>

theorem in_kwadd_adds_record:
  assumes "kf_type f \<in> set kwadd_types" "en_sgml en (kf_world f) r = Parsed" "primary_new f (\<lambda>k. en_extract en (kf_world f) k r)" "record_ok r"
    and "\<forall>i < length (kf_indexes f). data_ok (kx_data (kf_indexes f ! i)) \<and> new_words (kf_indexes f ! i) r (en_extract en (kf_world f) i r)"
  shows "\<exists>f'. in_kwadd en f r False = Done (1, f')
    \<and> each_index (\<lambda>i idx d. data_added (kx_data idx) r (en_extract en (kf_world f) i r) d) (kf_indexes f) (kf_indexes f')"
  using in_kwadd_new [OF assms] by blast

definition sample_ht :: "int list \<Rightarrow> ht_data" where
  "sample_ht pos = \<lparr>ht_termfreq = int (length pos), ht_pos = pos\<rparr>"

text \<open>Two indexes, one of them a bitmap. Every record has two words in the first and one in the second.\<close>

definition sample_env :: "unit kw_env" where
  "sample_env = \<lparr>en_sgml = (\<lambda>w r. Parsed),
     en_extract = (\<lambda>w k r. if k = 0 then [(''cat'', sample_ht [5, 9]), (''dog'', sample_ht [7])] else [(''cat'', sample_ht [0])]),
     en_fil_del = (\<lambda>w r. w), en_components = (\<lambda>w r b. w), en_cluster = (\<lambda>w r. w)\<rparr>"

definition empty_postings :: posting_index where
  "empty_postings = \<lparr>pi_terms = (\<lambda>w. None), pi_prox = (\<lambda>k. None), pi_recptr = 1, pi_tot_occur = 0, pi_tot_numrecs = 0\<rparr>"

definition sample_file :: "unit kw_file" where
  "sample_file = \<lparr>kf_type = 0, kf_primary = None, kf_replace = False,
     kf_indexes = [\<lparr>kx_proximity = True, kx_externkey = False, kx_prox_open = True, kx_data = Postings empty_postings, kx_outfile = []\<rparr>,
       \<lparr>kx_proximity = False, kx_externkey = True, kx_prox_open = False, kx_data = Bitmaps empty_index, kx_outfile = []\<rparr>],
     kf_docsizes = (\<lambda>r. 0), kf_world = ()\<rparr>"

lemma sample_file_ready:
  "kf_type sample_file \<in> set kwadd_types" "en_sgml sample_env w r = Parsed" "primary_new sample_file ext"
  "\<forall>i < length (kf_indexes sample_file). data_ok (kx_data (kf_indexes sample_file ! i)) \<and> new_words (kf_indexes sample_file ! i) r (en_extract sample_env w i r)"
proof -
  have e: "postings empty_postings w = []" "word_records empty_index w = {}" "posting_ok empty_postings" "bitmap_ok empty_index" for w
    by (simp_all add: postings_def empty_postings_def word_records_def empty_index_def posting_ok_def bitmap_ok_def index_ok_def)
  show "kf_type sample_file \<in> set kwadd_types" "en_sgml sample_env w r = Parsed" "primary_new sample_file ext"
    by (simp_all add: sample_file_def sample_env_def kwadd_types_def primary_new_def)
  show "\<forall>i < length (kf_indexes sample_file). data_ok (kx_data (kf_indexes sample_file ! i)) \<and> new_words (kf_indexes sample_file ! i) r (en_extract sample_env w i r)"
    using e by (auto simp: sample_file_def sample_env_def sample_ht_def less_Suc_eq data_ok_def new_words_def data_records_def ht_ok_def)
qed

theorem in_kwadd_adds_record_witness:
  "\<exists>f'. in_kwadd sample_env sample_file 3 False = Done (1, f')
    \<and> each_index (\<lambda>i idx d. data_added (kx_data idx) 3 (en_extract sample_env (kf_world sample_file) i 3) d) (kf_indexes sample_file) (kf_indexes f')"
  by (rule in_kwadd_adds_record [OF sample_file_ready(1-3) _ sample_file_ready(4)]) (simp add: record_ok_def)

text \<open>
  C11: deleting from the indexes a record that was just added brings back, for every word of every index, exactly
  the postings that were there before.
\<close>

theorem kwadd_kwdel_roundtrip:
  assumes "kf_type f \<in> set kwadd_types" "\<forall>w. en_sgml en w r = Parsed" "\<forall>w k. en_extract en w k r = ext k" "primary_new f ext" "record_ok r"
    and "\<forall>i < length (kf_indexes f). data_ok (kx_data (kf_indexes f ! i)) \<and> new_words (kf_indexes f ! i) r (ext i)"
  shows "\<exists>f1 f2. in_kwadd en f r False = Done (1, f1) \<and> in_kwdel en f1 r = Done (1, f2)
    \<and> each_index (\<lambda>i idx d. data_same (kx_data (kf_indexes f ! i)) d) (kf_indexes f1) (kf_indexes f2)"
proof -
  obtain f1 where f1: "in_kwadd en f r False = Done (1, f1)" "kf_type f1 = kf_type f"
    "each_index (\<lambda>i idx d. data_added (kx_data idx) r (ext i) d) (kf_indexes f) (kf_indexes f1)"
    using in_kwadd_new [of f en r] assms by auto
  note e = f1(3) [unfolded each_index_def]
  have "\<exists>d c. del_words (kx_data (kf_indexes f1 ! i)) r (en_extract en (kf_world f1) i r) False = Done (d, c) \<and> data_ok d
      \<and> data_same (kx_data (kf_indexes f ! i)) d" if "i < length (kf_indexes f1)" for i
    using del_words_undo [of "kf_indexes f ! i" r "ext i" "kx_data (kf_indexes f1 ! i)" False] that e assms(3,5,6) by auto
  moreover have "kf_type f1 \<in> set kwdel_types" using f1(2) assms(1) by (auto simp: kwadd_types_def kwdel_types_def)
  ultimately show ?thesis
    using in_kwdel_each [of f1 en r "\<lambda>i idx d. data_same (kx_data (kf_indexes f ! i)) d"] assms(2) f1(1) by auto
qed

theorem kwadd_kwdel_roundtrip_witness:
  "\<exists>f1 f2. in_kwadd sample_env sample_file 3 False = Done (1, f1) \<and> in_kwdel sample_env f1 3 = Done (1, f2)
    \<and> each_index (\<lambda>i idx d. data_same (kx_data (kf_indexes sample_file ! i)) d) (kf_indexes f1) (kf_indexes f2)"
  by (rule kwadd_kwdel_roundtrip [where ext = "\<lambda>k. en_extract sample_env () k 3"])
     (use sample_file_ready(1,4) in \<open>simp_all add: record_ok_def sample_file_ready(2,3)\<close>)

section \<open>Primary keys\<close>

lemma data_removed_facts:
  assumes "data_removed d r ws d'"
  shows "data_records d' w \<subseteq> data_records d w"
  using assms
  by (auto simp: data_removed_def data_records_def all_words_def remove_posting_def split: index_data.splits option.splits)

text \<open>A record with one key, which an older record has.\<close>

definition key_taken :: "'w kw_file \<Rightarrow> (nat \<Rightarrow> (string \<times> ht_data) list) \<Rightarrow> int \<Rightarrow> bool" where
  "key_taken f ext old_record \<longleftrightarrow> (case kf_primary f of None \<Rightarrow> False
     | Some k \<Rightarrow> (\<exists>w ht. ext k = [(w, ht)] \<and> primary_item (kx_data (kf_indexes f ! k)) w = Some (1, old_record)))"

text \<open>
  C12: with the option to replace, a new record whose primary key belongs to an older record first takes that record out of every
  index of the file and is then added to every index; without the option it is ignored, and no index changes.
\<close>

theorem primary_key_replaces:
  assumes "kf_type f \<in> set kwadd_types" "\<forall>w r. en_sgml en w r = Parsed" "\<forall>w k r. en_extract en w k r = ext r k"
    "key_taken f (ext r) old_record" "old_record < r" "record_ok r"
    and "\<forall>i < length (kf_indexes f). data_ok (kx_data (kf_indexes f ! i)) \<and> new_words (kf_indexes f ! i) r (ext r i)
      \<and> old_words (kx_data (kf_indexes f ! i)) old_record (ext old_record i)"
  shows "\<exists>f'. in_kwadd en f r False = Done (1, f')
    \<and> (if kf_replace f
       then each_index (\<lambda>i idx d. \<exists>mid. data_removed (kx_data idx) old_record (ext old_record i) mid \<and> data_added mid r (ext r i) d)
              (kf_indexes f) (kf_indexes f')
       else kf_indexes f' = kf_indexes f)"
proof -
  obtain k w ht where k: "kf_primary f = Some k" "ext r k = [(w, ht)]" "primary_item (kx_data (kf_indexes f ! k)) w = Some (1, old_record)"
    using assms(4) by (auto simp: key_taken_def split: option.splits)
  have ext: "(\<lambda>k. en_extract en u k r) = ext r" for u r using assms(3) by (simp add: fun_eq_iff)
  show ?thesis
  proof (cases "kf_replace f")
    case False
    then show ?thesis using assms(1,2) k ext by (simp add: in_kwadd_def Let_def)
  next
    case True
    have "kf_type f \<in> set kwdel_types" using assms(1) by (auto simp: kwadd_types_def kwdel_types_def)
    moreover have "\<forall>i < length (kf_indexes f). \<exists>d c. del_words (kx_data (kf_indexes f ! i)) old_record (ext old_record i) False = Done (d, c)
        \<and> data_ok d \<and> data_removed (kx_data (kf_indexes f ! i)) old_record (ext old_record i) d"
      using del_words_removes assms(7) by blast
    ultimately obtain f1 where f1: "in_kwdel en f old_record = Done (1, f1)"
      "each_index (\<lambda>i idx d. data_removed (kx_data idx) old_record (ext old_record i) d) (kf_indexes f) (kf_indexes f1)"
      using in_kwdel_each [of f en old_record "\<lambda>i idx d. data_removed (kx_data idx) old_record (ext old_record i) d"] assms(2,3) by auto
    note e = f1(2) [unfolded each_index_def]
    have "new_words (kf_indexes f1 ! i) r (ext r i)" if "i < length (kf_indexes f1)" for i
    proof -
      have n: "new_words (kf_indexes f ! i) r (ext r i)"
        and k: "kf_indexes f1 ! i = (kf_indexes f ! i)\<lparr>kx_data := kx_data (kf_indexes f1 ! i)\<rparr>"
        and d: "data_removed (kx_data (kf_indexes f ! i)) old_record (ext old_record i) (kx_data (kf_indexes f1 ! i))"
        using that e assms(7) by auto
      have s: "kx_proximity (kf_indexes f1 ! i) = kx_proximity (kf_indexes f ! i)" by (subst k) simp
      show ?thesis using n s data_removed_facts [OF d] by (fastforce simp: new_words_def)
    qed
    then have "\<forall>i < length (kf_indexes f1). data_ok (kx_data (kf_indexes f1 ! i)) \<and> new_words (kf_indexes f1 ! i) r (ext r i)"
      using e by auto
    then obtain ids s where ids: "add_indexes (ext r) r False 0 (kf_indexes f1) 0 = Done (ids, s)"
      "each_index (\<lambda>i idx d. data_added (kx_data idx) r (ext r i) d) (kf_indexes f1) ids"
      using add_indexes_adds [OF assms(6), of "kf_indexes f1" "ext r" 0 0] by auto
    have "\<exists>f'. in_kwadd en f r False = Done (1, f') \<and> kf_indexes f' = ids"
      using assms(1,2,5) k True ext f1(1) ids(1) by (simp add: in_kwadd_def Let_def)
    moreover have "each_index (\<lambda>i idx d. \<exists>mid. data_removed (kx_data idx) old_record (ext old_record i) mid \<and> data_added mid r (ext r i) d)
        (kf_indexes f) ids"
      unfolding each_index_def
    proof (intro conjI allI impI)
      fix i assume i: "i < length (kf_indexes f)"
      have k: "kf_indexes f1 ! i = (kf_indexes f ! i)\<lparr>kx_data := kx_data (kf_indexes f1 ! i)\<rparr>"
        "ids ! i = (kf_indexes f1 ! i)\<lparr>kx_data := kx_data (ids ! i)\<rparr>" using e ids(2) i by (auto simp: each_index_def)
      show "ids ! i = (kf_indexes f ! i)\<lparr>kx_data := kx_data (ids ! i)\<rparr>" by (subst k(2), subst k(1)) simp
    qed (use e ids(2) in \<open>auto simp: each_index_def\<close>)
    ultimately show ?thesis using True by auto
  qed
qed

text \<open>The key \<open>id7\<close> of record 2 is the key of record 5 too.\<close>

definition keyed_index :: posting_index where
  "keyed_index = empty_postings\<lparr>pi_terms := [''id7'' \<mapsto> new_item 1 2 1], pi_recptr := 2, pi_tot_occur := 1, pi_tot_numrecs := 1\<rparr>"

definition keyed_file :: "unit kw_file" where
  "keyed_file = \<lparr>kf_type = 9, kf_primary = Some 0, kf_replace = True,
     kf_indexes = [\<lparr>kx_proximity = False, kx_externkey = False, kx_prox_open = False, kx_data = Postings keyed_index, kx_outfile = []\<rparr>],
     kf_docsizes = (\<lambda>r. 0), kf_world = ()\<rparr>"

definition keyed_env :: "unit kw_env" where
  "keyed_env = sample_env\<lparr>en_extract := (\<lambda>w k r. [(''id7'', sample_ht [0])])\<rparr>"

theorem primary_key_replaces_witness:
  "\<exists>f'. in_kwadd keyed_env keyed_file 5 False = Done (1, f')
    \<and> (if kf_replace keyed_file
       then each_index (\<lambda>i idx d. \<exists>mid. data_removed (kx_data idx) 2 [(''id7'', sample_ht [0])] mid \<and> data_added mid 5 [(''id7'', sample_ht [0])] d)
              (kf_indexes keyed_file) (kf_indexes f')
       else kf_indexes f' = kf_indexes keyed_file)"
proof -
  have p: "postings keyed_index ''id7'' = [\<lparr>po_record_no = 2, po_term_freq = 1\<rparr>]"
    by (simp add: postings_def keyed_index_def)
  have ok: "posting_ok keyed_index"
    by (simp add: posting_ok_def keyed_index_def empty_postings_def)
  show ?thesis
  proof (rule primary_key_replaces [where ext = "\<lambda>r k. [(''id7'', sample_ht [0])]"])
    show "\<forall>i < length (kf_indexes keyed_file). data_ok (kx_data (kf_indexes keyed_file ! i))
        \<and> new_words (kf_indexes keyed_file ! i) 5 [(''id7'', sample_ht [0])] \<and> old_words (kx_data (kf_indexes keyed_file ! i)) 2 [(''id7'', sample_ht [0])]"
      using p ok by (simp add: keyed_file_def data_ok_def new_words_def old_words_def data_records_def ht_ok_def sample_ht_def posting_entry_def)
    show "key_taken keyed_file (\<lambda>k. [(''id7'', sample_ht [0])]) 2"
      by (simp add: key_taken_def keyed_file_def primary_item_def keyed_index_def new_item_def)
  qed (simp_all add: keyed_file_def kwadd_types_def keyed_env_def sample_env_def record_ok_def)
qed

section \<open>Where the counters and the positions go wrong\<close>

text \<open>
  Finding: a posting that is the last of its word is deleted without taking its frequency from \<open>tot_occur\<close> and without
  counting the record as deleted: after a record was added to an empty index and deleted again, the index has no word but keeps its totals.
\<close>

theorem deleted_record_still_counted:
  "\<exists>f1 f2 p. in_kwadd sample_env sample_file 3 False = Done (1, f1) \<and> in_kwdel sample_env f1 3 = Done (1, f2)
    \<and> kx_data (kf_indexes f2 ! 0) = Postings p \<and> pi_terms p = (\<lambda>w. None) \<and> pi_tot_occur p = 3 \<and> pi_tot_numrecs p = 1"
  by (simp add: in_kwadd_def in_kwdel_def sample_env_def sample_file_def kwadd_types_def kwdel_types_def Let_def add_term_def empty_postings_def
      PutPositionInfo_def put_positions_def sample_ht_def new_item_def in_add_bitmap_entry_def add_term_info_def empty_index_def count_record_def
      uncount_record_def del_word_def del_posting_def del_bitmap_def)

text \<open>
  Finding: deleting a record leaves its positions in the file of positions. When the record is indexed again
  the last old position is taken for a terminating null and overwritten, and the new ones follow the rest.
\<close>

definition two_records :: posting_index where
  "two_records = empty_postings\<lparr>pi_terms := [''cat'' \<mapsto> \<lparr>ix_termid = 1, ix_num_entries = 2, ix_tot_freq = 4,
       ix_entries = [\<lparr>po_record_no = 1, po_term_freq = 2\<rparr>, \<lparr>po_record_no = 3, po_term_freq = 2\<rparr>]\<rparr>],
     pi_prox := [(1, 1) \<mapsto> [4, 8], (1, 3) \<mapsto> [5, 9]], pi_recptr := 2, pi_tot_occur := 4\<rparr>"

theorem reindexed_positions_wrong:
  "\<exists>p1 found p2. del_posting two_records 3 ''cat'' (sample_ht [5, 9]) = Done (p1, found)
    \<and> add_term True True p1 3 ''cat'' (sample_ht [5, 9]) = Done p2
    \<and> postings p2 ''cat'' = postings two_records ''cat'' \<and> pi_prox p2 (1, 3) = Some [5, 5, 9]"
  by (simp add: two_records_def del_posting_def sample_ht_def numeral_2_eq_2 empty_place_def add_term_def push_posting_def empty_postings_def
      PutPositionInfo_def put_positions_def postings_def item_postings_def)
     (auto simp: Let_def)

end
