(* ===== verification/Batch_Line.thy ===== *)
theory Batch_Line
  imports Posting_Index "HOL-Library.List_Lexorder" "HOL-Library.Char_ord"
begin

text \<open>
  The temporary files of a batch run: the lines that \<open>src/index/in_kwadd.c\<close> writes and \<open>src/index/in_batch_load.c\<close> reads back
  with \<open>fgets\<close> and \<open>sscanf\<close>, and the order into which \<open>sort\<close> brings them. In the locale C, which the program sets, lines are compared
  character by character, the order of \<open>List_Lexorder\<close> on \<open>Char_ord\<close>; what this order gives is that the lines of a word come with ascending record numbers,
  which are printed with leading zeros.
\<close>

section \<open>Reading lines\<close>

fun text_lines :: "string \<Rightarrow> string \<Rightarrow> string list" where
  "text_lines acc [] = (if acc = [] then [] else [acc])"
| "text_lines acc (c # s) = (if c = newline then acc # text_lines [] s else text_lines (acc @ [c]) s)"

definition unlines :: "string list \<Rightarrow> string" where
  "unlines ls = concat (map (\<lambda>l. l @ [newline]) ls)"

text \<open>The command \<open>export LC_ALL=C ; sort\<close> without further arguments.\<close>

definition batch_sort :: "string \<Rightarrow> string" where
  "batch_sort text = unlines (sort (text_lines [] text))"

definition PROX_BUFFER_SIZE :: nat where "PROX_BUFFER_SIZE = 1500000"
definition TEMP_BUFFER_SIZE :: nat where "TEMP_BUFFER_SIZE = 50000"

text \<open>What the calls of \<open>fgets\<close> leave in the buffer, one after the other: up to a newline, and no more than fits.\<close>

fun fgets_all :: "nat \<Rightarrow> string \<Rightarrow> string \<Rightarrow> string list" where
  "fgets_all n acc [] = (if acc = [] then [] else [acc])"
| "fgets_all n acc (c # s) =
     (if c = newline \<or> n \<le> length acc + 2 then (acc @ [c]) # fgets_all n [] s else fgets_all n (acc @ [c]) s)"

text \<open>\<open>sscanf (in_buffer, "%[^\t]\t%d\t%d", ...)\<close>: what is not read keeps its value from the line before.\<close>

definition scan_line :: "string \<times> int \<times> int \<Rightarrow> string \<Rightarrow> string \<times> int \<times> int" where
  "scan_line old s =
     (let (word, recnum, termfreq) = old; w = takeWhile (\<lambda>c. c \<noteq> tab_char) s
      in if w = [] then old
         else case scan_int (dropWhile (\<lambda>c. c \<noteq> tab_char) s) of
            None \<Rightarrow> (w, recnum, termfreq)
          | Some (r, s1) \<Rightarrow> (case scan_int s1 of None \<Rightarrow> (w, r, termfreq) | Some (f, _) \<Rightarrow> (w, r, f)))"

text \<open>
  The positions behind the mark, \<open>n\<close> of them, \<open>pos\<close> being the variable that \<open>sscanf\<close> sets. A missing mark, and a step of two
  characters that leads out of the buffer, are faults.
\<close>

definition next_position :: "string \<Rightarrow> string option" where
  "next_position s = (let t = dropWhile (\<lambda>c. c \<noteq> CHR '' '') (drop 2 s) in if t = [] then None else Some t)"

definition scan_position :: "string \<Rightarrow> int \<Rightarrow> int" where
  "scan_position s pos = (case scan_int s of None \<Rightarrow> pos | Some (v, _) \<Rightarrow> v)"

primrec scan_positions :: "nat \<Rightarrow> string option \<Rightarrow> int \<Rightarrow> int list run" where
  "scan_positions 0 p pos = Done []"
| "scan_positions (Suc n) p pos = (case p of
       None \<Rightarrow> run_bind (scan_positions n None pos) (\<lambda>rest. Done (0 # rest))
     | Some s \<Rightarrow>
         if length s < 2 then Crash
         else run_bind (scan_positions n (next_position s) (scan_position s pos)) (\<lambda>rest. Done (scan_position s pos # rest)))"

definition read_positions :: "string \<Rightarrow> int \<Rightarrow> int \<Rightarrow> int list run" where
  "read_positions buffer termfreq pos =
     (case dropWhile (\<lambda>c. c \<noteq> prox_mark) buffer of [] \<Rightarrow> Crash | _ # s \<Rightarrow> scan_positions (nat termfreq) (Some s) pos)"

section \<open>Lines that are read as they were written\<close>

lemma text_lines_unlines:
  "\<forall>l \<in> set ls. newline \<notin> set l \<Longrightarrow> text_lines [] (unlines ls) = ls"
proof (induction ls)
  case (Cons l ls)
  have "text_lines acc (l @ newline # s) = (acc @ l) # text_lines [] s" if "newline \<notin> set l" for acc l s
    using that by (induction l arbitrary: acc) auto
  then show ?case using Cons by (simp add: unlines_def)
qed (simp add: unlines_def)

lemma fgets_all_unlines:
  "\<forall>l \<in> set ls. newline \<notin> set l \<and> length l + 1 < n \<Longrightarrow> fgets_all n [] (unlines ls) = map (\<lambda>l. l @ [newline]) ls"
proof (induction ls)
  case (Cons l ls)
  have "fgets_all n acc (l @ newline # s) = (acc @ l @ [newline]) # fgets_all n [] s"
    if "newline \<notin> set l" "length acc + length l + 1 < n" for acc l s
    using that by (induction l arbitrary: acc) auto
  then show ?case using Cons by (simp add: unlines_def)
qed (simp add: unlines_def)

text \<open>Numbers: a blank, digits with leading zeros, and something that is no digit.\<close>

lemma digits_value_zeros: "digits_value (replicate n CHR ''0'' @ ds) = digits_value ds"
  by (induction n) (simp_all add: digits_value_def ch_def)

lemma scan_int_digits:
  assumes "c_isspace b" "ds \<noteq> []" "\<forall>c \<in> set ds. c_isdigit c" "s = [] \<or> \<not> c_isdigit (hd s)"
  shows "scan_int (b # ds @ s) = Some (digits_value ds, s)"
proof -
  obtain c r where c: "ds = c # r" using assms(2) by (cases ds) auto
  have d: "c_isdigit c" using assms(3) c by simp
  have "takeWhile c_isdigit (ds @ s) = ds" "dropWhile c_isdigit (ds @ s) = s"
    using assms(3,4) by (cases s; simp add: takeWhile_append2 dropWhile_append2)+
  then show ?thesis
    using assms(1,2) digit_not_special [OF d] by (simp add: scan_int_def scan_digits_def c Let_def)
qed

definition line_int :: "int \<Rightarrow> bool" where
  "line_int x \<longleftrightarrow> 0 \<le> x \<and> x < 2147483648"

lemma pad_int_digits:
  assumes "line_int x"
  shows "pad_int 12 x \<noteq> []" "\<forall>c \<in> set (pad_int 12 x). c_isdigit c" "digits_value (pad_int 12 x) = x"
  using assms nat_digits_facts [of "nat x"]
  by (auto simp: pad_int_def line_int_def Let_def digits_value_zeros c_isdigit_def ch_def)

lemma print_int_digits:
  assumes "line_int x"
  shows "print_int x \<noteq> []" "\<forall>c \<in> set (print_int x). c_isdigit c" "digits_value (print_int x) = x"
  using assms nat_digits_facts [of "nat x"] by (auto simp: print_int_def line_int_def)

lemma special_chars:
  "c_isspace tab_char" "c_isspace CHR '' ''" "\<not> c_isdigit tab_char" "\<not> c_isdigit prox_mark" "\<not> c_isdigit newline" "\<not> c_isdigit CHR '' ''"
  "newline \<noteq> tab_char" "prox_mark \<noteq> tab_char" "prox_mark \<noteq> newline" "prox_mark \<noteq> CHR '' ''" "newline \<noteq> CHR '' ''" "tab_char \<noteq> CHR '' ''"
proof -
  show "prox_mark \<noteq> CHR '' ''" "newline \<noteq> CHR '' ''" "tab_char \<noteq> CHR '' ''" by code_simp+
qed (simp_all add: c_isspace_def c_isdigit_def tab_char_def prox_mark_def newline_def ch_def)

lemma up_to_char:
  assumes "d \<notin> set w"
  shows "takeWhile (\<lambda>c. c \<noteq> d) (w @ d # s) = w" "dropWhile (\<lambda>c. c \<noteq> d) (w @ d # s) = d # s"
  using assms by (induction w) auto

lemma digits_plain:
  assumes "\<forall>c \<in> set ds. c_isdigit c"
  shows "tab_char \<notin> set ds" "newline \<notin> set ds" "prox_mark \<notin> set ds" "CHR '' '' \<notin> set ds"
  using assms special_chars by auto

text \<open>Words that can be written on a line.\<close>

definition line_word :: "string \<Rightarrow> bool" where
  "line_word w \<longleftrightarrow> w \<noteq> [] \<and> tab_char \<notin> set w \<and> newline \<notin> set w \<and> prox_mark \<notin> set w"

lemma batch_word_id [simp]: "line_word w \<Longrightarrow> batch_word w = w"
  by (auto simp: batch_word_def line_word_def intro: map_idI)

definition line_ht :: "bool \<Rightarrow> ht_data \<Rightarrow> bool" where
  "line_ht proximity ht \<longleftrightarrow> ht_ok proximity ht \<and> line_int (ht_termfreq ht) \<and> (proximity \<longrightarrow> (\<forall>x \<in> set (ht_pos ht). line_int x))"

lemma scan_batch_line:
  assumes "line_word w" "line_int r" "line_ht proximity ht"
  shows "scan_line old (batch_line proximity r w ht @ [newline]) = (w, r, ht_termfreq ht)"
proof -
  let ?tail = "(if proximity then prox_mark # concat (map (\<lambda>x. CHR '' '' # print_int x) (ht_pos ht)) else []) @ [newline]"
  let ?l = "w @ tab_char # pad_int 12 r @ tab_char # print_int (ht_termfreq ht) @ ?tail"
  have w: "takeWhile (\<lambda>c. c \<noteq> tab_char) ?l = w" "dropWhile (\<lambda>c. c \<noteq> tab_char) ?l = tab_char # pad_int 12 r @ tab_char # print_int (ht_termfreq ht) @ ?tail"
    using assms(1) by (auto simp: line_word_def up_to_char)
  have f: "line_int (ht_termfreq ht)" using assms(3) by (simp add: line_ht_def)
  have "scan_int (tab_char # pad_int 12 r @ tab_char # print_int (ht_termfreq ht) @ ?tail) = Some (r, tab_char # print_int (ht_termfreq ht) @ ?tail)"
    using scan_int_digits [OF special_chars(1) pad_int_digits(1,2) [OF assms(2)]] pad_int_digits(3) [OF assms(2)] special_chars(3) by simp
  moreover have "scan_int (tab_char # print_int (ht_termfreq ht) @ ?tail) = Some (ht_termfreq ht, ?tail)"
    using scan_int_digits [OF special_chars(1) print_int_digits(1,2) [OF f], of ?tail] print_int_digits(3) [OF f] special_chars(4,5) by simp
  ultimately show ?thesis
    using assms(1) w by (cases old) (simp add: batch_line_def scan_line_def line_word_def Let_def)
qed

definition positions_text :: "int list \<Rightarrow> string" where
  "positions_text xs = concat (map (\<lambda>x. CHR '' '' # print_int x) xs)"

lemma scan_positions_text:
  assumes "\<forall>x \<in> set xs. line_int x" "xs \<noteq> []"
  shows "scan_positions (length xs) (Some (positions_text xs @ [newline])) pos = Done xs"
  using assms
proof (induction xs arbitrary: pos)
  case (Cons x ys)
  let ?rest = "positions_text ys @ [newline]"
  note d = print_int_digits [of x]
  have x: "line_int x" using Cons.prems by simp
  obtain c cs where c: "print_int x = c # cs" using d(1) [OF x] by (cases "print_int x") auto
  have s: "positions_text (x # ys) @ [newline] = CHR '' '' # print_int x @ ?rest" by (simp add: positions_text_def)
  have h: "\<not> c_isdigit (hd ?rest)" using special_chars by (cases ys) (simp_all add: positions_text_def)
  have "scan_int (CHR '' '' # print_int x @ ?rest) = Some (x, ?rest)"
    using scan_int_digits [OF special_chars(2) d(1,2) [OF x], of ?rest] h d(3) [OF x] by simp
  then have v: "scan_position (CHR '' '' # print_int x @ ?rest) pos = x" for pos by (simp add: scan_position_def)
  have cs: "CHR '' '' \<notin> set cs" using digits_plain(4) [OF d(2) [OF x]] c by simp
  have n: "next_position (CHR '' '' # print_int x @ ?rest) = (if ys = [] then None else Some ?rest)"
  proof (cases ys)
    case Nil
    have "dropWhile (\<lambda>c. c \<noteq> CHR '' '') (cs @ [newline]) = []" using cs special_chars(11) by auto
    then show ?thesis using Nil c by (simp add: next_position_def positions_text_def)
  next
    case (Cons y zs)
    then show ?thesis using up_to_char(2) [OF cs] c by (simp add: next_position_def positions_text_def Let_def)
  qed
  have l: "\<not> length (CHR '' '' # print_int x @ ?rest) < 2" by simp
  show ?case
  proof (cases ys)
    case Nil
    then show ?thesis unfolding s using v n l by simp
  next
    case (Cons y zs)
    then have "scan_positions (length ys) (Some ?rest) p = Done ys" for p using Cons.IH Cons.prems(1) by simp
    then show ?thesis unfolding s using v n l Cons by simp
  qed
qed simp

lemma read_batch_positions:
  assumes "line_word w" "line_int r" "line_ht True ht"
  shows "read_positions (batch_line True r w ht @ [newline]) (ht_termfreq ht) pos = Done (ht_pos ht)"
proof -
  have f: "line_int (ht_termfreq ht)" "ht_pos ht \<noteq> []" "nat (ht_termfreq ht) = length (ht_pos ht)"
    using assms(3) by (auto simp: line_ht_def ht_ok_def)
  let ?front = "w @ tab_char # pad_int 12 r @ tab_char # print_int (ht_termfreq ht)"
  have m: "prox_mark \<notin> set ?front"
    using assms(1) digits_plain(3) [OF pad_int_digits(2) [OF assms(2)]] digits_plain(3) [OF print_int_digits(2) [OF f(1)]] special_chars(8)
    by (auto simp: line_word_def)
  have "batch_line True r w ht @ [newline] = ?front @ prox_mark # positions_text (ht_pos ht) @ [newline]"
    using assms(1) by (simp add: batch_line_def positions_text_def)
  then show ?thesis
    using up_to_char(2) [OF m] scan_positions_text [OF _ f(2)] assms(3) f(3) by (simp add: read_positions_def line_ht_def)
qed

lemma batch_line_plain:
  assumes "line_word w" "line_int r" "line_ht proximity ht" shows "newline \<notin> set (batch_line proximity r w ht)"
proof -
  have "newline \<notin> set (positions_text xs)" if "\<forall>x \<in> set xs. line_int x" for xs
    using that digits_plain(2) [OF print_int_digits(2)] special_chars(11) by (auto simp: positions_text_def)
  then show ?thesis
    using assms digits_plain(2) [OF pad_int_digits(2) [OF assms(2)]] digits_plain(2) [OF print_int_digits(2), of "ht_termfreq ht"] special_chars(7,9)
    by (auto simp: batch_line_def line_word_def line_ht_def positions_text_def)
qed

section \<open>The order of lines\<close>

text \<open>Numbers of a fixed width are ordered as strings.\<close>

fun fixed_digits :: "nat \<Rightarrow> nat \<Rightarrow> string" where
  "fixed_digits 0 x = []"
| "fixed_digits (Suc n) x = fixed_digits n (x div 10) @ [digit_char (x mod 10)]"

lemma fixed_digits_nat: "nat_digits x = fixed_digits (length (nat_digits x)) x"
proof (induction x rule: nat_digits.induct)
  case (1 x)
  show ?case
  proof (cases "x < 10")
    case True
    then show ?thesis by (simp add: nat_digits.simps [of x])
  next
    case False
    then show ?thesis using 1 by (simp add: nat_digits.simps [of x])
  qed
qed

lemma fixed_digits_zeros: "x < 10 ^ n \<Longrightarrow> fixed_digits (k + n) x = replicate k CHR ''0'' @ fixed_digits n x"
proof (induction n arbitrary: x)
  case 0
  have "fixed_digits k 0 = replicate k CHR ''0''"
  proof (induction k)
    case (Suc k)
    have "digit_char 0 = CHR ''0''" by code_simp
    then show ?case using Suc by (simp add: replicate_append_same)
  qed simp
  then show ?case using 0 by simp
next
  case (Suc n)
  have "x div 10 < 10 ^ n" using Suc.prems by (intro less_mult_imp_div_less) (simp add: mult.commute)
  then show ?case using Suc.IH by simp
qed

lemma less_nat_digits: "x < 10 ^ length (nat_digits x)"
proof (induction x rule: nat_digits.induct)
  case (1 x)
  show ?case
  proof (cases "x < 10")
    case False
    then have "x div 10 < 10 ^ length (nat_digits (x div 10))" using 1 by simp
    then have "x < 10 ^ length (nat_digits (x div 10)) * 10" by (simp add: div_less_iff_less_mult)
    then show ?thesis using False by (simp add: nat_digits.simps [of x])
  qed (simp add: nat_digits.simps [of x])
qed

lemma pad_int_fixed: "line_int x \<Longrightarrow> pad_int 12 x = fixed_digits 12 (nat x)"
proof -
  assume x: "line_int x"
  let ?n = "length (nat_digits (nat x))"
  have "nat x < 10 ^ Suc 11" using x by (simp add: line_int_def nat_less_iff)
  then have n: "?n \<le> 12" using length_nat_digits [of "nat x" 11] by simp
  have "fixed_digits (12 - ?n + ?n) (nat x) = replicate (12 - ?n) CHR ''0'' @ nat_digits (nat x)"
    using fixed_digits_zeros [OF less_nat_digits] fixed_digits_nat by simp
  then show ?thesis using x n by (simp add: pad_int_def line_int_def Let_def)
qed

lemma less_append: "length as = length bs \<Longrightarrow> as < bs \<Longrightarrow> as @ cs < bs @ (ds :: 'a :: linorder list)"
  by (induction as bs rule: list_induct2) auto

lemma append_less [simp]: "as @ cs < as @ ds \<longleftrightarrow> cs < (ds :: 'a :: linorder list)"
  by (induction as) auto

lemma length_fixed_digits [simp]: "length (fixed_digits n x) = n"
  by (induction n arbitrary: x) simp_all

lemma digit_char_less: "a < b \<Longrightarrow> b < 10 \<Longrightarrow> digit_char a < digit_char b"
  by (simp add: digit_char_def less_char_def)

lemma fixed_digits_less: "x < y \<Longrightarrow> y < 10 ^ n \<Longrightarrow> fixed_digits n x < fixed_digits n y"
proof (induction n arbitrary: x y)
  case (Suc n)
  have y: "y div 10 < 10 ^ n" using Suc.prems(2) by (intro less_mult_imp_div_less) (simp add: mult.commute)
  show ?case
  proof (cases "x div 10 < y div 10")
    case True
    then show ?thesis using Suc.IH [OF True y] by (simp add: less_append)
  next
    case False
    moreover have "x div 10 \<le> y div 10" using Suc.prems(1) by (simp add: div_le_mono)
    ultimately have e: "x div 10 = y div 10" by simp
    then have "x mod 10 < y mod 10" using Suc.prems(1) by (metis div_mult_mod_eq nat_add_left_cancel_less)
    then show ?thesis using e digit_char_less by simp
  qed
qed simp

text \<open>The lines of a word are in the order of their records.\<close>

lemma batch_line_less:
  assumes "line_word w" "line_int r" "line_int q" "r < q"
  shows "batch_line proximity r w ht < batch_line proximity q w ht'"
proof -
  have "nat q < 10 ^ 12" using assms(3) by (simp add: line_int_def nat_less_iff)
  then have lt: "fixed_digits 12 (nat r) < fixed_digits 12 (nat q)"
    using assms(2-4) by (intro fixed_digits_less) (simp_all add: line_int_def)
  then show ?thesis
    using assms(1) less_append [OF _ lt] by (simp add: batch_line_def pad_int_fixed [OF assms(2)] pad_int_fixed [OF assms(3)])
qed

end
