(* ===== verification/Batch_Load.thy ===== *)
theory Batch_Load
  imports Batch_Line
begin

text \<open>
  Loading the sorted files of a batch run into the indexes: \<open>src/index/in_batch_load.c\<close>, and the loop of \<open>src/index/in_load.c\<close> over
  the records of a file. The theorems compare it with indexing record by record, which \<open>Posting_Index\<close> describes.

  The sort file is always made anew; a sort file left by an earlier run, and the checks of the sizes and the times of the files, are not modelled.
  \<open>place\<close> and \<open>pos0\<close> are what the places of an item enlarged by \<open>realloc\<close> and the local variable \<open>pos\<close> contain before they are set.
\<close>

section \<open>One index\<close>

text \<open>The variables of \<open>in_batch_load_main\<close>, with the hash table of superseded records as the list of its keys.\<close>

record 'w load =
  ld_file :: "'w kw_file"
  ld_hash :: "int list option"
  ld_scan :: "string \<times> int \<times> int"
  ld_last_key :: "string option"
  ld_newinfo :: "idx_result option"
  ld_block :: "octet list option"
  ld_last_block :: int
  ld_last_recnum :: int
  ld_count :: int

definition index_at :: "'w kw_file \<Rightarrow> nat \<Rightarrow> kw_idx" where
  "index_at f k = kf_indexes f ! k"

definition set_data :: "'w kw_file \<Rightarrow> nat \<Rightarrow> index_data \<Rightarrow> 'w kw_file" where
  "set_data f k d = f\<lparr>kf_indexes := (kf_indexes f)[k := (kf_indexes f ! k)\<lparr>kx_data := d\<rparr>]\<rparr>"

definition start_block :: "int \<Rightarrow> 'w load \<Rightarrow> 'w load" where
  "start_block recnum ld = ld\<lparr>ld_block := Some (bitblock_set bitmap_block_alloc recnum), ld_last_block := bitblock_id recnum,
     ld_last_recnum := recnum, ld_count := 1\<rparr>"

definition load_bitmap :: "nat \<Rightarrow> bitmap_index \<Rightarrow> 'w load \<Rightarrow> 'w load run" where
  "load_bitmap k b ld =
     (let (word, recnum, termfreq) = ld_scan ld
      in if ld_last_key ld = Some word
         then let block = (case ld_block ld of None \<Rightarrow> bitmap_block_alloc | Some c \<Rightarrow> c)
              in if bitblock_id recnum = ld_last_block ld
                 then Done (ld\<lparr>ld_block := Some (bitblock_set block recnum), ld_last_recnum := recnum, ld_count := ld_count ld + 1\<rparr>)
                 else run_bind (in_add_bitmap_entry b (ld_last_recnum ld) word (Some block) (ld_count ld)) (\<lambda>b1.
                   Done (start_block recnum (ld\<lparr>ld_file := set_data (ld_file ld) k (Bitmaps b1)\<rparr>)))
         else case ld_block ld of
              None \<Rightarrow> Done (start_block recnum ld\<lparr>ld_last_key := Some word\<rparr>)
            | Some c \<Rightarrow> run_bind (deref (ld_last_key ld)) (\<lambda>key.
                run_bind (in_add_bitmap_entry b (ld_last_recnum ld) key (Some c) (ld_count ld)) (\<lambda>b1.
                  Done (start_block recnum (ld\<lparr>ld_file := set_data (ld_file ld) k (Bitmaps b1), ld_last_key := Some word\<rparr>)))))"

text \<open>The item that is being collected is written back.\<close>

definition put_item :: "string \<Rightarrow> posting_index \<Rightarrow> 'w load \<Rightarrow> posting_index" where
  "put_item word p ld = (case ld_newinfo ld of None \<Rightarrow> p
     | Some info \<Rightarrow> p\<lparr>pi_terms := (pi_terms p)((case ld_last_key ld of None \<Rightarrow> word | Some key \<Rightarrow> key) := Some info)\<rparr>)"

definition load_prox :: "kw_idx \<Rightarrow> posting_index \<Rightarrow> string \<Rightarrow> int \<Rightarrow> int \<Rightarrow> int \<Rightarrow> int \<Rightarrow> posting_index run" where
  "load_prox idx p buffer recnum termfreq tid pos0 =
     (if kx_proximity idx
      then run_bind (read_positions buffer termfreq pos0) (\<lambda>newprox. PutPositionInfoArray (kx_prox_open idx) p recnum tid termfreq newprox)
      else Done p)"

definition drop_record :: "'w kw_env \<Rightarrow> 'w kw_file \<Rightarrow> int \<Rightarrow> 'w kw_file run" where
  "drop_record en f old_record = run_bind (in_kwdel en f old_record) (\<lambda>(_, f1). Done (f1\<lparr>kf_world := en_fil_del en (kf_world f1) old_record\<rparr>))"

text \<open>A further line of the same word.\<close>

definition load_same :: "'w kw_env \<Rightarrow> posting \<Rightarrow> int \<Rightarrow> nat \<Rightarrow> string \<Rightarrow> posting_index \<Rightarrow> 'w load \<Rightarrow> 'w load run" where
  "load_same en place pos0 k buffer p ld =
     (let (word, recnum, termfreq) = ld_scan ld
      in if kf_primary (ld_file ld) = Some k
         then run_bind (deref (ld_hash ld)) (\<lambda>hash.
           if kf_replace (ld_file ld)
           then run_bind (deref (ld_newinfo ld)) (\<lambda>newinfo. case ix_entries newinfo of
                [] \<Rightarrow> Crash
              | e # es \<Rightarrow> run_bind (drop_record en (ld_file ld) (po_record_no e)) (\<lambda>f1.
                  Done (ld\<lparr>ld_file := f1, ld_hash := Some (po_record_no e # hash),
                    ld_newinfo := Some (newinfo\<lparr>ix_entries := \<lparr>po_record_no = recnum, po_term_freq = termfreq\<rparr> # es\<rparr>)\<rparr>)))
           else Done (ld\<lparr>ld_hash := Some (recnum # hash)\<rparr>))
         else run_bind (deref (ld_newinfo ld)) (\<lambda>newinfo.
           run_bind (push_posting place newinfo recnum termfreq) (\<lambda>newinfo1.
             run_bind (load_prox (index_at (ld_file ld) k) (p\<lparr>pi_tot_occur := pi_tot_occur p + termfreq\<rparr>) buffer recnum termfreq (ix_termid newinfo1) pos0)
               (\<lambda>p1. Done (ld\<lparr>ld_newinfo := Some newinfo1, ld_file := set_data (ld_file ld) k (Postings p1)\<rparr>)))))"

text \<open>A new item for a word, or the one of the file with a place more.\<close>

definition load_item :: "posting_index \<Rightarrow> string \<Rightarrow> int \<Rightarrow> int \<Rightarrow> (posting_index \<times> idx_result) run" where
  "load_item p word recnum termfreq =
     (let p1 = p\<lparr>pi_tot_occur := pi_tot_occur p + termfreq\<rparr>
      in case pi_terms p word of
          Some info \<Rightarrow> run_bind (push_posting empty_place info recnum termfreq) (\<lambda>newinfo. Done (p1, newinfo))
        | None \<Rightarrow> Done (p1\<lparr>pi_recptr := pi_recptr p + 1\<rparr>, new_item (pi_recptr p) recnum termfreq))"

text \<open>
  The first line of a word. In the index of the primary key the item of the file is replaced by a new one, also when the message says
  that the new record is ignored.
\<close>

definition load_other :: "'w kw_env \<Rightarrow> int \<Rightarrow> nat \<Rightarrow> string \<Rightarrow> posting_index \<Rightarrow> 'w load \<Rightarrow> 'w load run" where
  "load_other en pos0 k buffer p ld =
     (let (word, recnum, termfreq) = ld_scan ld;
          f1 = set_data (ld_file ld) k (Postings (put_item word p ld))
      in run_bind
          (if kf_primary f1 = Some k
           then run_bind
             (case pi_terms (put_item word p ld) word of
                Some info \<Rightarrow>
                  if kf_replace f1 \<and> ix_num_entries info = 1
                  then (case ix_entries info of [] \<Rightarrow> Crash | e # _ \<Rightarrow> drop_record en f1 (po_record_no e)) else Done f1
              | None \<Rightarrow> Done f1)
             (\<lambda>f2. case kx_data (index_at f2 k) of
                Postings p2 \<Rightarrow> Done (set_data f2 k (Postings (p2\<lparr>pi_recptr := pi_recptr p2 + 1, pi_tot_occur := pi_tot_occur p2 + termfreq\<rparr>)),
                  new_item (pi_recptr p2) recnum termfreq)
              | Bitmaps _ \<Rightarrow> Crash)
           else run_bind (load_item (put_item word p ld) word recnum termfreq) (\<lambda>(p1, newinfo).
             run_bind (load_prox (index_at f1 k) p1 buffer recnum termfreq (ix_termid newinfo) pos0) (\<lambda>p2.
               Done (set_data f1 k (Postings p2), newinfo))))
          (\<lambda>(f3, newinfo). Done (ld\<lparr>ld_file := f3, ld_last_key := Some word, ld_newinfo := Some newinfo\<rparr>)))"

definition load_line :: "'w kw_env \<Rightarrow> posting \<Rightarrow> int \<Rightarrow> nat \<Rightarrow> string \<Rightarrow> 'w load \<Rightarrow> 'w load run" where
  "load_line en place pos0 k buffer ld =
     (if TEMP_BUFFER_SIZE < length buffer then Done ld
      else let ld1 = ld\<lparr>ld_scan := scan_line (ld_scan ld) buffer\<rparr>; (word, recnum, termfreq) = ld_scan ld1
           in case kx_data (index_at (ld_file ld1) k) of
               Bitmaps b \<Rightarrow> load_bitmap k b ld1
             | Postings p \<Rightarrow>
                 if (case ld_hash ld1 of None \<Rightarrow> False | Some hash \<Rightarrow> recnum \<in> set hash) then Done ld1
                 else if ld_last_key ld1 = Some word then load_same en place pos0 k buffer p ld1
                 else load_other en pos0 k buffer p ld1)"

fun load_lines :: "'w kw_env \<Rightarrow> posting \<Rightarrow> int \<Rightarrow> nat \<Rightarrow> string list \<Rightarrow> 'w load \<Rightarrow> 'w load run" where
  "load_lines en place pos0 k [] ld = Done ld"
| "load_lines en place pos0 k (buffer # rest) ld = run_bind (load_line en place pos0 k buffer ld) (load_lines en place pos0 k rest)"

text \<open>The last block or item.\<close>

definition load_end :: "nat \<Rightarrow> 'w load \<Rightarrow> 'w kw_file run" where
  "load_end k ld =
     (let (word, recnum, termfreq) = ld_scan ld
      in case kx_data (index_at (ld_file ld) k) of
          Bitmaps b \<Rightarrow> (case ld_block ld of
              None \<Rightarrow> Done (ld_file ld)
            | Some c \<Rightarrow> run_bind (in_add_bitmap_entry b (ld_last_recnum ld) word (Some c) (ld_count ld)) (\<lambda>b1.
                Done (set_data (ld_file ld) k (Bitmaps b1))))
        | Postings p \<Rightarrow> Done (set_data (ld_file ld) k (Postings (put_item word p ld))))"

definition start_load :: "'w kw_file \<Rightarrow> int list option \<Rightarrow> 'w load" where
  "start_load f hash = \<lparr>ld_file = f, ld_hash = hash, ld_scan = ([], 0, 0), ld_last_key = None, ld_newinfo = None,
     ld_block = None, ld_last_block = 0, ld_last_recnum = 0, ld_count = 0\<rparr>"

definition in_batch_load_main :: "'w kw_env \<Rightarrow> posting \<Rightarrow> int \<Rightarrow> nat \<Rightarrow> 'w kw_file \<Rightarrow> int list option \<Rightarrow> ('w kw_file \<times> int list option) run" where
  "in_batch_load_main en place pos0 k f hash =
     run_bind (load_lines en place pos0 k (fgets_all PROX_BUFFER_SIZE [] (batch_sort (kx_outfile (index_at f k)))) (start_load f hash)) (\<lambda>ld.
       run_bind (load_end k ld) (\<lambda>f1.
         Done (f1\<lparr>kf_indexes := (kf_indexes f1)[k := (index_at f1 k)\<lparr>kx_outfile := []\<rparr>]\<rparr>, ld_hash ld)))"

section \<open>All indexes\<close>

fun load_indexes :: "'w kw_env \<Rightarrow> posting \<Rightarrow> int \<Rightarrow> nat list \<Rightarrow> 'w kw_file \<Rightarrow> int list option \<Rightarrow> ('w kw_file \<times> int list option) run" where
  "load_indexes en place pos0 [] f hash = Done (f, hash)"
| "load_indexes en place pos0 (k # ks) f hash =
     run_bind (in_batch_load_main en place pos0 k f hash) (\<lambda>(f1, hash1). load_indexes en place pos0 ks f1 hash1)"

text \<open>The primary key first. The indexes of components are not among those of the model.\<close>

definition in_batch_load :: "'w kw_env \<Rightarrow> posting \<Rightarrow> int \<Rightarrow> 'w kw_file \<Rightarrow> 'w kw_file run" where
  "in_batch_load en place pos0 f =
     (let ks = [0..<length (kf_indexes f)];
          order = filter (\<lambda>k. kf_primary f = Some k) ks @ filter (\<lambda>k. kf_primary f \<noteq> Some k) ks
      in run_bind (load_indexes en place pos0 order f (if kf_primary f = None then None else Some [])) (\<lambda>(f1, hash). Done f1))"

text \<open>The loop of \<open>in_load\<close> over the records of a file: how it ends, \<open>last_rec_proc\<close> and the file.\<close>

datatype load_result = Loaded | Exited int

fun load_loop :: "'w kw_env \<Rightarrow> bool \<Rightarrow> int list \<Rightarrow> int \<Rightarrow> 'w kw_file \<Rightarrow> (load_result \<times> int \<times> 'w kw_file) run" where
  "load_loop en batch [] last_proc f = Done (Loaded, last_proc, f)"
| "load_loop en batch (i # is) last_proc f =
     run_bind (in_kwadd en f i batch) (\<lambda>(code, f1).
       if i \<noteq> last_proc + 1 then Done (Exited code, last_proc, f1)
       else if code \<le> 0 \<and> code \<noteq> - 2 then Done (Exited code, i, f1)
       else load_loop en batch is i f1)"

definition load_file :: "'w kw_env \<Rightarrow> posting \<Rightarrow> int \<Rightarrow> bool \<Rightarrow> int \<Rightarrow> int \<Rightarrow> int \<Rightarrow> 'w kw_file \<Rightarrow> (load_result \<times> int \<times> 'w kw_file) run" where
  "load_file en place pos0 batch startrec maxrec last_proc f =
     run_bind (load_loop en batch [startrec..maxrec] last_proc f) (\<lambda>(result, last1, f1).
       if result = Loaded \<and> batch then run_bind (in_batch_load en place pos0 f1) (\<lambda>f2. Done (result, last1, f2))
       else Done (result, last1, f1))"

section \<open>Items and positions\<close>

definition items_ok :: "(string \<Rightarrow> idx_result option) \<Rightarrow> int \<Rightarrow> bool" where
  "items_ok ts n \<longleftrightarrow> (\<forall>w info. ts w = Some info \<longrightarrow> item_ok info \<and> ix_termid info < n)
     \<and> (\<forall>v w s t. ts v = Some s \<longrightarrow> ts w = Some t \<longrightarrow> ix_termid s = ix_termid t \<longrightarrow> v = w)"

definition prox_ok :: "(int \<times> int \<Rightarrow> int list option) \<Rightarrow> int \<Rightarrow> bool" where
  "prox_ok px n \<longleftrightarrow> (\<forall>t r pos. px (t, r) = Some pos \<longrightarrow> pos \<noteq> [] \<and> t < n)"

lemma posting_ok_parts: "posting_ok p \<longleftrightarrow> items_ok (pi_terms p) (pi_recptr p) \<and> prox_ok (pi_prox p) (pi_recptr p)"
  by (simp add: posting_ok_def items_ok_def prox_ok_def)

lemma items_ok_replace:
  assumes "items_ok ts n" "ts w = Some old" "item_ok info" "ix_termid info = ix_termid old"
  shows "items_ok (ts(w := Some info)) n"
proof -
  have "ix_termid t \<noteq> ix_termid info" if "v \<noteq> w" "ts v = Some t" for v t
    using assms(1,2,4) that unfolding items_ok_def by metis
  then show ?thesis using assms unfolding items_ok_def by (fastforce split: if_splits)
qed

lemma items_ok_new:
  assumes "items_ok ts n" "item_ok info" "ix_termid info = n"
  shows "items_ok (ts(w := Some info)) (n + 1)"
proof -
  have "ix_termid t < n" if "ts v = Some t" for v t using assms(1) that by (simp add: items_ok_def)
  then show ?thesis using assms unfolding items_ok_def by (fastforce split: if_splits)
qed

lemma load_item_adds:
  assumes "items_ok (pi_terms p) (pi_recptr p)" "r \<notin> po_record_no ` set (postings p w)"
  shows "\<exists>p1 info. load_item p w r freq = Done (p1, info) \<and> pi_terms p1 = pi_terms p \<and> pi_prox p1 = pi_prox p \<and> pi_recptr p \<le> pi_recptr p1
    \<and> items_ok ((pi_terms p)(w := Some info)) (pi_recptr p1) \<and> ix_termid info < pi_recptr p1 \<and> pi_tot_occur p1 = pi_tot_occur p + freq
    \<and> item_postings info = postings p w @ [\<lparr>po_record_no = r, po_term_freq = freq\<rparr>]"
proof (cases "pi_terms p w")
  case None
  then show ?thesis using items_ok_new [OF assms(1), of "new_item (pi_recptr p) r freq" w] by (simp add: load_item_def Let_def postings_def)
next
  case (Some old)
  have o: "item_ok old" "ix_termid old < pi_recptr p" "postings p w = item_postings old"
    using assms(1) Some by (auto simp: items_ok_def postings_def)
  obtain new where new: "push_posting empty_place old r freq = Done new" "item_ok new" "ix_termid new = ix_termid old"
    "item_postings new = item_postings old @ [\<lparr>po_record_no = r, po_term_freq = freq\<rparr>]"
    using push_posting_item [OF o(1), of r empty_place freq] assms(2) o(3) by auto
  then show ?thesis using items_ok_replace [OF assms(1) Some new(2,3)] o Some by (simp add: load_item_def Let_def)
qed

lemma load_prox_keeps:
  assumes "prox_ok (pi_prox p) (pi_recptr p)" "tid < pi_recptr p" "line_word w" "line_int r" "line_ht (kx_proximity idx) ht"
  shows "\<exists>px. load_prox idx p (batch_line (kx_proximity idx) r w ht @ [newline]) r (ht_termfreq ht) tid pos0 = Done (p\<lparr>pi_prox := px\<rparr>)
    \<and> prox_ok px (pi_recptr p)"
proof (cases "kx_proximity idx")
  case False
  then show ?thesis using assms(1) by (intro exI [of _ "pi_prox p"]) (simp add: load_prox_def)
next
  case True
  then have h: "line_ht True ht" "int (length (ht_pos ht)) = ht_termfreq ht" "ht_pos ht \<noteq> []"
    using assms(5) by (auto simp: line_ht_def ht_ok_def)
  have same: "p\<lparr>pi_prox := pi_prox p\<rparr> = p" by simp
  have "\<exists>px. put_positions (kx_prox_open idx) p r tid (ht_termfreq ht) (ht_pos ht) = Done (p\<lparr>pi_prox := px\<rparr>) \<and> prox_ok px (pi_recptr p)"
  proof (cases "kx_prox_open idx")
    case False
    then show ?thesis using assms(1) same by (intro exI [of _ "pi_prox p"]) (simp add: put_positions_def)
  next
    case o: True
    show ?thesis
    proof (cases "pi_prox p (tid, r)")
      case None
      then show ?thesis using o assms(1,2) h
        by (intro exI [of _ "(pi_prox p)((tid, r) := Some (ht_pos ht))"]) (auto simp: put_positions_def prox_ok_def)
    next
      case (Some old)
      then show ?thesis using o assms(1,2) h
        by (intro exI [of _ "(pi_prox p)((tid, r) := Some (butlast old @ ht_pos ht))"]) (auto simp: put_positions_def prox_ok_def)
    qed
  qed
  then show ?thesis
    using read_batch_positions [OF assms(3,4) h(1)] True h(2) by (simp add: load_prox_def PutPositionInfoArray_def)
qed

lemma index_at_set [simp]: "k < length (kf_indexes f) \<Longrightarrow> index_at (set_data f k d) k = (index_at f k)\<lparr>kx_data := d\<rparr>"
  by (simp add: index_at_def set_data_def)

lemma set_data_simps [simp]:
  "kf_primary (set_data f k d) = kf_primary f" "length (kf_indexes (set_data f k d)) = length (kf_indexes f)" "kf_world (set_data f k d) = kf_world f"
  by (simp_all add: set_data_def)

lemma set_data_twice [simp]: "k < length (kf_indexes f) \<Longrightarrow> set_data (set_data f k d) k e = set_data f k e"
  by (cases f) (simp add: set_data_def)

lemma load_prox_data [simp]: "load_prox (idx\<lparr>kx_data := d\<rparr>) = load_prox idx"
  by (simp add: load_prox_def fun_eq_iff)

section \<open>The lines of an index with postings\<close>

text \<open>What the index says once the item in hand is written back.\<close>

definition load_ok :: "nat \<Rightarrow> 'w load \<Rightarrow> posting_index \<Rightarrow> bool" where
  "load_ok k ld p \<longleftrightarrow> k < length (kf_indexes (ld_file ld)) \<and> kf_primary (ld_file ld) \<noteq> Some k
     \<and> kx_data (index_at (ld_file ld) k) = Postings p \<and> (ld_newinfo ld = None \<longleftrightarrow> ld_last_key ld = None)
     \<and> posting_ok (put_item [] p ld)"

lemma put_item_word: "load_ok k ld p \<Longrightarrow> put_item w (p' :: posting_index) ld = put_item [] p' ld"
  by (auto simp: load_ok_def put_item_def split: option.splits)

definition short_line :: "bool \<Rightarrow> int \<times> string \<times> ht_data \<Rightarrow> bool" where
  "short_line proximity e = (case e of (r, w, ht) \<Rightarrow> line_word w \<and> line_int r \<and> line_ht proximity ht
     \<and> length (batch_line proximity r w ht) < TEMP_BUFFER_SIZE)"

definition entry_line :: "bool \<Rightarrow> int \<times> string \<times> ht_data \<Rightarrow> string" where
  "entry_line proximity e = (case e of (r, w, ht) \<Rightarrow> batch_line proximity r w ht)"

lemma load_line_adds:
  assumes "load_ok k ld p" "short_line (kx_proximity (index_at (ld_file ld) k)) (r, w, ht)"
    "r \<notin> po_record_no ` set (postings (put_item [] p ld) w)" "case ld_hash ld of None \<Rightarrow> True | Some hash \<Rightarrow> r \<notin> set hash"
  shows "\<exists>ld' p'. load_line en place pos0 k (entry_line (kx_proximity (index_at (ld_file ld) k)) (r, w, ht) @ [newline]) ld = Done ld'
    \<and> load_ok k ld' p' \<and> ld_file ld' = set_data (ld_file ld) k (Postings p') \<and> ld_hash ld' = ld_hash ld
    \<and> postings (put_item [] p' ld') = (postings (put_item [] p ld))(w := add_posting r ht (postings (put_item [] p ld) w))"
proof -
  let ?idx = "index_at (ld_file ld) k" and ?q = "put_item [] p ld" and ?f = "ht_termfreq ht" and ?e = "\<lparr>po_record_no = r, po_term_freq = ht_termfreq ht\<rparr>"
  let ?line = "batch_line (kx_proximity ?idx) r w ht @ [newline]" and ?ld = "ld\<lparr>ld_scan := (w, r, ht_termfreq ht)\<rparr>"
  have sh: "line_word w" "line_int r" "line_ht (kx_proximity ?idx) ht" "\<not> TEMP_BUFFER_SIZE < length ?line"
    using assms(2) by (auto simp: short_line_def)
  have ok: "k < length (kf_indexes (ld_file ld))" "kf_primary (ld_file ld) \<noteq> Some k" "kx_data ?idx = Postings p"
    "ld_newinfo ld = None \<longleftrightarrow> ld_last_key ld = None" "items_ok (pi_terms ?q) (pi_recptr ?q)" "prox_ok (pi_prox ?q) (pi_recptr ?q)"
    using assms(1) by (simp_all add: load_ok_def posting_ok_parts)
  have q: "pi_recptr ?q = pi_recptr p" "pi_prox ?q = pi_prox p" by (simp_all add: put_item_def split: option.splits)
  have run: "load_line en place pos0 k ?line ld
    = (if ld_last_key ld = Some w then load_same en place pos0 k ?line p ?ld else load_other en pos0 k ?line p ?ld)"
    using sh(4) ok(3) assms(4) scan_batch_line [OF sh(1-3), of "ld_scan ld"] by (cases "ld_hash ld") (simp_all add: load_line_def Let_def)
  show ?thesis
  proof (cases "ld_last_key ld = Some w")
    case True
    then obtain info where info: "ld_newinfo ld = Some info" using ok(4) by (cases "ld_newinfo ld") auto
    have w: "pi_terms ?q w = Some info" "postings ?q w = item_postings info" using info True by (simp_all add: put_item_def postings_def)
    have i: "item_ok info" "ix_termid info < pi_recptr p" using ok(5) w(1) q by (auto simp: items_ok_def)
    obtain new where new: "push_posting place info r ?f = Done new" "item_ok new" "ix_termid new = ix_termid info"
      "item_postings new = item_postings info @ [?e]"
      using push_posting_item [OF i(1), of r place ?f] assms(3) w(2) by auto
    let ?p1 = "p\<lparr>pi_tot_occur := pi_tot_occur p + ?f\<rparr>"
    obtain px where px: "load_prox ?idx ?p1 ?line r ?f (ix_termid new) pos0 = Done (?p1\<lparr>pi_prox := px\<rparr>)" "prox_ok px (pi_recptr p)"
      using load_prox_keeps [of ?p1 "ix_termid new", OF _ _ sh(1-3)] ok(6) q i(2) new(3) by auto
    let ?p' = "?p1\<lparr>pi_prox := px\<rparr>" and ?ld' = "?ld\<lparr>ld_newinfo := Some new, ld_file := set_data (ld_file ld) k (Postings (?p1\<lparr>pi_prox := px\<rparr>))\<rparr>"
    have step: "load_line en place pos0 k ?line ld = Done ?ld'"
      using run True ok(2) info new(1) px(1) by (simp add: load_same_def)
    have terms: "pi_terms (put_item [] ?p' ?ld') = (pi_terms ?q)(w := Some new)" using True info by (simp add: put_item_def)
    have "posting_ok (put_item [] ?p' ?ld')"
      using items_ok_replace [OF ok(5) w(1) new(2,3)] px(2) terms q(1) by (simp add: posting_ok_parts put_item_def True)
    moreover have "postings (put_item [] ?p' ?ld') = (postings ?q)(w := add_posting r ht (postings ?q w))"
      using terms new(4) w(2) by (auto simp: postings_def add_posting_def fun_eq_iff)
    ultimately show ?thesis
      using step ok(1,2) True by (intro exI [of _ ?ld'] exI [of _ ?p']) (simp add: load_ok_def entry_line_def)
  next
    case False
    have pw: "put_item w p ?ld = ?q" using put_item_word [OF assms(1), of w p] by (simp add: put_item_def split: option.splits)
    obtain p1 info where it: "load_item ?q w r ?f = Done (p1, info)" "pi_terms p1 = pi_terms ?q" "pi_prox p1 = pi_prox ?q" "pi_recptr ?q \<le> pi_recptr p1"
      "items_ok ((pi_terms ?q)(w := Some info)) (pi_recptr p1)" "ix_termid info < pi_recptr p1" "item_postings info = postings ?q w @ [?e]"
      using load_item_adds [OF ok(5) assms(3), of ?f] by blast
    have "prox_ok (pi_prox p1) (pi_recptr p1)" using ok(6) it(3,4) by (fastforce simp: prox_ok_def)
    then obtain px where px: "load_prox ?idx p1 ?line r ?f (ix_termid info) pos0 = Done (p1\<lparr>pi_prox := px\<rparr>)" "prox_ok px (pi_recptr p1)"
      using load_prox_keeps [of p1 "ix_termid info", OF _ it(6) sh(1-3)] by blast
    let ?p' = "p1\<lparr>pi_prox := px\<rparr>"
    let ?ld' = "?ld\<lparr>ld_file := set_data (ld_file ld) k (Postings ?p'), ld_last_key := Some w, ld_newinfo := Some info\<rparr>"
    have step: "load_line en place pos0 k ?line ld = Done ?ld'"
      using run False ok(1,2) it(1) px(1) by (simp add: load_other_def pw)
    have terms: "pi_terms (put_item [] ?p' ?ld') = (pi_terms ?q)(w := Some info)" using it(2) by (simp add: put_item_def)
    have "posting_ok (put_item [] ?p' ?ld')"
      using it(5) px(2) terms by (simp add: posting_ok_parts put_item_def)
    moreover have "postings (put_item [] ?p' ?ld') = (postings ?q)(w := add_posting r ht (postings ?q w))"
      using terms it(7) by (auto simp: postings_def add_posting_def fun_eq_iff)
    ultimately show ?thesis
      using step ok(1,2) by (intro exI [of _ ?ld'] exI [of _ ?p']) (simp add: load_ok_def entry_line_def)
  qed
qed

lemma set_data_same: "k < length (kf_indexes f) \<Longrightarrow> kx_data (index_at f k) = d \<Longrightarrow> set_data f k d = f"
proof -
  assume k: "k < length (kf_indexes f)" "kx_data (index_at f k) = d"
  have "(kf_indexes f ! k)\<lparr>kx_data := d\<rparr> = kf_indexes f ! k" using k(2) by (cases "kf_indexes f ! k") (simp add: index_at_def)
  then show ?thesis by (cases f) (simp add: set_data_def)
qed

definition word_entries :: "(int \<times> string \<times> ht_data) list \<Rightarrow> string \<Rightarrow> (int \<times> string \<times> ht_data) list" where
  "word_entries es w = filter (\<lambda>(r, v, ht). v = w) es"

definition entry_posting :: "int \<times> string \<times> ht_data \<Rightarrow> posting" where
  "entry_posting e = (case e of (r, w, ht) \<Rightarrow> \<lparr>po_record_no = r, po_term_freq = ht_termfreq ht\<rparr>)"

text \<open>Entries of records that are not in the index, none of them twice.\<close>

definition new_entries :: "(string \<Rightarrow> int set) \<Rightarrow> (int \<times> string \<times> ht_data) list \<Rightarrow> bool" where
  "new_entries recs es \<longleftrightarrow> distinct (map (\<lambda>(r, w, ht). (w, r)) es) \<and> (\<forall>(r, w, ht) \<in> set es. r \<notin> recs w)"

lemma new_entries_Cons:
  assumes "new_entries recs ((r, w, ht) # es)" "recs' = recs(w := insert r (recs w))"
  shows "r \<notin> recs w" "new_entries recs' es"
  using assms by (auto simp: new_entries_def image_iff split: prod.splits)

lemma load_lines_adds:
  assumes "load_ok k ld p" "\<forall>e \<in> set es. short_line (kx_proximity (index_at (ld_file ld) k)) e"
    "new_entries (\<lambda>w. po_record_no ` set (postings (put_item [] p ld) w)) es"
    "case ld_hash ld of None \<Rightarrow> True | Some hash \<Rightarrow> (\<forall>(r, w, ht) \<in> set es. r \<notin> set hash)"
  shows "\<exists>ld' p'. load_lines en place pos0 k (map (\<lambda>e. entry_line (kx_proximity (index_at (ld_file ld) k)) e @ [newline]) es) ld = Done ld'
    \<and> load_ok k ld' p' \<and> ld_file ld' = set_data (ld_file ld) k (Postings p') \<and> ld_hash ld' = ld_hash ld
    \<and> (\<forall>w. postings (put_item [] p' ld') w = postings (put_item [] p ld) w @ map entry_posting (word_entries es w))"
  using assms
proof (induction es arbitrary: ld p)
  case Nil
  then have "set_data (ld_file ld) k (Postings p) = ld_file ld" by (intro set_data_same) (simp_all add: load_ok_def)
  then show ?case using Nil by (intro exI [of _ ld] exI [of _ p]) (simp add: word_entries_def)
next
  case (Cons e es)
  obtain r w ht where e: "e = (r, w, ht)" by (cases e)
  let ?px = "kx_proximity (index_at (ld_file ld) k)" and ?recs = "\<lambda>p ld w. po_record_no ` set (postings (put_item [] p ld) w)"
  have h: "case ld_hash ld of None \<Rightarrow> True | Some hash \<Rightarrow> r \<notin> set hash" using Cons.prems(4) e by (auto split: option.splits)
  have s: "short_line ?px (r, w, ht)" using Cons.prems(2) e by simp
  obtain ld1 p1 where l: "load_line en place pos0 k (entry_line ?px (r, w, ht) @ [newline]) ld = Done ld1" "load_ok k ld1 p1"
    "ld_file ld1 = set_data (ld_file ld) k (Postings p1)" "ld_hash ld1 = ld_hash ld"
    "postings (put_item [] p1 ld1) = (postings (put_item [] p ld))(w := add_posting r ht (postings (put_item [] p ld) w))"
    using load_line_adds [OF Cons.prems(1) s new_entries_Cons(1) [OF Cons.prems(3) [unfolded e] refl] h] by blast
  have k: "k < length (kf_indexes (ld_file ld))" using Cons.prems(1) by (simp add: load_ok_def)
  have px: "kx_proximity (index_at (ld_file ld1) k) = ?px" using l(3) k by simp
  have n: "new_entries (?recs p1 ld1) es"
    by (rule new_entries_Cons(2) [OF Cons.prems(3) [unfolded e]]) (auto simp: l(5) add_posting_def fun_eq_iff)
  have "\<exists>ld' p'. load_lines en place pos0 k (map (\<lambda>e. entry_line (kx_proximity (index_at (ld_file ld1) k)) e @ [newline]) es) ld1 = Done ld'
    \<and> load_ok k ld' p' \<and> ld_file ld' = set_data (ld_file ld1) k (Postings p') \<and> ld_hash ld' = ld_hash ld1
    \<and> (\<forall>w. postings (put_item [] p' ld') w = postings (put_item [] p1 ld1) w @ map entry_posting (word_entries es w))"
    by (rule Cons.IH [OF l(2) _ n]) (use Cons.prems(2,4) px l(4) in \<open>auto split: option.splits\<close>)
  then obtain ld' p' where l': "load_lines en place pos0 k (map (\<lambda>e. entry_line ?px e @ [newline]) es) ld1 = Done ld'" "load_ok k ld' p'"
    "ld_file ld' = set_data (ld_file ld1) k (Postings p')" "ld_hash ld' = ld_hash ld1"
    "\<And>w. postings (put_item [] p' ld') w = postings (put_item [] p1 ld1) w @ map entry_posting (word_entries es w)"
    unfolding px by blast
  have "load_lines en place pos0 k (map (\<lambda>e. entry_line ?px e @ [newline]) (e # es)) ld = Done ld'" using l(1) l'(1) e by simp
  moreover have "ld_file ld' = set_data (ld_file ld) k (Postings p')" using l(3) l'(3) k by simp
  moreover have "postings (put_item [] p' ld') v = postings (put_item [] p ld) v @ map entry_posting (word_entries (e # es) v)" for v
    using l(5) l'(5) e by (simp add: word_entries_def entry_posting_def add_posting_def)
  ultimately show ?case using l'(2,4) l(4) by auto
qed

section \<open>The lines of a bitmap index\<close>

lemma or_blocks_bit:
  assumes "length b = 8192" "length c = 8192" "i < 65536"
  shows "block_bit (or_blocks b c) i \<longleftrightarrow> block_bit b i \<or> block_bit c i"
proof -
  have "i div 8 < 8192" using assms(3) by simp
  then show ?thesis using assms(1,2) by (simp add: block_bit_def or_blocks_def bit_or_iff)
qed

lemma or_blocks_length [simp]: "length b = n \<Longrightarrow> length c = n \<Longrightarrow> length (or_blocks b c) = n"
  by (simp add: or_blocks_def)

definition block_records :: "octet list \<Rightarrow> int \<Rightarrow> int set" where
  "block_records c blk = {q. record_ok q \<and> bitblock_id q = blk \<and> bitblock_test c q}"

lemma member_or_block:
  assumes "record_ok r" "record_ok q" "length c = 8192"
    and old: "\<forall>b. bi_blocks idx (block_key r tid) = Some b \<longrightarrow> length b = 8192"
    and new: "bi_blocks idx' = (bi_blocks idx)(block_key r tid :=
      Some (case bi_blocks idx (block_key r tid) of None \<Rightarrow> c | Some b \<Rightarrow> or_blocks b c))"
  shows "bit_member idx' sid q \<longleftrightarrow> bit_member idx sid q \<or> (sid = tid \<and> q \<in> block_records c (bitblock_id r))"
proof (cases "block_key q sid = block_key r tid")
  case True
  then have s: "sid = tid" "bitblock_id q = bitblock_id r"
    using block_id_short assms(1,2) by (simp_all add: block_key_def block_id_div)
  show ?thesis
    using new old True assms(2,3) s or_blocks_bit [OF _ assms(3) bit_index_lt]
    by (cases "bi_blocks idx (block_key r tid)") (auto simp: bit_member_def block_records_def bitblock_test_bit)
next
  case False
  then have "\<not> (sid = tid \<and> bitblock_id q = bitblock_id r)" by (auto simp: block_key_def)
  then show ?thesis using False new by (auto simp: bit_member_def block_records_def)
qed

lemma add_block_adds:
  assumes "bitmap_ok b" "record_ok r" "length c = 8192" "n = int (card (block_records c (bitblock_id r)))"
    "finite (block_records c (bitblock_id r))" "block_records c (bitblock_id r) \<inter> word_records b w = {}"
  shows "\<exists>b'. in_add_bitmap_entry b r w (Some c) n = Done b' \<and> bitmap_ok b'
    \<and> word_records b' = (word_records b)(w := word_records b w \<union> block_records c (bitblock_id r))"
proof -
  note ok = bitmap_okD [OF assms(1)]
  obtain b1 info where i: "add_term_info b r w n = (b1, info)" by force
  note f = add_term_info_facts [OF ok(1) i]
  let ?key = "block_key r (ti_termid info)"
  let ?b = "b1\<lparr>bi_blocks := (bi_blocks b1)(?key := Some (case bi_blocks b1 ?key of None \<Rightarrow> c | Some d \<Rightarrow> or_blocks d c))\<rparr>"
  have len: "\<forall>d. bi_blocks b1 ?key = Some d \<longrightarrow> length d = 8192" using index_block_length [OF f(4)] by blast
  have run: "in_add_bitmap_entry b r w (Some c) n = Done ?b"
    using i len by (simp add: in_add_bitmap_entry_def block_key_def bitmap_blocksize_bytes_def split: option.splits)
  have iok: "index_ok ?b"
    using f(4,5) len assms(3) unfolding index_ok_def by (auto simp: block_key_def bitmap_blocksize_bytes_def split: if_splits option.splits)
  have mem: "bit_member ?b sid q \<longleftrightarrow> bit_member b sid q \<or> (sid = ti_termid info \<and> q \<in> block_records c (bitblock_id r))" if "record_ok q" for sid q
    using member_or_block [OF assms(2) that assms(3) len, of ?b sid] f(1) by (simp add: bit_member_def)
  have fresh: "\<not> bit_member b (bi_recptr b) q" for q
    using ok(1) by (fastforce simp: bit_member_def index_ok_def block_key_def split: option.splits)
  have recs: "word_records ?b v = (if v = w then word_records b w \<union> block_records c (bitblock_id r) else word_records b v)" for v
  proof (cases "v = w")
    case True
    then show ?thesis using f(2,6) fresh mem
      by (cases "bi_terms b w") (auto simp: word_records_def block_records_def)
  next
    case False
    then have same: "bi_terms ?b v = bi_terms b v" using f(3) by simp
    have "ti_termid t \<noteq> ti_termid info" if "bi_terms b v = Some t" for t
      using f(2,4) same that False unfolding index_ok_def by fastforce
    then show ?thesis using False same mem by (auto simp: word_records_def split: option.splits)
  qed
  obtain info' where info': "bi_terms ?b = (bi_terms b)(w := Some info')"
    "ti_num_entries info' = (case bi_terms b w of None \<Rightarrow> n | Some old \<Rightarrow> ti_num_entries old + n)"
    using in_add_counts [OF run] by blast
  have "card (word_records b w \<union> block_records c (bitblock_id r)) = card (word_records b w) + card (block_records c (bitblock_id r))"
    using card_Un_disjoint [OF ok(2) [of w] assms(5)] assms(6) by (simp add: inf_commute)
  then have card: "ti_num_entries info' = int (card (word_records b w \<union> block_records c (bitblock_id r)))"
    using info'(2) assms(4) ok(3) [of w] word_records_None [of b w] by (cases "bi_terms b w") simp_all
  have "bitmap_ok ?b"
  proof (rule bitmap_okI [OF iok])
    show "finite (word_records ?b v)" for v using ok(2) assms(5) recs by simp
    show "ti_num_entries t = int (card (word_records ?b v))" if "bi_terms ?b v = Some t" for v t
      using that info'(1) card ok(3) recs by (cases "v = w") simp_all
  qed
  moreover have "word_records ?b = (word_records b)(w := word_records b w \<union> block_records c (bitblock_id r))" using recs by (auto simp: fun_eq_iff)
  ultimately show ?thesis using run by blast
qed

text \<open>The block in hand holds the records \<open>rs\<close> of the word.\<close>

definition block_ok :: "'w load \<Rightarrow> bitmap_index \<Rightarrow> int set \<Rightarrow> bool" where
  "block_ok ld b rs \<longleftrightarrow> (case (ld_block ld, ld_last_key ld) of
       (None, None) \<Rightarrow> rs = {}
     | (Some c, Some key) \<Rightarrow> length c = 8192 \<and> rs = block_records c (ld_last_block ld) \<and> finite rs \<and> ld_count ld = int (card rs)
         \<and> record_ok (ld_last_recnum ld) \<and> bitblock_id (ld_last_recnum ld) = ld_last_block ld \<and> rs \<inter> word_records b key = {}
     | _ \<Rightarrow> False)"

definition bits_loaded :: "nat \<Rightarrow> 'w load \<Rightarrow> bitmap_index \<Rightarrow> int set \<Rightarrow> bool" where
  "bits_loaded k ld b rs \<longleftrightarrow> k < length (kf_indexes (ld_file ld)) \<and> kx_data (index_at (ld_file ld) k) = Bitmaps b \<and> bitmap_ok b \<and> block_ok ld b rs"

definition view_with :: "'w load \<Rightarrow> bitmap_index \<Rightarrow> int set \<Rightarrow> string \<Rightarrow> int set" where
  "view_with ld b rs w = (if ld_last_key ld = Some w then word_records b w \<union> rs else word_records b w)"

lemma set_records:
  assumes "length c = 8192" "record_ok r" "bitblock_id r = blk"
  shows "block_records (bitblock_set c r) blk = insert r (block_records c blk)"
proof -
  have "bitblock_test (bitblock_set c r) q \<longleftrightarrow> bitblock_test c q \<or> q = r" if "record_ok q" "bitblock_id q = blk" for q
    using block_bit_update(1) [OF assms(1) bit_index_lt] block_bit_inj [OF that(1) assms(2)] that(2) assms(3)
    by (auto simp: bitblock_test_bit)
  then show ?thesis using assms(2,3) by (auto simp: block_records_def)
qed

lemma first_records: "record_ok r \<Longrightarrow> block_records (bitblock_set bitmap_block_alloc r) (bitblock_id r) = {r}"
proof -
  assume r: "record_ok r"
  have "length bitmap_block_alloc = 8192" by (simp add: bitmap_block_alloc_def bitmap_blocksize_bytes_def)
  moreover have "block_records bitmap_block_alloc blk = {}" for blk using bit_index_lt by (simp add: block_records_def bitblock_test_bit)
  ultimately show ?thesis using set_records r by simp
qed

lemma start_block_ok:
  assumes "record_ok r" "ld_last_key ld = Some w" "r \<notin> word_records b w"
  shows "block_ok (start_block r ld) b {r}"
  using assms first_records [OF assms(1)]
  by (simp add: block_ok_def start_block_def bitmap_block_alloc_def bitmap_blocksize_bytes_def)

lemma start_block_simps [simp]:
  "ld_file (start_block r ld) = ld_file ld" "ld_last_key (start_block r ld) = ld_last_key ld" "ld_scan (start_block r ld) = ld_scan ld"
  by (simp_all add: start_block_def)

text \<open>The block in hand is written into the index.\<close>

lemma flush_block:
  assumes "bits_loaded k ld b rs" "ld_block ld = Some c" "ld_last_key ld = Some key"
  shows "\<exists>b'. in_add_bitmap_entry b (ld_last_recnum ld) key (Some c) (ld_count ld) = Done b' \<and> bitmap_ok b' \<and> word_records b' = view_with ld b rs"
proof -
  have "length c = 8192" "rs = block_records c (bitblock_id (ld_last_recnum ld))" "finite rs" "ld_count ld = int (card rs)"
    "record_ok (ld_last_recnum ld)" "rs \<inter> word_records b key = {}" "bitmap_ok b"
    using assms by (auto simp: bits_loaded_def block_ok_def)
  then obtain b' where "in_add_bitmap_entry b (ld_last_recnum ld) key (Some c) (ld_count ld) = Done b'" "bitmap_ok b'"
    "word_records b' = (word_records b)(key := word_records b key \<union> rs)"
    using add_block_adds by blast
  then show ?thesis using assms(3) by (auto simp: view_with_def fun_eq_iff)
qed

lemma load_bitmap_adds:
  assumes "bits_loaded k ld b rs" "record_ok r" "r \<notin> view_with ld b rs w"
  shows "\<exists>ld' b' rs'. load_bitmap k b (ld\<lparr>ld_scan := (w, r, freq)\<rparr>) = Done ld' \<and> bits_loaded k ld' b' rs'
    \<and> ld_file ld' = set_data (ld_file ld) k (Bitmaps b') \<and> ld_last_key ld' = Some w \<and> ld_scan ld' = (w, r, freq)
    \<and> view_with ld' b' rs' = (view_with ld b rs)(w := insert r (view_with ld b rs w))"
proof -
  let ?ld = "ld\<lparr>ld_scan := (w, r, freq)\<rparr>"
  have k: "k < length (kf_indexes (ld_file ld))" "kx_data (index_at (ld_file ld) k) = Bitmaps b" "bitmap_ok b" "block_ok ld b rs"
    using assms(1) by (simp_all add: bits_loaded_def)
  have same: "set_data (ld_file ld) k (Bitmaps b) = ld_file ld" by (rule set_data_same [OF k(1,2)])
  show ?thesis
  proof (cases "ld_last_key ld")
    case None
    then have n: "ld_block ld = None" "rs = {}" using k(4) by (auto simp: block_ok_def split: option.splits)
    let ?l = "start_block r ?ld\<lparr>ld_last_key := Some w\<rparr>"
    have l: "?l = start_block r (?ld\<lparr>ld_last_key := Some w\<rparr>)" by (simp add: start_block_def)
    have w: "r \<notin> word_records b w" using assms(3) None by (simp add: view_with_def)
    have "load_bitmap k b ?ld = Done ?l" using None n by (simp add: load_bitmap_def)
    moreover have "bits_loaded k ?l b {r}"
      using k start_block_ok [of r "?ld\<lparr>ld_last_key := Some w\<rparr>" w b] assms(2) w unfolding l by (simp add: bits_loaded_def)
    moreover have "view_with ?l b {r} = (view_with ld b rs)(w := insert r (view_with ld b rs w))"
      using None by (auto simp: view_with_def fun_eq_iff)
    ultimately show ?thesis using same by (intro exI [of _ ?l] exI [of _ b] exI [of _ "{r}"]) (simp add: start_block_def)
  next
    case (Some key)
    then obtain c where c: "ld_block ld = Some c" "length c = 8192" "rs = block_records c (ld_last_block ld)" "finite rs" "ld_count ld = int (card rs)"
      using k(4) by (auto simp: block_ok_def split: option.splits)
    obtain b' where b': "in_add_bitmap_entry b (ld_last_recnum ld) key (Some c) (ld_count ld) = Done b'" "bitmap_ok b'" "word_records b' = view_with ld b rs"
      using flush_block [OF assms(1) c(1) Some] by blast
    let ?l = "start_block r (?ld\<lparr>ld_file := set_data (ld_file ld) k (Bitmaps b'), ld_last_key := Some w\<rparr>)"
    have new: "bits_loaded k ?l b' {r}" "view_with ?l b' {r} = (view_with ld b rs)(w := insert r (view_with ld b rs w))"
    proof -
      have "block_ok ?l b' {r}" by (rule start_block_ok) (use assms(2,3) b'(3) in simp_all)
      then show "bits_loaded k ?l b' {r}" using k b'(2) by (simp add: bits_loaded_def)
      show "view_with ?l b' {r} = (view_with ld b rs)(w := insert r (view_with ld b rs w))"
        using b'(3) by (auto simp: view_with_def fun_eq_iff)
    qed
    have new': "\<exists>ld' b' rs'. start_block r (?ld\<lparr>ld_file := set_data (ld_file ld) k (Bitmaps b0), ld_last_key := Some w\<rparr>) = ld' \<and> bits_loaded k ld' b' rs'
        \<and> ld_file ld' = set_data (ld_file ld) k (Bitmaps b') \<and> ld_last_key ld' = Some w \<and> ld_scan ld' = (w, r, freq)
        \<and> view_with ld' b' rs' = (view_with ld b rs)(w := insert r (view_with ld b rs w))" if "b0 = b'" for b0
      using new that by (intro exI [of _ ?l] exI [of _ b'] exI [of _ "{r}"]) simp
    show ?thesis
    proof (cases "key = w")
      case False
      then have "load_bitmap k b ?ld = Done ?l" using Some c(1) b'(1) by (simp add: load_bitmap_def)
      then show ?thesis using new'[OF refl] by simp
    next
      case True
      show ?thesis
      proof (cases "bitblock_id r = ld_last_block ld")
        case False
        have e: "ld\<lparr>ld_scan := (w, r, freq), ld_file := f\<rparr> = ld\<lparr>ld_scan := (w, r, freq), ld_file := f, ld_last_key := Some w\<rparr>" for f
          using Some True by (cases ld) simp
        have "load_bitmap k b ?ld = Done ?l" unfolding e [symmetric] using Some True False c(1) b'(1) by (simp add: load_bitmap_def)
        then show ?thesis using new' [OF refl] by simp
      next
        case same_block: True
        let ?l = "?ld\<lparr>ld_block := Some (bitblock_set c r), ld_last_recnum := r, ld_count := ld_count ld + 1\<rparr>"
        have run: "load_bitmap k b ?ld = Done ?l" using Some True same_block c(1) by (simp add: load_bitmap_def)
        have r: "r \<notin> rs" "r \<notin> word_records b w" using assms(3) Some True by (auto simp: view_with_def)
        have "rs \<inter> word_records b key = {}" using k(4) Some c(1) by (auto simp: block_ok_def)
        then have "block_ok ?l b (insert r rs)"
          using Some True c set_records [OF c(2) assms(2) same_block] r assms(2) same_block by (simp add: block_ok_def)
        then have "bits_loaded k ?l b (insert r rs)" using k by (simp add: bits_loaded_def)
        moreover have "view_with ?l b (insert r rs) = (view_with ld b rs)(w := insert r (view_with ld b rs w))"
          using Some True by (auto simp: view_with_def fun_eq_iff)
        ultimately show ?thesis using run same Some True by (intro exI [of _ ?l] exI [of _ b] exI [of _ "insert r rs"]) simp
      qed
    qed
  qed
qed

lemma run_bind_DoneE:
  assumes "run_bind x f = Done y"
  obtains z where "x = Done z" "f z = Done y"
  using assms by (cases x) auto

lemma load_bitmap_hash: "load_bitmap k b ld = Done ld1 \<Longrightarrow> ld_hash ld1 = ld_hash ld"
  by (auto simp: load_bitmap_def Let_def start_block_def split: if_splits option.splits prod.splits elim!: run_bind_DoneE)

lemma start_load_simps [simp]:
  "ld_file (start_load f hash) = f" "ld_hash (start_load f hash) = hash" "ld_last_key (start_load f hash) = None"
  "ld_newinfo (start_load f hash) = None" "ld_block (start_load f hash) = None"
  by (simp_all add: start_load_def)

lemma data_records_simps:
  "data_records (Postings p) = (\<lambda>w. po_record_no ` set (postings p w))" "data_records (Bitmaps b) = word_records b"
  by (simp_all add: data_records_def fun_eq_iff)

definition word_in_hand :: "'w load \<Rightarrow> bool" where
  "word_in_hand ld \<longleftrightarrow> ld_last_key ld = None \<or> ld_last_key ld = Some (fst (ld_scan ld))"

lemma load_bitmap_lines:
  assumes "bits_loaded k ld b rs" "word_in_hand ld" "\<forall>e \<in> set es. short_line (kx_proximity (index_at (ld_file ld) k)) e \<and> record_ok (fst e)"
    "new_entries (view_with ld b rs) es"
  shows "\<exists>ld' b' rs'. load_lines en place pos0 k (map (\<lambda>e. entry_line (kx_proximity (index_at (ld_file ld) k)) e @ [newline]) es) ld = Done ld'
    \<and> bits_loaded k ld' b' rs' \<and> word_in_hand ld' \<and> ld_file ld' = set_data (ld_file ld) k (Bitmaps b') \<and> ld_hash ld' = ld_hash ld
    \<and> (\<forall>w. view_with ld' b' rs' w = view_with ld b rs w \<union> fst ` set (word_entries es w))"
  using assms
proof (induction es arbitrary: ld b rs)
  case Nil
  then have "set_data (ld_file ld) k (Bitmaps b) = ld_file ld" by (intro set_data_same) (simp_all add: bits_loaded_def)
  then show ?case using Nil by (intro exI [of _ ld] exI [of _ b] exI [of _ rs]) (simp add: word_entries_def)
next
  case (Cons e es)
  obtain r w ht where e: "e = (r, w, ht)" by (cases e)
  let ?px = "kx_proximity (index_at (ld_file ld) k)"
  let ?line = "batch_line ?px r w ht @ [newline]"
  have sh: "line_word w" "line_int r" "line_ht ?px ht" "\<not> TEMP_BUFFER_SIZE < length ?line" "record_ok r"
    using Cons.prems(3) e by (auto simp: short_line_def)
  have k: "k < length (kf_indexes (ld_file ld))" "kx_data (index_at (ld_file ld) k) = Bitmaps b" using Cons.prems(1) by (simp_all add: bits_loaded_def)
  obtain ld1 b1 rs1 where l: "load_bitmap k b (ld\<lparr>ld_scan := (w, r, ht_termfreq ht)\<rparr>) = Done ld1" "bits_loaded k ld1 b1 rs1"
    "ld_file ld1 = set_data (ld_file ld) k (Bitmaps b1)" "ld_last_key ld1 = Some w" "ld_scan ld1 = (w, r, ht_termfreq ht)"
    "view_with ld1 b1 rs1 = (view_with ld b rs)(w := insert r (view_with ld b rs w))"
    using load_bitmap_adds [OF Cons.prems(1) sh(5) new_entries_Cons(1) [OF Cons.prems(4) [unfolded e] refl]] by blast
  have hash: "ld_hash ld1 = ld_hash ld" using load_bitmap_hash [OF l(1)] by simp
  have step: "load_line en place pos0 k (entry_line ?px e @ [newline]) ld = Done ld1"
    using sh(4) k(2) scan_batch_line [OF sh(1-3), of "ld_scan ld"] l(1) by (simp add: load_line_def Let_def entry_line_def e)
  have px: "kx_proximity (index_at (ld_file ld1) k) = ?px" using l(3) k by simp
  have "\<exists>ld' b' rs'. load_lines en place pos0 k (map (\<lambda>e. entry_line (kx_proximity (index_at (ld_file ld1) k)) e @ [newline]) es) ld1 = Done ld'
    \<and> bits_loaded k ld' b' rs' \<and> word_in_hand ld' \<and> ld_file ld' = set_data (ld_file ld1) k (Bitmaps b') \<and> ld_hash ld' = ld_hash ld1
    \<and> (\<forall>w. view_with ld' b' rs' w = view_with ld1 b1 rs1 w \<union> fst ` set (word_entries es w))"
  proof (rule Cons.IH [OF l(2)])
    show "word_in_hand ld1" using l(4,5) by (simp add: word_in_hand_def)
    show "\<forall>e \<in> set es. short_line (kx_proximity (index_at (ld_file ld1) k)) e \<and> record_ok (fst e)" using Cons.prems(3) px by simp
    show "new_entries (view_with ld1 b1 rs1) es" by (rule new_entries_Cons(2) [OF Cons.prems(4) [unfolded e] l(6)])
  qed
  then obtain ld' b' rs' where l': "load_lines en place pos0 k (map (\<lambda>e. entry_line ?px e @ [newline]) es) ld1 = Done ld'" "bits_loaded k ld' b' rs'"
    "word_in_hand ld'" "ld_file ld' = set_data (ld_file ld1) k (Bitmaps b')" "ld_hash ld' = ld_hash ld1"
    "\<And>w. view_with ld' b' rs' w = view_with ld1 b1 rs1 w \<union> fst ` set (word_entries es w)"
    unfolding px by blast
  have "view_with ld' b' rs' v = view_with ld b rs v \<union> fst ` set (word_entries (e # es) v)" for v
    using l(6) l'(6) e by (auto simp: word_entries_def)
  then show ?case using step l' l(3) k hash by auto
qed

section \<open>A whole file of lines\<close>

text \<open>What loading a list of entries does to an index.\<close>

definition entries_added :: "index_data \<Rightarrow> (int \<times> string \<times> ht_data) list \<Rightarrow> index_data \<Rightarrow> bool" where
  "entries_added d es d' = (case (d, d') of
       (Postings p, Postings p') \<Rightarrow> \<forall>w. postings p' w = postings p w @ map entry_posting (word_entries es w)
     | (Bitmaps b, Bitmaps b') \<Rightarrow> \<forall>w. word_records b' w = word_records b w \<union> fst ` set (word_entries es w)
     | _ \<Rightarrow> False)"

lemma sort_map: "sort (map f xs) = map f (sort_key f xs)" for f :: "'a \<Rightarrow> 'b :: linorder"
  by (rule properties_for_sort) simp_all

lemma load_sorted:
  assumes "k < length (kf_indexes f)" "data_ok (kx_data (index_at f k))" "kf_primary f \<noteq> Some k"
    "\<forall>e \<in> set es. short_line (kx_proximity (index_at f k)) e \<and> record_ok (fst e)"
    "new_entries (data_records (kx_data (index_at f k))) es"
    "case hash of None \<Rightarrow> True | Some h \<Rightarrow> (\<forall>(r, w, ht) \<in> set es. r \<notin> set h)"
  shows "\<exists>ld d'. load_lines en place pos0 k (map (\<lambda>e. entry_line (kx_proximity (index_at f k)) e @ [newline]) es) (start_load f hash) = Done ld
    \<and> load_end k ld = Done (set_data f k d') \<and> ld_hash ld = hash \<and> data_ok d' \<and> entries_added (kx_data (index_at f k)) es d'"
proof (cases "kx_data (index_at f k)")
  case (Postings p)
  have put: "put_item [] p (start_load f hash) = p" by (simp add: put_item_def)
  have start: "load_ok k (start_load f hash) p"
    using assms(1-3) Postings put by (simp add: load_ok_def data_ok_def)
  obtain ld p' where l: "load_lines en place pos0 k (map (\<lambda>e. entry_line (kx_proximity (index_at f k)) e @ [newline]) es) (start_load f hash) = Done ld"
    "load_ok k ld p'" "ld_file ld = set_data f k (Postings p')" "ld_hash ld = hash"
    "\<And>w. postings (put_item [] p' ld) w = postings p w @ map entry_posting (word_entries es w)"
    using load_lines_adds [OF start, of es en place pos0] assms(4-6) Postings put by (auto simp: data_records_simps)
  have "load_end k ld = Done (set_data f k (Postings (put_item [] p' ld)))"
  proof -
    obtain w r n where s: "ld_scan ld = (w, r, n)" by (cases "ld_scan ld")
    have "put_item w p' ld = put_item [] p' ld" by (rule put_item_word [OF l(2)])
    then show ?thesis using s l(3) assms(1) by (simp add: load_end_def)
  qed
  then show ?thesis using l Postings by (auto simp: data_ok_def load_ok_def entries_added_def)
next
  case (Bitmaps b)
  have start: "bits_loaded k (start_load f hash) b {}" "word_in_hand (start_load f hash)" "view_with (start_load f hash) b {} = word_records b"
    using assms(1,2) Bitmaps by (simp_all add: bits_loaded_def data_ok_def block_ok_def word_in_hand_def view_with_def fun_eq_iff)
  obtain ld b' rs where l: "load_lines en place pos0 k (map (\<lambda>e. entry_line (kx_proximity (index_at f k)) e @ [newline]) es) (start_load f hash) = Done ld"
    "bits_loaded k ld b' rs" "word_in_hand ld" "ld_file ld = set_data f k (Bitmaps b')" "ld_hash ld = hash"
    "\<And>w. view_with ld b' rs w = word_records b w \<union> fst ` set (word_entries es w)"
    using load_bitmap_lines [OF start(1,2), of es en place pos0] assms(4,5) Bitmaps start(3)
    by (auto simp: data_records_simps)
  obtain b2 where b2: "load_end k ld = Done (set_data f k (Bitmaps b2))" "bitmap_ok b2" "word_records b2 = view_with ld b' rs"
  proof (cases "ld_block ld")
    case None
    then have "rs = {}" "ld_last_key ld = None" using l(2) by (auto simp: bits_loaded_def block_ok_def split: option.splits)
    then show thesis
      using that [of b'] None l(2,4) assms(1) by (simp add: load_end_def view_with_def bits_loaded_def fun_eq_iff split: prod.split)
  next
    case (Some c)
    then obtain key where key: "ld_last_key ld = Some key" using l(2) by (auto simp: bits_loaded_def block_ok_def split: option.splits)
    obtain b2 where "in_add_bitmap_entry b' (ld_last_recnum ld) key (Some c) (ld_count ld) = Done b2" "bitmap_ok b2" "word_records b2 = view_with ld b' rs"
      using flush_block [OF l(2) Some key] by blast
    then show thesis
      using that [of b2] Some key l(3,4) assms(1) by (cases "ld_scan ld") (auto simp: load_end_def word_in_hand_def)
  qed
  then show ?thesis using l Bitmaps by (auto simp: data_ok_def entries_added_def)
qed

lemma entry_line_less:
  "short_line proximity (r, w, ht) \<Longrightarrow> short_line proximity (q, w, ht') \<Longrightarrow> r < q \<Longrightarrow> entry_line proximity (r, w, ht) < entry_line proximity (q, w, ht')"
  using batch_line_less by (simp add: short_line_def entry_line_def)

lemma new_entries_sorted: "new_entries recs es \<Longrightarrow> new_entries recs (sort_key g es)"
proof -
  let ?h = "\<lambda>(r, w, ht). (w, r)"
  have "mset (map ?h (sort_key g es)) = mset (map ?h es)" by simp
  then have "distinct (map ?h (sort_key g es)) = distinct (map ?h es)" by (rule mset_eq_imp_distinct_iff)
  then show "new_entries recs es \<Longrightarrow> new_entries recs (sort_key g es)" by (simp add: new_entries_def)
qed

text \<open>The file of an index is loaded as if its lines were those of each word in the order of the records.\<close>

lemma in_batch_load_main_adds:
  assumes "k < length (kf_indexes f)" "data_ok (kx_data (index_at f k))" "kf_primary f \<noteq> Some k"
    "\<forall>e \<in> set es. short_line (kx_proximity (index_at f k)) e \<and> record_ok (fst e)"
    "new_entries (data_records (kx_data (index_at f k))) es"
    "case hash of None \<Rightarrow> True | Some h \<Rightarrow> (\<forall>(r, w, ht) \<in> set es. r \<notin> set h)"
    "kx_outfile (index_at f k) = unlines (map (entry_line (kx_proximity (index_at f k))) es)"
    "\<forall>w. sorted (map (entry_line (kx_proximity (index_at f k))) (word_entries es w))"
  shows "\<exists>d'. in_batch_load_main en place pos0 k f hash
      = Done (f\<lparr>kf_indexes := (kf_indexes f)[k := (index_at f k)\<lparr>kx_data := d', kx_outfile := []\<rparr>]\<rparr>, hash)
    \<and> data_ok d' \<and> entries_added (kx_data (index_at f k)) es d'"
proof -
  let ?line = "entry_line (kx_proximity (index_at f k))" and ?px = "kx_proximity (index_at f k)"
  let ?es = "sort_key ?line es"
  have plain: "\<forall>l \<in> set (map ?line es). newline \<notin> set l \<and> length l + 1 < PROX_BUFFER_SIZE"
    using assms(4) batch_line_plain by (fastforce simp: short_line_def entry_line_def TEMP_BUFFER_SIZE_def PROX_BUFFER_SIZE_def)
  have lines: "fgets_all PROX_BUFFER_SIZE [] (batch_sort (kx_outfile (index_at f k))) = map (\<lambda>e. ?line e @ [newline]) ?es"
  proof -
    have "batch_sort (kx_outfile (index_at f k)) = unlines (map ?line ?es)"
      using plain text_lines_unlines [of "map ?line es"] by (simp add: batch_sort_def assms(7) sort_map)
    moreover have "\<forall>l \<in> set (map ?line ?es). newline \<notin> set l \<and> length l + 1 < PROX_BUFFER_SIZE" using plain by simp
    ultimately show ?thesis using fgets_all_unlines by (simp add: o_def)
  qed
  have same: "word_entries ?es w = word_entries es w" for w
  proof -
    have "word_entries ?es w = sort_key ?line (word_entries es w)" by (simp add: word_entries_def filter_sort)
    then show ?thesis using assms(8) by (simp add: sorted_sort_id sort_key_id_if_sorted)
  qed
  have new: "new_entries (data_records (kx_data (index_at f k))) ?es" using assms(5) new_entries_sorted by blast
  have hash: "case hash of None \<Rightarrow> True | Some h \<Rightarrow> (\<forall>(r, w, ht) \<in> set ?es. r \<notin> set h)" using assms(6) by (cases hash) simp_all
  obtain ld d' where l: "load_lines en place pos0 k (map (\<lambda>e. ?line e @ [newline]) ?es) (start_load f hash) = Done ld"
    "load_end k ld = Done (set_data f k d')" "ld_hash ld = hash" "data_ok d'" "entries_added (kx_data (index_at f k)) ?es d'"
    using load_sorted [OF assms(1-3) _ new hash, of en place pos0] assms(4) by auto
  have "entries_added (kx_data (index_at f k)) es d'" using l(5) same by (simp add: entries_added_def split: index_data.splits)
  moreover have "in_batch_load_main en place pos0 k f hash
      = Done (f\<lparr>kf_indexes := (kf_indexes f)[k := (index_at f k)\<lparr>kx_data := d', kx_outfile := []\<rparr>]\<rparr>, hash)"
    using l(1-3) assms(1) by (simp add: in_batch_load_main_def lines) (simp add: set_data_def index_at_def)
  ultimately show ?thesis using l(4) by blast
qed

section \<open>A batch run and a run record by record\<close>

text \<open>What a record contributes to the file of an index, and what the records from \<open>s\<close> to \<open>i - 1\<close> do, of which those that are parsed count.\<close>

definition record_entries :: "int \<Rightarrow> (string \<times> ht_data) list \<Rightarrow> (int \<times> string \<times> ht_data) list" where
  "record_entries r ws = map (\<lambda>(w, ht). (r, w, ht)) ws"

definition run_entries :: "(int \<Rightarrow> sgml_state) \<Rightarrow> (int \<Rightarrow> (string \<times> ht_data) list) \<Rightarrow> int \<Rightarrow> int \<Rightarrow> (int \<times> string \<times> ht_data) list" where
  "run_entries st ext s i = concat (map (\<lambda>r. record_entries r (ext r)) (filter (\<lambda>r. st r = Parsed) [s..i - 1]))"

text \<open>The words of a record can be written on lines, and none of them has the record yet.\<close>

definition batch_record :: "kw_idx \<Rightarrow> int \<Rightarrow> (string \<times> ht_data) list \<Rightarrow> bool" where
  "batch_record idx r ws \<longleftrightarrow> distinct (map fst ws)
     \<and> (\<forall>(w, ht) \<in> set ws. short_line (kx_proximity idx) (r, w, ht) \<and> r \<notin> data_records (kx_data idx) w)"

lemma batch_recordD: "batch_record idx r ws \<Longrightarrow> distinct (map fst ws)"
  by (simp add: batch_record_def)

text \<open>What the loading of a file needs of its entries, all of records before \<open>i\<close>.\<close>

definition entries_ok :: "kw_idx \<Rightarrow> int \<Rightarrow> (int \<times> string \<times> ht_data) list \<Rightarrow> bool" where
  "entries_ok idx i es \<longleftrightarrow> (\<forall>e \<in> set es. short_line (kx_proximity idx) e \<and> record_ok (fst e) \<and> fst e < i)
     \<and> new_entries (data_records (kx_data idx)) es \<and> (\<forall>w. sorted (map (entry_line (kx_proximity idx)) (word_entries es w)))"

lemma run_entries_start [simp]: "run_entries st ext s s = []"
  by (simp add: run_entries_def)

lemma run_entries_step:
  "s \<le> i \<Longrightarrow> run_entries st ext s (i + 1) = run_entries st ext s i @ (if st i = Parsed then record_entries i (ext i) else [])"
  using upto_rec2 [of s i] by (simp add: run_entries_def)

lemma word_entries_append [simp]: "word_entries (es @ fs) w = word_entries es w @ word_entries fs w"
  by (simp add: word_entries_def)

lemma word_entries_record:
  "distinct (map fst ws) \<Longrightarrow> word_entries (record_entries r ws) w = (case map_of ws w of None \<Rightarrow> [] | Some ht \<Rightarrow> [(r, w, ht)])"
proof (induction ws)
  case (Cons x ws)
  obtain v ht where x: "x = (v, ht)" by (cases x)
  show ?case
  proof (cases "v = w")
    case True
    then have "map_of ws w = None" using Cons.prems x by (auto simp: map_of_eq_None_iff)
    then show ?thesis using True Cons x by (simp add: word_entries_def record_entries_def)
  next
    case False
    then show ?thesis using Cons x by (simp add: word_entries_def record_entries_def)
  qed
qed (simp add: word_entries_def record_entries_def)

lemma entries_ok_later: "entries_ok idx i es \<Longrightarrow> entries_ok idx (i + 1) es"
  by (fastforce simp: entries_ok_def)

lemma entries_ok_record:
  assumes "entries_ok idx i es" "batch_record idx i ws" "record_ok i"
  shows "entries_ok idx (i + 1) (es @ record_entries i ws)"
proof -
  let ?line = "entry_line (kx_proximity idx)"
  have old: "\<forall>e \<in> set es. short_line (kx_proximity idx) e \<and> record_ok (fst e) \<and> fst e < i"
    and b: "record_ok i" "distinct (map fst ws)" "\<forall>(w, ht) \<in> set ws. short_line (kx_proximity idx) (i, w, ht) \<and> i \<notin> data_records (kx_data idx) w"
    using assms by (simp_all add: entries_ok_def batch_record_def)
  have "\<forall>e \<in> set (es @ record_entries i ws). short_line (kx_proximity idx) e \<and> record_ok (fst e) \<and> fst e < i + 1"
    using old b by (fastforce simp: record_entries_def)
  moreover have "new_entries (data_records (kx_data idx)) (es @ record_entries i ws)"
  proof -
    have "map (\<lambda>(r, w, ht). (w, r)) (record_entries i ws) = map (\<lambda>w. (w, i)) (map fst ws)"
      by (simp add: record_entries_def case_prod_beta)
    then have "distinct (map (\<lambda>(r, w, ht). (w, r)) (record_entries i ws))"
      using b(2) by (simp only: distinct_map) (auto intro: inj_onI)
    moreover have "set (map (\<lambda>(r, w, ht). (w, r)) es) \<inter> set (map (\<lambda>(r, w, ht). (w, r)) (record_entries i ws)) = {}"
      using old by (fastforce simp: record_entries_def)
    ultimately show ?thesis
      using assms(1) b(3) by (auto simp: entries_ok_def new_entries_def record_entries_def)
  qed
  moreover have "sorted (map ?line (word_entries (es @ record_entries i ws) w))" for w
  proof (cases "map_of ws w")
    case None
    then show ?thesis using assms(1) word_entries_record [OF b(2)] by (simp add: entries_ok_def)
  next
    case (Some ht)
    then have new: "short_line (kx_proximity idx) (i, w, ht)" using b(3) map_of_SomeD by fastforce
    have "?line e < ?line (i, w, ht)" if "e \<in> set (word_entries es w)" for e
      using that old new entry_line_less [of "kx_proximity idx"] by (fastforce simp: word_entries_def)
    then show ?thesis
      using assms(1) word_entries_record [OF b(2)] Some by (auto simp: entries_ok_def sorted_append intro: less_imp_le)
  qed
  ultimately show ?thesis by (simp add: entries_ok_def)
qed

lemma entries_added_record:
  assumes "entries_added d es d1" "data_added d1 r ws d2" "distinct (map fst ws)"
  shows "entries_added d (es @ record_entries r ws) d2"
  using assms(1,2) word_entries_record [OF assms(3)]
  by (auto simp: entries_added_def data_added_def all_words_def entry_posting_def add_posting_def split: index_data.splits option.splits)

lemma entries_added_nothing [simp]: "entries_added d [] d' = data_same d d'"
  by (auto simp: entries_added_def data_same_def word_entries_def fun_eq_iff split: index_data.splits)

lemma entries_added_same: "entries_added d es d1 \<Longrightarrow> entries_added d es d2 \<Longrightarrow> data_same d1 d2"
  by (auto simp: entries_added_def data_same_def fun_eq_iff split: index_data.splits)

lemma entries_added_records: "entries_added d es d' \<Longrightarrow> data_records d' w = data_records d w \<union> fst ` set (word_entries es w)"
  by (force simp: entries_added_def data_records_def entry_posting_def split: index_data.splits)

text \<open>The loop over the records, with an invariant for the records before \<open>i\<close>.\<close>

lemma load_loop_all:
  assumes "\<And>i f. J i f \<Longrightarrow> s \<le> i \<Longrightarrow> i \<le> m \<Longrightarrow> \<exists>code f1. in_kwadd en f i batch = Done (code, f1) \<and> (0 < code \<or> code = - 2) \<and> J (i + 1) f1"
    and "J i f" "s \<le> i" "i \<le> m + 1"
  shows "\<exists>f1. load_loop en batch [i..m] (i - 1) f = Done (Loaded, m, f1) \<and> J (m + 1) f1"
  using assms(2-4)
proof (induction "nat (m + 1 - i)" arbitrary: i f)
  case 0
  then show ?case by simp
next
  case (Suc n)
  then have i: "i \<le> m" "n = nat (m + 1 - (i + 1))" by auto
  obtain code f1 where f1: "in_kwadd en f i batch = Done (code, f1)" "0 < code \<or> code = - 2" "J (i + 1) f1"
    using assms(1) [OF Suc.prems(1,2) i(1)] by blast
  have "\<exists>f2. load_loop en batch [i + 1..m] (i + 1 - 1) f1 = Done (Loaded, m, f2) \<and> J (m + 1) f2"
    by (rule Suc.hyps(1) [OF i(2) f1(3)]) (use Suc.prems i in auto)
  then show ?case using f1(1,2) i(1) by (auto simp: upto_rec1)
qed

text \<open>Record by record: the indexes before record \<open>i\<close> have the entries of the records before it.\<close>

definition records_added :: "(int \<Rightarrow> sgml_state) \<Rightarrow> (nat \<Rightarrow> int \<Rightarrow> (string \<times> ht_data) list) \<Rightarrow> 'w kw_file \<Rightarrow> int \<Rightarrow> int \<Rightarrow> 'w kw_file \<Rightarrow> bool" where
  "records_added st ext f s i f1 \<longleftrightarrow> kf_type f1 = kf_type f \<and> kf_primary f1 = None
     \<and> each_index (\<lambda>k idx d. entries_ok idx i (run_entries st (ext k) s i) \<and> entries_added (kx_data idx) (run_entries st (ext k) s i) d)
         (kf_indexes f) (kf_indexes f1)"

text \<open>A batch run: the same entries are in the files of the indexes.\<close>

definition records_written :: "(int \<Rightarrow> sgml_state) \<Rightarrow> (nat \<Rightarrow> int \<Rightarrow> (string \<times> ht_data) list) \<Rightarrow> 'w kw_file \<Rightarrow> int \<Rightarrow> int \<Rightarrow> 'w kw_file \<Rightarrow> bool" where
  "records_written st ext f s i f1 \<longleftrightarrow> kf_type f1 = kf_type f \<and> kf_primary f1 = None \<and> length (kf_indexes f1) = length (kf_indexes f)
     \<and> (\<forall>k < length (kf_indexes f). let idx = kf_indexes f ! k; es = run_entries st (ext k) s i in
          entries_ok idx i es \<and> kf_indexes f1 ! k = idx\<lparr>kx_outfile := unlines (map (entry_line (kx_proximity idx)) es)\<rparr>)"

text \<open>
  The file to be loaded, without a primary key and with empty batch files, and the records from \<open>s\<close> to \<open>m\<close>, which can all be read,
  but of which some may be marked as deleted or fail to be parsed.
\<close>

definition loadable :: "'w kw_env \<Rightarrow> (int \<Rightarrow> sgml_state) \<Rightarrow> (nat \<Rightarrow> int \<Rightarrow> (string \<times> ht_data) list) \<Rightarrow> int \<Rightarrow> int \<Rightarrow> 'w kw_file \<Rightarrow> bool" where
  "loadable en st ext s m f \<longleftrightarrow> kf_type f \<in> set kwadd_types \<and> kf_primary f = None
     \<and> (\<forall>w r. en_sgml en w r = st r) \<and> (\<forall>w k r. en_extract en w k r = ext k r) \<and> (\<forall>r. s \<le> r \<longrightarrow> r \<le> m \<longrightarrow> record_ok r \<and> st r \<noteq> Read_error)
     \<and> (\<forall>k < length (kf_indexes f). data_ok (kx_data (kf_indexes f ! k)) \<and> kx_outfile (kf_indexes f ! k) = []
          \<and> (\<forall>r. s \<le> r \<longrightarrow> r \<le> m \<longrightarrow> st r = Parsed \<longrightarrow> batch_record (kf_indexes f ! k) r (ext k r)))"

lemma kw_idx_same [simp]: "idx\<lparr>kx_data := kx_data idx\<rparr> = idx" "idx\<lparr>kx_outfile := kx_outfile idx\<rparr> = idx"
  by simp_all

lemma entries_ok_outfile [simp]: "entries_ok (idx\<lparr>kx_outfile := x\<rparr>) = entries_ok idx"
  by (simp add: entries_ok_def fun_eq_iff)

lemma entries_ok_start [simp]: "entries_ok idx i []"
  by (simp add: entries_ok_def new_entries_def word_entries_def)

lemma records_added_start: "loadable en st ext s m f \<Longrightarrow> records_added st ext f s s f"
  by (auto simp: records_added_def loadable_def each_index_def data_same_def split: index_data.splits)

lemma records_written_start: "loadable en st ext s m f \<Longrightarrow> records_written st ext f s s f"
proof -
  assume f: "loadable en st ext s m f"
  have "kf_indexes f ! k = (kf_indexes f ! k)\<lparr>kx_outfile := []\<rparr>" if "k < length (kf_indexes f)" for k
  proof -
    have "kx_outfile (kf_indexes f ! k) = []" using f that by (simp add: loadable_def)
    then show ?thesis by (cases "kf_indexes f ! k") simp
  qed
  then show ?thesis using f by (auto simp: records_written_def loadable_def unlines_def Let_def)
qed

lemma each_index_mono:
  "each_index R ids ids' \<Longrightarrow> (\<And>k d. k < length ids \<Longrightarrow> data_ok d \<Longrightarrow> R k (ids ! k) d \<Longrightarrow> S k (ids ! k) d) \<Longrightarrow> each_index S ids ids'"
  by (auto simp: each_index_def)

lemma each_index_trans:
  assumes "each_index R ids ids1" "each_index S ids1 ids2"
    "\<And>k d1 d2. k < length ids \<Longrightarrow> R k (ids ! k) d1 \<Longrightarrow> S k ((ids ! k)\<lparr>kx_data := d1\<rparr>) d2 \<Longrightarrow> T k (ids ! k) d2"
  shows "each_index T ids ids2"
  unfolding each_index_def
proof (intro conjI allI impI)
  fix k assume k: "k < length ids"
  have 1: "ids1 ! k = (ids ! k)\<lparr>kx_data := kx_data (ids1 ! k)\<rparr>" "R k (ids ! k) (kx_data (ids1 ! k))"
    and 2: "data_ok (kx_data (ids2 ! k))" "ids2 ! k = (ids1 ! k)\<lparr>kx_data := kx_data (ids2 ! k)\<rparr>" "S k (ids1 ! k) (kx_data (ids2 ! k))"
    using assms(1,2) k by (auto simp: each_index_def)
  show "data_ok (kx_data (ids2 ! k))" by (rule 2(1))
  show "ids2 ! k = (ids ! k)\<lparr>kx_data := kx_data (ids2 ! k)\<rparr>" by (subst 2(2), subst 1(1)) simp
  show "T k (ids ! k) (kx_data (ids2 ! k))" by (rule assms(3) [OF k 1(2)]) (use 2(3) 1(1) in simp)
qed (use assms(1,2) in \<open>auto simp: each_index_def\<close>)

lemma in_kwadd_skips:
  assumes "kf_type f \<in> set kwadd_types" "en_sgml en (kf_world f) r = state" "state = Parse_error \<or> state = Deleted_record"
  shows "\<exists>code. in_kwadd en f r batch = Done (code, f) \<and> (0 < code \<or> code = - 2)"
  using assms by (auto simp: in_kwadd_def)

lemma records_added_step:
  assumes "loadable en st ext s m f" "records_added st ext f s i f1" "s \<le> i" "i \<le> m"
  shows "\<exists>code f2. in_kwadd en f1 i False = Done (code, f2) \<and> (0 < code \<or> code = - 2) \<and> records_added st ext f s (i + 1) f2"
proof -
  have l: "kf_type f1 \<in> set kwadd_types" "en_sgml en (kf_world f1) i = st i" "\<And>k. en_extract en (kf_world f1) k i = ext k i" "st i \<noteq> Read_error" "record_ok i"
    and idx: "\<forall>k < length (kf_indexes f). st i = Parsed \<longrightarrow> batch_record (kf_indexes f ! k) i (ext k i)"
    using assms by (auto simp: loadable_def records_added_def)
  show ?thesis
  proof (cases "st i = Parsed")
    case False
    then have "st i = Parse_error \<or> st i = Deleted_record" using l(4) by (cases "st i") simp_all
    then obtain code where "in_kwadd en f1 i False = Done (code, f1)" "0 < code \<or> code = - 2" using in_kwadd_skips [OF l(1,2)] by blast
    moreover have "records_added st ext f s (i + 1) f1"
      using assms(2,3) False by (auto simp: records_added_def run_entries_step entries_ok_later elim: each_index_mono)
    ultimately show ?thesis by blast
  next
    case True
    note e = assms(2) [unfolded records_added_def each_index_def]
    have new: "new_words (kf_indexes f1 ! k) i (ext k i)" if "k < length (kf_indexes f1)" for k
    proof -
      have k: "kf_indexes f1 ! k = (kf_indexes f ! k)\<lparr>kx_data := kx_data (kf_indexes f1 ! k)\<rparr>"
        "entries_ok (kf_indexes f ! k) i (run_entries st (ext k) s i)" "batch_record (kf_indexes f ! k) i (ext k i)"
        "entries_added (kx_data (kf_indexes f ! k)) (run_entries st (ext k) s i) (kx_data (kf_indexes f1 ! k))"
        using e idx True that by auto
      have px: "kx_proximity (kf_indexes f1 ! k) = kx_proximity (kf_indexes f ! k)" by (subst k(1)) simp
      show ?thesis
        using k(2,3) px entries_added_records [OF k(4)]
        by (fastforce simp: new_words_def batch_record_def short_line_def line_ht_def entries_ok_def word_entries_def)
    qed
    have old: "each_index (\<lambda>k idx d. entries_ok idx i (run_entries st (ext k) s i) \<and> entries_added (kx_data idx) (run_entries st (ext k) s i) d)
        (kf_indexes f) (kf_indexes f1)"
      using assms(2) by (simp add: records_added_def)
    have p: "primary_new f1 ext" for ext using e by (simp add: primary_new_def)
    have ready: "\<forall>k < length (kf_indexes f1). data_ok (kx_data (kf_indexes f1 ! k)) \<and> new_words (kf_indexes f1 ! k) i (en_extract en (kf_world f1) k i)"
      using e new l(3) by auto
    obtain f2 where f2: "in_kwadd en f1 i False = Done (1, f2)" "kf_type f2 = kf_type f1" "kf_primary f2 = kf_primary f1"
      "each_index (\<lambda>k idx d. data_added (kx_data idx) i (ext k i) d) (kf_indexes f1) (kf_indexes f2)"
      using in_kwadd_new [OF l(1) _ p _ ready] l(2,3,5) True by auto
    have "each_index (\<lambda>k idx d. entries_ok idx (i + 1) (run_entries st (ext k) s (i + 1))
        \<and> entries_added (kx_data idx) (run_entries st (ext k) s (i + 1)) d) (kf_indexes f) (kf_indexes f2)"
      by (rule each_index_trans [OF old f2(4)])
         (use assms(3) idx l(5) True in \<open>auto simp: run_entries_step intro: entries_ok_record entries_added_record dest: batch_recordD\<close>)
    then show ?thesis using f2(1-3) e by (auto simp: records_added_def)
  qed
qed

lemma unlines_append [simp]: "unlines (xs @ ys) = unlines xs @ unlines ys"
  by (simp add: unlines_def)

lemma lines_of_record:
  "unlines (map (entry_line px) (record_entries r ((w, ht) # ws))) = batch_line px r w ht @ newline # unlines (map (entry_line px) (record_entries r ws))"
  by (simp add: unlines_def record_entries_def entry_line_def)

lemma batch_words_writes:
  assumes "\<forall>(w, ht) \<in> set ws. kx_proximity idx \<longrightarrow> ht_pos ht \<noteq> []"
  shows "\<exists>n'. batch_words idx r ws n
    = Done (idx\<lparr>kx_outfile := kx_outfile idx @ unlines (map (entry_line (kx_proximity idx)) (record_entries r ws))\<rparr>, n')"
  using assms
proof (induction ws arbitrary: idx n)
  case Nil
  then show ?case by (simp add: record_entries_def unlines_def)
next
  case (Cons x ws)
  obtain w ht where x: "x = (w, ht)" by (cases x)
  let ?idx = "idx\<lparr>kx_outfile := kx_outfile idx @ batch_line (kx_proximity idx) r w ht @ [newline]\<rparr>"
  have "\<exists>n'. batch_words ?idx r ws n0
    = Done (?idx\<lparr>kx_outfile := kx_outfile ?idx @ unlines (map (entry_line (kx_proximity ?idx)) (record_entries r ws))\<rparr>, n')" for n0
    by (rule Cons.IH) (use Cons.prems in simp)
  then show ?case using Cons.prems x lines_of_record by (auto simp: Let_def)
qed

lemma add_indexes_writes:
  assumes "\<forall>k < length ids. \<forall>(w, ht) \<in> set (ext (j + k)). kx_proximity (ids ! k) \<longrightarrow> ht_pos ht \<noteq> []"
  shows "\<exists>ids' n'. add_indexes ext r True j ids n = Done (ids', n') \<and> length ids' = length ids
    \<and> (\<forall>k < length ids. ids' ! k = (ids ! k)\<lparr>kx_outfile := kx_outfile (ids ! k)
         @ unlines (map (entry_line (kx_proximity (ids ! k))) (record_entries r (ext (j + k))))\<rparr>)"
  using assms
proof (induction ids arbitrary: j n)
  case (Cons idx rest)
  have "\<forall>(w, ht) \<in> set (ext j). kx_proximity idx \<longrightarrow> ht_pos ht \<noteq> []" using Cons.prems by force
  then obtain n1 where n1: "batch_words idx r (ext j) n
    = Done (idx\<lparr>kx_outfile := kx_outfile idx @ unlines (map (entry_line (kx_proximity idx)) (record_entries r (ext j)))\<rparr>, n1)"
    using batch_words_writes by blast
  have "\<forall>k < length rest. \<forall>(w, ht) \<in> set (ext (Suc j + k)). kx_proximity (rest ! k) \<longrightarrow> ht_pos ht \<noteq> []" using Cons.prems by force
  then obtain rest' n2 where r: "add_indexes ext r True (Suc j) rest n1 = Done (rest', n2)" "length rest' = length rest"
    "\<forall>k < length rest. rest' ! k = (rest ! k)\<lparr>kx_outfile := kx_outfile (rest ! k)
         @ unlines (map (entry_line (kx_proximity (rest ! k))) (record_entries r (ext (Suc j + k))))\<rparr>"
    using Cons.IH by blast
  have c: "count_record d 0 = d" for d by (simp add: count_record_def)
  show ?case using n1 r c by (auto simp: nth_Cons split: nat.split)
qed simp

lemma records_written_step:
  assumes "loadable en st ext s m f" "records_written st ext f s i f1" "s \<le> i" "i \<le> m"
  shows "\<exists>code f2. in_kwadd en f1 i True = Done (code, f2) \<and> (0 < code \<or> code = - 2) \<and> records_written st ext f s (i + 1) f2"
proof -
  have l: "kf_type f1 \<in> set kwadd_types" "en_sgml en (kf_world f1) i = st i" "\<And>k. en_extract en (kf_world f1) k i = ext k i" "st i \<noteq> Read_error"
      "record_ok i" "kf_primary f1 = None"
    and idx: "\<forall>k < length (kf_indexes f). st i = Parsed \<longrightarrow> batch_record (kf_indexes f ! k) i (ext k i)"
    using assms by (auto simp: loadable_def records_written_def)
  show ?thesis
  proof (cases "st i = Parsed")
    case False
    then have "st i = Parse_error \<or> st i = Deleted_record" using l(4) by (cases "st i") simp_all
    then obtain code where "in_kwadd en f1 i True = Done (code, f1)" "0 < code \<or> code = - 2" using in_kwadd_skips [OF l(1,2)] by blast
    moreover have "records_written st ext f s (i + 1) f1"
      using assms(2,3) False by (auto simp: records_written_def Let_def run_entries_step entries_ok_later)
    ultimately show ?thesis by blast
  next
    case True
    have e: "length (kf_indexes f1) = length (kf_indexes f)" "kf_type f1 = kf_type f"
      "\<And>k. k < length (kf_indexes f) \<Longrightarrow> entries_ok (kf_indexes f ! k) i (run_entries st (ext k) s i)"
      "\<And>k. k < length (kf_indexes f) \<Longrightarrow> kf_indexes f1 ! k
         = (kf_indexes f ! k)\<lparr>kx_outfile := unlines (map (entry_line (kx_proximity (kf_indexes f ! k))) (run_entries st (ext k) s i))\<rparr>"
      using assms(2) by (simp_all add: records_written_def Let_def)
    have "\<forall>(w, ht) \<in> set (ext k i). kx_proximity (kf_indexes f1 ! k) \<longrightarrow> ht_pos ht \<noteq> []" if "k < length (kf_indexes f1)" for k
      using that e(1,4) idx True by (fastforce simp: batch_record_def short_line_def line_ht_def ht_ok_def)
    then obtain ids n where ids: "add_indexes (\<lambda>k. ext k i) i True 0 (kf_indexes f1) 0 = Done (ids, n)" "length ids = length (kf_indexes f1)"
      "\<forall>k < length (kf_indexes f1). ids ! k = (kf_indexes f1 ! k)\<lparr>kx_outfile := kx_outfile (kf_indexes f1 ! k)
         @ unlines (map (entry_line (kx_proximity (kf_indexes f1 ! k))) (record_entries i (ext k i)))\<rparr>"
      using add_indexes_writes [of "kf_indexes f1" "\<lambda>k. ext k i" 0 i 0] by auto
    obtain f2 where f2: "in_kwadd en f1 i True = Done (1, f2)" "kf_type f2 = kf_type f1" "kf_primary f2 = None" "kf_indexes f2 = ids"
      using l(1-3,6) ids(1) True by (simp add: in_kwadd_def Let_def)
    have "records_written st ext f s (i + 1) f2"
      using f2(2-4) ids(2,3) e idx l(5) True assms(3)
      by (auto simp: records_written_def Let_def run_entries_step intro: entries_ok_record)
    then show ?thesis using f2(1) by auto
  qed
qed

text \<open>Loading the files of several indexes, one after the other.\<close>

definition index_written :: "(int \<times> string \<times> ht_data) list \<Rightarrow> kw_idx \<Rightarrow> bool" where
  "index_written es idx \<longleftrightarrow> data_ok (kx_data idx) \<and> (\<exists>i. entries_ok idx i es)
     \<and> kx_outfile idx = unlines (map (entry_line (kx_proximity idx)) es)"

definition index_loaded :: "(int \<times> string \<times> ht_data) list \<Rightarrow> kw_idx \<Rightarrow> kw_idx \<Rightarrow> bool" where
  "index_loaded es idx idx' \<longleftrightarrow> (\<exists>d. data_ok d \<and> entries_added (kx_data idx) es d \<and> idx' = idx\<lparr>kx_data := d, kx_outfile := []\<rparr>)"

lemma load_indexes_adds:
  assumes "distinct ks" "\<forall>k \<in> set ks. k < length (kf_indexes f) \<and> index_written (es k) (kf_indexes f ! k)" "kf_primary f = None"
  shows "\<exists>f'. load_indexes en place pos0 ks f None = Done (f', None) \<and> length (kf_indexes f') = length (kf_indexes f)
    \<and> (\<forall>k < length (kf_indexes f). if k \<in> set ks then index_loaded (es k) (kf_indexes f ! k) (kf_indexes f' ! k) else kf_indexes f' ! k = kf_indexes f ! k)"
  using assms
proof (induction ks arbitrary: f)
  case (Cons k ks)
  have k: "k < length (kf_indexes f)" "index_written (es k) (kf_indexes f ! k)" "k \<notin> set ks" using Cons.prems by simp_all
  obtain d where d: "in_batch_load_main en place pos0 k f None
      = Done (f\<lparr>kf_indexes := (kf_indexes f)[k := (kf_indexes f ! k)\<lparr>kx_data := d, kx_outfile := []\<rparr>]\<rparr>, None)"
    "data_ok d" "entries_added (kx_data (kf_indexes f ! k)) (es k) d"
    using in_batch_load_main_adds [OF k(1), of "es k" None en place pos0] k(2) Cons.prems(3)
    unfolding index_at_def by (auto simp: index_written_def entries_ok_def)
  let ?f = "f\<lparr>kf_indexes := (kf_indexes f)[k := (kf_indexes f ! k)\<lparr>kx_data := d, kx_outfile := []\<rparr>]\<rparr>"
  have "\<forall>j \<in> set ks. j < length (kf_indexes ?f) \<and> index_written (es j) (kf_indexes ?f ! j)"
    using Cons.prems(2) k(3) by (auto simp: nth_list_update)
  then obtain f' where f': "load_indexes en place pos0 ks ?f None = Done (f', None)" "length (kf_indexes f') = length (kf_indexes ?f)"
    "\<forall>j < length (kf_indexes ?f). if j \<in> set ks then index_loaded (es j) (kf_indexes ?f ! j) (kf_indexes f' ! j) else kf_indexes f' ! j = kf_indexes ?f ! j"
    using Cons.IH [of ?f] Cons.prems(1,3) by auto
  have "index_loaded (es k) (kf_indexes f ! k) (kf_indexes f' ! k)" using f'(3) k d(2,3) by (auto simp: index_loaded_def)
  moreover have "index_loaded (es j) (kf_indexes f ! j) (kf_indexes f' ! j)" if "j \<in> set ks" "j < length (kf_indexes f)" for j
  proof -
    have "j \<noteq> k" using that(1) k(3) by auto
    then show ?thesis using f'(3) that by auto
  qed
  moreover have "kf_indexes f' ! j = kf_indexes f ! j" if "j \<notin> set ks" "j < length (kf_indexes f)" "j \<noteq> k" for j
    using f'(3) that by auto
  ultimately show ?case using d(1) f'(1,2) by auto
qed simp

lemma in_batch_load_adds:
  assumes "kf_primary f = None" "\<forall>k < length (kf_indexes f). index_written (es k) (kf_indexes f ! k)"
  shows "\<exists>f'. in_batch_load en place pos0 f = Done f' \<and> length (kf_indexes f') = length (kf_indexes f)
    \<and> (\<forall>k < length (kf_indexes f). index_loaded (es k) (kf_indexes f ! k) (kf_indexes f' ! k))"
  using load_indexes_adds [of "[0..<length (kf_indexes f)]" f es en place pos0] assms by (auto simp: in_batch_load_def)

text \<open>
  C9: a batch run gives the indexes of a file the contents that indexing its records one by one gives them. Both runs end, and in every
  index each word has, behind the postings it had, those of the records in which it occurs, in the order of the records and with
  the frequency of the word, or these records in its bitmap; records that are deleted or that cannot be parsed are skipped. Both leave well-formed
  indexes, and the batch run leaves no temporary file.
\<close>

theorem batch_run_equals_record_run:
  assumes "loadable en st ext s m f" "s \<le> m + 1"
  shows "\<exists>f1 f2. load_file en place pos0 True s m (s - 1) f = Done (Loaded, m, f1) \<and> load_file en place pos0 False s m (s - 1) f = Done (Loaded, m, f2)
    \<and> length (kf_indexes f1) = length (kf_indexes f) \<and> length (kf_indexes f2) = length (kf_indexes f)
    \<and> (\<forall>k < length (kf_indexes f). let d1 = kx_data (kf_indexes f1 ! k); d2 = kx_data (kf_indexes f2 ! k) in
         data_ok d1 \<and> data_ok d2 \<and> data_same d1 d2 \<and> entries_added (kx_data (kf_indexes f ! k)) (run_entries st (ext k) s (m + 1)) d1
         \<and> kx_outfile (kf_indexes f1 ! k) = [])"
proof -
  obtain b where b: "load_loop en True [s..m] (s - 1) f = Done (Loaded, m, b)" "records_written st ext f s (m + 1) b"
    using load_loop_all [of "records_written st ext f s" s m en True s f] records_written_step [OF assms(1)] records_written_start [OF assms(1)] assms(2)
    by blast
  obtain f2 where f2: "load_loop en False [s..m] (s - 1) f = Done (Loaded, m, f2)" "records_added st ext f s (m + 1) f2"
    using load_loop_all [of "records_added st ext f s" s m en False s f] records_added_step [OF assms(1)] records_added_start [OF assms(1)] assms(2)
    by blast
  let ?es = "\<lambda>k. run_entries st (ext k) s (m + 1)"
  have len: "length (kf_indexes b) = length (kf_indexes f)" "kf_primary b = None"
    and ids: "\<And>k. k < length (kf_indexes f) \<Longrightarrow> kf_indexes b ! k
        = (kf_indexes f ! k)\<lparr>kx_outfile := unlines (map (entry_line (kx_proximity (kf_indexes f ! k))) (?es k))\<rparr>"
      "\<And>k. k < length (kf_indexes f) \<Longrightarrow> entries_ok (kf_indexes f ! k) (m + 1) (?es k)"
    using b(2) by (simp_all add: records_written_def Let_def)
  have "\<forall>k < length (kf_indexes b). index_written (?es k) (kf_indexes b ! k)"
    using len ids assms(1) by (auto simp: index_written_def loadable_def)
  then obtain f1 where f1: "in_batch_load en place pos0 b = Done f1" "length (kf_indexes f1) = length (kf_indexes b)"
    "\<forall>k < length (kf_indexes b). index_loaded (?es k) (kf_indexes b ! k) (kf_indexes f1 ! k)"
    using in_batch_load_adds [OF len(2), of ?es en place pos0] by blast
  have each: "let d1 = kx_data (kf_indexes f1 ! k); d2 = kx_data (kf_indexes f2 ! k) in
      data_ok d1 \<and> data_ok d2 \<and> data_same d1 d2 \<and> entries_added (kx_data (kf_indexes f ! k)) (?es k) d1 \<and> kx_outfile (kf_indexes f1 ! k) = []"
    if k: "k < length (kf_indexes f)" for k
  proof -
    obtain d where d: "data_ok d" "entries_added (kx_data (kf_indexes f ! k)) (?es k) d" "kx_data (kf_indexes f1 ! k) = d" "kx_outfile (kf_indexes f1 ! k) = []"
      using f1(3) k len(1) ids(1) by (auto simp: index_loaded_def)
    have "data_ok (kx_data (kf_indexes f2 ! k))" "entries_added (kx_data (kf_indexes f ! k)) (?es k) (kx_data (kf_indexes f2 ! k))"
      using f2(2) k by (auto simp: records_added_def each_index_def)
    then show ?thesis using d entries_added_same by (auto simp: Let_def)
  qed
  have "load_file en place pos0 True s m (s - 1) f = Done (Loaded, m, f1)" "load_file en place pos0 False s m (s - 1) f = Done (Loaded, m, f2)"
    using b(1) f1(1) f2(1) by (simp_all add: load_file_def)
  moreover have "length (kf_indexes f2) = length (kf_indexes f)" using f2(2) by (simp add: records_added_def each_index_def)
  ultimately show ?thesis using each f1(2) len(1) by auto
qed

text \<open>Three records, the second of them deleted, with the words of \<open>sample_env\<close>.\<close>

definition sample_state :: "int \<Rightarrow> sgml_state" where
  "sample_state r = (if r = 2 then Deleted_record else Parsed)"

definition batch_env :: "unit kw_env" where
  "batch_env = sample_env\<lparr>en_sgml := (\<lambda>w. sample_state)\<rparr>"

lemma sample_lines:
  assumes "record_ok r"
  shows "short_line True (r, ''cat'', sample_ht [5, 9])" "short_line True (r, ''dog'', sample_ht [7])" "short_line False (r, ''cat'', sample_ht [0])"
proof -
  have r: "line_int r" "line_int 0" "line_int 1" "line_int 2" "line_int 5" "line_int 7" "line_int 9" using assms by (simp_all add: record_ok_def line_int_def)
  have w: "line_word ''cat''" "line_word ''dog''" by code_simp+
  have n: "print_int 0 = ''0''" "print_int 1 = ''1''" "print_int 2 = ''2''" "print_int 5 = ''5''" "print_int 7 = ''7''" "print_int 9 = ''9''"
    by code_simp+
  show "short_line True (r, ''cat'', sample_ht [5, 9])" "short_line True (r, ''dog'', sample_ht [7])" "short_line False (r, ''cat'', sample_ht [0])"
    using r w n by (simp_all add: short_line_def line_ht_def ht_ok_def sample_ht_def batch_line_def pad_int_fixed TEMP_BUFFER_SIZE_def)
qed

lemma sample_loadable:
  "loadable batch_env sample_state (\<lambda>k r. en_extract sample_env () k r) 1 3 sample_file"
proof -
  have "batch_record (kf_indexes sample_file ! k) r (en_extract sample_env () k r)" if "k < length (kf_indexes sample_file)" "record_ok r" for k r
  proof -
    have "k = 0 \<or> k = 1" "data_ok (kx_data (kf_indexes sample_file ! k))" "new_words (kf_indexes sample_file ! k) r (en_extract sample_env () k r)"
      using that(1) sample_file_ready(4) [of r "()"] by (auto simp: sample_file_def)
    then show ?thesis
      using sample_lines [OF that(2)] by (auto simp: batch_record_def new_words_def sample_file_def sample_env_def)
  qed
  moreover have "data_ok (kx_data (kf_indexes sample_file ! k)) \<and> kx_outfile (kf_indexes sample_file ! k) = []" if "k < length (kf_indexes sample_file)" for k
    using that sample_file_ready(4) [of 1 "()"] by (auto simp: sample_file_def less_Suc_eq)
  ultimately show ?thesis
    using sample_file_ready(1) unfolding loadable_def
    by (auto simp: batch_env_def sample_env_def sample_state_def record_ok_def) (auto simp: sample_file_def)
qed

theorem batch_run_equals_record_run_witness:
  "\<exists>f1 f2. load_file batch_env empty_place 0 True 1 3 0 sample_file = Done (Loaded, 3, f1)
    \<and> load_file batch_env empty_place 0 False 1 3 0 sample_file = Done (Loaded, 3, f2)
    \<and> data_same (kx_data (kf_indexes f1 ! 0)) (kx_data (kf_indexes f2 ! 0))
    \<and> entries_added (Postings empty_postings) (run_entries sample_state (en_extract sample_env () 0) 1 4) (kx_data (kf_indexes f1 ! 0))"
  using batch_run_equals_record_run [OF sample_loadable, of empty_place 0] by (fastforce simp: sample_file_def Let_def)

section \<open>Where the two runs differ, and where the loop ends early\<close>

text \<open>
  \<open>last_rec_proc\<close> is not set back for the next file of a configuration: unless that file happens to begin behind the last record of the one before,
  the loader ends after its first record, with the code of \<open>in_kwadd\<close>, which is 1 for a record that was added, as its status.
\<close>

lemma second_file_exits:
  assumes "in_kwadd en f s batch = Done (code, f1)" "s \<le> m" "s \<noteq> last_proc + 1"
  shows "load_file en place pos0 batch s m last_proc f = Done (Exited code, last_proc, f1)"
  using assms by (simp add: load_file_def upto_rec1)

text \<open>A new record has the key of an older one, and the file is not one whose records are replaced.\<close>

definition kept_file :: "unit kw_file" where
  "kept_file = keyed_file\<lparr>kf_replace := False\<rparr>"

text \<open>
  Without the option to replace, a record whose primary key is taken is ignored when it is indexed alone; a batch run reports it as ignored too,
  but stores the new record in place of the old one under the key.
\<close>

theorem batch_run_replaces_key:
  "\<exists>f1 f2 p. load_file keyed_env empty_place 0 False 5 5 4 kept_file = Done (Loaded, 5, f1) \<and> kx_data (kf_indexes f1 ! 0) = Postings keyed_index
    \<and> load_file keyed_env empty_place 0 True 5 5 4 kept_file = Done (Loaded, 5, f2) \<and> kx_data (kf_indexes f2 ! 0) = Postings p
    \<and> map po_record_no (postings keyed_index ''id7'') = [2] \<and> map po_record_no (postings p ''id7'') = [5]"
proof -
  let ?ht = "sample_ht [0]" and ?l = "batch_line False 5 ''id7'' (sample_ht [0])"
  have w: "line_word ''id7''" "line_int 5" "line_ht False ?ht" "length ?l < 50"
    by (code_simp, simp_all add: line_int_def line_ht_def ht_ok_def sample_ht_def, code_simp)
  note s = scan_batch_line [OF w(1-3)] and n = batch_line_plain [OF w(1-3)]
  have t: "fgets_all PROX_BUFFER_SIZE [] (batch_sort (?l @ [newline])) = [?l @ [newline]]"
    using text_lines_unlines [of "[?l]"] fgets_all_unlines [of "[?l]" PROX_BUFFER_SIZE] n w(4)
    by (simp add: batch_sort_def unlines_def PROX_BUFFER_SIZE_def)
  have "load_file keyed_env empty_place 0 False 5 5 4 kept_file = Done (Loaded, 5, kept_file)"
    by (simp add: load_file_def upto_rec1 in_kwadd_def kept_file_def keyed_file_def keyed_env_def sample_env_def kwadd_types_def Let_def
        primary_item_def keyed_index_def)
  moreover have "\<exists>f2 p. load_file keyed_env empty_place 0 True 5 5 4 kept_file = Done (Loaded, 5, f2) \<and> kx_data (kf_indexes f2 ! 0) = Postings p
    \<and> map po_record_no (postings p ''id7'') = [5]"
    using w(4)
    by (simp add: load_file_def upto_rec1 in_kwadd_def kept_file_def keyed_file_def keyed_env_def sample_env_def kwadd_types_def Let_def count_record_def
        in_batch_load_def in_batch_load_main_def index_at_def t load_line_def TEMP_BUFFER_SIZE_def s load_other_def put_item_def set_data_def load_end_def
        postings_def keyed_index_def)
  moreover have "map po_record_no (postings keyed_index ''id7'') = [2]" by (simp add: postings_def keyed_index_def)
  ultimately show ?thesis by (auto simp: kept_file_def keyed_file_def)
qed

end
