(* ===== verification/Prox_Scan.thy ===== *)
theory Prox_Scan
  imports Prelude
begin

text \<open>
  The search for positions at which the terms of a proximity query are close together: \<open>se_prox_ordered\<close> and
  \<open>se_prox_unordered\<close> of \<open>src/search/se_proxmerge.c\<close>.

  A file of positions is a map from the number of a term and of a record to a list, the map that \<open>Posting_Index\<close> fills. Positions are
  offsets in a record, whose differences do not overflow.
\<close>

section \<open>The positions of the terms\<close>

type_synonym prox_file = "int \<times> int \<Rightarrow> int list option"

text \<open>A term that is not in the file has the empty list, a file that is not open is read through.\<close>

definition term_positions :: "int \<Rightarrow> int \<times> prox_file option \<Rightarrow> int list run" where
  "term_positions record_num tf =
     run_bind (deref (snd tf)) (\<lambda>dbprox. Done (case dbprox (fst tf, record_num) of None \<Rightarrow> [] | Some ps \<Rightarrow> ps))"

text \<open>
  \<open>proxtermidlist[j] == proxtermidlist[j-1]\<close>, where \<open>j\<close> counts positions, not terms. The list of terms ends with a 0; before its start
  and behind this 0 there is nothing that was set.
\<close>

definition doubled_term :: "int list \<Rightarrow> nat \<Rightarrow> bool run" where
  "doubled_term terms j = (if j = 0 \<or> length terms < j then Crash else Done ((terms @ [0]) ! j = (terms @ [0]) ! (j - 1)))"

section \<open>The scans\<close>

text \<open>The position of the next term, for the position before: \<open>None\<close> is a failure.\<close>

fun next_ordered :: "int list \<Rightarrow> int \<Rightarrow> int \<Rightarrow> nat \<Rightarrow> int list \<Rightarrow> int option run" where
  "next_ordered terms prox_length minpos j [] = Done None"
| "next_ordered terms prox_length minpos j (p # ps) =
     (if p < minpos then next_ordered terms prox_length minpos (Suc j) ps
      else if p - minpos > prox_length then Done None
      else if p = minpos
      then run_bind (doubled_term terms j) (\<lambda>d. if d then next_ordered terms prox_length minpos (Suc j) ps else Done (Some p))
      else Done (Some p))"

fun next_unordered :: "int list \<Rightarrow> int \<Rightarrow> int \<Rightarrow> nat \<Rightarrow> int list \<Rightarrow> int option run" where
  "next_unordered terms prox_length minpos j [] = Done None"
| "next_unordered terms prox_length minpos j (p # ps) =
     (if p < minpos \<and> minpos - p > prox_length then next_unordered terms prox_length minpos (Suc j) ps
      else if p - minpos > prox_length then Done None
      else if p = minpos
      then run_bind (doubled_term terms j) (\<lambda>d. if d then next_unordered terms prox_length minpos (Suc j) ps else Done (Some p))
      else Done (Some p))"

text \<open>
  The loop over the terms after the first: \<open>matchpos\<close> from the second term on. The loop over the positions of a term without
  positions does not run: \<open>fail\<close> and \<open>minpos\<close> stay, and its \<open>matchpos\<close> is the 0 it was allocated with.
\<close>

fun match_terms :: "(int \<Rightarrow> int list \<Rightarrow> int option run) \<Rightarrow> int \<Rightarrow> int list list \<Rightarrow> int list option run" where
  "match_terms nxt minpos [] = Done (Some [])"
| "match_terms nxt minpos (ps # pss) =
     (if ps = [] then run_bind (match_terms nxt minpos pss) (\<lambda>m. Done (map_option ((#) 0) m))
      else run_bind (nxt minpos ps) (\<lambda>r. case r of
          None \<Rightarrow> Done None
        | Some p \<Rightarrow> run_bind (match_terms nxt p pss) (\<lambda>m. Done (map_option ((#) p) m))))"

text \<open>\<open>/* do the fine test... */\<close>, on neighbouring positions.\<close>

fun fine_test :: "(int \<Rightarrow> int \<Rightarrow> bool) \<Rightarrow> int list \<Rightarrow> bool" where
  "fine_test near (a # b # ms) = (near a b \<and> fine_test near (b # ms))"
| "fine_test near ms = True"

text \<open>The loop over the anchors: the position of the first anchor with a match, 0 if there is none.\<close>

fun try_anchors :: "(int \<Rightarrow> int list \<Rightarrow> int option run) \<Rightarrow> (int \<Rightarrow> int \<Rightarrow> bool) \<Rightarrow> int list list \<Rightarrow> int list \<Rightarrow> int run" where
  "try_anchors nxt near pss [] = Done 0"
| "try_anchors nxt near pss (a # anchors) =
     run_bind (match_terms nxt a pss) (\<lambda>m. case m of
         None \<Rightarrow> try_anchors nxt near pss anchors
       | Some ms \<Rightarrow> if fine_test near (a # ms) then Done a else try_anchors nxt near pss anchors)"

definition prox_search :: "(int \<Rightarrow> int list \<Rightarrow> int option run) \<Rightarrow> (int \<Rightarrow> int \<Rightarrow> bool) \<Rightarrow> int list list \<Rightarrow> int run" where
  "prox_search nxt near pss = (case pss of [] \<Rightarrow> Done 0 | anchors # rest \<Rightarrow> try_anchors nxt near rest anchors)"

definition ordered_near :: "int \<Rightarrow> int \<Rightarrow> int \<Rightarrow> bool" where
  "ordered_near prox_length a b \<longleftrightarrow> b - a \<le> prox_length"

definition unordered_near :: "int \<Rightarrow> int \<Rightarrow> int \<Rightarrow> bool" where
  "unordered_near prox_length a b \<longleftrightarrow> (b > a \<and> b - a \<le> prox_length) \<or> (a > b \<and> a - b \<le> prox_length)"

definition se_prox_ordered :: "(int \<times> prox_file option) list \<Rightarrow> int \<Rightarrow> int \<Rightarrow> int run" where
  "se_prox_ordered tfs record_num prox_length =
     run_bind (run_map (term_positions record_num) tfs)
       (prox_search (\<lambda>m. next_ordered (map fst tfs) prox_length m 0) (ordered_near prox_length))"

definition se_prox_unordered :: "(int \<times> prox_file option) list \<Rightarrow> int \<Rightarrow> int \<Rightarrow> int run" where
  "se_prox_unordered tfs record_num prox_length =
     run_bind (run_map (term_positions record_num) tfs)
       (prox_search (\<lambda>m. next_unordered (map fst tfs) prox_length m 0) (unordered_near prox_length))"

section \<open>What a scan finds\<close>

text \<open>
  A scan for the next position: what it finds is a position of the list that is close enough, and it finds one if there is one, provided that
  the list is in ascending order and does not have the position itself. \<open>close\<close> is what the fine test and the scan together demand.
\<close>

locale position_scan =
  fixes next_pos :: "int \<Rightarrow> int list \<Rightarrow> int option run" and near close :: "int \<Rightarrow> int \<Rightarrow> bool"
  assumes found: "m \<notin> set ps \<Longrightarrow> next_pos m ps = Done (Some p) \<Longrightarrow> p \<in> set ps \<and> close m p"
    and returns: "m \<notin> set ps \<Longrightarrow> \<exists>r. next_pos m ps = Done r"
    and complete: "m \<notin> set ps \<Longrightarrow> sorted ps \<Longrightarrow> p \<in> set ps \<Longrightarrow> close m p \<Longrightarrow> next_pos m ps \<noteq> Done None"
    and fine: "close m p \<Longrightarrow> near m p"
begin

lemma match_close:
  assumes "\<forall>ps \<in> set pss. m \<notin> set ps \<and> ps \<noteq> []" "sorted_wrt (\<lambda>ps qs. set ps \<inter> set qs = {}) pss" "match_terms next_pos m pss = Done (Some ms)"
  shows "list_all2 (\<lambda>p ps. p \<in> set ps) ms pss \<and> successively close (m # ms)"
  using assms
proof (induction pss arbitrary: m ms)
  case (Cons ps pss)
  obtain r where r: "next_pos m ps = Done r" using returns [of m ps] Cons.prems(1) by auto
  obtain p ms' where p: "r = Some p" "ms = p # ms'" "match_terms next_pos p pss = Done (Some ms')"
    using Cons.prems(1,3) r by (cases r; cases "match_terms next_pos (the r) pss") auto
  have c: "p \<in> set ps" "close m p" using found Cons.prems(1) r p(1) by auto
  then have "\<forall>qs \<in> set pss. p \<notin> set qs \<and> qs \<noteq> []" using Cons.prems(1,2) by auto
  then show ?case using Cons.IH [OF _ _ p(3)] Cons.prems(2) c p(2) by (simp add: successively_Cons)
qed simp

lemma match_returns:
  assumes "\<forall>ps \<in> set pss. m \<notin> set ps" "sorted_wrt (\<lambda>ps qs. set ps \<inter> set qs = {}) pss"
  shows "\<exists>r. match_terms next_pos m pss = Done r"
  using assms
proof (induction pss arbitrary: m)
  case (Cons ps pss)
  obtain r where r: "next_pos m ps = Done r" using returns [of m ps] Cons.prems(1) by auto
  show ?case
  proof (cases "ps = [] \<or> r = None")
    case True
    then show ?thesis using Cons.IH [of m] Cons.prems r by auto
  next
    case False
    then obtain p where p: "r = Some p" "p \<in> set ps" using found Cons.prems(1) r by auto
    then have "\<forall>qs \<in> set pss. p \<notin> set qs" using Cons.prems(2) by auto
    then show ?thesis using Cons.IH [of p] Cons.prems(2) r p(1) False by auto
  qed
qed simp

lemma search_returns:
  assumes "sorted_wrt (\<lambda>ps qs. set ps \<inter> set qs = {}) pss"
  shows "\<exists>r. prox_search next_pos near pss = Done r"
proof (cases pss)
  case (Cons anchors rest)
  have "\<exists>r. try_anchors next_pos near rest as = Done r" if "set as \<subseteq> set anchors" for as
    using that
  proof (induction as)
    case (Cons a as)
    have "\<forall>ps \<in> set rest. a \<notin> set ps" using assms \<open>pss = anchors # rest\<close> Cons.prems by auto
    then obtain m where "match_terms next_pos a rest = Done m" using match_returns [of rest a] assms \<open>pss = anchors # rest\<close> by auto
    then show ?case using Cons by (cases m) auto
  qed simp
  then show ?thesis using Cons by (simp add: prox_search_def)
qed (simp add: prox_search_def)

lemma search_sound:
  assumes "sorted_wrt (\<lambda>ps qs. set ps \<inter> set qs = {}) pss" "[] \<notin> set pss" "prox_search next_pos near pss = Done r" "r \<noteq> 0"
  shows "\<exists>ms. list_all2 (\<lambda>p ps. p \<in> set ps) (r # ms) pss \<and> successively close (r # ms)"
proof (cases pss)
  case Nil
  then show ?thesis using assms(3,4) by (simp add: prox_search_def)
next
  case (Cons anchors rest)
  have "\<exists>ms. r \<in> set anchors \<and> list_all2 (\<lambda>p ps. p \<in> set ps) ms rest \<and> successively close (r # ms)"
    if "set as \<subseteq> set anchors" "try_anchors next_pos near rest as = Done r" for as
    using that
  proof (induction as)
    case Nil
    then show ?case using assms(4) by simp
  next
    case (Cons a as)
    have a: "\<forall>ps \<in> set rest. a \<notin> set ps \<and> ps \<noteq> []" "sorted_wrt (\<lambda>ps qs. set ps \<inter> set qs = {}) rest"
      using assms(1,2) \<open>pss = anchors # rest\<close> Cons.prems(1) by auto
    then obtain m where m: "match_terms next_pos a rest = Done m" using match_returns [of rest a] by auto
    show ?case
    proof (cases "\<exists>ms. m = Some ms \<and> fine_test near (a # ms)")
      case True
      then have "r = a" using Cons.prems(2) m by auto
      then show ?thesis using True match_close [OF a] m Cons.prems(1) by auto
    next
      case False
      then show ?thesis using Cons m by (cases m) auto
    qed
  qed
  then show ?thesis using Cons assms(3) by (auto simp: prox_search_def)
qed

text \<open>Two terms: a match is found if there is one.\<close>

lemma search_two:
  assumes "set as \<inter> set bs = {}" "sorted bs" "bs \<noteq> []" "0 \<notin> set as"
  shows "\<exists>r. prox_search next_pos near [as, bs] = Done r \<and> (r \<noteq> 0 \<longleftrightarrow> (\<exists>a \<in> set as. \<exists>b \<in> set bs. close a b))"
proof -
  have "\<exists>r. try_anchors next_pos near [bs] xs = Done r \<and> (r \<noteq> 0 \<longleftrightarrow> (\<exists>a \<in> set xs. \<exists>b \<in> set bs. close a b))" if "set xs \<subseteq> set as" for xs
    using that
  proof (induction xs)
    case (Cons a xs)
    have a: "a \<notin> set bs" "a \<noteq> 0" using assms(1,4) Cons.prems by auto
    obtain p where p: "next_pos a bs = Done p" using returns [OF a(1)] by blast
    show ?case
    proof (cases p)
      case None
      then have "\<not> (\<exists>b \<in> set bs. close a b)" using complete [OF a(1) assms(2)] p by auto
      then show ?thesis using Cons p None assms(3) by auto
    next
      case (Some b)
      then have "b \<in> set bs" "close a b" "near a b" using found [OF a(1)] fine p by auto
      then show ?thesis using p Some assms(3) a(2) by auto
    qed
  qed simp
  then show ?thesis by (simp add: prox_search_def)
qed

end

text \<open>The two scans, for the order of the terms and without it.\<close>

definition ordered_close :: "int \<Rightarrow> int \<Rightarrow> int \<Rightarrow> bool" where
  "ordered_close prox_length a b \<longleftrightarrow> a < b \<and> b - a \<le> prox_length"

definition unordered_close :: "int \<Rightarrow> int \<Rightarrow> int \<Rightarrow> bool" where
  "unordered_close prox_length a b \<longleftrightarrow> a \<noteq> b \<and> \<bar>b - a\<bar> \<le> prox_length"

lemma next_ordered_found:
  "m \<notin> set ps \<Longrightarrow> next_ordered terms l m j ps = Done (Some p) \<Longrightarrow> p \<in> set ps \<and> ordered_close l m p"
  by (induction ps arbitrary: j) (auto simp: ordered_close_def split: if_splits)

lemma next_ordered_returns: "m \<notin> set ps \<Longrightarrow> \<exists>r. next_ordered terms l m j ps = Done r"
  by (induction ps arbitrary: j) auto

lemma next_ordered_complete:
  "m \<notin> set ps \<Longrightarrow> sorted ps \<Longrightarrow> p \<in> set ps \<Longrightarrow> ordered_close l m p \<Longrightarrow> next_ordered terms l m j ps \<noteq> Done None"
  by (induction ps arbitrary: j) (auto simp: ordered_close_def)

lemma next_unordered_found:
  "m \<notin> set ps \<Longrightarrow> next_unordered terms l m j ps = Done (Some p) \<Longrightarrow> p \<in> set ps \<and> unordered_close l m p"
  by (induction ps arbitrary: j) (auto simp: unordered_close_def split: if_splits)

lemma next_unordered_returns: "m \<notin> set ps \<Longrightarrow> \<exists>r. next_unordered terms l m j ps = Done r"
  by (induction ps arbitrary: j) auto

lemma next_unordered_complete:
  "m \<notin> set ps \<Longrightarrow> sorted ps \<Longrightarrow> p \<in> set ps \<Longrightarrow> unordered_close l m p \<Longrightarrow> next_unordered terms l m j ps \<noteq> Done None"
  by (induction ps arbitrary: j) (auto simp: unordered_close_def)

interpretation in_order: position_scan "\<lambda>m. next_ordered terms l m 0" "ordered_near l" "ordered_close l" for terms l
  by unfold_locales
     (use next_ordered_found next_ordered_returns next_ordered_complete in \<open>auto simp: ordered_close_def ordered_near_def\<close>)

interpretation any_order: position_scan "\<lambda>m. next_unordered terms l m 0" "unordered_near l" "unordered_close l" for terms l
  by unfold_locales
     (use next_unordered_found next_unordered_returns next_unordered_complete in \<open>auto simp: unordered_close_def unordered_near_def\<close>)


text \<open>
  C17: if no two terms share a position and all of them occur in the record, both searches return, and what they return is 0 or the first of
  a row of positions, one for each term in the order of the query, whose neighbours are no further apart than the distance; in the ordered search they
  also ascend.
\<close>

theorem prox_match_is_near:
  assumes "run_map (term_positions recno) tfs = Done pss" "[] \<notin> set pss" "sorted_wrt (\<lambda>ps qs. set ps \<inter> set qs = {}) pss"
  shows "\<exists>r. (if ordered then se_prox_ordered tfs recno l else se_prox_unordered tfs recno l) = Done r
    \<and> (r = 0 \<or> (\<exists>ms. list_all2 (\<lambda>p ps. p \<in> set ps) (r # ms) pss
         \<and> successively (\<lambda>a b. if ordered then ordered_close l a b else unordered_close l a b) (r # ms)))"
proof (cases ordered)
  case True
  obtain r where r: "prox_search (\<lambda>m. next_ordered (map fst tfs) l m 0) (ordered_near l) pss = Done r"
    using in_order.search_returns [OF assms(3)] by blast
  then show ?thesis using in_order.search_sound [OF assms(3,2) r] True assms(1) by (auto simp: se_prox_ordered_def)
next
  case False
  obtain r where r: "prox_search (\<lambda>m. next_unordered (map fst tfs) l m 0) (unordered_near l) pss = Done r"
    using any_order.search_returns [OF assms(3)] by blast
  then show ?thesis using any_order.search_sound [OF assms(3,2) r] False assms(1) by (auto simp: se_prox_unordered_def)
qed

definition three_positions :: prox_file where
  "three_positions = [(1, 5) \<mapsto> [3, 20], (2, 5) \<mapsto> [24, 60], (3, 5) \<mapsto> [30]]"

theorem prox_match_is_near_witness:
  "\<exists>r. se_prox_ordered [(1, Some three_positions), (2, Some three_positions), (3, Some three_positions)] 5 6 = Done r
    \<and> (r = 0 \<or> (\<exists>ms. list_all2 (\<lambda>p ps. p \<in> set ps) (r # ms) [[3, 20], [24, 60], [30]] \<and> successively (ordered_close 6) (r # ms)))"
  using prox_match_is_near [of 5 "[(1, Some three_positions), (2, Some three_positions), (3, Some three_positions)]" "[[3, 20], [24, 60], [30]]" True 6]
  by (simp add: term_positions_def three_positions_def)

end
