(* ===== verification/Prox_Merge.thy ===== *)
theory Prox_Merge
  imports Boolean_Merge Components Prox_Scan Rpn_Codec
begin

text \<open>
  The operators of a query that are sent as proximity (\<open>src/search/se_proxmerge.c\<close>): proximity of terms, restriction of component sets by
  documents and by other components, and, with private unit codes, the fuzzy operators and the merges of weights.

  The structure of the operator is \<open>proximity_operator\<close> of \<open>Rpn_Codec\<close>. Addresses of index entries and of component definitions lead, as parameters, to
  the files they have open, \<open>None\<close> being a file that cannot be opened. Term lists are the arrays of 100 places up to the terminating 0.
\<close>

unbundle bit_operations_syntax

definition PROXIMITY_RESULT :: int where "PROXIMITY_RESULT = 64"

text \<open>
  The merges' own callees, the files of positions, the component databases by component number and by document (the keys \<open>DOC\<close>), the
  addresses that \<open>CALLOC\<close> returns, and \<open>se_hybridmerge\<close>.
\<close>

record prox_env =
  pe_callees :: callees
  pe_prox_db :: "int \<Rightarrow> prox_file option"
  pe_comp_dbs :: comp_dbs
  pe_doc_dbs :: comp_dbs
  pe_alloc :: "nat \<Rightarrow> int"
  pe_hybridmerge :: "weighted_result \<Rightarrow> weighted_result \<Rightarrow> int \<Rightarrow> int \<Rightarrow> merge_out run"

section \<open>Testing a record\<close>

definition terms_of :: "weighted_result \<Rightarrow> int list" where
  "terms_of s = takeWhile (\<lambda>t. t \<noteq> 0) (termid s)"

definition index_ptrs_of :: "weighted_result \<Rightarrow> int list" where
  "index_ptrs_of s = takeWhile (\<lambda>p. p \<noteq> 0) (index_ptr s)"

text \<open>The terms of a set with the files of their positions; a term without an index is ignored.\<close>

definition prox_terms :: "prox_env \<Rightarrow> weighted_result \<Rightarrow> (int \<times> prox_file option) list" where
  "prox_terms en s = map (\<lambda>(t, p). (t, pe_prox_db en p))
     (filter (\<lambda>(t, p). p \<noteq> 0) (zip (terms_of s) (index_ptr s @ replicate (length (terms_of s)) 0)))"

text \<open>The distance in characters for a unit and a number, for the units that are tested by positions.\<close>

definition unit_length :: "int \<Rightarrow> int option" where
  "unit_length code =
     (if code = 1 \<or> code = 11 then Some 1 else if code = 2 then Some 6 else if code = 3 then Some 80 else if code = 4 then Some 300
      else if code = 5 then Some 1000 else if code = 6 then Some 3000 else if code = 8 then Some 40 else None)"

text \<open>For documents with another value of \<open>exclusion\<close> than 0 and 1 no value is returned.\<close>

definition ProxTest :: "prox_env \<Rightarrow> proximity_operator \<Rightarrow> weighted_result \<Rightarrow> weighted_result \<Rightarrow> int \<Rightarrow> int run" where
  "ProxTest en op inset1 inset2 recno =
     (let terms = prox_terms en inset1 @ prox_terms en inset2
      in case unit_length (po_unit_code op) of
          Some n \<Rightarrow> let distance = c_int (n * po_distance op)
            in if po_ordered op \<noteq> 0 then se_prox_ordered terms recno distance else se_prox_unordered terms recno distance
        | None \<Rightarrow>
            if po_unit_code op = 7
            then if po_exclusion op = 0 \<and> po_ordered op = 0 then Done 1
                 else if po_exclusion op = 1 \<and> po_ordered op = 0 then Done 0
                 else if po_ordered op \<noteq> 0 then se_prox_ordered terms recno 1000000
                 else Crash
            else Done 0)"

section \<open>Component sets\<close>

text \<open>A new set with the fields of another.\<close>

definition restricted_set :: "weighted_result \<Rightarrow> weighted_entry list \<Rightarrow> weighted_result" where
  "restricted_set s es = new_result\<lparr>num_hits := int (length es), entries := es, result_type := result_type s, component := component s,
     filename := filename s, termid := terms_of s, index_ptr := index_ptrs_of s\<rparr>"

text \<open>
  The numbers of the components of each document. \<open>comp_data\<close> points to nothing until the first document has been found; for one that is not found
  the offsets are set to 0.
\<close>

fun doc_ranges :: "(int \<Rightarrow> component_data_item option) \<Rightarrow> component_data_item option \<Rightarrow> weighted_entry list \<Rightarrow> component_data_item list run" where
  "doc_ranges db comp_data [] = Done []"
| "doc_ranges db comp_data (e # es) =
     (let cd = (case db (record_num e) of Some d \<Rightarrow> Some d
                | None \<Rightarrow> map_option (\<lambda>d. d\<lparr>start_offset := 0, end_offset := 0\<rparr>) comp_data)
      in run_bind (deref cd) (\<lambda>d. run_bind (doc_ranges db cd es) (\<lambda>ds. Done (d # ds))))"

definition in_range :: "component_data_item \<Rightarrow> int \<Rightarrow> bool" where
  "in_range d n \<longleftrightarrow> start_offset d \<le> n \<and> n \<le> end_offset d"

definition doc_components :: "weighted_entry list \<Rightarrow> component_data_item list \<Rightarrow> weighted_entry list" where
  "doc_components comps ds =
     concat (map (\<lambda>d. map (\<lambda>e. new_entry (record_num e) (weight e)) (filter (\<lambda>e. in_range d (record_num e)) comps)) ds)"

text \<open>The new set has room for two entries more than the component set.\<close>

definition se_component_doc_restrict :: "prox_env \<Rightarrow> weighted_result \<Rightarrow> weighted_result \<Rightarrow> weighted_result run" where
  "se_component_doc_restrict en inset1 inset2 =
     (let (compset, docset) = (if has_flag inset1 COMPONENT_RESULT then (inset1, inset2) else (inset2, inset1))
      in run_bind (if component compset = 0 then Crash else deref (pe_doc_dbs en (component compset))) (\<lambda>db.
         run_bind (doc_ranges db None (hits docset)) (\<lambda>ds.
           let es = doc_components (hits compset) ds
           in if length es > nat (num_hits compset) + 2 then Crash else Done (restricted_set compset es))))"

text \<open>
  The data of each child, to which its \<open>xtra\<close> points for the time of the search. \<open>None\<close> is a child that is not found or whose
  \<open>xtra\<close> is in use: the function returns, and the children before it keep their pointers.
\<close>

fun read_children :: "prox_env \<Rightarrow> (int \<Rightarrow> component_data_item option) \<Rightarrow> nat \<Rightarrow> weighted_entry list
    \<Rightarrow> weighted_entry list \<times> component_data_item list option" where
  "read_children en db j [] = ([], Some [])"
| "read_children en db j (e # es) =
     (case db (record_num e) of
        None \<Rightarrow> (e # es, None)
      | Some d \<Rightarrow> if xtra e \<noteq> 0 then (e # es, None)
          else let (es1, ds) = read_children en db (Suc j) es in (e\<lparr>xtra := pe_alloc en j\<rparr> # es1, map_option ((#) d) ds))"

definition comp_contains :: "component_data_item \<Rightarrow> component_data_item \<Rightarrow> bool" where
  "comp_contains p c \<longleftrightarrow> record_id p = record_id c \<and> start_offset p \<le> start_offset c \<and> end_offset p \<ge> end_offset c"

fun find_parents :: "(int \<Rightarrow> component_data_item option) \<Rightarrow> component_data_item list \<Rightarrow> weighted_entry list \<Rightarrow> weighted_entry list option" where
  "find_parents db children [] = Some []"
| "find_parents db children (e # es) =
     (case db (record_num e) of
        None \<Rightarrow> None
      | Some p \<Rightarrow> map_option (\<lambda>ps. if list_ex (comp_contains p) children then new_entry (record_num e) (weight e) # ps else ps)
          (find_parents db children es))"

text \<open>Which of the two sets has the parents: \<open>None\<close> is an operator that is not supported.\<close>

definition parent_first :: "proximity_operator \<Rightarrow> bool option" where
  "parent_first op =
     (if (po_unit_which op = E8_known \<and> po_unit_code op = 8 \<and> po_distance op \<le> 1) \<or> (po_unit_which op = E8_private \<and> po_unit_code op = 4)
      then Some True
      else if (po_unit_which op = E8_known \<and> po_unit_code op = 9 \<and> po_distance op \<le> 1) \<or> (po_unit_which op = E8_private \<and> po_unit_code op = 5)
      then Some False else None)"

definition component_db :: "prox_env \<Rightarrow> weighted_result \<Rightarrow> (int \<Rightarrow> component_data_item option) run" where
  "component_db en s = (if component s = 0 then Crash else deref (pe_comp_dbs en (component s)))"

text \<open>The result, the set of parents and the set of children.\<close>

definition sub_restrict :: "prox_env \<Rightarrow> weighted_result \<Rightarrow> weighted_result \<Rightarrow> merge_out run" where
  "sub_restrict en parentcomp childcomp =
     run_bind (component_db en parentcomp) (\<lambda>pdb. run_bind (component_db en childcomp) (\<lambda>cdb.
       let (es, children) = read_children en cdb 0 (hits childcomp);
           marked = childcomp\<lparr>entries := es @ drop (nat (num_hits childcomp)) (entries childcomp)\<rparr>
       in Done (case children of
           None \<Rightarrow> (None, Some parentcomp, Some marked)
         | Some ds \<Rightarrow> (case find_parents pdb ds (hits parentcomp) of
               None \<Rightarrow> (None, Some parentcomp, Some marked)
             | Some ps \<Rightarrow> (Some (restricted_set parentcomp ps), Some parentcomp,
                 Some (childcomp\<lparr>entries := map (\<lambda>e. e\<lparr>xtra := 0\<rparr>) es @ drop (nat (num_hits childcomp)) (entries childcomp)\<rparr>))))))"

definition se_component_sub_restrict :: "prox_env \<Rightarrow> proximity_operator \<Rightarrow> weighted_result \<Rightarrow> weighted_result \<Rightarrow> merge_out run" where
  "se_component_sub_restrict en op inset1 inset2 =
     (case parent_first op of
        None \<Rightarrow> Done (None, Some inset1, Some inset2)
      | Some True \<Rightarrow> sub_restrict en inset1 inset2
      | Some False \<Rightarrow> run_bind (sub_restrict en inset2 inset1) (\<lambda>(r, p, c). Done (r, c, p)))"

section \<open>Weights of parts and documents\<close>

text \<open>\<open>bsearch\<close> of the C library.\<close>

function bsearch_loop :: "('a \<Rightarrow> int) \<Rightarrow> 'a list \<Rightarrow> nat \<Rightarrow> nat \<Rightarrow> 'a option" where
  "bsearch_loop cmp base l u =
     (if l < u
      then let idx = (l + u) div 2; c = cmp (base ! idx)
           in if c < 0 then bsearch_loop cmp base l idx else if c > 0 then bsearch_loop cmp base (Suc idx) u else Some (base ! idx)
      else None)"
  by auto
termination by (relation "measure (\<lambda>(cmp, base, l, u). u - l)") auto

declare bsearch_loop.simps [simp del]

definition bsearch :: "('a \<Rightarrow> int) \<Rightarrow> 'a list \<Rightarrow> 'a option" where
  "bsearch cmp base = bsearch_loop cmp base 0 (length base)"

definition pivot_value :: "int \<Rightarrow> cfloat" where
  "pivot_value distance =
     (let d = fl_round binary32 (of_int distance)
      in if 0 < distance \<and> distance < 100 then fl_to binary32 (fl_div binary64 d (Fin 100))
         else if 100 < distance \<and> distance < 1000 then fl_to binary32 (fl_div binary64 d (Fin 1000))
         else fl_to binary32 (fl_round binary64 (7 / 10)))"

text \<open>The document of a hit; for a component that is not in the database that of the hit before.\<close>

definition pivot_record :: "(int \<Rightarrow> component_data_item option) option \<Rightarrow> int \<Rightarrow> weighted_entry \<Rightarrow> int" where
  "pivot_record db record e = (case db of None \<Rightarrow> record_num e
     | Some get \<Rightarrow> (case get (record_num e) of None \<Rightarrow> record | Some d \<Rightarrow> record_id d))"

definition pivot_weight :: "cfloat \<Rightarrow> weighted_result \<Rightarrow> weighted_entry option \<Rightarrow> cfloat \<Rightarrow> cfloat" where
  "pivot_weight pivot_val docset res comp_score =
     (let rest = fl_mul binary32 (fl_sub binary32 (Fin 1) pivot_val) comp_score
      in case res of
          None \<Rightarrow> rest
        | Some d \<Rightarrow> fl_add binary32 (fl_mul binary32 pivot_val
            (fl_div binary32 (fl_sub binary32 (weight d) (min_weight docset)) (fl_sub binary32 (max_weight docset) (min_weight docset)))) rest)"

fun pivot_loop :: "(int \<Rightarrow> component_data_item option) option \<Rightarrow> cfloat \<Rightarrow> weighted_result \<Rightarrow> weighted_result \<Rightarrow> weighted_entry list \<Rightarrow> int
    \<Rightarrow> weighted_result \<Rightarrow> weighted_result" where
  "pivot_loop db pivot_val compset docset [] record newset = newset"
| "pivot_loop db pivot_val compset docset (e # es) record newset =
     (let r = pivot_record db record e;
          res = bsearch (compare_wt_entries (new_entry r (Fin 0))) (hits docset)
      in pivot_loop db pivot_val compset docset es r
           (push_entry newset (new_entry (record_num e) (pivot_weight pivot_val docset res (se_min_max_norm compset e)))))"

text \<open>For two sets; a missing one is dealt with by the caller.\<close>

definition se_pivot_doc_normalize :: "prox_env \<Rightarrow> proximity_operator \<Rightarrow> weighted_result \<Rightarrow> weighted_result \<Rightarrow> (weighted_result \<times> weighted_result) run" where
  "se_pivot_doc_normalize en op compset inset2 =
     (let docset = se_sortwtset inset2
      in run_bind (if has_flag compset COMPONENT_RESULT then run_bind (component_db en compset) (\<lambda>db. Done (Some db)) else Done None) (\<lambda>db.
           let new = pivot_loop db (pivot_value (po_distance op)) compset docset (hits compset) 0 new_result
           in Done ((restricted_set compset (entries new))\<lparr>max_weight := max_weight new, min_weight := min_weight new\<rparr>, docset)))"

section \<open>The operator\<close>

definition rank_result :: "merge_out \<Rightarrow> merge_out run" where
  "rank_result out = (case out of (r, l, q) \<Rightarrow> run_bind (deref r) (\<lambda>s. Done (Some (se_rank_docs s), l, q)))"

text \<open>A set that is returned itself is ranked in place.\<close>

definition rank_first :: "weighted_result \<Rightarrow> merge_out" where
  "rank_first s = (Some (se_rank_docs s), Some (se_rank_docs s), None)"

definition rank_second :: "weighted_result \<Rightarrow> merge_out" where
  "rank_second s = (Some (se_rank_docs s), None, Some (se_rank_docs s))"

definition fuzzy_request :: "weighted_result \<Rightarrow> weighted_result" where
  "fuzzy_request s = s\<lparr>result_type := result_type s OR FUZZY_REQUEST\<rparr>"

text \<open>The fuzzy operators with the merge they call, for two sets or one. Without the first set AND NOT fails.\<close>

definition fuzzy_merge :: "bool \<Rightarrow> (weighted_result option \<Rightarrow> weighted_result option \<Rightarrow> merge_out run)
    \<Rightarrow> weighted_result option \<Rightarrow> weighted_result option \<Rightarrow> merge_out run" where
  "fuzzy_merge copies_second m in1 in2 =
     (case (in1, in2) of
        (Some s1, Some s2) \<Rightarrow> run_bind (m (Some (fuzzy_request s1)) (Some (fuzzy_request s2))) rank_result
      | (Some s1, None) \<Rightarrow> Done (Some (copy_result s1), in1, in2)
      | (None, Some s2) \<Rightarrow> if copies_second then Done (Some (copy_result s2), in1, in2) else Crash
      | (None, None) \<Rightarrow> Done (None, in1, in2))"

definition one_component :: "weighted_result \<Rightarrow> weighted_result \<Rightarrow> bool" where
  "one_component s1 s2 \<longleftrightarrow> has_flag s1 COMPONENT_RESULT \<noteq> has_flag s2 COMPONENT_RESULT"

definition both_components :: "weighted_result \<Rightarrow> weighted_result \<Rightarrow> bool" where
  "both_components s1 s2 \<longleftrightarrow> has_flag s1 COMPONENT_RESULT \<and> has_flag s2 COMPONENT_RESULT"

definition private_merge :: "prox_env \<Rightarrow> proximity_operator \<Rightarrow> weighted_result option \<Rightarrow> weighted_result option \<Rightarrow> merge_out run" where
  "private_merge en op in1 in2 =
     (let c = pe_callees en; code = po_unit_code op
      in if code = 1 then fuzzy_merge True (se_andmerge c) in1 in2
         else if code = 2 then fuzzy_merge True (\<lambda>l r. se_ormerge c l r FUZZY) in1 in2
         else if code = 3 then fuzzy_merge False (se_notmerge c) in1 in2
         else if code = 4 \<or> code = 5
         then (case (in1, in2) of
             (Some s1, Some s2) \<Rightarrow>
               if one_component s1 s2
               then run_bind (se_component_doc_restrict en s1 s2) (\<lambda>r. rank_result (Some r, in1, in2))
               else if both_components s1 s2 then run_bind (se_component_sub_restrict en op s1 s2) rank_result
               else Done (None, in1, in2)
           | _ \<Rightarrow> Done (None, in1, in2))
         else if code \<in> {6..11}
         then run_bind (se_ormerge c in1 in2
                (if code = 6 then MERGESUM else if code = 7 then MERGEMEAN else if code = 8 then MERGENORM
                 else if code = 9 then MERGECMBZ else if code = 10 then MERGENSUM else MERGENPRV)) rank_result
         else if code = 12
         then (case (in1, in2) of
             (None, _) \<Rightarrow> Crash
           | (Some s1, None) \<Rightarrow> Done (rank_first s1)
           | (Some s1, Some s2) \<Rightarrow> run_bind (se_pivot_doc_normalize en op s1 s2) (\<lambda>(r, d). Done (Some (se_rank_docs r), in1, Some d)))
         else if code = 13
         then (case (in1, in2) of
             (None, None) \<Rightarrow> Done (None, in1, in2)
           | (Some s1, None) \<Rightarrow> Done (rank_first s1)
           | (None, Some s2) \<Rightarrow> Done (rank_second s2)
           | (Some s1, Some s2) \<Rightarrow> run_bind (pe_hybridmerge en s1 s2 BOOLEAN_OR MERGENORM) rank_result)
         else Done (None, in1, in2))"

definition prox_ranked :: int where
  "prox_ranked = PROBABILISTIC_RESULT OR OKAPI_RESULT OR TFIDF_RESULT OR CORI_RESULT OR FUZZY_RESULT OR BLOB_RESULT"

definition sort_prox :: "weighted_result \<Rightarrow> weighted_result" where
  "sort_prox s = (if result_type s AND prox_ranked \<noteq> 0 then se_sortwtset s else s)"

fun prox_loop :: "(int \<Rightarrow> int run) \<Rightarrow> bool \<Rightarrow> weighted_entry list \<Rightarrow> weighted_entry list \<Rightarrow> weighted_entry list run" where
  "prox_loop test prob (e1 # es1) (e2 # es2) =
     (if record_num e1 < record_num e2 then prox_loop test prob es1 (e2 # es2)
      else if record_num e1 > record_num e2 then prox_loop test prob (e1 # es1) es2
      else run_bind (test (record_num e1)) (\<lambda>r. run_bind (prox_loop test prob es1 es2) (\<lambda>es.
        Done (if r \<noteq> 0 then new_entry (record_num e1) (if prob then fl_add binary32 (weight e1) (weight e2) else Fin 1) # es else es))))"
| "prox_loop test prob es1 es2 = Done []"

text \<open>The terms of the second set that the first does not have, while there is room.\<close>

fun merge_terms :: "int list \<Rightarrow> int list \<Rightarrow> int list run" where
  "merge_terms ts [] = Done ts"
| "merge_terms ts (t # us) = (if t \<in> set ts then merge_terms ts us else if length ts < 100 then merge_terms (ts @ [t]) us else Crash)"

definition proximity_merge :: "prox_env \<Rightarrow> proximity_operator \<Rightarrow> weighted_result \<Rightarrow> weighted_result \<Rightarrow> merge_out run" where
  "proximity_merge en op inset1 inset2 =
     run_bind (page_step (pe_callees en) inset1 inset2) (\<lambda>ms0.
       let ms = ms0\<lparr>ms_set1 := sort_prox (ms_set1 ms0), ms_set2 := sort_prox (ms_set2 ms0)\<rparr>;
           set1 = ms_set1 ms; set2 = ms_set2 ms;
           prob = (result_type set1 OR result_type set2) AND prox_ranked
       in run_bind (prox_loop (ProxTest en op set1 set2) (prob \<noteq> 0) (hits set1) (hits set2)) (\<lambda>es.
          run_bind (merge_terms (terms_of set1) (terms_of set2)) (\<lambda>ts.
            let t = PROXIMITY_RESULT OR (if ms_both_paged ms then PAGED_RESULT else 0) OR (if ms_paged ms then PAGED_DOC_RESULT else 0);
                newset = new_result\<lparr>num_hits := int (length es), entries := es, filename := filename inset1, termid := ts, result_type := t\<rparr>
            in Done (merge_result inset1 inset2 ms
                 (if prob \<noteq> 0 then se_rank_docs (newset\<lparr>result_type := prob\<rparr>) else newset)))))"

definition se_proxmerge :: "prox_env \<Rightarrow> proximity_operator \<Rightarrow> weighted_result option \<Rightarrow> weighted_result option \<Rightarrow> merge_out run" where
  "se_proxmerge en op in1 in2 =
     (if in1 = None \<and> in2 = None then Done (None, in1, in2)
      else if po_unit_which op = E8_private then private_merge en op in1 in2
      else case (in1, in2) of
          (Some s1, Some s2) \<Rightarrow>
            if \<not> (has_flag s1 PROXIMITY_RESULT \<and> has_flag s2 PROXIMITY_RESULT)
            then if one_component s1 s2
                 then run_bind (se_component_doc_restrict en s1 s2) (\<lambda>r. Done (Some r, in1, in2))
                 else if both_components s1 s2 then se_component_sub_restrict en op s1 s2
                 else Done (None, in1, in2)
            else if po_relationType op \<noteq> 2 then Done (None, in1, in2)
            else proximity_merge en op s1 s2
        | _ \<Rightarrow> Done (None, in1, in2))"

section \<open>Proximity of two terms\<close>

text \<open>
  A set for one term of an index with positions, in the order of its records or ranked, and the file of positions. Sets that are ranked by
  distance on the earth are not sorted, unlike those of the other merges.
\<close>

definition term_set :: "prox_env \<Rightarrow> weighted_result \<Rightarrow> int \<Rightarrow> prox_file \<Rightarrow> bool" where
  "term_set en s t db \<longleftrightarrow> has_flag s PROXIMITY_RESULT \<and> mergeable s \<and> result_type s AND GEORANK_RESULT = 0 \<and> terms_of s = [t]
     \<and> (\<exists>p ps. index_ptr s = p # ps \<and> p \<noteq> 0 \<and> pe_prox_db en p = Some db)"

definition prox_close :: "proximity_operator \<Rightarrow> int \<Rightarrow> int \<Rightarrow> int \<Rightarrow> bool" where
  "prox_close op n a b = (let l = c_int (n * po_distance op) in if po_ordered op \<noteq> 0 then ordered_close l a b else unordered_close l a b)"

text \<open>The positions of the two terms in a record: no position is that of both, and none of the first is 0.\<close>

definition separate :: "int list option \<Rightarrow> int list option \<Rightarrow> bool" where
  "separate as bs \<longleftrightarrow> (case (as, bs) of (Some xs, Some ys) \<Rightarrow> set xs \<inter> set ys = {} \<and> sorted ys \<and> ys \<noteq> [] \<and> 0 \<notin> set xs | _ \<Rightarrow> False)"

definition near_in :: "proximity_operator \<Rightarrow> int \<Rightarrow> int list option \<Rightarrow> int list option \<Rightarrow> bool" where
  "near_in op n as bs \<longleftrightarrow> (\<exists>xs ys. as = Some xs \<and> bs = Some ys \<and> (\<exists>a \<in> set xs. \<exists>b \<in> set ys. prox_close op n a b))"

lemma prox_terms_one: "term_set en s t db \<Longrightarrow> prox_terms en s = [(t, Some db)]"
  by (auto simp: term_set_def prox_terms_def)

lemma ProxTest_two:
  assumes "prox_terms en s1 = [(t1, Some db1)]" "prox_terms en s2 = [(t2, Some db2)]" "unit_length (po_unit_code op) = Some n"
    "separate (db1 (t1, r)) (db2 (t2, r))"
  shows "\<exists>v. ProxTest en op s1 s2 r = Done v \<and> (v \<noteq> 0 \<longleftrightarrow> near_in op n (db1 (t1, r)) (db2 (t2, r)))"
proof -
  obtain as bs where p: "db1 (t1, r) = Some as" "db2 (t2, r) = Some bs" "set as \<inter> set bs = {}" "sorted bs" "bs \<noteq> []" "0 \<notin> set as"
    using assms(4) by (auto simp: separate_def split: option.splits)
  note s = in_order.search_two [OF p(3-6), of "[t1, t2]" "c_int (n * po_distance op)"] any_order.search_two [OF p(3-6), of "[t1, t2]" "c_int (n * po_distance op)"]
  show ?thesis
    using s p(1,2) assms(1-3)
    by (simp add: ProxTest_def Let_def se_prox_ordered_def se_prox_unordered_def term_positions_def near_in_def prox_close_def)
qed

lemma prox_loop_records:
  assumes "by_record es1" "by_record es2" "\<forall>r \<in> record_num ` set es1 \<inter> record_num ` set es2. \<exists>v. test r = Done v \<and> (v \<noteq> 0 \<longleftrightarrow> P r)"
  shows "\<exists>es. prox_loop test prob es1 es2 = Done es \<and> map record_num es = filter (\<lambda>r. r \<in> record_num ` set es2 \<and> P r) (map record_num es1)"
  using assms
proof (induction test prob es1 es2 rule: prox_loop.induct)
  case (1 test prob e1 es1 e2 es2)
  consider (lt) "record_num e1 < record_num e2" | (gt) "record_num e1 > record_num e2" | (eq) "record_num e1 = record_num e2" by linarith
  then show ?case
  proof cases
    case lt
    then have n: "record_num e1 \<notin> record_num ` set (e2 # es2)" using "1.prems" by (fastforce simp: by_record_Cons)
    obtain es where "prox_loop test prob es1 (e2 # es2) = Done es"
      "map record_num es = filter (\<lambda>r. r \<in> record_num ` set (e2 # es2) \<and> P r) (map record_num es1)"
      using 1(1) [OF lt] "1.prems" by (auto simp: by_record_Cons)
    then show ?thesis using lt n by simp
  next
    case gt
    then have n: "\<forall>r \<in> set (map record_num (e1 # es1)). r \<noteq> record_num e2" using "1.prems" by (fastforce simp: by_record_Cons)
    obtain es where "prox_loop test prob (e1 # es1) es2 = Done es"
      "map record_num es = filter (\<lambda>r. r \<in> record_num ` set es2 \<and> P r) (map record_num (e1 # es1))"
      using 1(2) gt "1.prems" by (auto simp: by_record_Cons)
    moreover have "filter (\<lambda>r. r \<in> record_num ` set (e2 # es2) \<and> P r) (map record_num (e1 # es1)) =
        filter (\<lambda>r. r \<in> record_num ` set es2 \<and> P r) (map record_num (e1 # es1))"
      using n by (intro filter_cong) auto
    ultimately show ?thesis using gt by simp
  next
    case eq
    then have n: "\<forall>r \<in> set (map record_num es1). r \<noteq> record_num e2" using "1.prems" by (fastforce simp: by_record_Cons)
    obtain v where v: "test (record_num e1) = Done v" "v \<noteq> 0 \<longleftrightarrow> P (record_num e1)" using "1.prems"(3) eq by auto
    obtain es where es: "prox_loop test prob es1 es2 = Done es"
      "map record_num es = filter (\<lambda>r. r \<in> record_num ` set es2 \<and> P r) (map record_num es1)"
      using 1(3) eq v(1) "1.prems" by (auto simp: by_record_Cons)
    have "filter (\<lambda>r. r \<in> record_num ` set (e2 # es2) \<and> P r) (map record_num es1) =
        filter (\<lambda>r. r \<in> record_num ` set es2 \<and> P r) (map record_num es1)"
      using n by (intro filter_cong) auto
    then show ?thesis using eq v es by (simp add: new_entry_def)
  qed
qed auto

lemma sort_prox_by_record: "mergeable s \<Longrightarrow> result_type s AND GEORANK_RESULT = 0 \<Longrightarrow> by_record (hits (sort_prox s))"
proof -
  assume s: "mergeable s" "result_type s AND GEORANK_RESULT = 0"
  have r: "ranked_types = prox_ranked OR GEORANK_RESULT" by (simp add: ranked_types_def prox_ranked_def result_flags)
  have "ranked_flag s = (result_type s AND prox_ranked) OR (result_type s AND GEORANK_RESULT)"
    unfolding ranked_flag_def r by (rule bit.conj_disj_distrib)
  then have "ranked_flag s = result_type s AND prox_ranked" using s(2) by simp
  then have "sort_prox s = sort_ranked s" by (simp add: sort_prox_def sort_ranked_def)
  then show ?thesis using mergeable_sorted [OF s(1)] by simp
qed

lemma sort_prox_facts [simp]:
  "records (sort_prox s) = records s" "prox_terms en (sort_prox s) = prox_terms en s" "terms_of (sort_prox s) = terms_of s"
  "result_type (sort_prox s) = result_type s"
proof -
  show "records (sort_prox s) = records s" "result_type (sort_prox s) = result_type s" by (simp_all add: sort_prox_def)
  show "terms_of (sort_prox s) = terms_of s" by (simp add: sort_prox_def terms_of_def se_sortwtset_def)
  then show "prox_terms en (sort_prox s) = prox_terms en s" by (simp add: prox_terms_def) (simp add: sort_prox_def se_sortwtset_def)
qed

text \<open>
  C16: the proximity operator on two sets for one term each returns, without a fault, exactly the records of both in which a position of the first term
  and one of the second are no further apart than the distance, in characters, says; if the operator asks for the order of the terms, the first
  must come first. No two terms share a position, and no term begins at position 0.
\<close>

theorem proximity_of_two_terms:
  assumes "po_unit_which op = E8_known" "po_relationType op = 2" "unit_length (po_unit_code op) = Some n"
    and "term_set en s1 t1 db1" "term_set en s2 t2 db2" "has_flag s1 PAGED_RESULT = has_flag s2 PAGED_RESULT"
    and "\<forall>r \<in> records s1 \<inter> records s2. separate (db1 (t1, r)) (db2 (t2, r))"
  shows "\<exists>new. se_proxmerge en op (Some s1) (Some s2) = Done (Some new, Some (sort_prox s1), Some (sort_prox s2))
    \<and> records new = {r \<in> records s1 \<inter> records s2. near_in op n (db1 (t1, r)) (db2 (t2, r))}
    \<and> distinct (map record_num (hits new)) \<and> wf_result new"
proof -
  let ?s1 = "sort_prox s1" and ?s2 = "sort_prox s2" and ?P = "\<lambda>r. near_in op n (db1 (t1, r)) (db2 (t2, r))"
  have srt: "by_record (hits ?s1)" "by_record (hits ?s2)" using assms(4,5) sort_prox_by_record by (auto simp: term_set_def)
  have recs: "record_num ` set (hits ?s1) = records s1" "record_num ` set (hits ?s2) = records s2"
    using sort_prox_facts(1) [of s1] sort_prox_facts(1) [of s2] unfolding records_def by simp_all
  have test: "\<forall>r \<in> record_num ` set (hits ?s1) \<inter> record_num ` set (hits ?s2). \<exists>v. ProxTest en op ?s1 ?s2 r = Done v \<and> (v \<noteq> 0 \<longleftrightarrow> ?P r)"
    unfolding recs
  proof
    fix r assume "r \<in> records s1 \<inter> records s2"
    then have "separate (db1 (t1, r)) (db2 (t2, r))" using assms(7) by blast
    then show "\<exists>v. ProxTest en op ?s1 ?s2 r = Done v \<and> (v \<noteq> 0 \<longleftrightarrow> ?P r)"
      using ProxTest_two [of en ?s1 t1 db1 ?s2 t2 db2 op n r] prox_terms_one [OF assms(4)] prox_terms_one [OF assms(5)] assms(3) by simp
  qed
  let ?prob = "(result_type s1 OR result_type s2) AND prox_ranked"
  obtain es where es: "prox_loop (ProxTest en op ?s1 ?s2) (?prob \<noteq> 0) (hits ?s1) (hits ?s2) = Done es"
    "map record_num es = filter (\<lambda>r. r \<in> record_num ` set (hits ?s2) \<and> ?P r) (map record_num (hits ?s1))"
    using prox_loop_records [OF srt test] by blast
  obtain ts where ts: "merge_terms (terms_of s1) (terms_of s2) = Done ts" using assms(4,5) by (cases "t2 = t1") (auto simp: term_set_def)
  let ?t = "PROXIMITY_RESULT OR (if has_flag s1 PAGED_RESULT then PAGED_RESULT else 0)"
  let ?plain = "new_result\<lparr>num_hits := int (length es), entries := es, filename := filename s1, termid := ts, result_type := ?t\<rparr>"
  let ?ranked = "new_result\<lparr>num_hits := int (length es), entries := es, filename := filename s1, termid := ts, result_type := ?prob\<rparr>"
  let ?new = "if ?prob \<noteq> 0 then se_rank_docs ?ranked else ?plain"
  have run: "se_proxmerge en op (Some s1) (Some s2) = Done (Some ?new, Some ?s1, Some ?s2)"
    using assms(1,2,6) term_set_def [of en s1 t1 db1] assms(4) term_set_def [of en s2 t2 db2] assms(5) es(1) ts
    by (simp add: se_proxmerge_def proximity_merge_def page_step_def Let_def merge_result_def)
  have hits: "hits ?plain = es" "hits ?ranked = es" by (simp_all add: hits_def)
  have ms: "mset (map record_num (hits ?new)) = mset (map record_num es)"
    using mset_records_ranked [of ?ranked] hits by (cases "?prob = 0") simp_all
  have "distinct (map record_num es)" using by_record_distinct [OF srt(1)] unfolding es(2) by simp
  then have "distinct (map record_num (hits ?new))" using mset_eq_imp_distinct_iff [OF ms] by blast
  moreover have "records ?new = record_num ` set es" using mset_eq_setD [OF ms] by (simp add: records_def)
  moreover have "record_num ` set es = {r \<in> records s1 \<inter> records s2. ?P r}"
    using arg_cong [OF es(2), of set] recs by auto
  moreover have "wf_result ?new"
  proof -
    have "wf_result ?plain" "wf_result ?ranked" by (simp_all add: wf_result_def)
    then show ?thesis using wf_sorted(2) [of ?ranked] by (cases "?prob = 0") simp_all
  qed
  ultimately show ?thesis using run by blast
qed

text \<open>The positions of two terms in two records: in record 5 they are 7 characters apart, in record 9 they are 40 apart.\<close>

definition sample_positions :: prox_file where
  "sample_positions = [(1, 5) \<mapsto> [3, 20], (2, 5) \<mapsto> [27], (1, 9) \<mapsto> [2], (2, 9) \<mapsto> [42]]"

definition sample_prox :: prox_env where
  "sample_prox = \<lparr>pe_callees = no_callees, pe_prox_db = (\<lambda>p. Some sample_positions), pe_comp_dbs = (\<lambda>c. None), pe_doc_dbs = (\<lambda>c. None),
     pe_alloc = (\<lambda>n. 1), pe_hybridmerge = (\<lambda>s t op add. Crash)\<rparr>"

definition sample_term :: "int \<Rightarrow> int list \<Rightarrow> weighted_result" where
  "sample_term t rs = (sample_bool rs)\<lparr>result_type := PROXIMITY_RESULT, termid := [t], index_ptr := [1]\<rparr>"

definition words_apart :: "int \<Rightarrow> proximity_operator" where
  "words_apart n = \<lparr>po_exclusion = 0, po_distance = n, po_ordered = 1, po_relationType = 2, po_unit_which = E8_known, po_unit_code = 2\<rparr>"

lemma sample_term_facts:
  "sorted_wrt (<) rs \<Longrightarrow> t \<noteq> 0 \<Longrightarrow> term_set sample_prox (sample_term t rs) t sample_positions" "records (sample_term t rs) = set rs"
  "\<not> has_flag (sample_term t rs) PAGED_RESULT"
proof -
  have h: "hits (sample_term t rs) = hits (sample_bool rs)" by (simp add: sample_term_def hits_def)
  then show "records (sample_term t rs) = set rs" using sample_bool_facts(2) [of rs] by (simp add: records_def)
  show "\<not> has_flag (sample_term t rs) PAGED_RESULT" by (simp add: has_flag_def sample_term_def PROXIMITY_RESULT_def PAGED_RESULT_def)
  assume r: "sorted_wrt (<) rs" "t \<noteq> 0"
  have "ranked_flag (sample_term t rs) = 0" "ranked_flag (sample_bool rs) = 0"
    by (simp_all add: ranked_flag_def sample_term_def sample_bool_def new_result_def ranked_types_def result_flags PROXIMITY_RESULT_def)
  then have "mergeable (sample_term t rs)"
    using sample_bool_facts(1) [of rs] r(1) h unfolding mergeable_def wf_result_def by (simp add: sample_term_def sample_bool_def)
  then show "term_set sample_prox (sample_term t rs) t sample_positions"
    using r(2) by (simp add: term_set_def sample_term_def has_flag_def terms_of_def sample_prox_def PROXIMITY_RESULT_def GEORANK_RESULT_def)
qed

theorem proximity_of_two_terms_witness:
  "\<exists>new. se_proxmerge sample_prox (words_apart 2) (Some (sample_term 1 [5, 9])) (Some (sample_term 2 [4, 5, 9]))
      = Done (Some new, Some (sort_prox (sample_term 1 [5, 9])), Some (sort_prox (sample_term 2 [4, 5, 9])))
    \<and> records new = {5} \<and> distinct (map record_num (hits new)) \<and> wf_result new"
proof -
  have common: "records (sample_term 1 [5, 9]) \<inter> records (sample_term 2 [4, 5, 9]) = {5, 9}" by (auto simp: sample_term_facts(2))
  have near: "near_in (words_apart 2) 6 (sample_positions (1, 5)) (sample_positions (2, 5))"
    "\<not> near_in (words_apart 2) 6 (sample_positions (1, 9)) (sample_positions (2, 9))"
    by (simp_all add: near_in_def sample_positions_def prox_close_def words_apart_def ordered_close_def Let_def c_int_def)
  then have eq: "{r \<in> {5, 9}. near_in (words_apart 2) 6 (sample_positions (1, r)) (sample_positions (2, r))} = {5}" by auto
  have "\<exists>new. se_proxmerge sample_prox (words_apart 2) (Some (sample_term 1 [5, 9])) (Some (sample_term 2 [4, 5, 9]))
      = Done (Some new, Some (sort_prox (sample_term 1 [5, 9])), Some (sort_prox (sample_term 2 [4, 5, 9])))
    \<and> records new = {r \<in> records (sample_term 1 [5, 9]) \<inter> records (sample_term 2 [4, 5, 9]).
        near_in (words_apart 2) 6 (sample_positions (1, r)) (sample_positions (2, r))}
    \<and> distinct (map record_num (hits new)) \<and> wf_result new"
    by (rule proximity_of_two_terms)
       (simp_all add: common sample_term_facts words_apart_def unit_length_def, simp add: separate_def sample_positions_def)
  then show ?thesis unfolding common eq .
qed

section \<open>Components of documents and in components\<close>

lemma doc_ranges_found:
  "\<forall>e \<in> set es. db (record_num e) \<noteq> None \<Longrightarrow> doc_ranges db cd es = Done (map (\<lambda>e. the (db (record_num e))) es)"
  by (induction es arbitrary: cd) auto

text \<open>
  C18: restricting a set of components by a set of documents, in either order of the operands, gives exactly the components that belong to one of the
  documents, with their weights, if the component numbers of the documents do not overlap; as many at most as there
  were, so that the new array is large enough.
\<close>

theorem component_doc_restrict_selects:
  assumes "has_flag compset COMPONENT_RESULT" "\<not> has_flag docset COMPONENT_RESULT" "component compset \<noteq> 0"
    and "pe_doc_dbs en (component compset) = Some db" "wf_result compset" "wf_result docset"
    and "\<forall>r \<in> records docset. db r \<noteq> None"
    and "\<forall>r \<in> records docset. \<forall>q \<in> records docset. \<forall>n. r \<noteq> q \<longrightarrow> \<not> (in_range (the (db r)) n \<and> in_range (the (db q)) n)"
    and "distinct (map record_num (hits docset))"
  shows "\<exists>new. se_component_doc_restrict en compset docset = Done new \<and> se_component_doc_restrict en docset compset = Done new
    \<and> wf_result new \<and> num_hits new \<le> num_hits compset
    \<and> (\<forall>n w. (\<exists>e \<in> set (hits new). record_num e = n \<and> weight e = w)
         \<longleftrightarrow> (\<exists>e \<in> set (hits compset). record_num e = n \<and> weight e = w) \<and> (\<exists>r \<in> records docset. in_range (the (db r)) n))"
proof -
  let ?ds = "map (\<lambda>e. the (db (record_num e))) (hits docset)" and ?es = "doc_components (hits compset) (map (\<lambda>e. the (db (record_num e))) (hits docset))"
  have ranges: "doc_ranges db None (hits docset) = Done ?ds" using assms(7) by (intro doc_ranges_found) (auto simp: records_def)
  have len: "length (doc_components cs (map (\<lambda>e. the (db (record_num e))) hs)) \<le> length cs"
    if "set hs \<subseteq> set (hits docset)" "distinct (map record_num hs)" for cs hs
    using that
  proof (induction hs arbitrary: cs)
    case (Cons h hs)
    let ?in = "\<lambda>e. in_range (the (db (record_num h))) (record_num e)" and ?ds = "map (\<lambda>e. the (db (record_num e))) hs"
    have other: "filter (\<lambda>e. in_range d (record_num e)) cs = filter (\<lambda>e. in_range d (record_num e)) (filter (\<lambda>e. \<not> ?in e) cs)"
      if d: "d \<in> set ?ds" for d
    proof -
      obtain g where g: "g \<in> set hs" "d = the (db (record_num g))" using d by auto
      then have "record_num g \<in> records docset" "record_num h \<in> records docset" "record_num g \<noteq> record_num h"
        using Cons.prems by (auto simp: records_def image_iff)
      then have "\<not> (in_range d n \<and> in_range (the (db (record_num h))) n)" for n using assms(8) g(2) by blast
      then show ?thesis unfolding filter_filter by (intro filter_cong) auto
    qed
    have "doc_components cs ?ds = doc_components (filter (\<lambda>e. \<not> ?in e) cs) ?ds"
      unfolding doc_components_def using other by (intro arg_cong [where f = concat] map_cong) auto
    moreover have "length (doc_components (filter (\<lambda>e. \<not> ?in e) cs) ?ds) \<le> length (filter (\<lambda>e. \<not> ?in e) cs)"
      using Cons.IH [of "filter (\<lambda>e. \<not> ?in e) cs"] Cons.prems by simp
    moreover have "length (doc_components cs (map (\<lambda>e. the (db (record_num e))) (h # hs))) = length (filter ?in cs) + length (doc_components cs ?ds)"
      by (simp add: doc_components_def)
    moreover have "length (filter ?in cs) + length (filter (\<lambda>e. \<not> ?in e) cs) = length cs" by (rule sum_length_filter_compl)
    ultimately show ?case by simp
  qed (simp add: doc_components_def)
  have es: "length ?es \<le> nat (num_hits compset)"
    using len [OF order_refl assms(9), of "hits compset"] assms(5) by (simp add: hits_wf) (simp add: wf_result_def)
  let ?new = "restricted_set compset ?es"
  have run: "se_component_doc_restrict en compset docset = Done ?new" "se_component_doc_restrict en docset compset = Done ?new"
    using assms(1-4) ranges es by (simp_all add: se_component_doc_restrict_def)
  have new: "hits ?new = ?es" "wf_result ?new" "num_hits ?new \<le> num_hits compset"
    using es assms(5) by (auto simp: restricted_set_def hits_def wf_result_def)
  have "(\<exists>e \<in> set ?es. record_num e = n \<and> weight e = w)
      \<longleftrightarrow> (\<exists>e \<in> set (hits compset). record_num e = n \<and> weight e = w) \<and> (\<exists>r \<in> records docset. in_range (the (db r)) n)" for n w
    by (auto simp: doc_components_def new_entry_def records_def)
  then show ?thesis using run new by auto
qed

text \<open>Three components of document 5 with the numbers 10 to 12, two of document 7.\<close>

definition sample_docs :: "int \<Rightarrow> component_data_item option" where
  "sample_docs = [5 \<mapsto> \<lparr>record_id = 5, start_offset = 10, end_offset = 12\<rparr>, 7 \<mapsto> \<lparr>record_id = 7, start_offset = 13, end_offset = 14\<rparr>]"

definition sample_parts :: "int list \<Rightarrow> weighted_result" where
  "sample_parts ns = (sample_bool ns)\<lparr>result_type := COMPONENT_RESULT, component := 1\<rparr>"

lemma sample_bool_hits: "hits (sample_bool rs) = map (\<lambda>r. new_entry r (Fin 1)) rs" "hits (sample_parts rs) = map (\<lambda>r. new_entry r (Fin 1)) rs"
  by (simp_all add: sample_parts_def sample_bool_def hits_def)

lemma sample_parts_facts:
  "has_flag (sample_parts ns) COMPONENT_RESULT" "\<not> has_flag (sample_bool rs) COMPONENT_RESULT" "component (sample_parts ns) = 1"
  "wf_result (sample_parts ns)" "wf_result (sample_bool rs)"
  by (simp_all add: has_flag_def sample_parts_def sample_bool_def new_result_def wf_result_def COMPONENT_RESULT_def)

theorem component_doc_restrict_selects_witness:
  "\<exists>new. se_component_doc_restrict (sample_prox\<lparr>pe_doc_dbs := (\<lambda>c. Some sample_docs)\<rparr>) (sample_parts [9, 11, 12, 14]) (sample_bool [5]) = Done new
    \<and> (\<exists>e \<in> set (hits new). record_num e = 11 \<and> weight e = Fin 1) \<and> \<not> (\<exists>e \<in> set (hits new). record_num e = 14 \<and> weight e = Fin 1)"
proof -
  have "records (sample_bool [5]) = {5}" by (simp add: sample_bool_facts(2))
  moreover have "distinct (map record_num (hits (sample_bool [5])))" by (simp add: sample_bool_hits)
  ultimately obtain new where new: "se_component_doc_restrict (sample_prox\<lparr>pe_doc_dbs := (\<lambda>c. Some sample_docs)\<rparr>) (sample_parts [9, 11, 12, 14]) (sample_bool [5])
      = Done new"
    "\<And>n w. (\<exists>e \<in> set (hits new). record_num e = n \<and> weight e = w)
      \<longleftrightarrow> (\<exists>e \<in> set (hits (sample_parts [9, 11, 12, 14])). record_num e = n \<and> weight e = w) \<and> (\<exists>r \<in> records (sample_bool [5]). in_range (the (sample_docs r)) n)"
    using component_doc_restrict_selects [of "sample_parts [9, 11, 12, 14]" "sample_bool [5]" "sample_prox\<lparr>pe_doc_dbs := (\<lambda>c. Some sample_docs)\<rparr>" sample_docs]
    by (auto simp: sample_parts_facts sample_docs_def)
  show ?thesis
    using new(1) new(2) [of 11 "Fin 1"] new(2) [of 14 "Fin 1"]
    by (intro exI [of _ new]) (simp add: sample_bool_facts(2) sample_bool_hits new_entry_def sample_docs_def in_range_def)
qed

lemma read_children_found:
  "\<forall>e \<in> set es. db (record_num e) \<noteq> None \<and> xtra e = 0 \<Longrightarrow>
    \<exists>es1. read_children en db j es = (es1, Some (map (\<lambda>e. the (db (record_num e))) es)) \<and> map (\<lambda>e. e\<lparr>xtra := 0\<rparr>) es1 = es"
proof (induction es arbitrary: j)
  case (Cons e es)
  obtain es1 where "read_children en db (Suc j) es = (es1, Some (map (\<lambda>e. the (db (record_num e))) es))" "map (\<lambda>e. e\<lparr>xtra := 0\<rparr>) es1 = es"
    using Cons.IH [of "Suc j"] Cons.prems by auto
  moreover have "e\<lparr>xtra := 0\<rparr> = e" using Cons.prems by (cases e) simp
  moreover obtain d where "db (record_num e) = Some d" "xtra e = 0" using Cons.prems by auto
  ultimately show ?case by simp
qed simp

lemma find_parents_found:
  "\<forall>e \<in> set es. db (record_num e) \<noteq> None \<Longrightarrow> find_parents db cs es
    = Some (map (\<lambda>e. new_entry (record_num e) (weight e)) (filter (\<lambda>e. \<exists>c \<in> set cs. comp_contains (the (db (record_num e))) c) es))"
  by (induction es) (auto simp: list_ex_iff)

text \<open>
  C19: restricting components by components gives exactly the entries of the containing set that contain a component of the other
  set: of the same document and with its text between their ends. The unit of the operator says which set contains and which is contained.
  Both sets are left as they were.
\<close>

theorem component_sub_restrict_selects:
  assumes "parent_first op = Some first" "parents = (if first then s1 else s2)" "children = (if first then s2 else s1)"
    and "component parents \<noteq> 0" "pe_comp_dbs en (component parents) = Some pdb" "component children \<noteq> 0" "pe_comp_dbs en (component children) = Some cdb"
    and "\<forall>e \<in> set (hits parents). pdb (record_num e) \<noteq> None" "\<forall>e \<in> set (hits children). cdb (record_num e) \<noteq> None \<and> xtra e = 0"
  shows "\<exists>new. se_component_sub_restrict en op s1 s2 = Done (Some new, Some s1, Some s2) \<and> wf_result new
    \<and> hits new = map (\<lambda>e. new_entry (record_num e) (weight e))
        (filter (\<lambda>p. \<exists>c \<in> set (hits children). comp_contains (the (pdb (record_num p))) (the (cdb (record_num c)))) (hits parents))"
proof -
  let ?ds = "map (\<lambda>e. the (cdb (record_num e))) (hits children)"
  let ?ps = "map (\<lambda>e. new_entry (record_num e) (weight e))
    (filter (\<lambda>p. \<exists>c \<in> set (hits children). comp_contains (the (pdb (record_num p))) (the (cdb (record_num c)))) (hits parents))"
  obtain es1 where es1: "read_children en cdb 0 (hits children) = (es1, Some ?ds)" "map (\<lambda>e. e\<lparr>xtra := 0\<rparr>) es1 = hits children"
    using read_children_found [OF assms(9)] by blast
  have ps: "find_parents pdb ?ds (hits parents) = Some ?ps" using find_parents_found [OF assms(8)] by simp
  have same: "children\<lparr>entries := hits children @ drop (nat (num_hits children)) (entries children)\<rparr> = children" by (simp add: hits_def)
  have run: "sub_restrict en parents children = Done (Some (restricted_set parents ?ps), Some parents, Some children)"
    using assms(4-7) es1 ps same by (simp add: sub_restrict_def component_db_def)
  have "se_component_sub_restrict en op s1 s2 = Done (Some (restricted_set parents ?ps), Some s1, Some s2)"
    using assms(1-3) run by (cases first) (simp_all add: se_component_sub_restrict_def)
  then show ?thesis by (intro exI [of _ "restricted_set parents ?ps"]) (simp add: restricted_set_def hits_def wf_result_def)
qed

theorem component_sub_restrict_selects_witness:
  "\<exists>new. se_component_sub_restrict (sample_prox\<lparr>pe_comp_dbs := (\<lambda>c. Some sample_docs)\<rparr>)
      \<lparr>po_exclusion = 0, po_distance = 1, po_ordered = 0, po_relationType = 2, po_unit_which = E8_known, po_unit_code = 9\<rparr>
      (sample_parts [7]) (sample_parts [5, 7]) = Done (Some new, Some (sample_parts [7]), Some (sample_parts [5, 7]))
    \<and> wf_result new \<and> map record_num (hits new) = [7]"
proof -
  let ?op = "\<lparr>po_exclusion = 0, po_distance = 1, po_ordered = 0, po_relationType = 2, po_unit_which = E8_known, po_unit_code = 9\<rparr>"
  have "\<exists>new. se_component_sub_restrict (sample_prox\<lparr>pe_comp_dbs := (\<lambda>c. Some sample_docs)\<rparr>) ?op (sample_parts [7]) (sample_parts [5, 7])
      = Done (Some new, Some (sample_parts [7]), Some (sample_parts [5, 7])) \<and> wf_result new
    \<and> hits new = map (\<lambda>e. new_entry (record_num e) (weight e))
        (filter (\<lambda>p. \<exists>c \<in> set (hits (sample_parts [7])). comp_contains (the (sample_docs (record_num p))) (the (sample_docs (record_num c))))
          (hits (sample_parts [5, 7])))"
    by (rule component_sub_restrict_selects [where first = False])
       (simp_all add: parent_first_def sample_parts_facts sample_docs_def sample_bool_hits new_entry_def)
  then show ?thesis by (auto simp: sample_bool_hits new_entry_def sample_docs_def comp_contains_def)
qed

section \<open>The fuzzy operators\<close>

lemma FUZZY_REQUEST_bit: "bit FUZZY_REQUEST k \<longleftrightarrow> k = 13"
  unfolding flag_powers bit_exp_iff by auto

lemma fuzzy_request_facts [simp]:
  "hits (fuzzy_request s) = hits s" "records (fuzzy_request s) = records s" "ranked_flag (fuzzy_request s) = ranked_flag s"
  "mergeable (fuzzy_request s) = mergeable s"
proof -
  show h: "hits (fuzzy_request s) = hits s" by (simp add: fuzzy_request_def hits_def)
  then show "records (fuzzy_request s) = records s" by (simp add: records_def)
  show r: "ranked_flag (fuzzy_request s) = ranked_flag s"
    unfolding ranked_flag_def fuzzy_request_def by (rule bit_eqI) (auto simp: bit_and_iff bit_or_iff FUZZY_REQUEST_bit ranked_types_bit)
  show "mergeable (fuzzy_request s) = mergeable s" unfolding mergeable_def h r by (simp add: wf_result_def fuzzy_request_def)
qed

lemma fuzzy_compatible: "compatible s1 s2 \<Longrightarrow> compatible (fuzzy_request s1) (fuzzy_request s2)"
  by (simp add: compatible_def has_flag_bit fuzzy_request_def bit_or_iff FUZZY_REQUEST_bit)

text \<open>
  Finding: the fuzzy operators AND, OR and NOT give exactly the records the Boolean operators give, each once. AND and NOT leave
  both operands, which may be stored result sets, marked as fuzzy requests.
\<close>

theorem fuzzy_operators_are_boolean:
  assumes "mergeable s1" "mergeable s2" "compatible s1 s2" "po_unit_which op = E8_private" "po_unit_code op \<in> {1, 2, 3}"
  shows "\<exists>new l r. se_proxmerge en op (Some s1) (Some s2) = Done (Some new, Some l, Some r) \<and> distinct (map record_num (hits new))
    \<and> records new = (if po_unit_code op = 1 then records s1 \<inter> records s2 else if po_unit_code op = 2 then records s1 \<union> records s2 else records s1 - records s2)
    \<and> (po_unit_code op \<noteq> 2 \<longrightarrow> l = sort_ranked (fuzzy_request s1) \<and> r = sort_ranked (fuzzy_request s2))"
proof -
  let ?c = "pe_callees en" and ?f1 = "fuzzy_request s1" and ?f2 = "fuzzy_request s2"
  have ok: "mergeable ?f1" "mergeable ?f2" "compatible ?f1 ?f2" using assms(1-3) fuzzy_compatible by simp_all
  have dist: "distinct (map record_num (hits (se_rank_docs new)))" if "mergeable new" for new
  proof -
    have "distinct (map record_num (hits new))"
      using that by_record_distinct by (auto simp: mergeable_def split: if_splits)
    then show ?thesis using mset_eq_imp_distinct_iff [OF mset_records_ranked [of new]] by simp
  qed
  consider "po_unit_code op = 1" | "po_unit_code op = 2" | "po_unit_code op = 3" using assms(5) by auto
  then show ?thesis
  proof cases
    case 1
    obtain new where "se_andmerge ?c (Some ?f1) (Some ?f2) = Done (Some new, Some (sort_ranked ?f1), Some (sort_ranked ?f2))"
      "records new = records s1 \<inter> records s2" "mergeable new"
      using se_andmerge_facts [OF ok, of ?c] unfolding fuzzy_request_facts by blast
    then show ?thesis
      using 1 assms(4) dist by (simp add: se_proxmerge_def private_merge_def fuzzy_merge_def rank_result_def)
  next
    case 2
    obtain new t1 t2 where "se_ormerge ?c (Some ?f1) (Some ?f2) FUZZY = Done (Some new, Some t1, Some t2)"
      "records new = records s1 \<union> records s2" "mergeable new"
      using se_ormerge_facts [OF ok, of ?c FUZZY] unfolding fuzzy_request_facts by blast
    then show ?thesis
      using 2 assms(4) dist by (simp add: se_proxmerge_def private_merge_def fuzzy_merge_def rank_result_def)
  next
    case 3
    obtain new where "se_notmerge ?c (Some ?f1) (Some ?f2) = Done (Some new, Some (sort_ranked ?f1), Some (sort_ranked ?f2))"
      "records new = records s1 - records s2" "mergeable new"
      using se_notmerge_facts [OF ok, of ?c] unfolding fuzzy_request_facts by blast
    then show ?thesis
      using 3 assms(4) dist by (simp add: se_proxmerge_def private_merge_def fuzzy_merge_def rank_result_def)
  qed
qed

theorem fuzzy_operators_are_boolean_witness:
  "\<exists>new l r. se_proxmerge sample_prox (words_apart 1\<lparr>po_unit_which := E8_private, po_unit_code := 3\<rparr>) (Some (sample_bool [2, 5, 9])) (Some (sample_bool [5]))
    = Done (Some new, Some l, Some r) \<and> records new = {2, 9}"
proof -
  have "records (sample_bool [2, 5, 9]) - records (sample_bool [5]) = {2, 9}" by (auto simp: sample_bool_facts(2))
  then show ?thesis
    using fuzzy_operators_are_boolean [of "sample_bool [2, 5, 9]" "sample_bool [5]" "words_apart 1\<lparr>po_unit_which := E8_private, po_unit_code := 3\<rparr>" sample_prox]
    by (auto simp: sample_bool_facts(1) sample_bool_compatible)
qed

section \<open>Where proximity goes wrong\<close>

text \<open>Finding: a match at the beginning of a record, at position 0, is the value for no match.\<close>

theorem match_at_start_lost:
  "se_prox_ordered [(1, Some [(1, 5) \<mapsto> [0], (2, 5) \<mapsto> [4]]), (2, Some [(1, 5) \<mapsto> [0], (2, 5) \<mapsto> [4]])] 5 10 = Done 0"
  by (simp add: se_prox_ordered_def term_positions_def prox_search_def ordered_near_def)

text \<open>
  Finding: of several positions of a term that follow the term before closely enough only the first is tried, so that with three terms a match
  is missed: 1, 6 and 11 are within five of each other.
\<close>

theorem three_terms_missed:
  "let db = Some [(1, 5) \<mapsto> [1], (2, 5) \<mapsto> [2, 6], (3, 5) \<mapsto> [11]] in se_prox_ordered [(1, db), (2, db), (3, db)] 5 5 = Done 0"
  by (simp add: Let_def se_prox_ordered_def term_positions_def prox_search_def ordered_near_def)

text \<open>
  Finding: a word that is asked for twice has the same positions for both terms; the code then compares the terms before and after the number of the
  position, and for the first position reads in front of the array.
\<close>

theorem doubled_word_reads_outside:
  "se_prox_ordered [(1, Some [(1, 5) \<mapsto> [3, 9]]), (1, Some [(1, 5) \<mapsto> [3, 9]])] 5 10 = Crash"
  by (simp add: se_prox_ordered_def term_positions_def prox_search_def doubled_term_def)

definition far_prox :: prox_env where
  "far_prox = sample_prox\<lparr>pe_prox_db := (\<lambda>p. Some (sample_positions((3, 5) := Some [1000])))\<rparr>"

text \<open>
  Finding: the result of a proximity operator has the terms of its operands but not their indexes, so that as an operand of a further proximity operator
  its terms are ignored: a record is found although its third word is a thousand characters away.
\<close>

theorem nested_proximity_ignores_distance:
  "\<exists>near l r new l1 r1. se_proxmerge far_prox (words_apart 2) (Some (sample_term 1 [5])) (Some (sample_term 2 [5])) = Done (Some near, l, r)
    \<and> se_proxmerge far_prox (words_apart 2) (Some near) (Some (sample_term 3 [5])) = Done (Some new, l1, r1) \<and> records new = {5}"
  by (simp add: far_prox_def se_proxmerge_def words_apart_def sample_term_def has_flag_def PROXIMITY_RESULT_def proximity_merge_def page_step_def PAGED_RESULT_def
     sort_prox_def prox_ranked_def result_flags Let_def sample_bool_def new_result_def hits_def ProxTest_def unit_length_def prox_terms_def terms_of_def
     se_prox_ordered_def term_positions_def sample_prox_def sample_positions_def prox_search_def c_int_def ordered_near_def new_entry_def merge_result_def records_def)

end
