(* ===== verification/Key_Norm.thy ===== *)
theory Key_Norm
  imports Posting_Index Stem
begin

text \<open>
  The keys of an index: \<open>src/index/normalize_key.c\<close> (diacritics, tags, class numbers, numbers, stop words and stems) and the
  plural stemmer of \<open>src/index/sstemmer.c\<close>. A buffer is the string before its first null. \<open>char\<close> is signed, but \<open>u\<close>
  is the code without a sign, which \<open>ch\<close> is.

  Parameters of an index are its type bits, its table of stop words and the routines of other files: \<open>wn_morph\<close> of WordNet,
  \<open>snowball_stem\<close>, \<open>parse_date\<close>, \<open>parse_latlong\<close>, and the floating-point key of \<open>sscanf\<close> and \<open>sprintf\<close>.
\<close>

unbundle bit_operations_syntax

section \<open>The type of an index\<close>

text \<open>Bits of \<open>type\<close> in \<open>src/header/configfiles.h\<close>.\<close>

definition EXACTKEY :: int where "EXACTKEY = 4"
definition KEYWORD :: int where "KEYWORD = 8"
definition WORDNET :: int where "WORDNET = 16"
definition STEMS :: int where "STEMS = 32"
definition CLASSCLUS :: int where "CLASSCLUS = 64"
definition PROXIMITY :: int where "PROXIMITY = 128"
definition INTEGER_KEY :: int where "INTEGER_KEY = 32768"
definition DECIMAL_KEY :: int where "DECIMAL_KEY = 65536"
definition FLOAT_KEY :: int where "FLOAT_KEY = 131072"
definition URL_KEY :: int where "URL_KEY = 262144"
definition FILENAME_KEY :: int where "FILENAME_KEY = 524288"
definition SNOWBALL_STEMS :: int where "SNOWBALL_STEMS = 1048576"
definition DATE_KEY :: int where "DATE_KEY = 2097152"
definition DATE_RANGE_KEY :: int where "DATE_RANGE_KEY = 4194304"
definition NORM_NOMAP :: int where "NORM_NOMAP = 8388608"
definition NORM_DO_NOTHING :: int where "NORM_DO_NOTHING = 33554432"
definition LAT_LONG_KEY :: int where "LAT_LONG_KEY = 134217728"
definition BOUNDING_BOX_KEY :: int where "BOUNDING_BOX_KEY = 268435456"
definition NORM_MIN :: int where "NORM_MIN = 1073741824"
definition SSTEMS :: int where "SSTEMS = - 2147483648"

lemmas type_bits = EXACTKEY_def KEYWORD_def WORDNET_def STEMS_def CLASSCLUS_def PROXIMITY_def INTEGER_KEY_def DECIMAL_KEY_def
  FLOAT_KEY_def URL_KEY_def FILENAME_KEY_def SNOWBALL_STEMS_def DATE_KEY_def DATE_RANGE_KEY_def NORM_NOMAP_def NORM_DO_NOTHING_def
  LAT_LONG_KEY_def BOUNDING_BOX_KEY_def NORM_MIN_def SSTEMS_def

text \<open>\<open>type & bits\<close> as a condition.\<close>

definition has_type :: "int \<Rightarrow> int \<Rightarrow> bool" where
  "has_type ty bits \<longleftrightarrow> ty AND bits \<noteq> 0"

section \<open>Diacritics\<close>

text \<open>The two \<open>switch\<close> statements, the same in \<open>detag_data_block\<close> and in \<open>conv_diacritics\<close>: the characters of the libraries' ALA set, and Latin-1.\<close>

definition ala_table :: "(nat \<times> string) list" where
  "ala_table = [(161, ''L''), (162, ''O''), (163, ''D''), (164, ''Th''), (165, ''AE''), (166, ''OE''), (167, ''_''), (168, ''_''),
     (169, ''_''), (170, ''_''), (171, ''_''), (172, ''O''), (173, ''U''), (174, ''_''), (175, ''_''), (176, ''_''), (177, ''l''),
     (178, ''o''), (179, ''d''), (180, ''th''), (181, ''ae''), (182, ''oe''), (183, ''_''), (184, ''i''), (185, ''_''), (186, ''d''),
     (187, ''_''), (188, ''o''), (189, ''u'')]"

definition latin_table :: "(nat \<times> string) list" where
  "latin_table = [(192, ''A''), (193, ''A''), (194, ''A''), (195, ''A''), (196, ''A''), (197, ''A''), (198, ''AE''), (199, ''C''),
     (200, ''E''), (201, ''E''), (202, ''E''), (203, ''E''), (204, ''I''), (205, ''I''), (206, ''I''), (207, ''I''), (208, ''Th''),
     (209, ''N''), (210, ''O''), (211, ''O''), (212, ''O''), (214, ''O''), (216, ''O''), (215, '' ''), (217, ''U''), (218, ''U''),
     (219, ''U''), (220, ''U''), (221, ''Y''), (222, ''Th''), (223, ''ss''), (224, ''a''), (225, ''a''), (226, ''a''), (227, ''a''),
     (228, ''a''), (229, ''a''), (230, ''ae''), (231, ''c''), (232, ''e''), (233, ''e''), (234, ''e''), (235, ''e''), (236, ''i''),
     (237, ''i''), (238, ''i''), (239, ''i''), (240, ''th''), (241, ''n''), (242, ''o''), (243, ''o''), (244, ''o''), (245, ''o''),
     (246, ''o''), (248, ''o''), (247, '' ''), (250, ''u''), (251, ''u''), (252, ''u''), (253, ''Y''), (255, ''Y''), (254, ''th'')]"

definition fold_by :: "(nat \<times> string) list \<Rightarrow> char \<Rightarrow> string" where
  "fold_by table c = (case map_of table (ch c) of None \<Rightarrow> [c] | Some s \<Rightarrow> s)"

text \<open>
  The test between the two tables is \<open>u < 192\<close> in \<open>detag_data_block\<close> and \<open>u < 223\<close> in \<open>conv_diacritics\<close>; with either the third
  branch, for what is in neither range, is never reached.
\<close>

definition fold_char :: "nat \<Rightarrow> char \<Rightarrow> string" where
  "fold_char limit c = (if ch c < limit then fold_by ala_table c else fold_by latin_table c)"

definition carriage_return :: char where "carriage_return = char_of (13::nat)"

definition maps_diacritics :: "int \<Rightarrow> bool" where
  "maps_diacritics ty \<longleftrightarrow> \<not> has_type ty (NORM_NOMAP OR NORM_MIN)"

text \<open>
  The character after carriage returns is copied as it is. At the end of the string the loop over carriage returns leaves \<open>c\<close> at
  the null, which the outer loop steps over.
\<close>

fun conv_loop :: "bool \<Rightarrow> bool \<Rightarrow> string \<Rightarrow> string run" where
  "conv_loop maps after_cr [] = (if after_cr then Crash else Done [])"
| "conv_loop maps after_cr (c # cs) =
     (if c = carriage_return then conv_loop maps True cs
      else run_bind (conv_loop maps False cs) (\<lambda>r.
        Done ((if \<not> after_cr \<and> maps \<and> 128 < ch c then fold_char 223 c else [c]) @ r)))"

text \<open>The buffer has 40 characters more than the string, the last for the null.\<close>

definition conv_diacritics :: "string \<Rightarrow> int \<Rightarrow> string run" where
  "conv_diacritics data index_type =
     (if index_type AND NORM_DO_NOTHING = NORM_DO_NOTHING then Done data
      else run_bind (conv_loop (maps_diacritics index_type) False data) (\<lambda>databuf.
        if length databuf < length data + 40 then Done databuf else Crash))"

section \<open>The text of a record\<close>

definition blank_if :: "bool \<Rightarrow> string" where
  "blank_if b = (if b then '' '' else [])"

text \<open>
  The loop over a tag, after its \<open><\<close>: what is written and what is left after the last \<open>>\<close>, \<open>None\<close> at the null. Adjacent tags are
  skipped together.
\<close>

function skip_tag :: "bool \<Rightarrow> string \<Rightarrow> string \<times> string option" where
  "skip_tag prox [] = (blank_if prox, None)"
| "skip_tag prox (x # xs) =
     (if x = CHR ''>'' \<and> (xs = [] \<or> hd xs \<noteq> CHR ''<'') then (blank_if prox, Some xs)
      else let (out, rest) = (if x = CHR ''>'' then skip_tag prox (tl xs) else skip_tag prox xs)
           in (blank_if prox @ (if x = CHR ''>'' then '' '' else []) @ out, rest))"
  by pat_completeness auto
termination by (relation "measure (\<lambda>(prox, xs). length xs)") (auto simp: less_Suc_eq_le)

declare skip_tag.simps [simp del]

text \<open>The marks that processing instructions leave: 1, 2, 3 closes up blanks, another 1 is skipped.\<close>

definition skip_marks :: "string \<Rightarrow> string" where
  "skip_marks s =
     (if take 3 s = map char_of [1, 2, 3 :: nat] then dropWhile (\<lambda>c. c = CHR '' '') (drop 3 s)
      else if take 1 s = [prox_mark] then drop 1 s else s)"

definition cdata_open :: string where "cdata_open = ''<![CDATA[''"

fun upto_close :: "string \<Rightarrow> string" where
  "upto_close [] = []"
| "upto_close (c # cs) = (if take 3 (c # cs) = '']]>'' then [] else c # upto_close cs)"

text \<open>The character at \<open>t\<close>, which is copied as it is after a tag and after carriage returns: what is written and what is left.\<close>

definition copy_next :: "bool \<Rightarrow> string \<Rightarrow> string \<times> string" where
  "copy_next prox s =
     (let crs = takeWhile (\<lambda>c. c = carriage_return) s; rest = dropWhile (\<lambda>c. c = carriage_return) s
      in (concat (map (\<lambda>c. blank_if prox) crs) @ take 1 rest, drop 1 rest))"

text \<open>
  One turn of the loop: what is written, whether a character of the ALA set was replaced, and what is left. A section \<open>CDATA\<close> is copied with its
  opening and all but the first character of its closing, which is stepped over. The buffer of the content has ten zeros after the data,
  more than the loop can step beyond the null.
\<close>

definition detag_step :: "bool \<Rightarrow> bool \<Rightarrow> bool \<Rightarrow> string \<Rightarrow> string \<times> bool \<times> string" where
  "detag_step flags prox maps s =
     (let cur = (if flags then skip_marks s else s) in
      if cur = [] then ([], False, [])
      else if take 9 cur = cdata_open
      then let body = upto_close cur in (body, False, drop (length body + 1) cur)
      else if hd cur = CHR ''<''
      then (let (out, rest) = skip_tag prox (tl cur) in
            case rest of
              None \<Rightarrow> (out @ blank_if prox, False, [])
            | Some xs \<Rightarrow> if prox then (out @ '' '', False, xs)
                       else let (t, left) = copy_next prox xs in (out @ t, False, left))
      else if hd cur = carriage_return
      then let (t, left) = copy_next prox cur in (t, False, left)
      else if maps \<and> 128 < ch (hd cur) then (fold_char 192 (hd cur), ch (hd cur) < 192, tl cur)
      else ([hd cur], False, tl cur))"

lemma skip_tag_shorter: "skip_tag prox s = (out, Some rest) \<Longrightarrow> length rest < length s"
proof (induction prox s arbitrary: out rest rule: skip_tag.induct)
  case (2 prox x xs)
  show ?case
  proof (cases "x = CHR ''>'' \<and> (xs = [] \<or> hd xs \<noteq> CHR ''<'')")
    case True
    then show ?thesis using 2(3) by (simp add: skip_tag.simps(2))
  next
    case False
    let ?ys = "if x = CHR ''>'' then tl xs else xs"
    obtain o1 where "skip_tag prox ?ys = (o1, Some rest)"
      using 2(3) False by (auto simp: skip_tag.simps(2) Let_def split: prod.splits if_splits)
    then have "length rest < length ?ys" using 2(1,2) [OF False] by (cases "x = CHR ''>''") auto
    then show ?thesis by (auto split: if_splits)
  qed
qed (simp add: skip_tag.simps(1))

lemma skip_marks_length: "length (skip_marks s) \<le> length s"
  using length_dropWhile_le [of "\<lambda>c. c = CHR '' ''" "drop 3 s"] by (auto simp: skip_marks_def)

lemma copy_next_length: "length (snd (copy_next prox s)) \<le> length s - 1"
  using length_dropWhile_le [of "\<lambda>c. c = carriage_return" s] by (simp add: copy_next_def Let_def diff_le_mono)

lemma detag_step_shorter:
  assumes "s \<noteq> []"
  shows "length (snd (snd (detag_step flags prox maps s))) < length s"
proof -
  define cur where "cur = (if flags then skip_marks s else s)"
  have le: "length cur \<le> length s" using skip_marks_length by (simp add: cur_def)
  show ?thesis
  proof (cases cur)
    case Nil
    then show ?thesis using assms by (simp add: detag_step_def Let_def flip: cur_def)
  next
    case (Cons t ts)
    have c: "length (snd (copy_next prox cur)) < length cur" "length (snd (copy_next prox xs)) \<le> length xs" for xs
      using copy_next_length [of prox cur] copy_next_length [of prox xs] Cons by auto
    have "length (snd (snd (detag_step flags prox maps s))) < length cur"
    proof (cases "snd (skip_tag prox ts)")
      case None
      then show ?thesis using Cons c(1) by (auto simp: detag_step_def Let_def case_prod_beta simp flip: cur_def)
    next
      case (Some xs)
      then have "length xs < length ts" using skip_tag_shorter [of prox ts _ xs] by (metis prod.collapse)
      then show ?thesis using Cons c(1) c(2) [of xs] Some by (auto simp: detag_step_def Let_def case_prod_beta simp flip: cur_def)
    qed
    with le show ?thesis by simp
  qed
qed

function detag_loop :: "bool \<Rightarrow> bool \<Rightarrow> bool \<Rightarrow> string \<Rightarrow> string \<times> bool" where
  "detag_loop flags prox maps s =
     (if s = [] then ([], False)
      else let st = detag_step flags prox maps s; r = detag_loop flags prox maps (snd (snd st))
           in (fst st @ fst r, fst (snd st) \<or> snd r))"
  by pat_completeness auto
termination
  by (relation "measure (\<lambda>(flags, prox, maps, s). length s)") (auto simp: detag_step_shorter)

declare detag_loop.simps [simp del]

text \<open>
  \<open>proc\<close> is \<open>in_proc_instr\<close> for data with processing instructions, which works in the buffer of the content; \<open>idx\<close> says whether there is
  an index, \<open>fixonly\<close> is the flag of \<open>index_fix\<close>.
\<close>

definition detag_data_block :: "bool \<Rightarrow> (string \<Rightarrow> string) option \<Rightarrow> string \<Rightarrow> int \<Rightarrow> bool \<Rightarrow> string option run" where
  "detag_data_block fixonly proc content index_type0 idx =
     (let index_type = (if \<not> idx \<and> index_type0 = 0 then index_type0 OR NORM_NOMAP else index_type0) in
      if content = [] then Done None
      else if index_type AND NORM_DO_NOTHING = NORM_DO_NOTHING then Done (Some content)
      else let orig = (case proc of None \<Rightarrow> content | Some f \<Rightarrow> f content);
               (databuf, contains_non_roman) = detag_loop (proc \<noteq> None) (has_type index_type PROXIMITY) (maps_diacritics index_type) orig
           in if length databuf \<ge> length content + 40 then Crash
              else if fixonly \<and> \<not> contains_non_roman then Done None else Done (Some databuf))"

section \<open>Plurals, class numbers, exact keys\<close>

definition sstem :: "string \<Rightarrow> string" where
  "sstem w =
     (let len = length w in
      if len \<le> 2 \<or> w ! (len - 1) \<noteq> CHR ''s'' then w
      else if w ! (len - 2) = CHR ''e''
      then if len > 3 \<and> w ! (len - 3) = CHR ''i'' \<and> w ! (len - 4) \<noteq> CHR ''e'' \<and> w ! (len - 4) \<noteq> CHR ''a''
           then take (len - 3) w @ ''y''
           else if len > 3 \<and> w ! (len - 3) \<notin> set ''aeio'' then take (len - 1) w else w
      else if w ! (len - 2) = CHR ''u'' \<or> w ! (len - 2) = CHR ''s'' \<or> ch (w ! (len - 2)) = 39 then w
      else take (len - 1) w)"

definition c_isalnum :: "char \<Rightarrow> bool" where
  "c_isalnum c \<longleftrightarrow> c_isalpha c \<or> c_isdigit c"

text \<open>\<open>%-ns\<close>\<close>

definition pad_right :: "nat \<Rightarrow> string \<Rightarrow> string" where
  "pad_right n s = s @ replicate (n - length s) (CHR '' '')"

text \<open>At most \<open>n\<close> characters of a kind, and what is left.\<close>

definition take_kind :: "nat \<Rightarrow> (char \<Rightarrow> bool) \<Rightarrow> string \<Rightarrow> string \<times> string" where
  "take_kind n kind s = (let t = takeWhile kind (take n s) in (t, drop (length t) s))"

text \<open>A full stop followed by a character of a kind.\<close>

definition stop_before :: "(char \<Rightarrow> bool) \<Rightarrow> string \<Rightarrow> bool" where
  "stop_before kind s \<longleftrightarrow> (case s of c # d # _ \<Rightarrow> c = CHR ''.'' \<and> kind d | _ \<Rightarrow> False)"

text \<open>The key has 25 characters, \<open>out\<close> 26; a class number with longer parts is printed past its end.\<close>

definition normalize_classnum :: "string \<Rightarrow> string option run" where
  "normalize_classnum s =
     (let (letters, r1) = take_kind 3 c_isalpha s; mainclass = map c_toupper letters in
      if mainclass = [] then Done None
      else let (mainsub, r2) = take_kind 9 c_isdigit (dropWhile c_isspace r1) in
      if mainsub = [] then Done None
      else let r3 = dropWhile c_isspace r2;
               decflag = stop_before c_isdigit r3;
               (decimal, r5) = (if decflag then take_kind 9 c_isdigit (dropWhile c_isspace (tl r3)) else ([], r3));
               r6 = dropWhile c_isspace r5;
               r7 = (if stop_before c_isalnum r6 then tl r6 else r6);
               subcutter = map c_toupper (fst (take_kind 11 c_isalnum r7));
               out = pad_right 3 mainclass @ pad_int 5 (atoi mainsub) @ (if decflag then ''.'' else '' '') @ pad_right 5 decimal
                 @ '' '' @ pad_right 10 subcutter
           in if length out < 26 then Done (Some out) else Crash)"

text \<open>The separators of the first token and of the others, which have \<open>+\<close> too.\<close>

definition xkey_breaks :: "char \<Rightarrow> bool" where
  "xkey_breaks c \<longleftrightarrow> ch c \<in> {9, 10, 11, 12, 13, 34, 39} \<or> c \<in> set '' `~!@#$%^&*()_=|{[]};:,<.>?/'' \<or> ch c = 92"

definition xkey_further :: "char \<Rightarrow> bool" where
  "xkey_further c \<longleftrightarrow> xkey_breaks c \<or> c = CHR ''+''"

definition two_step_tokens :: "(char \<Rightarrow> bool) \<Rightarrow> (char \<Rightarrow> bool) \<Rightarrow> string \<Rightarrow> string list" where
  "two_step_tokens first further s =
     (case strtok_first first s of (None, _, _) \<Rightarrow> [] | (Some t, rest, _) \<Rightarrow> t # strtok_all further rest)"

fun join_blank :: "string list \<Rightarrow> string" where
  "join_blank [] = []"
| "join_blank [t] = t"
| "join_blank (t # ts) = t @ '' '' @ join_blank ts"

definition trim_xkey :: "string \<Rightarrow> string" where
  "trim_xkey key = (let ts = two_step_tokens xkey_breaks xkey_further key in if ts = [] then key else join_blank ts)"

section \<open>The key of a word\<close>

record key_env =
  kn_type :: int
  kn_stop :: "string \<Rightarrow> bool"
  kn_wn_morph :: "string \<Rightarrow> string option"
  kn_snowball :: "string \<Rightarrow> string"
  kn_date :: "string \<Rightarrow> string option"
  kn_latlong :: "string \<Rightarrow> string option"
  kn_float :: "string \<Rightarrow> string option"

text \<open>
  What \<open>sscanf\<close> stores for \<open>%d\<close>: the low half of a \<open>long\<close>. On a string of white space it returns \<open>EOF\<close>, which the test for 0 does
  not catch, and the number that is printed was never set.
\<close>

definition stored_int :: "int \<Rightarrow> int" where
  "stored_int v = c_int (max (- (2 ^ 63)) (min (2 ^ 63 - 1) v))"

definition integer_key :: "string \<Rightarrow> string option run" where
  "integer_key raw =
     (if dropWhile c_isspace raw = [] then Crash
      else case scan_int raw of
        None \<Rightarrow> Done None
      | Some (v, _) \<Rightarrow> let s = pad_int 10 (stored_int v) in if length s < 11 then Done (Some s) else Crash)"

definition decimal_key :: "string \<Rightarrow> string option" where
  "decimal_key raw =
     (if dropWhile c_isspace raw = [] then Some (pad_int 10 0 @ ''.'' @ print_int 0)
      else case scan_int raw of
        None \<Rightarrow> None
      | Some (v, rest) \<Rightarrow>
          let part = (case rest of c # r \<Rightarrow> if c = CHR ''.'' then (case scan_int r of None \<Rightarrow> 0 | Some (d, _) \<Rightarrow> stored_int d) else 0 | [] \<Rightarrow> 0)
          in Some (pad_int 10 (stored_int v) @ ''.'' @ print_int part))"

definition lead_junk :: "char \<Rightarrow> bool" where
  "lead_junk c \<longleftrightarrow> c \<in> set ''+- .'' \<or> ch c \<in> {9, 10, 13}"

definition trail_junk :: "char \<Rightarrow> bool" where
  "trail_junk c \<longleftrightarrow> c \<in> set '' .-''"

text \<open>
  Trailing junk is cut from the place \<open>len - 1\<close> of a buffer of \<open>cap\<close> characters down. \<open>len\<close> is the length of the word as it came, unless
  it was recomputed.
\<close>

definition trim_junk :: "nat \<Rightarrow> nat \<Rightarrow> string \<Rightarrow> string run" where
  "trim_junk cap len s =
     (if len \<le> length s
      then let r = rev (dropWhile trail_junk (rev (take len s)))
           in if r = take len s then Done s else if r = [] then Crash else Done r
      else if len \<le> cap then Done s else Crash)"

text \<open>The branches for a word that is not a stop word.\<close>

definition key_of_word :: "key_env \<Rightarrow> string \<Rightarrow> string option run" where
  "key_of_word env s =
     (let ty = kn_type env in
      if has_type ty WORDNET then Done (Some (case kn_wn_morph env s of None \<Rightarrow> s | Some m \<Rightarrow> m))
      else if has_type ty STEMS then Done (Some (snd (Stem s)))
      else if has_type ty SSTEMS then Done (Some (sstem s))
      else if has_type ty SNOWBALL_STEMS then Done (Some (kn_snowball env s))
      else if has_type ty CLASSCLUS
      then run_bind (normalize_classnum s) (\<lambda>r. Done (Some (case r of None \<Rightarrow> pad_right 25 (map c_toupper (take 25 s)) | Some k \<Rightarrow> k)))
      else if has_type ty EXACTKEY then Done (Some (if CHR '' '' \<in> set s then trim_xkey s else s))
      else if has_type ty DATE_KEY \<or> has_type ty DATE_RANGE_KEY then Done (kn_date env s)
      else if has_type ty LAT_LONG_KEY \<or> has_type ty BOUNDING_BOX_KEY then Done (kn_latlong env s)
      else Done (Some s))"

definition numeric_bits :: int where
  "numeric_bits = INTEGER_KEY OR DECIMAL_KEY OR FLOAT_KEY"

definition numeric_key :: "key_env \<Rightarrow> string \<Rightarrow> string option run" where
  "numeric_key env raw =
     (let bits = kn_type env AND numeric_bits in
      if bits = INTEGER_KEY then integer_key raw
      else if bits = DECIMAL_KEY then Done (decimal_key raw)
      else if bits = FLOAT_KEY then Done (kn_float env raw)
      else Crash)"

definition after_junk :: "key_env \<Rightarrow> string \<Rightarrow> string" where
  "after_junk env raw =
     dropWhile lead_junk (if kn_stop env ''#NONUMBERS#'' then dropWhile (\<lambda>c. lead_junk c \<or> c_isdigit c) raw else raw)"

definition keeps_raw :: "int \<Rightarrow> bool" where
  "keeps_raw ty \<longleftrightarrow> ty AND NORM_DO_NOTHING = NORM_DO_NOTHING \<or> ty AND NORM_MIN = NORM_MIN"

definition normalize_key :: "key_env \<Rightarrow> string option \<Rightarrow> bool \<Rightarrow> string option run" where
  "normalize_key env raw_word dia_flag =
     (case raw_word of
        None \<Rightarrow> Done None
      | Some raw \<Rightarrow>
          let ty = kn_type env in
          if keeps_raw ty then Done (Some raw)
          else if has_type ty numeric_bits then numeric_key env raw
          else let c = after_junk env raw in
          if c = [] then Done None
          else run_bind
            (if dia_flag then run_bind (conv_diacritics c ty) (\<lambda>s. trim_junk (length c + 40) (length raw) s)
             else trim_junk (length c) (length c) c)
            (\<lambda>s. let w = map c_tolower s in if kn_stop env w then Done None else key_of_word env w))"

section \<open>Numbers as keys\<close>

text \<open>The order of the keys in an index file: octet by octet, a key before its extensions.\<close>

fun key_less :: "string \<Rightarrow> string \<Rightarrow> bool" where
  "key_less _ [] = False"
| "key_less [] (y # ys) = True"
| "key_less (x # xs) (y # ys) \<longleftrightarrow> ch x < ch y \<or> x = y \<and> key_less xs ys"

lemma foldl_digits: "foldl (\<lambda>v c. v * 10 + (int (ch c) - 48)) a s = a * 10 ^ length s + digits_value s"
proof (induction s arbitrary: a)
  case (Cons c s)
  show ?case using Cons [of "a * 10 + (int (ch c) - 48)"] Cons [of "int (ch c) - 48"]
    by (simp add: digits_value_def algebra_simps)
qed (simp add: digits_value_def)

lemma digits_value_Cons: "digits_value (c # s) = (int (ch c) - 48) * 10 ^ length s + digits_value s"
  using foldl_digits [of "int (ch c) - 48" s] by (simp add: digits_value_def)

lemma digits_value_append: "digits_value (s @ t) = digits_value s * 10 ^ length t + digits_value t"
  using foldl_digits [of "digits_value s" t] by (simp add: digits_value_def)

lemma digits_bounds:
  assumes "\<forall>c \<in> set s. c_isdigit c" shows "0 \<le> digits_value s \<and> digits_value s < 10 ^ length s"
  using assms
proof (induction s)
  case (Cons c s)
  have c: "0 \<le> int (ch c) - 48" "int (ch c) - 48 \<le> 9" using Cons.prems by (simp_all add: c_isdigit_def)
  have "(int (ch c) - 48) * 10 ^ length s \<le> 9 * 10 ^ length s" "0 \<le> (int (ch c) - 48) * (10 ^ length s :: int)"
    using c by (intro mult_right_mono mult_nonneg_nonneg; simp)+
  moreover have "0 \<le> digits_value s" "digits_value s < 10 ^ length s" using Cons by simp_all
  ultimately show ?case unfolding digits_value_Cons list.size by (simp only: add_0_right add_Suc_right power_Suc) linarith
qed (simp add: digits_value_def)

lemma ch_eq [simp]: "ch x = ch y \<longleftrightarrow> x = y"
  by (simp add: ch_def)

text \<open>Of two strings of digits as long as each other, the smaller number is the smaller key.\<close>

lemma digits_order:
  assumes "\<forall>c \<in> set s. c_isdigit c" "\<forall>c \<in> set t. c_isdigit c" "length s = length t"
  shows "key_less s t \<longleftrightarrow> digits_value s < digits_value t"
  using assms(3,1,2)
proof (induction s t rule: list_induct2)
  case (Cons x s y t)
  let ?p = "10 ^ length t :: int"
  have b: "0 \<le> digits_value s" "digits_value s < ?p" "0 \<le> digits_value t" "digits_value t < ?p"
    using digits_bounds [of s] digits_bounds [of t] Cons.prems Cons.hyps by auto
  have step: "a * ?p + u < b * ?p + v" if "a < b" "0 \<le> u" "u < ?p" "0 \<le> v" for a b u v :: int
  proof -
    have "(a + 1) * ?p \<le> b * ?p" using that(1) by (intro mult_right_mono) simp_all
    with that show ?thesis by (simp add: algebra_simps)
  qed
  consider "ch x < ch y" | "x = y" | "ch y < ch x" using ch_eq [of x y] by linarith
  then show ?case
  proof cases
    case 1
    then show ?thesis using step [of "int (ch x) - 48" "int (ch y) - 48"] b Cons.hyps by (simp add: digits_value_Cons)
  next
    case 2
    then show ?thesis using Cons by (simp add: digits_value_Cons)
  next
    case 3
    then show ?thesis using step [of "int (ch y) - 48" "int (ch x) - 48" "digits_value t" "digits_value s"] b Cons.hyps
      by (fastforce simp: digits_value_Cons)
  qed
qed (simp add: digits_value_def)

lemma digits_value_replicate: "digits_value (replicate n (CHR ''0'')) = 0"
  by (induction n) (simp_all add: digits_value_Cons ch_def, simp add: digits_value_def)

text \<open>A number printed with leading zeros.\<close>

lemma pad_int_facts:
  assumes "0 \<le> x" "x < 10 ^ n" "0 < n"
  shows "length (pad_int n x) = n" "\<forall>c \<in> set (pad_int n x). c_isdigit c" "digits_value (pad_int n x) = x"
proof -
  have p: "pad_int n x = replicate (n - length (nat_digits (nat x))) (CHR ''0'') @ nat_digits (nat x)"
    using assms(1) by (simp add: pad_int_def Let_def)
  obtain k where k: "n = Suc k" using assms(3) by (cases n) auto
  have "nat x < 10 ^ n" using assms(1,2) by (simp add: nat_less_iff)
  then have "length (nat_digits (nat x)) \<le> n" using length_nat_digits [of "nat x" k] k by simp
  then show "length (pad_int n x) = n" by (simp add: p)
  show "\<forall>c \<in> set (pad_int n x). c_isdigit c" using nat_digits_facts(2) [of "nat x"] by (auto simp: p c_isdigit_def ch_def)
  show "digits_value (pad_int n x) = x"
    using nat_digits_facts(3) [of "nat x"] assms(1) by (simp add: p digits_value_append digits_value_replicate)
qed

lemma scan_print: "0 \<le> x \<Longrightarrow> scan_int (print_int x) = Some (x, [])" "0 \<le> x \<Longrightarrow> dropWhile c_isspace (print_int x) \<noteq> []"
proof -
  assume x: "0 \<le> x"
  let ?d = "nat_digits (nat x)"
  obtain c r where cr: "?d = c # r" using nat_digits_facts(1) by (cases ?d) auto
  have "c_isdigit c" using nat_digits_facts(2) [of "nat x"] cr by simp
  note c = digit_not_special [OF this]
  have t: "takeWhile c_isdigit ?d = ?d" "dropWhile c_isdigit ?d = []"
    using nat_digits_facts(2) [of "nat x"] by (simp_all add: takeWhile_eq_all_conv)
  have "scan_digits False ?d = Some (x, [])"
    unfolding scan_digits_def t Let_def using x nat_digits_facts(1,3) [of "nat x"] by simp
  then show "scan_int (print_int x) = Some (x, [])"
    using x c cr by (simp add: print_int_def scan_int_def)
  show "dropWhile c_isspace (print_int x) \<noteq> []" using x c cr by (simp add: print_int_def)
qed

lemma integer_key_print:
  assumes "0 \<le> x" "x < 2147483648"
  shows "integer_key (print_int x) = Done (Some (pad_int 10 x))"
proof -
  have "stored_int x = x" using assms by (simp add: stored_int_def is_c_intI)
  moreover have "length (pad_int 10 x) = 10" using pad_int_facts(1) [of x 10] assms by simp
  ultimately show ?thesis using scan_print [OF assms(1)] by (simp add: integer_key_def Let_def)
qed

text \<open>
  C14: the keys of an integer index stand in the index file in the order of the numbers, and different numbers have different keys,
  for numbers that are not negative.
\<close>

theorem integer_keys_in_order:
  assumes "kn_type env AND numeric_bits = INTEGER_KEY" "\<not> keeps_raw (kn_type env)"
    and "0 \<le> x" "x < 2147483648" "0 \<le> y" "y < 2147483648"
  shows "\<exists>k l. normalize_key env (Some (print_int x)) dia = Done (Some k) \<and> normalize_key env (Some (print_int y)) dia = Done (Some l)
    \<and> (key_less k l \<longleftrightarrow> x < y) \<and> (k = l \<longleftrightarrow> x = y)"
proof -
  have "has_type (kn_type env) numeric_bits" using assms(1) by (simp add: has_type_def INTEGER_KEY_def)
  then have n: "normalize_key env (Some r) dia = integer_key r" for r
    using assms(1,2) by (simp add: normalize_key_def Let_def numeric_key_def)
  have f: "length (pad_int 10 z) = 10" "\<forall>c \<in> set (pad_int 10 z). c_isdigit c" "digits_value (pad_int 10 z) = z"
    if "0 \<le> z" "z < 2147483648" for z
    using pad_int_facts [of z 10] that by simp_all
  have "pad_int 10 x = pad_int 10 y \<longleftrightarrow> x = y" using f(3) assms(3-6) by metis
  then show ?thesis
    using digits_order [of "pad_int 10 x" "pad_int 10 y"] f assms(3-6) by (simp add: n integer_key_print)
qed

definition sample_keys :: "int \<Rightarrow> key_env" where
  "sample_keys ty = \<lparr>kn_type = ty, kn_stop = (\<lambda>s. s = ''the''), kn_wn_morph = (\<lambda>s. None), kn_snowball = (\<lambda>s. s),
     kn_date = (\<lambda>s. None), kn_latlong = (\<lambda>s. None), kn_float = (\<lambda>s. None)\<rparr>"

lemma sample_numbers: "kn_type (sample_keys INTEGER_KEY) AND numeric_bits = INTEGER_KEY" "\<not> keeps_raw (kn_type (sample_keys INTEGER_KEY))"
  by (simp_all add: sample_keys_def numeric_bits_def keeps_raw_def type_bits)

theorem integer_keys_in_order_witness:
  "\<exists>k l. normalize_key (sample_keys INTEGER_KEY) (Some (print_int 9)) False = Done (Some k)
    \<and> normalize_key (sample_keys INTEGER_KEY) (Some (print_int 10)) False = Done (Some l) \<and> key_less k l"
  using integer_keys_in_order [OF sample_numbers, of 9 10 False] by auto

text \<open>
  Finding: the keys of negative numbers stand in the opposite order, the least numbers are printed past the end of their buffer, and in a decimal
  index 1.05 and 1.5 have the same key.
\<close>

theorem number_keys_wrong:
  "\<exists>k l. integer_key ''-15'' = Done (Some k) \<and> integer_key ''-7'' = Done (Some l) \<and> key_less l k"
  "integer_key ''-1000000000'' = Crash"
  "decimal_key ''1.05'' = decimal_key ''1.5''"
proof -
  have "integer_key ''-15'' = Done (Some ''-000000015'')" "integer_key ''-7'' = Done (Some ''-000000007'')" by code_simp+
  moreover have "key_less ''-000000007'' ''-000000015''" by code_simp
  ultimately show "\<exists>k l. integer_key ''-15'' = Done (Some k) \<and> integer_key ''-7'' = Done (Some l) \<and> key_less l k" by blast
  have "10 \<le> length (nat_digits 1000000000)" by (simp add: nat_digits.simps)
  then have "\<not> length (pad_int 10 (- 1000000000)) < 11" by (simp add: pad_int_def Let_def)
  moreover have "scan_int ''-1000000000'' = Some (- 1000000000, [])" "dropWhile c_isspace ''-1000000000'' \<noteq> []"
    by (simp_all add: scan_int_def scan_digits_def c_isspace_def c_isdigit_def ch_def digits_value_def)
  moreover have "stored_int (- 1000000000) = - 1000000000" by (simp add: stored_int_def is_c_intI)
  ultimately show "integer_key ''-1000000000'' = Crash" unfolding integer_key_def by (simp del: dropWhile.simps add: Let_def)
  show "decimal_key ''1.05'' = decimal_key ''1.5''" by code_simp
qed

section \<open>Class numbers and plurals\<close>

lemma length_pad_int: "n \<le> length (pad_int n x)"
  unfolding pad_int_def Let_def by auto

lemma length_pad_right: "n \<le> length (pad_right n s)"
  by (simp add: pad_right_def)

lemma classnum_length:
  assumes "normalize_classnum s = Done (Some k)" shows "length k = 25"
proof -
  obtain m v sep d c where k: "k = pad_right 3 m @ pad_int 5 v @ [sep] @ pad_right 5 d @ '' '' @ pad_right 10 c" "length k < 26"
    using assms by (fastforce simp: normalize_classnum_def Let_def case_prod_beta split: if_splits)
  then have "25 \<le> length k" using length_pad_right [of 3 m] length_pad_int [of 5 v] length_pad_right [of 5 d] length_pad_right [of 10 c] by simp
  with k(2) show ?thesis by simp
qed

text \<open>
  C15: every key of a class number index has 25 characters, whether the class number could be read or not: the parts
  stand in the same columns of all keys.
\<close>

theorem class_keys_have_fixed_length:
  assumes "has_type (kn_type env) CLASSCLUS" "\<forall>b \<in> set [WORDNET, STEMS, SSTEMS, SNOWBALL_STEMS]. \<not> has_type (kn_type env) b"
    and "\<not> has_type (kn_type env) numeric_bits" "\<not> keeps_raw (kn_type env)"
    and "normalize_key env raw dia = Done (Some k)"
  shows "length k = 25"
proof -
  let ?ty = "kn_type env"
  have o: "\<not> has_type ?ty WORDNET \<and> \<not> has_type ?ty STEMS \<and> \<not> has_type ?ty SSTEMS \<and> \<not> has_type ?ty SNOWBALL_STEMS"
    using assms(2) by simp
  have key: "length j = 25" if "key_of_word env s = Done (Some j)" for s j
    using that assms(1) o classnum_length [of s j]
    by (cases "normalize_classnum s") (auto simp: key_of_word_def pad_right_def split: option.splits)
  obtain s where "key_of_word env s = Done (Some k)"
    using assms(3-5) by (auto simp: normalize_key_def Let_def split: option.splits if_splits elim!: run_bind.elims)
  then show ?thesis by (rule key)
qed

lemma sstem_cases:
  "sstem w = w \<or> (\<exists>v. sstem w = v @ ''y'' \<and> w = v @ ''ies'') \<or> (\<exists>c v. w = v @ [c] @ ''s'' \<and> sstem w = v @ [c] \<and> c \<noteq> CHR ''s'')"
proof (cases "length w \<le> 2 \<or> w ! (length w - 1) \<noteq> CHR ''s''")
  case False
  then have "length (drop (length w - 3) w) = 3" by simp
  moreover have "\<exists>b c d. xs = [b, c, d]" if "length xs = 3" for xs :: string
    using that by (auto simp: numeral_3_eq_3 length_Suc_conv)
  ultimately obtain b c d where "drop (length w - 3) w = [b, c, d]" by blast
  then have "w = take (length w - 3) w @ [b, c, d]" by (metis append_take_drop_id)
  moreover from this have "d = CHR ''s''" using False by (metis last_conv_nth last_append last.simps list.distinct(1) append_is_Nil_conv)
  ultimately obtain v where w: "w = v @ [b, c] @ ''s''" by (metis append_Cons append_Nil)
  have n: "w ! (length w - 2) = c" "w ! (length w - 3) = b" "take (length w - 1) w = v @ [b, c]" "take (length w - 3) w = v"
    by (simp_all add: w nth_append)
  then show ?thesis using w
    by (auto simp: sstem_def Let_def split: if_splits)
qed (simp add: sstem_def)

lemma sstem_idem: "sstem (sstem w) = sstem w"
proof -
  have "sstem (v @ [c]) = v @ [c]" if "c \<noteq> CHR ''s''" for v c using that by (simp add: sstem_def Let_def)
  note still = this
  from sstem_cases [of w] show ?thesis
  proof (elim disjE exE conjE)
    fix v assume "sstem w = v @ ''y''"
    then show ?thesis using still [of "CHR ''y''" v] by simp
  qed (use still in auto)
qed

lemma sstem_shorter: "length (sstem w) \<le> length w"
  using sstem_cases [of w] by auto

section \<open>Keys of records and keys of queries\<close>

text \<open>A character that neither ends a word nor is treated differently in a record and in a query.\<close>

definition plain_char :: "char \<Rightarrow> bool" where
  "plain_char c \<longleftrightarrow> c \<noteq> carriage_return \<and> c \<noteq> CHR ''<'' \<and> \<not> lead_junk c \<and> ch c \<noteq> 247 \<and> \<not> (192 \<le> ch c \<and> ch c < 223)"

definition folded :: "bool \<Rightarrow> string \<Rightarrow> string" where
  "folded maps w = concat (map (\<lambda>c. if maps \<and> 128 < ch c then fold_char 223 c else [c]) w)"

lemma fold_values:
  assumes "map_of (ala_table @ latin_table) n = Some s" "n \<noteq> 247" "n \<noteq> 215"
  shows "s \<noteq> [] \<and> length s \<le> 2 \<and> list_all (\<lambda>c. \<not> lead_junk c) s"
proof -
  have "list_all (\<lambda>(n, s). n = 247 \<or> n = 215 \<or> s \<noteq> [] \<and> length s \<le> 2 \<and> list_all (\<lambda>c. \<not> lead_junk c) s) (ala_table @ latin_table)"
    by code_simp
  then show ?thesis using map_of_SomeD [OF assms(1)] assms(2,3) by (auto simp: list_all_iff)
qed

lemma fold_tables: "map_of ala_table n = Some s \<Longrightarrow> map_of (ala_table @ latin_table) n = Some s"
  "map_of latin_table n = Some s \<Longrightarrow> map_of (ala_table @ latin_table) n = Some s"
proof -
  show "map_of ala_table n = Some s \<Longrightarrow> map_of (ala_table @ latin_table) n = Some s" by (simp add: map_of_append)
  assume l: "map_of latin_table n = Some s"
  have "list_all (\<lambda>(n, s). 191 < n) latin_table" "list_all (\<lambda>(n, s). n < 190) ala_table" by code_simp+
  then have "n \<notin> fst ` set ala_table" using map_of_SomeD [OF l] by (fastforce simp: list_all_iff)
  then have "map_of ala_table n = None" by (simp add: map_of_eq_None_iff)
  then show "map_of (ala_table @ latin_table) n = Some s" using l by (simp add: map_add_def)
qed

lemma fold_plain:
  assumes "plain_char c"
  shows "fold_char 192 c = fold_char 223 c" "fold_char 223 c \<noteq> [] \<and> length (fold_char 223 c) \<le> 2 \<and> list_all (\<lambda>d. \<not> lead_junk d) (fold_char 223 c)"
proof -
  show "fold_char 192 c = fold_char 223 c" using assms by (simp add: fold_char_def plain_char_def)
  have n: "ch c \<noteq> 247" "ch c \<noteq> 215" "\<not> lead_junk c" using assms by (auto simp: plain_char_def)
  have "fold_by t c \<noteq> [] \<and> length (fold_by t c) \<le> 2 \<and> list_all (\<lambda>d. \<not> lead_junk d) (fold_by t c)"
    if "\<And>s. map_of t (ch c) = Some s \<Longrightarrow> map_of (ala_table @ latin_table) (ch c) = Some s" for t
    using that fold_values [OF _ n(1,2)] n(3) by (auto simp: fold_by_def split: option.split)
  then show "fold_char 223 c \<noteq> [] \<and> length (fold_char 223 c) \<le> 2 \<and> list_all (\<lambda>d. \<not> lead_junk d) (fold_char 223 c)"
    using fold_tables by (simp add: fold_char_def)
qed

lemma folded_facts:
  assumes "\<forall>c \<in> set w. plain_char c"
  shows "length w \<le> length (folded maps w)" "length (folded maps w) \<le> 2 * length w" "\<forall>d \<in> set (folded maps w). \<not> lead_junk d"
proof -
  have "length w \<le> length (folded maps w) \<and> length (folded maps w) \<le> 2 * length w \<and> (\<forall>d \<in> set (folded maps w). \<not> lead_junk d)"
    using assms
  proof (induction w)
    case (Cons c w)
    have "fold_char 223 c \<noteq> []" "length (fold_char 223 c) \<le> 2" "\<forall>d \<in> set (fold_char 223 c). \<not> lead_junk d" "\<not> lead_junk c"
      using fold_plain(2) [of c] Cons.prems by (auto simp: list_all_iff plain_char_def)
    moreover from this(1) have "1 \<le> length (fold_char 223 c)" by (cases "fold_char 223 c") auto
    ultimately show ?case using Cons by (auto simp: folded_def)
  qed (simp add: folded_def)
  then show "length w \<le> length (folded maps w)" "length (folded maps w) \<le> 2 * length w" "\<forall>d \<in> set (folded maps w). \<not> lead_junk d"
    by blast+
qed

lemma conv_loop_plain: "\<forall>c \<in> set w. plain_char c \<Longrightarrow> conv_loop maps False w = Done (folded maps w)"
  by (induction w) (auto simp: folded_def plain_char_def)

lemma detag_loop_plain: "\<forall>c \<in> set w. plain_char c \<Longrightarrow> fst (detag_loop False prox maps w) = folded maps w"
proof (induction w)
  case (Cons c w)
  have "c \<noteq> carriage_return" "c \<noteq> CHR ''<''" "fold_char 192 c = fold_char 223 c"
    using Cons.prems fold_plain(1) [of c] by (auto simp: plain_char_def)
  then have "detag_step False prox maps (c # w) = (if maps \<and> 128 < ch c then fold_char 223 c else [c], maps \<and> 128 < ch c \<and> ch c < 192, w)"
    by (auto simp: detag_step_def cdata_open_def Let_def)
  then show ?case using Cons by (simp add: detag_loop.simps [of _ _ _ "c # w"] Let_def folded_def)
qed (simp add: detag_loop.simps folded_def)

lemma trail_lead: "trail_junk c \<Longrightarrow> lead_junk c"
  by (auto simp: trail_junk_def lead_junk_def)

lemma trim_junk_none:
  assumes "\<forall>d \<in> set s. \<not> lead_junk d" "n \<le> length s" shows "trim_junk cap n s = Done s"
proof -
  have "dropWhile trail_junk (rev (take n s)) = rev (take n s)"
    using assms(1) trail_lead set_take_subset [of n s] by (cases "rev (take n s)") (auto dest: arg_cong [of _ _ set])
  then show ?thesis using assms(2) by (simp add: trim_junk_def Let_def)
qed

text \<open>
  C13: a word of a record and the same word in a query have the same key, although the diacritics of the record are replaced when its tags are
  removed and those of the query when the key is made. The word is of plain characters and shorter than the room for replacements.
\<close>

theorem query_key_is_record_key:
  assumes "w \<noteq> []" "\<forall>c \<in> set w. plain_char c" "length w < 40"
    and "\<not> has_type (kn_type env) numeric_bits" "\<not> kn_stop env ''#NONUMBERS#''"
  shows "\<exists>t. detag_data_block False None w (kn_type env) True = Done (Some t)
    \<and> normalize_key env (Some w) True = normalize_key env (Some t) False"
proof -
  let ?ty = "kn_type env" and ?f = "folded (maps_diacritics (kn_type env)) w"
  note f = folded_facts [OF assms(2), of "maps_diacritics ?ty"]
  have "?f \<noteq> []" using f(1) assms(1) by auto
  have skip: "dropWhile lead_junk v = v" if "\<forall>d \<in> set v. \<not> lead_junk d" for v using that by (cases v) auto
  have w: "\<forall>d \<in> set w. \<not> lead_junk d" using assms(2) by (auto simp: plain_char_def)
  show ?thesis
  proof (cases "?ty AND NORM_DO_NOTHING = NORM_DO_NOTHING")
    case True
    then show ?thesis using assms(1) by (simp add: detag_data_block_def normalize_key_def keeps_raw_def)
  next
    case False
    have d: "detag_data_block False None w ?ty True = Done (Some ?f)"
      using False assms(1,3) f(2) detag_loop_plain [OF assms(2)]
      by (simp add: detag_data_block_def case_prod_beta)
    have c: "conv_diacritics w ?ty = Done ?f"
      using False assms(3) f(2) conv_loop_plain [OF assms(2)] by (simp add: conv_diacritics_def)
    have "normalize_key env (Some w) True = normalize_key env (Some ?f) False"
    proof (cases "keeps_raw ?ty")
      case True
      then have m: "?ty AND NORM_MIN = NORM_MIN" using \<open>\<not> ?ty AND NORM_DO_NOTHING = NORM_DO_NOTHING\<close> by (simp add: keeps_raw_def)
      have e: "?ty AND NORM_MIN = (?ty AND (NORM_NOMAP OR NORM_MIN)) AND NORM_MIN" by (auto simp: bit_eq_iff bit_simps)
      have "\<not> maps_diacritics ?ty"
      proof
        assume "maps_diacritics ?ty"
        then have "?ty AND NORM_MIN = 0 AND NORM_MIN" using e by (simp only: maps_diacritics_def has_type_def not_not)
        then have "NORM_MIN = 0" using m by (simp only: zero_and_eq)
        then show False by (simp add: NORM_MIN_def)
      qed
      then have "?f = w" by (simp add: folded_def)
      with True show ?thesis by (simp add: normalize_key_def)
    next
      case False
      have a: "after_junk env w = w" "after_junk env ?f = ?f" using assms(5) skip w f(3) by (simp_all add: after_junk_def)
      show ?thesis
        using False assms(1,4) \<open>?f \<noteq> []\<close> c trim_junk_none [OF f(3) f(1)] trim_junk_none [OF f(3), of "length ?f"]
        by (simp add: normalize_key_def a Let_def)
    qed
    with d show ?thesis by blast
  qed
qed

definition cafe :: string where "cafe = ''caf'' @ [char_of (233 :: nat)]"

theorem query_key_is_record_key_witness:
  "\<exists>t. detag_data_block False None cafe KEYWORD True = Done (Some t)
    \<and> normalize_key (sample_keys KEYWORD) (Some cafe) True = normalize_key (sample_keys KEYWORD) (Some t) False"
proof -
  have "cafe \<noteq> []" "list_all plain_char cafe" "length cafe < 40" "\<not> has_type (kn_type (sample_keys KEYWORD)) numeric_bits"
      "\<not> kn_stop (sample_keys KEYWORD) ''#NONUMBERS#''"
    by code_simp+
  note query_key_is_record_key [OF this(1) this(2) [unfolded list_all_iff] this(3-5)]
  then show ?thesis by (simp add: sample_keys_def)
qed

definition e_acute :: char where "e_acute = char_of (201 :: nat)"

text \<open>
  Finding: capital letters of Latin-1 with an accent are replaced in records and not in queries, where the range of the table for
  the ALA set reaches too far: a query that begins with one never finds its record.
\<close>

theorem capital_accent_not_found:
  "detag_data_block False None (e_acute # ''cole'') KEYWORD True = Done (Some ''Ecole'')"
  "normalize_key (sample_keys KEYWORD) (Some ''Ecole'') False = Done (Some ''ecole'')"
  "normalize_key (sample_keys KEYWORD) (Some (e_acute # ''cole'')) True = Done (Some (e_acute # ''cole''))"
  by code_simp+

text \<open>
  Finding: the place from which trailing junk is cut is computed from the word before its leading junk was skipped: in a query junk is left.
\<close>

theorem junk_kept_after_hyphen:
  "normalize_key (sample_keys KEYWORD) (Some ''-cats.'') False = Done (Some ''cats'')"
  "normalize_key (sample_keys KEYWORD) (Some ''-cats.'') True = Done (Some ''cats.'')"
  by code_simp+

text \<open>
  Finding: a class number with long parts is printed past the end of its buffer.
\<close>

theorem class_number_overruns: "normalize_classnum ''qa 1.123456789 .c1234567890'' = Crash"
  by code_simp

text \<open>
  Finding: a carriage return at the end of a query term has the loop over its characters step over the terminating null.
\<close>

theorem final_return_overruns: "normalize_key (sample_keys KEYWORD) (Some (''cat'' @ [carriage_return])) True = Crash"
  by code_simp

theorem class_keys_have_fixed_length_witness:
  "\<exists>k. normalize_key (sample_keys CLASSCLUS) (Some ''qa76.9 .d35'') False = Done (Some k) \<and> length k = 25"
proof -
  have k: "normalize_key (sample_keys CLASSCLUS) (Some ''qa76.9 .d35'') False = Done (Some ''QA 00076.9     D35       '')" by code_simp
  moreover have "has_type (kn_type (sample_keys CLASSCLUS)) CLASSCLUS" "\<not> has_type (kn_type (sample_keys CLASSCLUS)) numeric_bits"
      "\<not> keeps_raw (kn_type (sample_keys CLASSCLUS))"
      "list_all (\<lambda>b. \<not> has_type (kn_type (sample_keys CLASSCLUS)) b) [WORDNET, STEMS, SSTEMS, SNOWBALL_STEMS]"
    by code_simp+
  ultimately show ?thesis
    using class_keys_have_fixed_length [OF _ _ _ _ k] by (simp only: list_all_iff) blast
qed
end
