(* ===== verification/Spec2Isabelle.thy ===== *)
theory Spec2Isabelle
  imports Stem Pdu_Faults Query Components Bitmap_Search Result_Store Page_Docs Search_Request Batch_Load Prox_Merge Key_Norm
begin

text \<open>
  A verification library for the Cheshire II information retrieval system.

  \<^bold>\<open>The program.\<close> Cheshire II indexes SGML records and answers Z39.50 queries on them. The
  indexer (\<open>src/index\<close>) extracts keys from records, stems them and writes inverted files, some of
  them as bitmaps. The server (\<open>src/zserver\<close>) reads BER encoded requests from a connection
  (\<open>src/socket\<close>, \<open>src/zpdu\<close>) and hands the query tree to the search engine (\<open>src/search\<close>), which fetches
  a result set for every search term, combines the sets with the Boolean operators, ranks them, and
  keeps results under names for later queries (in a hash table, \<open>src/tclhash\<close>, and in files).

  \<^bold>\<open>The theories\<close>, in the order of their imports:
  \<^item> \<open>Prelude\<close>, \<open>Octet_IO\<close>: octets, C integers, and the two interfaces of the BER routines, the
    locales \<open>octet_sink\<close> (what octets are written to) and \<open>octet_source\<close> (what they are read from).
  \<^item> \<open>C_Float\<close>, \<open>C_String\<close>, \<open>Qsort\<close>: what the program uses of the C language and library. Floating point is
    IEEE binary32 and binary64 over the reals, rounding to nearest, with infinities and NaN; \<open>qsort\<close>
    is an arbitrary-comparison sort behind the locale \<open>sorter\<close>.
  \<^item> \<open>Stem\<close> is \<open>index/stem.c\<close>: the rule tables, the automaton \<open>WordSize\<close>, \<open>ReplaceEnd\<close> and \<open>Stem\<close>. Words are
    buffers with a terminator. The properties: a refinement of the published sequence of rewritings, buffer
    safety, and one place where the shared pointer \<open>EndPtr\<close> makes the stem of a stem differ.
  \<^item> \<open>Dbuf\<close> is the buffer of \<open>zpdu/asn_utils.c\<close>, \<open>Socket\<close> is \<open>socket/conutils.c\<close>, \<open>Ber\<close> the tag and length
    octets of \<open>zpdu/ber_encode.c\<close> and \<open>zpdu/ber_decode.c\<close>. The decoders run on any \<open>octet_source\<close>; \<open>Dbuf\<close>
    and \<open>Socket\<close> interpret it, so the round trips hold for a buffer and for a connection that
    delivers the octets in any pieces. The system calls are a script of outcomes: data, failures, a peer that falls silent, the
    end of the file. \<open>ending_source\<close> extends the locale for sources whose end is reported: buffers, and connections that end.
  \<^item> \<open>Ber_Prim\<close> has the contents octets of the primitive values (the \<open>encode_\<close> routines of
    \<open>zpdu/ber_encode.c\<close>, the \<open>Decode\<close> routines of \<open>zpdu/ber_decode.c\<close>, \<open>oid_convert\<close> of \<open>zpdu/utils.c\<close>), \<open>Ber_Oid\<close> relates
    object identifiers in text to their octets. \<open>Asn_Tree\<close> is \<open>zpdu/asn_node.c\<close> with the routines that attach leaves to a
    tree and read them back, and the receiving loops \<open>GetPDUFromFile\<close> and \<open>GetPDUFromStream\<close>. The locale
    \<open>waiting_mode\<close> states what a loop needs of the wait for input; it is interpreted for files, for the client and for the
    server. The properties: a value sent as a tree over a connection is the value received, in any pieces.
    \<open>Pdu_Faults\<close> shows what the loops do on input that is cut short or malformed, on which connections they return and on which they
    wait for ever; \<open>timed_mode\<close> extends \<open>waiting_mode\<close> by what a limit on the wait gives.
  \<^item> \<open>Rpn_Codec\<close> and \<open>Search_Request\<close> are the routines of \<open>zpdu/z3_encode.c\<close> and \<open>zpdu/z3_decode.c\<close> for queries, for search
    requests and for the requests and responses that open a session, on the structures of \<open>header/z3950_3.h\<close>. The locale \<open>wire_type\<close>
    of \<open>Rpn_Wire\<close> states what a routine and its counterpart owe each other: the tree built for a value represents it, and any tree that
    represents it is decoded to the value. Its interpretations give the properties: what is sent over a connection is what arrives.
  \<^item> \<open>Result_Set\<close> has the structures of \<open>header/cheshire.h\<close>, \<open>se_sortset\<close>, \<open>se_rank_docs\<close> and the normalisation of
    weights; \<open>Components\<close> has the results that are parts of documents (\<open>se_comp2doc.c\<close>,
    \<open>se_comp_minmax.c\<close>, \<open>get_component_record\<close>).
  \<^item> \<open>Boolean_Merge\<close> has \<open>se_andmerge\<close>, \<open>se_notmerge\<close> and \<open>se_ormerge\<close> on all paths, the record \<open>callees\<close> holding
    the routines of other files they delegate to; \<open>Query\<close> is \<open>se_process_query.c\<close>, proved once
    in the locale \<open>boolean_merges\<close> and interpreted on the three merges.
  \<^item> \<open>Prox_Scan\<close> and \<open>Prox_Merge\<close> are \<open>search/se_proxmerge.c\<close>: the search for positions of terms that are near each other, over the files
    of positions that \<open>Posting_Index\<close> fills, the restriction of component sets, and the operators that are sent as proximity with private
    unit codes. The locale \<open>position_scan\<close> says what a scan for the next position owes the search; both scans interpret it.
  \<^item> \<open>Bitmap_Index\<close> and \<open>Bitmap_Search\<close> are \<open>index/in_bitmaps.c\<close>, the block macros of \<open>header/bitmaps.h\<close>,
    \<open>se_bitmap_merge.c\<close> and the block access of \<open>se_bitmap.c\<close>. The Berkeley DB file is a pair of maps. The array that
    \<open>se_bitmaps_and\<close> allocates is part of the model: an AND of sets whose hits are counted stays within it, a NOT need not.
  \<^item> \<open>Posting_Index\<close> is \<open>index/in_kwadd.c\<close> and \<open>index/in_kwdel.c\<close>: a record is put into all indexes of its file and taken out again. The
    locale \<open>word_op\<close> says what an operation on one word does to what an index says, \<open>word_index\<close> that adding and deleting
    are inverse; \<open>posting_words\<close> and \<open>bitmap_words\<close> interpret them for the two kinds of indexes.
  \<^item> \<open>Batch_Line\<close> and \<open>Batch_Load\<close> are the batch run, \<open>index/in_batch_load.c\<close> and the loop of \<open>index/in_load.c\<close>: the lines of the
    temporary files are read back as they were written, sorting brings the lines of a word into the order of the records, and the
    indexes get the contents that indexing record by record gives them. Files have no primary key there; with one the
    two runs differ, which a theorem shows.
  \<^item> \<open>Key_Norm\<close> is \<open>index/normalize_key.c\<close>, with the stemmer of \<open>Stem\<close>: the text of a record without its tags, the replacement of diacritics,
    and the key of a word, in records and in queries. The properties: both sides agree on words of plain characters, the keys of numbers are in the order of
    the numbers, those of class numbers fill their columns; and where these fail.
  \<^item> \<open>Tcl_Hash\<close> is \<open>tclhash/tclHash.c\<close>: buckets, the hash function on 32 bit words, rebuilding and the search
    cursor. The locale \<open>keyed_table\<close> is its contract, a finite map; the interpretation \<open>tcl\<close>
    discharges it for tables of all three kinds of keys.
  \<^item> \<open>Page_Docs\<close> is \<open>search/se_get_page_docs.c\<close>, over \<open>tcl\<close>: the buffers of the page associator files and the
    documents of a set of pages. The properties: the set has exactly the documents of the pages with the weights of the
    source, and the AND of a ranked set of pages with documents, through \<open>Boolean_Merge\<close>, is right, while that of an
    unranked one can lose documents.
  \<^item> \<open>Result_Store\<close> is \<open>search/se_get_result.c\<close> over \<open>tcl\<close>: a heap of result sets, a file store and the table of
    names. The step relation \<open>session\<close> interleaves its operations; \<open>store_ok\<close> is the invariant, which holds until a set that
    bears a name replaces the set of another name.

  \<^bold>\<open>Conventions.\<close> A routine that may read through a null pointer or outside an object returns
  \<open>Crash\<close>; a theorem that gives \<open>Done\<close> therefore also excludes this. C \<open>int\<close> values are integers, and
  operations that can wrap are written with the wrap. Allocation succeeds.

  \<^bold>\<open>Bounds.\<close> The loops of the source are structural recursions or have a proved measure, and the functions are
  total. Two bounds on sizes appear as hypotheses: \<open>dbuf_capacity\<close> (300000000 octets, so that doubling the
  size of a buffer stays in an \<open>int\<close>) and \<open>table_room\<close> (805306367 entries, so that the size at
  which a table is rebuilt stays in an \<open>int\<close>). The reading loop of \<open>Socket\<close> consumes its script of system calls; it waits for ever
  for a silent peer, and after an interruption at the end of the file, as theorems state. That loop, the receiving loop of \<open>Asn_Tree\<close> and the scan of an object identifier are the loops of
  the source that need not end: they are partial functions, \<open>None\<close> is a run that never returns, and there are theorems for the inputs on which
  they return and for some on which they do not. Octets of a buffer that the source never sets are parameters.

  \<^bold>\<open>Not modelled.\<close> The encoders and decoders of the other protocol messages and the choice between the messages
  (\<open>EncodePDU\<close>, \<open>DecodePDU\<close>), which repeat the pattern of the modelled ones, and the routines that fill, print and free the
  structures; external values are parameters. The round trips of \<open>Rpn_Wire\<close> and \<open>Search_Request\<close> leave out what the two sides do not
  agree on: values of type \<open>any\<close>, semantic actions, and negative integers of at most three octets. The
  server loop and the clients, which are input and output; the SGML parser, the configuration
  and the query language, driven by generated tables; ranking formulas that need \<open>exp\<close>, \<open>log\<close> and
  trigonometric functions of the C library; the walk over the fields of a parsed record (\<open>in_extract\<close>), which \<open>Posting_Index\<close> takes as a parameter, paged indexes and indexes of
  components, and temporary files left by an earlier batch run; Berkeley DB, GNU regex, Snowball
  and WordNet, which are third-party libraries, and the keys of dates, latitudes and floating-point numbers. Index access, relevance feedback and
  the hybrid, page and virtual merges are parameters; \<open>Query\<close> takes \<open>se_proxmerge\<close> as a parameter, which \<open>Prox_Merge\<close> models.
\<close>

end
